(* ===== verification/Prelude.thy ===== *)
theory Prelude
  imports Main "HOL-Library.AList" "HOL-Library.Char_ord" "HOL-Library.List_Lexorder"
begin

text \<open>
  What every theory of the development shares: exceptions as values of a sum type, Python
  dictionaries as association lists with distinct keys (insertion order kept, as Python keeps
  it), and the string operations the services use to build and to split Redis keys and fields
  (\<open>str(int)\<close>, \<open>partition\<close>, \<open>split\<close>, \<open>strip\<close>, \<open>lower\<close>).
  Strings are lists of characters; the sources only ever cut them at ASCII characters.
\<close>

named_theorems dict_simps \<open>lookups and key sets of updated dictionaries\<close>
named_theorems str_simps \<open>shapes of printed numbers and of cut strings\<close>

section \<open>Exceptions as values\<close>

text \<open>
  One constructor per exception class the sources raise; messages are not modelled.
  \<open>HttpError\<close> is FastAPI's \<open>HTTPException\<close> with its status code.
\<close>

datatype py_error =
    ValueError
  | KeyError
  | TypeError
  | ZeroDivisionError
  | OverflowError
  | RuntimeError
  | ResponseError
  | RedisError
  | IngestError
  | IntegrityError
  | IndexError
  | AttributeError
  | AssertionError
  | FileNotFoundError
  | HttpError nat

type_synonym 'a res = "py_error + 'a"

definition bind_res :: "'a res \<Rightarrow> ('a \<Rightarrow> 'b res) \<Rightarrow> 'b res" where
  "bind_res m f = (case m of Inl e \<Rightarrow> Inl e | Inr x \<Rightarrow> f x)"

lemma bind_res_simps [simp]:
  "bind_res (Inl e) f = Inl e"
  "bind_res (Inr x) f = f x"
  by (simp_all add: bind_res_def)

lemma bind_res_eq_Inr: "bind_res m f = Inr y \<longleftrightarrow> (\<exists>x. m = Inr x \<and> f x = Inr y)"
  by (cases m) simp_all

lemma bind_res_cong [fundef_cong]:
  "m = m' \<Longrightarrow> (\<And>x. m' = Inr x \<Longrightarrow> f x = g x) \<Longrightarrow> bind_res m f = bind_res m' g"
  by (cases m') simp_all

text \<open>A comprehension whose element expression may raise: the first exception wins.\<close>

fun traverse_res :: "('a \<Rightarrow> 'b res) \<Rightarrow> 'a list \<Rightarrow> 'b list res" where
  "traverse_res f [] = Inr []"
| "traverse_res f (x # xs) =
     bind_res (f x) (\<lambda>y. bind_res (traverse_res f xs) (\<lambda>ys. Inr (y # ys)))"

lemma traverse_res_Inr:
  "traverse_res f xs = Inr ys \<longleftrightarrow> list_all2 (\<lambda>x y. f x = Inr y) xs ys"
proof (induction xs arbitrary: ys)
  case Nil
  then show ?case by auto
next
  case (Cons x xs)
  then show ?case
    by (cases ys) (auto simp: bind_res_eq_Inr list_all2_Cons1)
qed

lemma traverse_res_all: "(\<And>x. x \<in> set xs \<Longrightarrow> f x = Inr (g x)) \<Longrightarrow> traverse_res f xs = Inr (map g xs)"
  by (induction xs) auto

section \<open>Dictionaries\<close>

type_synonym ('k, 'v) dict = "('k \<times> 'v) list"

abbreviation keys :: "('k, 'v) dict \<Rightarrow> 'k list" where
  "keys d \<equiv> map fst d"

definition wf_dict :: "('k, 'v) dict \<Rightarrow> bool" where
  "wf_dict d \<longleftrightarrow> distinct (keys d)"

text \<open>\<open>d[k] = v\<close>: in place when the key is present, appended otherwise.\<close>

definition dict_set :: "'k \<Rightarrow> 'v \<Rightarrow> ('k, 'v) dict \<Rightarrow> ('k, 'v) dict" where
  "dict_set k v d = AList.update k v d"

text \<open>\<open>d.get(k, default)\<close>.\<close>

definition dict_get :: "('k, 'v) dict \<Rightarrow> 'k \<Rightarrow> 'v \<Rightarrow> 'v" where
  "dict_get d k z = (case map_of d k of None \<Rightarrow> z | Some v \<Rightarrow> v)"

text \<open>\<open>d.update(e)\<close>.\<close>

fun dict_update :: "('k, 'v) dict \<Rightarrow> ('k, 'v) dict \<Rightarrow> ('k, 'v) dict" where
  "dict_update d [] = d"
| "dict_update d ((k, v) # e) = dict_update (dict_set k v d) e"

text \<open>\<open>d[k]\<close>.\<close>

definition dict_index :: "('k, 'v) dict \<Rightarrow> 'k \<Rightarrow> 'v res" where
  "dict_index d k = (case map_of d k of None \<Rightarrow> Inl KeyError | Some v \<Rightarrow> Inr v)"

lemma dict_set_fresh: "k \<notin> fst ` set d \<Longrightarrow> dict_set k v d = d @ [(k, v)]"
  unfolding dict_set_def by (induction d) auto

lemma find_append: "List.find P (xs @ ys) = (case List.find P xs of None \<Rightarrow> List.find P ys | Some x \<Rightarrow> Some x)"
  by (induction xs) auto

lemma map_of_dict_set [dict_simps]: "map_of (dict_set k v d) = (map_of d)(k \<mapsto> v)"
  by (simp add: dict_set_def update_conv')

lemma keys_dict_set [dict_simps]:
  "fst ` set (dict_set k v d) = insert k (fst ` set d)"
  using dom_update [of k v d] by (simp add: dict_set_def)

lemma wf_dict_set [intro]: "wf_dict d \<Longrightarrow> wf_dict (dict_set k v d)"
  by (simp add: wf_dict_def dict_set_def distinct_update)

lemma wf_dict_Nil [simp]: "wf_dict []"
  by (simp add: wf_dict_def)

lemma dict_get_set [dict_simps]:
  "dict_get (dict_set k v d) k' z = (if k' = k then v else dict_get d k' z)"
  by (simp add: dict_get_def map_of_dict_set)

lemma map_of_dict_update [dict_simps]:
  "map_of (dict_update d e) = map_of d ++ map_of (rev e)"
proof (induction e arbitrary: d)
  case Nil
  then show ?case by simp
next
  case (Cons p e)
  obtain k v where p: "p = (k, v)" by force
  show ?case
    by (simp add: p Cons.IH map_of_dict_set map_add_def fun_eq_iff split: option.splits)
qed

lemma map_of_rev_distinct: "distinct (keys e) \<Longrightarrow> map_of (rev e) = map_of e"
  by (intro ext option.expand) (auto simp: map_of_eq_None_iff map_of_eq_Some_iff rev_map [symmetric]
      simp flip: rev_map intro!: map_of_eqI dest!: map_of_SomeD)

lemma keys_dict_update [dict_simps]:
  "fst ` set (dict_update d e) = fst ` set d \<union> fst ` set e"
proof (induction e arbitrary: d)
  case Nil
  then show ?case by simp
next
  case (Cons p e)
  obtain k v where "p = (k, v)" by force
  then show ?case by (simp add: Cons.IH keys_dict_set)
qed

lemma wf_dict_update [intro]: "wf_dict d \<Longrightarrow> wf_dict (dict_update d e)"
proof (induction e arbitrary: d)
  case Nil
  then show ?case by simp
next
  case (Cons p e)
  then show ?case by (cases p) auto
qed

lemma dict_get_map [simp]: "dict_get (map (\<lambda>k. (k, f k)) ks) k z = (if k \<in> set ks then f k else z)"
  by (induction ks) (auto simp: dict_get_def)

lemma map_of_map_self: "map_of (map (\<lambda>k. (k, f k)) ks) k = (if k \<in> set ks then Some (f k) else None)"
  by (induction ks) auto

section \<open>Strings\<close>

subsection \<open>Printing integers\<close>

fun digit_char :: "nat \<Rightarrow> char" where
  "digit_char n = char_of (48 + n)"

function nat_str :: "nat \<Rightarrow> string" where
  "nat_str n = (if n < 10 then [digit_char n] else nat_str (n div 10) @ [digit_char (n mod 10)])"
  by pat_completeness auto
termination
  by (relation "measure id") auto

declare nat_str.simps [simp del]

definition int_str :: "int \<Rightarrow> string" where
  "int_str i = (if i < 0 then CHR ''-'' # nat_str (nat (- i)) else nat_str (nat i))"

definition is_digit :: "char \<Rightarrow> bool" where
  "is_digit c \<longleftrightarrow> 48 \<le> (of_char c :: nat) \<and> (of_char c :: nat) \<le> 57"

definition digit_val :: "char \<Rightarrow> nat" where
  "digit_val c = of_char c - 48"

text \<open>The value of a decimal literal: what \<open>int(s)\<close> reads from a string of digits.\<close>

definition digits_val :: "string \<Rightarrow> nat" where
  "digits_val s = foldl (\<lambda>n c. 10 * n + digit_val c) 0 s"

lemma of_char_digit [simp]: "n < 10 \<Longrightarrow> (of_char (digit_char n) :: nat) = 48 + n"
  by simp

lemma digit_val_char [simp]: "n < 10 \<Longrightarrow> digit_val (digit_char n) = n"
  by (simp add: digit_val_def)

lemma is_digit_char [simp]: "n < 10 \<Longrightarrow> is_digit (digit_char n)"
  by (simp add: is_digit_def)

declare digit_char.simps [simp del]

lemma nat_str_digits [str_simps]: "list_all is_digit (nat_str n)"
proof (induction n rule: nat_str.induct)
  case (1 n)
  then show ?case by (subst nat_str.simps) simp
qed

lemma nat_str_nonempty [str_simps]: "nat_str n \<noteq> []"
  by (subst nat_str.simps) simp

lemma digits_val_nat_str [simp]: "digits_val (nat_str n) = n"
proof (induction n rule: nat_str.induct)
  case (1 n)
  show ?case
  proof (cases "n < 10")
    case True
    then show ?thesis by (subst nat_str.simps) (simp add: digits_val_def)
  next
    case False
    with "1.IH" have "digits_val (nat_str (n div 10)) = n div 10" by simp
    with False show ?thesis
      by (subst nat_str.simps) (simp add: digits_val_def)
  qed
qed

text \<open>\<open>int(s)\<close> on what \<open>str(i)\<close> prints: an optional sign and digits, else \<open>ValueError\<close>.\<close>

definition int_parse :: "string \<Rightarrow> int res" where
  "int_parse s = (case s of
     [] \<Rightarrow> Inl ValueError
   | c # cs \<Rightarrow>
       if c = CHR ''-'' then (if cs \<noteq> [] \<and> list_all is_digit cs then Inr (- int (digits_val cs)) else Inl ValueError)
       else if list_all is_digit s then Inr (int (digits_val s)) else Inl ValueError)"

lemma not_digit_minus [simp]: "\<not> is_digit (CHR ''-'')"
  by (simp add: is_digit_def)

lemma int_parse_str [simp]: "int_parse (int_str i) = Inr i"
proof (cases "i < 0")
  case True
  then show ?thesis
    using nat_str_digits [of "nat (- i)"]
    by (simp add: int_str_def int_parse_def nat_str_nonempty)
next
  case False
  obtain c cs where s: "nat_str (nat i) = c # cs" using nat_str_nonempty by (cases "nat_str (nat i)") auto
  have d: "list_all is_digit (c # cs)" using nat_str_digits [of "nat i"] by (simp add: s)
  have c: "c \<noteq> CHR ''-''" using d by auto
  have "digits_val (c # cs) = nat i" using digits_val_nat_str [of "nat i"] by (simp add: s)
  with False d c show ?thesis
    by (simp add: int_str_def int_parse_def s)
qed

lemma int_str_inj [simp]: "int_str i = int_str j \<longleftrightarrow> i = j"
  by (metis int_parse_str sum.inject(2))

lemma int_str_chars [str_simps]: "c \<in> set (int_str i) \<Longrightarrow> is_digit c \<or> c = CHR ''-''"
  using nat_str_digits [of "nat (- i)"] nat_str_digits [of "nat i"]
  by (auto simp: int_str_def list_all_iff split: if_splits)

subsection \<open>Cutting strings\<close>

text \<open>\<open>s.partition(sep)\<close> for a one-character separator: (before, found, after).\<close>

fun partition_str :: "char \<Rightarrow> string \<Rightarrow> string \<times> bool \<times> string" where
  "partition_str c [] = ([], False, [])"
| "partition_str c (x # xs) =
     (if x = c then ([], True, xs)
      else (case partition_str c xs of (a, f, b) \<Rightarrow> (x # a, f, b)))"

lemma partition_str_append [str_simps]:
  "c \<notin> set a \<Longrightarrow> partition_str c (a @ c # b) = (a, True, b)"
  by (induction a) auto

lemma partition_str_none [str_simps]: "c \<notin> set a \<Longrightarrow> partition_str c a = (a, False, [])"
  by (induction a) auto

lemma partition_str_found:
  "partition_str c s = (a, True, b) \<Longrightarrow> s = a @ c # b \<and> c \<notin> set a"
  by (induction s arbitrary: a) (auto split: if_splits prod.splits)

text \<open>\<open>s.split(sep)\<close> for a one-character separator.\<close>

fun split_str :: "char \<Rightarrow> string \<Rightarrow> string list" where
  "split_str c [] = [[]]"
| "split_str c (x # xs) =
     (if x = c then [] # split_str c xs
      else (case split_str c xs of [] \<Rightarrow> [[x]] | p # ps \<Rightarrow> (x # p) # ps))"

text \<open>\<open>s.strip()\<close> and \<open>s.lower()\<close>, on the ASCII characters.\<close>

definition is_space :: "char \<Rightarrow> bool" where
  "is_space c \<longleftrightarrow> (of_char c :: nat) \<in> {9, 10, 11, 12, 13, 28, 29, 30, 31, 32}"

definition strip :: "string \<Rightarrow> string" where
  "strip s = rev (dropWhile is_space (rev (dropWhile is_space s)))"

definition lower_char :: "char \<Rightarrow> char" where
  "lower_char c = (let n = of_char c :: nat in if 65 \<le> n \<and> n \<le> 90 then char_of (n + 32) else c)"

definition lower :: "string \<Rightarrow> string" where
  "lower s = map lower_char s"

text \<open>\<open>rstrip(c)\<close>.\<close>

definition rstrip_char :: "char \<Rightarrow> string \<Rightarrow> string" where
  "rstrip_char c s = rev (dropWhile (\<lambda>x. x = c) (rev s))"

section \<open>Small list facts\<close>

text \<open>\<open>xs[-n:]\<close>: the last \<open>n\<close> elements, all of them when there are fewer (\<open>n > 0\<close>).\<close>

definition last_n :: "nat \<Rightarrow> 'a list \<Rightarrow> 'a list" where
  "last_n n xs = drop (length xs - n) xs"

lemma length_last_n [simp]: "length (last_n n xs) = min n (length xs)"
  by (simp add: last_n_def)

lemma last_n_short [simp]: "length xs \<le> n \<Longrightarrow> last_n n xs = xs"
  by (simp add: last_n_def)

lemma last_n_append1: "0 < n \<Longrightarrow> last_n n (xs @ [x]) = last_n (n - 1) xs @ [x]"
  by (cases "n \<le> length xs") (auto simp: last_n_def)

lemma last_n_last_n [simp]:
  assumes "m \<le> n"
  shows "last_n m (last_n n xs) = last_n m xs"
proof -
  have "length xs - (length xs - n) - m + (length xs - n) = length xs - m"
    using assms by arith
  then show ?thesis by (simp add: last_n_def)
qed

lemma last_n_set: "set (last_n n xs) \<subseteq> set xs"
  by (simp add: last_n_def set_drop_subset)

lemma sorted_wrt_snoc: "sorted_wrt P (xs @ [x]) \<longleftrightarrow> sorted_wrt P xs \<and> (\<forall>y\<in>set xs. P y x)"
  by (simp add: sorted_wrt_append)

text \<open>\<open>xs[lo:hi]\<close>, with Python's reading of negative and too large bounds.\<close>

definition slice_index :: "nat \<Rightarrow> int \<Rightarrow> nat" where
  "slice_index n i = (if i < 0 then n - nat (- i) else min (nat i) n)"

definition slice :: "int \<Rightarrow> int \<Rightarrow> 'a list \<Rightarrow> 'a list" where
  "slice lo hi xs = (let a = slice_index (length xs) lo; b = slice_index (length xs) hi in take (b - a) (drop a xs))"

lemma slice_inside: "0 \<le> lo \<Longrightarrow> 0 \<le> n \<Longrightarrow> lo + n \<le> int (length xs) \<Longrightarrow>
    slice lo (lo + n) xs = take (nat n) (drop (nat lo) xs)"
proof -
  assume b: "0 \<le> lo" "0 \<le> n" "lo + n \<le> int (length xs)"
  then have "min (nat (lo + n)) (length xs) - min (nat lo) (length xs) = nat n" "min (nat lo) (length xs) = nat lo"
    by linarith+
  with b show ?thesis by (simp add: slice_def slice_index_def Let_def)
qed

lemma length_filter_mono:
  assumes "\<And>e. e \<in> set xs \<Longrightarrow> P e \<Longrightarrow> Q e"
  shows "length (filter P xs) \<le> length (filter Q xs)"
  using assms by (induction xs) force+

lemma length_filter_strict_mono:
  assumes "\<And>e. e \<in> set xs \<Longrightarrow> P e \<Longrightarrow> Q e" "z \<in> set xs" "Q z" "\<not> P z"
  shows "length (filter P xs) < length (filter Q xs)"
  using assms
proof (induction xs)
  case (Cons y ys)
  have "length (filter P ys) \<le> length (filter Q ys)" using Cons.prems(1) by (intro length_filter_mono) auto
  with Cons show ?case by (cases "y = z") (auto simp: less_Suc_eq_le)
qed simp

end
