(* ===== verification/PyFloat.thy ===== *)
theory PyFloat
  imports Prelude Complex_Main
begin

text \<open>
  Python floats and datetimes. A float is a rational number, an infinity or NaN (every finite
  double is a rational); the arithmetic is exact on the finite part (neither rounding nor
  overflow of IEEE doubles is modelled), and NaN and the infinities propagate and compare as
  IEEE prescribes, because the services guard against them explicitly. The transcendental
  functions of the \<open>math\<close> module return doubles too, so they are a parameter of the model
  (\<open>pymath\<close>) with the laws the development relies on. The type is an instance of the arithmetic and comparison classes, so
  that model terms read like the code; a Python comparison with NaN is false, whichever way round.

  A datetime is naive or aware; the number is microseconds since the epoch, of the local reading
  for a naive value and of the instant for an aware one.
\<close>

named_theorems flt_simps \<open>arithmetic and comparison of finite floats\<close>

datatype flt = Fin rat | PInf | NInf | NaN

definition isfinite :: "flt \<Rightarrow> bool" where
  "isfinite x = (case x of Fin r \<Rightarrow> True | _ \<Rightarrow> False)"

lemma isfinite_simps [simp]:
  "isfinite (Fin r)" "\<not> isfinite PInf" "\<not> isfinite NInf" "\<not> isfinite NaN"
  by (simp_all add: isfinite_def)

lemma isfinite_iff: "isfinite x \<longleftrightarrow> (\<exists>r. x = Fin r)"
  by (cases x) simp_all

section \<open>Arithmetic and comparison\<close>

instantiation flt :: "{plus, times, minus, uminus, zero, one, ord, inverse}"
begin

fun plus_flt :: "flt \<Rightarrow> flt \<Rightarrow> flt" where
  "plus_flt (Fin a) (Fin b) = Fin (a + b)"
| "plus_flt NaN _ = NaN"
| "plus_flt _ NaN = NaN"
| "plus_flt PInf NInf = NaN"
| "plus_flt NInf PInf = NaN"
| "plus_flt PInf _ = PInf"
| "plus_flt _ PInf = PInf"
| "plus_flt NInf _ = NInf"
| "plus_flt _ NInf = NInf"

fun uminus_flt :: "flt \<Rightarrow> flt" where
  "uminus_flt (Fin a) = Fin (- a)"
| "uminus_flt PInf = NInf"
| "uminus_flt NInf = PInf"
| "uminus_flt NaN = NaN"

definition minus_flt :: "flt \<Rightarrow> flt \<Rightarrow> flt" where
  "minus_flt a b = a + (- b)"

fun times_inf :: "rat \<Rightarrow> bool \<Rightarrow> flt" where
  "times_inf r pos = (if r = 0 then NaN else if (0 < r) = pos then PInf else NInf)"

fun times_flt :: "flt \<Rightarrow> flt \<Rightarrow> flt" where
  "times_flt (Fin a) (Fin b) = Fin (a * b)"
| "times_flt NaN _ = NaN"
| "times_flt _ NaN = NaN"
| "times_flt (Fin a) PInf = times_inf a True"
| "times_flt (Fin a) NInf = times_inf a False"
| "times_flt PInf (Fin b) = times_inf b True"
| "times_flt NInf (Fin b) = times_inf b False"
| "times_flt PInf PInf = PInf"
| "times_flt NInf NInf = PInf"
| "times_flt _ _ = NInf"

text \<open>
  The quotient for a nonzero denominator. Python raises \<open>ZeroDivisionError\<close> on a zero one;
  every division of the sources is either guarded or has a constant denominator, and the
  model writes the guard where the code has it.
\<close>

fun divide_flt :: "flt \<Rightarrow> flt \<Rightarrow> flt" where
  "divide_flt (Fin a) (Fin b) = (if b = 0 then NaN else Fin (a / b))"
| "divide_flt NaN _ = NaN"
| "divide_flt _ NaN = NaN"
| "divide_flt (Fin a) _ = Fin 0"
| "divide_flt PInf (Fin b) = (if b < 0 then NInf else PInf)"
| "divide_flt NInf (Fin b) = (if b < 0 then PInf else NInf)"
| "divide_flt _ _ = NaN"

definition inverse_flt :: "flt \<Rightarrow> flt" where
  "inverse_flt x = divide (Fin 1) x"

definition zero_flt :: flt where "zero_flt = Fin 0"
definition one_flt :: flt where "one_flt = Fin 1"

fun less_eq_flt :: "flt \<Rightarrow> flt \<Rightarrow> bool" where
  "less_eq_flt (Fin a) (Fin b) = (a \<le> b)"
| "less_eq_flt NaN _ = False"
| "less_eq_flt _ NaN = False"
| "less_eq_flt NInf _ = True"
| "less_eq_flt _ PInf = True"
| "less_eq_flt _ _ = False"

fun less_flt :: "flt \<Rightarrow> flt \<Rightarrow> bool" where
  "less_flt (Fin a) (Fin b) = (a < b)"
| "less_flt NaN _ = False"
| "less_flt _ NaN = False"
| "less_flt NInf NInf = False"
| "less_flt PInf PInf = False"
| "less_flt NInf _ = True"
| "less_flt _ PInf = True"
| "less_flt _ _ = False"

instance ..

end

lemma minus_Fin [simp]: "Fin a - Fin b = Fin (a - b)"
  by (simp add: minus_flt_def)

lemma flt_zero_one [simp]: "(0 :: flt) = Fin 0" "(1 :: flt) = Fin 1"
  by (simp_all add: zero_flt_def one_flt_def)

text \<open>Python's \<open>==\<close>: NaN differs from everything.\<close>

definition feq :: "flt \<Rightarrow> flt \<Rightarrow> bool" where
  "feq a b \<longleftrightarrow> a = b \<and> a \<noteq> NaN"

text \<open>\<open>max(a, b)\<close> and \<open>min(a, b)\<close>: the second argument only when it is strictly better.\<close>

definition py_max :: "'a::ord \<Rightarrow> 'a \<Rightarrow> 'a" where
  "py_max a b = (if a < b then b else a)"

definition py_min :: "'a::ord \<Rightarrow> 'a \<Rightarrow> 'a" where
  "py_min a b = (if b < a then b else a)"

lemma py_max_lin [simp]: "py_max a b = max a (b :: 'a::linorder)"
  by (auto simp: py_max_def max_def)

lemma py_min_lin [simp]: "py_min a b = min a (b :: 'a::linorder)"
  by (auto simp: py_min_def min_def)

lemma py_max_Fin [simp]: "py_max (Fin a) (Fin b) = Fin (max a b)"
  by (simp add: py_max_def max_def)

lemma py_min_Fin [simp]: "py_min (Fin a) (Fin b) = Fin (min a b)"
  by (simp add: py_min_def min_def)

text \<open>\<open>max(iterable)\<close> on floats: the first of the largest; \<open>ValueError\<close> on an empty one.\<close>

fun py_max_list :: "'a::ord list \<Rightarrow> 'a res" where
  "py_max_list [] = Inl ValueError"
| "py_max_list (x # xs) = Inr (foldl py_max x xs)"

text \<open>\<open>sum(iterable)\<close>.\<close>

definition fsum :: "flt list \<Rightarrow> flt" where
  "fsum xs = foldl (+) (Fin 0) xs"

lemma foldl_plus_Fin: "foldl (+) (Fin a) (map Fin xs) = Fin (a + sum_list xs)"
  by (induction xs arbitrary: a) (auto simp: add.assoc)

lemma fsum_Fin [simp]: "fsum (map Fin xs) = Fin (sum_list xs)"
  by (simp add: fsum_def foldl_plus_Fin)

lemma fsum_all_Fin: "(\<And>x. x \<in> set xs \<Longrightarrow> f x = Fin (g x)) \<Longrightarrow> fsum (map f xs) = Fin (sum_list (map g xs))"
proof -
  assume "\<And>x. x \<in> set xs \<Longrightarrow> f x = Fin (g x)"
  then have "map f xs = map Fin (map g xs)" by simp
  then show ?thesis by (simp only: fsum_Fin)
qed

section \<open>The math module\<close>

record pymath =
  m_log :: "rat \<Rightarrow> rat"
  m_exp :: "rat \<Rightarrow> rat"
  m_tanh :: "rat \<Rightarrow> rat"

text \<open>
  What the code relies on of \<open>math.log\<close>, \<open>math.exp\<close> and \<open>math.tanh\<close>: signs, bounds
  and monotonicity, which the rounded functions keep.
\<close>

locale pymath_laws =
  fixes M :: pymath
  assumes log_one: "m_log M 1 = 0"
    and log_mono: "0 < x \<Longrightarrow> x \<le> y \<Longrightarrow> m_log M x \<le> m_log M y"
    and exp_pos: "0 \<le> m_exp M x"
    and exp_mono: "x \<le> y \<Longrightarrow> m_exp M x \<le> m_exp M y"
    and exp_zero: "m_exp M 0 = 1"
    and tanh_bounds: "- 1 \<le> m_tanh M x" "m_tanh M x \<le> 1"
    and tanh_zero: "m_tanh M 0 = 0"
    and tanh_mono: "x \<le> y \<Longrightarrow> m_tanh M x \<le> m_tanh M y"
begin

lemma log_nonpos: "0 < x \<Longrightarrow> x \<le> 1 \<Longrightarrow> m_log M x \<le> 0"
  using log_mono [of x 1] by (simp add: log_one)

lemma exp_le_one: "x \<le> 0 \<Longrightarrow> m_exp M x \<le> 1"
  using exp_mono [of x 0] by (simp add: exp_zero)

lemma exp_ge_one: "0 \<le> x \<Longrightarrow> 1 \<le> m_exp M x"
  using exp_mono [of 0 x] by (simp add: exp_zero)

lemma tanh_nonneg: "0 \<le> x \<Longrightarrow> 0 \<le> m_tanh M x"
  using tanh_mono [of 0 x] by (simp add: tanh_zero)

end

text \<open>\<open>math.log\<close>: a \<open>ValueError\<close> outside its domain.\<close>

fun flog :: "pymath \<Rightarrow> flt \<Rightarrow> flt res" where
  "flog M (Fin x) = (if 0 < x then Inr (Fin (m_log M x)) else Inl ValueError)"
| "flog M PInf = Inr PInf"
| "flog M NInf = Inl ValueError"
| "flog M NaN = Inr NaN"

text \<open>
  A rational stand-in with the same signs, bounds and monotonicity, at which the theorems
  about the computed risks and entropies can be evaluated.
\<close>

definition rat_math :: pymath where
  "rat_math = \<lparr>
     m_log = (\<lambda>x. if x \<le> 0 then 0 else if x \<le> 1 then x - 1 else 1 - 1 / x),
     m_exp = (\<lambda>x. if 0 \<le> x then 1 + x else 1 / (1 - x)),
     m_tanh = (\<lambda>x. if x < - 1 then - 1 else if 1 < x then 1 else x)\<rparr>"

lemma rat_log_mono:
  assumes "0 < x" "x \<le> y"
  shows "m_log rat_math x \<le> m_log rat_math y"
proof -
  consider "y \<le> 1" | "x \<le> 1" "1 < y" | "1 < x" using assms by linarith
  then show ?thesis
  proof cases
    case 2
    then have "1 / y \<le> 1" by (simp add: divide_le_eq)
    then have "x - 1 \<le> 1 - 1 / y" using 2 by linarith
    with 2 assms show ?thesis by (simp add: rat_math_def)
  next
    case 3
    then have "1 / y \<le> 1 / x" using assms by (intro divide_left_mono) auto
    with 3 assms show ?thesis by (simp add: rat_math_def)
  qed (use assms in \<open>simp add: rat_math_def\<close>)
qed

lemma rat_exp_mono:
  assumes "x \<le> y"
  shows "m_exp rat_math x \<le> m_exp rat_math y"
proof -
  consider "0 \<le> x" | "x < 0" "0 \<le> y" | "y < 0" using assms by linarith
  then show ?thesis
  proof cases
    case 2
    then have "1 / (1 - x) \<le> 1" by (simp add: divide_le_eq)
    also have "1 \<le> 1 + y" using 2 by simp
    finally show ?thesis using 2 by (simp add: rat_math_def)
  next
    case 3
    then have "1 / (1 - x) \<le> 1 / (1 - y)"
      using assms by (intro divide_left_mono) (auto simp: mult_pos_pos)
    with 3 assms show ?thesis by (simp add: rat_math_def)
  qed (use assms in \<open>simp add: rat_math_def\<close>)
qed

interpretation rat_math: pymath_laws rat_math
proof
  show "m_log rat_math x \<le> m_log rat_math y" if "0 < x" "x \<le> y" for x y
    using that by (rule rat_log_mono)
  show "m_exp rat_math x \<le> m_exp rat_math y" if "x \<le> y" for x y
    using that by (rule rat_exp_mono)
qed (auto simp: rat_math_def)

text \<open>\<open>int(x)\<close> truncates towards zero; it raises on NaN and on the infinities.\<close>

definition trunc_rat :: "rat \<Rightarrow> int" where
  "trunc_rat x = (if 0 \<le> x then \<lfloor>x\<rfloor> else \<lceil>x\<rceil>)"

fun fint :: "flt \<Rightarrow> int res" where
  "fint (Fin x) = Inr (trunc_rat x)"
| "fint NaN = Inl ValueError"
| "fint _ = Inl OverflowError"

section \<open>Rounding\<close>

text \<open>\<open>round(x, n)\<close> rounds half to even; the built-in is correctly rounded in decimal.\<close>

definition round_half_even :: "rat \<Rightarrow> int" where
  "round_half_even x = (let f = \<lfloor>x\<rfloor>; d = x - of_int f in
     if d < 1 / 2 then f else if 1 / 2 < d then f + 1 else if even f then f else f + 1)"

definition py_round :: "nat \<Rightarrow> rat \<Rightarrow> rat" where
  "py_round n x = of_int (round_half_even (x * 10 ^ n)) / 10 ^ n"

lemma round_half_even_bounds:
  "\<lfloor>x\<rfloor> \<le> round_half_even x" "round_half_even x \<le> \<lfloor>x\<rfloor> + 1"
  by (simp_all add: round_half_even_def Let_def)

lemma round_half_even_mono:
  assumes "x \<le> y"
  shows "round_half_even x \<le> round_half_even y"
proof (cases "\<lfloor>x\<rfloor> = \<lfloor>y\<rfloor>")
  case True
  with assms show ?thesis by (simp add: round_half_even_def Let_def)
next
  case False
  with assms have "\<lfloor>x\<rfloor> + 1 \<le> \<lfloor>y\<rfloor>" using floor_mono [OF assms] by linarith
  then show ?thesis using round_half_even_bounds [of x] round_half_even_bounds [of y] by linarith
qed

lemma round_half_even_int [simp]: "round_half_even (of_int i) = i"
  by (simp add: round_half_even_def)

lemma round_half_even_error: "\<bar>of_int (round_half_even x) - x\<bar> \<le> 1 / 2"
proof -
  define f where "f = \<lfloor>x\<rfloor>"
  have "of_int f \<le> x" "x < of_int f + 1" unfolding f_def by linarith+
  then show ?thesis by (simp add: round_half_even_def Let_def abs_if f_def [symmetric])
qed

lemma py_round_mono: "x \<le> y \<Longrightarrow> py_round n x \<le> py_round n y"
  by (simp add: py_round_def divide_right_mono round_half_even_mono)

lemma py_round_int [simp]: "py_round n (of_int i) = of_int i"
proof -
  have "rat_of_int i * 10 ^ n = rat_of_int (i * 10 ^ n)" by simp
  then have "round_half_even (rat_of_int i * 10 ^ n) = i * 10 ^ n"
    by (simp only: round_half_even_int)
  then show ?thesis by (simp add: py_round_def)
qed

lemma py_round_0 [simp]: "py_round n 0 = 0"
  using py_round_int [of n 0] by (simp del: py_round_int)

lemma py_round_1 [simp]: "py_round n 1 = 1"
  using py_round_int [of n 1] by (simp del: py_round_int)

lemma py_round_error: "\<bar>py_round n x - x\<bar> \<le> 1 / (2 * 10 ^ n)"
proof -
  have p: "(0::rat) < 10 ^ n" by simp
  have "\<bar>of_int (round_half_even (x * 10 ^ n)) - x * 10 ^ n\<bar> / 10 ^ n \<le> (1 / 2) / 10 ^ n"
    by (rule divide_right_mono [OF round_half_even_error]) simp
  moreover have "py_round n x - x = (of_int (round_half_even (x * 10 ^ n)) - x * 10 ^ n) / 10 ^ n"
    using p by (simp add: py_round_def diff_divide_distrib)
  ultimately show ?thesis using p by (simp add: abs_divide)
qed

section \<open>Datetimes\<close>

datatype datetime = Naive int | Aware int

text \<open>
  \<open>value.replace(tzinfo=UTC) if value.tzinfo is None else value.astimezone(UTC)\<close>: the instant
  of a datetime, a naive one read as UTC. The helper is repeated verbatim in
  \<open>nidra_common/schemas.py\<close>, \<open>services/features/store.py\<close>, \<open>services/persister/worker.py\<close>,
  \<open>services/ingest/replay.py\<close>, \<open>api/forecasts.py\<close> and \<open>api/explain.py\<close>.
\<close>

fun as_utc :: "datetime \<Rightarrow> int" where
  "as_utc (Naive us) = us"
| "as_utc (Aware us) = us"

abbreviation utc_of_seconds :: "int \<Rightarrow> datetime" where
  "utc_of_seconds s \<equiv> Aware (s * 1000000)"

text \<open>\<open>int(at.timestamp())\<close>: whole seconds, truncated towards zero.\<close>

definition epoch_seconds :: "int \<Rightarrow> int" where
  "epoch_seconds us = (if 0 \<le> us then us div 1000000 else - ((- us) div 1000000))"

lemma epoch_seconds_of_seconds [simp]: "epoch_seconds (s * 1000000) = s"
proof (cases "0 \<le> s")
  case False
  have "(- (s * 1000000)) div 1000000 = (- s) * 1000000 div 1000000" by simp
  also have "\<dots> = - s" by (rule nonzero_mult_div_cancel_right) simp
  finally show ?thesis using False by (simp add: epoch_seconds_def)
qed (simp add: epoch_seconds_def)

lemma epoch_seconds_mono: "a \<le> b \<Longrightarrow> epoch_seconds a \<le> epoch_seconds b"
proof -
  assume "a \<le> b"
  consider "0 \<le> a" | "a < 0" "0 \<le> b" | "b < 0" by linarith
  then show ?thesis
  proof cases
    case 1
    with \<open>a \<le> b\<close> show ?thesis by (simp add: epoch_seconds_def zdiv_mono1)
  next
    case 2
    then have "0 \<le> (- a) div 1000000" "0 \<le> b div 1000000" by simp_all
    with 2 show ?thesis by (simp add: epoch_seconds_def)
  next
    case 3
    with \<open>a \<le> b\<close> show ?thesis by (simp add: epoch_seconds_def zdiv_mono1)
  qed
qed

end
