(* ===== verification/RedisPort.thy ===== *)
theory RedisPort
  imports PyFloat
begin

text \<open>
  Redis as the services see it. Redis is not code of the repository, so the model is
  parameterised by it: \<open>'s redis_ops\<close> is the record of the commands the sources issue through
  \<open>redis.asyncio\<close>, over an abstract server state \<open>'s\<close>, and \<open>redis_laws\<close> is the documented
  behaviour of those commands the development relies on. A law says what a command does to the
  key it names, and that it leaves every other key alone.

  Expiry is a command with no visible effect: a law never speaks about a key whose time to live
  has run out, so the theorems are about runs that stay within the configured TTLs.
  \<open>mem_redis\<close> is a concrete server on functions from keys to contents that satisfies the laws;
  witnesses run on it.
\<close>

record 's redis_ops =
  r_hgetall :: "'s \<Rightarrow> string \<Rightarrow> (string, string) dict"
  r_hset :: "'s \<Rightarrow> string \<Rightarrow> (string, string) dict \<Rightarrow> 's"
  r_hdel :: "'s \<Rightarrow> string \<Rightarrow> string list \<Rightarrow> 's"
  r_hincrbyfloat :: "'s \<Rightarrow> string \<Rightarrow> string \<Rightarrow> rat \<Rightarrow> 's"
  r_smembers :: "'s \<Rightarrow> string \<Rightarrow> string list"
  r_sadd :: "'s \<Rightarrow> string \<Rightarrow> string list \<Rightarrow> 's"
  r_lrange :: "'s \<Rightarrow> string \<Rightarrow> string list"
  r_lindex_last :: "'s \<Rightarrow> string \<Rightarrow> string option"
  r_rpush :: "'s \<Rightarrow> string \<Rightarrow> string \<Rightarrow> 's"
  r_ltrim_last :: "'s \<Rightarrow> string \<Rightarrow> nat \<Rightarrow> 's"
  r_zrange :: "'s \<Rightarrow> string \<Rightarrow> (string \<times> int) list"
  r_zadd :: "'s \<Rightarrow> string \<Rightarrow> string \<Rightarrow> int \<Rightarrow> 's"
  r_zcard :: "'s \<Rightarrow> string \<Rightarrow> nat"
  r_zrem :: "'s \<Rightarrow> string \<Rightarrow> string \<Rightarrow> 's"
  r_zremrangebyscore :: "'s \<Rightarrow> string \<Rightarrow> int \<Rightarrow> int \<Rightarrow> 's"
  r_delete :: "'s \<Rightarrow> string list \<Rightarrow> 's"
  r_expire :: "'s \<Rightarrow> string \<Rightarrow> int \<Rightarrow> 's"
  r_scan_prefix :: "'s \<Rightarrow> string \<Rightarrow> string list"

text \<open>Everything the reading commands show of one key.\<close>

definition r_view :: "'s redis_ops \<Rightarrow> 's \<Rightarrow> string \<Rightarrow>
    (string, string) dict \<times> string list \<times> string list \<times> (string \<times> int) list" where
  "r_view R s k = (r_hgetall R s k, r_smembers R s k, r_lrange R s k, r_zrange R s k)"

text \<open>
  The number a hash field holds, read the way the services read it (\<open>float(raw)\<close>); an absent
  field counts as zero, as \<open>HINCRBYFLOAT\<close> counts it. \<open>F\<close> is \<open>float\<close>, the parser.
\<close>

definition hash_num :: "(string \<Rightarrow> flt res) \<Rightarrow> (string, string) dict \<Rightarrow> string \<Rightarrow> flt res" where
  "hash_num F h f = (case map_of h f of None \<Rightarrow> Inr (Fin 0) | Some raw \<Rightarrow> F raw)"

locale redis_laws =
  fixes R :: "'s redis_ops" and F :: "string \<Rightarrow> flt res"
  assumes hgetall_wf: "wf_dict (r_hgetall R s k)"
    and hset_same: "map_of (r_hgetall R (r_hset R s k kvs) k) = map_of (r_hgetall R s k) ++ map_of (rev kvs)"
    and hset_frame: "k' \<noteq> k \<Longrightarrow> r_view R (r_hset R s k kvs) k' = r_view R s k'"
    and hdel_same: "map_of (r_hgetall R (r_hdel R s k fs) k) = map_of (r_hgetall R s k) |` (- set fs)"
    and hdel_frame: "k' \<noteq> k \<Longrightarrow> r_view R (r_hdel R s k fs) k' = r_view R s k'"
    and hincr_same: "hash_num F (r_hgetall R s k) f = Inr (Fin r) \<Longrightarrow>
        f \<in> set (keys (r_hgetall R (r_hincrbyfloat R s k f x) k)) \<and>
        hash_num F (r_hgetall R (r_hincrbyfloat R s k f x) k) f = Inr (Fin (r + x))"
    and hincr_other: "f' \<noteq> f \<Longrightarrow>
        map_of (r_hgetall R (r_hincrbyfloat R s k f x) k) f' = map_of (r_hgetall R s k) f'"
    and hincr_frame: "k' \<noteq> k \<Longrightarrow> r_view R (r_hincrbyfloat R s k f x) k' = r_view R s k'"
    and smembers_distinct: "distinct (r_smembers R s k)"
    and sadd_same: "set (r_smembers R (r_sadd R s k ms) k) = set (r_smembers R s k) \<union> set ms"
    and sadd_frame: "k' \<noteq> k \<Longrightarrow> r_view R (r_sadd R s k ms) k' = r_view R s k'"
    and lindex_last: "r_lindex_last R s k =
        (if r_lrange R s k = [] then None else Some (last (r_lrange R s k)))"
    and rpush_same: "r_lrange R (r_rpush R s k w) k = r_lrange R s k @ [w]"
    and rpush_frame: "k' \<noteq> k \<Longrightarrow> r_view R (r_rpush R s k w) k' = r_view R s k'"
    and ltrim_same: "0 < n \<Longrightarrow> r_lrange R (r_ltrim_last R s k n) k = last_n n (r_lrange R s k)"
    and ltrim_frame: "k' \<noteq> k \<Longrightarrow> r_view R (r_ltrim_last R s k n) k' = r_view R s k'"
    and zrange_sorted: "sorted (map snd (r_zrange R s k))"
    and zrange_distinct: "distinct (map fst (r_zrange R s k))"
    and zadd_same: "set (r_zrange R (r_zadd R s k m t) k) =
        insert (m, t) {e \<in> set (r_zrange R s k). fst e \<noteq> m}"
    and zadd_frame: "k' \<noteq> k \<Longrightarrow> r_view R (r_zadd R s k m t) k' = r_view R s k'"
    and zcard_length: "r_zcard R s k = length (r_zrange R s k)"
    and zrem_same: "r_zrange R (r_zrem R s k m) k = filter (\<lambda>e. fst e \<noteq> m) (r_zrange R s k)"
    and zrem_frame: "k' \<noteq> k \<Longrightarrow> r_view R (r_zrem R s k m) k' = r_view R s k'"
    and zremrange_same: "r_zrange R (r_zremrangebyscore R s k lo hi) k =
        filter (\<lambda>e. \<not> (lo \<le> snd e \<and> snd e \<le> hi)) (r_zrange R s k)"
    and zremrange_frame: "k' \<noteq> k \<Longrightarrow> r_view R (r_zremrangebyscore R s k lo hi) k' = r_view R s k'"
    and delete_same: "k \<in> set ks \<Longrightarrow> r_view R (r_delete R s ks) k = ([], [], [], [])"
    and delete_frame: "k \<notin> set ks \<Longrightarrow> r_view R (r_delete R s ks) k = r_view R s k"
    and expire_view: "r_view R (r_expire R s k ttl) k' = r_view R s k'"
    and scan_prefix: "k \<in> set (r_scan_prefix R s p) \<longleftrightarrow>
        r_view R s k \<noteq> ([], [], [], []) \<and> take (length p) k = p"
begin

lemma view_hgetall: "r_view R s k = r_view R s' k \<Longrightarrow> r_hgetall R s k = r_hgetall R s' k"
  by (simp add: r_view_def)

lemma view_smembers: "r_view R s k = r_view R s' k \<Longrightarrow> r_smembers R s k = r_smembers R s' k"
  by (simp add: r_view_def)

lemma view_lrange: "r_view R s k = r_view R s' k \<Longrightarrow> r_lrange R s k = r_lrange R s' k"
  by (simp add: r_view_def)

lemma view_zrange: "r_view R s k = r_view R s' k \<Longrightarrow> r_zrange R s k = r_zrange R s' k"
  by (simp add: r_view_def)

lemmas frames = hset_frame hdel_frame hincr_frame sadd_frame rpush_frame ltrim_frame zadd_frame
  zrem_frame zremrange_frame delete_frame expire_view

lemma expire_reads [simp]:
  "r_hgetall R (r_expire R s k ttl) k' = r_hgetall R s k'"
  "r_smembers R (r_expire R s k ttl) k' = r_smembers R s k'"
  "r_lrange R (r_expire R s k ttl) k' = r_lrange R s k'"
  "r_zrange R (r_expire R s k ttl) k' = r_zrange R s k'"
  using expire_view by (auto intro: view_hgetall view_smembers view_lrange view_zrange)

lemma delete_reads:
  "k \<in> set ks \<Longrightarrow> r_hgetall R (r_delete R s ks) k = []"
  "k \<in> set ks \<Longrightarrow> r_smembers R (r_delete R s ks) k = []"
  using delete_same [of k ks s] by (simp_all add: r_view_def)

lemma zadd_length:
  assumes "m \<notin> fst ` set (r_zrange R s k)"
  shows "length (r_zrange R (r_zadd R s k m t) k) = Suc (length (r_zrange R s k))"
proof -
  have d: "distinct (r_zrange R s k)" "distinct (r_zrange R (r_zadd R s k m t) k)"
    using zrange_distinct by (auto simp: distinct_map)
  have "{e \<in> set (r_zrange R s k). fst e \<noteq> m} = set (r_zrange R s k)"
    using assms by force
  then have "set (r_zrange R (r_zadd R s k m t) k) = insert (m, t) (set (r_zrange R s k))"
    by (simp add: zadd_same)
  moreover have "(m, t) \<notin> set (r_zrange R s k)" using assms by force
  ultimately have "card (set (r_zrange R (r_zadd R s k m t) k)) = Suc (card (set (r_zrange R s k)))"
    by simp
  with d show ?thesis by (simp add: distinct_card)
qed

end

section \<open>A server in memory\<close>

record entry =
  e_hash :: "(string, string) dict"
  e_set :: "string list"
  e_list :: "string list"
  e_zset :: "(string \<times> int) list"

definition no_entry :: entry where
  "no_entry = \<lparr>e_hash = [], e_set = [], e_list = [], e_zset = []\<rparr>"

text \<open>A finite map from keys to entries; an entry's dictionaries have distinct keys.\<close>

type_synonym mem = "(string, entry) dict"

definition m_entry :: "mem \<Rightarrow> string \<Rightarrow> entry" where
  "m_entry s k = dict_get s k no_entry"

definition uniq :: "(string, 'v) dict \<Rightarrow> (string, 'v) dict" where
  "uniq d = dict_update [] d"

definition m_upd :: "mem \<Rightarrow> string \<Rightarrow> (entry \<Rightarrow> entry) \<Rightarrow> mem" where
  "m_upd s k f = dict_set k (f (m_entry s k)) s"

text \<open>
  How this server writes a number: as \<open>P\<close> prints it; \<open>P\<close> is any printer the parser inverts.
\<close>

definition m_num :: "(string \<Rightarrow> flt res) \<Rightarrow> (string, string) dict \<Rightarrow> string \<Rightarrow> rat" where
  "m_num F h f = (case hash_num F h f of Inr (Fin v) \<Rightarrow> v | _ \<Rightarrow> 0)"

definition z_sort :: "(string, int) dict \<Rightarrow> (string, int) dict" where
  "z_sort d = sort_key snd d"

definition mem_redis :: "(string \<Rightarrow> flt res) \<Rightarrow> (rat \<Rightarrow> string) \<Rightarrow> mem redis_ops" where
  "mem_redis F P = \<lparr>
     r_hgetall = (\<lambda>s k. uniq (e_hash (m_entry s k))),
     r_hset = (\<lambda>s k m. m_upd s k (\<lambda>e. e\<lparr>e_hash := dict_update (uniq (e_hash e)) m\<rparr>)),
     r_hdel = (\<lambda>s k fs. m_upd s k (\<lambda>e. e\<lparr>e_hash := filter (\<lambda>p. fst p \<notin> set fs) (uniq (e_hash e))\<rparr>)),
     r_hincrbyfloat = (\<lambda>s k f x. m_upd s k (\<lambda>e. e\<lparr>e_hash :=
        dict_set f (P (m_num F (uniq (e_hash e)) f + x)) (uniq (e_hash e))\<rparr>)),
     r_smembers = (\<lambda>s k. remdups (e_set (m_entry s k))),
     r_sadd = (\<lambda>s k ms. m_upd s k (\<lambda>e. e\<lparr>e_set := e_set e @ ms\<rparr>)),
     r_lrange = (\<lambda>s k. e_list (m_entry s k)),
     r_lindex_last = (\<lambda>s k. if e_list (m_entry s k) = [] then None else Some (last (e_list (m_entry s k)))),
     r_rpush = (\<lambda>s k v. m_upd s k (\<lambda>e. e\<lparr>e_list := e_list e @ [v]\<rparr>)),
     r_ltrim_last = (\<lambda>s k n. m_upd s k (\<lambda>e. e\<lparr>e_list := last_n n (e_list e)\<rparr>)),
     r_zrange = (\<lambda>s k. z_sort (uniq (e_zset (m_entry s k)))),
     r_zadd = (\<lambda>s k m t. m_upd s k (\<lambda>e. e\<lparr>e_zset := dict_set m t (uniq (e_zset e))\<rparr>)),
     r_zcard = (\<lambda>s k. length (z_sort (uniq (e_zset (m_entry s k))))),
     r_zrem = (\<lambda>s k m. m_upd s k (\<lambda>e. e\<lparr>e_zset := filter (\<lambda>p. fst p \<noteq> m) (z_sort (uniq (e_zset e)))\<rparr>)),
     r_zremrangebyscore = (\<lambda>s k lo hi. m_upd s k (\<lambda>e. e\<lparr>e_zset :=
        filter (\<lambda>p. \<not> (lo \<le> snd p \<and> snd p \<le> hi)) (z_sort (uniq (e_zset e)))\<rparr>)),
     r_delete = (\<lambda>s ks. filter (\<lambda>p. fst p \<notin> set ks) s),
     r_expire = (\<lambda>s k ttl. s),
     r_scan_prefix = (\<lambda>s p. filter (\<lambda>k. m_entry s k \<noteq> no_entry \<and> take (length p) k = p) (remdups (keys s)))\<rparr>"

lemma dict_update_disjoint:
  "wf_dict d \<Longrightarrow> set (keys d) \<inter> set (keys a) = {} \<Longrightarrow> dict_update a d = a @ d"
proof (induction d arbitrary: a)
  case (Cons p d)
  obtain k v where p: "p = (k, v)" by force
  have "dict_set k v a = a @ [(k, v)]"
  proof -
    have "k \<notin> set (keys a)" using Cons.prems(2) p by auto
    then show ?thesis unfolding dict_set_def by (induction a) auto
  qed
  then show ?case using Cons.prems p by (simp add: Cons.IH wf_dict_def)
qed simp

lemma uniq_id [simp]: "wf_dict d \<Longrightarrow> uniq d = d"
  by (simp add: uniq_def dict_update_disjoint)

lemma wf_uniq [simp]: "wf_dict (uniq d)"
  unfolding uniq_def by (rule wf_dict_update) simp

lemma map_of_uniq: "map_of (uniq d) = map_of (rev d)"
  by (simp add: uniq_def map_of_dict_update)

lemma uniq_Nil_iff [simp]: "uniq d = [] \<longleftrightarrow> d = []"
proof -
  have "fst ` set (uniq d) = fst ` set d" by (simp add: uniq_def keys_dict_update)
  then show ?thesis by (metis image_is_empty set_empty)
qed

lemma wf_filter [simp]: "wf_dict d \<Longrightarrow> wf_dict (filter P d)"
  by (auto simp: wf_dict_def distinct_map_filter)

lemma wf_z_sort [simp]: "wf_dict (z_sort d) \<longleftrightarrow> wf_dict d"
  by (simp add: wf_dict_def z_sort_def distinct_map)

lemma z_sort_sorted: "sorted (map snd (z_sort d))"
  by (simp add: z_sort_def)

lemma z_sort_id: "sorted (map snd d) \<Longrightarrow> z_sort d = d"
  unfolding z_sort_def by (rule sort_key_id_if_sorted)

lemma z_sort_filter: "z_sort (filter P (z_sort d)) = filter P (z_sort d)"
  by (intro z_sort_id) (simp add: sorted_filter z_sort_sorted)

lemma m_entry_upd: "m_entry (m_upd s k f) k' = (if k' = k then f (m_entry s k) else m_entry s k')"
  by (simp add: m_entry_def m_upd_def dict_get_set)

lemma m_entry_delete: "m_entry (filter (\<lambda>p. fst p \<notin> set ks) s) k =
    (if k \<in> set ks then no_entry else m_entry s k)"
proof -
  have "map_of (filter (\<lambda>p. fst p \<notin> set ks) s) k = (if k \<in> set ks then None else map_of s k)"
    by (induction s) auto
  then show ?thesis by (simp add: m_entry_def dict_get_def)
qed

lemma map_of_filter_key: "map_of (filter (\<lambda>p. fst p \<notin> A) d) = map_of d |` (- A)"
  by (induction d) (auto simp: fun_eq_iff restrict_map_def)

text \<open>A stand-in for \<open>repr\<close> and \<open>float\<close> on finite floats: a numerator, a slash, a denominator.\<close>

definition print_rat :: "rat \<Rightarrow> string" where
  "print_rat x = (case quotient_of x of (p, q) \<Rightarrow> int_str p @ CHR ''/'' # int_str q)"

definition parse_rat :: "string \<Rightarrow> flt res" where
  "parse_rat s = (case partition_str (CHR ''/'') s of
     (a, found, b) \<Rightarrow> bind_res (int_parse a) (\<lambda>p.
       if found then bind_res (int_parse b) (\<lambda>q. Inr (Fin (of_int p / of_int q)))
       else Inr (Fin (of_int p))))"

lemma slash_not_in_int [simp]: "CHR ''/'' \<notin> set (int_str i)"
  by (auto dest!: int_str_chars simp: is_digit_def)

lemma parse_print_rat [simp]: "parse_rat (print_rat x) = Inr (Fin x)"
proof -
  obtain p q where pq: "quotient_of x = (p, q)" by force
  then have x: "of_int p / of_int q = x" by (rule quotient_of_div [symmetric])
  have "print_rat x = int_str p @ CHR ''/'' # int_str q" by (simp add: print_rat_def pq)
  then show ?thesis by (simp add: parse_rat_def partition_str_append x)
qed

text \<open>The laws hold of the server in memory, for any parser that inverts its printer.\<close>

lemmas mem_defs = mem_redis_def m_entry_upd r_view_def

lemma mem_redis_laws:
  assumes parse_print: "\<And>x. F (P x) = Inr (Fin x)"
  shows "redis_laws (mem_redis F P) F"
proof
  let ?R = "mem_redis F P"
  fix s :: mem and k k' f f' m w :: string and fs ms ks :: "string list"
    and kvs :: "(string, string) dict" and x r :: rat and t lo hi ttl :: int and n :: nat
  show "wf_dict (r_hgetall ?R s k)" by (simp add: mem_defs)
  show "map_of (r_hgetall ?R (r_hset ?R s k kvs) k) = map_of (r_hgetall ?R s k) ++ map_of (rev kvs)"
    by (simp add: mem_defs map_of_dict_update wf_dict_update)
  show "map_of (r_hgetall ?R (r_hdel ?R s k fs) k) = map_of (r_hgetall ?R s k) |` (- set fs)"
    by (simp add: mem_defs map_of_filter_key)
  show "f \<in> set (keys (r_hgetall ?R (r_hincrbyfloat ?R s k f x) k)) \<and>
      hash_num F (r_hgetall ?R (r_hincrbyfloat ?R s k f x) k) f = Inr (Fin (r + x))"
    if "hash_num F (r_hgetall ?R s k) f = Inr (Fin r)"
    using that by (simp add: mem_defs m_num_def hash_num_def map_of_dict_set keys_dict_set
        wf_dict_set parse_print)
  show "map_of (r_hgetall ?R (r_hincrbyfloat ?R s k f x) k) f' = map_of (r_hgetall ?R s k) f'"
    if "f' \<noteq> f"
    using that by (simp add: mem_defs map_of_dict_set wf_dict_set)
  show "distinct (r_smembers ?R s k)" by (simp add: mem_defs)
  show "set (r_smembers ?R (r_sadd ?R s k ms) k) = set (r_smembers ?R s k) \<union> set ms"
    by (simp add: mem_defs)
  show "r_lindex_last ?R s k = (if r_lrange ?R s k = [] then None else Some (last (r_lrange ?R s k)))"
    by (simp add: mem_defs)
  show "r_lrange ?R (r_rpush ?R s k w) k = r_lrange ?R s k @ [w]" by (simp add: mem_defs)
  show "r_lrange ?R (r_ltrim_last ?R s k n) k = last_n n (r_lrange ?R s k)" by (simp add: mem_defs)
  show "sorted (map snd (r_zrange ?R s k))" by (simp add: mem_defs z_sort_sorted)
  show "distinct (map fst (r_zrange ?R s k))"
    using wf_z_sort [of "uniq (e_zset (m_entry s k))"] wf_uniq [of "e_zset (m_entry s k)"]
    by (simp add: mem_defs wf_dict_def)
  show "r_zcard ?R s k = length (r_zrange ?R s k)" by (simp add: mem_defs)
  show "r_zrange ?R (r_zrem ?R s k m) k = filter (\<lambda>e. fst e \<noteq> m) (r_zrange ?R s k)"
    by (simp add: mem_defs z_sort_filter)
  show "r_zrange ?R (r_zremrangebyscore ?R s k lo hi) k =
      filter (\<lambda>e. \<not> (lo \<le> snd e \<and> snd e \<le> hi)) (r_zrange ?R s k)"
    by (simp add: mem_defs z_sort_filter)
  show "set (r_zrange ?R (r_zadd ?R s k m t) k) =
      insert (m, t) {e \<in> set (r_zrange ?R s k). fst e \<noteq> m}"
  proof -
    have wf: "wf_dict (uniq (e_zset (m_entry s k)))" by simp
    have "set (dict_set m t d) = insert (m, t) {e \<in> set d. fst e \<noteq> m}" if "wf_dict d" for d :: "(string, int) dict"
      using that unfolding dict_set_def wf_dict_def
      by (induction d) (auto simp: image_iff)
    from this [OF wf] wf show ?thesis
      by (simp add: mem_defs z_sort_def wf_dict_set)
  qed
  show "r_view ?R (r_delete ?R s ks) k = ([], [], [], [])" if "k \<in> set ks"
    using that by (simp add: mem_defs m_entry_delete no_entry_def z_sort_def)
  show "r_view ?R (r_delete ?R s ks) k = r_view ?R s k" if "k \<notin> set ks"
    using that by (simp add: mem_defs m_entry_delete)
  show "r_view ?R (r_expire ?R s k ttl) k' = r_view ?R s k'" by (simp add: mem_defs)
  show "(k \<in> set (r_scan_prefix ?R s m)) =
      (r_view ?R s k \<noteq> ([], [], [], []) \<and> take (length m) k = m)"
  proof -
    have nz: "z_sort d = [] \<longleftrightarrow> d = []" for d :: "(string, int) dict"
      unfolding z_sort_def by (metis length_0_conv length_sort)
    have "m_entry s k \<noteq> no_entry \<longleftrightarrow> r_view ?R s k \<noteq> ([], [], [], [])"
      by (cases "m_entry s k") (simp add: mem_defs no_entry_def nz)
    moreover have "k \<in> set (keys s)" if "m_entry s k \<noteq> no_entry"
      using that by (force simp: m_entry_def dict_get_def dest: map_of_SomeD split: option.splits)
    ultimately show ?thesis by (auto simp: mem_redis_def)
  qed
qed (simp_all add: mem_defs)

interpretation mem: redis_laws "mem_redis parse_rat print_rat" parse_rat
  by (rule mem_redis_laws) simp

end
