(* ===== verification/PyConv.thy ===== *)
theory PyConv
  imports RedisPort "HOL-Library.Countable"
begin

text \<open>
  The standard library's conversions between values and the strings the services keep in Redis:
  \<open>repr\<close> and \<open>float\<close>, \<open>int\<close> and \<open>str\<close>, \<open>datetime.isoformat\<close> and \<open>fromisoformat\<close>, \<open>str(uuid)\<close> and
  \<open>uuid.UUID\<close>, \<open>json.dumps\<close> and \<open>json.loads\<close>. They are parameters of the model; the one law
  the code relies on is that reading inverts writing. Integers are printed and parsed by
  \<open>int_str\<close> and \<open>int_parse\<close> of the prelude, which are definitions.
\<close>

type_synonym uuid = nat

text \<open>What \<open>yaml.safe_load\<close> and \<open>json.loads\<close> return.\<close>

datatype tree =
    TNull
  | TBool bool
  | TInt int
  | TFloat flt
  | TStr string
  | TList "tree list"
  | TMap "(string \<times> tree) list"

record pyconv =
  c_repr :: "flt \<Rightarrow> string"
  c_float :: "string \<Rightarrow> flt res"
  c_int :: "string \<Rightarrow> int res"
  c_show :: "tree \<Rightarrow> string"
  c_iso :: "int \<Rightarrow> string"
  c_fromiso :: "string \<Rightarrow> datetime res"
  c_uuid_str :: "uuid \<Rightarrow> string"
  c_uuid :: "string \<Rightarrow> uuid res"
  c_dumps_strs :: "string list \<Rightarrow> string"
  c_loads_strs :: "string \<Rightarrow> string list res"
  c_dumps_hist :: "(string, flt) dict list \<Rightarrow> string"
  c_loads_hist :: "string \<Rightarrow> (string, flt) dict list res"

locale pyconv_laws =
  fixes C :: pyconv
  assumes float_repr: "c_float C (c_repr C x) = Inr x"
    and float_int: "c_float C (int_str i) = Inr (Fin (of_int i))"
    and int_int: "c_int C (int_str i) = Inr i"
    and fromiso_iso: "c_fromiso C (c_iso C us) = Inr (Aware us)"
    and iso_nonempty: "c_iso C us \<noteq> []"
    and uuid_str: "c_uuid C (c_uuid_str C u) = Inr u"
    and loads_strs: "c_loads_strs C (c_dumps_strs C ss) = Inr ss"
    and loads_hist: "c_loads_hist C (c_dumps_hist C hs) = Inr hs"
    and dumps_hist_nonempty: "c_dumps_hist C hs \<noteq> []"
    and loads_hist_empty: "c_loads_hist C ''[]'' = Inr []"

text \<open>A server and the conversions its clients use, together.\<close>

locale backing = pyconv_laws C + redis_laws R "c_float C"
  for C :: pyconv and R :: "'s redis_ops"

section \<open>An instance\<close>

instance flt :: countable
  by countable_datatype

definition print_flt :: "flt \<Rightarrow> string" where
  "print_flt x = (case x of Fin r \<Rightarrow> print_rat r | PInf \<Rightarrow> ''inf'' | NInf \<Rightarrow> ''-inf'' | NaN \<Rightarrow> ''nan'')"

definition parse_flt :: "string \<Rightarrow> flt res" where
  "parse_flt s = (if s = ''inf'' then Inr PInf else if s = ''-inf'' then Inr NInf
     else if s = ''nan'' then Inr NaN
     else case int_parse s of Inr i \<Rightarrow> Inr (Fin (of_int i)) | Inl e \<Rightarrow> parse_rat s)"

lemma print_rat_slash: "CHR ''/'' \<in> set (print_rat x)"
  by (cases "quotient_of x") (simp add: print_rat_def)

lemma int_parse_slash: "CHR ''/'' \<in> set s \<Longrightarrow> \<exists>e. int_parse s = Inl e"
proof (rule ccontr)
  assume slash: "CHR ''/'' \<in> set s" and "\<nexists>e. int_parse s = Inl e"
  then obtain i where "int_parse s = Inr i" by (cases "int_parse s") auto
  then have "\<forall>c \<in> set s. is_digit c \<or> c = CHR ''-''"
    by (cases s) (auto simp: int_parse_def list_all_iff split: if_splits)
  with slash have "is_digit (CHR ''/'')" by auto
  then show False by (simp add: is_digit_def)
qed

lemma parse_flt_int [simp]: "parse_flt (int_str i) = Inr (Fin (of_int i))"
proof -
  have "int_str i \<noteq> s" if "CHR ''n'' \<in> set s" for s
  proof
    assume "int_str i = s"
    with that int_str_chars [of "CHR ''n''" i] show False by (simp add: is_digit_def)
  qed
  then show ?thesis by (simp add: parse_flt_def)
qed

lemma parse_print_flt [simp]: "parse_flt (print_flt x) = Inr x"
proof (cases x)
  case (Fin r)
  have "print_rat r \<noteq> ''inf''" "print_rat r \<noteq> ''-inf''" "print_rat r \<noteq> ''nan''"
    using print_rat_slash [of r] by auto
  moreover obtain e where "int_parse (print_rat r) = Inl e"
    using int_parse_slash [OF print_rat_slash] by blast
  ultimately show ?thesis using Fin by (simp add: print_flt_def parse_flt_def)
qed (simp_all add: print_flt_def parse_flt_def)

lemma parse_flt_print_rat [simp]: "parse_flt (print_rat r) = Inr (Fin r)"
  using parse_print_flt [of "Fin r"] by (simp add: print_flt_def)

definition std_conv :: pyconv where
  "std_conv = \<lparr>
     c_repr = print_flt,
     c_float = parse_flt,
     c_int = int_parse,
     c_show = (\<lambda>t. []),
     c_iso = int_str,
     c_fromiso = (\<lambda>s. bind_res (int_parse s) (\<lambda>i. Inr (Aware i))),
     c_uuid_str = (\<lambda>u. int_str (int u)),
     c_uuid = (\<lambda>s. bind_res (int_parse s) (\<lambda>i. if i < 0 then Inl ValueError else Inr (nat i))),
     c_dumps_strs = (\<lambda>ss. nat_str (to_nat ss)),
     c_loads_strs = (\<lambda>s. Inr (from_nat (digits_val s))),
     c_dumps_hist = (\<lambda>hs. nat_str (to_nat hs)),
     c_loads_hist = (\<lambda>s. Inr (if s = ''[]'' then [] else from_nat (digits_val s)))\<rparr>"

lemma int_str_nonempty [simp]: "int_str i \<noteq> []"
  by (simp add: int_str_def nat_str_nonempty)

lemma nat_str_not_brackets [simp]: "nat_str n \<noteq> ''[]''"
  using nat_str_digits [of n] by (auto simp: is_digit_def)

interpretation std: pyconv_laws std_conv
  by unfold_locales (simp_all add: std_conv_def nat_str_nonempty)

definition std_redis :: "mem redis_ops" where
  "std_redis = mem_redis (c_float std_conv) print_rat"

interpretation std: backing std_conv std_redis
  unfolding std_redis_def
  by (rule backing.intro [OF std.pyconv_laws_axioms])
    (rule mem_redis_laws, simp add: std_conv_def)

lemma mem_empty_hash [simp]: "r_hgetall std_redis [] k = []"
  by (simp add: std_redis_def mem_redis_def m_entry_def no_entry_def dict_get_def uniq_def)

end
