(* ===== verification/Delivery.thy ===== *)
theory Delivery
  imports Prelude
begin

text \<open>
  At-least-once delivery. Every consumer of the pipeline may be handed the same message again;
  the ones that keep a watermark per key skip what is at or before it. \<open>watermarked\<close> is that
  contract, and its lemmas are what the contract buys: the state after any sequence of deliveries
  is the state after its strictly advancing subsequence, and a redelivery changes nothing.
\<close>

text \<open>The deliveries a watermark lets through: those later than everything before them.\<close>

fun advancing :: "('m \<Rightarrow> int) \<Rightarrow> int option \<Rightarrow> 'm list \<Rightarrow> 'm list" where
  "advancing stamp mark [] = []"
| "advancing stamp mark (m # ms) =
     (if (case mark of None \<Rightarrow> False | Some t \<Rightarrow> stamp m \<le> t) then advancing stamp mark ms
      else m # advancing stamp (Some (stamp m)) ms)"

definition after :: "int option \<Rightarrow> int \<Rightarrow> bool" where
  "after mark t = (case mark of None \<Rightarrow> True | Some w \<Rightarrow> w < t)"

lemma advancing_after: "m \<in> set (advancing stamp mark ms) \<Longrightarrow> after mark (stamp m)"
proof (induction ms arbitrary: mark)
  case (Cons x ms)
  then show ?case
    by (cases mark; fastforce simp: after_def not_le split: if_splits)
qed simp

lemma advancing_sorted: "sorted_wrt (<) (map stamp (advancing stamp mark ms))"
proof (induction ms arbitrary: mark)
  case (Cons x ms)
  then show ?case
    using advancing_after [of _ stamp "Some (stamp x)" ms] by (auto simp: after_def)
qed simp

lemma advancing_subset: "set (advancing stamp mark ms) \<subseteq> set ms"
  by (induction ms arbitrary: mark) (auto split: option.splits if_splits)

locale watermarked =
  fixes handle :: "'st \<Rightarrow> 'm \<Rightarrow> 'st" and mark :: "'st \<Rightarrow> int option" and stamp :: "'m \<Rightarrow> int"
  assumes stale: "\<not> after (mark st) (stamp m) \<Longrightarrow> handle st m = st"
    and advances: "after (mark st) (stamp m) \<Longrightarrow> mark (handle st m) = Some (stamp m)"
begin

lemma handle_all_advancing: "foldl handle st ms = foldl handle st (advancing stamp (mark st) ms)"
proof (induction ms arbitrary: st)
  case (Cons m ms)
  show ?case
  proof (cases "after (mark st) (stamp m)")
    case True
    then have "\<not> (case mark st of None \<Rightarrow> False | Some t \<Rightarrow> stamp m \<le> t)"
      by (auto simp: after_def split: option.splits)
    then show ?thesis using Cons.IH [of "handle st m"] advances [OF True] by simp
  next
    case False
    then have "case mark st of None \<Rightarrow> False | Some t \<Rightarrow> stamp m \<le> t"
      by (auto simp: after_def split: option.splits)
    then show ?thesis using Cons.IH [of st] stale [OF False] by simp
  qed
qed simp

lemma stale_all: "\<forall>m \<in> set ms. \<not> after (mark st) (stamp m) \<Longrightarrow> foldl handle st ms = st"
  by (induction ms) (auto simp: stale)

lemma mark_grows: "mark st = Some t \<Longrightarrow> \<exists>t'. mark (foldl handle st ms) = Some t' \<and> t \<le> t'"
proof (induction ms arbitrary: st t)
  case (Cons m ms)
  show ?case
  proof (cases "after (mark st) (stamp m)")
    case True
    then have "t \<le> stamp m" using Cons.prems by (simp add: after_def)
    with Cons.IH [OF advances [OF True]] show ?thesis by force
  next
    case False
    with Cons stale show ?thesis by simp
  qed
qed simp

lemma handled_is_stale: "m \<in> set ms \<Longrightarrow> \<not> after (mark (foldl handle st ms)) (stamp m)"
proof (induction ms arbitrary: st)
  case (Cons x ms)
  show ?case
  proof (cases "m = x")
    case True
    have "\<not> after (mark (handle st x)) (stamp x)"
      by (cases "after (mark st) (stamp x)") (simp_all add: advances stale, simp add: after_def)
    then obtain t where "mark (handle st x) = Some t" "stamp x \<le> t"
      by (auto simp: after_def split: option.splits)
    with mark_grows [of "handle st x" t ms] True show ?thesis by (force simp: after_def)
  next
    case False
    with Cons show ?thesis by simp
  qed
qed simp

text \<open>Redelivering anything already handled, in any order and any number of times.\<close>

lemma redelivery: "set again \<subseteq> set ms \<Longrightarrow> foldl handle st (ms @ again) = foldl handle st ms"
  using stale_all [of again "foldl handle st ms"] handled_is_stale [of _ ms st] by auto

end

end
