(* ===== verification/Episodes.thy ===== *)
theory Episodes
  imports PyConv Delivery
begin

text \<open>
  \<open>services/persister/episodes.py\<close>: the lifecycle of an episode and the Redis hash that carries
  it between messages. Instants are the UTC microseconds \<open>as_utc\<close> yields. \<open>uuid.uuid4()\<close> is the
  argument \<open>new_id\<close> of \<open>advance\<close>. The abstract specification is \<open>arc\<close>: the list of forecasts the
  open episode has seen, from which every field of the stored aggregate is recomputed.
\<close>

section \<open>State and transitions\<close>

record open_episode =
  oe_id :: uuid
  oe_started :: int
  oe_peak :: flt
  oe_stages :: "string list"
  oe_alert :: "int option"
  oe_above :: int
  oe_below :: int

record host_state =
  hs_last :: "int option"
  hs_episode :: "open_episode option"

record transition =
  tr_state :: host_state
  tr_episode :: "open_episode option"
  tr_opened :: bool
  tr_closed :: bool
  tr_ended :: "int option"

record episode_rules =
  ru_threshold :: flt
  ru_close :: int
  ru_lead :: int

record forecast_summary =
  fs_origin :: int
  fs_p :: flt
  fs_stage :: string

definition empty_host :: host_state where
  "empty_host = \<lparr>hs_last = None, hs_episode = None\<rparr>"

definition with_stage :: "string list \<Rightarrow> string \<Rightarrow> string list" where
  "with_stage stages stage = (if stage = [] \<or> stage \<in> set stages then stages else stages @ [stage])"

definition advance ::
    "episode_rules \<Rightarrow> uuid \<Rightarrow> host_state \<Rightarrow> forecast_summary \<Rightarrow> transition option" where
  "advance rules new_id state forecast =
     (if (case hs_last state of None \<Rightarrow> False | Some t \<Rightarrow> fs_origin forecast \<le> t) then None
      else
        let seen = state\<lparr>hs_last := Some (fs_origin forecast)\<rparr>;
            above = ru_threshold rules \<le> fs_p forecast
        in case hs_episode state of
          None \<Rightarrow>
            if \<not> above then Some \<lparr>tr_state = seen, tr_episode = None, tr_opened = False,
              tr_closed = False, tr_ended = None\<rparr>
            else
              let opened = \<lparr>oe_id = new_id, oe_started = fs_origin forecast, oe_peak = fs_p forecast,
                    oe_stages = with_stage [] (fs_stage forecast),
                    oe_alert = (if ru_lead rules \<le> 1 then Some (fs_origin forecast) else None),
                    oe_above = 1, oe_below = 0\<rparr>
              in Some \<lparr>tr_state = seen\<lparr>hs_episode := Some opened\<rparr>, tr_episode = Some opened,
                   tr_opened = True, tr_closed = False, tr_ended = None\<rparr>
        | Some episode \<Rightarrow>
            let updated = episode\<lparr>oe_peak := py_max (oe_peak episode) (fs_p forecast),
                  oe_stages := with_stage (oe_stages episode) (fs_stage forecast),
                  oe_above := (if above then oe_above episode + 1 else 0),
                  oe_below := (if above then 0 else oe_below episode + 1)\<rparr>;
                updated = (if oe_alert updated = None \<and> ru_lead rules \<le> oe_above updated
                  then updated\<lparr>oe_alert := Some (fs_origin forecast)\<rparr> else updated)
            in if \<not> above \<and> ru_close rules \<le> oe_below updated then
                 Some \<lparr>tr_state = seen\<lparr>hs_episode := None\<rparr>, tr_episode = Some updated,
                   tr_opened = False, tr_closed = True, tr_ended = Some (fs_origin forecast)\<rparr>
               else Some \<lparr>tr_state = seen\<lparr>hs_episode := Some updated\<rparr>, tr_episode = Some updated,
                   tr_opened = False, tr_closed = False, tr_ended = None\<rparr>)"

text \<open>
  One delivered forecast: the state moves when \<open>advance\<close> returns a transition and stays put when
  it returns \<open>None\<close>. A delivery carries the identifier \<open>uuid4\<close> would draw for it.
\<close>

definition deliver :: "episode_rules \<Rightarrow> host_state \<Rightarrow> uuid \<times> forecast_summary \<Rightarrow> host_state" where
  "deliver rules state = (\<lambda>(new_id, f).
     case advance rules new_id state f of None \<Rightarrow> state | Some tr \<Rightarrow> tr_state tr)"

section \<open>Redis access\<close>

definition EPISODE_TTL_S :: int where
  "EPISODE_TTL_S = 24 * 3600"

definition LAST_TS_FIELD :: string where
  "LAST_TS_FIELD = ''last_ts''"

definition OPEN_FIELDS :: "string list" where
  "OPEN_FIELDS = [''id'', ''started_at'', ''peak_risk'', ''stages'', ''first_alert_at'', ''above'', ''below'']"

definition episode_key :: "string \<Rightarrow> string \<Rightarrow> string" where
  "episode_key tenant_id host_id = ''ep:'' @ tenant_id @ '':'' @ host_id"

definition parse_ts :: "pyconv \<Rightarrow> string \<Rightarrow> int res" where
  "parse_ts C raw = bind_res (c_fromiso C raw) (\<lambda>d. Inr (as_utc d))"

text \<open>\<open>_parse_ts(raw) if raw else None\<close>, for a field that may be absent.\<close>

definition opt_ts :: "pyconv \<Rightarrow> string option \<Rightarrow> int option res" where
  "opt_ts C raw = (case raw of None \<Rightarrow> Inr None
     | Some s \<Rightarrow> if s = [] then Inr None else bind_res (parse_ts C s) (\<lambda>t. Inr (Some t)))"

definition read_state :: "pyconv \<Rightarrow> 's redis_ops \<Rightarrow> 's \<Rightarrow> string \<Rightarrow> string \<Rightarrow> host_state res" where
  "read_state C R s tenant_id host_id =
     (let fields = r_hgetall R s (episode_key tenant_id host_id) in
      if fields = [] then Inr empty_host
      else bind_res (opt_ts C (map_of fields LAST_TS_FIELD)) (\<lambda>last_ts.
        if map_of fields ''id'' = None then Inr \<lparr>hs_last = last_ts, hs_episode = None\<rparr>
        else
          bind_res (bind_res (dict_index fields ''id'') (c_uuid C)) (\<lambda>eid.
          bind_res (bind_res (dict_index fields ''started_at'') (parse_ts C)) (\<lambda>started.
          bind_res (bind_res (dict_index fields ''peak_risk'') (c_float C)) (\<lambda>peak.
          bind_res (bind_res (dict_index fields ''stages'') (c_loads_strs C)) (\<lambda>stages.
          bind_res (opt_ts C (map_of fields ''first_alert_at'')) (\<lambda>alert.
          bind_res (bind_res (dict_index fields ''above'') int_parse) (\<lambda>above.
          bind_res (bind_res (dict_index fields ''below'') int_parse) (\<lambda>below.
            Inr \<lparr>hs_last = last_ts, hs_episode = Some \<lparr>oe_id = eid, oe_started = started,
              oe_peak = peak, oe_stages = stages, oe_alert = alert, oe_above = above,
              oe_below = below\<rparr>\<rparr>)))))))))"

definition state_mapping :: "pyconv \<Rightarrow> host_state \<Rightarrow> (string, string) dict" where
  "state_mapping C state =
     (case hs_last state of None \<Rightarrow> [] | Some t \<Rightarrow> [(LAST_TS_FIELD, c_iso C t)]) @
     (case hs_episode state of None \<Rightarrow> []
      | Some episode \<Rightarrow>
          [(''id'', c_uuid_str C (oe_id episode)), (''started_at'', c_iso C (oe_started episode)),
           (''peak_risk'', c_repr C (oe_peak episode)),
           (''stages'', c_dumps_strs C (oe_stages episode)),
           (''above'', int_str (oe_above episode)), (''below'', int_str (oe_below episode))] @
          (case oe_alert episode of None \<Rightarrow> [] | Some t \<Rightarrow> [(''first_alert_at'', c_iso C t)]))"

text \<open>The pipeline is a transaction, so its commands are applied as one step, in order.\<close>

definition write_state :: "pyconv \<Rightarrow> 's redis_ops \<Rightarrow> 's \<Rightarrow> string \<Rightarrow> string \<Rightarrow> host_state \<Rightarrow> 's" where
  "write_state C R s tenant_id host_id state =
     (let key = episode_key tenant_id host_id;
          mapping = state_mapping C state;
          s1 = (case hs_episode state of
                 None \<Rightarrow> r_hdel R s key OPEN_FIELDS
               | Some episode \<Rightarrow>
                   if oe_alert episode = None then r_hdel R s key [''first_alert_at''] else s);
          s2 = (if mapping \<noteq> [] then r_hset R s1 key mapping else s1)
      in r_expire R s2 key EPISODE_TTL_S)"

section \<open>The abstract specification\<close>

type_synonym delivery = "uuid \<times> forecast_summary"

definition is_above :: "episode_rules \<Rightarrow> delivery \<Rightarrow> bool" where
  "is_above rules d \<longleftrightarrow> ru_threshold rules \<le> fs_p (snd d)"

definition origin_of :: "delivery \<Rightarrow> int" where
  "origin_of d = fs_origin (snd d)"

definition run_below :: "episode_rules \<Rightarrow> delivery list \<Rightarrow> nat" where
  "run_below rules ds = length (takeWhile (\<lambda>d. \<not> is_above rules d) (rev ds))"

definition run_above :: "episode_rules \<Rightarrow> delivery list \<Rightarrow> nat" where
  "run_above rules ds = length (takeWhile (is_above rules) (rev ds))"

text \<open>The arc of the open episode: empty when none is open.\<close>

definition arc_step :: "episode_rules \<Rightarrow> delivery list \<Rightarrow> delivery \<Rightarrow> delivery list" where
  "arc_step rules ds d =
     (if ds = [] then (if is_above rules d then [d] else [])
      else if \<not> is_above rules d \<and> ru_close rules \<le> int (run_below rules (ds @ [d])) then []
      else ds @ [d])"

definition arc :: "episode_rules \<Rightarrow> delivery list \<Rightarrow> delivery list" where
  "arc rules h = foldl (arc_step rules) [] h"

text \<open>The forecast that raised the alert: the first to end a run of \<open>ru_lead\<close> above the line.\<close>

definition alert_of :: "episode_rules \<Rightarrow> delivery list \<Rightarrow> int option" where
  "alert_of rules ds =
     map_option (\<lambda>n. origin_of (ds ! (n - 1)))
       (find (\<lambda>n. ru_lead rules \<le> int (run_above rules (take n ds))) [1..<length ds + 1])"

definition stages_of :: "delivery list \<Rightarrow> string list" where
  "stages_of ds = rev (remdups (rev (filter (\<lambda>s. s \<noteq> []) (map (fs_stage \<circ> snd) ds))))"

definition peak_of :: "delivery list \<Rightarrow> flt" where
  "peak_of ds = (case py_max_list (map (fs_p \<circ> snd) ds) of Inr p \<Rightarrow> p | Inl e \<Rightarrow> NaN)"

definition episode_of :: "episode_rules \<Rightarrow> delivery list \<Rightarrow> open_episode" where
  "episode_of rules ds =
     \<lparr>oe_id = fst (hd ds), oe_started = origin_of (hd ds), oe_peak = peak_of ds,
      oe_stages = stages_of ds, oe_alert = alert_of rules ds,
      oe_above = int (run_above rules ds), oe_below = int (run_below rules ds)\<rparr>"

definition host_of :: "episode_rules \<Rightarrow> delivery list \<Rightarrow> host_state" where
  "host_of rules h =
     \<lparr>hs_last = (if h = [] then None else Some (origin_of (last h))),
      hs_episode = (if arc rules h = [] then None else Some (episode_of rules (arc rules h)))\<rparr>"

section \<open>The lifecycle implements the specification\<close>

lemma run_snoc [simp]:
  "run_below rules (ds @ [d]) = (if is_above rules d then 0 else Suc (run_below rules ds))"
  "run_above rules (ds @ [d]) = (if is_above rules d then Suc (run_above rules ds) else 0)"
  "run_below rules [] = 0" "run_above rules [] = 0"
  by (simp_all add: run_below_def run_above_def)

lemma stages_of_snoc [simp]:
  "stages_of (ds @ [d]) = with_stage (stages_of ds) (fs_stage (snd d))" "stages_of [] = []"
  by (simp_all add: stages_of_def with_stage_def)

lemma peak_of_snoc [simp]:
  "peak_of (ds @ [d]) = (if ds = [] then fs_p (snd d) else py_max (peak_of ds) (fs_p (snd d)))"
  by (cases ds) (simp_all add: peak_of_def)

lemma alert_of_snoc [simp]:
  "alert_of rules (ds @ [d]) = (case alert_of rules ds of
     Some t \<Rightarrow> Some t
   | None \<Rightarrow> if ru_lead rules \<le> int (run_above rules (ds @ [d])) then Some (origin_of d) else None)"
proof -
  let ?P = "\<lambda>es n. ru_lead rules \<le> int (run_above rules (take n es))"
  have same: "find (?P (ds @ [d])) [1..<length ds + 1] = find (?P ds) [1..<length ds + 1]"
    by (rule find_cong) (auto simp: le_Suc_eq)
  have inside: "n \<le> length ds \<and> 1 \<le> n" if "find (?P ds) [1..<length ds + 1] = Some n" for n
  proof -
    have "n \<in> set [1..<length ds + 1]"
      using that unfolding find_Some_iff by (metis nth_mem)
    then show ?thesis by auto
  qed
  have range: "[1..<length (ds @ [d]) + 1] = [1..<length ds + 1] @ [length ds + 1]" by simp
  have last: "find (?P (ds @ [d])) [length ds + 1] =
      (if ru_lead rules \<le> int (run_above rules (ds @ [d])) then Some (length ds + 1) else None)"
    by simp
  show ?thesis
  proof (cases "find (?P ds) [1..<length ds + 1]")
    case None
    then show ?thesis unfolding alert_of_def range find_append same last by simp
  next
    case (Some n)
    have "(ds @ [d]) ! (n - 1) = ds ! (n - 1)"
      using inside [OF Some] by (auto simp: nth_append)
    then show ?thesis unfolding alert_of_def range find_append same last Some by simp
  qed
qed

lemma alert_of_Nil [simp]: "alert_of rules [] = None"
  by (simp add: alert_of_def)

lemma episode_of_snoc:
  assumes "ds \<noteq> []"
  shows "episode_of rules (ds @ [d]) = (let e = episode_of rules ds;
      above = (if is_above rules d then oe_above e + 1 else 0) in
    e\<lparr>oe_peak := py_max (oe_peak e) (fs_p (snd d)), oe_stages := with_stage (oe_stages e) (fs_stage (snd d)),
      oe_above := above, oe_below := (if is_above rules d then 0 else oe_below e + 1),
      oe_alert := (if oe_alert e = None \<and> ru_lead rules \<le> above then Some (origin_of d) else oe_alert e)\<rparr>)"
  using assms by (auto simp: episode_of_def Let_def split: option.splits)

lemma episode_of_single:
  "episode_of rules [d] = \<lparr>oe_id = fst d, oe_started = origin_of d, oe_peak = fs_p (snd d),
     oe_stages = with_stage [] (fs_stage (snd d)),
     oe_alert = (if ru_lead rules \<le> int (run_above rules [d]) then Some (origin_of d) else None),
     oe_above = int (run_above rules [d]), oe_below = int (run_below rules [d])\<rparr>"
  using stages_of_snoc(1) [of "[]" d] peak_of_snoc [of "[]" d] alert_of_snoc [of rules "[]" d]
  by (simp add: episode_of_def)

lemma run_single [simp]:
  "run_below rules [d] = (if is_above rules d then 0 else 1)"
  "run_above rules [d] = (if is_above rules d then 1 else 0)"
  using run_snoc(1) [of rules "[]" d] run_snoc(2) [of rules "[]" d] by simp_all

lemma arc_snoc [simp]: "arc rules (h @ [d]) = arc_step rules (arc rules h) d" "arc rules [] = []"
  by (simp_all add: arc_def)

text \<open>One fresh forecast moves the stored state as one abstract step moves the arc.\<close>

lemma deliver_fresh:
  assumes "h = [] \<or> origin_of (last h) < origin_of d"
  shows "deliver rules (host_of rules h) d = host_of rules (h @ [d])"
proof -
  obtain u f where d: "d = (u, f)" by force
  have fresh: "\<not> (case hs_last (host_of rules h) of None \<Rightarrow> False | Some t \<Rightarrow> fs_origin f \<le> t)"
    using assms by (auto simp: host_of_def d origin_of_def)
  have ab: "is_above rules (u, f) = (ru_threshold rules \<le> fs_p f)" by (simp add: is_above_def)
  show ?thesis
  proof (cases "arc rules h = []")
    case True
    with fresh show ?thesis
      by (simp add: deliver_def advance_def host_of_def d ab [symmetric] arc_step_def origin_of_def
          episode_of_single Let_def)
  next
    case False
    then show ?thesis using fresh
      by (simp add: deliver_def advance_def host_of_def d ab [symmetric] arc_step_def
          episode_of_snoc Let_def origin_of_def)
        (auto simp: episode_of_def)
  qed
qed

lemma advance_None: "advance rules u st f = None \<longleftrightarrow> \<not> after (hs_last st) (fs_origin f)"
  by (auto simp: advance_def after_def Let_def split: option.splits)

lemma advance_last: "advance rules u st f = Some tr \<Longrightarrow> hs_last (tr_state tr) = Some (fs_origin f)"
  by (auto simp: advance_def Let_def split: option.splits if_splits)

interpretation episode: watermarked "deliver rules" hs_last origin_of
proof unfold_locales
  fix st and d :: delivery
  obtain u f where d: "d = (u, f)" by force
  show "\<not> after (hs_last st) (origin_of d) \<Longrightarrow> deliver rules st d = st"
    using advance_None [of rules u st f] by (simp add: deliver_def d origin_of_def)
  show "after (hs_last st) (origin_of d) \<Longrightarrow> hs_last (deliver rules st d) = Some (origin_of d)"
    using advance_None [of rules u st f]
    by (cases "advance rules u st f") (simp_all add: deliver_def d origin_of_def advance_last)
qed

lemma deliver_sorted:
  "sorted_wrt (<) (map origin_of h) \<Longrightarrow> foldl (deliver rules) empty_host h = host_of rules h"
proof (induction h rule: rev_induct)
  case Nil
  then show ?case by (simp add: host_of_def empty_host_def)
next
  case (snoc d h)
  then have "sorted_wrt (<) (map origin_of h)" "h = [] \<or> origin_of (last h) < origin_of d"
    by (auto simp: sorted_wrt_append dest: last_in_set)
  with snoc.IH show ?case by (simp add: deliver_fresh)
qed

lemma deliver_any:
  "foldl (deliver rules) empty_host ds = host_of rules (advancing origin_of None ds)"
  using episode.handle_all_advancing [of rules empty_host ds]
    deliver_sorted [OF advancing_sorted, of rules None ds]
  by (simp add: empty_host_def)

text \<open>
  C2. The episode lifecycle is a fold, however it is fed: after any sequence of deliveries, late
  and repeated ones included, the stored state of a host is the one recomputed from its strictly
  advancing forecasts alone: the watermark is the newest origin, and the open aggregate is the
  peak, the stages in order of first appearance, the two run lengths and the alert instant of the
  current arc, which opened at its first forecast.
\<close>

theorem advance_refines_arc:
  "foldl (deliver rules) empty_host ds = host_of rules (advancing origin_of None ds)"
  by (rule deliver_any)

text \<open>
  Redelivery is invisible to the lifecycle: feeding any already delivered forecasts again, in
  any order, with whatever fresh identifiers \<open>uuid4\<close> would draw, leaves the host's state as it was.
\<close>

lemma redelivered_forecasts_ignored:
  "foldl (deliver rules) st (ds @ concat (replicate n ds)) = foldl (deliver rules) st ds"
proof -
  have "set (concat (replicate n ds)) \<subseteq> set ds" by (induction n) auto
  then show ?thesis by (rule episode.redelivery)
qed

section \<open>What an open episode promises\<close>

definition episode_inv :: "episode_rules \<Rightarrow> host_state \<Rightarrow> bool" where
  "episode_inv rules st = (case hs_episode st of None \<Rightarrow> True
     | Some e \<Rightarrow> (case hs_last st of None \<Rightarrow> False | Some t \<Rightarrow>
         oe_started e \<le> t \<and>
         (case oe_alert e of None \<Rightarrow> oe_above e < ru_lead rules
          | Some a \<Rightarrow> oe_started e \<le> a \<and> a \<le> t) \<and>
         ru_threshold rules \<le> oe_peak e \<and>
         0 \<le> oe_above e \<and> 0 \<le> oe_below e \<and> (oe_above e = 0) = (0 < oe_below e) \<and>
         (oe_below e = 0 \<or> oe_below e < ru_close rules) \<and>
         distinct (oe_stages e) \<and> [] \<notin> set (oe_stages e)))"

lemma py_max_ge: "(a :: flt) \<le> x \<Longrightarrow> a \<le> py_max x y"
  by (cases a; cases x; cases y) (auto simp: py_max_def)

lemma with_stage_distinct:
  "distinct ss \<and> [] \<notin> set ss \<Longrightarrow> distinct (with_stage ss s) \<and> [] \<notin> set (with_stage ss s)"
  by (auto simp: with_stage_def)

lemma advance_inv:
  assumes "episode_inv rules st" "advance rules u st f = Some tr"
  shows "episode_inv rules (tr_state tr)"
proof -
  have after: "after (hs_last st) (fs_origin f)" using assms(2) advance_None [of rules u st f] by simp
  show ?thesis
  proof (cases "hs_episode st")
    case None
    have "distinct (with_stage [] (fs_stage f)) \<and> [] \<notin> set (with_stage [] (fs_stage f))"
      by (rule with_stage_distinct) simp
    with None assms(2) show ?thesis
      by (auto simp: advance_def episode_inv_def Let_def split: if_splits)
  next
    case (Some e)
    then obtain t where t: "hs_last st = Some t" "t < fs_origin f"
      using assms(1) after by (auto simp: episode_inv_def after_def split: option.splits)
    define ab where "ab = (ru_threshold rules \<le> fs_p f)"
    define al where "al = (if oe_alert e = None \<and> ru_lead rules \<le> (if ab then oe_above e + 1 else 0)
      then Some (fs_origin f) else oe_alert e)"
    define e' where "e' = e\<lparr>oe_peak := py_max (oe_peak e) (fs_p f),
      oe_stages := with_stage (oe_stages e) (fs_stage f),
      oe_above := (if ab then oe_above e + 1 else 0), oe_below := (if ab then 0 else oe_below e + 1),
      oe_alert := al\<rparr>"
    have e: "oe_started e \<le> t" "ru_threshold rules \<le> oe_peak e" "0 \<le> oe_above e" "0 \<le> oe_below e"
      "distinct (oe_stages e) \<and> [] \<notin> set (oe_stages e)"
      "case oe_alert e of None \<Rightarrow> oe_above e < ru_lead rules | Some a \<Rightarrow> oe_started e \<le> a \<and> a \<le> t"
      using assms(1) Some t by (simp_all add: episode_inv_def)
    have tr: "tr_state tr = st\<lparr>hs_last := Some (fs_origin f),
        hs_episode := (if \<not> ab \<and> ru_close rules \<le> oe_below e' then None else Some e')\<rparr>"
      using assms(2) Some t unfolding e'_def al_def ab_def
      by (auto simp: advance_def Let_def split: if_splits)
    have "case al of None \<Rightarrow> oe_above e' < ru_lead rules
        | Some a \<Rightarrow> oe_started e \<le> a \<and> a \<le> fs_origin f"
      using e(1,6) t(2) by (auto simp: al_def e'_def split: option.splits)
    then show ?thesis
      using e t(2) with_stage_distinct [OF e(5), of "fs_stage f"] py_max_ge [OF e(2), of "fs_p f"]
      by (auto simp: episode_inv_def tr e'_def split: option.splits)
  qed
qed

lemma deliver_inv: "episode_inv rules st \<Longrightarrow> episode_inv rules (deliver rules st d)"
  by (cases d) (auto simp: deliver_def advance_inv split: option.splits)

lemma delivers_inv: "episode_inv rules st \<Longrightarrow> episode_inv rules (foldl (deliver rules) st ds)"
  by (induction ds arbitrary: st) (auto simp: deliver_inv)

text \<open>
  The lead time a host is credited with is never negative: whatever is delivered, the alert of
  an open episode lies between its start and the newest forecast, an episode without an alert has
  not yet had the configured run above the line, the peak is at or above the threshold, exactly one
  of the two run lengths is zero, the run below stays short of the closing length, and no stage is
  listed twice.
\<close>

lemma open_episode_inv: "episode_inv rules (foldl (deliver rules) empty_host ds)"
  by (rule delivers_inv) (simp add: episode_inv_def empty_host_def)

section \<open>The stored hash\<close>

lemma episode_key_inj:
  assumes "CHR '':'' \<notin> set t" "CHR '':'' \<notin> set t'" "episode_key t h = episode_key t' h'"
  shows "t = t' \<and> h = h'"
proof -
  have "t @ CHR '':'' # h = t' @ CHR '':'' # h'" using assms(3) by (simp add: episode_key_def)
  then have "partition_str (CHR '':'') (t @ CHR '':'' # h) = partition_str (CHR '':'') (t' @ CHR '':'' # h')"
    by simp
  then show ?thesis using assms(1,2) by (simp add: partition_str_append)
qed

context backing
begin

lemma write_state_hash:
  assumes "hs_last st = Some t"
  shows "map_of (r_hgetall R (write_state C R s tn h st) (episode_key tn h)) LAST_TS_FIELD = Some (c_iso C t)"
    and "hs_episode st = None \<Longrightarrow>
      map_of (r_hgetall R (write_state C R s tn h st) (episode_key tn h)) ''id'' = None"
    and "hs_episode st = Some e \<Longrightarrow> k \<in> set (keys (state_mapping C st)) \<Longrightarrow>
      map_of (r_hgetall R (write_state C R s tn h st) (episode_key tn h)) k = map_of (state_mapping C st) k"
    and "hs_episode st = Some e \<Longrightarrow> oe_alert e = None \<Longrightarrow>
      map_of (r_hgetall R (write_state C R s tn h st) (episode_key tn h)) ''first_alert_at'' = None"
proof -
  have d: "distinct (keys (state_mapping C st))"
    by (auto simp: state_mapping_def LAST_TS_FIELD_def split: option.splits)
  have m: "map_of (rev (state_mapping C st)) = map_of (state_mapping C st)"
    by (rule map_of_rev_distinct [OF d])
  have ne: "state_mapping C st \<noteq> []" using assms by (simp add: state_mapping_def)
  note w = write_state_def Let_def hset_same hdel_same m ne
  show "map_of (r_hgetall R (write_state C R s tn h st) (episode_key tn h)) LAST_TS_FIELD = Some (c_iso C t)"
    using assms by (simp add: w) (simp add: state_mapping_def)
  show "hs_episode st = None \<Longrightarrow>
      map_of (r_hgetall R (write_state C R s tn h st) (episode_key tn h)) ''id'' = None"
    using assms by (simp add: w) (simp add: state_mapping_def LAST_TS_FIELD_def OPEN_FIELDS_def map_add_def)
  show "map_of (r_hgetall R (write_state C R s tn h st) (episode_key tn h)) k = map_of (state_mapping C st) k"
    if "hs_episode st = Some e" "k \<in> set (keys (state_mapping C st))"
  proof -
    from that(2) obtain v where "map_of (state_mapping C st) k = Some v"
      by (metis dom_map_of_conv_image_fst domD set_map)
    then show ?thesis using that(1) by (simp add: w)
  qed
  show "map_of (r_hgetall R (write_state C R s tn h st) (episode_key tn h)) ''first_alert_at'' = None"
    if "hs_episode st = Some e" "oe_alert e = None"
    using that assms by (simp add: w) (simp add: state_mapping_def LAST_TS_FIELD_def map_add_def)
qed

lemma read_write_state:
  assumes t: "hs_last st = Some t"
  shows "read_state C R (write_state C R s tn h st) tn h = Inr st"
proof -
  let ?H = "r_hgetall R (write_state C R s tn h st) (episode_key tn h)"
  note wh = write_state_hash [OF t, where s = s and tn = tn and h = h]
  have ne: "?H \<noteq> []" using wh(1) by auto
  have last: "opt_ts C (map_of ?H LAST_TS_FIELD) = Inr (Some t)"
    by (simp add: wh(1) opt_ts_def iso_nonempty parse_ts_def fromiso_iso)
  show ?thesis
  proof (cases "hs_episode st")
    case None
    then show ?thesis using ne last wh(2) t by (simp add: read_state_def Let_def)
  next
    case (Some e)
    note f = wh(3) [OF Some]
    have alert: "opt_ts C (map_of ?H ''first_alert_at'') = Inr (oe_alert e)"
    proof (cases "oe_alert e")
      case None
      then show ?thesis using wh(4) [OF Some] by (simp add: opt_ts_def)
    next
      case (Some a)
      then show ?thesis using f [of "''first_alert_at''"] \<open>hs_episode st = Some e\<close>
        by (simp add: state_mapping_def LAST_TS_FIELD_def opt_ts_def iso_nonempty parse_ts_def fromiso_iso
            split: option.splits)
    qed
    have "map_of ?H ''id'' = Some (c_uuid_str C (oe_id e))"
      "map_of ?H ''started_at'' = Some (c_iso C (oe_started e))"
      "map_of ?H ''peak_risk'' = Some (c_repr C (oe_peak e))"
      "map_of ?H ''stages'' = Some (c_dumps_strs C (oe_stages e))"
      "map_of ?H ''above'' = Some (int_str (oe_above e))"
      "map_of ?H ''below'' = Some (int_str (oe_below e))"
      using Some t by (simp_all add: f state_mapping_def LAST_TS_FIELD_def)
    then show ?thesis using ne last alert Some t
      by (simp add: read_state_def Let_def dict_index_def float_repr fromiso_iso uuid_str loads_strs
          parse_ts_def)
  qed
qed

lemma write_state_frame:
  "k \<noteq> episode_key tn h \<Longrightarrow> r_view R (write_state C R s tn h st) k = r_view R s k"
  by (auto simp: write_state_def Let_def frames split: option.splits)

lemma read_state_cong:
  "r_view R s (episode_key tn h) = r_view R s' (episode_key tn h) \<Longrightarrow>
   read_state C R s tn h = read_state C R s' tn h"
  by (simp add: read_state_def view_hgetall [of s _ s'])

end

text \<open>
  C17. The Redis hash carries a host's state faithfully: after any transition is written, whatever
  the hash held before, the next worker to read the host gets exactly that state back, closed
  episodes with no aggregate left over; and no other host of the tenant is touched.
\<close>

theorem episode_state_roundtrip:
  assumes "backing C R" and "advance rules new_id st f = Some tr"
  shows "read_state C R (write_state C R s tn h (tr_state tr)) tn h = Inr (tr_state tr)
    \<and> (if h' = h then True else
        read_state C R (write_state C R s tn h (tr_state tr)) tn h' = read_state C R s tn h')"
proof -
  let ?s = "write_state C R s tn h (tr_state tr)"
  have "read_state C R ?s tn h' = read_state C R s tn h'" if "h' \<noteq> h"
    by (rule backing.read_state_cong [OF assms(1)], rule backing.write_state_frame [OF assms(1)])
      (simp add: episode_key_def that)
  then show ?thesis
    using backing.read_write_state [OF assms(1) advance_last [OF assms(2)]] by simp
qed

definition demo_rules :: episode_rules where
  "demo_rules = \<lparr>ru_threshold = Fin (1 / 2), ru_close = 2, ru_lead = 2\<rparr>"

lemma episode_state_roundtrip_witness:
  "\<exists>tr. advance demo_rules 7 empty_host \<lparr>fs_origin = 60, fs_p = Fin (3 / 4), fs_stage = ''recon''\<rparr> = Some tr
     \<and> read_state std_conv std_redis (write_state std_conv std_redis [] ''a'' ''h'' (tr_state tr)) ''a'' ''h''
       = Inr (tr_state tr)"
proof -
  obtain tr where tr: "advance demo_rules 7 empty_host
      \<lparr>fs_origin = 60, fs_p = Fin (3 / 4), fs_stage = ''recon''\<rparr> = Some tr"
    by (simp add: advance_def empty_host_def demo_rules_def Let_def)
  with episode_state_roundtrip [OF std.backing_axioms tr, of "[]" "''a''" "''h''" "''h''"]
  show ?thesis by blast
qed

end
