(* ===== verification/Schema.thy ===== *)
theory Schema
  imports PyFloat
begin

text \<open>
  The schemas of the messages and their validators: the canonical feature list, its transforms
  and the feature regimes (\<open>ml/nidra/data/schema.py\<close>), \<open>StateVector\<close>, \<open>HorizonPoint\<close> and
  \<open>Forecast\<close> (\<open>nidra_common/schemas.py\<close>), \<open>RawEvent\<close> and \<open>IngestJobMessage\<close>
  (\<open>nidra_common/events.py\<close>). A Pydantic model is a record; its validator is a function that
  returns the record or the \<open>ValueError\<close> it raises. The field types are Pydantic's business.
\<close>

named_theorems schema_simps \<open>what a validated message satisfies\<close>

section \<open>The feature list\<close>

definition FEATURE_ORDER :: "string list" where
  "FEATURE_ORDER =
    [''syn_ratio'', ''ack_ratio'', ''rst_ratio'', ''fin_ratio'',
     ''psh_ratio'', ''urg_ratio'', ''bytes_total'', ''bytes_up_down_ratio'',
     ''pkts_per_flow_mean'', ''flow_duration_mean'', ''flow_duration_var'', ''iat_mean'',
     ''iat_var'', ''iat_max'', ''active_flow_count'', ''ttl_mean'',
     ''ttl_var'', ''tcp_window_mean'', ''tcp_window_entropy'', ''frag_flag_rate'',
     ''payload_size_mean'', ''payload_size_var'', ''payload_size_p95'', ''payload_size_entropy'',
     ''retrans_count'', ''retrans_rate'', ''out_degree'', ''in_degree'',
     ''dst_ip_entropy'', ''dst_port_entropy'', ''new_peer_count'', ''neighbour_risk_fraction'',
     ''local_clustering_coeff'', ''reciprocity'', ''d_syn_ratio'', ''d_dst_port_entropy'',
     ''d_out_degree'', ''d_new_peer_count'', ''d_iat_var'', ''d_retrans_rate'',
     ''slope3_syn_ratio'', ''slope3_dst_port_entropy'', ''slope3_out_degree'', ''slope3_iat_var'',
     ''is_active'']"

definition STAGES :: "string list" where
  "STAGES = [''benign'', ''recon'', ''initial_access'', ''lateral'', ''c2'', ''exfil'']"

definition FEATURE_TRANSFORMS :: "(string, string) dict" where
  "FEATURE_TRANSFORMS =
    [(''syn_ratio'', ''unit''), (''ack_ratio'', ''unit''), (''rst_ratio'', ''unit''),
     (''fin_ratio'', ''unit''), (''psh_ratio'', ''unit''), (''urg_ratio'', ''unit''),
     (''bytes_total'', ''log1p''), (''bytes_up_down_ratio'', ''log1p''), (''pkts_per_flow_mean'', ''log1p''),
     (''flow_duration_mean'', ''log1p''), (''flow_duration_var'', ''log1p''), (''iat_mean'', ''log1p''),
     (''iat_var'', ''log1p''), (''iat_max'', ''log1p''), (''active_flow_count'', ''log1p''),
     (''ttl_mean'', ''zscore''), (''ttl_var'', ''log1p''), (''tcp_window_mean'', ''log1p''),
     (''tcp_window_entropy'', ''zscore''), (''frag_flag_rate'', ''unit''), (''payload_size_mean'', ''log1p''),
     (''payload_size_var'', ''log1p''), (''payload_size_p95'', ''log1p''), (''payload_size_entropy'', ''zscore''),
     (''retrans_count'', ''log1p''), (''retrans_rate'', ''unit''), (''out_degree'', ''log1p''),
     (''in_degree'', ''log1p''), (''dst_ip_entropy'', ''zscore''), (''dst_port_entropy'', ''zscore''),
     (''new_peer_count'', ''log1p''), (''neighbour_risk_fraction'', ''unit''), (''local_clustering_coeff'', ''unit''),
     (''reciprocity'', ''unit''), (''d_syn_ratio'', ''unit''), (''d_dst_port_entropy'', ''zscore''),
     (''d_out_degree'', ''asinh''), (''d_new_peer_count'', ''asinh''), (''d_iat_var'', ''asinh''),
     (''d_retrans_rate'', ''unit''), (''slope3_syn_ratio'', ''unit''), (''slope3_dst_port_entropy'', ''zscore''),
     (''slope3_out_degree'', ''asinh''), (''slope3_iat_var'', ''asinh''), (''is_active'', ''unit'')]"

definition LOG1P_FEATURES :: "string list" where
  "LOG1P_FEATURES = filter (\<lambda>f. map_of FEATURE_TRANSFORMS f = Some ''log1p'') FEATURE_ORDER"

text \<open>\<open>FEATURE_INDEX\<close>: the position of a name, through \<open>enumerate(FEATURE_ORDER)\<close>.\<close>

definition FEATURE_INDEX :: "(string, nat) dict" where
  "FEATURE_INDEX = zip FEATURE_ORDER [0..<length FEATURE_ORDER]"

lemma length_FEATURE_ORDER [simp]: "length FEATURE_ORDER = 45"
  by code_simp

lemma distinct_FEATURE_ORDER [simp]: "distinct FEATURE_ORDER"
  by code_simp

lemma FEATURE_INDEX_nth: "i < 45 \<Longrightarrow> map_of FEATURE_INDEX (FEATURE_ORDER ! i) = Some i"
  unfolding FEATURE_INDEX_def by (subst map_of_zip_nth) simp_all

lemma FEATURE_INDEX_Some:
  assumes "map_of FEATURE_INDEX name = Some i"
  shows "i < 45 \<and> FEATURE_ORDER ! i = name"
proof -
  have "(name, i) \<in> set (zip FEATURE_ORDER [0..<length FEATURE_ORDER])"
    using assms unfolding FEATURE_INDEX_def by (rule map_of_SomeD)
  then show ?thesis by (auto simp: set_zip)
qed

lemma FEATURE_INDEX_dom: "name \<in> set FEATURE_ORDER \<Longrightarrow> \<exists>i. map_of FEATURE_INDEX name = Some i"
  using FEATURE_INDEX_nth by (metis in_set_conv_nth length_FEATURE_ORDER)

subsection \<open>Validators of the feature schema\<close>

definition validate_feature_dict :: "(string, flt) dict \<Rightarrow> unit res" where
  "validate_feature_dict features =
     (if set (keys features) \<noteq> set FEATURE_ORDER then Inl ValueError else Inr ())"

definition validate_state_array_width :: "nat \<Rightarrow> unit res" where
  "validate_state_array_width width =
     (if width \<noteq> length FEATURE_ORDER then Inl ValueError else Inr ())"

subsection \<open>Feature regimes\<close>

definition PACKET_FEATURES_UNAVAILABLE_IN_CTU :: "string list" where
  "PACKET_FEATURES_UNAVAILABLE_IN_CTU = take (26 - 15) (drop 15 FEATURE_ORDER)"

definition NO_PER_PACKET_TIMING :: "string list" where
  "NO_PER_PACKET_TIMING = [''iat_max'', ''d_retrans_rate'']"

definition FLAG_SEMANTICS_DIFFER :: "string list" where
  "FLAG_SEMANTICS_DIFFER =
    [''syn_ratio'', ''ack_ratio'', ''rst_ratio'', ''fin_ratio'', ''psh_ratio'', ''urg_ratio'',
     ''d_syn_ratio'', ''slope3_syn_ratio'']"

definition FEATURE_REGIMES :: "(string, string list) dict" where
  "FEATURE_REGIMES =
    [(''full'', []),
     (''cross_core'', PACKET_FEATURES_UNAVAILABLE_IN_CTU @ NO_PER_PACKET_TIMING),
     (''cross_strict'', PACKET_FEATURES_UNAVAILABLE_IN_CTU @ NO_PER_PACKET_TIMING
        @ FLAG_SEMANTICS_DIFFER)]"

definition regime_dropped_features :: "string \<Rightarrow> string list res" where
  "regime_dropped_features regime = (case map_of FEATURE_REGIMES regime of
     None \<Rightarrow> Inl ValueError
   | Some excluded \<Rightarrow>
       (if \<not> list_all (\<lambda>f. f \<in> set FEATURE_ORDER) excluded then Inl ValueError
        else Inr (filter (\<lambda>f. f \<in> set excluded) FEATURE_ORDER)))"

definition regime_kinds :: "string \<Rightarrow> string list res" where
  "regime_kinds regime = bind_res (regime_dropped_features regime) (\<lambda>excluded.
     traverse_res (\<lambda>f. if f \<in> set excluded then Inr ''drop'' else dict_index FEATURE_TRANSFORMS f)
       FEATURE_ORDER)"

lemma FEATURE_TRANSFORMS_cover: "set (keys FEATURE_TRANSFORMS) = set FEATURE_ORDER"
  by code_simp

lemma FEATURE_TRANSFORMS_kinds:
  "set (map snd FEATURE_TRANSFORMS) = {''unit'', ''log1p'', ''zscore'', ''asinh''}"
  by code_simp

lemma dict_index_transforms:
  "f \<in> set FEATURE_ORDER \<Longrightarrow> \<exists>k. dict_index FEATURE_TRANSFORMS f = Inr k \<and> k \<noteq> ''drop''"
proof -
  assume "f \<in> set FEATURE_ORDER"
  then have "f \<in> set (keys FEATURE_TRANSFORMS)" by (simp only: FEATURE_TRANSFORMS_cover)
  then obtain k where k: "map_of FEATURE_TRANSFORMS f = Some k"
    by (metis dom_map_of_conv_image_fst domD set_map)
  then have "k \<in> set (map snd FEATURE_TRANSFORMS)" by (force dest: map_of_SomeD)
  then have "k \<noteq> ''drop''" unfolding FEATURE_TRANSFORMS_kinds by auto
  with k show ?thesis by (simp add: dict_index_def)
qed

text \<open>
  A feature regime splits the canonical list: for every regime name the transform list has
  one entry per canonical feature, an entry is the drop marker exactly at the features the
  regime excludes, every other entry is the declared transform, and an unknown name raises.
\<close>

lemma regime_kinds_partition:
  "(case regime_dropped_features r of
      Inl e \<Rightarrow> e = ValueError \<and> r \<notin> {''full'', ''cross_core'', ''cross_strict''} \<and>
        regime_kinds r = Inl ValueError
    | Inr dropped \<Rightarrow> r \<in> {''full'', ''cross_core'', ''cross_strict''} \<and>
        dropped = filter (\<lambda>f. f \<in> set dropped) FEATURE_ORDER \<and>
        (\<exists>ks. regime_kinds r = Inr ks \<and>
          list_all2 (\<lambda>f k. if f \<in> set dropped then k = ''drop''
            else k \<noteq> ''drop'' \<and> map_of FEATURE_TRANSFORMS f = Some k) FEATURE_ORDER ks))"
proof -
  have known: "(map_of FEATURE_REGIMES r = None) = (r \<notin> {''full'', ''cross_core'', ''cross_strict''})"
    by (simp add: FEATURE_REGIMES_def)
  have inside: "list_all (\<lambda>f. f \<in> set FEATURE_ORDER) (PACKET_FEATURES_UNAVAILABLE_IN_CTU
      @ NO_PER_PACKET_TIMING @ FLAG_SEMANTICS_DIFFER)" by code_simp
  then have sub: "list_all (\<lambda>f. f \<in> set FEATURE_ORDER) ex" if "map_of FEATURE_REGIMES r = Some ex" for ex
    using that by (auto simp: FEATURE_REGIMES_def split: if_splits)
  have kinds: "\<exists>ks. traverse_res (\<lambda>f. if f \<in> D then Inr ''drop'' else dict_index FEATURE_TRANSFORMS f)
        FEATURE_ORDER = Inr ks \<and>
      list_all2 (\<lambda>f k. if f \<in> D then k = ''drop''
        else k \<noteq> ''drop'' \<and> map_of FEATURE_TRANSFORMS f = Some k) FEATURE_ORDER ks" for D
  proof -
    define h where "h f = (if f \<in> D then ''drop'' else the (map_of FEATURE_TRANSFORMS f))" for f
    have h: "(if f \<in> D then Inr ''drop'' else dict_index FEATURE_TRANSFORMS f) = Inr (h f) \<and>
        (if f \<in> D then h f = ''drop'' else h f \<noteq> ''drop'' \<and> map_of FEATURE_TRANSFORMS f = Some (h f))"
      if "f \<in> set FEATURE_ORDER" for f
      using dict_index_transforms [OF that]
      by (auto simp: h_def dict_index_def split: option.splits)
    have "traverse_res (\<lambda>f. if f \<in> D then Inr ''drop'' else dict_index FEATURE_TRANSFORMS f)
        FEATURE_ORDER = Inr (map h FEATURE_ORDER)"
      using h by (intro traverse_res_all) blast
    moreover have "list_all2 (\<lambda>f k. if f \<in> D then k = ''drop''
        else k \<noteq> ''drop'' \<and> map_of FEATURE_TRANSFORMS f = Some k) FEATURE_ORDER (map h FEATURE_ORDER)"
      using h by (simp add: list.rel_map list.rel_refl_strong)
    ultimately show ?thesis by blast
  qed
  show ?thesis
  proof (cases "map_of FEATURE_REGIMES r")
    case None
    with known show ?thesis by (simp add: regime_dropped_features_def regime_kinds_def)
  next
    case (Some ex)
    define D where "D = filter (\<lambda>f. f \<in> set ex) FEATURE_ORDER"
    have D: "regime_dropped_features r = Inr D"
      using Some sub [OF Some] by (simp add: regime_dropped_features_def D_def)
    have "D = filter (\<lambda>f. f \<in> set D) FEATURE_ORDER"
      unfolding D_def by (rule filter_cong) simp_all
    moreover obtain ks where "regime_kinds r = Inr ks"
      "list_all2 (\<lambda>f k. if f \<in> set D then k = ''drop''
         else k \<noteq> ''drop'' \<and> map_of FEATURE_TRANSFORMS f = Some k) FEATURE_ORDER ks"
      using kinds [of "set D"] by (auto simp: regime_kinds_def D)
    moreover have "r \<in> {''full'', ''cross_core'', ''cross_strict''}"
      using known Some by simp
    ultimately show ?thesis unfolding D sum.case by blast
  qed
qed

section \<open>StateVector\<close>

definition SCHEMA_VERSION :: string where
  "SCHEMA_VERSION = ''1.0''"

record state_vector =
  sv_tenant :: string
  sv_host :: string
  sv_ts :: datetime
  sv_features :: "(string, flt) dict"
  sv_schema :: string

text \<open>The \<open>mode="after"\<close> validator of \<open>StateVector\<close>.\<close>

definition validate_state_vector :: "state_vector \<Rightarrow> state_vector res" where
  "validate_state_vector v =
     (if set (keys (sv_features v)) \<noteq> set FEATURE_ORDER then Inl ValueError else Inr v)"

lemma validate_state_vector_Inr [schema_simps]:
  "validate_state_vector v = Inr w \<longleftrightarrow> w = v \<and> set (keys (sv_features v)) = set FEATURE_ORDER"
  by (auto simp: validate_state_vector_def)

section \<open>Forecast\<close>

record signal_attribution =
  sg_name :: string
  sg_shap :: flt
  sg_direction :: string
  sg_display :: string

record horizon_point =
  hp_k :: int
  hp_ts :: datetime
  hp_p :: flt
  hp_lo :: flt
  hp_hi :: flt
  hp_stages :: "(string, flt) dict"
  hp_features :: "(string, flt) dict"

definition validate_horizon_point :: "horizon_point \<Rightarrow> horizon_point res" where
  "validate_horizon_point h =
     (if \<not> (Fin 0 \<le> hp_lo h \<and> hp_lo h \<le> hp_p h \<and> hp_p h \<le> hp_hi h \<and> hp_hi h \<le> Fin 1)
      then Inl ValueError
      else if \<not> set (keys (hp_stages h)) \<subseteq> set STAGES then Inl ValueError
      else Inr h)"

record forecast =
  fc_tenant :: string
  fc_host :: string
  fc_origin :: datetime
  fc_horizons :: "horizon_point list"
  fc_lead :: "flt option"
  fc_stage :: string
  fc_risk :: flt
  fc_signals :: "signal_attribution list"
  fc_driving :: int
  fc_model :: string
  fc_schema :: string

text \<open>The loop over the horizons: every timestamp strictly later than the one before.\<close>

fun check_increasing :: "int \<Rightarrow> horizon_point list \<Rightarrow> unit res" where
  "check_increasing previous [] = Inr ()"
| "check_increasing previous (point # points) =
     (let ts = as_utc (hp_ts point) in
      if ts \<le> previous then Inl ValueError else check_increasing ts points)"

text \<open>
  Building a \<open>Forecast\<close>: its horizon points are validated first, then the order of the steps,
  then the causality loop. \<open>K\<close> is \<open>horizon_k()\<close>, the configured \<open>horizon_K\<close>.
\<close>

definition validate_forecast :: "nat \<Rightarrow> forecast \<Rightarrow> forecast res" where
  "validate_forecast K f =
     bind_res (traverse_res validate_horizon_point (fc_horizons f)) (\<lambda>points.
       if map hp_k points \<noteq> map int [1..<K + 1] then Inl ValueError
       else bind_res (check_increasing (as_utc (fc_origin f)) points) (\<lambda>_.
         Inr (f\<lparr>fc_horizons := points\<rparr>)))"

text \<open>What a valid point and a valid forecast promise.\<close>

definition point_ok :: "horizon_point \<Rightarrow> bool" where
  "point_ok h \<longleftrightarrow> (\<exists>lo p hi. hp_lo h = Fin lo \<and> hp_p h = Fin p \<and> hp_hi h = Fin hi \<and>
     0 \<le> lo \<and> lo \<le> p \<and> p \<le> hi \<and> hi \<le> 1) \<and> set (keys (hp_stages h)) \<subseteq> set STAGES"

definition forecast_ok :: "nat \<Rightarrow> forecast \<Rightarrow> bool" where
  "forecast_ok K f \<longleftrightarrow>
     list_all point_ok (fc_horizons f) \<and>
     map hp_k (fc_horizons f) = map int [1..<K + 1] \<and>
     sorted_wrt (<) (as_utc (fc_origin f) # map (as_utc \<circ> hp_ts) (fc_horizons f))"

lemma flt_between: "Fin a \<le> x \<Longrightarrow> x \<le> Fin b \<Longrightarrow> \<exists>r. x = Fin r \<and> a \<le> r \<and> r \<le> b"
  by (cases x) auto

lemma flt_le_trans: "(x :: flt) \<le> y \<Longrightarrow> y \<le> z \<Longrightarrow> x \<le> z"
  by (cases x; cases y; cases z) auto

lemma validate_horizon_point_Inr [schema_simps]:
  "validate_horizon_point h = Inr g \<longleftrightarrow> g = h \<and> point_ok h"
proof -
  have "Fin 0 \<le> hp_lo h \<and> hp_lo h \<le> hp_p h \<and> hp_p h \<le> hp_hi h \<and> hp_hi h \<le> Fin 1 \<longleftrightarrow>
    (\<exists>lo p hi. hp_lo h = Fin lo \<and> hp_p h = Fin p \<and> hp_hi h = Fin hi \<and>
     0 \<le> lo \<and> lo \<le> p \<and> p \<le> hi \<and> hi \<le> 1)"
    by (cases "hp_lo h"; cases "hp_p h"; cases "hp_hi h") auto
  then show ?thesis by (auto simp: validate_horizon_point_def point_ok_def)
qed

lemma traverse_horizons: "traverse_res validate_horizon_point ps = Inr qs \<longleftrightarrow> qs = ps \<and> list_all point_ok ps"
  unfolding traverse_res_Inr
  by (induction ps arbitrary: qs) (auto simp: list_all2_Cons1 schema_simps)

lemma check_increasing_Inr [schema_simps]:
  "check_increasing t ps = Inr () \<longleftrightarrow> sorted_wrt (<) (t # map (as_utc \<circ> hp_ts) ps)"
proof (induction ps arbitrary: t)
  case (Cons p ps)
  have "sorted_wrt (<) (t # map (as_utc \<circ> hp_ts) (p # ps)) \<longleftrightarrow>
      t < as_utc (hp_ts p) \<and> sorted_wrt (<) (as_utc (hp_ts p) # map (as_utc \<circ> hp_ts) ps)"
    by (auto intro: less_trans)
  moreover have "check_increasing t (p # ps) = Inr () \<longleftrightarrow>
      t < as_utc (hp_ts p) \<and> check_increasing (as_utc (hp_ts p)) ps = Inr ()"
    by (simp add: Let_def not_le)
  ultimately show ?case by (simp only: Cons.IH)
qed simp

text \<open>
  Building a forecast succeeds exactly when it keeps the contract, and then returns it
  unchanged: every band is a finite \<open>0 \<le> ci_low \<le> p \<le> ci_high \<le> 1\<close> over known stages, the
  steps are \<open>1..K\<close> in order, and origin and horizon instants are strictly increasing. Anything
  else, a NaN bound included, is a \<open>ValueError\<close>.
\<close>

lemma validate_forecast_exact:
  "validate_forecast K f = (if forecast_ok K f then Inr f else Inl ValueError)"
proof -
  have tr: "traverse_res validate_horizon_point ps = (if list_all point_ok ps then Inr ps else Inl ValueError)" for ps
  proof (induction ps)
    case (Cons p ps)
    have "validate_horizon_point p = (if point_ok p then Inr p else Inl ValueError)"
      using validate_horizon_point_Inr [of p p] by (auto simp: validate_horizon_point_def split: if_splits)
    then show ?case by (simp add: Cons.IH)
  qed simp
  have inc: "check_increasing t ps = (if sorted_wrt (<) (t # map (as_utc \<circ> hp_ts) ps) then Inr () else Inl ValueError)" for t ps
  proof (cases "check_increasing t ps")
    case (Inl e)
    then have "e = ValueError" by (induction ps arbitrary: t) (auto simp: Let_def split: if_splits)
    with Inl show ?thesis using check_increasing_Inr [of t ps] by auto
  next
    case (Inr u)
    then show ?thesis using check_increasing_Inr [of t ps] by auto
  qed
  show ?thesis by (simp add: validate_forecast_def tr inc forecast_ok_def)
qed

section \<open>Events and jobs\<close>

datatype event_kind = Flow | Packet

definition FLOW_FIELDS :: "string list" where
  "FLOW_FIELDS = [''duration'', ''bytes_fwd'', ''bytes_bwd'', ''pkts_fwd'', ''pkts_bwd'',
     ''syn_count'', ''ack_count'', ''rst_count'', ''fin_count'', ''psh_count'', ''urg_count'',
     ''iat_mean'', ''iat_std'', ''iat_max'']"

definition PACKET_FIELDS :: "string list" where
  "PACKET_FIELDS = [''ttl'', ''tcp_window'', ''frag'', ''frame_len'', ''tcp_len'', ''tcp_flags'',
     ''retransmission'']"

fun FIELD_VOCABULARY :: "event_kind \<Rightarrow> string list" where
  "FIELD_VOCABULARY Flow = FLOW_FIELDS"
| "FIELD_VOCABULARY Packet = PACKET_FIELDS"

record raw_event =
  ev_tenant :: string
  ev_job :: string
  ev_kind :: event_kind
  ev_ts :: datetime
  ev_src :: string
  ev_dst :: string
  ev_sport :: "int option"
  ev_dport :: "int option"
  ev_proto :: "int option"
  ev_fields :: "(string, flt) dict"
  ev_label :: "string option"

definition validate_raw_event :: "raw_event \<Rightarrow> raw_event res" where
  "validate_raw_event ev =
     (if \<not> set (keys (ev_fields ev)) \<subseteq> set (FIELD_VOCABULARY (ev_kind ev)) then Inl ValueError
      else if ev_fields ev = [] then Inl ValueError
      else if \<not> list_all (\<lambda>(k, v). isfinite v) (ev_fields ev) then Inl ValueError
      else Inr ev)"

definition event_ok :: "raw_event \<Rightarrow> bool" where
  "event_ok ev \<longleftrightarrow>
     set (keys (ev_fields ev)) \<subseteq> set (FIELD_VOCABULARY (ev_kind ev)) \<and> ev_fields ev \<noteq> [] \<and>
     (\<forall>(k, v) \<in> set (ev_fields ev). isfinite v)"

lemma validate_raw_event_Inr [schema_simps]:
  "validate_raw_event ev = Inr w \<longleftrightarrow> w = ev \<and> event_ok ev"
  by (auto simp: validate_raw_event_def event_ok_def list_all_iff)

lemma event_ok_field:
  "event_ok ev \<Longrightarrow> isfinite z \<Longrightarrow> isfinite (dict_get (ev_fields ev) k z)"
  by (auto simp: event_ok_def dict_get_def dest: map_of_SomeD split: option.splits)

text \<open>Job lifecycle; the file kinds a job may name.\<close>

datatype job_kind = Csv | Pcap

datatype job_status = Job_queued | Job_running | Job_complete | Job_error

record ingest_job =
  ij_job :: string
  ij_tenant :: string
  ij_kind :: job_kind
  ij_path :: string
  ij_filename :: string
  ij_speed :: flt

end
