(* ===== verification/Persister.thy ===== *)
theory Persister
  imports Episodes Schema
begin

text \<open>
  \<open>services/persister/worker.py\<close>: the consumer of the \<open>forecasts\<close> stream. The two tables it writes
  are lists of rows under the constraints of \<open>migrations/versions/0001_initial_schema.py\<close>: the
  unique key \<open>(tenant_id, host_id, origin_ts)\<close> of \<open>forecasts\<close> and the primary key \<open>id\<close> of
  \<open>episodes\<close>. One call of \<open>process\<close> is a database phase, \<open>process_db\<close>, which commits as a whole,
  and then the Redis write; a crash between the two is a run of the first alone.
  \<open>dump\<close> and \<open>load\<close> are pydantic's JSON codec for \<open>Forecast\<close>.
\<close>

section \<open>The tables\<close>

record forecast_row =
  fr_tenant :: uuid
  fr_host :: string
  fr_origin :: int
  fr_risk :: flt
  fr_stage :: string
  fr_max_p :: flt
  fr_lead :: "flt option"
  fr_payload :: string
  fr_model :: string

record episode_row =
  er_id :: uuid
  er_tenant :: uuid
  er_host :: string
  er_started :: int
  er_ended :: "int option"
  er_peak :: flt
  er_stages :: "string list"
  er_alert :: "int option"

record persist_db =
  pd_forecasts :: "forecast_row list"
  pd_episodes :: "episode_row list"

definition forecast_key :: "forecast_row \<Rightarrow> uuid \<times> string \<times> int" where
  "forecast_key r = (fr_tenant r, fr_host r, fr_origin r)"

text \<open>\<open>INSERT_FORECAST\<close>: \<open>ON CONFLICT DO NOTHING RETURNING id\<close>, true when a row came back.\<close>

definition INSERT_FORECAST :: "persist_db \<Rightarrow> forecast_row \<Rightarrow> bool \<times> persist_db" where
  "INSERT_FORECAST db r =
     (if forecast_key r \<in> forecast_key ` set (pd_forecasts db) then (False, db)
      else (True, db\<lparr>pd_forecasts := pd_forecasts db @ [r]\<rparr>))"

definition INSERT_EPISODE :: "persist_db \<Rightarrow> episode_row \<Rightarrow> persist_db res" where
  "INSERT_EPISODE db r =
     (if er_id r \<in> er_id ` set (pd_episodes db) then Inl IntegrityError
      else Inr (db\<lparr>pd_episodes := pd_episodes db @ [r]\<rparr>))"

definition UPDATE_EPISODE ::
    "persist_db \<Rightarrow> uuid \<Rightarrow> uuid \<Rightarrow> int option \<Rightarrow> flt \<Rightarrow> string list \<Rightarrow> int option \<Rightarrow> persist_db" where
  "UPDATE_EPISODE db eid tenant ended peak stages alert =
     db\<lparr>pd_episodes := map (\<lambda>r. if er_id r = eid \<and> er_tenant r = tenant
        then r\<lparr>er_ended := ended, er_peak := peak, er_stages := stages, er_alert := alert\<rparr> else r)
      (pd_episodes db)\<rparr>"

section \<open>The worker\<close>

fun assert_causal_points :: "int \<Rightarrow> horizon_point list \<Rightarrow> unit res" where
  "assert_causal_points origin [] = Inr ()"
| "assert_causal_points origin (point # points) =
     (if as_utc (hp_ts point) \<le> origin then Inl ValueError else assert_causal_points origin points)"

definition assert_causal :: "forecast \<Rightarrow> unit res" where
  "assert_causal f = assert_causal_points (as_utc (fc_origin f)) (fc_horizons f)"

definition max_p_compromise :: "forecast \<Rightarrow> flt res" where
  "max_p_compromise f = py_max_list (map hp_p (fc_horizons f))"

definition tenant_uuid :: "pyconv \<Rightarrow> string \<Rightarrow> uuid res" where
  "tenant_uuid C tenant_id =
     (case c_uuid C tenant_id of Inl ValueError \<Rightarrow> Inl ValueError | other \<Rightarrow> other)"

record persist_outcome =
  po_inserted :: bool
  po_transition :: "transition option"

definition insert_forecast ::
    "(forecast \<Rightarrow> string) \<Rightarrow> persist_db \<Rightarrow> forecast \<Rightarrow> uuid \<Rightarrow> flt \<Rightarrow> bool \<times> persist_db" where
  "insert_forecast dump db f tenant peak =
     INSERT_FORECAST db \<lparr>fr_tenant = tenant, fr_host = fc_host f, fr_origin = as_utc (fc_origin f),
       fr_risk = fc_risk f, fr_stage = fc_stage f, fr_max_p = peak, fr_lead = fc_lead f,
       fr_payload = dump f, fr_model = fc_model f\<rparr>"

definition write_episode :: "persist_db \<Rightarrow> forecast \<Rightarrow> uuid \<Rightarrow> transition \<Rightarrow> persist_db res" where
  "write_episode db f tenant tr =
     (case tr_episode tr of
        None \<Rightarrow> Inr db
      | Some episode \<Rightarrow>
          if tr_opened tr then
            INSERT_EPISODE db \<lparr>er_id = oe_id episode, er_tenant = tenant, er_host = fc_host f,
              er_started = oe_started episode, er_ended = tr_ended tr, er_peak = oe_peak episode,
              er_stages = oe_stages episode, er_alert = oe_alert episode\<rparr>
          else Inr (UPDATE_EPISODE db (oe_id episode) tenant (tr_ended tr) (oe_peak episode)
              (oe_stages episode) (oe_alert episode)))"

text \<open>
  Everything up to and including \<open>session.commit()\<close>. An exception rolls the session back, so an
  \<open>Inl\<close> leaves the tables as they were.
\<close>

definition process_db ::
    "pyconv \<Rightarrow> 's redis_ops \<Rightarrow> episode_rules \<Rightarrow> (forecast \<Rightarrow> string) \<Rightarrow> uuid \<Rightarrow> 's \<Rightarrow> persist_db \<Rightarrow>
     forecast \<Rightarrow> (persist_outcome \<times> persist_db) res" where
  "process_db C R rules dump new_id s db f =
     bind_res (assert_causal f) (\<lambda>_.
     bind_res (tenant_uuid C (fc_tenant f)) (\<lambda>tenant.
     bind_res (max_p_compromise f) (\<lambda>peak.
     bind_res (read_state C R s (fc_tenant f) (fc_host f)) (\<lambda>state.
       let transition = advance rules new_id state
             \<lparr>fs_origin = as_utc (fc_origin f), fs_p = peak, fs_stage = fc_stage f\<rparr>;
           (inserted, db1) = insert_forecast dump db f tenant peak
       in bind_res (case transition of None \<Rightarrow> Inr db1 | Some tr \<Rightarrow> write_episode db1 f tenant tr)
            (\<lambda>db2. Inr (\<lparr>po_inserted = inserted, po_transition = transition\<rparr>, db2))))))"

definition process ::
    "pyconv \<Rightarrow> 's redis_ops \<Rightarrow> episode_rules \<Rightarrow> (forecast \<Rightarrow> string) \<Rightarrow> uuid \<Rightarrow> 's \<Rightarrow> persist_db \<Rightarrow>
     forecast \<Rightarrow> (persist_outcome \<times> 's \<times> persist_db) res" where
  "process C R rules dump new_id s db f =
     bind_res (process_db C R rules dump new_id s db f) (\<lambda>(outcome, db').
       let s' = (case po_transition outcome of None \<Rightarrow> s
                 | Some tr \<Rightarrow> write_state C R s (fc_tenant f) (fc_host f) (tr_state tr))
       in Inr (outcome, s', db'))"

text \<open>The bus entry point: parse and validate the message, then process it.\<close>

definition handle ::
    "nat \<Rightarrow> (string \<Rightarrow> forecast res) \<Rightarrow> pyconv \<Rightarrow> 's redis_ops \<Rightarrow> episode_rules \<Rightarrow> (forecast \<Rightarrow> string) \<Rightarrow>
     uuid \<Rightarrow> 's \<Rightarrow> persist_db \<Rightarrow> string \<Rightarrow> (persist_outcome \<times> 's \<times> persist_db) res" where
  "handle K load C R rules dump new_id s db payload =
     bind_res (load payload) (\<lambda>raw. bind_res (validate_forecast K raw) (\<lambda>f.
       process C R rules dump new_id s db f))"

section \<open>What a run does, phase by phase\<close>

lemma assert_causal_iff:
  "assert_causal f = (if \<forall>p \<in> set (fc_horizons f). as_utc (fc_origin f) < as_utc (hp_ts p)
     then Inr () else Inl ValueError)"
proof -
  have "assert_causal_points t ps =
    (if \<forall>p \<in> set ps. t < as_utc (hp_ts p) then Inr () else Inl ValueError)" for t ps
    by (induction ps) auto
  then show ?thesis by (simp add: assert_causal_def)
qed

lemma process_db_Inr:
  assumes "process_db C R rules dump u s db f = Inr (out, db')"
  obtains tenant peak st db1 where
    "c_uuid C (fc_tenant f) = Inr tenant" "max_p_compromise f = Inr peak"
    "read_state C R s (fc_tenant f) (fc_host f) = Inr st"
    "po_transition out = advance rules u st \<lparr>fs_origin = as_utc (fc_origin f), fs_p = peak, fs_stage = fc_stage f\<rparr>"
    "insert_forecast dump db f tenant peak = (po_inserted out, db1)"
    "(case po_transition out of None \<Rightarrow> Inr db1 | Some tr \<Rightarrow> write_episode db1 f tenant tr) = Inr db'"
proof -
  from assms obtain tenant peak st where
    t: "tenant_uuid C (fc_tenant f) = Inr tenant" and p: "max_p_compromise f = Inr peak"
    and r: "read_state C R s (fc_tenant f) (fc_host f) = Inr st"
    and rest: "(let transition = advance rules u st
             \<lparr>fs_origin = as_utc (fc_origin f), fs_p = peak, fs_stage = fc_stage f\<rparr>;
           (inserted, db1) = insert_forecast dump db f tenant peak
       in bind_res (case transition of None \<Rightarrow> Inr db1 | Some tr \<Rightarrow> write_episode db1 f tenant tr)
            (\<lambda>db2. Inr (\<lparr>po_inserted = inserted, po_transition = transition\<rparr>, db2))) = Inr (out, db')"
    unfolding process_db_def bind_res_eq_Inr by blast
  obtain ins db1 where i: "insert_forecast dump db f tenant peak = (ins, db1)" by force
  have "c_uuid C (fc_tenant f) = Inr tenant"
    using t by (auto simp: tenant_uuid_def split: sum.splits py_error.splits)
  moreover obtain tr where tr: "tr = advance rules u st
      \<lparr>fs_origin = as_utc (fc_origin f), fs_p = peak, fs_stage = fc_stage f\<rparr>" by simp
  moreover from rest have "(case tr of None \<Rightarrow> Inr db1 | Some tr \<Rightarrow> write_episode db1 f tenant tr) = Inr db'
      \<and> out = \<lparr>po_inserted = ins, po_transition = tr\<rparr>"
    unfolding tr [symmetric] Let_def i by (auto simp: bind_res_eq_Inr)
  ultimately show ?thesis using that [OF _ p r, of tenant db1] i by simp
qed

lemma process_Inr:
  "process C R rules dump u s db f = Inr (out, s', db') \<longleftrightarrow>
   process_db C R rules dump u s db f = Inr (out, db') \<and>
   s' = (case po_transition out of None \<Rightarrow> s
         | Some tr \<Rightarrow> write_state C R s (fc_tenant f) (fc_host f) (tr_state tr))"
  by (auto simp: process_def bind_res_eq_Inr Let_def)

lemma INSERT_FORECAST_spec:
  "INSERT_FORECAST db r = (ins, db1) \<Longrightarrow>
   ins = (forecast_key r \<notin> forecast_key ` set (pd_forecasts db)) \<and>
   pd_episodes db1 = pd_episodes db \<and>
   pd_forecasts db1 = pd_forecasts db @ (if ins then [r] else [])"
  by (auto simp: INSERT_FORECAST_def split: if_splits)

lemma write_episode_forecasts:
  "write_episode db f tenant tr = Inr db' \<Longrightarrow> pd_forecasts db' = pd_forecasts db"
  by (auto simp: write_episode_def INSERT_EPISODE_def UPDATE_EPISODE_def split: option.splits if_splits)

lemma UPDATE_EPISODE_ids [simp]:
  "map er_id (pd_episodes (UPDATE_EPISODE db i t e p s a)) = map er_id (pd_episodes db)"
  by (simp add: UPDATE_EPISODE_def comp_def if_distrib cong: if_cong)

section \<open>Safety of the tables\<close>

text \<open>The constraints the migration declares.\<close>

definition tables_ok :: "persist_db \<Rightarrow> bool" where
  "tables_ok db \<longleftrightarrow> distinct (map forecast_key (pd_forecasts db)) \<and> distinct (map er_id (pd_episodes db))"

lemma write_episode_tables_ok:
  assumes "tables_ok db" "write_episode db f tenant tr = Inr db'"
  shows "tables_ok db'"
  using assms UPDATE_EPISODE_ids [of db]
  by (auto simp: write_episode_def INSERT_EPISODE_def tables_ok_def split: option.splits if_splits)
    (simp_all add: UPDATE_EPISODE_def)

lemma insert_forecast_tables_ok:
  assumes "tables_ok db" "INSERT_FORECAST db r = (ins, db1)"
  shows "tables_ok db1"
  using assms by (auto simp: INSERT_FORECAST_def tables_ok_def split: if_splits)

lemma process_db_tables_ok:
  assumes "tables_ok db" "process_db C R rules dump u s db f = Inr (out, db')"
  shows "tables_ok db'"
  using assms(2)
proof (cases rule: process_db_Inr)
  case (1 tenant peak st db1)
  have "tables_ok db1"
    using insert_forecast_tables_ok [OF assms(1)] 1(5) unfolding insert_forecast_def by blast
  with 1(6) show ?thesis by (auto dest: write_episode_tables_ok split: option.splits)
qed

lemma process_db_key:
  assumes "process_db C R rules dump u s db f = Inr (out, db')" "c_uuid C (fc_tenant f) = Inr tenant"
  shows "po_inserted out \<longleftrightarrow>
      (tenant, fc_host f, as_utc (fc_origin f)) \<notin> forecast_key ` set (pd_forecasts db)"
    and "forecast_key ` set (pd_forecasts db') =
      insert (tenant, fc_host f, as_utc (fc_origin f)) (forecast_key ` set (pd_forecasts db))"
    and "set (pd_forecasts db) \<subseteq> set (pd_forecasts db')"
proof -
  from assms(1) have *: "(po_inserted out \<longleftrightarrow>
      (tenant, fc_host f, as_utc (fc_origin f)) \<notin> forecast_key ` set (pd_forecasts db)) \<and>
    forecast_key ` set (pd_forecasts db') =
      insert (tenant, fc_host f, as_utc (fc_origin f)) (forecast_key ` set (pd_forecasts db)) \<and>
    set (pd_forecasts db) \<subseteq> set (pd_forecasts db')"
  proof (cases rule: process_db_Inr)
    case (1 t peak st db1)
    have t: "t = tenant" using 1(1) assms(2) by simp
    have "pd_forecasts db' = pd_forecasts db1"
      using 1(6) by (auto dest: write_episode_forecasts split: option.splits)
    with INSERT_FORECAST_spec [OF 1(5) [unfolded insert_forecast_def t]] show ?thesis
      by (auto simp: forecast_key_def)
  qed
  then show "po_inserted out \<longleftrightarrow>
      (tenant, fc_host f, as_utc (fc_origin f)) \<notin> forecast_key ` set (pd_forecasts db)"
    and "forecast_key ` set (pd_forecasts db') =
      insert (tenant, fc_host f, as_utc (fc_origin f)) (forecast_key ` set (pd_forecasts db))"
    and "set (pd_forecasts db) \<subseteq> set (pd_forecasts db')" by blast+
qed

section \<open>A redelivered forecast\<close>

lemma process_again:
  assumes "backing C R" "process C R rules dump u s db f = Inr (out, s', db')"
  shows "process C R rules dump v s' db' f =
    Inr (\<lparr>po_inserted = False, po_transition = None\<rparr>, s', db')"
proof -
  have db: "process_db C R rules dump u s db f = Inr (out, db')"
    and s': "s' = (case po_transition out of None \<Rightarrow> s
         | Some tr \<Rightarrow> write_state C R s (fc_tenant f) (fc_host f) (tr_state tr))"
    using assms(2) by (simp_all add: process_Inr)
  from db show ?thesis
  proof (cases rule: process_db_Inr)
    case (1 tenant peak st db1)
    let ?sum = "\<lparr>fs_origin = as_utc (fc_origin f), fs_p = peak, fs_stage = fc_stage f\<rparr>"
    have "\<exists>st'. read_state C R s' (fc_tenant f) (fc_host f) = Inr st' \<and>
        \<not> after (hs_last st') (fs_origin ?sum)"
    proof (cases "po_transition out")
      case None
      then have "\<not> after (hs_last st) (fs_origin ?sum)" using 1(4) advance_None by metis
      with None 1(3) s' show ?thesis by simp
    next
      case (Some tr)
      have "hs_last (tr_state tr) = Some (as_utc (fc_origin f))"
        using 1(4) Some advance_last [of rules u st ?sum tr] by simp
      with Some s' backing.read_write_state [OF assms(1)] show ?thesis by (simp add: after_def)
    qed
    then obtain st' where st': "read_state C R s' (fc_tenant f) (fc_host f) = Inr st'"
      "advance rules v st' ?sum = None" by (auto simp: advance_None)
    have causal: "assert_causal f = Inr ()"
      using db by (auto simp: process_db_def bind_res_eq_Inr)
    have ten: "tenant_uuid C (fc_tenant f) = Inr tenant"
      using 1(1) by (simp add: tenant_uuid_def)
    have "insert_forecast dump db' f tenant peak = (False, db')"
      using process_db_key(2) [OF db 1(1)] by (simp add: insert_forecast_def INSERT_FORECAST_def forecast_key_def)
    then show ?thesis
      using causal ten 1(2) st' by (simp add: process_def process_db_def)
  qed
qed

text \<open>
  C3. Persisting a forecast twice is persisting it once: a redelivery of a processed forecast, with
  any identifier \<open>uuid4\<close> would draw, reports a duplicate and no episode movement, and leaves the
  Redis state and both tables exactly as the first run left them.
\<close>

theorem process_idempotent:
  assumes "backing C R" "process C R rules dump new_id s db f = Inr (out, s', db')"
  shows "process C R rules dump new_id' s' db' f =
    Inr (\<lparr>po_inserted = False, po_transition = None\<rparr>, s', db')"
  by (rule process_again [OF assms])

text \<open>
  One processed forecast adds its row exactly when the key is new, never touches a stored row,
  keeps the unique keys of both tables, and only accepts forecasts all of whose horizons are later
  than their origin.
\<close>

lemma process_stores_once:
  assumes "process C R rules dump new_id s db f = Inr (out, s', db')" "tables_ok db"
  shows "tables_ok db' \<and>
    (\<exists>tenant. c_uuid C (fc_tenant f) = Inr tenant \<and>
      po_inserted out = ((tenant, fc_host f, as_utc (fc_origin f)) \<notin> forecast_key ` set (pd_forecasts db)) \<and>
      forecast_key ` set (pd_forecasts db') =
        insert (tenant, fc_host f, as_utc (fc_origin f)) (forecast_key ` set (pd_forecasts db)) \<and>
      set (pd_forecasts db) \<subseteq> set (pd_forecasts db')) \<and>
    list_all (\<lambda>p. as_utc (fc_origin f) < as_utc (hp_ts p)) (fc_horizons f)"
proof -
  have db: "process_db C R rules dump new_id s db f = Inr (out, db')"
    using assms(1) by (simp add: process_Inr)
  have "list_all (\<lambda>p. as_utc (fc_origin f) < as_utc (hp_ts p)) (fc_horizons f)"
    using db by (auto simp: process_db_def bind_res_eq_Inr assert_causal_iff list_all_iff split: if_splits)
  moreover from db obtain tenant where t: "c_uuid C (fc_tenant f) = Inr tenant"
    by (cases rule: process_db_Inr)
  ultimately show ?thesis
    using process_db_tables_ok [OF assms(2) db] process_db_key [OF db t] by blast
qed

section \<open>Redis and Postgres agree\<close>

definition row_of :: "uuid \<Rightarrow> string \<Rightarrow> open_episode \<Rightarrow> episode_row" where
  "row_of tenant host e = \<lparr>er_id = oe_id e, er_tenant = tenant, er_host = host,
     er_started = oe_started e, er_ended = None, er_peak = oe_peak e, er_stages = oe_stages e,
     er_alert = oe_alert e\<rparr>"

definition open_rows :: "uuid \<Rightarrow> string \<Rightarrow> persist_db \<Rightarrow> episode_row list" where
  "open_rows tenant host db =
     filter (\<lambda>r. er_tenant r = tenant \<and> er_host r = host \<and> er_ended r = None) (pd_episodes db)"

text \<open>The rows of a host that are still open are the aggregate in Redis, and nothing else.\<close>

definition agree :: "pyconv \<Rightarrow> 's redis_ops \<Rightarrow> 's \<Rightarrow> persist_db \<Rightarrow> string \<Rightarrow> uuid \<Rightarrow> string \<Rightarrow> bool" where
  "agree C R s db tenant_id tenant host \<longleftrightarrow>
     (case read_state C R s tenant_id host of
        Inl e \<Rightarrow> False
      | Inr st \<Rightarrow> open_rows tenant host db =
          (case hs_episode st of None \<Rightarrow> [] | Some e \<Rightarrow> [row_of tenant host e]))"

lemma advance_shape:
  assumes "advance rules u st f = Some tr"
  shows "(hs_episode st = None \<and> tr_episode tr = None \<and> \<not> tr_opened tr \<and> hs_episode (tr_state tr) = None) \<or>
    (\<exists>e. hs_episode st = None \<and> tr_episode tr = Some e \<and> oe_id e = u \<and> tr_opened tr \<and>
       tr_ended tr = None \<and> hs_episode (tr_state tr) = Some e) \<or>
    (\<exists>e e'. hs_episode st = Some e \<and> tr_episode tr = Some e' \<and> oe_id e' = oe_id e \<and>
       oe_started e' = oe_started e \<and> \<not> tr_opened tr \<and>
       (if tr_ended tr = None then hs_episode (tr_state tr) = Some e' else hs_episode (tr_state tr) = None))"
  using assms by (auto simp: advance_def Let_def split: option.splits if_splits)

lemma filter_map_single:
  assumes "distinct (map key xs)" "filter P xs = [r]" "\<And>x. x \<in> set xs \<Longrightarrow> key x \<noteq> key r \<Longrightarrow> g x = x"
  shows "filter P (map g xs) = (if P (g r) then [g r] else [])"
  using assms
proof (induction xs)
  case (Cons x xs)
  show ?case
  proof (cases "P x")
    case True
    then have r: "x = r" "filter P xs = []" using Cons.prems(2) by simp_all
    have "g y = y" if "y \<in> set xs" for y
    proof (rule Cons.prems(3))
      show "key y \<noteq> key r" using Cons.prems(1) r(1) that by (metis distinct.simps(2) imageI list.set_map list.simps(9))
    qed (use that in simp)
    then have "map g xs = xs" by (simp add: map_idI)
    with r show ?thesis by simp
  next
    case False
    then have f: "filter P xs = [r]" using Cons.prems(2) by simp
    then have "r \<in> set xs" by (metis filter_is_subset list.set_intros(1) subsetD)
    then have "key x \<noteq> key r" using Cons.prems(1) by (metis distinct.simps(2) imageI list.set_map list.simps(9))
    then have "g x = x" using Cons.prems(3) by simp
    with False Cons.IH [OF _ f] Cons.prems(1,3) show ?thesis by simp
  qed
qed simp

lemma filter_map_other:
  "(\<And>x. x \<in> set xs \<Longrightarrow> g x = x \<or> (\<not> P x \<and> \<not> P (g x))) \<Longrightarrow> filter P (map g xs) = filter P xs"
proof (induction xs)
  case (Cons x xs)
  have "g x = x \<or> (\<not> P x \<and> \<not> P (g x))" by (rule Cons.prems) simp
  moreover have "filter P (map g xs) = filter P xs" using Cons by simp
  ultimately show ?case by auto
qed simp

lemma open_rows_update:
  assumes "tables_ok db" "open_rows tenant host db = [row_of tenant host e]"
  shows "open_rows tenant host (UPDATE_EPISODE db (oe_id e) tenant ended p ss a) =
    (if ended = None then [row_of tenant host (e\<lparr>oe_peak := p, oe_stages := ss, oe_alert := a\<rparr>)] else [])"
proof -
  let ?g = "\<lambda>r. if er_id r = oe_id e \<and> er_tenant r = tenant
        then r\<lparr>er_ended := ended, er_peak := p, er_stages := ss, er_alert := a\<rparr> else r"
  have "filter (\<lambda>r. er_tenant r = tenant \<and> er_host r = host \<and> er_ended r = None) (map ?g (pd_episodes db)) =
    (if ended = None then [?g (row_of tenant host e)] else [])"
    using filter_map_single [of er_id "pd_episodes db" _ "row_of tenant host e" ?g] assms
    by (simp add: open_rows_def tables_ok_def row_of_def)
  then show ?thesis by (simp add: open_rows_def UPDATE_EPISODE_def row_of_def)
qed

lemma open_rows_forecasts:
  "pd_episodes db' = pd_episodes db \<Longrightarrow> open_rows tenant host db' = open_rows tenant host db"
  by (simp add: open_rows_def)

lemma write_opened:
  assumes "tr_episode tr = Some e" "tr_opened tr" "write_episode db f tenant tr = Inr db'"
  shows "pd_episodes db' = pd_episodes db @ [(row_of tenant (fc_host f) e)\<lparr>er_ended := tr_ended tr\<rparr>]"
proof -
  have "INSERT_EPISODE db ((row_of tenant (fc_host f) e)\<lparr>er_ended := tr_ended tr\<rparr>) = Inr db'"
    using assms by (simp add: write_episode_def row_of_def)
  then show ?thesis unfolding INSERT_EPISODE_def by (auto split: if_splits)
qed

lemma write_episode_agrees:
  assumes ok: "tables_ok db" and st: "open_rows tenant (fc_host f) db =
      (case hs_episode st of None \<Rightarrow> [] | Some e \<Rightarrow> [row_of tenant (fc_host f) e])"
    and tr: "advance rules u st sf = Some tr" and w: "write_episode db f tenant tr = Inr db'"
  shows "open_rows tenant (fc_host f) db' =
      (case hs_episode (tr_state tr) of None \<Rightarrow> [] | Some e \<Rightarrow> [row_of tenant (fc_host f) e])"
  using advance_shape [OF tr]
proof (elim disjE exE conjE)
  assume "hs_episode st = None" "tr_episode tr = None" "hs_episode (tr_state tr) = None"
  with st w show ?thesis by (simp add: write_episode_def)
next
  fix e assume *: "hs_episode st = None" "tr_episode tr = Some e" "tr_opened tr" "tr_ended tr = None"
    "hs_episode (tr_state tr) = Some e"
  have "pd_episodes db' = pd_episodes db @ [row_of tenant (fc_host f) e]"
    using write_opened [OF *(2,3) w] *(4) by (simp add: row_of_def)
  then show ?thesis using st * by (simp add: open_rows_def) (simp add: row_of_def)
next
  fix e e' assume *: "hs_episode st = Some e" "tr_episode tr = Some e'" "oe_id e' = oe_id e"
    "oe_started e' = oe_started e" "\<not> tr_opened tr"
    "if tr_ended tr = None then hs_episode (tr_state tr) = Some e' else hs_episode (tr_state tr) = None"
  have row: "row_of tenant h (e\<lparr>oe_peak := oe_peak e', oe_stages := oe_stages e', oe_alert := oe_alert e'\<rparr>)
      = row_of tenant h e'" for h using * by (simp add: row_of_def)
  from w * have db': "db' = UPDATE_EPISODE db (oe_id e) tenant (tr_ended tr) (oe_peak e') (oe_stages e') (oe_alert e')"
    by (simp add: write_episode_def)
  have "open_rows tenant (fc_host f) db = [row_of tenant (fc_host f) e]" using st * by simp
  from open_rows_update [OF ok this] show ?thesis unfolding db'
    using *(6) by (cases "tr_ended tr") (simp_all add: row)
qed

lemma write_episode_others:
  assumes ok: "tables_ok db" and st: "open_rows tenant (fc_host f) db =
      (case hs_episode st of None \<Rightarrow> [] | Some e \<Rightarrow> [row_of tenant (fc_host f) e])"
    and tr: "advance rules u st sf = Some tr" and w: "write_episode db f tenant tr = Inr db'"
    and other: "h \<noteq> fc_host f"
  shows "open_rows tenant h db' = open_rows tenant h db"
  using advance_shape [OF tr]
proof (elim disjE exE conjE)
  fix e e' assume *: "hs_episode st = Some e" "tr_episode tr = Some e'" "oe_id e' = oe_id e" "\<not> tr_opened tr"
  from st * have "row_of tenant (fc_host f) e \<in> set (open_rows tenant (fc_host f) db)" by simp
  then have "row_of tenant (fc_host f) e \<in> set (pd_episodes db)" by (simp add: open_rows_def)
  then have own: "er_host r = fc_host f" if "r \<in> set (pd_episodes db)" "er_id r = oe_id e" for r
  proof -
    have "inj_on er_id (set (pd_episodes db))" using ok by (simp add: tables_ok_def distinct_map)
    then have "r = row_of tenant (fc_host f) e"
      by (rule inj_onD) (use that \<open>row_of tenant (fc_host f) e \<in> set (pd_episodes db)\<close> in
        \<open>simp_all add: row_of_def\<close>)
    then show ?thesis by (simp add: row_of_def)
  qed
  have "db' = UPDATE_EPISODE db (oe_id e) tenant (tr_ended tr) (oe_peak e') (oe_stages e') (oe_alert e')"
    using w * by (simp add: write_episode_def)
  then show ?thesis unfolding open_rows_def UPDATE_EPISODE_def
    by simp (rule filter_map_other, use own other in auto)
next
  fix e assume "tr_episode tr = Some e" "tr_opened tr"
  from write_opened [OF this w] other show ?thesis by (simp add: open_rows_def row_of_def)
next
  assume "tr_episode tr = None"
  then show ?thesis using w by (simp add: write_episode_def)
qed

lemma process_agrees:
  assumes B: "backing C R" and P: "process C R rules dump u s db f = Inr (out, s', db')"
    and ok: "tables_ok db" and T: "c_uuid C (fc_tenant f) = Inr tenant"
    and own: "agree C R s db (fc_tenant f) tenant (fc_host f)"
    and h: "agree C R s db (fc_tenant f) tenant h"
  shows "agree C R s' db' (fc_tenant f) tenant h"
proof -
  have D: "process_db C R rules dump u s db f = Inr (out, db')"
    and s': "s' = (case po_transition out of None \<Rightarrow> s
         | Some tr \<Rightarrow> write_state C R s (fc_tenant f) (fc_host f) (tr_state tr))"
    using P by (simp_all add: process_Inr)
  from D show ?thesis
  proof (cases rule: process_db_Inr)
    case (1 t peak st db1)
    have t: "t = tenant" using 1(1) T by simp
    have "open_rows tenant h' db1 = open_rows tenant h' db" for h'
      using INSERT_FORECAST_spec [OF 1(5) [unfolded insert_forecast_def]] by (simp add: open_rows_def)
    note db1 = this
    have ok1: "tables_ok db1"
      using insert_forecast_tables_ok [OF ok 1(5) [unfolded insert_forecast_def]] .
    show ?thesis
    proof (cases "po_transition out")
      case None
      with 1(6) s' h db1 show ?thesis by (simp add: agree_def split: sum.splits)
    next
      case (Some tr)
      have w: "write_episode db1 f tenant tr = Inr db'" using 1(6) Some t by simp
      have st: "open_rows tenant (fc_host f) db1 =
          (case hs_episode st of None \<Rightarrow> [] | Some e \<Rightarrow> [row_of tenant (fc_host f) e])"
        using own 1(3) db1 by (simp add: agree_def)
      have a: "advance rules u st \<lparr>fs_origin = as_utc (fc_origin f), fs_p = peak, fs_stage = fc_stage f\<rparr> = Some tr"
        using 1(4) Some by simp
      have s': "s' = write_state C R s (fc_tenant f) (fc_host f) (tr_state tr)" using s' Some by simp
      show ?thesis
      proof (cases "h = fc_host f")
        case True
        show ?thesis unfolding agree_def s' True
          using backing.read_write_state [OF B advance_last [OF a]] write_episode_agrees [OF ok1 st a w] by simp
      next
        case False
        have "read_state C R s' (fc_tenant f) h = read_state C R s (fc_tenant f) h"
          unfolding s' by (rule backing.read_state_cong [OF B], rule backing.write_state_frame [OF B])
            (simp add: episode_key_def False)
        then show ?thesis using h write_episode_others [OF ok1 st a w False] db1
          by (simp add: agree_def split: sum.splits)
      qed
    qed
  qed
qed


section \<open>A crash between the commit and the Redis write\<close>

text \<open>
  C15. The retry after a crash between the commit and the Redis write is not harmless: when the
  crashed run opened an episode, the retry, which draws its own identifier, sees the host state
  of before, opens the episode again and stores a second row for the same host and start, while
  the hash tracks only the second; the first row is never closed.
\<close>

theorem crash_after_commit_duplicates_episode:
  assumes "process_db C R rules dump id1 s db f = Inr (out, db1)"
    and "po_transition out = Some tr" "tr_opened tr"
    and "tables_ok db" "id2 \<notin> insert id1 (er_id ` set (pd_episodes db))"
  shows "\<exists>out2 s' db2 tenant e. process C R rules dump id2 s db1 f = Inr (out2, s', db2) \<and>
    tr_episode tr = Some e \<and> oe_id e = id1 \<and>
    row_of tenant (fc_host f) e \<in> set (open_rows tenant (fc_host f) db2) \<and>
    row_of tenant (fc_host f) (e\<lparr>oe_id := id2\<rparr>) \<in> set (open_rows tenant (fc_host f) db2)"
  using assms(1)
proof (cases rule: process_db_Inr)
  case (1 tenant peak st db0)
  let ?sum = "\<lparr>fs_origin = as_utc (fc_origin f), fs_p = peak, fs_stage = fc_stage f\<rparr>"
  have a: "advance rules id1 st ?sum = Some tr" using 1(4) assms(2) by simp
  obtain e where e: "hs_episode st = None" "tr_episode tr = Some e" "oe_id e = id1" "tr_ended tr = None"
    using advance_shape [OF a] assms(3) by blast
  obtain tr2 where tr2: "advance rules id2 st ?sum = Some tr2"
      "tr_episode tr2 = Some (e\<lparr>oe_id := id2\<rparr>)" "tr_opened tr2" "tr_ended tr2 = None"
    using a e(1,2) by (auto simp: advance_def Let_def split: option.splits if_splits)
  have w: "write_episode db0 f tenant tr = Inr db1" using 1(6) assms(2) by simp
  have eps: "pd_episodes db1 = pd_episodes db @ [row_of tenant (fc_host f) e]"
    using write_opened [OF e(2) assms(3) w] e(4)
      INSERT_FORECAST_spec [OF 1(5) [unfolded insert_forecast_def]] by (simp add: row_of_def)
  have ins: "insert_forecast dump db1 f tenant peak = (False, db1)"
    using process_db_key(2) [OF assms(1) 1(1)]
    by (simp add: insert_forecast_def INSERT_FORECAST_def forecast_key_def)
  have fresh: "id2 \<notin> er_id ` set (pd_episodes db1)"
    using assms(5) e(3) by (auto simp: eps row_of_def)
  let ?db2 = "db1\<lparr>pd_episodes := pd_episodes db1 @ [row_of tenant (fc_host f) (e\<lparr>oe_id := id2\<rparr>)]\<rparr>"
  have w2: "write_episode db1 f tenant tr2 = Inr ?db2"
    using tr2 fresh by (simp add: write_episode_def INSERT_EPISODE_def row_of_def)
  have "assert_causal f = Inr ()"
    using assms(1) by (auto simp: process_db_def bind_res_eq_Inr)
  moreover have "tenant_uuid C (fc_tenant f) = Inr tenant" using 1(1) by (simp add: tenant_uuid_def)
  ultimately have "process_db C R rules dump id2 s db1 f =
      Inr (\<lparr>po_inserted = False, po_transition = Some tr2\<rparr>, ?db2)"
    using 1(2,3) ins tr2(1) w2 by (simp add: process_db_def Let_def)
  moreover have "row_of tenant (fc_host f) e \<in> set (open_rows tenant (fc_host f) ?db2)"
    "row_of tenant (fc_host f) (e\<lparr>oe_id := id2\<rparr>) \<in> set (open_rows tenant (fc_host f) ?db2)"
    by (simp_all add: open_rows_def eps row_of_def)
  ultimately show ?thesis using e(2,3) by (auto simp: process_def)
qed

section \<open>A concrete run\<close>

definition demo_point :: horizon_point where
  "demo_point = \<lparr>hp_k = 1, hp_ts = Naive 120, hp_p = Fin (3 / 4), hp_lo = Fin (1 / 2), hp_hi = Fin 1,
     hp_stages = [], hp_features = []\<rparr>"

definition demo_forecast :: forecast where
  "demo_forecast = \<lparr>fc_tenant = ''5'', fc_host = ''h'', fc_origin = Aware 60, fc_horizons = [demo_point],
     fc_lead = None, fc_stage = ''recon'', fc_risk = Fin (1 / 2), fc_signals = [], fc_driving = 0,
     fc_model = ''m'', fc_schema = SCHEMA_VERSION\<rparr>"

definition no_rows :: persist_db where
  "no_rows = \<lparr>pd_forecasts = [], pd_episodes = []\<rparr>"

definition demo_dump :: "forecast \<Rightarrow> string" where
  "demo_dump f = fc_host f"

lemma demo_read [simp]: "read_state std_conv std_redis [] t h = Inr empty_host"
  by (simp add: read_state_def Let_def)

lemma demo_uuid [simp]: "c_uuid std_conv ''5'' = Inr 5"
  by (simp add: std_conv_def) code_simp

lemma demo_process_db:
  "\<exists>out db' tr. process_db std_conv std_redis demo_rules demo_dump 7 [] no_rows demo_forecast = Inr (out, db') \<and>
     po_transition out = Some tr \<and> tr_opened tr"
  by (simp add: process_db_def demo_forecast_def demo_point_def assert_causal_def tenant_uuid_def
      max_p_compromise_def advance_def empty_host_def demo_rules_def insert_forecast_def
      INSERT_FORECAST_def no_rows_def write_episode_def INSERT_EPISODE_def Let_def)

lemma demo_process:
  "\<exists>out s' db'. process std_conv std_redis demo_rules demo_dump 7 [] no_rows demo_forecast = Inr (out, s', db')"
  using demo_process_db by (auto simp: process_def)

lemma no_rows_ok [simp]: "tables_ok no_rows"
  by (simp add: tables_ok_def no_rows_def)

lemma process_idempotent_witness:
  "\<exists>out s' db'. process std_conv std_redis demo_rules demo_dump 7 [] no_rows demo_forecast = Inr (out, s', db') \<and>
     process std_conv std_redis demo_rules demo_dump 8 s' db' demo_forecast =
       Inr (\<lparr>po_inserted = False, po_transition = None\<rparr>, s', db')"
  using demo_process process_idempotent [OF std.backing_axioms, where new_id' = 8] by blast

lemma process_stores_once_witness:
  "\<exists>out s' db'. process std_conv std_redis demo_rules demo_dump 7 [] no_rows demo_forecast = Inr (out, s', db') \<and>
     tables_ok db' \<and> po_inserted out"
proof -
  obtain out s' db' where p: "process std_conv std_redis demo_rules demo_dump 7 [] no_rows demo_forecast
      = Inr (out, s', db')" using demo_process by blast
  with process_stores_once [OF p no_rows_ok] show ?thesis by (auto simp: no_rows_def)
qed


lemma crash_after_commit_duplicates_episode_witness:
  "\<exists>out db1 e s' db2 out2 tenant.
     process_db std_conv std_redis demo_rules demo_dump 7 [] no_rows demo_forecast = Inr (out, db1) \<and>
     process std_conv std_redis demo_rules demo_dump 8 [] db1 demo_forecast = Inr (out2, s', db2) \<and>
     oe_id e = 7 \<and>
     row_of tenant ''h'' e \<in> set (open_rows tenant ''h'' db2) \<and>
     row_of tenant ''h'' (e\<lparr>oe_id := 8\<rparr>) \<in> set (open_rows tenant ''h'' db2)"
proof -
  obtain out db1 tr where p: "process_db std_conv std_redis demo_rules demo_dump 7 [] no_rows demo_forecast
      = Inr (out, db1)" "po_transition out = Some tr" "tr_opened tr" using demo_process_db by blast
  have h: "fc_host demo_forecast = ''h''" by (simp add: demo_forecast_def)
  have "(8::nat) \<notin> insert 7 (er_id ` set (pd_episodes no_rows))" by (simp add: no_rows_def)
  from crash_after_commit_duplicates_episode [OF p no_rows_ok this] obtain out2 s' db2 tenant e where
    "process std_conv std_redis demo_rules demo_dump 8 [] db1 demo_forecast = Inr (out2, s', db2)"
    "oe_id e = 7"
    "row_of tenant ''h'' e \<in> set (open_rows tenant ''h'' db2)"
    "row_of tenant ''h'' (e\<lparr>oe_id := 8\<rparr>) \<in> set (open_rows tenant ''h'' db2)"
    unfolding h by blast
  with p(1) show ?thesis by blast
qed

end
