(* ===== verification/Compute.thy ===== *)
theory Compute
  imports PyConv Schema
begin

text \<open>
  \<open>services/features/compute.py\<close>: from the counters of one closed window to the feature vector.
  Arithmetic is that of \<open>flt\<close> (exact on finite values, IEEE rules on the others), so a rounding
  error is not modelled; \<open>math.log\<close> is the parameter \<open>M\<close>. Sets of hosts are lists without
  repetition, dictionaries are association lists in insertion order.
\<close>

unbundle bit_operations_syntax

section \<open>Constants\<close>

definition DIST_DST_IP :: string where "DIST_DST_IP = ''di''"
definition DIST_DST_PORT :: string where "DIST_DST_PORT = ''dp''"
definition DIST_TCP_WINDOW :: string where "DIST_TCP_WINDOW = ''tw''"
definition DIST_PAYLOAD :: string where "DIST_PAYLOAD = ''ps''"
definition DIST_FLOW_IAT_MAX :: string where "DIST_FLOW_IAT_MAX = ''fx''"

lemmas dist_names = DIST_DST_IP_def DIST_DST_PORT_def DIST_TCP_WINDOW_def DIST_PAYLOAD_def
  DIST_FLOW_IAT_MAX_def

definition DIST_PREFIXES :: "string list" where
  "DIST_PREFIXES = [DIST_DST_IP, DIST_DST_PORT, DIST_TCP_WINDOW, DIST_PAYLOAD, DIST_FLOW_IAT_MAX]"

definition DIST_SEP :: char where "DIST_SEP = CHR '':''"

definition TCP_FLAG_BITS :: "(string, int) dict" where
  "TCP_FLAG_BITS = [(''syn'', 2), (''ack'', 16), (''rst'', 4), (''fin'', 1), (''psh'', 8), (''urg'', 32)]"

definition DYNAMIC_SOURCES :: "string list" where
  "DYNAMIC_SOURCES = [''syn_ratio'', ''dst_port_entropy'', ''out_degree'', ''new_peer_count'',
     ''iat_var'', ''retrans_rate'']"

definition DELTA_FEATURES :: "(string, string) dict" where
  "DELTA_FEATURES = map (\<lambda>name. (''d_'' @ name, name)) DYNAMIC_SOURCES"

definition SLOPE_FEATURES :: "(string, string) dict" where
  "SLOPE_FEATURES = [(''slope3_syn_ratio'', ''syn_ratio''), (''slope3_dst_port_entropy'', ''dst_port_entropy''),
     (''slope3_out_degree'', ''out_degree''), (''slope3_iat_var'', ''iat_var'')]"

definition SLOPE_WINDOW :: nat where "SLOPE_WINDOW = 3"

section \<open>Numerics\<close>

definition safe_div :: "flt \<Rightarrow> flt \<Rightarrow> flt" where
  "safe_div num den =
     (if feq den (Fin 0) then Fin 0 else let q = num / den in if isfinite q then q else Fin 0)"

definition variance :: "flt \<Rightarrow> flt \<Rightarrow> flt \<Rightarrow> flt" where
  "variance sx sxx count =
     (if count \<le> Fin 0 then Fin 0
      else py_max (Fin 0) (sxx / count - (sx / count) * (sx / count)))"

definition shannon_entropy :: "pymath \<Rightarrow> flt list \<Rightarrow> flt res" where
  "shannon_entropy M counts =
     (let values = filter (\<lambda>c. Fin 0 < c) counts; tot = fsum values
      in if tot \<le> Fin 0 then Inr (Fin 0)
         else bind_res (traverse_res (\<lambda>c. bind_res (flog M (c / tot)) (\<lambda>l. Inr ((c / tot) * l))) values)
                (\<lambda>terms. Inr (- fsum terms)))"

text \<open>Python's order on the pairs it sorts, and the sort.\<close>

definition pair_le :: "flt \<times> flt \<Rightarrow> flt \<times> flt \<Rightarrow> bool" where
  "pair_le a b \<longleftrightarrow> fst a < fst b \<or> feq (fst a) (fst b) \<and> snd a \<le> snd b"

fun insert_pair :: "flt \<times> flt \<Rightarrow> (flt \<times> flt) list \<Rightarrow> (flt \<times> flt) list" where
  "insert_pair x [] = [x]"
| "insert_pair x (y # ys) = (if pair_le x y then x # y # ys else y # insert_pair x ys)"

definition sort_pairs :: "(flt \<times> flt) list \<Rightarrow> (flt \<times> flt) list" where
  "sort_pairs ps = foldr insert_pair ps []"

text \<open>The loop of the nearest rank: the first value whose running count reaches the target.\<close>

fun rank_scan :: "flt \<Rightarrow> flt \<Rightarrow> flt \<Rightarrow> (flt \<times> flt) list \<Rightarrow> flt" where
  "rank_scan target seen final [] = final"
| "rank_scan target seen final ((v, count) # ps) =
     (if target \<le> seen + count then v else rank_scan target (seen + count) final ps)"

definition percentile :: "(string \<Rightarrow> flt res) \<Rightarrow> (string, flt) dict \<Rightarrow> flt \<Rightarrow> flt res" where
  "percentile F counts q =
     bind_res (traverse_res (\<lambda>(v, count). bind_res (F v) (\<lambda>x. Inr (x, count)))
       (filter (\<lambda>(v, count). Fin 0 < count) counts)) (\<lambda>unsorted.
       let pairs = sort_pairs unsorted; tot = fsum (map snd pairs)
       in if pairs = [] \<or> tot \<le> Fin 0 then Inr (Fin 0)
          else Inr (rank_scan (q * tot) (Fin 0) (fst (last pairs)) pairs))"

definition ols_slope :: "flt list \<Rightarrow> flt" where
  "ols_slope values =
     (let n = length values in
      if n < SLOPE_WINDOW then Fin 0
      else
        let mean_x = Fin ((of_nat n - 1) / 2);
            mean_y = fsum values / Fin (of_nat n);
            den = fsum (map (\<lambda>x. (Fin (of_nat x) - mean_x) * (Fin (of_nat x) - mean_x)) [0..<n]);
            num = fsum (map (\<lambda>(x, y). (Fin (of_nat x) - mean_x) * (y - mean_y)) (zip [0..<n] values))
        in safe_div num den)"

section \<open>Accumulation\<close>

definition dist_field :: "string \<Rightarrow> string \<Rightarrow> string" where
  "dist_field prefix v = prefix @ DIST_SEP # v"

definition bump :: "(string, flt) dict \<Rightarrow> string \<Rightarrow> flt \<Rightarrow> (string, flt) dict" where
  "bump target key amount = dict_set key (dict_get target key (Fin 0) + amount) target"

fun bumps :: "(string \<times> flt) list \<Rightarrow> (string, flt) dict \<Rightarrow> (string, flt) dict" where
  "bumps [] inc = inc"
| "bumps ((k, x) # ks) inc = bumps ks (bump inc k x)"

text \<open>The field \<open>round(x, 6)\<close> of a float: itself when it is not finite.\<close>

fun fround :: "nat \<Rightarrow> flt \<Rightarrow> flt" where
  "fround n (Fin x) = Fin (py_round n x)"
| "fround n x = x"

definition truthy :: "flt \<Rightarrow> bool" where
  "truthy x \<longleftrightarrow> \<not> feq x (Fin 0)"

definition endpoint_bumps :: "raw_event \<Rightarrow> (string \<times> flt) list" where
  "endpoint_bumps ev =
     (if ev_dst ev \<noteq> [] then [(dist_field DIST_DST_IP (ev_dst ev), Fin 1)] else []) @
     (case ev_dport ev of None \<Rightarrow> [] | Some p \<Rightarrow> [(dist_field DIST_DST_PORT (int_str p), Fin 1)])"

definition flow_bumps :: "pyconv \<Rightarrow> (string, flt) dict \<Rightarrow> (string \<times> flt) list" where
  "flow_bumps C flds =
     (let packets = dict_get flds ''pkts_fwd'' (Fin 0) + dict_get flds ''pkts_bwd'' (Fin 0);
          duration = dict_get flds ''duration'' (Fin 0);
          iat_mean = dict_get flds ''iat_mean'' (Fin 0)
      in [(''n_flows'', Fin 1), (''pkt_count'', packets), (''flow_pkts'', packets)] @
         concat (map (\<lambda>(flag, b). let count = dict_get flds (flag @ ''_count'') (Fin 0) in
            if truthy count then [(flag, count)] else []) TCP_FLAG_BITS) @
         [(''bytes_up'', dict_get flds ''bytes_fwd'' (Fin 0)),
          (''bytes_down'', dict_get flds ''bytes_bwd'' (Fin 0)),
          (''dur_sum'', duration), (''dur_sq'', duration * duration),
          (''iat_sum'', iat_mean), (''iat_sq'', iat_mean * iat_mean),
          (dist_field DIST_FLOW_IAT_MAX (c_repr C (fround 6 (dict_get flds ''iat_max'' (Fin 0)))), Fin 1)])"

text \<open>The statements under \<open>if "x" in flds\<close>, for a field whose value may fail to convert.\<close>

definition when_field ::
    "(string, flt) dict \<Rightarrow> string \<Rightarrow> (flt \<Rightarrow> (string \<times> flt) list res) \<Rightarrow> (string \<times> flt) list res" where
  "when_field flds k body = (case map_of flds k of None \<Rightarrow> Inr [] | Some x \<Rightarrow> body x)"

definition packet_bumps :: "(string, flt) dict \<Rightarrow> (string \<times> flt) list res" where
  "packet_bumps flds =
     bind_res (fint (dict_get flds ''tcp_flags'' (Fin 0))) (\<lambda>flags.
     bind_res (when_field flds ''ttl'' (\<lambda>ttl. Inr
       [(''n_ttl'', Fin 1), (''ttl_sum'', ttl), (''ttl_sq'', ttl * ttl)])) (\<lambda>ttl.
     bind_res (when_field flds ''tcp_window'' (\<lambda>w. bind_res (fint w) (\<lambda>i. Inr
       [(''n_tcp_window'', Fin 1), (''tcp_window_sum'', w),
        (dist_field DIST_TCP_WINDOW (int_str i), Fin 1)]))) (\<lambda>tcp_window.
     bind_res (when_field flds ''tcp_len'' (\<lambda>p. bind_res (fint p) (\<lambda>i. Inr
       [(''n_payload'', Fin 1), (''payload_sum'', p), (''payload_sq'', p * p),
        (dist_field DIST_PAYLOAD (int_str i), Fin 1)]))) (\<lambda>payload.
     Inr ([(''n_packets'', Fin 1), (''pkt_count'', Fin 1)] @
       map (\<lambda>(flag, b). (flag, Fin 1)) (filter (\<lambda>(flag, b). flags AND b \<noteq> 0) TCP_FLAG_BITS) @
       [(''bytes_up'', dict_get flds ''frame_len'' (Fin 0))] @ ttl @ tcp_window @
       (if truthy (dict_get flds ''frag'' (Fin 0)) then [(''frag_count'', Fin 1)] else []) @
       payload @
       (if truthy (dict_get flds ''retransmission'' (Fin 0)) then [(''retrans_count'', Fin 1)] else []))))))"

definition event_increments :: "pyconv \<Rightarrow> raw_event \<Rightarrow> (string, flt) dict res" where
  "event_increments C ev =
     (case ev_kind ev of
        Flow \<Rightarrow> Inr (bumps (endpoint_bumps ev @ flow_bumps C (ev_fields ev)) [])
      | Packet \<Rightarrow> bind_res (packet_bumps (ev_fields ev)) (\<lambda>bs. Inr (bumps (endpoint_bumps ev @ bs) [])))"

record window_accumulator =
  wa_scalars :: "(string, flt) dict"
  wa_dists :: "(string, (string, flt) dict) dict"

definition add_field :: "string \<Rightarrow> flt \<Rightarrow> window_accumulator \<Rightarrow> window_accumulator" where
  "add_field raw_key v acc =
     (case partition_str DIST_SEP raw_key of (prefix, sep, bucket) \<Rightarrow>
        if sep \<and> prefix \<in> set DIST_PREFIXES
        then acc\<lparr>wa_dists := dict_set prefix (dict_set bucket v (dict_get (wa_dists acc) prefix [])) (wa_dists acc)\<rparr>
        else acc\<lparr>wa_scalars := dict_set raw_key v (wa_scalars acc)\<rparr>)"

definition empty_accumulator :: window_accumulator where
  "empty_accumulator = \<lparr>wa_scalars = [], wa_dists = map (\<lambda>p. (p, [])) DIST_PREFIXES\<rparr>"

fun add_hash :: "(string \<Rightarrow> flt res) \<Rightarrow> (string, string) dict \<Rightarrow> window_accumulator \<Rightarrow> window_accumulator res" where
  "add_hash F [] acc = Inr acc"
| "add_hash F ((raw_key, raw_value) # items) acc =
     bind_res (F raw_value) (\<lambda>v. add_hash F items (add_field raw_key v acc))"

definition from_hash :: "(string \<Rightarrow> flt res) \<Rightarrow> (string, string) dict \<Rightarrow> window_accumulator res" where
  "from_hash F mapping = add_hash F mapping empty_accumulator"

definition acc_get :: "window_accumulator \<Rightarrow> string \<Rightarrow> flt" where
  "acc_get acc name = dict_get (wa_scalars acc) name (Fin 0)"

definition acc_dist :: "window_accumulator \<Rightarrow> string \<Rightarrow> (string, flt) dict" where
  "acc_dist acc prefix = dict_get (wa_dists acc) prefix []"

definition event_count :: "window_accumulator \<Rightarrow> flt" where
  "event_count acc = acc_get acc ''n_flows'' + acc_get acc ''n_packets''"

section \<open>The window graph\<close>

record window_graph =
  wg_out :: "(string, string list) dict"
  wg_in :: "(string, string list) dict"

definition add_member :: "string \<Rightarrow> string list \<Rightarrow> string list" where
  "add_member x xs = (if x \<in> set xs then xs else xs @ [x])"

text \<open>\<open>d.setdefault(k, set())\<close>, and \<open>d.setdefault(k, set()).add(x)\<close>.\<close>

definition touch :: "string \<Rightarrow> (string, string list) dict \<Rightarrow> (string, string list) dict" where
  "touch k d = (if k \<in> set (keys d) then d else dict_set k [] d)"

definition add_to :: "string \<Rightarrow> string \<Rightarrow> (string, string list) dict \<Rightarrow> (string, string list) dict" where
  "add_to k x d = dict_set k (add_member x (dict_get d k [])) d"

fun add_edges :: "(string \<times> string) list \<Rightarrow> window_graph \<Rightarrow> window_graph" where
  "add_edges [] g = g"
| "add_edges ((src, dst) # edges) g = add_edges edges
     \<lparr>wg_out = touch dst (add_to src dst (wg_out g)), wg_in = touch src (add_to dst src (wg_in g))\<rparr>"

definition from_edges :: "(string \<times> string) list \<Rightarrow> window_graph" where
  "from_edges edges = add_edges edges \<lparr>wg_out = [], wg_in = []\<rparr>"

definition successors :: "window_graph \<Rightarrow> string \<Rightarrow> string list" where
  "successors g host = dict_get (wg_out g) host []"

definition predecessors :: "window_graph \<Rightarrow> string \<Rightarrow> string list" where
  "predecessors g host = dict_get (wg_in g) host []"

definition fcount :: "'a list \<Rightarrow> flt" where
  "fcount xs = Fin (of_nat (length xs))"

definition out_degree :: "window_graph \<Rightarrow> string \<Rightarrow> flt" where
  "out_degree g host = fcount (successors g host)"

definition in_degree :: "window_graph \<Rightarrow> string \<Rightarrow> flt" where
  "in_degree g host = fcount (predecessors g host)"

definition reciprocity :: "window_graph \<Rightarrow> string \<Rightarrow> flt" where
  "reciprocity g host = (let out = successors g host in
     safe_div (fcount (filter (\<lambda>p. p \<in> set (predecessors g host)) out)) (fcount out))"

text \<open>\<open>xs[:n]\<close>.\<close>

definition slice_to :: "int \<Rightarrow> 'a list \<Rightarrow> 'a list" where
  "slice_to n xs = (if 0 \<le> n then take (nat n) xs else take (length xs - nat (- n)) xs)"

definition neighbours :: "window_graph \<Rightarrow> string \<Rightarrow> string list" where
  "neighbours g host = sort (remdups (successors g host @ predecessors g host))"

text \<open>The links from each node to the nodes after it in the list.\<close>

fun count_links :: "window_graph \<Rightarrow> string list \<Rightarrow> string list \<Rightarrow> nat" where
  "count_links g present [] = 0"
| "count_links g present (node # rest) =
     length (filter (\<lambda>other. (other \<in> set (successors g node) \<or> other \<in> set (predecessors g node))
        \<and> other \<in> set present) rest) + count_links g present rest"

definition clustering :: "window_graph \<Rightarrow> string \<Rightarrow> int \<Rightarrow> flt" where
  "clustering g host degree_cap =
     (let all_peers = neighbours g host;
          peers = (if degree_cap < int (length all_peers) then slice_to degree_cap all_peers else all_peers);
          size = length peers
      in if size < 2 then Fin 0
         else safe_div (Fin (of_nat (count_links g peers peers))) (Fin (of_nat (size * (size - 1)) / 2)))"

section \<open>The vector\<close>

definition zero_features :: "(string, flt) dict" where
  "zero_features = map (\<lambda>name. (name, Fin 0)) FEATURE_ORDER"

definition validate_features :: "(string, flt) dict \<Rightarrow> unit res" where
  "validate_features features =
     (if set (keys features) \<noteq> set FEATURE_ORDER then Inl ValueError else Inr ())"

definition flow_features :: "(string \<Rightarrow> flt res) \<Rightarrow> window_accumulator \<Rightarrow> (string, flt) dict res" where
  "flow_features F acc =
     (let g = acc_get acc; packets = g ''pkt_count''; flows = g ''n_flows''
      in bind_res (percentile F (acc_dist acc DIST_FLOW_IAT_MAX) (Fin 1)) (\<lambda>iat_max. Inr
        [(''syn_ratio'', safe_div (g ''syn'') packets), (''ack_ratio'', safe_div (g ''ack'') packets),
         (''rst_ratio'', safe_div (g ''rst'') packets), (''fin_ratio'', safe_div (g ''fin'') packets),
         (''psh_ratio'', safe_div (g ''psh'') packets), (''urg_ratio'', safe_div (g ''urg'') packets),
         (''bytes_total'', g ''bytes_up'' + g ''bytes_down''),
         (''bytes_up_down_ratio'', safe_div (g ''bytes_up'') (g ''bytes_down'')),
         (''pkts_per_flow_mean'', safe_div (g ''flow_pkts'') flows),
         (''flow_duration_mean'', safe_div (g ''dur_sum'') flows),
         (''flow_duration_var'', variance (g ''dur_sum'') (g ''dur_sq'') flows),
         (''iat_mean'', safe_div (g ''iat_sum'') flows),
         (''iat_var'', variance (g ''iat_sum'') (g ''iat_sq'') flows),
         (''iat_max'', iat_max), (''active_flow_count'', flows)]))"

definition packet_features ::
    "pymath \<Rightarrow> (string \<Rightarrow> flt res) \<Rightarrow> window_accumulator \<Rightarrow> (string, flt) dict res" where
  "packet_features M F acc =
     (let g = acc_get acc; observed = g ''n_packets''; payloads = acc_dist acc DIST_PAYLOAD
      in bind_res (shannon_entropy M (map snd (acc_dist acc DIST_TCP_WINDOW))) (\<lambda>window_entropy.
         bind_res (percentile F payloads (Fin (95 / 100))) (\<lambda>p95.
         bind_res (shannon_entropy M (map snd payloads)) (\<lambda>payload_entropy. Inr
        [(''ttl_mean'', safe_div (g ''ttl_sum'') (g ''n_ttl'')),
         (''ttl_var'', variance (g ''ttl_sum'') (g ''ttl_sq'') (g ''n_ttl'')),
         (''tcp_window_mean'', safe_div (g ''tcp_window_sum'') (g ''n_tcp_window'')),
         (''tcp_window_entropy'', window_entropy),
         (''frag_flag_rate'', safe_div (g ''frag_count'') observed),
         (''payload_size_mean'', safe_div (g ''payload_sum'') (g ''n_payload'')),
         (''payload_size_var'', variance (g ''payload_sum'') (g ''payload_sq'') (g ''n_payload'')),
         (''payload_size_p95'', p95), (''payload_size_entropy'', payload_entropy),
         (''retrans_count'', g ''retrans_count''),
         (''retrans_rate'', safe_div (g ''retrans_count'') observed)]))))"

definition graph_features ::
    "pymath \<Rightarrow> window_accumulator \<Rightarrow> string \<Rightarrow> window_graph \<Rightarrow> window_graph \<Rightarrow> int \<Rightarrow> int \<Rightarrow> int \<Rightarrow>
     (string, flt) dict res" where
  "graph_features M acc host graph previous_graph new_peer_count elevated_fanout degree_cap =
     (let peers = successors graph host;
          elevated = filter (\<lambda>peer. Fin (of_int elevated_fanout) \<le> out_degree previous_graph peer) peers
      in bind_res (shannon_entropy M (map snd (acc_dist acc DIST_DST_IP))) (\<lambda>ip_entropy.
         bind_res (shannon_entropy M (map snd (acc_dist acc DIST_DST_PORT))) (\<lambda>port_entropy. Inr
        [(''out_degree'', out_degree graph host), (''in_degree'', in_degree graph host),
         (''dst_ip_entropy'', ip_entropy), (''dst_port_entropy'', port_entropy),
         (''new_peer_count'', Fin (of_int new_peer_count)),
         (''neighbour_risk_fraction'', safe_div (fcount elevated) (fcount peers)),
         (''local_clustering_coeff'', clustering graph host degree_cap),
         (''reciprocity'', reciprocity graph host)])))"

text \<open>\<open>history\<close> is oldest first; \<open>current[source]\<close> raises on a missing source.\<close>

definition dynamics :: "(string, flt) dict \<Rightarrow> (string, flt) dict list \<Rightarrow> (string, flt) dict res" where
  "dynamics current history =
     bind_res (traverse_res (\<lambda>(feature, source).
        if history = [] then Inr (feature, Fin 0)
        else bind_res (dict_index current source) (\<lambda>c.
          Inr (feature, c - dict_get (last history) source (Fin 0)))) DELTA_FEATURES) (\<lambda>deltas.
     bind_res (traverse_res (\<lambda>(feature, source). bind_res (dict_index current source) (\<lambda>c.
        Inr (feature, ols_slope (map (\<lambda>point. dict_get point source (Fin 0))
          (last_n (SLOPE_WINDOW - 1) history) @ [c])))) SLOPE_FEATURES) (\<lambda>slopes.
     Inr (dict_update (dict_update [] deltas) slopes)))"

definition tracked_values :: "(string, flt) dict \<Rightarrow> (string, flt) dict res" where
  "tracked_values features =
     traverse_res (\<lambda>name. bind_res (dict_index features name) (\<lambda>x. Inr (name, x))) DYNAMIC_SOURCES"

definition compute_features ::
    "pymath \<Rightarrow> (string \<Rightarrow> flt res) \<Rightarrow> window_accumulator \<Rightarrow> string \<Rightarrow> window_graph \<Rightarrow> window_graph \<Rightarrow>
     int \<Rightarrow> (string, flt) dict list \<Rightarrow> int \<Rightarrow> int \<Rightarrow> (string, flt) dict res" where
  "compute_features M F acc host graph previous_graph new_peer_count history elevated_fanout degree_cap =
     bind_res (flow_features F acc) (\<lambda>flow.
     bind_res (packet_features M F acc) (\<lambda>packet.
     bind_res (graph_features M acc host graph previous_graph new_peer_count elevated_fanout degree_cap) (\<lambda>graphf.
       let features = dict_update (dict_update (dict_update [] flow) packet) graphf
       in bind_res (dynamics features history) (\<lambda>dyn.
         let features = dict_set ''is_active'' (if Fin 0 < event_count acc then Fin 1 else Fin 0)
               (dict_update features dyn)
         in bind_res (validate_features features) (\<lambda>_.
           if \<not> list_all (\<lambda>(name, v). isfinite v) features then Inl ValueError else Inr features)))))"

section \<open>Numerics never leave the finite numbers\<close>

lemma isfinite_safe_div [simp]: "isfinite (safe_div a b)"
  by (simp add: safe_div_def Let_def)

lemma safe_div_Fin [simp]: "safe_div (Fin a) (Fin b) = Fin (if b = 0 then 0 else a / b)"
  by (simp add: safe_div_def feq_def inverse_eq_divide)

lemma safe_div_unit: "0 \<le> a \<Longrightarrow> a \<le> b \<Longrightarrow> \<exists>r. safe_div (Fin a) (Fin b) = Fin r \<and> 0 \<le> r \<and> r \<le> 1"
  by (cases "b = 0") auto

lemma variance_Fin: "variance (Fin sx) (Fin sxx) (Fin n) =
    Fin (if n \<le> 0 then 0 else max 0 (sxx / n - (sx / n)\<^sup>2))"
  by (simp add: variance_def power2_eq_square)

lemma variance_nonneg: "isfinite sx \<Longrightarrow> isfinite sxx \<Longrightarrow> isfinite n \<Longrightarrow>
    \<exists>v. variance sx sxx n = Fin v \<and> 0 \<le> v"
  by (cases sx; cases sxx; cases n) (simp_all add: variance_Fin)

lemma isfinite_arith [simp]:
  "isfinite a \<Longrightarrow> isfinite b \<Longrightarrow> isfinite (a + b)" "isfinite a \<Longrightarrow> isfinite b \<Longrightarrow> isfinite (a - b)"
  "isfinite a \<Longrightarrow> isfinite b \<Longrightarrow> isfinite (a * b)"
  by (cases a; cases b; simp)+

lemma map_Fin: "list_all isfinite xs \<Longrightarrow> \<exists>rs. xs = map Fin rs"
  by (induction xs) (auto simp: isfinite_iff Cons_eq_map_conv)

lemma isfinite_fsum [simp]: "list_all isfinite xs \<Longrightarrow> isfinite (fsum xs)"
  using map_Fin [of xs] by auto

lemma entropy_nonneg:
  assumes "pymath_laws M" "list_all isfinite counts"
  shows "\<exists>h. shannon_entropy M counts = Inr (Fin h) \<and> 0 \<le> h"
proof -
  have "list_all isfinite (filter (\<lambda>c. Fin 0 < c) counts)"
    using assms(2) by (auto simp: list_all_iff)
  then obtain rs where rs: "filter (\<lambda>c. Fin 0 < c) counts = map Fin rs" using map_Fin by blast
  have pos: "0 < r" if "r \<in> set rs" for r
  proof -
    have "Fin r \<in> set (filter (\<lambda>c. Fin 0 < c) counts)" using that by (simp add: rs)
    then show ?thesis by simp
  qed
  let ?T = "sum_list rs"
  show ?thesis
  proof (cases "?T \<le> 0")
    case True
    then show ?thesis by (simp add: shannon_entropy_def rs Let_def)
  next
    case False
    have le: "r \<le> ?T" if "r \<in> set rs" for r
      using that pos by (intro member_le_sum_list) (auto intro: less_imp_le)
    let ?g = "\<lambda>r. r / ?T * m_log M (r / ?T)"
    have "traverse_res (\<lambda>c. bind_res (flog M (c / Fin T)) (\<lambda>l. Inr ((c / Fin T) * l))) (map Fin xs)
        = Inr (map Fin (map (\<lambda>r. r / T * m_log M (r / T)) xs))"
      if "0 < T" "\<And>r. r \<in> set xs \<Longrightarrow> 0 < r" for T xs
      using that(2) by (induction xs) (use that(1) in simp_all)
    from this [of ?T rs] pos False
    have "traverse_res (\<lambda>c. bind_res (flog M (c / Fin ?T)) (\<lambda>l. Inr ((c / Fin ?T) * l))) (map Fin rs)
        = Inr (map Fin (map ?g rs))" by simp
    moreover have "?g r \<le> 0" if "r \<in> set rs" for r
    proof -
      have "0 < r / ?T" "r / ?T \<le> 1" using pos [OF that] le [OF that] False by simp_all
      then have "m_log M (r / ?T) \<le> 0" by (rule pymath_laws.log_nonpos [OF assms(1)])
      with \<open>0 < r / ?T\<close> show ?thesis by (intro mult_nonneg_nonpos) simp_all
    qed
    then have "sum_list (map ?g rs) \<le> 0"
      by (intro sum_list_nonpos) auto
    ultimately show ?thesis using False
      unfolding shannon_entropy_def rs Let_def fsum_Fin by (simp only: bind_res_simps fsum_Fin) simp
  qed
qed

lemma set_insert_pair [simp]: "set (insert_pair x ys) = insert x (set ys)"
  by (induction ys) auto

lemma set_sort_pairs [simp]: "set (sort_pairs ps) = set ps"
  unfolding sort_pairs_def by (induction ps) simp_all

lemma rank_scan_mem: "rank_scan t s final ps \<in> insert final (fst ` set ps)"
  by (induction t s final ps rule: rank_scan.induct) auto

lemma percentile_finite:
  assumes "\<And>v c. (v, c) \<in> set counts \<Longrightarrow> \<exists>r. F v = Inr (Fin r)"
  shows "\<exists>r. percentile F counts q = Inr (Fin r)"
proof -
  let ?fs = "filter (\<lambda>(v, count). Fin 0 < count) counts"
  define num where "num v = (case F v of Inr x \<Rightarrow> x | Inl e \<Rightarrow> NaN)" for v
  have num: "F v = Inr (num v) \<and> isfinite (num v)" if "(v, c) \<in> set counts" for v c
    using assms [OF that] by (auto simp: num_def)
  have tr: "traverse_res (\<lambda>(v, count). bind_res (F v) (\<lambda>x. Inr (x, count))) ?fs
      = Inr (map (\<lambda>(v, count). (num v, count)) ?fs)"
    using num by (intro traverse_res_all) auto
  let ?ps = "sort_pairs (map (\<lambda>(v, count). (num v, count)) ?fs)"
  have fin: "isfinite x" if "x \<in> fst ` set ?ps" for x
    using that num by auto
  show ?thesis
  proof (cases "?ps = [] \<or> fsum (map snd ?ps) \<le> Fin 0")
    case True
    then show ?thesis by (simp add: percentile_def tr Let_def del: set_sort_pairs)
  next
    case False
    let ?r = "rank_scan (q * fsum (map snd ?ps)) (Fin 0) (fst (last ?ps)) ?ps"
    have "fst (last ?ps) \<in> fst ` set ?ps" using False by (intro imageI last_in_set) simp
    then have "?r \<in> fst ` set ?ps"
      using rank_scan_mem [of "q * fsum (map snd ?ps)" "Fin 0" "fst (last ?ps)" ?ps] by (metis insert_absorb)
    then have "isfinite ?r" by (rule fin)
    then show ?thesis using False by (auto simp: percentile_def tr Let_def isfinite_iff)
  qed
qed

lemma ols_slope_finite: "isfinite (ols_slope values)"
  by (simp add: ols_slope_def Let_def)

text \<open>On the three points it is used for, the slope is the halved difference of the ends.\<close>

lemma ols_slope_3: "ols_slope [Fin a, Fin b, Fin c] = Fin ((c - a) / 2)"
  by (simp add: ols_slope_def SLOPE_WINDOW_def Let_def fsum_def upt_rec numeral_3_eq_3 field_simps)

lemma ols_slope_short: "length values < 3 \<Longrightarrow> ols_slope values = Fin 0"
  by (simp add: ols_slope_def SLOPE_WINDOW_def)

section \<open>The graph is the graph of its edges\<close>

lemma set_add_member [simp]: "set (add_member x xs) = insert x (set xs)"
  by (auto simp: add_member_def)

lemma distinct_add_member [simp]: "distinct (add_member x xs) = distinct xs"
  by (auto simp: add_member_def)

lemma dict_get_touch [simp]: "dict_get (touch k d) h [] = dict_get d h []"
proof (cases "k \<in> set (keys d)")
  case False
  then have "map_of d k = None" by (auto simp: map_of_eq_None_iff)
  with False show ?thesis by (auto simp: touch_def dict_simps dict_get_def)
qed (simp add: touch_def)

lemma dict_get_add_to [simp]:
  "dict_get (add_to k x d) h [] = (if h = k then add_member x (dict_get d h []) else dict_get d h [])"
  by (auto simp: add_to_def dict_get_def dict_simps)

lemma add_edges_peers:
  "set (successors (add_edges es g) h) = set (successors g h) \<union> {d. (h, d) \<in> set es}"
  "set (predecessors (add_edges es g) h) = set (predecessors g h) \<union> {s. (s, h) \<in> set es}"
  "distinct (successors g h) \<Longrightarrow> distinct (successors (add_edges es g) h)"
  "distinct (predecessors g h) \<Longrightarrow> distinct (predecessors (add_edges es g) h)"
  by (induction es g rule: add_edges.induct)
    (auto simp: successors_def predecessors_def split: if_splits)

lemma no_peers [simp]:
  "successors \<lparr>wg_out = [], wg_in = i\<rparr> h = []" "predecessors \<lparr>wg_out = out, wg_in = []\<rparr> h = []"
  by (simp_all add: successors_def predecessors_def dict_get_def)

lemma from_edges_peers [simp]:
  "set (successors (from_edges es) h) = {d. (h, d) \<in> set es}"
  "set (predecessors (from_edges es) h) = {s. (s, h) \<in> set es}"
  "distinct (successors (from_edges es) h)" "distinct (predecessors (from_edges es) h)"
  unfolding from_edges_def by (simp_all add: add_edges_peers)

definition linked :: "(string \<times> string) list \<Rightarrow> string \<Rightarrow> string \<Rightarrow> bool" where
  "linked es a b \<longleftrightarrow> (a, b) \<in> set es \<or> (b, a) \<in> set es"

definition links_among :: "(string \<times> string) list \<Rightarrow> string set \<Rightarrow> string set set" where
  "links_among es V = {p. \<exists>a \<in> V. \<exists>b \<in> V. a \<noteq> b \<and> linked es a b \<and> p = {a, b}}"

lemma links_among_insert:
  assumes "n \<notin> V"
  shows "links_among es (insert n V) = (\<lambda>b. {n, b}) ` {b \<in> V. linked es n b} \<union> links_among es V"
  using assms by (auto simp: links_among_def linked_def insert_commute)

lemma count_links_card:
  assumes "distinct ns" "set ns \<subseteq> set present"
  shows "count_links (from_edges es) present ns = card (links_among es (set ns))"
  using assms
proof (induction ns)
  case Nil
  then show ?case by (simp add: links_among_def)
next
  case (Cons n ns)
  let ?B = "{b \<in> set ns. linked es n b}"
  have "finite (links_among es (set ns))"
    by (rule finite_subset [of _ "Pow (set ns)"]) (auto simp: links_among_def)
  moreover have "(\<lambda>b. {n, b}) ` ?B \<inter> links_among es (set ns) = {}"
    using Cons.prems by (auto simp: links_among_def doubleton_eq_iff)
  ultimately have "card (links_among es (set (n # ns))) = card ((\<lambda>b. {n, b}) ` ?B) + card (links_among es (set ns))"
    using Cons.prems by (simp add: links_among_insert card_Un_disjoint)
  also have "card ((\<lambda>b. {n, b}) ` ?B) = card ?B"
    by (rule card_image) (auto simp: inj_on_def doubleton_eq_iff)
  also have "card ?B = length (filter (linked es n) ns)"
    using Cons.prems distinct_card [of "filter (linked es n) ns"] by simp
  also have "filter (linked es n) ns = filter (\<lambda>other. (other \<in> set (successors (from_edges es) n)
      \<or> other \<in> set (predecessors (from_edges es) n)) \<and> other \<in> set present) ns"
    using Cons.prems by (intro filter_cong) (auto simp: linked_def)
  finally show ?case using Cons by simp
qed

lemma count_links_bound: "2 * count_links g present ns \<le> length ns * (length ns - 1)"
proof (induction g present ns rule: count_links.induct)
  case (2 g present node rest)
  let ?l = "length (filter (\<lambda>other. (other \<in> set (successors g node) \<or> other \<in> set (predecessors g node))
      \<and> other \<in> set present) rest)"
  have "?l \<le> length rest" by simp
  moreover have "length rest + length rest + length rest * (length rest - 1) = Suc (length rest) * length rest"
    by (cases "length rest") (simp_all add: algebra_simps)
  ultimately have "2 * ?l + 2 * count_links g present rest \<le> Suc (length rest) * length rest"
    using 2 by linarith
  then show ?case by simp
qed simp

lemma sort_neighbours [simp]:
  "distinct (neighbours g h)" "sorted (neighbours g h)"
  "set (neighbours g h) = set (successors g h) \<union> set (predecessors g h)"
  by (simp_all add: neighbours_def)

lemma distinct_slice [simp]: "distinct xs \<Longrightarrow> distinct (slice_to n xs)"
  by (simp add: slice_to_def)

lemma clustering_unit: "\<exists>r. clustering g h cap = Fin r \<and> 0 \<le> r \<and> r \<le> 1"
proof -
  define ns where "ns = (if cap < int (length (neighbours g h))
     then slice_to cap (neighbours g h) else neighbours g h)"
  define n where "n = length ns"
  show ?thesis
  proof (cases "n < 2")
    case True
    then show ?thesis by (simp add: clustering_def Let_def ns_def [symmetric] n_def)
  next
    case False
    have "rat_of_nat (2 * count_links g ns ns) \<le> of_nat (n * (n - 1))"
      using count_links_bound [of g ns ns] unfolding n_def by (rule of_nat_mono)
    then have "(of_nat (count_links g ns ns) :: rat) \<le> of_nat (n * (n - 1)) / 2" by simp
    from safe_div_unit [OF of_nat_0_le_iff this] show ?thesis
      using False unfolding clustering_def Let_def ns_def [symmetric] n_def by (simp only: if_False)
  qed
qed

lemma reciprocity_unit: "\<exists>r. reciprocity g h = Fin r \<and> 0 \<le> r \<and> r \<le> 1"
  unfolding reciprocity_def Let_def fcount_def by (rule safe_div_unit) simp_all

text \<open>
  The graph features are the graph's: over any window's edges, the degrees are the numbers of
  distinct peers, reciprocity is the fraction of destinations that sent back, and with a
  neighbourhood within the cap the clustering coefficient is the number of linked pairs of
  neighbours over the number of pairs; a larger neighbourhood is cut to its first names in order,
  and the value stays between zero and one.
\<close>

lemma graph_features_exact:
  "out_degree (from_edges es) h = Fin (of_nat (card {d. (h, d) \<in> set es})) \<and>
   in_degree (from_edges es) h = Fin (of_nat (card {s. (s, h) \<in> set es})) \<and>
   reciprocity (from_edges es) h = safe_div
     (Fin (of_nat (card {d. (h, d) \<in> set es \<and> (d, h) \<in> set es}))) (Fin (of_nat (card {d. (h, d) \<in> set es}))) \<and>
   (let V = {d. linked es h d}; n = card V in
      clustering (from_edges es) h (int n) =
        (if n < 2 then Fin 0 else Fin (of_nat (card (links_among es V)) / (of_nat (n * (n - 1)) / 2)))) \<and>
   (\<exists>r. clustering (from_edges es) h cap = Fin r \<and> 0 \<le> r \<and> r \<le> 1)"
proof (intro conjI)
  show "out_degree (from_edges es) h = Fin (of_nat (card {d. (h, d) \<in> set es}))"
    by (simp add: out_degree_def fcount_def distinct_card [symmetric])
  show "in_degree (from_edges es) h = Fin (of_nat (card {s. (s, h) \<in> set es}))"
    by (simp add: in_degree_def fcount_def distinct_card [symmetric])
  have "length (filter (\<lambda>p. p \<in> set (predecessors (from_edges es) h)) (successors (from_edges es) h))
      = card {d. (h, d) \<in> set es \<and> (d, h) \<in> set es}"
    by (subst distinct_card [symmetric]) simp_all
  moreover have "length (successors (from_edges es) h) = card {d. (h, d) \<in> set es}"
    by (simp add: distinct_card [symmetric])
  ultimately show "reciprocity (from_edges es) h = safe_div
     (Fin (of_nat (card {d. (h, d) \<in> set es \<and> (d, h) \<in> set es}))) (Fin (of_nat (card {d. (h, d) \<in> set es})))"
    by (simp only: reciprocity_def Let_def fcount_def)
  define ns where "ns = neighbours (from_edges es) h"
  have V: "set ns = {d. linked es h d}" by (auto simp: ns_def linked_def)
  have n: "length ns = card {d. linked es h d}"
    unfolding V [symmetric] using distinct_card [of ns] by (simp add: ns_def)
  have "count_links (from_edges es) ns ns = card (links_among es {d. linked es h d})"
    unfolding V [symmetric] by (rule count_links_card) (simp_all add: ns_def)
  then show "let V = {d. linked es h d}; n = card V in
      clustering (from_edges es) h (int n) =
        (if n < 2 then Fin 0 else Fin (of_nat (card (links_among es V)) / (of_nat (n * (n - 1)) / 2)))"
    by (auto simp: clustering_def Let_def ns_def [symmetric] n [symmetric] safe_div_def feq_def)
  show "\<exists>r. clustering (from_edges es) h cap = Fin r \<and> 0 \<le> r \<and> r \<le> 1" by (rule clustering_unit)
qed

section \<open>The vector is total, complete and in range\<close>

text \<open>What the counters of a window satisfy: finite, with numeric buckets where they are read.\<close>

definition finite_values :: "('k, flt) dict \<Rightarrow> bool" where
  "finite_values d \<longleftrightarrow> list_all (\<lambda>(k, v). isfinite v) d"

definition finite_acc :: "(string \<Rightarrow> flt res) \<Rightarrow> window_accumulator \<Rightarrow> bool" where
  "finite_acc F acc \<longleftrightarrow> finite_values (wa_scalars acc) \<and>
     list_all (\<lambda>(p, d). finite_values d) (wa_dists acc) \<and>
     list_all (\<lambda>p. list_all (\<lambda>(b, c). case F b of Inr (Fin r) \<Rightarrow> True | _ \<Rightarrow> False) (acc_dist acc p))
       [DIST_FLOW_IAT_MAX, DIST_PAYLOAD]"

definition NONNEGATIVE_FEATURES :: "string list" where
  "NONNEGATIVE_FEATURES = [''flow_duration_var'', ''iat_var'', ''ttl_var'', ''payload_size_var'',
     ''tcp_window_entropy'', ''payload_size_entropy'', ''dst_ip_entropy'', ''dst_port_entropy'',
     ''out_degree'', ''in_degree'']"

definition FRACTION_FEATURES :: "string list" where
  "FRACTION_FEATURES = [''neighbour_risk_fraction'', ''local_clustering_coeff'', ''reciprocity'', ''is_active'']"

definition in_range :: "string \<times> flt \<Rightarrow> bool" where
  "in_range = (\<lambda>(name, v). isfinite v \<and>
     (if name \<in> set NONNEGATIVE_FEATURES then Fin 0 \<le> v
      else if name \<in> set FRACTION_FEATURES then Fin 0 \<le> v \<and> v \<le> Fin 1 else True))"

lemmas in_range_defs = in_range_def NONNEGATIVE_FEATURES_def FRACTION_FEATURES_def

lemma finite_get [simp]: "finite_acc F acc \<Longrightarrow> isfinite (acc_get acc name)"
  by (auto simp: finite_acc_def finite_values_def acc_get_def dict_get_def list_all_iff
      dest!: map_of_SomeD split: option.splits)

lemma finite_dist: "finite_acc F acc \<Longrightarrow> finite_values (acc_dist acc p)"
proof (cases "map_of (wa_dists acc) p")
  case (Some d)
  then have "(p, d) \<in> set (wa_dists acc)" by (rule map_of_SomeD)
  then show "finite_acc F acc \<Longrightarrow> finite_values (acc_dist acc p)"
    using Some by (auto simp: finite_acc_def acc_dist_def dict_get_def list_all_iff)
qed (simp add: acc_dist_def dict_get_def finite_values_def)

lemma finite_dist_values [simp]: "finite_acc F acc \<Longrightarrow> list_all isfinite (map snd (acc_dist acc p))"
  using finite_dist [of F acc p] by (auto simp: finite_values_def list_all_iff)

lemma percentile_acc:
  assumes "finite_acc F acc" "p \<in> {DIST_FLOW_IAT_MAX, DIST_PAYLOAD}"
  shows "\<exists>r. percentile F (acc_dist acc p) q = Inr (Fin r)"
proof (rule percentile_finite)
  fix v c assume "(v, c) \<in> set (acc_dist acc p)"
  then have "case F v of Inr (Fin r) \<Rightarrow> True | _ \<Rightarrow> False"
    using assms by (auto simp: finite_acc_def list_all_iff)
  then show "\<exists>r. F v = Inr (Fin r)" by (auto split: sum.splits flt.splits)
qed

lemma flow_features_ok:
  assumes "finite_acc F acc"
  shows "\<exists>fs. flow_features F acc = Inr fs \<and> map fst fs = take 15 FEATURE_ORDER \<and> list_all in_range fs"
proof -
  obtain r where r: "percentile F (acc_dist acc DIST_FLOW_IAT_MAX) (Fin 1) = Inr (Fin r)"
    using percentile_acc [OF assms] by blast
  obtain v1 v2 where v: "variance (acc_get acc ''dur_sum'') (acc_get acc ''dur_sq'') (acc_get acc ''n_flows'') = Fin v1"
    "variance (acc_get acc ''iat_sum'') (acc_get acc ''iat_sq'') (acc_get acc ''n_flows'') = Fin v2" "0 \<le> v1" "0 \<le> v2"
    using variance_nonneg assms by (meson finite_get)
  show ?thesis
    using assms by (simp add: flow_features_def Let_def r v FEATURE_ORDER_def in_range_defs del: safe_div_Fin)
qed

lemma packet_features_ok:
  assumes "pymath_laws M" "finite_acc F acc"
  shows "\<exists>fs. packet_features M F acc = Inr fs \<and> map fst fs = take 11 (drop 15 FEATURE_ORDER) \<and> list_all in_range fs"
proof -
  obtain r where r: "percentile F (acc_dist acc DIST_PAYLOAD) (Fin (19 / 20)) = Inr (Fin r)"
    using percentile_acc [OF assms(2)] by blast
  obtain v1 v2 where v: "variance (acc_get acc ''ttl_sum'') (acc_get acc ''ttl_sq'') (acc_get acc ''n_ttl'') = Fin v1"
    "variance (acc_get acc ''payload_sum'') (acc_get acc ''payload_sq'') (acc_get acc ''n_payload'') = Fin v2"
    "0 \<le> v1" "0 \<le> v2"
    using variance_nonneg assms(2) by (meson finite_get)
  obtain h1 h2 where h: "shannon_entropy M (map snd (acc_dist acc DIST_TCP_WINDOW)) = Inr (Fin h1)"
    "shannon_entropy M (map snd (acc_dist acc DIST_PAYLOAD)) = Inr (Fin h2)" "0 \<le> h1" "0 \<le> h2"
    using entropy_nonneg [OF assms(1)] assms(2) by (meson finite_dist_values)
  show ?thesis
    using assms(2) by (simp add: packet_features_def Let_def r v h FEATURE_ORDER_def in_range_defs del: safe_div_Fin)
qed

lemma graph_features_ok:
  assumes "pymath_laws M" "finite_acc F acc"
  shows "\<exists>fs. graph_features M acc host g pg npc ef cap = Inr fs \<and>
    map fst fs = take 8 (drop 26 FEATURE_ORDER) \<and> list_all in_range fs"
proof -
  obtain h1 h2 where h: "shannon_entropy M (map snd (acc_dist acc DIST_DST_IP)) = Inr (Fin h1)"
    "shannon_entropy M (map snd (acc_dist acc DIST_DST_PORT)) = Inr (Fin h2)" "0 \<le> h1" "0 \<le> h2"
    using entropy_nonneg [OF assms(1)] assms(2) by (meson finite_dist_values)
  obtain c where c: "clustering g host cap = Fin c" "0 \<le> c" "c \<le> 1" using clustering_unit by blast
  obtain r where r: "reciprocity g host = Fin r" "0 \<le> r" "r \<le> 1" using reciprocity_unit by blast
  let ?el = "filter (\<lambda>peer. Fin (of_int ef) \<le> out_degree pg peer) (successors g host)"
  have "\<exists>f. safe_div (fcount ?el) (fcount (successors g host)) = Fin f \<and> 0 \<le> f \<and> f \<le> 1"
    unfolding fcount_def by (rule safe_div_unit) simp_all
  then obtain f where f: "safe_div (fcount ?el) (fcount (successors g host)) = Fin f" "0 \<le> f" "f \<le> 1" by blast
  show ?thesis
    by (simp add: graph_features_def Let_def h c r f FEATURE_ORDER_def in_range_defs)
      (simp add: out_degree_def in_degree_def fcount_def)
qed

lemma traverse_named:
  "(\<And>x. x \<in> set xs \<Longrightarrow> \<exists>y. f x = Inr y \<and> fst y = fst x \<and> isfinite (snd y)) \<Longrightarrow>
   \<exists>ys. traverse_res f xs = Inr ys \<and> map fst ys = map fst xs \<and> finite_values ys"
proof (induction xs)
  case (Cons x xs)
  obtain y where "f x = Inr y" "fst y = fst x" "isfinite (snd y)" using Cons.prems [of x] by auto
  moreover obtain ys where "traverse_res f xs = Inr ys" "map fst ys = map fst xs" "finite_values ys"
    using Cons.IH Cons.prems by (metis list.set_intros(2))
  ultimately show ?case by (simp add: finite_values_def case_prod_unfold)
qed (simp add: finite_values_def)

lemma dict_update_append:
  "distinct (map fst e) \<Longrightarrow> fst ` set d \<inter> fst ` set e = {} \<Longrightarrow> dict_update d e = d @ e"
  by (rule dict_update_disjoint) (auto simp: wf_dict_def)

lemma dynamics_ok:
  assumes "set DYNAMIC_SOURCES \<subseteq> set (keys current)" "finite_values current" "list_all finite_values history"
  shows "\<exists>fs. dynamics current history = Inr fs \<and> map fst fs = take 10 (drop 34 FEATURE_ORDER) \<and>
    finite_values fs"
proof -
  have cur: "\<exists>c. dict_index current s = Inr c \<and> isfinite c" if "s \<in> set DYNAMIC_SOURCES" for s
  proof -
    from that assms(1) have "s \<in> fst ` set current" by auto
    then obtain c where c: "map_of current s = Some c" by (metis dom_map_of_conv_image_fst domD)
    then have "isfinite c" using assms(2) by (auto simp: finite_values_def list_all_iff dest: map_of_SomeD)
    with c show ?thesis by (simp add: dict_index_def)
  qed
  have hist: "isfinite (dict_get h s (Fin 0))" if "h \<in> set history" for h s
    using assms(3) that by (auto simp: list_all_iff finite_values_def dict_get_def dest!: map_of_SomeD split: option.splits)
  have "\<exists>ds. traverse_res (\<lambda>(feature, source).
        if history = [] then Inr (feature, Fin 0)
        else bind_res (dict_index current source) (\<lambda>c.
          Inr (feature, c - dict_get (last history) source (Fin 0)))) DELTA_FEATURES = Inr ds \<and>
      map fst ds = map fst DELTA_FEATURES \<and> finite_values ds"
  proof (rule traverse_named, clarify)
    fix f s assume "(f, s) \<in> set DELTA_FEATURES"
    then have "s \<in> set DYNAMIC_SOURCES" by (auto simp: DELTA_FEATURES_def)
    with cur obtain c where "dict_index current s = Inr c" "isfinite c" by blast
    then show "\<exists>y. (if history = [] then Inr (f, Fin 0)
        else bind_res (dict_index current s) (\<lambda>c. Inr (f, c - dict_get (last history) s (Fin 0)))) = Inr y \<and>
        fst y = fst (f, s) \<and> isfinite (snd y)"
      using hist [of "last history" s] by simp
  qed
  then obtain ds where ds: "traverse_res (\<lambda>(feature, source).
        if history = [] then Inr (feature, Fin 0)
        else bind_res (dict_index current source) (\<lambda>c.
          Inr (feature, c - dict_get (last history) source (Fin 0)))) DELTA_FEATURES = Inr ds"
    "map fst ds = map fst DELTA_FEATURES" "finite_values ds" by blast
  have "\<exists>ss. traverse_res (\<lambda>(feature, source). bind_res (dict_index current source) (\<lambda>c.
        Inr (feature, ols_slope (map (\<lambda>point. dict_get point source (Fin 0))
          (last_n (SLOPE_WINDOW - 1) history) @ [c])))) SLOPE_FEATURES = Inr ss \<and>
      map fst ss = map fst SLOPE_FEATURES \<and> finite_values ss"
  proof (rule traverse_named, clarify)
    fix f s assume "(f, s) \<in> set SLOPE_FEATURES"
    then have "s \<in> set DYNAMIC_SOURCES" by (auto simp: SLOPE_FEATURES_def DYNAMIC_SOURCES_def)
    with cur obtain c where "dict_index current s = Inr c" by blast
    then show "\<exists>y. bind_res (dict_index current s) (\<lambda>c.
        Inr (f, ols_slope (map (\<lambda>point. dict_get point s (Fin 0))
          (last_n (SLOPE_WINDOW - 1) history) @ [c]))) = Inr y \<and> fst y = fst (f, s) \<and> isfinite (snd y)"
      by (simp add: ols_slope_finite)
  qed
  then obtain ss where ss: "traverse_res (\<lambda>(feature, source). bind_res (dict_index current source) (\<lambda>c.
        Inr (feature, ols_slope (map (\<lambda>point. dict_get point source (Fin 0))
          (last_n (SLOPE_WINDOW - 1) history) @ [c])))) SLOPE_FEATURES = Inr ss"
    "map fst ss = map fst SLOPE_FEATURES" "finite_values ss" by blast
  have names: "map fst DELTA_FEATURES @ map fst SLOPE_FEATURES = take 10 (drop 34 FEATURE_ORDER)" by code_simp
  have names': "map fst (ds @ ss) = take 10 (drop 34 FEATURE_ORDER)"
    by (simp only: map_append ds(2) ss(2) names)
  then have "distinct (map fst (ds @ ss))" by (simp only: distinct_take distinct_drop distinct_FEATURE_ORDER)
  then have "dict_update (dict_update [] ds) ss = ds @ ss"
    by (auto simp: dict_update_append)
  moreover have "finite_values (ds @ ss)" using ds(3) ss(3) by (simp add: finite_values_def case_prod_unfold)
  moreover have "dynamics current history = Inr (dict_update (dict_update [] ds) ss)"
    by (simp only: dynamics_def ds(1) ss(1) bind_res_simps)
  ultimately show ?thesis using names' by simp
qed

lemma FEATURE_ORDER_parts:
  "take 15 FEATURE_ORDER @ take 11 (drop 15 FEATURE_ORDER) @ take 8 (drop 26 FEATURE_ORDER) @
   take 10 (drop 34 FEATURE_ORDER) @ [''is_active''] = FEATURE_ORDER"
  by code_simp

lemma sources_known: "set DYNAMIC_SOURCES \<subseteq> set (take 15 FEATURE_ORDER @
    take 11 (drop 15 FEATURE_ORDER) @ take 8 (drop 26 FEATURE_ORDER))"
  by code_simp

lemma dynamic_names_free: "n \<in> set (take 10 (drop 34 FEATURE_ORDER)) \<Longrightarrow>
    n \<notin> set NONNEGATIVE_FEATURES \<and> n \<notin> set FRACTION_FEATURES"
proof -
  have "list_all (\<lambda>n. n \<notin> set NONNEGATIVE_FEATURES \<and> n \<notin> set FRACTION_FEATURES)
      (take 10 (drop 34 FEATURE_ORDER))" by code_simp
  then show "n \<in> set (take 10 (drop 34 FEATURE_ORDER)) \<Longrightarrow>
    n \<notin> set NONNEGATIVE_FEATURES \<and> n \<notin> set FRACTION_FEATURES" unfolding list_all_iff by blast
qed

lemma in_range_finite: "list_all in_range d \<Longrightarrow> finite_values d"
  by (auto simp: finite_values_def in_range_def list_all_iff)

lemma compute_features_ok:
  assumes "pymath_laws M" "finite_acc F acc" "list_all finite_values history"
  shows "\<exists>fs. compute_features M F acc host g pg npc history ef cap = Inr fs \<and>
    map fst fs = FEATURE_ORDER \<and> list_all in_range fs"
proof -
  obtain f1 where f1: "flow_features F acc = Inr f1" "map fst f1 = take 15 FEATURE_ORDER" "list_all in_range f1"
    using flow_features_ok [OF assms(2)] by blast
  obtain f2 where f2: "packet_features M F acc = Inr f2" "map fst f2 = take 11 (drop 15 FEATURE_ORDER)"
    "list_all in_range f2" using packet_features_ok [OF assms(1,2)] by blast
  obtain f3 where f3: "graph_features M acc host g pg npc ef cap = Inr f3"
    "map fst f3 = take 8 (drop 26 FEATURE_ORDER)" "list_all in_range f3"
    using graph_features_ok [OF assms(1,2)] by blast
  have cur: "map fst (f1 @ f2 @ f3) = take 15 FEATURE_ORDER @ take 11 (drop 15 FEATURE_ORDER) @ take 8 (drop 26 FEATURE_ORDER)"
    by (simp only: map_append f1 f2 f3)
  have "set DYNAMIC_SOURCES \<subseteq> set (keys (f1 @ f2 @ f3))" unfolding cur by (rule sources_known)
  moreover have "finite_values (f1 @ f2 @ f3)" using f1 f2 f3 by (intro in_range_finite) simp
  ultimately obtain f4 where f4: "dynamics (f1 @ f2 @ f3) history = Inr f4"
    "map fst f4 = take 10 (drop 34 FEATURE_ORDER)" "finite_values f4" using dynamics_ok assms(3) by blast
  let ?act = "if Fin 0 < event_count acc then Fin 1 else Fin 0"
  let ?fs = "f1 @ f2 @ f3 @ f4 @ [(''is_active'', ?act)]"
  have names: "map fst ?fs = FEATURE_ORDER"
    using f1(2) f2(2) f3(2) f4(2) by (simp only: map_append list.map fst_conv FEATURE_ORDER_parts)
  have d: "distinct (map fst ?fs)" unfolding names by (rule distinct_FEATURE_ORDER)
  have u: "dict_update (dict_update (dict_update [] f1) f2) f3 = f1 @ f2 @ f3"
      "dict_set ''is_active'' ?act (dict_update (f1 @ f2 @ f3) f4) = ?fs"
    using d by (simp_all add: dict_update_append dict_set_fresh image_Un Int_Un_distrib Int_Un_distrib2)
  have r4: "list_all in_range f4"
  proof -
    have "in_range p" if p: "p \<in> set f4" for p
    proof -
      have "fst p \<in> set (take 10 (drop 34 FEATURE_ORDER))" unfolding f4(2) [symmetric] using p by simp
      from dynamic_names_free [OF this] have "fst p \<notin> set NONNEGATIVE_FEATURES" "fst p \<notin> set FRACTION_FEATURES"
        by blast+
      moreover have "isfinite (snd p)" using p f4(3) by (auto simp: finite_values_def list_all_iff)
      ultimately show ?thesis by (simp add: in_range_def case_prod_unfold)
    qed
    then show ?thesis by (simp add: list_all_iff)
  qed
  have range: "list_all in_range ?fs"
    using f1(3) f2(3) f3(3) r4 by (simp add: in_range_defs)
  then have fin: "list_all (\<lambda>(name, v). isfinite v) ?fs"
    using in_range_finite [OF range] by (simp only: finite_values_def)
  have ok: "validate_features ?fs = Inr ()" by (simp only: validate_features_def names) simp
  have "compute_features M F acc host g pg npc history ef cap = Inr ?fs"
    unfolding compute_features_def f1(1) f2(1) f3(1) bind_res_simps Let_def u f4(1) ok using fin by simp
  with names range show ?thesis by blast
qed


lemma finite_empty [simp]: "finite_acc F empty_accumulator"
  by (simp add: finite_acc_def empty_accumulator_def finite_values_def acc_dist_def dict_get_def
      DIST_PREFIXES_def dist_names)


text \<open>
  The dynamics look back two windows and no further: a longer history gives the same vector as
  its last two entries, so trimming the stored history to them loses nothing.
\<close>

lemma features_look_back_two_windows:
  "compute_features M F acc host graph previous_graph new_peers history fanout cap =
   compute_features M F acc host graph previous_graph new_peers (last_n 2 history) fanout cap"
proof -
  have l: "last (last_n 2 history) = last history" if "history \<noteq> []"
    using that by (simp add: last_n_def last_drop)
  have e: "last_n 2 history = [] \<longleftrightarrow> history = []" by (cases history) (simp_all add: last_n_def)
  have n: "last_n (SLOPE_WINDOW - 1) (last_n 2 history) = last_n (SLOPE_WINDOW - 1) history"
    by (rule last_n_last_n) (simp add: SLOPE_WINDOW_def)
  have "dynamics current history = dynamics current (last_n 2 history)" for current
  proof (cases "history = []")
    case False
    show ?thesis unfolding dynamics_def e n l [OF False] ..
  qed (simp add: last_n_def)
  then show ?thesis by (simp only: compute_features_def)
qed

end
