(* ===== verification/FeatState.thy ===== *)
theory FeatState
  imports Compute
begin

text \<open>
  \<open>services/features/state.py\<close>: the open window of every tenant, kept in Redis and nowhere else.
  Each function takes the server and its state; a function that writes returns the new state.
\<close>

section \<open>Constants and keys\<close>

definition WINDOW_TTL_S :: int where "WINDOW_TTL_S = 3600"
definition PEERS_TTL_S :: int where "PEERS_TTL_S = 24 * 3600"
definition EDGE_SEP :: char where "EDGE_SEP = CHR ''>''"
definition OPEN_WINDOW_FIELD :: string where "OPEN_WINDOW_FIELD = ''window_ts''"
definition OPEN_SEEN_FIELD :: string where "OPEN_SEEN_FIELD = ''last_seen''"
definition PREV_TS_FIELD :: string where "PREV_TS_FIELD = ''last_ts''"
definition PREV_HISTORY_FIELD :: string where "PREV_HISTORY_FIELD = ''history''"
definition HISTORY_LEN :: nat where "HISTORY_LEN = 3"

definition align :: "datetime \<Rightarrow> int \<Rightarrow> int" where
  "align ts window_delta = epoch_seconds (as_utc ts) div window_delta * window_delta"

definition window_start :: "int \<Rightarrow> datetime" where
  "window_start window_ts = utc_of_seconds window_ts"

definition open_key :: "string \<Rightarrow> string" where
  "open_key tenant_id = ''feat:open:'' @ tenant_id"

definition hosts_key :: "string \<Rightarrow> int \<Rightarrow> string" where
  "hosts_key tenant_id window_ts = ''feat:hosts:'' @ tenant_id @ '':'' @ int_str window_ts"

definition window_key :: "string \<Rightarrow> string \<Rightarrow> int \<Rightarrow> string" where
  "window_key tenant_id host window_ts = ''feat:win:'' @ tenant_id @ '':'' @ host @ '':'' @ int_str window_ts"

definition graph_key :: "string \<Rightarrow> int \<Rightarrow> string" where
  "graph_key tenant_id window_ts = ''feat:graph:'' @ tenant_id @ '':'' @ int_str window_ts"

definition peers_key :: "string \<Rightarrow> string \<Rightarrow> string" where
  "peers_key tenant_id host = ''feat:peers:'' @ tenant_id @ '':'' @ host"

definition prev_key :: "string \<Rightarrow> string \<Rightarrow> string" where
  "prev_key tenant_id host = ''feat:prev:'' @ tenant_id @ '':'' @ host"

definition edge_field :: "string \<Rightarrow> string \<Rightarrow> string" where
  "edge_field src dst = src @ EDGE_SEP # dst"

definition parse_edge :: "string \<Rightarrow> (string \<times> string) option" where
  "parse_edge field = (case partition_str EDGE_SEP field of (src, sep, dst) \<Rightarrow>
     if sep \<and> src \<noteq> [] \<and> dst \<noteq> [] then Some (src, dst) else None)"

lemmas key_defs = open_key_def hosts_key_def window_key_def graph_key_def peers_key_def prev_key_def

section \<open>Accumulation\<close>

text \<open>
  The \<open>HINCRBYFLOAT\<close>s of the pipeline. The server refuses an amount that is not a finite number;
  the rest of the pipeline still runs, and the client raises once it has.
\<close>

fun hincr_all :: "'s redis_ops \<Rightarrow> 's \<Rightarrow> string \<Rightarrow> (string, flt) dict \<Rightarrow> 's \<times> bool" where
  "hincr_all R s key [] = (s, True)"
| "hincr_all R s key ((f, amount) # incs) = (case amount of
     Fin x \<Rightarrow> hincr_all R (r_hincrbyfloat R s key f x) key incs
   | _ \<Rightarrow> (fst (hincr_all R s key incs), False))"

definition accumulate ::
    "pyconv \<Rightarrow> 's redis_ops \<Rightarrow> raw_event \<Rightarrow> int \<Rightarrow> flt \<Rightarrow> 's \<Rightarrow> unit res \<times> 's" where
  "accumulate C R ev window_ts now s =
     (case event_increments C ev of
        Inl e \<Rightarrow> (Inl e, s)
      | Inr incs \<Rightarrow>
          let tenant = ev_tenant ev; host = ev_src ev;
              win = window_key tenant host window_ts;
              graph = graph_key tenant window_ts;
              (s1, ok) = hincr_all R s win incs;
              s2 = r_expire R s1 win WINDOW_TTL_S;
              s3 = r_sadd R s2 (hosts_key tenant window_ts) [host];
              s4 = r_expire R s3 (hosts_key tenant window_ts) WINDOW_TTL_S;
              s5 = (if ev_dst ev \<noteq> []
                then r_expire R (r_hincrbyfloat R s4 graph (edge_field host (ev_dst ev)) 1) graph WINDOW_TTL_S
                else s4);
              s6 = r_hset R s5 (open_key tenant)
                [(OPEN_WINDOW_FIELD, int_str window_ts), (OPEN_SEEN_FIELD, c_repr C now)];
              s7 = r_expire R s6 (open_key tenant) WINDOW_TTL_S
          in (if ok then Inr () else Inl ResponseError, s7))"

definition read_open :: "pyconv \<Rightarrow> 's redis_ops \<Rightarrow> 's \<Rightarrow> string \<Rightarrow> (int \<times> flt) option res" where
  "read_open C R s tenant_id =
     (let flds = r_hgetall R s (open_key tenant_id) in
      if flds = [] then Inr None
      else case map_of flds OPEN_WINDOW_FIELD of
        None \<Rightarrow> Inr None
      | Some raw \<Rightarrow> bind_res (int_parse raw) (\<lambda>w.
          bind_res (case map_of flds OPEN_SEEN_FIELD of None \<Rightarrow> Inr (Fin 0) | Some v \<Rightarrow> c_float C v) (\<lambda>seen.
            Inr (Some (w, seen)))))"

definition open_tenants :: "'s redis_ops \<Rightarrow> 's \<Rightarrow> string list" where
  "open_tenants R s =
     (let prefix = open_key [] in sort (map (drop (length prefix)) (r_scan_prefix R s prefix)))"

definition clear_open :: "pyconv \<Rightarrow> 's redis_ops \<Rightarrow> string \<Rightarrow> int \<Rightarrow> 's \<Rightarrow> bool res \<times> 's" where
  "clear_open C R tenant_id window_ts s =
     (case read_open C R s tenant_id of
        Inl e \<Rightarrow> (Inl e, s)
      | Inr None \<Rightarrow> (Inr False, s)
      | Inr (Some (current, seen)) \<Rightarrow>
          if current \<noteq> window_ts then (Inr False, s)
          else (Inr True, r_delete R s [open_key tenant_id]))"

section \<open>Reading\<close>

definition read_hosts :: "'s redis_ops \<Rightarrow> 's \<Rightarrow> string \<Rightarrow> int \<Rightarrow> string list" where
  "read_hosts R s tenant_id window_ts = sort (r_smembers R s (hosts_key tenant_id window_ts))"

definition read_window :: "'s redis_ops \<Rightarrow> 's \<Rightarrow> string \<Rightarrow> string \<Rightarrow> int \<Rightarrow> (string, string) dict" where
  "read_window R s tenant_id host window_ts = r_hgetall R s (window_key tenant_id host window_ts)"

definition read_edges :: "'s redis_ops \<Rightarrow> 's \<Rightarrow> string \<Rightarrow> int \<Rightarrow> (string \<times> string) list" where
  "read_edges R s tenant_id window_ts =
     List.map_filter parse_edge (keys (r_hgetall R s (graph_key tenant_id window_ts)))"

definition read_history ::
    "pyconv \<Rightarrow> 's redis_ops \<Rightarrow> 's \<Rightarrow> string \<Rightarrow> string \<Rightarrow> (int option \<times> (string, flt) dict list) res" where
  "read_history C R s tenant_id host =
     (let flds = r_hgetall R s (prev_key tenant_id host);
          last_raw = dict_get flds PREV_TS_FIELD [];
          hist_raw = dict_get flds PREV_HISTORY_FIELD []
      in bind_res (if last_raw \<noteq> [] then bind_res (int_parse last_raw) (\<lambda>t. Inr (Some t)) else Inr None) (\<lambda>last_ts.
         bind_res (c_loads_hist C (if hist_raw \<noteq> [] then hist_raw else ''[]'')) (\<lambda>history.
           Inr (last_ts, history))))"

definition write_history ::
    "pyconv \<Rightarrow> 's redis_ops \<Rightarrow> 's \<Rightarrow> string \<Rightarrow> string \<Rightarrow> int \<Rightarrow> (string, flt) dict list \<Rightarrow> 's" where
  "write_history C R s tenant_id host last_ts history =
     (let key = prev_key tenant_id host in
      r_expire R (r_hset R s key
        [(PREV_TS_FIELD, int_str last_ts), (PREV_HISTORY_FIELD, c_dumps_hist C (last_n HISTORY_LEN history))])
        key PEERS_TTL_S)"

text \<open>\<open>peers\<close> is a set: a list without repetition.\<close>

definition record_peers :: "'s redis_ops \<Rightarrow> 's \<Rightarrow> string \<Rightarrow> string \<Rightarrow> string list \<Rightarrow> int \<times> 's" where
  "record_peers R s tenant_id host peers =
     (let key = peers_key tenant_id host in
      if peers = [] then (0, r_expire R s key PEERS_TTL_S)
      else let known = r_smembers R s key;
               new = filter (\<lambda>p. p \<notin> set known) peers
           in (int (length new), r_expire R (r_sadd R s key peers) key PEERS_TTL_S))"

definition discard_window :: "'s redis_ops \<Rightarrow> 's \<Rightarrow> string \<Rightarrow> int \<Rightarrow> string list \<Rightarrow> 's" where
  "discard_window R s tenant_id window_ts hosts =
     r_delete R s (map (\<lambda>host. window_key tenant_id host window_ts) hosts @ [hosts_key tenant_id window_ts])"

definition discard_graph :: "'s redis_ops \<Rightarrow> 's \<Rightarrow> string \<Rightarrow> int \<Rightarrow> 's" where
  "discard_graph R s tenant_id window_ts = r_delete R s [graph_key tenant_id window_ts]"

section \<open>Windows\<close>

text \<open>
  Windows are absolute: for a positive width, an event's window starts at a multiple of the
  width, the event's second lies inside it, and later events never align to an earlier window.
\<close>

lemma align_window:
  assumes "0 < d"
  shows "d dvd align ts d \<and> align ts d \<le> epoch_seconds (as_utc ts) \<and> epoch_seconds (as_utc ts) < align ts d + d \<and>
    align (window_start (align ts d)) d = align ts d \<and>
    (if as_utc ts \<le> as_utc ts' then align ts d \<le> align ts' d else align ts' d \<le> align ts d)"
proof -
  have mono: "align a d \<le> align b d" if "as_utc a \<le> as_utc b" for a b
    using epoch_seconds_mono [OF that] assms
    by (auto simp: align_def intro!: mult_right_mono zdiv_mono1)
  have "epoch_seconds (as_utc ts) div d * d + epoch_seconds (as_utc ts) mod d = epoch_seconds (as_utc ts)"
    by (rule div_mult_mod_eq)
  moreover have "0 \<le> epoch_seconds (as_utc ts) mod d" "epoch_seconds (as_utc ts) mod d < d"
    using assms by simp_all
  ultimately have "align ts d \<le> epoch_seconds (as_utc ts)" "epoch_seconds (as_utc ts) < align ts d + d"
    unfolding align_def by linarith+
  moreover have "align (window_start (align ts d)) d = align ts d"
    using assms by (simp add: align_def window_start_def)
  ultimately show ?thesis using mono [of ts ts'] mono [of ts' ts] by (simp add: align_def)
qed

lemma align_window_witness: "(60::int) dvd align (Naive 0) 60"
  using align_window [of 60 "Naive 0" "Naive 0"] by simp

section \<open>Keys do not collide\<close>

lemma prefix_colon:
  "CHR '':'' \<notin> set t \<Longrightarrow> CHR '':'' \<notin> set t' \<Longrightarrow>
   t @ CHR '':'' # a = t' @ CHR '':'' # b \<longleftrightarrow> t = t' \<and> a = b"
proof
  assume c: "CHR '':'' \<notin> set t" "CHR '':'' \<notin> set t'" and "t @ CHR '':'' # a = t' @ CHR '':'' # b"
  then have "partition_str (CHR '':'') (t @ CHR '':'' # a) = partition_str (CHR '':'') (t' @ CHR '':'' # b)" by simp
  with c show "t = t' \<and> a = b" by (simp add: partition_str_append)
qed simp

lemma suffix_colon:
  "CHR '':'' \<notin> set a \<Longrightarrow> CHR '':'' \<notin> set b \<Longrightarrow>
   t @ CHR '':'' # a = t' @ CHR '':'' # b \<longleftrightarrow> t = t' \<and> a = b"
proof
  assume c: "CHR '':'' \<notin> set a" "CHR '':'' \<notin> set b" and eq: "t @ CHR '':'' # a = t' @ CHR '':'' # b"
  have "rev (t @ CHR '':'' # a) = rev (t' @ CHR '':'' # b)" unfolding eq ..
  then have "rev a @ CHR '':'' # rev t = rev b @ CHR '':'' # rev t'" by simp
  with c prefix_colon [of "rev a" "rev b" "rev t" "rev t'"] show "t = t' \<and> a = b" by simp
qed simp

lemma int_str_no_colon [simp]: "CHR '':'' \<notin> set (int_str i)"
  using int_str_chars [of "CHR '':''" i] by (auto simp: is_digit_def)

lemma window_key_inj [simp]: "window_key t h w = window_key t h' w' \<longleftrightarrow> h = h' \<and> w = w'"
  using suffix_colon [of "int_str w" "int_str w'" h h'] by (simp add: window_key_def)

lemma graph_hosts_inj [simp]:
  "graph_key t w = graph_key t w' \<longleftrightarrow> w = w'" "hosts_key t w = hosts_key t w' \<longleftrightarrow> w = w'"
  by (simp_all add: key_defs)

lemma host_keys_inj [simp]:
  "peers_key t h = peers_key t h' \<longleftrightarrow> h = h'" "prev_key t h = prev_key t h' \<longleftrightarrow> h = h'"
  "open_key t = open_key t' \<longleftrightarrow> t = t'"
  by (simp_all add: key_defs)

lemma key_kinds [simp]:
  "open_key a \<noteq> hosts_key b w" "open_key a \<noteq> window_key b h w" "open_key a \<noteq> graph_key b w"
  "open_key a \<noteq> peers_key b h" "open_key a \<noteq> prev_key b h" "hosts_key b w \<noteq> window_key c h w'"
  "hosts_key b w \<noteq> graph_key c w'" "hosts_key b w \<noteq> peers_key c h" "hosts_key b w \<noteq> prev_key c h"
  "window_key b h w \<noteq> graph_key c w'" "window_key b h w \<noteq> peers_key c h'" "window_key b h w \<noteq> prev_key c h'"
  "graph_key b w \<noteq> peers_key c h" "graph_key b w \<noteq> prev_key c h" "peers_key b h \<noteq> prev_key c h'"
  by (simp_all add: key_defs)

lemmas key_kinds_sym [simp] = key_kinds [symmetric]

text \<open>An edge reads back as its endpoints: addresses never contain the separator.\<close>

lemma parse_edge_field:
  "EDGE_SEP \<notin> set src \<Longrightarrow> src \<noteq> [] \<Longrightarrow> dst \<noteq> [] \<Longrightarrow> parse_edge (edge_field src dst) = Some (src, dst)"
  by (simp add: parse_edge_def edge_field_def partition_str_append)

section \<open>What an event contributes\<close>

lemma finite_bump: "finite_values inc \<Longrightarrow> isfinite x \<Longrightarrow> finite_values (bump inc k x)"
proof -
  assume fin: "finite_values inc" "isfinite x"
  have "isfinite (dict_get inc k (Fin 0))"
    using fin(1) by (auto simp: dict_get_def finite_values_def list_all_iff dest!: map_of_SomeD split: option.splits)
  moreover have "set (dict_set k v d) \<subseteq> insert (k, v) (set d)" for v and d :: "(string, flt) dict"
    unfolding dict_set_def by (induction d) auto
  ultimately show "finite_values (bump inc k x)"
    using fin unfolding finite_values_def bump_def list_all_iff by (fastforce dest!: subsetD)
qed

lemma bumps_ok: "list_all (isfinite \<circ> snd) bs \<Longrightarrow> finite_values inc \<Longrightarrow> wf_dict inc \<Longrightarrow>
    finite_values (bumps bs inc) \<and> wf_dict (bumps bs inc)"
proof (induction bs inc rule: bumps.induct)
  case (2 k x ks inc)
  have "finite_values (bump inc k x)" "wf_dict (bump inc k x)"
    using 2 finite_bump [of inc x k] by (auto simp: bump_def)
  with 2 show ?case by simp
qed simp

lemma when_field_ok:
  assumes "finite_values flds" "\<And>x. isfinite x \<Longrightarrow> \<exists>bs. body x = Inr bs \<and> list_all (isfinite \<circ> snd) bs"
  shows "\<exists>bs. when_field flds k body = Inr bs \<and> list_all (isfinite \<circ> snd) bs"
proof (cases "map_of flds k")
  case (Some x)
  then have "isfinite x" using assms(1) by (auto simp: finite_values_def list_all_iff dest: map_of_SomeD)
  with Some assms(2) show ?thesis by (simp add: when_field_def)
qed (simp add: when_field_def)

lemma event_fields_finite: "event_ok ev \<Longrightarrow> finite_values (ev_fields ev)"
  by (auto simp: event_ok_def finite_values_def list_all_iff)

lemma event_increments_ok:
  assumes ok: "event_ok ev"
  shows "\<exists>incs. event_increments C ev = Inr incs \<and> finite_values incs \<and> wf_dict incs"
proof -
  note fin = event_ok_field [OF ok]
  note flds = event_fields_finite [OF ok]
  have ends: "list_all (isfinite \<circ> snd) (endpoint_bumps ev)"
    by (simp add: endpoint_bumps_def split: option.splits)
  have built: "\<exists>incs. Inr (bumps (endpoint_bumps ev @ bs) []) = Inr incs \<and> finite_values incs \<and> wf_dict incs"
    if "list_all (isfinite \<circ> snd) bs" for bs
    using bumps_ok [of "endpoint_bumps ev @ bs" "[]"] ends that by (simp add: finite_values_def)
  show ?thesis
  proof (cases "ev_kind ev")
    case Flow
    have "list_all (isfinite \<circ> snd) (flow_bumps C (ev_fields ev))"
      using fin by (auto simp: flow_bumps_def Let_def list_all_iff)
    from built [OF this] Flow show ?thesis by (simp add: event_increments_def)
  next
    case Packet
    have f: "\<exists>i. fint x = Inr i" if "isfinite x" for x using that by (cases x) simp_all
    obtain flags where flags: "fint (dict_get (ev_fields ev) ''tcp_flags'' (Fin 0)) = Inr flags"
      using f [OF fin [of "Fin 0" "''tcp_flags''"]] by auto
    obtain ttl where ttl: "when_field (ev_fields ev) ''ttl'' (\<lambda>ttl. Inr
       [(''n_ttl'', Fin 1), (''ttl_sum'', ttl), (''ttl_sq'', ttl * ttl)]) = Inr ttl" "list_all (isfinite \<circ> snd) ttl"
      using when_field_ok [OF flds, of "\<lambda>ttl. Inr [(''n_ttl'', Fin 1), (''ttl_sum'', ttl), (''ttl_sq'', ttl * ttl)]" "''ttl''"]
      by auto
    obtain win where win: "when_field (ev_fields ev) ''tcp_window'' (\<lambda>w. bind_res (fint w) (\<lambda>i. Inr
       [(''n_tcp_window'', Fin 1), (''tcp_window_sum'', w),
        (dist_field DIST_TCP_WINDOW (int_str i), Fin 1)])) = Inr win" "list_all (isfinite \<circ> snd) win"
    proof -
      have "\<exists>bs. when_field (ev_fields ev) ''tcp_window'' (\<lambda>w. bind_res (fint w) (\<lambda>i. Inr
       [(''n_tcp_window'', Fin 1), (''tcp_window_sum'', w),
        (dist_field DIST_TCP_WINDOW (int_str i), Fin 1)])) = Inr bs \<and> list_all (isfinite \<circ> snd) bs"
        by (rule when_field_ok [OF flds]) (use f in fastforce)
      with that show ?thesis by blast
    qed
    obtain pay where pay: "when_field (ev_fields ev) ''tcp_len'' (\<lambda>p. bind_res (fint p) (\<lambda>i. Inr
       [(''n_payload'', Fin 1), (''payload_sum'', p), (''payload_sq'', p * p),
        (dist_field DIST_PAYLOAD (int_str i), Fin 1)])) = Inr pay" "list_all (isfinite \<circ> snd) pay"
    proof -
      have "\<exists>bs. when_field (ev_fields ev) ''tcp_len'' (\<lambda>p. bind_res (fint p) (\<lambda>i. Inr
       [(''n_payload'', Fin 1), (''payload_sum'', p), (''payload_sq'', p * p),
        (dist_field DIST_PAYLOAD (int_str i), Fin 1)])) = Inr bs \<and> list_all (isfinite \<circ> snd) bs"
        by (rule when_field_ok [OF flds]) (use f in fastforce)
      with that show ?thesis by blast
    qed
    have "\<exists>bs. packet_bumps (ev_fields ev) = Inr bs \<and> list_all (isfinite \<circ> snd) bs"
      using ttl(2) win(2) pay(2) fin [of "Fin 0" "''frame_len''"]
      unfolding packet_bumps_def flags ttl(1) win(1) pay(1) bind_res_simps by (auto simp: list_all_iff)
    then obtain bs where "packet_bumps (ev_fields ev) = Inr bs" "list_all (isfinite \<circ> snd) bs" by blast
    with built [of bs] Packet show ?thesis by (simp add: event_increments_def)
  qed
qed

definition amount :: "pyconv \<Rightarrow> raw_event \<Rightarrow> string \<Rightarrow> rat" where
  "amount C ev f = (case event_increments C ev of
     Inr incs \<Rightarrow> (case dict_get incs f (Fin 0) of Fin x \<Rightarrow> x | _ \<Rightarrow> 0)
   | Inl e \<Rightarrow> 0)"

context redis_laws
begin

lemma hincr_all_ok:
  assumes "finite_values incs" "wf_dict incs"
  shows "snd (hincr_all R s key incs)" "k \<noteq> key \<Longrightarrow> r_view R (fst (hincr_all R s key incs)) k = r_view R s k"
    "hash_num F (r_hgetall R s key) f = Inr (Fin r) \<Longrightarrow>
     hash_num F (r_hgetall R (fst (hincr_all R s key incs)) key) f =
       Inr (Fin (r + (case dict_get incs f (Fin 0) of Fin x \<Rightarrow> x | _ \<Rightarrow> 0)))"
  using assms
proof (induction incs arbitrary: s r)
  case (Cons p incs)
  {
    case 1
    then show ?case using Cons.IH(1) by (cases p; cases "snd p") (auto simp: finite_values_def wf_dict_def)
  next
    case 2
    then show ?case using Cons.IH(2)
      by (cases p; cases "snd p") (auto simp: finite_values_def wf_dict_def hincr_frame)
  next
    case 3
    obtain g x where p: "p = (g, Fin x)" using 3 by (cases p; cases "snd p") (auto simp: finite_values_def)
    have wf: "finite_values incs" "wf_dict incs" "g \<notin> fst ` set incs"
      using 3 by (auto simp: finite_values_def wf_dict_def p)
    let ?s = "r_hincrbyfloat R s key g x"
    show ?case
    proof (cases "f = g")
      case True
      have "hash_num F (r_hgetall R ?s key) g = Inr (Fin (r + x))"
        using hincr_same [of s key g r x] 3 True by simp
      moreover have "map_of incs g = None" using wf(3) by (simp add: map_of_eq_None_iff)
      ultimately show ?thesis using Cons.IH(3) [of ?s "r + x"] True wf by (simp add: p dict_get_def)
    next
      case False
      have "hash_num F (r_hgetall R ?s key) f = Inr (Fin r)"
        using hincr_other [OF False, of s key x] 3 by (simp add: hash_num_def)
      then show ?thesis using Cons.IH(3) [of ?s r] False wf by (simp add: p dict_get_def)
    qed
  }
qed (simp_all add: dict_get_def)

end

context backing
begin

lemma accumulate_run:
  assumes "event_ok ev"
  obtains incs where "event_increments C ev = Inr incs" "finite_values incs" "wf_dict incs"
    "fst (accumulate C R ev w now s) = Inr ()"
  using event_increments_ok [OF assms, of C] hincr_all_ok(1)
  by (fastforce simp: accumulate_def Let_def case_prod_unfold)

lemma accumulate_frame:
  assumes "event_ok ev" "k \<noteq> window_key (ev_tenant ev) (ev_src ev) w" "k \<noteq> hosts_key (ev_tenant ev) w"
    "k \<noteq> graph_key (ev_tenant ev) w" "k \<noteq> open_key (ev_tenant ev)"
  shows "r_view R (snd (accumulate C R ev w now s)) k = r_view R s k"
proof -
  obtain incs where i: "event_increments C ev = Inr incs" "finite_values incs" "wf_dict incs"
    using accumulate_run [OF assms(1)] by blast
  show ?thesis using assms hincr_all_ok(2) [OF i(2,3)]
    by (simp add: accumulate_def i Let_def case_prod_unfold frames)
qed

lemma accumulate_window:
  assumes "event_ok ev"
  shows "r_hgetall R (snd (accumulate C R ev w now s)) (window_key (ev_tenant ev) (ev_src ev) w) =
    r_hgetall R (fst (hincr_all R s (window_key (ev_tenant ev) (ev_src ev) w)
      (case event_increments C ev of Inr incs \<Rightarrow> incs | Inl e \<Rightarrow> []))) (window_key (ev_tenant ev) (ev_src ev) w)"
proof -
  obtain incs where i: "event_increments C ev = Inr incs" "finite_values incs" "wf_dict incs"
    using accumulate_run [OF assms] by blast
  show ?thesis
    by (rule view_hgetall) (simp add: accumulate_def i Let_def case_prod_unfold frames)
qed

lemma accumulate_num:
  assumes "event_ok ev" "hash_num (c_float C) (r_hgetall R s (window_key (ev_tenant ev) h w')) f = Inr (Fin r)"
  shows "hash_num (c_float C) (r_hgetall R (snd (accumulate C R ev w now s)) (window_key (ev_tenant ev) h w')) f =
    Inr (Fin (r + (if h = ev_src ev \<and> w' = w then amount C ev f else 0)))"
proof (cases "h = ev_src ev \<and> w' = w")
  case True
  obtain incs where i: "event_increments C ev = Inr incs" "finite_values incs" "wf_dict incs"
    using accumulate_run [OF assms(1)] by blast
  show ?thesis using hincr_all_ok(3) [OF i(2,3) assms(2)] True
    by (simp add: accumulate_window [OF assms(1)] i(1) amount_def)
next
  case False
  then have "r_view R (snd (accumulate C R ev w now s)) (window_key (ev_tenant ev) h w') =
      r_view R s (window_key (ev_tenant ev) h w')"
    by (intro accumulate_frame [OF assms(1)]) auto
  then show ?thesis using assms(2) False by (auto dest: view_hgetall)
qed

end

text \<open>A run of the event path without window closes: events, each with its window and arrival time.\<close>

fun accumulate_all ::
    "pyconv \<Rightarrow> 's redis_ops \<Rightarrow> (raw_event \<times> int \<times> flt) list \<Rightarrow> 's \<Rightarrow> 's" where
  "accumulate_all C R [] s = s"
| "accumulate_all C R ((ev, w, now) # evs) s = accumulate_all C R evs (snd (accumulate C R ev w now s))"

lemma accumulate_all_num:
  assumes "backing C R" "list_all (\<lambda>(ev, w, now). event_ok ev \<and> ev_tenant ev = T) evs"
    and "hash_num (c_float C) (r_hgetall R s (window_key T h w)) f = Inr (Fin r)"
  shows "hash_num (c_float C) (r_hgetall R (accumulate_all C R evs s) (window_key T h w)) f =
    Inr (Fin (r + sum_list (map (\<lambda>(ev, w', now). if ev_src ev = h \<and> w' = w then amount C ev f else 0) evs)))"
  using assms(2,3)
proof (induction evs arbitrary: s r)
  case (Cons e evs)
  obtain ev w' now where e: "e = (ev, w', now)" by (cases e)
  have "hash_num (c_float C) (r_hgetall R (snd (accumulate C R ev w' now s)) (window_key T h w)) f =
      Inr (Fin (r + (if ev_src ev = h \<and> w' = w then amount C ev f else 0)))"
    using backing.accumulate_num [OF assms(1), of ev s h w f r w' now] Cons.prems by (auto simp: e)
  with Cons show ?case by (simp add: e add.assoc)
qed simp

text \<open>
  A window's counters are the sums of what its events contributed, whatever the order and
  whatever else arrives between them: after any valid events of a tenant, each numeric field of a
  host's window has grown by the sum of that field over the events the host sent in that window,
  and by nothing else.
\<close>

lemma window_counters_are_sums:
  assumes "backing C R" "list_all (\<lambda>(ev, w', now). event_ok ev \<and> ev_tenant ev = T) evs"
    and "hash_num (c_float C) (r_hgetall R s (window_key T h w)) f = Inr (Fin r)"
  shows "hash_num (c_float C) (r_hgetall R (accumulate_all C R evs s) (window_key T h w)) f =
    Inr (Fin (r + sum_list (map (\<lambda>(ev, w', now). if ev_src ev = h \<and> w' = w then amount C ev f else 0) evs)))"
  by (rule accumulate_all_num [OF assms])

definition demo_event :: raw_event where
  "demo_event = \<lparr>ev_tenant = ''5'', ev_job = ''j'', ev_kind = Packet, ev_ts = Aware 61000000, ev_src = ''a'',
     ev_dst = ''b'', ev_sport = None, ev_dport = Some 80, ev_proto = Some 6,
     ev_fields = [(''frame_len'', Fin 60), (''tcp_flags'', Fin 2)], ev_label = None\<rparr>"

lemma demo_event_ok [simp]: "event_ok demo_event"
  by (simp add: event_ok_def demo_event_def PACKET_FIELDS_def)

lemma mem_hash_empty [simp]: "hash_num F [] f = Inr (Fin 0)"
  by (simp add: hash_num_def)

lemma window_counters_are_sums_witness:
  "\<exists>r. hash_num (c_float std_conv) (r_hgetall std_redis (accumulate_all std_conv std_redis
      [(demo_event, 60, Fin 0), (demo_event, 60, Fin 1)] []) (window_key ''5'' ''a'' 60)) ''bytes_up'' = Inr (Fin r)
    \<and> r = amount std_conv demo_event ''bytes_up'' + amount std_conv demo_event ''bytes_up''"
  using window_counters_are_sums [OF std.backing_axioms, of "''5''" "[(demo_event, 60, Fin 0), (demo_event, 60, Fin 1)]"
      "[]" "''a''" 60 "''bytes_up''" 0]
  by (simp add: demo_event_def [THEN arg_cong [where f = ev_tenant]] demo_event_def [THEN arg_cong [where f = ev_src]])

end
