(* ===== verification/FeatStore.thy ===== *)
theory FeatStore
  imports PyConv Schema "HOL-Library.Multiset"
begin

text \<open>
  \<open>services/features/store.py\<close>: the durable copy of every published state vector. The table is a
  list of rows under the unique key \<open>(tenant_id, host_id, window_ts)\<close> of
  \<open>migrations/versions/0002_state_vectors.py\<close>. A row holds the features as the dictionary they
  were: JSONB is taken to give back the dictionary that was put in.
\<close>

record state_row =
  vr_tenant :: uuid
  vr_host :: string
  vr_ts :: int
  vr_features :: "(string, flt) dict"
  vr_schema :: string

definition row_key :: "state_row \<Rightarrow> uuid \<times> string \<times> int" where
  "row_key r = (vr_tenant r, vr_host r, vr_ts r)"

definition INSERT_STATE_VECTOR :: "state_row list \<Rightarrow> state_row \<Rightarrow> bool \<times> state_row list" where
  "INSERT_STATE_VECTOR rows r = (if row_key r \<in> row_key ` set rows then (False, rows) else (True, rows @ [r]))"

text \<open>The inner query newest first and limited, the outer one oldest first.\<close>

definition SELECT_CONTEXT :: "state_row list \<Rightarrow> uuid \<Rightarrow> string \<Rightarrow> int \<Rightarrow> nat \<Rightarrow> state_row list" where
  "SELECT_CONTEXT rows tenant host until_ts limit =
     sort_key vr_ts (take limit (rev (sort_key vr_ts
       (filter (\<lambda>r. vr_tenant r = tenant \<and> vr_host r = host \<and> vr_ts r \<le> until_ts) rows))))"

definition vector_tenant_uuid :: "pyconv \<Rightarrow> string \<Rightarrow> uuid res" where
  "vector_tenant_uuid C tenant_id = (case c_uuid C tenant_id of Inl ValueError \<Rightarrow> Inl ValueError | other \<Rightarrow> other)"

definition save_in :: "pyconv \<Rightarrow> state_row list \<Rightarrow> state_vector \<Rightarrow> (bool \<times> state_row list) res" where
  "save_in C rows v =
     bind_res (vector_tenant_uuid C (sv_tenant v)) (\<lambda>tenant. Inr (INSERT_STATE_VECTOR rows
       \<lparr>vr_tenant = tenant, vr_host = sv_host v, vr_ts = as_utc (sv_ts v),
        vr_features = sv_features v, vr_schema = sv_schema v\<rparr>))"

text \<open>\<open>save\<close> commits what \<open>save_in\<close> did, or nothing when it raised.\<close>

definition save :: "pyconv \<Rightarrow> state_row list \<Rightarrow> state_vector \<Rightarrow> (bool \<times> state_row list) res" where
  "save C rows v = save_in C rows v"

definition row_vector :: "pyconv \<Rightarrow> uuid \<Rightarrow> state_row \<Rightarrow> state_vector res" where
  "row_vector C tenant r = validate_state_vector
     \<lparr>sv_tenant = c_uuid_str C tenant, sv_host = vr_host r, sv_ts = Aware (vr_ts r),
      sv_features = vr_features r,
      sv_schema = (if vr_schema r = [] then SCHEMA_VERSION else vr_schema r)\<rparr>"

definition load_context ::
    "pyconv \<Rightarrow> state_row list \<Rightarrow> uuid \<Rightarrow> string \<Rightarrow> datetime \<Rightarrow> nat \<Rightarrow> state_vector list res" where
  "load_context C rows tenant host until_dt limit =
     traverse_res (row_vector C tenant) (SELECT_CONTEXT rows tenant host (as_utc until_dt) limit)"

section \<open>What the store promises\<close>

definition rows_ok :: "state_row list \<Rightarrow> bool" where
  "rows_ok rows \<longleftrightarrow> distinct (map row_key rows) \<and> (\<forall>r \<in> set rows. set (keys (vr_features r)) = set FEATURE_ORDER)"

lemma sort_take_rev: "sort_key f (take n (rev (sort_key f xs))) = last_n n (sort_key f (xs :: 'a list))"
  if "distinct (map f xs)" for f :: "'a \<Rightarrow> int"
proof -
  let ?s = "sort_key f xs"
  have l: "take n (rev ?s) = rev (last_n n ?s)"
    by (simp add: last_n_def take_rev)
  have d: "distinct (map f (last_n n ?s))"
    using that by (simp add: last_n_def drop_map [symmetric] distinct_map)
  have s: "sorted (map f (last_n n ?s))"
    by (simp add: last_n_def drop_map [symmetric] sorted_wrt_drop)
  have "sort_key f (rev ys) = ys" if "sorted (map f ys)" "distinct (map f ys)" for ys :: "'a list"
    by (rule sort_key_inj_key_eq) (use that in \<open>simp_all add: distinct_map\<close>)
  from this [OF s d] show ?thesis unfolding l .
qed

lemma INSERT_rows_ok:
  assumes "rows_ok rows" "set (keys (vr_features r)) = set FEATURE_ORDER"
  shows "rows_ok (snd (INSERT_STATE_VECTOR rows r))"
  using assms by (auto simp: INSERT_STATE_VECTOR_def rows_ok_def)

text \<open>The rows of one host up to an instant: their timestamps are distinct, since the key is.\<close>

definition host_rows :: "state_row list \<Rightarrow> uuid \<Rightarrow> string \<Rightarrow> int \<Rightarrow> state_row list" where
  "host_rows rows tenant host until_ts =
     sort_key vr_ts (filter (\<lambda>r. vr_tenant r = tenant \<and> vr_host r = host \<and> vr_ts r \<le> until_ts) rows)"

lemma host_rows_sorted: "rows_ok rows \<Longrightarrow> sorted_wrt (<) (map vr_ts (host_rows rows tenant host u))"
proof -
  assume ok: "rows_ok rows"
  have "inj_on vr_ts {r \<in> set rows. vr_tenant r = tenant \<and> vr_host r = host \<and> vr_ts r \<le> u}"
    using ok by (auto simp: rows_ok_def distinct_map row_key_def inj_on_def)
  then have "distinct (map vr_ts (host_rows rows tenant host u))"
    using ok by (auto simp: host_rows_def distinct_map rows_ok_def)
  then show ?thesis by (simp add: strict_sorted_iff host_rows_def)
qed

lemma SELECT_CONTEXT_eq:
  assumes "rows_ok rows"
  shows "SELECT_CONTEXT rows tenant host u limit = last_n limit (host_rows rows tenant host u)"
  unfolding SELECT_CONTEXT_def host_rows_def
proof (rule sort_take_rev)
  have "distinct (map vr_ts (host_rows rows tenant host u))"
    using host_rows_sorted [OF assms] strict_sorted_iff by blast
  then show "distinct (map vr_ts (filter (\<lambda>r. vr_tenant r = tenant \<and> vr_host r = host \<and> vr_ts r \<le> u) rows))"
    by (simp add: host_rows_def distinct_map)
qed

lemma row_vector_ok: "set (keys (vr_features r)) = set FEATURE_ORDER \<Longrightarrow> \<exists>v. row_vector C tenant r = Inr v \<and>
    sv_host v = vr_host r \<and> sv_ts v = Aware (vr_ts r) \<and> sv_features v = vr_features r \<and> sv_tenant v = c_uuid_str C tenant"
  by (simp add: row_vector_def validate_state_vector_def)

lemma load_context_eq:
  assumes "rows_ok rows"
  shows "\<exists>vs. load_context C rows tenant host d limit = Inr vs \<and>
    list_all2 (\<lambda>r v. sv_tenant v = c_uuid_str C tenant \<and> sv_host v = vr_host r \<and> sv_ts v = Aware (vr_ts r) \<and>
      sv_features v = vr_features r) (last_n limit (host_rows rows tenant host (as_utc d))) vs"
proof -
  let ?rs = "last_n limit (host_rows rows tenant host (as_utc d))"
  have sub: "set ?rs \<subseteq> set rows"
    using last_n_set [of limit "host_rows rows tenant host (as_utc d)"] by (auto simp: host_rows_def)
  have "\<exists>vs. traverse_res (row_vector C tenant) rs = Inr vs \<and>
    list_all2 (\<lambda>r v. sv_tenant v = c_uuid_str C tenant \<and> sv_host v = vr_host r \<and> sv_ts v = Aware (vr_ts r) \<and>
      sv_features v = vr_features r) rs vs" if "set rs \<subseteq> set rows" for rs
    using that
  proof (induction rs)
    case (Cons r rs)
    have "set (keys (vr_features r)) = set FEATURE_ORDER" using assms Cons.prems by (simp add: rows_ok_def)
    from row_vector_ok [OF this] obtain v where "row_vector C tenant r = Inr v" "sv_host v = vr_host r"
      "sv_ts v = Aware (vr_ts r)" "sv_features v = vr_features r" "sv_tenant v = c_uuid_str C tenant" by blast
    with Cons show ?case by auto
  qed simp
  from this [OF sub] show ?thesis by (simp add: load_context_def SELECT_CONTEXT_eq [OF assms])
qed

text \<open>
  A forecast is explained from the windows it was made from and nothing later: the context
  loaded for a host up to an instant is the newest \<open>limit\<close> stored windows of that tenant and host at or
  before the instant, oldest first and strictly increasing, with the stored features; no row of
  another tenant or host, and no later window, is in it.
\<close>

lemma load_context_exact:
  assumes "rows_ok rows"
  shows "\<exists>vs. load_context C rows tenant host d limit = Inr vs \<and>
    map (as_utc \<circ> sv_ts) vs = last_n limit (map vr_ts (host_rows rows tenant host (as_utc d))) \<and>
    sorted_wrt (<) (map (as_utc \<circ> sv_ts) vs) \<and>
    list_all (\<lambda>v. as_utc (sv_ts v) \<le> as_utc d \<and> (\<exists>r \<in> set rows. vr_tenant r = tenant \<and> vr_host r = host \<and>
      vr_ts r = as_utc (sv_ts v) \<and> vr_features r = sv_features v)) vs"
proof -
  let ?rs = "last_n limit (host_rows rows tenant host (as_utc d))"
  obtain vs where vs: "load_context C rows tenant host d limit = Inr vs"
    "list_all2 (\<lambda>r v. sv_tenant v = c_uuid_str C tenant \<and> sv_host v = vr_host r \<and> sv_ts v = Aware (vr_ts r) \<and>
      sv_features v = vr_features r) ?rs vs" using load_context_eq [OF assms] by blast
  have ts: "map (as_utc \<circ> sv_ts) vs = map vr_ts ?rs"
    using vs(2) by (induction rule: list_all2_induct) simp_all
  have "sorted_wrt (<) (map vr_ts ?rs)"
    unfolding last_n_def drop_map [symmetric] by (rule sorted_wrt_drop, rule host_rows_sorted [OF assms])
  moreover have sub: "set ?rs \<subseteq> set (host_rows rows tenant host (as_utc d))" by (rule last_n_set)
  then have "\<forall>r \<in> set ?rs. r \<in> set rows \<and> vr_tenant r = tenant \<and> vr_host r = host \<and> vr_ts r \<le> as_utc d"
    by (auto simp: host_rows_def)
  with vs(2) have "list_all (\<lambda>v. as_utc (sv_ts v) \<le> as_utc d \<and> (\<exists>r \<in> set rows. vr_tenant r = tenant \<and> vr_host r = host \<and>
      vr_ts r = as_utc (sv_ts v) \<and> vr_features r = sv_features v)) vs"
  proof (induction rule: list_all2_induct)
    case (Cons r rs v vs)
    from Cons.prems have r: "r \<in> set rows" "vr_tenant r = tenant" "vr_host r = host" "vr_ts r \<le> as_utc d" by simp_all
    from Cons.hyps have v: "as_utc (sv_ts v) = vr_ts r" "sv_features v = vr_features r" by simp_all
    have "as_utc (sv_ts v) \<le> as_utc d \<and> (\<exists>r \<in> set rows. vr_tenant r = tenant \<and> vr_host r = host \<and>
      vr_ts r = as_utc (sv_ts v) \<and> vr_features r = sv_features v)"
      unfolding v using r by blast
    moreover have "list_all (\<lambda>v. as_utc (sv_ts v) \<le> as_utc d \<and> (\<exists>r \<in> set rows. vr_tenant r = tenant \<and>
      vr_host r = host \<and> vr_ts r = as_utc (sv_ts v) \<and> vr_features r = sv_features v)) vs"
      by (rule Cons.IH) (use Cons.prems in simp)
    ultimately show ?case by (simp only: list.pred_inject simp_thms)
  qed simp
  ultimately show ?thesis using vs(1) ts by (auto simp: last_n_def drop_map)
qed

lemma load_context_exact_witness:
  "\<exists>vs. load_context std_conv [] 5 ''h'' (Aware 9) 3 = Inr vs \<and> sorted_wrt (<) (map (as_utc \<circ> sv_ts) vs)"
  using load_context_exact [of "[]" std_conv 5 "''h''" "Aware 9" 3] by (auto simp: rows_ok_def)

end
