(* ===== verification/Action.thy ===== *)
theory Action
  imports Prelude
begin

text \<open>
  Statements that change a world and may raise. An exception does not undo the changes made before
  it, so an action returns the world in both cases.
\<close>

named_theorems act_simps \<open>running an action\<close>

type_synonym ('w, 'a) act = "'w \<Rightarrow> 'a res \<times> 'w"

definition ret :: "'a \<Rightarrow> ('w, 'a) act" where
  "ret x = (\<lambda>w. (Inr x, w))"

definition lift_res :: "'a res \<Rightarrow> ('w, 'a) act" where
  "lift_res r = (\<lambda>w. (r, w))"

definition reads :: "('w \<Rightarrow> 'a) \<Rightarrow> ('w, 'a) act" where
  "reads f = (\<lambda>w. (Inr (f w), w))"

definition reads_res :: "('w \<Rightarrow> 'a res) \<Rightarrow> ('w, 'a) act" where
  "reads_res f = (\<lambda>w. (f w, w))"

definition updates :: "('w \<Rightarrow> 'w) \<Rightarrow> ('w, unit) act" where
  "updates f = (\<lambda>w. (Inr (), f w))"

definition abind :: "('w, 'a) act \<Rightarrow> ('a \<Rightarrow> ('w, 'b) act) \<Rightarrow> ('w, 'b) act" where
  "abind m f = (\<lambda>w. case m w of (Inl e, w') \<Rightarrow> (Inl e, w') | (Inr x, w') \<Rightarrow> f x w')"

text \<open>A \<open>for\<close> loop that collects its results.\<close>

fun aeach :: "('x \<Rightarrow> ('w, 'y) act) \<Rightarrow> 'x list \<Rightarrow> ('w, 'y list) act" where
  "aeach f [] = ret []"
| "aeach f (x # xs) = abind (f x) (\<lambda>y. abind (aeach f xs) (\<lambda>ys. ret (y # ys)))"

lemma act_run [act_simps]:
  "ret x w = (Inr x, w)" "lift_res r w = (r, w)" "reads g w = (Inr (g w), w)" "reads_res h w = (h w, w)"
  "updates u w = (Inr (), u w)"
  "m w = (Inr a, w') \<Longrightarrow> abind m f w = f a w'"
  "m w = (Inl e, w') \<Longrightarrow> abind m f w = (Inl e, w')"
  by (simp_all add: ret_def lift_res_def reads_def reads_res_def updates_def abind_def)

lemma abind_run [act_simps]:
  "abind (ret x) f w = f x w" "abind (reads g) f' w = f' (g w) w"
  "abind (updates u) f'' w = f'' () (u w)"
  "abind (lift_res (Inr x)) f w = f x w" "abind (lift_res (Inl e)) f w = (Inl e, w)"
  by (simp_all add: ret_def reads_def updates_def lift_res_def abind_def)

lemma abind_Inr:
  "abind m f w = (Inr y, w'') \<longleftrightarrow> (\<exists>x w'. m w = (Inr x, w') \<and> f x w' = (Inr y, w''))"
  by (auto simp: abind_def split: prod.splits sum.splits)

text \<open>An invariant an action keeps, whether it returns or raises, and what it returns.\<close>

definition keeps :: "('w \<Rightarrow> bool) \<Rightarrow> ('w, 'a) act \<Rightarrow> bool" where
  "keeps I m \<longleftrightarrow> (\<forall>w. I w \<longrightarrow> I (snd (m w)))"

lemma keepsD: "keeps I m \<Longrightarrow> I w \<Longrightarrow> I (snd (m w))"
  by (simp add: keeps_def)

lemma keepsI: "(\<And>w. I w \<Longrightarrow> I (snd (m w))) \<Longrightarrow> keeps I m"
  by (simp add: keeps_def)

lemma keeps_basic [intro]:
  "keeps I (ret x)" "keeps I (lift_res r)" "keeps I (reads g)" "keeps I (reads_res h)"
  by (simp_all add: keeps_def act_simps)

lemma keeps_updates [intro]: "(\<And>w. I w \<Longrightarrow> I (u w)) \<Longrightarrow> keeps I (updates u)"
  by (simp add: keeps_def act_simps)

lemma keeps_abind [intro]:
  assumes "keeps I m" "\<And>x. keeps I (f x)"
  shows "keeps I (abind m f)"
proof (rule keepsI)
  fix w assume "I w"
  then have "I (snd (m w))" using assms(1) by (rule keepsD [rotated])
  then show "I (snd (abind m f w))"
    using assms(2) by (auto simp: abind_def keeps_def split: prod.splits sum.splits)
qed

lemma keeps_aeach [intro]: "(\<And>x. keeps I (f x)) \<Longrightarrow> keeps I (aeach f xs)"
  by (induction xs) auto

end
