(* ===== verification/FeatWorker.thy ===== *)
theory FeatWorker
  imports FeatState FeatStore Action
begin

text \<open>
  \<open>services/features/worker.py\<close>: accumulate events, close windows, publish state vectors. The
  world a worker acts on is the Redis state, the rows of \<open>state_vectors\<close> and the vectors put on
  the bus, in order. The per-tenant lock makes each handler run an atomic step, so a handler is an
  action; \<open>now\<close> is the injected clock's reading.
\<close>

record feat_worker =
  fg_delta :: int
  fg_max_gap :: int
  fg_fanout :: int
  fg_cap :: int
  fg_floor :: flt
  fg_speed :: flt
  fg_store :: bool

record 's feat_world =
  fw_redis :: 's
  fw_rows :: "state_row list"
  fw_bus :: "state_vector list"

definition grace_s :: "feat_worker \<Rightarrow> flt" where
  "grace_s W = (if fg_speed W \<le> Fin 0 then fg_floor W
     else py_max (fg_floor W) (Fin (of_int (2 * fg_delta W)) / fg_speed W))"

text \<open>A function of the state module, run on the Redis of the world.\<close>

definition on_redis :: "('s \<Rightarrow> 'a res \<times> 's) \<Rightarrow> ('s feat_world, 'a) act" where
  "on_redis f = (\<lambda>w. case f (fw_redis w) of (r, s) \<Rightarrow> (r, w\<lparr>fw_redis := s\<rparr>))"

definition save_vector :: "pyconv \<Rightarrow> state_vector \<Rightarrow> ('s feat_world, unit) act" where
  "save_vector C v = (\<lambda>w. case save C (fw_rows w) v of
     Inl e \<Rightarrow> (Inl e, w) | Inr (inserted, rows) \<Rightarrow> (Inr (), w\<lparr>fw_rows := rows\<rparr>))"

definition publish ::
    "pyconv \<Rightarrow> feat_worker \<Rightarrow> string \<Rightarrow> string \<Rightarrow> int \<Rightarrow> (string, flt) dict \<Rightarrow> ('s feat_world, state_vector) act" where
  "publish C W tenant_id host window_ts features =
     abind (lift_res (validate_features features)) (\<lambda>_.
     abind (lift_res (validate_state_vector \<lparr>sv_tenant = tenant_id, sv_host = host,
       sv_ts = window_start window_ts, sv_features = features, sv_schema = SCHEMA_VERSION\<rparr>)) (\<lambda>vector.
     abind (if fg_store W then save_vector C vector else ret ()) (\<lambda>_.
     abind (updates (\<lambda>w. w\<lparr>fw_bus := fw_bus w @ [vector]\<rparr>)) (\<lambda>_. ret vector))))"

definition silent_tracked :: "(string, flt) dict" where
  "silent_tracked = map (\<lambda>name. (name, Fin 0)) DYNAMIC_SOURCES"

fun publish_silent ::
    "pyconv \<Rightarrow> feat_worker \<Rightarrow> string \<Rightarrow> string \<Rightarrow> (string, flt) dict list \<Rightarrow> int list \<Rightarrow>
     ('s feat_world, (string, flt) dict list \<times> state_vector list) act" where
  "publish_silent C W tenant_id host history [] = ret (history, [])"
| "publish_silent C W tenant_id host history (silent_ts # rest) =
     abind (publish C W tenant_id host silent_ts zero_features) (\<lambda>v.
     abind (publish_silent C W tenant_id host (last_n HISTORY_LEN (history @ [silent_tracked])) rest) (\<lambda>(h, vs).
       ret (h, v # vs)))"

definition fill_gap ::
    "pyconv \<Rightarrow> feat_worker \<Rightarrow> string \<Rightarrow> string \<Rightarrow> int \<Rightarrow> int \<Rightarrow> (string, flt) dict list \<Rightarrow>
     ('s feat_world, (string, flt) dict list \<times> state_vector list) act" where
  "fill_gap C W tenant_id host last_ts window_ts history =
     (let gap = (window_ts - last_ts) div fg_delta W - 1 in
      if gap \<le> 0 then ret (history, [])
      else if fg_max_gap W < gap then ret ([], [])
      else publish_silent C W tenant_id host history (map (\<lambda>step. last_ts + step * fg_delta W) [1..gap]))"

definition emit_host ::
    "pymath \<Rightarrow> pyconv \<Rightarrow> 's redis_ops \<Rightarrow> feat_worker \<Rightarrow> string \<Rightarrow> string \<Rightarrow> int \<Rightarrow> window_graph \<Rightarrow> window_graph \<Rightarrow>
     ('s feat_world, state_vector list) act" where
  "emit_host M C R W tenant_id host window_ts graph previous =
     abind (reads_res (\<lambda>w. read_history C R (fw_redis w) tenant_id host)) (\<lambda>(last_ts, history0).
     abind (case last_ts of None \<Rightarrow> ret (history0, [])
            | Some t \<Rightarrow> fill_gap C W tenant_id host t window_ts history0) (\<lambda>(history, silent).
     abind (reads_res (\<lambda>w. from_hash (c_float C) (read_window R (fw_redis w) tenant_id host window_ts))) (\<lambda>acc.
     abind (on_redis (\<lambda>s. case record_peers R s tenant_id host (keys (acc_dist acc DIST_DST_IP)) of
              (n, s') \<Rightarrow> (Inr n, s'))) (\<lambda>new_peer_count.
     abind (lift_res (compute_features M (c_float C) acc host graph previous new_peer_count history
              (fg_fanout W) (fg_cap W))) (\<lambda>features.
     abind (publish C W tenant_id host window_ts features) (\<lambda>vector.
     abind (lift_res (tracked_values features)) (\<lambda>tracked.
     abind (updates (\<lambda>w. w\<lparr>fw_redis := write_history C R (fw_redis w) tenant_id host window_ts
              (last_n HISTORY_LEN (history @ [tracked]))\<rparr>)) (\<lambda>_.
     ret (silent @ [vector])))))))))"

definition close_window ::
    "pymath \<Rightarrow> pyconv \<Rightarrow> 's redis_ops \<Rightarrow> feat_worker \<Rightarrow> string \<Rightarrow> int \<Rightarrow> ('s feat_world, state_vector list) act" where
  "close_window M C R W tenant_id window_ts =
     abind (reads (\<lambda>w. read_hosts R (fw_redis w) tenant_id window_ts)) (\<lambda>hosts.
     abind (reads (\<lambda>w. from_edges (read_edges R (fw_redis w) tenant_id window_ts))) (\<lambda>graph.
     abind (reads (\<lambda>w. from_edges (read_edges R (fw_redis w) tenant_id (window_ts - fg_delta W)))) (\<lambda>previous.
     abind (aeach (\<lambda>host. emit_host M C R W tenant_id host window_ts graph previous) hosts) (\<lambda>vectors.
     abind (updates (\<lambda>w. w\<lparr>fw_redis := discard_window R (fw_redis w) tenant_id window_ts hosts\<rparr>)) (\<lambda>_.
     abind (updates (\<lambda>w. w\<lparr>fw_redis := discard_graph R (fw_redis w) tenant_id (window_ts - fg_delta W)\<rparr>)) (\<lambda>_.
     abind (on_redis (clear_open C R tenant_id window_ts)) (\<lambda>_.
     ret (concat vectors))))))))"

definition ingest_event ::
    "pymath \<Rightarrow> pyconv \<Rightarrow> 's redis_ops \<Rightarrow> feat_worker \<Rightarrow> flt \<Rightarrow> raw_event \<Rightarrow> ('s feat_world, state_vector list) act" where
  "ingest_event M C R W now ev =
     (if ev_src ev = [] then ret []
      else let window_ts = align (ev_ts ev) (fg_delta W) in
        abind (reads_res (\<lambda>w. read_open C R (fw_redis w) (ev_tenant ev))) (\<lambda>current.
        if (case current of None \<Rightarrow> False | Some (open_ts, seen) \<Rightarrow> window_ts < open_ts) then ret []
        else
          abind (case current of None \<Rightarrow> ret []
                 | Some (open_ts, seen) \<Rightarrow>
                     if open_ts < window_ts then close_window M C R W (ev_tenant ev) open_ts else ret []) (\<lambda>emitted.
          abind (on_redis (accumulate C R ev window_ts now)) (\<lambda>_. ret emitted))))"

definition watchdog_tenant ::
    "pymath \<Rightarrow> pyconv \<Rightarrow> 's redis_ops \<Rightarrow> feat_worker \<Rightarrow> flt \<Rightarrow> string \<Rightarrow> ('s feat_world, state_vector list) act" where
  "watchdog_tenant M C R W now tenant_id =
     abind (reads_res (\<lambda>w. read_open C R (fw_redis w) tenant_id)) (\<lambda>current.
     case current of None \<Rightarrow> ret []
     | Some (window_ts, last_seen) \<Rightarrow>
         if now - last_seen < grace_s W then ret [] else close_window M C R W tenant_id window_ts)"

definition watchdog_tick ::
    "pymath \<Rightarrow> pyconv \<Rightarrow> 's redis_ops \<Rightarrow> feat_worker \<Rightarrow> flt \<Rightarrow> ('s feat_world, state_vector list) act" where
  "watchdog_tick M C R W now =
     abind (reads (\<lambda>w. open_tenants R (fw_redis w))) (\<lambda>tenants.
     abind (aeach (watchdog_tenant M C R W now) tenants) (\<lambda>vss. ret (concat vss)))"

text \<open>The bus entry point; \<open>load\<close> is the JSON decoding of a \<open>RawEvent\<close>.\<close>

definition handle_event ::
    "(string \<Rightarrow> raw_event res) \<Rightarrow> pymath \<Rightarrow> pyconv \<Rightarrow> 's redis_ops \<Rightarrow> feat_worker \<Rightarrow> flt \<Rightarrow> string \<Rightarrow>
     ('s feat_world, state_vector list) act" where
  "handle_event load M C R W now payload =
     abind (lift_res (bind_res (load payload) validate_raw_event)) (ingest_event M C R W now)"

section \<open>A window's hash always reads back\<close>

definition good_field :: "pyconv \<Rightarrow> string \<Rightarrow> bool" where
  "good_field C f = (case partition_str DIST_SEP f of (p, sep, b) \<Rightarrow>
     if sep \<and> p \<in> {DIST_FLOW_IAT_MAX, DIST_PAYLOAD} then (\<exists>r. c_float C b = Inr (Fin r)) else True)"

definition good_hash :: "pyconv \<Rightarrow> (string, string) dict \<Rightarrow> bool" where
  "good_hash C h \<longleftrightarrow> (\<forall>f v. map_of h f = Some v \<longrightarrow> good_field C f \<and> (\<exists>r. c_float C v = Inr (Fin r)))"

lemma dict_set_subset: "set (dict_set k v d) \<subseteq> insert (k, v) (set d)"
  unfolding dict_set_def by (induction d) auto

lemma finite_values_set: "finite_values d \<Longrightarrow> isfinite v \<Longrightarrow> finite_values (dict_set k v d)"
  using dict_set_subset [of k v d] by (fastforce simp: finite_values_def list_all_iff)

lemma add_field_finite:
  assumes acc: "finite_acc (c_float C) acc" and f: "good_field C f"
  shows "finite_acc (c_float C) (add_field f (Fin r) acc)"
proof -
  obtain p sep b where p: "partition_str DIST_SEP f = (p, sep, b)" by (cases "partition_str DIST_SEP f")
  show ?thesis
  proof (cases "sep \<and> p \<in> set DIST_PREFIXES")
    case False
    then have a: "add_field f (Fin r) acc = acc\<lparr>wa_scalars := dict_set f (Fin r) (wa_scalars acc)\<rparr>"
      by (auto simp: add_field_def p)
    from acc show ?thesis unfolding a
      by (simp add: finite_acc_def finite_values_set acc_dist_def)
  next
    case True
    let ?d = "dict_set b (Fin r) (dict_get (wa_dists acc) p [])"
    have a: "add_field f (Fin r) acc = acc\<lparr>wa_dists := dict_set p ?d (wa_dists acc)\<rparr>"
      using True by (simp add: add_field_def p)
    have d: "finite_values ?d"
      using finite_dist [OF acc, of p] by (simp add: finite_values_set acc_dist_def)
    have dists: "list_all (\<lambda>(p, d). finite_values d) (dict_set p ?d (wa_dists acc))"
      using dict_set_subset [of p ?d "wa_dists acc"] acc d by (fastforce simp: finite_acc_def list_all_iff)
    have dist': "acc_dist (acc\<lparr>wa_dists := dict_set p ?d (wa_dists acc)\<rparr>) q = (if q = p then ?d else acc_dist acc q)" for q
      by (simp add: acc_dist_def dict_get_def dict_simps)
    have buckets: "list_all (\<lambda>(b, c). case c_float C b of Inr (Fin r) \<Rightarrow> True | _ \<Rightarrow> False)
        (acc_dist (acc\<lparr>wa_dists := dict_set p ?d (wa_dists acc)\<rparr>) q)"
      if q: "q \<in> {DIST_FLOW_IAT_MAX, DIST_PAYLOAD}" for q
    proof (cases "q = p")
      case False
      then show ?thesis using acc q by (auto simp: dist' finite_acc_def)
    next
      case True
      have old: "list_all (\<lambda>(b, c). case c_float C b of Inr (Fin r) \<Rightarrow> True | _ \<Rightarrow> False) (acc_dist acc p)"
        using acc q True by (auto simp: finite_acc_def)
      have "\<exists>r. c_float C b = Inr (Fin r)" using f q True \<open>sep \<and> p \<in> set DIST_PREFIXES\<close>
        by (auto simp: good_field_def p)
      then show ?thesis
        using old dict_set_subset [of b "Fin r" "acc_dist acc p"] True
        unfolding dist' by (fastforce simp: list_all_iff acc_dist_def)
    qed
    show ?thesis unfolding a finite_acc_def
      using acc dists buckets by (simp add: finite_acc_def)
  qed
qed

lemma from_hash_ok:
  assumes "good_hash C h" "wf_dict h"
  shows "\<exists>acc. from_hash (c_float C) h = Inr acc \<and> finite_acc (c_float C) acc"
proof -
  have "\<exists>acc'. add_hash (c_float C) h' acc = Inr acc' \<and> finite_acc (c_float C) acc'"
    if "set h' \<subseteq> set h" "finite_acc (c_float C) acc" for h' acc
    using that
  proof (induction h' arbitrary: acc)
    case (Cons e h')
    obtain f v where e: "e = (f, v)" by force
    have "map_of h f = Some v" using Cons.prems(1) assms(2) e by (auto simp: wf_dict_def)
    with assms(1) obtain r where "good_field C f" "c_float C v = Inr (Fin r)" by (auto simp: good_hash_def)
    then show ?case using Cons by (simp add: e add_field_finite)
  qed simp
  then show ?thesis unfolding from_hash_def by simp
qed

section \<open>Accumulation keeps hashes good\<close>

lemma good_plain: "CHR '':'' \<notin> set f \<Longrightarrow> good_field C f"
  by (simp add: good_field_def DIST_SEP_def partition_str_none)

lemma good_dist: "p \<notin> {DIST_FLOW_IAT_MAX, DIST_PAYLOAD} \<or> (\<exists>r. c_float C b = Inr (Fin r)) \<Longrightarrow>
    CHR '':'' \<notin> set p \<Longrightarrow> good_field C (dist_field p b)"
  by (auto simp: good_field_def dist_field_def DIST_SEP_def partition_str_append)

lemma keys_bumps: "set (keys (bumps bs inc)) \<subseteq> set (keys inc) \<union> fst ` set bs"
proof (induction bs inc rule: bumps.induct)
  case (2 k x ks inc)
  have "set (keys (bump inc k x)) \<subseteq> insert k (set (keys inc))"
    by (auto simp: bump_def keys_dict_set)
  moreover have "set (keys (bumps ks (bump inc k x))) \<subseteq> set (keys (bump inc k x)) \<union> fst ` set ks" by (rule 2)
  ultimately show ?case by (simp only: bumps.simps list.set image_insert fst_conv) blast
qed simp

lemma when_field_keys:
  assumes "when_field flds k body = Inr bs" "\<And>x bs. body x = Inr bs \<Longrightarrow> fst ` set bs \<subseteq> K"
  shows "fst ` set bs \<subseteq> K"
  using assms by (auto simp: when_field_def split: option.splits)

lemma packet_bumps_good:
  assumes "pyconv_laws C" "packet_bumps flds = Inr bs"
  shows "fst ` set bs \<subseteq> {f. good_field C f}"
proof -
  have int_ok: "good_field C (dist_field DIST_PAYLOAD (int_str i))" "good_field C (dist_field DIST_TCP_WINDOW (int_str i))" for i
    using pyconv_laws.float_int [OF assms(1)] by (auto intro!: good_dist simp: dist_names)
  from assms(2) obtain flags ttl win pay where
    t: "when_field flds ''ttl'' (\<lambda>ttl. Inr
       [(''n_ttl'', Fin 1), (''ttl_sum'', ttl), (''ttl_sq'', ttl * ttl)]) = Inr ttl"
    and w: "when_field flds ''tcp_window'' (\<lambda>w. bind_res (fint w) (\<lambda>i. Inr
       [(''n_tcp_window'', Fin 1), (''tcp_window_sum'', w),
        (dist_field DIST_TCP_WINDOW (int_str i), Fin 1)])) = Inr win"
    and p: "when_field flds ''tcp_len'' (\<lambda>p. bind_res (fint p) (\<lambda>i. Inr
       [(''n_payload'', Fin 1), (''payload_sum'', p), (''payload_sq'', p * p),
        (dist_field DIST_PAYLOAD (int_str i), Fin 1)])) = Inr pay"
    and bs: "bs = [(''n_packets'', Fin 1), (''pkt_count'', Fin 1)] @
       map (\<lambda>(flag, b). (flag, Fin 1)) (filter (\<lambda>(flag, b). flags AND b \<noteq> 0) TCP_FLAG_BITS) @
       [(''bytes_up'', dict_get flds ''frame_len'' (Fin 0))] @ ttl @ win @
       (if truthy (dict_get flds ''frag'' (Fin 0)) then [(''frag_count'', Fin 1)] else []) @
       pay @
       (if truthy (dict_get flds ''retransmission'' (Fin 0)) then [(''retrans_count'', Fin 1)] else [])"
    unfolding packet_bumps_def bind_res_eq_Inr sum.inject(2)
    by (elim exE conjE) (rule that, assumption, assumption, assumption, erule sym)
  have "fst ` set ttl \<subseteq> {f. good_field C f}" by (rule when_field_keys [OF t]) (auto intro: good_plain)
  moreover have "fst ` set win \<subseteq> {f. good_field C f}"
    by (rule when_field_keys [OF w]) (auto simp: bind_res_eq_Inr int_ok good_plain)
  moreover have "fst ` set pay \<subseteq> {f. good_field C f}"
    by (rule when_field_keys [OF p]) (auto simp: bind_res_eq_Inr int_ok good_plain)
  moreover have "fst ` set (filter P TCP_FLAG_BITS) \<subseteq> {f. good_field C f}" for P
    by (auto simp: TCP_FLAG_BITS_def intro: good_plain)
  then have "fst ` set (map (\<lambda>(flag, b). (flag, Fin 1)) (filter P TCP_FLAG_BITS)) \<subseteq> {f. good_field C f}" for P
    by (fastforce simp: image_iff)
  ultimately show ?thesis unfolding bs by (auto simp: image_Un intro: good_plain)
qed

lemma increments_good:
  assumes "pyconv_laws C" "event_ok ev" "event_increments C ev = Inr incs" "f \<in> set (keys incs)"
  shows "good_field C f"
proof -
  have ends: "good_field C f" if "f \<in> fst ` set (endpoint_bumps ev)" for f
    using that by (auto simp: endpoint_bumps_def dist_names intro!: good_dist split: option.splits if_splits)
  show ?thesis
  proof (cases "ev_kind ev")
    case Flow
    then have "incs = bumps (endpoint_bumps ev @ flow_bumps C (ev_fields ev)) []"
      using assms(3) by (simp add: event_increments_def)
    then have "f \<in> fst ` set (endpoint_bumps ev) \<union> fst ` set (flow_bumps C (ev_fields ev))"
      using keys_bumps [of "endpoint_bumps ev @ flow_bumps C (ev_fields ev)" "[]"] assms(4) by auto
    moreover have "good_field C f" if "f \<in> fst ` set (flow_bumps C (ev_fields ev))"
    proof -
      have "isfinite (fround 6 (dict_get (ev_fields ev) ''iat_max'' (Fin 0)))"
        using event_ok_field [OF assms(2), of "Fin 0" "''iat_max''"] by (auto simp: isfinite_iff)
      then have "good_field C (dist_field DIST_FLOW_IAT_MAX (c_repr C (fround 6 (dict_get (ev_fields ev) ''iat_max'' (Fin 0)))))"
        using pyconv_laws.float_repr [OF assms(1)] by (intro good_dist) (auto simp: isfinite_iff dist_names)
      then show ?thesis using that
        by (auto simp: flow_bumps_def Let_def TCP_FLAG_BITS_def intro: good_plain split: if_splits)
    qed
    ultimately show ?thesis using ends by auto
  next
    case Packet
    then obtain bs where bs: "packet_bumps (ev_fields ev) = Inr bs" "incs = bumps (endpoint_bumps ev @ bs) []"
      using assms(3) by (auto simp: event_increments_def bind_res_eq_Inr)
    then have "f \<in> fst ` set (endpoint_bumps ev) \<union> fst ` set bs"
      using keys_bumps [of "endpoint_bumps ev @ bs" "[]"] assms(4) by auto
    moreover have "good_field C f" if "f \<in> fst ` set bs"
      using packet_bumps_good [OF assms(1) bs(1)] that by blast
    ultimately show ?thesis using ends by auto
  qed
qed

context backing
begin

lemma hincr_good:
  assumes "good_hash C (r_hgetall R s key)" "good_field C f"
  shows "good_hash C (r_hgetall R (r_hincrbyfloat R s key f x) key)"
  unfolding good_hash_def
proof (intro allI impI)
  fix g v assume g: "map_of (r_hgetall R (r_hincrbyfloat R s key f x) key) g = Some v"
  show "good_field C g \<and> (\<exists>r. c_float C v = Inr (Fin r))"
  proof (cases "g = f")
    case False
    then show ?thesis using g hincr_other [OF False, of s key x] assms(1) by (auto simp: good_hash_def)
  next
    case True
    have "\<exists>r. hash_num (c_float C) (r_hgetall R s key) f = Inr (Fin r)"
      using assms(1) by (auto simp: hash_num_def good_hash_def split: option.splits)
    then obtain r where "hash_num (c_float C) (r_hgetall R s key) f = Inr (Fin r)" ..
    from hincr_same [OF this, of x] g True assms(2) show ?thesis by (auto simp: hash_num_def)
  qed
qed

lemma hincr_all_good:
  assumes "good_hash C (r_hgetall R s key)" "\<forall>f \<in> set (keys incs). good_field C f" "finite_values incs"
  shows "good_hash C (r_hgetall R (fst (hincr_all R s key incs)) key)"
  using assms
proof (induction incs arbitrary: s)
  case (Cons e incs)
  obtain f x where e: "e = (f, Fin x)" using Cons.prems(3) by (cases e; cases "snd e") (auto simp: finite_values_def)
  have "good_hash C (r_hgetall R (r_hincrbyfloat R s key f x) key)"
    using Cons.prems by (intro hincr_good) (auto simp: e)
  with Cons show ?case by (simp add: e finite_values_def)
qed simp

lemma accumulate_good:
  assumes "event_ok ev" "good_hash C (r_hgetall R s (window_key (ev_tenant ev) h k))"
  shows "good_hash C (r_hgetall R (snd (accumulate C R ev w now s)) (window_key (ev_tenant ev) h k))"
proof (cases "h = ev_src ev \<and> k = w")
  case True
  obtain incs where i: "event_increments C ev = Inr incs" "finite_values incs"
    using accumulate_run [OF assms(1)] by blast
  have "\<forall>f \<in> set (keys incs). good_field C f"
    using increments_good [OF pyconv_laws_axioms assms(1) i(1)] by blast
  from hincr_all_good [OF _ this i(2)] True assms(2) show ?thesis
    by (simp add: accumulate_window [OF assms(1)] i(1))
next
  case False
  then have "r_view R (snd (accumulate C R ev w now s)) (window_key (ev_tenant ev) h k) =
      r_view R s (window_key (ev_tenant ev) h k)"
    by (intro accumulate_frame [OF assms(1)]) auto
  then show ?thesis using assms(2) by (auto dest: view_hgetall)
qed

lemma accumulate_open:
  assumes "event_ok ev"
  shows "read_open C R (snd (accumulate C R ev w now s)) (ev_tenant ev) = Inr (Some (w, now))"
proof -
  obtain incs where i: "event_increments C ev = Inr incs" using accumulate_run [OF assms] by blast
  have "map_of (r_hgetall R (snd (accumulate C R ev w now s)) (open_key (ev_tenant ev))) OPEN_WINDOW_FIELD = Some (int_str w)"
    "map_of (r_hgetall R (snd (accumulate C R ev w now s)) (open_key (ev_tenant ev))) OPEN_SEEN_FIELD = Some (c_repr C now)"
    by (simp_all add: accumulate_def i Let_def case_prod_unfold hset_same OPEN_WINDOW_FIELD_def OPEN_SEEN_FIELD_def)
  then show ?thesis by (auto simp: read_open_def Let_def float_repr)
qed

end

section \<open>Publishing\<close>

definition vector_of :: "string \<Rightarrow> string \<Rightarrow> int \<Rightarrow> (string, flt) dict \<Rightarrow> state_vector" where
  "vector_of T h ts features = \<lparr>sv_tenant = T, sv_host = h, sv_ts = window_start ts,
     sv_features = features, sv_schema = SCHEMA_VERSION\<rparr>"

text \<open>Writing a vector to the store cannot fail: there is no store, or the tenant is a UUID.\<close>

definition storable :: "pyconv \<Rightarrow> feat_worker \<Rightarrow> string \<Rightarrow> bool" where
  "storable C W T \<longleftrightarrow> (if fg_store W then \<exists>u. c_uuid C T = Inr u else True)"

lemma same_rows [simp]: "\<exists>rows. w = w\<lparr>fw_rows := rows\<rparr>"
  by (rule exI [of _ "fw_rows w"]) simp

lemma publish_ok:
  assumes "set (keys features) = set FEATURE_ORDER" "storable C W T"
  shows "\<exists>rows. publish C W T h ts features w =
    (Inr (vector_of T h ts features), w\<lparr>fw_rows := rows, fw_bus := fw_bus w @ [vector_of T h ts features]\<rparr>)"
proof -
  have "\<exists>rows. (if fg_store W then save_vector C (vector_of T h ts features) else ret ()) w = (Inr (), w\<lparr>fw_rows := rows\<rparr>)"
  proof (cases "fg_store W")
    case True
    then obtain u where "c_uuid C T = Inr u" using assms(2) by (auto simp: storable_def)
    then show ?thesis using True
      by (simp add: save_vector_def save_def save_in_def vector_tenant_uuid_def vector_of_def
          split: prod.splits) (metis prod.exhaust)
  next
    case False
    have "w = w\<lparr>fw_rows := fw_rows w\<rparr>" by simp
    with False show ?thesis by (auto simp: ret_def)
  qed
  then obtain rows where r: "(if fg_store W then save_vector C (vector_of T h ts features) else ret ()) w
      = (Inr (), w\<lparr>fw_rows := rows\<rparr>)" by blast
  have "validate_features features = Inr ()" using assms(1) by (simp add: validate_features_def)
  moreover have "validate_state_vector \<lparr>sv_tenant = T, sv_host = h, sv_ts = window_start ts,
     sv_features = features, sv_schema = SCHEMA_VERSION\<rparr> = Inr (vector_of T h ts features)"
    using assms(1) by (simp add: validate_state_vector_def vector_of_def)
  ultimately show ?thesis
    by (intro exI [of _ rows]) (simp add: publish_def act_simps r)
qed

lemma keys_zero_features: "set (keys zero_features) = set FEATURE_ORDER"
  by (simp add: zero_features_def comp_def)

lemma finite_silent [simp]: "finite_values silent_tracked"
  by (auto simp: silent_tracked_def finite_values_def list_all_iff)

lemma last_n_all: "list_all P xs \<Longrightarrow> list_all P (last_n n xs)"
  using last_n_set [of n xs] by (auto simp: list_all_iff)

lemma publish_silent_ok:
  assumes "storable C W T"
  shows "\<exists>hist' rows. publish_silent C W T h hist tss w =
      (Inr (hist', map (\<lambda>ts. vector_of T h ts zero_features) tss),
       w\<lparr>fw_rows := rows, fw_bus := fw_bus w @ map (\<lambda>ts. vector_of T h ts zero_features) tss\<rparr>) \<and>
    (list_all finite_values hist \<longrightarrow> list_all finite_values hist')"
proof (induction tss arbitrary: hist w)
  case Nil
  have "w = w\<lparr>fw_rows := fw_rows w, fw_bus := fw_bus w\<rparr>" by simp
  then show ?case by (auto simp: ret_def)
next
  case (Cons ts tss)
  obtain rows where p: "publish C W T h ts zero_features w = (Inr (vector_of T h ts zero_features),
      w\<lparr>fw_rows := rows, fw_bus := fw_bus w @ [vector_of T h ts zero_features]\<rparr>)"
    using publish_ok [OF keys_zero_features assms] by blast
  let ?hist = "last_n HISTORY_LEN (hist @ [silent_tracked])"
  let ?w = "w\<lparr>fw_rows := rows, fw_bus := fw_bus w @ [vector_of T h ts zero_features]\<rparr>"
  obtain hist' rows' where r: "publish_silent C W T h ?hist tss ?w =
      (Inr (hist', map (\<lambda>ts. vector_of T h ts zero_features) tss),
       ?w\<lparr>fw_rows := rows', fw_bus := fw_bus ?w @ map (\<lambda>ts. vector_of T h ts zero_features) tss\<rparr>)"
    "list_all finite_values ?hist \<longrightarrow> list_all finite_values hist'"
    using Cons [of ?hist ?w] by blast
  have "list_all finite_values hist \<longrightarrow> list_all finite_values ?hist"
    by (intro impI last_n_all) simp
  then show ?case using r(2) by (auto simp: act_simps p r(1))
qed

section \<open>One host of a closing window\<close>

text \<open>The silent windows that are back-filled before a host's vector for \<open>window_ts\<close>.\<close>

definition gap_windows :: "feat_worker \<Rightarrow> int option \<Rightarrow> int \<Rightarrow> int list" where
  "gap_windows W last_ts window_ts = (case last_ts of None \<Rightarrow> []
     | Some t \<Rightarrow> let gap = (window_ts - t) div fg_delta W - 1 in
         if gap \<le> 0 \<or> fg_max_gap W < gap then []
         else map (\<lambda>step. t + step * fg_delta W) [1..gap])"

lemma fill_gap_ok:
  assumes "storable C W T"
  shows "\<exists>hist' rows. fill_gap C W T h t ts hist w =
      (Inr (hist', map (\<lambda>ts. vector_of T h ts zero_features) (gap_windows W (Some t) ts)),
       w\<lparr>fw_rows := rows, fw_bus := fw_bus w @ map (\<lambda>ts. vector_of T h ts zero_features) (gap_windows W (Some t) ts)\<rparr>) \<and>
    (list_all finite_values hist \<longrightarrow> list_all finite_values hist')"
proof -
  have id: "w = w\<lparr>fw_rows := fw_rows w, fw_bus := fw_bus w @ []\<rparr>" by simp
  show ?thesis
    using publish_silent_ok [OF assms, of h hist "map (\<lambda>step. t + step * fg_delta W) [1..(ts - t) div fg_delta W - 1]" w] id
    by (auto simp: fill_gap_def gap_windows_def Let_def ret_def simp del: id [symmetric])
qed

lemma tracked_ok:
  assumes "map fst fs = FEATURE_ORDER" "finite_values fs"
  shows "\<exists>tr. tracked_values fs = Inr tr \<and> finite_values tr"
proof -
  have "\<exists>ys. traverse_res (\<lambda>name. bind_res (dict_index fs name) (\<lambda>x. Inr (name, x))) ns = Inr ys \<and> finite_values ys"
    if "set ns \<subseteq> set FEATURE_ORDER" for ns
    using that
  proof (induction ns)
    case (Cons n ns)
    have "n \<in> fst ` set fs" using Cons.prems assms(1) by (metis list.set_intros(1) set_map subsetD)
    then obtain x where x: "map_of fs n = Some x" by (metis dom_map_of_conv_image_fst domD)
    then have "isfinite x" using assms(2) by (auto simp: finite_values_def list_all_iff dest: map_of_SomeD)
    with x Cons show ?case by (auto simp: dict_index_def finite_values_def)
  qed (simp add: finite_values_def)
  moreover have "set DYNAMIC_SOURCES \<subseteq> set FEATURE_ORDER" by code_simp
  ultimately show ?thesis by (simp add: tracked_values_def)
qed

context backing
begin

lemma read_write_history:
  "list_all finite_values hist \<Longrightarrow>
   \<exists>hist'. read_history C R (write_history C R s T h ts hist) T h = Inr (Some ts, hist') \<and> list_all finite_values hist'"
proof -
  assume fin: "list_all finite_values hist"
  let ?H = "r_hgetall R (write_history C R s T h ts hist) (prev_key T h)"
  have m: "map_of ?H PREV_TS_FIELD = Some (int_str ts)"
    "map_of ?H PREV_HISTORY_FIELD = Some (c_dumps_hist C (last_n HISTORY_LEN hist))"
    by (simp_all add: write_history_def Let_def hset_same PREV_TS_FIELD_def PREV_HISTORY_FIELD_def)
  have "read_history C R (write_history C R s T h ts hist) T h = Inr (Some ts, last_n HISTORY_LEN hist)"
    by (simp add: read_history_def Let_def dict_get_def m loads_hist dumps_hist_nonempty)
  with fin show ?thesis by (simp add: last_n_all)
qed

lemma write_history_frame: "k \<noteq> prev_key T h \<Longrightarrow> r_view R (write_history C R s T h ts hist) k = r_view R s k"
  by (simp add: write_history_def Let_def frames)

lemma record_peers_frame: "k \<noteq> peers_key T h \<Longrightarrow> r_view R (snd (record_peers R s T h ps)) k = r_view R s k"
  by (simp add: record_peers_def Let_def frames)

lemma read_history_cong:
  "r_view R s (prev_key T h) = r_view R s' (prev_key T h) \<Longrightarrow> read_history C R s T h = read_history C R s' T h"
  by (simp add: read_history_def view_hgetall [of s _ s'])

lemma emit_host_ok:
  assumes M: "pymath_laws M" and st: "storable C W T"
    and good: "good_hash C (r_hgetall R (fw_redis w) (window_key T h ts))"
    and hist: "read_history C R (fw_redis w) T h = Inr (lt, hist)" "list_all finite_values hist"
  shows "\<exists>fs w' hist'. emit_host M C R W T h ts g pg w =
      (Inr (map (\<lambda>t. vector_of T h t zero_features) (gap_windows W lt ts) @ [vector_of T h ts fs]), w') \<and>
    fw_bus w' = fw_bus w @ map (\<lambda>t. vector_of T h t zero_features) (gap_windows W lt ts) @ [vector_of T h ts fs] \<and>
    read_history C R (fw_redis w') T h = Inr (Some ts, hist') \<and> list_all finite_values hist' \<and>
    (\<forall>k. k \<noteq> prev_key T h \<longrightarrow> k \<noteq> peers_key T h \<longrightarrow> r_view R (fw_redis w') k = r_view R (fw_redis w) k)"
proof -
  let ?sil = "map (\<lambda>t. vector_of T h t zero_features) (gap_windows W lt ts)"
  have "\<exists>hist1 rows. (case lt of None \<Rightarrow> ret (hist, []) | Some t \<Rightarrow> fill_gap C W T h t ts hist) w =
      (Inr (hist1, ?sil), w\<lparr>fw_rows := rows, fw_bus := fw_bus w @ ?sil\<rparr>) \<and> list_all finite_values hist1"
  proof (cases lt)
    case None
    have "w = w\<lparr>fw_rows := fw_rows w, fw_bus := fw_bus w\<rparr>" by simp
    with None hist(2) show ?thesis by (auto simp: gap_windows_def ret_def)
  next
    case (Some t)
    with fill_gap_ok [OF st, of h t ts hist w] hist(2) show ?thesis by auto
  qed
  then obtain hist1 rows where fill: "(case lt of None \<Rightarrow> ret (hist, []) | Some t \<Rightarrow> fill_gap C W T h t ts hist) w =
      (Inr (hist1, ?sil), w\<lparr>fw_rows := rows, fw_bus := fw_bus w @ ?sil\<rparr>)" "list_all finite_values hist1" by blast
  let ?w1 = "w\<lparr>fw_rows := rows, fw_bus := fw_bus w @ ?sil\<rparr>"
  obtain acc where acc: "from_hash (c_float C) (read_window R (fw_redis w) T h ts) = Inr acc" "finite_acc (c_float C) acc"
    using from_hash_ok [OF good hgetall_wf] by (auto simp: read_window_def)
  obtain n s2 where peers: "record_peers R (fw_redis w) T h (keys (acc_dist acc DIST_DST_IP)) = (n, s2)" by force
  let ?w2 = "?w1\<lparr>fw_redis := s2\<rparr>"
  obtain fs where fs: "compute_features M (c_float C) acc h g pg n hist1 (fg_fanout W) (fg_cap W) = Inr fs"
    "map fst fs = FEATURE_ORDER" "list_all in_range fs"
    using compute_features_ok [OF M acc(2) fill(2)] by blast
  have fk: "set (keys fs) = set FEATURE_ORDER" unfolding fs(2) ..
  obtain rows' where pub: "publish C W T h ts fs ?w2 = (Inr (vector_of T h ts fs),
      ?w2\<lparr>fw_rows := rows', fw_bus := fw_bus ?w2 @ [vector_of T h ts fs]\<rparr>)"
    using publish_ok [OF fk st] by blast
  let ?w3 = "?w2\<lparr>fw_rows := rows', fw_bus := fw_bus ?w2 @ [vector_of T h ts fs]\<rparr>"
  obtain tr where tr: "tracked_values fs = Inr tr" "finite_values tr"
    using tracked_ok [OF fs(2) in_range_finite [OF fs(3)]] by blast
  let ?hist = "last_n HISTORY_LEN (hist1 @ [tr])"
  have fin: "list_all finite_values ?hist" by (rule last_n_all) (simp add: fill(2) tr(2))
  let ?w4 = "?w3\<lparr>fw_redis := write_history C R s2 T h ts ?hist\<rparr>"
  have run: "emit_host M C R W T h ts g pg w = (Inr (?sil @ [vector_of T h ts fs]), ?w4)"
    unfolding emit_host_def
    by (simp add: act_simps hist(1) fill(1) acc(1) on_redis_def peers fs(1) pub tr(1))
  obtain hist' where h': "read_history C R (write_history C R s2 T h ts ?hist) T h = Inr (Some ts, hist')"
    "list_all finite_values hist'" using read_write_history [OF fin] by blast
  have "r_view R (fw_redis ?w4) k = r_view R (fw_redis w) k" if "k \<noteq> prev_key T h" "k \<noteq> peers_key T h" for k
    using write_history_frame [OF that(1), of s2 ts ?hist]
      record_peers_frame [OF that(2), of "fw_redis w" "keys (acc_dist acc DIST_DST_IP)"] peers by simp
  then show ?thesis using run h' by (intro exI [of _ fs] exI [of _ ?w4] exI [of _ hist']) simp
qed

end

section \<open>Closing a window\<close>

definition timeline :: "string \<Rightarrow> string \<Rightarrow> state_vector list \<Rightarrow> int list" where
  "timeline T h vs = map (as_utc \<circ> sv_ts) (filter (\<lambda>v. sv_tenant v = T \<and> sv_host v = h) vs)"

lemma timeline_append [simp]: "timeline T h (a @ b) = timeline T h a @ timeline T h b"
  by (simp add: timeline_def)

lemma timeline_vectors [simp]:
  "timeline T h (map (\<lambda>t. vector_of T h' t (f t)) ts) = (if h' = h then map (\<lambda>t. t * 1000000) ts else [])"
  "timeline T h [vector_of T h' t fs] = (if h' = h then [t * 1000000] else [])"
  "timeline T h [] = []"
  by (induction ts) (auto simp: timeline_def vector_of_def window_start_def)

text \<open>What closing a window emits for one host, given the history it read.\<close>

definition host_vectors :: "feat_worker \<Rightarrow> string \<Rightarrow> int \<Rightarrow> int option \<Rightarrow> string \<Rightarrow> state_vector list \<Rightarrow> bool" where
  "host_vectors W T ts lt h vs \<longleftrightarrow> (\<exists>fs. vs =
     map (\<lambda>t. vector_of T h t zero_features) (gap_windows W lt ts) @ [vector_of T h ts fs])"

lemma host_vectors_timeline:
  "host_vectors W T ts lt h vs \<Longrightarrow> timeline T h' vs =
     (if h' = h then map (\<lambda>t. t * 1000000) (gap_windows W lt ts @ [ts]) else [])"
  by (auto simp: host_vectors_def)

definition last_of :: "pyconv \<Rightarrow> 's redis_ops \<Rightarrow> 's \<Rightarrow> string \<Rightarrow> string \<Rightarrow> int option" where
  "last_of C R s T h = (case read_history C R s T h of Inr (lt, hist) \<Rightarrow> lt | Inl e \<Rightarrow> None)"

definition history_ok :: "pyconv \<Rightarrow> 's redis_ops \<Rightarrow> 's \<Rightarrow> string \<Rightarrow> string \<Rightarrow> bool" where
  "history_ok C R s T h \<longleftrightarrow>
     (case read_history C R s T h of Inr (lt, hist) \<Rightarrow> list_all finite_values hist | Inl e \<Rightarrow> False)"

context backing
begin

lemma history_cong:
  assumes "r_view R s (prev_key T h) = r_view R s' (prev_key T h)"
  shows "last_of C R s T h = last_of C R s' T h" "history_ok C R s T h = history_ok C R s' T h"
  using read_history_cong [OF assms] by (simp_all add: last_of_def history_ok_def)

lemma emit_host_run:
  assumes M: "pymath_laws M" and st: "storable C W T"
    and good: "good_hash C (r_hgetall R (fw_redis w) (window_key T h ts))"
    and hist: "history_ok C R (fw_redis w) T h"
  shows "\<exists>vs w'. emit_host M C R W T h ts g pg w = (Inr vs, w') \<and>
    host_vectors W T ts (last_of C R (fw_redis w) T h) h vs \<and>
    fw_bus w' = fw_bus w @ vs \<and> last_of C R (fw_redis w') T h = Some ts \<and> history_ok C R (fw_redis w') T h \<and>
    (\<forall>k. k \<noteq> prev_key T h \<longrightarrow> k \<noteq> peers_key T h \<longrightarrow> r_view R (fw_redis w') k = r_view R (fw_redis w) k)"
proof -
  obtain lt hi where h: "read_history C R (fw_redis w) T h = Inr (lt, hi)" "list_all finite_values hi"
    using hist by (auto simp: history_ok_def split: sum.splits)
  from emit_host_ok [OF M st good h, of g pg] show ?thesis
    by (auto simp: host_vectors_def last_of_def history_ok_def h(1))
qed

lemma emit_hosts_run:
  assumes M: "pymath_laws M" and st: "storable C W T" and "distinct hosts"
    and "\<forall>h \<in> set hosts. good_hash C (r_hgetall R (fw_redis w) (window_key T h ts)) \<and> history_ok C R (fw_redis w) T h"
  shows "\<exists>vss w'. aeach (\<lambda>h. emit_host M C R W T h ts g pg) hosts w = (Inr vss, w') \<and>
    list_all2 (\<lambda>h vs. host_vectors W T ts (last_of C R (fw_redis w) T h) h vs) hosts vss \<and>
    fw_bus w' = fw_bus w @ concat vss \<and>
    (\<forall>h \<in> set hosts. last_of C R (fw_redis w') T h = Some ts \<and> history_ok C R (fw_redis w') T h) \<and>
    (\<forall>k. k \<notin> prev_key T ` set hosts \<longrightarrow> k \<notin> peers_key T ` set hosts \<longrightarrow>
       r_view R (fw_redis w') k = r_view R (fw_redis w) k)"
  using assms(3,4)
proof (induction hosts arbitrary: w)
  case Nil
  then show ?case by (simp add: ret_def)
next
  case (Cons h hosts)
  obtain vs w1 where e: "emit_host M C R W T h ts g pg w = (Inr vs, w1)"
    "host_vectors W T ts (last_of C R (fw_redis w) T h) h vs" "fw_bus w1 = fw_bus w @ vs"
    "last_of C R (fw_redis w1) T h = Some ts" "history_ok C R (fw_redis w1) T h"
    and fr: "\<And>k. k \<noteq> prev_key T h \<Longrightarrow> k \<noteq> peers_key T h \<Longrightarrow> r_view R (fw_redis w1) k = r_view R (fw_redis w) k"
    using emit_host_run [OF M st, of w h ts g pg] Cons.prems by auto
  have keep: "last_of C R (fw_redis w1) T h' = last_of C R (fw_redis w) T h'"
      "history_ok C R (fw_redis w1) T h' = history_ok C R (fw_redis w) T h'"
      "r_hgetall R (fw_redis w1) (window_key T h' ts) = r_hgetall R (fw_redis w) (window_key T h' ts)"
    if "h' \<in> set hosts" for h'
  proof -
    have "h' \<noteq> h" using that Cons.prems by auto
    then have "r_view R (fw_redis w1) (prev_key T h') = r_view R (fw_redis w) (prev_key T h')"
      by (intro fr) auto
    then show "last_of C R (fw_redis w1) T h' = last_of C R (fw_redis w) T h'"
      "history_ok C R (fw_redis w1) T h' = history_ok C R (fw_redis w) T h'" by (rule history_cong)+
    show "r_hgetall R (fw_redis w1) (window_key T h' ts) = r_hgetall R (fw_redis w) (window_key T h' ts)"
      by (rule view_hgetall, rule fr) simp_all
  qed
  have "\<forall>h' \<in> set hosts. good_hash C (r_hgetall R (fw_redis w1) (window_key T h' ts)) \<and> history_ok C R (fw_redis w1) T h'"
    using Cons.prems keep by auto
  then obtain vss w' where r: "aeach (\<lambda>h. emit_host M C R W T h ts g pg) hosts w1 = (Inr vss, w')"
    "list_all2 (\<lambda>h vs. host_vectors W T ts (last_of C R (fw_redis w1) T h) h vs) hosts vss"
    "fw_bus w' = fw_bus w1 @ concat vss"
    "\<forall>h \<in> set hosts. last_of C R (fw_redis w') T h = Some ts \<and> history_ok C R (fw_redis w') T h"
    "\<forall>k. k \<notin> prev_key T ` set hosts \<longrightarrow> k \<notin> peers_key T ` set hosts \<longrightarrow>
       r_view R (fw_redis w') k = r_view R (fw_redis w1) k"
    using Cons.IH [of w1] Cons.prems by auto
  have "list_all2 (\<lambda>h vs. host_vectors W T ts (last_of C R (fw_redis w) T h) h vs) hosts vss"
    using r(2) by (rule list.rel_mono_strong) (simp add: keep)
  moreover have "r_view R (fw_redis w') (prev_key T h) = r_view R (fw_redis w1) (prev_key T h)"
    using Cons.prems(1) by (intro r(5) [rule_format]) auto
  then have "last_of C R (fw_redis w') T h = Some ts" "history_ok C R (fw_redis w') T h"
    using history_cong [of "fw_redis w'" T h "fw_redis w1"] e(4,5) by auto
  ultimately show ?case
    using e r fr by (intro exI [of _ "vs # vss"] exI [of _ w']) (auto simp: act_simps)
qed

end

lemma hosts_timeline:
  assumes "list_all2 (\<lambda>h vs. host_vectors W T ts (lo h) h vs) hosts vss" "distinct hosts"
  shows "timeline T h (concat vss) =
    (if h \<in> set hosts then map (\<lambda>t. t * 1000000) (gap_windows W (lo h) ts @ [ts]) else [])"
  using assms
proof (induction rule: list_all2_induct)
  case (Cons x xs v vs)
  then show ?case using host_vectors_timeline [OF Cons.hyps(1), of h] by auto
qed (simp add: timeline_def)

context backing
begin

lemma clear_open_run:
  assumes "read_open C R s T = Inr (Some (ts, seen))"
  shows "clear_open C R T ts s = (Inr True, r_delete R s [open_key T])"
    "read_open C R (r_delete R s [open_key T]) T = Inr None"
  using assms delete_reads(1) [of "open_key T" "[open_key T]" s] by (simp_all add: clear_open_def read_open_def)

lemma read_open_cong:
  "r_view R s (open_key T) = r_view R s' (open_key T) \<Longrightarrow> read_open C R s T = read_open C R s' T"
  by (simp add: read_open_def view_hgetall [of s _ s'])

lemma delete_good: "good_hash C (r_hgetall R s k) \<Longrightarrow> good_hash C (r_hgetall R (r_delete R s ks) k)"
proof (cases "k \<in> set ks")
  case True
  then show ?thesis by (simp add: delete_reads good_hash_def)
next
  case False
  then have "r_hgetall R (r_delete R s ks) k = r_hgetall R s k" by (intro view_hgetall delete_frame)
  then show "good_hash C (r_hgetall R s k) \<Longrightarrow> ?thesis" by simp
qed

lemma close_window_run:
  assumes M: "pymath_laws M" and st: "storable C W T"
    and good: "\<forall>h k. good_hash C (r_hgetall R (fw_redis w) (window_key T h k))"
    and hist: "\<forall>h. history_ok C R (fw_redis w) T h"
    and op: "read_open C R (fw_redis w) T = Inr (Some (ts, seen))"
  shows "\<exists>vs w'. close_window M C R W T ts w = (Inr vs, w') \<and> fw_bus w' = fw_bus w @ vs \<and>
    (\<forall>h. timeline T h vs = (if h \<in> set (read_hosts R (fw_redis w) T ts)
       then map (\<lambda>t. t * 1000000) (gap_windows W (last_of C R (fw_redis w) T h) ts @ [ts]) else [])) \<and>
    (\<forall>h. last_of C R (fw_redis w') T h =
      (if h \<in> set (read_hosts R (fw_redis w) T ts) then Some ts else last_of C R (fw_redis w) T h)) \<and>
    (\<forall>h. history_ok C R (fw_redis w') T h) \<and>
    (\<forall>h k. good_hash C (r_hgetall R (fw_redis w') (window_key T h k))) \<and>
    read_open C R (fw_redis w') T = Inr None"
proof -
  define hosts where "hosts = read_hosts R (fw_redis w) T ts"
  have dh: "distinct hosts" by (simp add: hosts_def read_hosts_def smembers_distinct)
  define g where "g = from_edges (read_edges R (fw_redis w) T ts)"
  define pg where "pg = from_edges (read_edges R (fw_redis w) T (ts - fg_delta W))"
  obtain vss w1 where e: "aeach (\<lambda>h. emit_host M C R W T h ts g pg) hosts w = (Inr vss, w1)"
    "list_all2 (\<lambda>h vs. host_vectors W T ts (last_of C R (fw_redis w) T h) h vs) hosts vss"
    "fw_bus w1 = fw_bus w @ concat vss"
    "\<forall>h \<in> set hosts. last_of C R (fw_redis w1) T h = Some ts \<and> history_ok C R (fw_redis w1) T h"
    and fr: "\<And>k. k \<notin> prev_key T ` set hosts \<Longrightarrow> k \<notin> peers_key T ` set hosts \<Longrightarrow>
       r_view R (fw_redis w1) k = r_view R (fw_redis w) k"
    using emit_hosts_run [OF M st dh, of w ts g pg] good hist by auto
  let ?s1 = "fw_redis w1"
  let ?s2 = "discard_window R ?s1 T ts hosts"
  let ?s3 = "discard_graph R ?s2 T (ts - fg_delta W)"
  let ?s4 = "r_delete R ?s3 [open_key T]"
  have "r_view R ?s3 (open_key T) = r_view R (fw_redis w) (open_key T)"
    by (simp add: discard_graph_def discard_window_def delete_frame) (subst delete_frame, auto simp: fr image_iff)
  then have op3: "read_open C R ?s3 T = Inr (Some (ts, seen))" using op read_open_cong by metis
  have run: "close_window M C R W T ts w = (Inr (concat vss), w1\<lparr>fw_redis := ?s4\<rparr>)"
    unfolding close_window_def
    by (simp add: act_simps hosts_def [symmetric] g_def [symmetric] pg_def [symmetric] e(1) on_redis_def
        clear_open_run(1) [OF op3])
  have prev: "r_view R ?s4 (prev_key T h) = r_view R ?s1 (prev_key T h)" for h
    by (simp add: discard_graph_def discard_window_def delete_frame) (subst delete_frame, auto)
  have keep: "r_view R ?s1 (prev_key T h) = r_view R (fw_redis w) (prev_key T h)" if "h \<notin> set hosts" for h
    using that by (intro fr) auto
  have last: "last_of C R ?s4 T h = (if h \<in> set hosts then Some ts else last_of C R (fw_redis w) T h)" for h
    using history_cong(1) [OF prev] history_cong(1) [OF keep] e(4) by auto
  have hok: "history_ok C R ?s4 T h" for h
    using history_cong(2) [OF prev] history_cong(2) [OF keep] e(4) hist by (cases "h \<in> set hosts") auto
  have good4: "good_hash C (r_hgetall R ?s4 (window_key T h k))" for h k
  proof -
    have "r_hgetall R ?s1 (window_key T h k) = r_hgetall R (fw_redis w) (window_key T h k)"
      by (rule view_hgetall, rule fr) auto
    with good have "good_hash C (r_hgetall R ?s1 (window_key T h k))" by simp
    then show ?thesis unfolding discard_graph_def discard_window_def by (intro delete_good)
  qed
  show ?thesis
    using run e(3) hosts_timeline [OF e(2) dh] last hok good4 clear_open_run(2) [OF op3]
    unfolding hosts_def [symmetric] by (intro exI [of _ "concat vss"] exI [of _ "w1\<lparr>fw_redis := ?s4\<rparr>"]) simp
qed

end

section \<open>The invariant of the event path\<close>

text \<open>
  Hashes read back, histories are finite, every host's published windows are strictly increasing and
  end at its watermark, and the open window is later than every watermark.
\<close>

definition feat_inv :: "pyconv \<Rightarrow> 's redis_ops \<Rightarrow> string \<Rightarrow> 's feat_world \<Rightarrow> bool" where
  "feat_inv C R T w \<longleftrightarrow>
     (\<forall>h k. good_hash C (r_hgetall R (fw_redis w) (window_key T h k))) \<and>
     (\<forall>h. history_ok C R (fw_redis w) T h \<and> sorted_wrt (<) (timeline T h (fw_bus w)) \<and>
        (case last_of C R (fw_redis w) T h of
           None \<Rightarrow> timeline T h (fw_bus w) = []
         | Some t \<Rightarrow> timeline T h (fw_bus w) \<noteq> [] \<and> last (timeline T h (fw_bus w)) = t * 1000000)) \<and>
     (case read_open C R (fw_redis w) T of
        Inl e \<Rightarrow> False
      | Inr None \<Rightarrow> (\<forall>h. last_of C R (fw_redis w) T h = None)
      | Inr (Some (ow, seen)) \<Rightarrow> (\<forall>h. case last_of C R (fw_redis w) T h of None \<Rightarrow> True | Some t \<Rightarrow> t < ow))"

lemma sorted_last_max: "sorted_wrt (<) xs \<Longrightarrow> x \<in> set xs \<Longrightarrow> x \<le> (last xs :: int)"
proof (induction xs)
  case (Cons a xs)
  then show ?case using last_in_set [of xs] by (cases "xs = []") (auto intro: less_imp_le)
qed simp

lemma on_redis_run:
  "f (fw_redis w) = (Inr x, s) \<Longrightarrow> abind (on_redis f) g w = g x (w\<lparr>fw_redis := s\<rparr>)"
  by (simp add: on_redis_def abind_def)

lemma gap_windows_sorted:
  assumes "0 < fg_delta W" "case lt of None \<Rightarrow> True | Some t \<Rightarrow> t < ts"
  shows "sorted_wrt (<) (gap_windows W lt ts @ [ts])"
    and "\<forall>x \<in> set (gap_windows W lt ts @ [ts]). case lt of None \<Rightarrow> True | Some t \<Rightarrow> t < x"
proof -
  have "sorted_wrt (<) (gap_windows W lt ts @ [ts]) \<and>
    (\<forall>x \<in> set (gap_windows W lt ts @ [ts]). case lt of None \<Rightarrow> True | Some t \<Rightarrow> t < x)"
  proof (cases lt)
    case (Some t)
    define D where "D = fg_delta W"
    have D: "0 < D" using assms(1) by (simp add: D_def)
    let ?gap = "(ts - t) div D - 1"
    have le: "t + i * D < ts" if "i \<le> ?gap" for i
    proof -
      have "(i + 1) * D \<le> ((ts - t) div D) * D" using that D by (intro mult_right_mono) simp_all
      also have "\<dots> \<le> ts - t"
        using div_mult_mod_eq [of "ts - t" D] pos_mod_sign [OF D, of "ts - t"] by linarith
      finally show ?thesis using D by (simp add: algebra_simps)
    qed
    have gt: "t < t + i * D" if "1 \<le> i" for i
    proof -
      have "0 < i * D" using that D by simp
      then show ?thesis by simp
    qed
    have inc: "sorted_wrt (<) (map (\<lambda>i. t + i * D) xs)" if "sorted_wrt (<) xs" for xs
      using that D by (induction xs) auto
    have "sorted_wrt (<) [1..?gap]" by (simp add: strict_sorted_iff)
    from inc [OF this] show ?thesis
      using assms(2) le gt Some
      by (auto simp: gap_windows_def Let_def D_def [symmetric] sorted_wrt_append)
  qed (simp add: gap_windows_def)
  then show "sorted_wrt (<) (gap_windows W lt ts @ [ts])"
    and "\<forall>x \<in> set (gap_windows W lt ts @ [ts]). case lt of None \<Rightarrow> True | Some t \<Rightarrow> t < x" by blast+
qed

lemma feat_inv_open_cases:
  assumes "feat_inv C R T w"
  obtains "read_open C R (fw_redis w) T = Inr None" "\<forall>h. last_of C R (fw_redis w) T h = None"
  | ow seen where "read_open C R (fw_redis w) T = Inr (Some (ow, seen))"
      "\<forall>h. case last_of C R (fw_redis w) T h of None \<Rightarrow> True | Some t \<Rightarrow> t < ow"
  using assms unfolding feat_inv_def
  by (cases "read_open C R (fw_redis w) T") (auto split: option.splits)

context backing
begin

lemma accumulate_inv:
  assumes inv: "feat_inv C R T w" and ev: "event_ok ev" "ev_tenant ev = T"
    and later: "\<forall>h. case last_of C R (fw_redis w) T h of None \<Rightarrow> True | Some t \<Rightarrow> t < ts"
  shows "feat_inv C R T (w\<lparr>fw_redis := snd (accumulate C R ev ts now (fw_redis w))\<rparr>)"
proof -
  let ?s = "snd (accumulate C R ev ts now (fw_redis w))"
  have "r_view R ?s (prev_key T h) = r_view R (fw_redis w) (prev_key T h)" for h
    using ev by (intro accumulate_frame) auto
  note hist = history_cong [OF this]
  have "read_open C R ?s T = Inr (Some (ts, now))" using accumulate_open [OF ev(1)] ev(2) by auto
  moreover have "good_hash C (r_hgetall R ?s (window_key T h k))" for h k
    using accumulate_good [OF ev(1)] inv ev(2) by (auto simp: feat_inv_def)
  moreover have "\<forall>h. history_ok C R (fw_redis w) T h \<and> sorted_wrt (<) (timeline T h (fw_bus w)) \<and>
        (case last_of C R (fw_redis w) T h of
           None \<Rightarrow> timeline T h (fw_bus w) = []
         | Some t \<Rightarrow> timeline T h (fw_bus w) \<noteq> [] \<and> last (timeline T h (fw_bus w)) = t * 1000000)"
    using inv unfolding feat_inv_def by blast
  ultimately show ?thesis using later unfolding feat_inv_def by (simp add: hist cong: option.case_cong)
qed

lemma close_inv:
  assumes M: "pymath_laws M" and st: "storable C W T" and D: "0 < fg_delta W" and inv: "feat_inv C R T w"
    and op: "read_open C R (fw_redis w) T = Inr (Some (ow, seen))"
  shows "\<exists>vs w'. close_window M C R W T ow w = (Inr vs, w') \<and> fw_bus w' = fw_bus w @ vs \<and>
    (\<forall>h. history_ok C R (fw_redis w') T h \<and> sorted_wrt (<) (timeline T h (fw_bus w')) \<and>
        (case last_of C R (fw_redis w') T h of
           None \<Rightarrow> timeline T h (fw_bus w') = []
         | Some t \<Rightarrow> timeline T h (fw_bus w') \<noteq> [] \<and> last (timeline T h (fw_bus w')) = t * 1000000 \<and> t \<le> ow)) \<and>
    (\<forall>h k. good_hash C (r_hgetall R (fw_redis w') (window_key T h k))) \<and>
    read_open C R (fw_redis w') T = Inr None"
proof -
  have good: "\<forall>h k. good_hash C (r_hgetall R (fw_redis w) (window_key T h k))"
    and hist: "\<forall>h. history_ok C R (fw_redis w) T h" using inv by (auto simp: feat_inv_def)
  obtain vs w' where c: "close_window M C R W T ow w = (Inr vs, w')" "fw_bus w' = fw_bus w @ vs"
    "\<And>h. timeline T h vs = (if h \<in> set (read_hosts R (fw_redis w) T ow)
       then map (\<lambda>t. t * 1000000) (gap_windows W (last_of C R (fw_redis w) T h) ow @ [ow]) else [])"
    "\<And>h. last_of C R (fw_redis w') T h =
      (if h \<in> set (read_hosts R (fw_redis w) T ow) then Some ow else last_of C R (fw_redis w) T h)"
    "\<And>h. history_ok C R (fw_redis w') T h"
    "\<forall>h k. good_hash C (r_hgetall R (fw_redis w') (window_key T h k))"
    "read_open C R (fw_redis w') T = Inr None"
    using close_window_run [OF M st good hist op] by blast
  have "sorted_wrt (<) (timeline T h (fw_bus w')) \<and>
        (case last_of C R (fw_redis w') T h of
           None \<Rightarrow> timeline T h (fw_bus w') = []
         | Some t \<Rightarrow> timeline T h (fw_bus w') \<noteq> [] \<and> last (timeline T h (fw_bus w')) = t * 1000000 \<and> t \<le> ow)" for h
  proof -
    let ?lt = "last_of C R (fw_redis w) T h" and ?tl = "timeline T h (fw_bus w)"
    have lt: "case ?lt of None \<Rightarrow> True | Some t \<Rightarrow> t < ow" using inv op by (auto simp: feat_inv_def)
    have old: "sorted_wrt (<) ?tl" "case ?lt of None \<Rightarrow> ?tl = [] | Some t \<Rightarrow> ?tl \<noteq> [] \<and> last ?tl = t * 1000000"
      using inv by (auto simp: feat_inv_def)
    show ?thesis
    proof (cases "h \<in> set (read_hosts R (fw_redis w) T ow)")
      case False
      then show ?thesis using old lt by (auto simp: c split: option.splits)
    next
      case True
      let ?g = "gap_windows W ?lt ow @ [ow]"
      note g = gap_windows_sorted [OF D lt]
      have sg: "sorted_wrt (<) (map (\<lambda>t. t * 1000000) ?g)"
        using g(1) by (simp only: sorted_wrt_map) (rule sorted_wrt_mono_rel [rotated], assumption, simp)
      have "x < y * 1000000" if "x \<in> set ?tl" "y \<in> set ?g" for x y
      proof (cases ?lt)
        case (Some t)
        then have "x \<le> t * 1000000" using sorted_last_max [OF old(1) that(1)] old(2) by simp
        moreover have "t < y" using g(2) that(2) Some by auto
        ultimately show ?thesis by linarith
      qed (use old that in simp)
      then have "sorted_wrt (<) (?tl @ map (\<lambda>t. t * 1000000) ?g)"
        using old(1) sg unfolding sorted_wrt_append by (auto simp del: map_append)
      then show ?thesis using True by (simp add: c(2,3,4))
    qed
  qed
  with c show ?thesis by blast
qed

lemma ingest_inv:
  assumes M: "pymath_laws M" and st: "storable C W T" and D: "0 < fg_delta W" and inv: "feat_inv C R T w"
    and ev: "event_ok ev" "ev_tenant ev = T"
  shows "\<exists>vs w'. ingest_event M C R W now ev w = (Inr vs, w') \<and> fw_bus w' = fw_bus w @ vs \<and> feat_inv C R T w'"
proof (cases "ev_src ev = []")
  case True
  with inv show ?thesis by (simp add: ingest_event_def act_simps)
next
  case False
  define ts where "ts = align (ev_ts ev) (fg_delta W)"
  have acc: "accumulate C R ev ts now s = (Inr (), snd (accumulate C R ev ts now s))" for s
    using accumulate_run [OF ev(1), of ts now s] by (metis prod.collapse)
  from inv show ?thesis
  proof (cases rule: feat_inv_open_cases)
    case 1
    have "ingest_event M C R W now ev w = (Inr [], w\<lparr>fw_redis := snd (accumulate C R ev ts now (fw_redis w))\<rparr>)"
      using False 1 ev acc [of "fw_redis w"]
      by (simp add: ingest_event_def act_simps ts_def [symmetric] on_redis_run [OF acc])
    then show ?thesis using accumulate_inv [OF inv ev, of ts now] 1(2) by simp
  next
    case (2 ow seen)
    show ?thesis
    proof (cases "ow < ts")
      case False': False
      show ?thesis
      proof (cases "ts < ow")
        case True
        then have "ingest_event M C R W now ev w = (Inr [], w)"
          using False 2 ev by (simp add: ingest_event_def act_simps ts_def [symmetric])
        with inv show ?thesis by simp
      next
        case eq: False
        with False' have teq: "ts = ow" by simp
        have "ingest_event M C R W now ev w = (Inr [], w\<lparr>fw_redis := snd (accumulate C R ev ts now (fw_redis w))\<rparr>)"
          using False 2(1) ev
          by (simp add: ingest_event_def act_simps ts_def [symmetric] teq on_redis_run [OF acc [unfolded teq]])
        then show ?thesis using accumulate_inv [OF inv ev 2(2), of now] by (simp add: teq)
      qed
    next
      case True
      obtain vs w1 where c: "close_window M C R W T ow w = (Inr vs, w1)" "fw_bus w1 = fw_bus w @ vs"
        "\<And>h. history_ok C R (fw_redis w1) T h \<and> sorted_wrt (<) (timeline T h (fw_bus w1)) \<and>
          (case last_of C R (fw_redis w1) T h of
             None \<Rightarrow> timeline T h (fw_bus w1) = []
           | Some t \<Rightarrow> timeline T h (fw_bus w1) \<noteq> [] \<and> last (timeline T h (fw_bus w1)) = t * 1000000 \<and> t \<le> ow)"
        "\<forall>h k. good_hash C (r_hgetall R (fw_redis w1) (window_key T h k))"
        "read_open C R (fw_redis w1) T = Inr None"
        using close_inv [OF M st D inv 2(1)] by blast
      let ?w = "w1\<lparr>fw_redis := snd (accumulate C R ev ts now (fw_redis w1))\<rparr>"
      have run: "ingest_event M C R W now ev w = (Inr vs, ?w)"
        using False True 2 ev acc [of "fw_redis w1"] c(1)
        by (simp add: ingest_event_def act_simps ts_def [symmetric] on_redis_run [OF acc])
      let ?s = "snd (accumulate C R ev ts now (fw_redis w1))"
      have "r_view R ?s (prev_key T h) = r_view R (fw_redis w1) (prev_key T h)" for h
        using ev by (intro accumulate_frame) auto
      note hist = history_cong [OF this]
      have "read_open C R ?s T = Inr (Some (ts, now))" using accumulate_open [OF ev(1)] ev(2) by auto
      moreover have "good_hash C (r_hgetall R ?s (window_key T h k))" for h k
        using accumulate_good [OF ev(1)] c(4) ev(2) by auto
      moreover have "case last_of C R (fw_redis w1) T h of None \<Rightarrow> True | Some t \<Rightarrow> t < ts" for h
        using c(3) [of h] True by (auto split: option.splits)
      moreover have "history_ok C R (fw_redis w1) T h \<and> sorted_wrt (<) (timeline T h (fw_bus w1)) \<and>
          (case last_of C R (fw_redis w1) T h of
             None \<Rightarrow> timeline T h (fw_bus w1) = []
           | Some t \<Rightarrow> timeline T h (fw_bus w1) \<noteq> [] \<and> last (timeline T h (fw_bus w1)) = t * 1000000)" for h
        using c(3) [of h] by (auto split: option.splits)
      ultimately have "feat_inv C R T ?w"
        unfolding feat_inv_def by (simp add: hist cong: option.case_cong)
      with run c(2) show ?thesis by simp
    qed
  qed
qed

end

section \<open>Runs of the event path\<close>

text \<open>The events of a tenant, each with the clock's reading when it is handled.\<close>

definition ingest_all ::
    "pymath \<Rightarrow> pyconv \<Rightarrow> 's redis_ops \<Rightarrow> feat_worker \<Rightarrow> (raw_event \<times> flt) list \<Rightarrow>
     ('s feat_world, state_vector list list) act" where
  "ingest_all M C R W evs = aeach (\<lambda>(ev, now). ingest_event M C R W now ev) evs"

lemma ingest_all_inv:
  assumes "backing C R" "pymath_laws M" "storable C W T" "0 < fg_delta W"
    and "feat_inv C R T w" "list_all (\<lambda>(ev, now). event_ok ev \<and> ev_tenant ev = T) evs"
  shows "\<exists>vss w'. ingest_all M C R W evs w = (Inr vss, w') \<and> fw_bus w' = fw_bus w @ concat vss \<and> feat_inv C R T w'"
  using assms(5,6)
proof (induction evs arbitrary: w)
  case Nil
  then show ?case by (simp add: ingest_all_def act_simps)
next
  case (Cons e evs)
  obtain ev now where e: "e = (ev, now)" by force
  obtain vs w1 where 1: "ingest_event M C R W now ev w = (Inr vs, w1)" "fw_bus w1 = fw_bus w @ vs" "feat_inv C R T w1"
    using backing.ingest_inv [OF assms(1-4) Cons.prems(1), of ev now] Cons.prems(2) e by auto
  obtain vss w2 where 2: "ingest_all M C R W evs w1 = (Inr vss, w2)" "fw_bus w2 = fw_bus w1 @ concat vss" "feat_inv C R T w2"
    using Cons.IH [OF 1(3)] Cons.prems(2) by auto
  have "ingest_all M C R W (e # evs) w = (Inr (vs # vss), w2)"
    using 1(1) 2(1) by (simp add: ingest_all_def e act_simps)
  with 1(2) 2 show ?case by auto
qed

lemma empty_inv:
  assumes "backing C R" "\<And>k. r_view R (fw_redis w) k = ([], [], [], [])" "fw_bus w = []"
  shows "feat_inv C R T w"
proof -
  have h: "r_hgetall R (fw_redis w) k = []" for k using assms(2) [of k] by (simp add: r_view_def)
  have "c_loads_hist C ''[]'' = Inr []"
    using assms(1) by (simp add: backing_def pyconv_laws.loads_hist_empty)
  then show ?thesis
    by (simp add: feat_inv_def h good_hash_def history_ok_def last_of_def read_history_def read_open_def
        assms(3) dict_get_def)
qed


definition demo_worker :: feat_worker where
  "demo_worker = \<lparr>fg_delta = 60, fg_max_gap = 40, fg_fanout = 5, fg_cap = 200, fg_floor = Fin 2,
     fg_speed = Fin 60, fg_store = False\<rparr>"

definition empty_world :: "mem feat_world" where
  "empty_world = \<lparr>fw_redis = [], fw_rows = [], fw_bus = []\<rparr>"

lemma mem_empty_view: "r_view std_redis (fw_redis empty_world) k = ([], [], [], [])"
  by (simp add: empty_world_def r_view_def std_redis_def mem_redis_def m_entry_def no_entry_def dict_get_def
      uniq_def z_sort_def)

lemma demo_storable: "storable std_conv demo_worker T" and demo_delta: "0 < fg_delta demo_worker"
  by (simp_all add: storable_def demo_worker_def)


section \<open>Back-filled silence\<close>

lemma gap_windows_uniform:
  assumes "0 < D" "D = fg_delta W" "0 < n" "n - 1 \<le> fg_max_gap W"
  shows "gap_windows W (Some t) (t + n * D) @ [t + n * D] = map (\<lambda>i. t + i * D) [1..n]"
proof -
  have "(t + n * D - t) div fg_delta W = n" using assms(1,2) by simp
  moreover have "[1..n] = [1..n - 1] @ [n]" using assms(3) by (simp add: upto_rec2)
  ultimately show ?thesis using assms by (auto simp: gap_windows_def Let_def)
qed

text \<open>
  The time axis of a host has no holes: when a window closes \<open>n\<close> widths after the last one
  published for a host, and the silence is no longer than configured, exactly the \<open>n\<close> windows in
  between and including the closing one are published for that host, evenly spaced and in order; a
  host that sent nothing in the window gets nothing; and closing cannot fail.
\<close>

lemma closing_fills_the_gap:
  assumes "backing C R" "pymath_laws M" "storable C W T" "0 < fg_delta W" "feat_inv C R T w"
    and "read_open C R (fw_redis w) T = Inr (Some (t + n * fg_delta W, seen))"
    and "last_of C R (fw_redis w) T h = Some t" "0 < n" "n - 1 \<le> fg_max_gap W"
  shows "\<exists>vs w'. close_window M C R W T (t + n * fg_delta W) w = (Inr vs, w') \<and> fw_bus w' = fw_bus w @ vs \<and>
    map (as_utc \<circ> sv_ts) (filter (\<lambda>v. sv_tenant v = T \<and> sv_host v = h) vs) =
      (if h \<in> set (read_hosts R (fw_redis w) T (t + n * fg_delta W))
       then map (\<lambda>i. (t + i * fg_delta W) * 1000000) [1..n] else [])"
proof -
  have good: "\<forall>h k. good_hash C (r_hgetall R (fw_redis w) (window_key T h k))"
    and hist: "\<forall>h. history_ok C R (fw_redis w) T h" using assms(5) by (auto simp: feat_inv_def)
  have u: "gap_windows W (Some t) (t + n * fg_delta W) @ [t + n * fg_delta W] = map (\<lambda>i. t + i * fg_delta W) [1..n]"
    by (rule gap_windows_uniform) (use assms in simp_all)
  from backing.close_window_run [OF assms(1-3) good hist assms(6)] obtain vs w' where
    c: "close_window M C R W T (t + n * fg_delta W) w = (Inr vs, w')" "fw_bus w' = fw_bus w @ vs"
    "timeline T h vs = (if h \<in> set (read_hosts R (fw_redis w) T (t + n * fg_delta W))
       then map (\<lambda>t. t * 1000000) (gap_windows W (last_of C R (fw_redis w) T h) (t + n * fg_delta W) @ [t + n * fg_delta W])
       else [])" by blast
  then show ?thesis unfolding assms(7) u timeline_def by (auto simp: comp_def)
qed

section \<open>An event after the watchdog\<close>

context backing
begin

lemma accumulate_host:
  assumes "event_ok ev"
  shows "ev_src ev \<in> set (read_hosts R (snd (accumulate C R ev ts now s)) (ev_tenant ev) ts)"
proof -
  obtain incs where i: "event_increments C ev = Inr incs" "finite_values incs" "wf_dict incs"
    using accumulate_run [OF assms] by blast
  let ?s3 = "r_sadd R (r_expire R (fst (hincr_all R s (window_key (ev_tenant ev) (ev_src ev) ts) incs))
      (window_key (ev_tenant ev) (ev_src ev) ts) WINDOW_TTL_S) (hosts_key (ev_tenant ev) ts) [ev_src ev]"
  have "r_view R (snd (accumulate C R ev ts now s)) (hosts_key (ev_tenant ev) ts) = r_view R ?s3 (hosts_key (ev_tenant ev) ts)"
    by (simp add: accumulate_def i Let_def case_prod_unfold frames)
  then have "r_smembers R (snd (accumulate C R ev ts now s)) (hosts_key (ev_tenant ev) ts)
      = r_smembers R ?s3 (hosts_key (ev_tenant ev) ts)" by (rule view_smembers)
  then show ?thesis by (simp add: read_hosts_def sadd_same)
qed

lemma close_mentions:
  assumes "pymath_laws M" "storable C W T" "\<forall>h k. good_hash C (r_hgetall R (fw_redis w) (window_key T h k))"
    "\<forall>h. history_ok C R (fw_redis w) T h" "read_open C R (fw_redis w) T = Inr (Some (ts, seen))"
    "h \<in> set (read_hosts R (fw_redis w) T ts)"
  shows "\<exists>vs w'. close_window M C R W T ts w = (Inr vs, w') \<and> fw_bus w' = fw_bus w @ vs \<and>
    ts * 1000000 \<in> set (timeline T h vs) \<and> (\<forall>h. history_ok C R (fw_redis w') T h) \<and>
    (\<forall>h k. good_hash C (r_hgetall R (fw_redis w') (window_key T h k))) \<and>
    read_open C R (fw_redis w') T = Inr None"
proof -
  from close_window_run [OF assms(1-5)] obtain vs w' where
    c: "close_window M C R W T ts w = (Inr vs, w')" "fw_bus w' = fw_bus w @ vs"
    "timeline T h vs = (if h \<in> set (read_hosts R (fw_redis w) T ts)
       then map (\<lambda>t. t * 1000000) (gap_windows W (last_of C R (fw_redis w) T h) ts @ [ts]) else [])"
    "\<forall>h. history_ok C R (fw_redis w') T h"
    "\<forall>h k. good_hash C (r_hgetall R (fw_redis w') (window_key T h k))"
    "read_open C R (fw_redis w') T = Inr None" by blast
  moreover have "ts * 1000000 \<in> set (timeline T h vs)" using c(3) assms(6) by simp
  ultimately show ?thesis by blast
qed

lemma late_after_watchdog:
  assumes M: "pymath_laws M" and st: "storable C W T" and D: "0 < fg_delta W" and inv: "feat_inv C R T w"
    and op: "read_open C R (fw_redis w) T = Inr (Some (ow, seen))" and h: "h \<in> set (read_hosts R (fw_redis w) T ow)"
    and grace: "\<not> now - seen < grace_s W"
    and ev: "event_ok ev" "ev_tenant ev = T" "ev_src ev = h" "h \<noteq> []" "align (ev_ts ev) (fg_delta W) = ow"
    and next_ev: "event_ok ev'" "ev_tenant ev' = T" "ev_src ev' \<noteq> []" "ow < align (ev_ts ev') (fg_delta W)"
  shows "\<exists>v1 w1 w2 v3 w3. watchdog_tenant M C R W now T w = (Inr v1, w1) \<and>
    ingest_event M C R W now1 ev w1 = (Inr [], w2) \<and> ingest_event M C R W now2 ev' w2 = (Inr v3, w3) \<and>
    fw_bus w3 = fw_bus w @ v1 @ v3 \<and> ow * 1000000 \<in> set (timeline T h v1) \<and> ow * 1000000 \<in> set (timeline T h v3)"
proof -
  have good: "\<forall>h k. good_hash C (r_hgetall R (fw_redis w) (window_key T h k))"
    and hist: "\<forall>h. history_ok C R (fw_redis w) T h" using inv by (auto simp: feat_inv_def)
  obtain v1 w1 where 1: "close_window M C R W T ow w = (Inr v1, w1)" "fw_bus w1 = fw_bus w @ v1"
    "ow * 1000000 \<in> set (timeline T h v1)" "\<forall>h. history_ok C R (fw_redis w1) T h"
    "\<forall>h k. good_hash C (r_hgetall R (fw_redis w1) (window_key T h k))" "read_open C R (fw_redis w1) T = Inr None"
    using close_mentions [OF M st good hist op h] by blast
  have tick: "watchdog_tenant M C R W now T w = (Inr v1, w1)"
    using 1(1) op grace by (simp add: watchdog_tenant_def act_simps)
  have acc: "accumulate C R e ts n s = (Inr (), snd (accumulate C R e ts n s))" if "event_ok e" for e ts n s
    using accumulate_run [OF that, of ts n s] by (metis prod.collapse)
  let ?s = "snd (accumulate C R ev ow now1 (fw_redis w1))"
  let ?w2 = "w1\<lparr>fw_redis := ?s\<rparr>"
  have run2: "ingest_event M C R W now1 ev w1 = (Inr [], ?w2)"
    using ev 1(6) by (simp add: ingest_event_def Let_def act_simps on_redis_run [OF acc [OF ev(1)]])
  have "r_view R ?s (prev_key T h') = r_view R (fw_redis w1) (prev_key T h')" for h'
    using ev by (intro accumulate_frame) auto
  note hk = history_cong(2) [OF this]
  have good2: "\<forall>h k. good_hash C (r_hgetall R (fw_redis ?w2) (window_key T h k))"
    using accumulate_good [OF ev(1)] 1(5) ev(2) by auto
  have hist2: "\<forall>h. history_ok C R (fw_redis ?w2) T h" using 1(4) hk by simp
  have op2: "read_open C R (fw_redis ?w2) T = Inr (Some (ow, now1))"
    using accumulate_open [OF ev(1), of ow now1 "fw_redis w1"] ev(2) by simp
  have h2: "h \<in> set (read_hosts R (fw_redis ?w2) T ow)"
    using accumulate_host [OF ev(1), of ow now1 "fw_redis w1"] ev(2,3) by simp
  obtain v3 w3 where 3: "close_window M C R W T ow ?w2 = (Inr v3, w3)" "fw_bus w3 = fw_bus ?w2 @ v3"
    "ow * 1000000 \<in> set (timeline T h v3)" using close_mentions [OF M st good2 hist2 op2 h2] by blast
  let ?ts = "align (ev_ts ev') (fg_delta W)"
  have "ingest_event M C R W now2 ev' ?w2 =
      (Inr v3, w3\<lparr>fw_redis := snd (accumulate C R ev' ?ts now2 (fw_redis w3))\<rparr>)"
    using next_ev op2 3(1) by (simp add: ingest_event_def Let_def act_simps on_redis_run [OF acc [OF next_ev(1)]])
  with tick run2 1(2,3) 3(2,3) show ?thesis by (intro exI conjI) (assumption | simp)+
qed

end

text \<open>
  C6. The late-event guard does not survive the watchdog: once the watchdog has closed a window and
  published a host's vector for it, the next event of that host for the same window is accepted and
  opens the window again, and when the stream moves on a second vector of the same host and the same
  window is published.
\<close>

theorem watchdog_lets_a_window_reopen:
  assumes "backing C R" "pymath_laws M" "storable C W T" "0 < fg_delta W" "feat_inv C R T w"
    and "read_open C R (fw_redis w) T = Inr (Some (ow, seen))" "h \<in> set (read_hosts R (fw_redis w) T ow)"
    and "\<not> now - seen < grace_s W"
    and "event_ok ev" "ev_tenant ev = T" "ev_src ev = h" "h \<noteq> []" "align (ev_ts ev) (fg_delta W) = ow"
    and "event_ok ev'" "ev_tenant ev' = T" "ev_src ev' \<noteq> []" "ow < align (ev_ts ev') (fg_delta W)"
  shows "\<exists>v1 w1 w2 v3 w3. watchdog_tenant M C R W now T w = (Inr v1, w1) \<and>
    ingest_event M C R W now1 ev w1 = (Inr [], w2) \<and> ingest_event M C R W now2 ev' w2 = (Inr v3, w3) \<and>
    fw_bus w3 = fw_bus w @ v1 @ v3 \<and>
    ow * 1000000 \<in> set (timeline T h v1) \<and> ow * 1000000 \<in> set (timeline T h v3)"
  by (rule backing.late_after_watchdog [OF assms])

definition open_world :: "mem feat_world" where
  "open_world = empty_world\<lparr>fw_redis := snd (accumulate std_conv std_redis demo_event 60 (Fin 0) [])\<rparr>"

lemma demo_event_fields [simp]:
  "ev_tenant demo_event = ''5''" "ev_src demo_event = ''a''" "ev_ts demo_event = Aware 61000000"
  by (simp_all add: demo_event_def)

lemma open_world_facts:
  "feat_inv std_conv std_redis ''5'' open_world"
  "read_open std_conv std_redis (fw_redis open_world) ''5'' = Inr (Some (60, Fin 0))"
  "''a'' \<in> set (read_hosts std_redis (fw_redis open_world) ''5'' 60)"
proof -
  have e: "feat_inv std_conv std_redis ''5'' empty_world"
    by (rule empty_inv [OF std.backing_axioms mem_empty_view]) (simp add: empty_world_def)
  have last: "last_of std_conv std_redis [] ''5'' h = None" for h
    by (simp add: last_of_def read_history_def dict_get_def std_conv_def Let_def)
  show "feat_inv std_conv std_redis ''5'' open_world"
    using std.accumulate_inv [OF e demo_event_ok, of 60 "Fin 0"] by (simp add: open_world_def last empty_world_def)
  show "read_open std_conv std_redis (fw_redis open_world) ''5'' = Inr (Some (60, Fin 0))"
    using std.accumulate_open [OF demo_event_ok, of 60 "Fin 0" "[]"] by (simp add: open_world_def)
  show "''a'' \<in> set (read_hosts std_redis (fw_redis open_world) ''5'' 60)"
    using std.accumulate_host [OF demo_event_ok, of 60 "Fin 0" "[]"] by (simp add: open_world_def)
qed

lemma watchdog_lets_a_window_reopen_witness:
  "\<exists>v1 w1 w2 v3 w3. watchdog_tenant rat_math std_conv std_redis demo_worker (Fin 3) ''5'' open_world = (Inr v1, w1) \<and>
    ingest_event rat_math std_conv std_redis demo_worker (Fin 4) demo_event w1 = (Inr [], w2) \<and>
    ingest_event rat_math std_conv std_redis demo_worker (Fin 5) (demo_event\<lparr>ev_ts := Aware 121000000\<rparr>) w2 = (Inr v3, w3) \<and>
    60000000 \<in> set (timeline ''5'' ''a'' v1) \<and> 60000000 \<in> set (timeline ''5'' ''a'' v3)"
proof -
  have g: "\<not> Fin 3 - Fin 0 < grace_s demo_worker"
    by (simp add: grace_s_def demo_worker_def)
  have a: "align (ev_ts demo_event) (fg_delta demo_worker) = 60"
    by (simp add: align_def demo_worker_def epoch_seconds_def)
  have e': "event_ok (demo_event\<lparr>ev_ts := Aware 121000000\<rparr>)"
    by (simp add: event_ok_def demo_event_def PACKET_FIELDS_def)
  have a': "60 < align (ev_ts (demo_event\<lparr>ev_ts := Aware 121000000\<rparr>)) (fg_delta demo_worker)"
    by (simp add: align_def demo_worker_def epoch_seconds_def)
  from watchdog_lets_a_window_reopen [OF std.backing_axioms rat_math.pymath_laws_axioms demo_storable demo_delta
      open_world_facts g demo_event_ok _ _ _ a e' _ _ a', of "Fin 4" "Fin 5"]
  show ?thesis by force
qed

lemma closing_fills_the_gap_witness:
  "\<exists>w vs w'. last_of std_conv std_redis (fw_redis w) ''5'' ''a'' = Some 60 \<and>
    close_window rat_math std_conv std_redis demo_worker ''5'' 180 w = (Inr vs, w') \<and>
    map (as_utc \<circ> sv_ts) (filter (\<lambda>v. sv_tenant v = ''5'' \<and> sv_host v = ''a'') vs) = [120000000, 180000000]"
proof -
  let ?ev = "demo_event\<lparr>ev_ts := Aware 181000000\<rparr>"
  have ev: "event_ok ?ev" by (simp add: event_ok_def demo_event_def PACKET_FIELDS_def)
  obtain v1 w1 where 1: "close_window rat_math std_conv std_redis demo_worker ''5'' 60 open_world = (Inr v1, w1)"
    "last_of std_conv std_redis (fw_redis w1) ''5'' ''a'' = Some 60"
    and inv1: "feat_inv std_conv std_redis ''5'' (w1\<lparr>fw_redis := snd (accumulate std_conv std_redis ?ev 180 (Fin 1) (fw_redis w1))\<rparr>)"
  proof -
    have D: "60 < align (ev_ts ?ev) (fg_delta demo_worker)" "align (ev_ts ?ev) (fg_delta demo_worker) = 180"
      by (simp_all add: align_def demo_worker_def epoch_seconds_def)
    have good: "\<forall>h k. good_hash std_conv (r_hgetall std_redis (fw_redis open_world) (window_key ''5'' h k))"
      and hist: "\<forall>h. history_ok std_conv std_redis (fw_redis open_world) ''5'' h"
      using open_world_facts(1) by (auto simp: feat_inv_def)
    obtain v1 w1 where c: "close_window rat_math std_conv std_redis demo_worker ''5'' 60 open_world = (Inr v1, w1)"
      "last_of std_conv std_redis (fw_redis w1) ''5'' ''a'' = Some 60"
      using std.close_window_run [OF rat_math.pymath_laws_axioms demo_storable good hist open_world_facts(2)]
        open_world_facts(3) by force
    have run: "ingest_event rat_math std_conv std_redis demo_worker (Fin 1) ?ev open_world =
        (Inr v1, w1\<lparr>fw_redis := snd (accumulate std_conv std_redis ?ev 180 (Fin 1) (fw_redis w1))\<rparr>)"
    proof -
      have "accumulate std_conv std_redis ?ev 180 (Fin 1) (fw_redis w1) =
          (Inr (), snd (accumulate std_conv std_redis ?ev 180 (Fin 1) (fw_redis w1)))"
        using std.accumulate_run [OF ev, of 180 "Fin 1" "fw_redis w1"] by (metis prod.collapse)
      then show ?thesis using c(1) open_world_facts(2) D
        by (simp add: ingest_event_def Let_def act_simps on_redis_run)
    qed
    have "feat_inv std_conv std_redis ''5'' (w1\<lparr>fw_redis := snd (accumulate std_conv std_redis ?ev 180 (Fin 1) (fw_redis w1))\<rparr>)"
      using std.ingest_inv [OF rat_math.pymath_laws_axioms demo_storable demo_delta open_world_facts(1) ev, of "Fin 1"] run
      by simp
    with c that show ?thesis by blast
  qed
  let ?w = "w1\<lparr>fw_redis := snd (accumulate std_conv std_redis ?ev 180 (Fin 1) (fw_redis w1))\<rparr>"
  have op: "read_open std_conv std_redis (fw_redis ?w) ''5'' = Inr (Some (60 + 2 * fg_delta demo_worker, Fin 1))"
    using std.accumulate_open [OF ev, of 180 "Fin 1" "fw_redis w1"] by (simp add: demo_worker_def)
  have "r_view std_redis (fw_redis ?w) (prev_key ''5'' ''a'') = r_view std_redis (fw_redis w1) (prev_key ''5'' ''a'')"
    using std.accumulate_frame [OF ev] by simp
  then have l: "last_of std_conv std_redis (fw_redis ?w) ''5'' ''a'' = Some 60"
    using 1(2) std.history_cong(1) by metis
  have h: "''a'' \<in> set (read_hosts std_redis (fw_redis ?w) ''5'' 180)"
    using std.accumulate_host [OF ev, of 180 "Fin 1" "fw_redis w1"] by simp
  have n: "(0::int) < 2" "2 - 1 \<le> fg_max_gap demo_worker" "60 + 2 * fg_delta demo_worker = 180"
    by (simp_all add: demo_worker_def)
  from closing_fills_the_gap [OF std.backing_axioms rat_math.pymath_laws_axioms demo_storable demo_delta inv1 op l n(1,2)]
  obtain vs w' where "close_window rat_math std_conv std_redis demo_worker ''5'' 180 ?w = (Inr vs, w')"
    "map (as_utc \<circ> sv_ts) (filter (\<lambda>v. sv_tenant v = ''5'' \<and> sv_host v = ''a'') vs) =
      map (\<lambda>i. (60 + i * fg_delta demo_worker) * 1000000) [1..2]"
    unfolding n(3) using h by auto
  then show ?thesis using l
    by (intro exI [of _ ?w] exI [of _ vs] exI [of _ w']) (simp add: demo_worker_def upto_rec1)
qed

end
