(* ===== verification/StubPredictor.thy ===== *)
theory StubPredictor
  imports Schema "HOL-Library.Multiset"
begin

text \<open>
  \<open>services/inference/stub_predictor.py\<close>: the deterministic predictor the serving plane runs on.
  A state block is the list of its rows. The three numpy reductions it uses are the record \<open>NP\<close>
  with the laws \<open>numpy_laws\<close> on finite data; elementwise arithmetic is a map. \<open>math.exp\<close> and
  \<open>math.tanh\<close> are fields of \<open>M\<close>. The returned dictionary has no tenant, which the caller adds: it is a
  \<open>forecast\<close> with an empty tenant.
\<close>

record numpy =
  np_sum :: "flt list \<Rightarrow> flt"
  np_mean :: "flt list \<Rightarrow> flt"
  np_diff :: "flt list \<Rightarrow> flt list"

locale numpy_laws =
  fixes NP :: numpy
  assumes sum_Fin: "np_sum NP (map Fin xs) = Fin (sum_list xs)"
    and mean_Fin: "xs \<noteq> [] \<Longrightarrow> np_mean NP (map Fin xs) = Fin (sum_list xs / of_nat (length xs))"
    and diff_Fin: "np_diff NP (map Fin xs) = map (\<lambda>(a, b). Fin (b - a)) (zip xs (tl xs))"

definition list_numpy :: numpy where
  "list_numpy = \<lparr>np_sum = fsum, np_mean = (\<lambda>xs. fsum xs / Fin (of_nat (length xs))),
     np_diff = (\<lambda>xs. map (\<lambda>(a, b). b - a) (zip xs (tl xs)))\<rparr>"

interpretation list_numpy: numpy_laws list_numpy
proof unfold_locales
  show "np_diff list_numpy (map Fin xs) = map (\<lambda>(a, b). Fin (b - a)) (zip xs (tl xs))" for xs
    by (simp add: list_numpy_def map_tl [symmetric] zip_map1 zip_map2 case_prod_unfold)
qed (simp_all add: list_numpy_def)

section \<open>Constants\<close>

definition MODEL_VERSION :: string where "MODEL_VERSION = ''stub-0''"
definition COUNTERFACTUAL_LABEL :: string where "COUNTERFACTUAL_LABEL = ''model-internal what-if''"

definition DRIVERS :: "string list" where
  "DRIVERS = [''syn_ratio'', ''dst_port_entropy'', ''new_peer_count'', ''d_out_degree'']"

definition DRIVER_SCALE :: "(string, rat) dict" where
  "DRIVER_SCALE = [(''syn_ratio'', 1), (''dst_port_entropy'', 3), (''new_peer_count'', 10), (''d_out_degree'', 5)]"

definition LEVEL_WEIGHT :: "(string, rat) dict" where
  "LEVEL_WEIGHT = [(''syn_ratio'', 24 / 10), (''dst_port_entropy'', 11 / 10), (''new_peer_count'', 35 / 100),
     (''d_out_degree'', 45 / 100)]"

definition SLOPE_WEIGHT :: "(string, rat) dict" where
  "SLOPE_WEIGHT = [(''syn_ratio'', 18 / 10), (''dst_port_entropy'', 14 / 10), (''new_peer_count'', 6 / 10),
     (''d_out_degree'', 3 / 10)]"

definition INTERCEPT :: rat where "INTERCEPT = - 32 / 10"
definition DRIFT_BASE :: rat where "DRIFT_BASE = 12 / 100"
definition DRIFT_GAIN :: rat where "DRIFT_GAIN = 25 / 100"
definition CI_BASE :: rat where "CI_BASE = 3 / 100"
definition CI_PER_K :: rat where "CI_PER_K = 35 / 1000"
definition PREDICTOR_SLOPE_WINDOW :: nat where "PREDICTOR_SLOPE_WINDOW = 3"
definition RESIDUAL_STAGES :: "string list" where "RESIDUAL_STAGES = [''lateral'', ''c2'', ''exfil'']"
definition RESIDUAL_MASS :: rat where "RESIDUAL_MASS = 1 / 100"
definition STEADY_EPS :: rat where "STEADY_EPS = 1 / 1000000"
definition ROUND_DP :: nat where "ROUND_DP = 6"

definition DRIVER_DISPLAY :: "(string, string) dict" where
  "DRIVER_DISPLAY = [(''syn_ratio'', ''SYN ratio''), (''dst_port_entropy'', ''destination-port entropy''),
     (''new_peer_count'', ''new peers contacted''), (''d_out_degree'', ''fan-out change'')]"

definition DRIVER_BOUNDS :: "(string, rat option \<times> rat option) dict" where
  "DRIVER_BOUNDS = [(''syn_ratio'', (Some 0, Some 1)), (''dst_port_entropy'', (Some 0, None)),
     (''new_peer_count'', (Some 0, None)), (''d_out_degree'', (None, None))]"

text \<open>A constant table indexed at a driver.\<close>

abbreviation tab :: "(string, 'v) dict \<Rightarrow> string \<Rightarrow> 'v" where
  "tab d k \<equiv> the (map_of d k)"

section \<open>Numerics\<close>

fun fexp :: "pymath \<Rightarrow> flt \<Rightarrow> flt" where
  "fexp M (Fin x) = Fin (m_exp M x)"
| "fexp M PInf = PInf"
| "fexp M NInf = Fin 0"
| "fexp M NaN = NaN"

fun ftanh :: "pymath \<Rightarrow> flt \<Rightarrow> flt" where
  "ftanh M (Fin x) = Fin (m_tanh M x)"
| "ftanh M PInf = Fin 1"
| "ftanh M NInf = Fin (- 1)"
| "ftanh M NaN = NaN"

definition sigmoid :: "pymath \<Rightarrow> flt \<Rightarrow> flt" where
  "sigmoid M z =
     (if Fin 0 \<le> z then Fin 1 / (Fin 1 + fexp M (- z))
      else let exp_z = fexp M z in exp_z / (Fin 1 + exp_z))"

fun round_to :: "nat \<Rightarrow> flt \<Rightarrow> flt" where
  "round_to n (Fin x) = Fin (py_round n x)"
| "round_to n x = x"

definition recent_slope :: "numpy \<Rightarrow> flt list \<Rightarrow> flt" where
  "recent_slope NP series =
     (let tail = last_n PREDICTOR_SLOPE_WINDOW series in
      if length tail < PREDICTOR_SLOPE_WINDOW then Fin 0
      else
        let x = map (\<lambda>i. Fin (of_nat i)) [0..<length tail];
            x_centred = map (\<lambda>v. v - np_mean NP x) x;
            denominator = np_sum NP (map (\<lambda>v. v * v) x_centred)
        in if feq denominator (Fin 0) then Fin 0
           else np_sum NP (map (\<lambda>(a, b). a * b) (zip x_centred (map (\<lambda>v. v - np_mean NP tail) tail)))
             / denominator)"

definition clamp :: "flt \<Rightarrow> rat option \<Rightarrow> rat option \<Rightarrow> flt" where
  "clamp x low high =
     (let x1 = (case low of None \<Rightarrow> x | Some l \<Rightarrow> py_max (Fin l) x)
      in case high of None \<Rightarrow> x1 | Some h \<Rightarrow> py_min (Fin h) x1)"

record driver_reading =
  dr_levels :: "(string, flt) dict"
  dr_slopes :: "(string, flt) dict"

record trajectory_point =
  tp_k :: int
  tp_p :: flt
  tp_lo :: flt
  tp_hi :: flt
  tp_stages :: "(string, flt) dict"

definition validate_states :: "flt list list \<Rightarrow> flt list list res" where
  "validate_states states =
     (if \<not> list_all (\<lambda>row. length row = length FEATURE_ORDER) states then Inl ValueError
      else if length states < 1 then Inl ValueError
      else Inr states)"

definition stage_distribution :: "flt \<Rightarrow> (string, flt) dict" where
  "stage_distribution risk =
     (let residual = Fin (RESIDUAL_MASS * of_nat (length RESIDUAL_STAGES));
          head = Fin 1 - residual;
          dst_of = dict_update
            [(''benign'', head * ((Fin 1 - risk) * (Fin 1 - risk))),
             (''recon'', head * Fin 2 * risk * (Fin 1 - risk)),
             (''initial_access'', head * (risk * risk))]
            (map (\<lambda>stage. (stage, Fin RESIDUAL_MASS)) RESIDUAL_STAGES)
      in map (\<lambda>stage. (stage, round_to ROUND_DP (tab dst_of stage))) STAGES)"

section \<open>The predictor\<close>

record predictor_cfg =
  pc_delta :: int
  pc_K :: nat
  pc_threshold :: flt
  pc_m :: int

text \<open>A column of the block: \<open>states[:, FEATURE_INDEX[name]]\<close>.\<close>

definition column :: "flt list list \<Rightarrow> string \<Rightarrow> flt list" where
  "column states name = map (\<lambda>row. row ! tab FEATURE_INDEX name) states"

definition read_drivers :: "numpy \<Rightarrow> flt list list \<Rightarrow> driver_reading" where
  "read_drivers NP states =
     \<lparr>dr_levels = map (\<lambda>name. (name, last (column states name))) DRIVERS,
      dr_slopes = map (\<lambda>name. (name, recent_slope NP (column states name))) DRIVERS\<rparr>"

definition contributions :: "pymath \<Rightarrow> driver_reading \<Rightarrow> (string, flt) dict" where
  "contributions M drivers = map (\<lambda>name. (name,
     Fin (tab LEVEL_WEIGHT name) * ftanh M (tab (dr_levels drivers) name / Fin (tab DRIVER_SCALE name))
     + Fin (tab SLOPE_WEIGHT name) * ftanh M (tab (dr_slopes drivers) name / Fin (tab DRIVER_SCALE name)))) DRIVERS"

definition base_logit :: "pymath \<Rightarrow> driver_reading \<Rightarrow> flt" where
  "base_logit M drivers = Fin INTERCEPT + fsum (map snd (contributions M drivers))"

definition drift :: "pymath \<Rightarrow> driver_reading \<Rightarrow> flt" where
  "drift M drivers =
     (let slope_term = fsum (map (\<lambda>name.
        Fin (tab SLOPE_WEIGHT name) * ftanh M (tab (dr_slopes drivers) name / Fin (tab DRIVER_SCALE name))) DRIVERS)
      in Fin DRIFT_BASE + Fin DRIFT_GAIN * slope_term)"

definition trajectory_step :: "pymath \<Rightarrow> flt \<Rightarrow> flt \<Rightarrow> nat \<Rightarrow> trajectory_point" where
  "trajectory_step M base step k =
     (let risk = sigmoid M (base + Fin (of_nat k) * step);
          half = Fin (CI_BASE + CI_PER_K * of_nat k)
      in \<lparr>tp_k = int k, tp_p = round_to ROUND_DP risk,
          tp_lo = round_to ROUND_DP (py_max (Fin 0) (risk - half)),
          tp_hi = round_to ROUND_DP (py_min (Fin 1) (risk + half)),
          tp_stages = stage_distribution risk\<rparr>)"

definition trajectory :: "pymath \<Rightarrow> predictor_cfg \<Rightarrow> driver_reading \<Rightarrow> trajectory_point list" where
  "trajectory M cfg drivers = map (trajectory_step M (base_logit M drivers) (drift M drivers)) [1..<pc_K cfg + 1]"

definition trajectory_of :: "pymath \<Rightarrow> numpy \<Rightarrow> predictor_cfg \<Rightarrow> flt list list \<Rightarrow> trajectory_point list" where
  "trajectory_of M NP cfg states = trajectory M cfg (read_drivers NP states)"

text \<open>\<open>range(len(points) - run + 1)\<close> from \<open>index\<close>; an empty slice has no first point.\<close>

fun lead_scan :: "predictor_cfg \<Rightarrow> trajectory_point list \<Rightarrow> int list \<Rightarrow> flt option res" where
  "lead_scan cfg points [] = Inr None"
| "lead_scan cfg points (index # rest) =
     (let window = slice index (index + pc_m cfg) points in
      if list_all (\<lambda>point. pc_threshold cfg \<le> tp_p point) window
      then (case window of [] \<Rightarrow> Inl IndexError | point # others \<Rightarrow> Inr (Some (Fin (of_int (tp_k point * pc_delta cfg)))))
      else lead_scan cfg points rest)"

definition lead_time_s :: "predictor_cfg \<Rightarrow> trajectory_point list \<Rightarrow> flt option res" where
  "lead_time_s cfg points = lead_scan cfg points [0..int (length points) - pc_m cfg]"

text \<open>\<open>max(xs, key=f)\<close>: the first of the largest.\<close>

fun first_max :: "('a \<Rightarrow> flt) \<Rightarrow> 'a \<Rightarrow> 'a list \<Rightarrow> 'a" where
  "first_max f best [] = best"
| "first_max f best (x # xs) = first_max f (if f best < f x then x else best) xs"

definition argmax_stage :: "(string, flt) dict \<Rightarrow> string" where
  "argmax_stage dst_of = first_max (\<lambda>stage. dict_get dst_of stage (Fin 0)) (hd STAGES) (tl STAGES)"

definition trend_word :: "flt \<Rightarrow> string" where
  "trend_word slope =
     (if Fin STEADY_EPS < slope then ''rising'' else if slope < Fin (- STEADY_EPS) then ''falling'' else ''steady'')"

fun fabs :: "flt \<Rightarrow> flt" where
  "fabs (Fin x) = Fin \<bar>x\<bar>"
| "fabs NaN = NaN"
| "fabs _ = PInf"

text \<open>A stable sort, largest first.\<close>

fun insert_desc :: "('a \<Rightarrow> flt) \<Rightarrow> 'a \<Rightarrow> 'a list \<Rightarrow> 'a list" where
  "insert_desc f x [] = [x]"
| "insert_desc f x (y # ys) = (if f x < f y then y # insert_desc f x ys else x # y # ys)"

definition sort_desc :: "('a \<Rightarrow> flt) \<Rightarrow> 'a list \<Rightarrow> 'a list" where
  "sort_desc f xs = foldr (insert_desc f) xs []"

definition top_signals :: "pymath \<Rightarrow> driver_reading \<Rightarrow> signal_attribution list" where
  "top_signals M drivers = sort_desc (\<lambda>s. fabs (sg_shap s)) (map (\<lambda>name.
     let slope = tab (dr_slopes drivers) name in
     \<lparr>sg_name = name, sg_shap = round_to ROUND_DP (tab (contributions M drivers) name),
      sg_direction = (if Fin 0 \<le> slope then ''up'' else ''down''),
      sg_display = tab DRIVER_DISPLAY name @ '' '' @ trend_word slope\<rparr>) DRIVERS)"

definition add_movement :: "numpy \<Rightarrow> flt list list \<Rightarrow> string \<Rightarrow> flt list \<Rightarrow> flt list" where
  "add_movement NP states name weights = hd weights # map (\<lambda>(w, d). w + fabs d / Fin (tab DRIVER_SCALE name))
     (zip (tl weights) (np_diff NP (column states name)))"

definition window_importance :: "numpy \<Rightarrow> flt list list \<Rightarrow> flt list" where
  "window_importance NP states =
     (let weights = foldl (\<lambda>w name. add_movement NP states name w) (replicate (length states) (Fin 0)) DRIVERS;
          tot = np_sum NP weights
      in if feq tot (Fin 0)
         then replicate (length weights) (round_to ROUND_DP (Fin (1 / of_nat (length weights))))
         else map (\<lambda>w. round_to ROUND_DP (w / tot)) weights)"

fun last_best :: "flt list \<Rightarrow> nat \<Rightarrow> nat list \<Rightarrow> nat" where
  "last_best weights best [] = best"
| "last_best weights best (i # is) = last_best weights (if weights ! best \<le> weights ! i then i else best) is"

definition driving_window :: "numpy \<Rightarrow> flt list list \<Rightarrow> nat" where
  "driving_window NP states =
     (let weights = window_importance NP states in last_best weights 0 [0..<length weights])"

definition predicted_features ::
    "flt list list \<Rightarrow> driver_reading \<Rightarrow> nat \<Rightarrow> (string, flt) dict" where
  "predicted_features states drivers k =
     dict_update (map (\<lambda>(name, index). (name, round_to ROUND_DP (last states ! index))) FEATURE_INDEX)
       (map (\<lambda>name. case tab DRIVER_BOUNDS name of (low, high) \<Rightarrow>
          (name, round_to ROUND_DP (clamp (tab (dr_levels drivers) name
            + Fin (of_nat k) * tab (dr_slopes drivers) name) low high))) DRIVERS)"

definition predict ::
    "pymath \<Rightarrow> numpy \<Rightarrow> predictor_cfg \<Rightarrow> flt list list \<Rightarrow> string \<Rightarrow> datetime \<Rightarrow> forecast res" where
  "predict M NP cfg states host_id origin_ts =
     bind_res (validate_states states) (\<lambda>array.
       let drivers = read_drivers NP array;
           points = trajectory M cfg drivers;
           origin = as_utc origin_ts;
           observed_risk = round_to ROUND_DP (sigmoid M (base_logit M drivers));
           horizons = map (\<lambda>point. \<lparr>hp_k = tp_k point,
             hp_ts = Aware (origin + tp_k point * pc_delta cfg * 1000000), hp_p = tp_p point,
             hp_lo = tp_lo point, hp_hi = tp_hi point, hp_stages = tp_stages point,
             hp_features = predicted_features array drivers (nat (tp_k point))\<rparr>) points
       in bind_res (lead_time_s cfg points) (\<lambda>lead. Inr
         \<lparr>fc_tenant = [], fc_host = host_id, fc_origin = Aware origin, fc_horizons = horizons, fc_lead = lead,
          fc_stage = argmax_stage (stage_distribution observed_risk), fc_risk = observed_risk,
          fc_signals = top_signals M drivers, fc_driving = int (driving_window NP array),
          fc_model = MODEL_VERSION, fc_schema = SCHEMA_VERSION\<rparr>))"

record curve_point =
  cv_k :: int
  cv_p :: flt
  cv_lo :: flt
  cv_hi :: flt

definition curve_point_of :: "trajectory_point \<Rightarrow> curve_point" where
  "curve_point_of point = \<lparr>cv_k = tp_k point, cv_p = tp_p point, cv_lo = tp_lo point, cv_hi = tp_hi point\<rparr>"

record counterfactual_result =
  cr_label :: string
  cr_feature :: string
  cr_clamp :: flt
  cr_model :: string
  cr_original :: "curve_point list"
  cr_counterfactual :: "curve_point list"

definition counterfactual ::
    "pymath \<Rightarrow> numpy \<Rightarrow> predictor_cfg \<Rightarrow> flt list list \<Rightarrow> string \<Rightarrow> flt \<Rightarrow> counterfactual_result res" where
  "counterfactual M NP cfg states feature_name clamp_value =
     bind_res (validate_states states) (\<lambda>array.
       case map_of FEATURE_INDEX feature_name of None \<Rightarrow> Inl ValueError
       | Some index \<Rightarrow>
           let clamped = map (\<lambda>row. row[index := clamp_value]) array
           in Inr \<lparr>cr_label = COUNTERFACTUAL_LABEL, cr_feature = feature_name, cr_clamp = clamp_value,
                cr_model = MODEL_VERSION,
                cr_original = map curve_point_of (trajectory_of M NP cfg array),
                cr_counterfactual = map curve_point_of (trajectory_of M NP cfg clamped)\<rparr>)"

record explanation =
  xp_horizon :: int
  xp_how :: string
  xp_model :: string
  xp_signals :: "signal_attribution list"
  xp_driving :: nat
  xp_importance :: "flt list"
  xp_note :: string

definition explain ::
    "pymath \<Rightarrow> numpy \<Rightarrow> predictor_cfg \<Rightarrow> flt list list \<Rightarrow> int \<Rightarrow> explanation res" where
  "explain M NP cfg states horizon_k =
     bind_res (validate_states states) (\<lambda>array.
       if \<not> (1 \<le> horizon_k \<and> horizon_k \<le> int (pc_K cfg)) then Inl ValueError
       else Inr \<lparr>xp_horizon = horizon_k, xp_how = ''stub-surrogate'', xp_model = MODEL_VERSION,
         xp_signals = top_signals M (read_drivers NP array), xp_driving = driving_window NP array,
         xp_importance = window_importance NP array,
         xp_note = ''placeholder attributions; not SHAP, not saliency''\<rparr>)"

section \<open>Finite blocks give finite readings\<close>

definition fin_block :: "flt list list \<Rightarrow> bool" where
  "fin_block states \<longleftrightarrow> states \<noteq> [] \<and> list_all (\<lambda>row. length row = length FEATURE_ORDER \<and> list_all isfinite row) states"

lemma all_finite_Fin: "list_all isfinite xs \<Longrightarrow> \<exists>rs. xs = map Fin rs"
  by (induction xs) (auto simp: isfinite_iff Cons_eq_map_conv)

lemma driver_known: "name \<in> set DRIVERS \<Longrightarrow> name \<in> set FEATURE_ORDER"
proof -
  have "set DRIVERS \<subseteq> set FEATURE_ORDER" by code_simp
  then show "name \<in> set DRIVERS \<Longrightarrow> name \<in> set FEATURE_ORDER" by blast
qed

lemma feature_index_lt: "name \<in> set FEATURE_ORDER \<Longrightarrow> tab FEATURE_INDEX name < length FEATURE_ORDER"
  using FEATURE_INDEX_dom [of name] FEATURE_INDEX_Some [of name] by auto

lemma column_Fin:
  assumes "fin_block states" "name \<in> set FEATURE_ORDER"
  shows "\<exists>rs. column states name = map Fin rs \<and> length rs = length states \<and> rs \<noteq> []"
proof -
  have "list_all isfinite (column states name)"
    using assms(1) feature_index_lt [OF assms(2)]
    by (auto simp: fin_block_def column_def list_all_iff)
  then obtain rs where rs: "column states name = map Fin rs" using all_finite_Fin by blast
  then have "length rs = length states" by (metis column_def length_map)
  with rs show ?thesis using assms(1) by (auto simp: fin_block_def)
qed

context numpy_laws
begin

lemma recent_slope_Fin: "\<exists>r. recent_slope NP (map Fin rs) = Fin r"
proof (cases "length rs < 3")
  case True
  then show ?thesis by (simp add: recent_slope_def PREDICTOR_SLOPE_WINDOW_def Let_def)
next
  case False
  let ?t = "last_n 3 rs"
  have t: "last_n 3 (map Fin rs) = map Fin ?t" by (simp add: last_n_def drop_map)
  have l: "length ?t = 3" using False by simp
  let ?x = "map rat_of_nat [0..<3]"
  have x: "map (\<lambda>i. Fin (of_nat i)) [0..<3] = map Fin ?x" by simp
  have mx: "np_mean NP (map Fin ?x) = Fin (sum_list ?x / 3)"
    using mean_Fin [of ?x] by (simp add: upt_rec numeral_3_eq_3)
  have xc: "map (\<lambda>v. v - np_mean NP (map Fin ?x)) (map Fin ?x) = map Fin (map (\<lambda>v. v - sum_list ?x / 3) ?x)"
    unfolding mx by simp
  have den: "np_sum NP (map (\<lambda>v. v * v) (map Fin (map (\<lambda>v. v - sum_list ?x / 3) ?x))) = Fin 2"
  proof -
    have "map (\<lambda>v. v * v) (map Fin (map (\<lambda>v. v - sum_list ?x / 3) ?x)) = map Fin [1, 0, 1]"
      by (simp add: upt_rec numeral_3_eq_3)
    then show ?thesis by (simp only: sum_Fin) simp
  qed
  have "?t \<noteq> []" using l by force
  then obtain c where mt: "np_mean NP (map Fin ?t) = Fin c" using mean_Fin [of ?t] by blast
  have tc: "map (\<lambda>v. v - np_mean NP (map Fin ?t)) (map Fin ?t) = map Fin (map (\<lambda>v. v - c) ?t)"
    unfolding mt by simp
  have z: "map (\<lambda>(a, b). a * b) (zip (map Fin us) (map Fin vs)) = map Fin (map (\<lambda>(a, b). a * b) (zip us vs))" for us vs
    by (simp add: zip_map1 zip_map2 case_prod_unfold)
  have q: "Fin a / Fin 2 = Fin (a / 2)" "feq (Fin 2) (Fin 0) = False" for a by (simp_all add: feq_def)
  show ?thesis
    unfolding recent_slope_def PREDICTOR_SLOPE_WINDOW_def t Let_def length_map l x xc den tc z sum_Fin
      q by (simp only: less_irrefl if_False) blast
qed

lemma read_drivers_Fin:
  assumes "fin_block states" "name \<in> set DRIVERS"
  shows "\<exists>r. tab (dr_levels (read_drivers NP states)) name = Fin r"
    and "\<exists>r. tab (dr_slopes (read_drivers NP states)) name = Fin r"
proof -
  obtain rs where rs: "column states name = map Fin rs" "rs \<noteq> []"
    using column_Fin [OF assms(1) driver_known [OF assms(2)]] by blast
  have "tab (dr_levels (read_drivers NP states)) name = Fin (last rs)"
    using assms(2) rs by (simp add: read_drivers_def map_of_map_self last_map)
  then show "\<exists>r. tab (dr_levels (read_drivers NP states)) name = Fin r" ..
  show "\<exists>r. tab (dr_slopes (read_drivers NP states)) name = Fin r"
    using assms(2) recent_slope_Fin [of rs] by (simp add: read_drivers_def map_of_map_self rs)
qed

end

definition fin_drivers :: "driver_reading \<Rightarrow> bool" where
  "fin_drivers d \<longleftrightarrow> list_all (\<lambda>name. isfinite (tab (dr_levels d) name) \<and> isfinite (tab (dr_slopes d) name)) DRIVERS"

lemma fin_drivers_read: "numpy_laws NP \<Longrightarrow> fin_block states \<Longrightarrow> fin_drivers (read_drivers NP states)"
  using numpy_laws.read_drivers_Fin [of NP states]
  by (fastforce simp: fin_drivers_def list_all_iff isfinite_iff)

lemma isfinite_ops:
  "isfinite a \<Longrightarrow> isfinite b \<Longrightarrow> isfinite (a + b)" "isfinite a \<Longrightarrow> isfinite b \<Longrightarrow> isfinite (a * b)"
  "isfinite a \<Longrightarrow> c \<noteq> 0 \<Longrightarrow> isfinite (a / Fin c)" "isfinite a \<Longrightarrow> isfinite (ftanh M a)"
  by (cases a; cases b; simp)+

lemma scale_pos: "name \<in> set DRIVERS \<Longrightarrow> 0 < tab DRIVER_SCALE name"
  by (auto simp: DRIVERS_def DRIVER_SCALE_def)

lemma fsum_finite: "list_all isfinite xs \<Longrightarrow> \<exists>r. fsum xs = Fin r"
  using all_finite_Fin [of xs] by auto

lemma contributions_finite:
  assumes "fin_drivers d"
  shows "list_all isfinite (map snd (contributions M d))"
  using assms scale_pos
  by (auto simp: contributions_def list_all_iff fin_drivers_def intro!: isfinite_ops) (metis less_irrefl)+

lemma base_drift_Fin:
  assumes "fin_drivers d"
  shows "\<exists>b. base_logit M d = Fin b" "\<exists>s. drift M d = Fin s"
proof -
  show "\<exists>b. base_logit M d = Fin b"
    using fsum_finite [OF contributions_finite [OF assms, of M]] by (auto simp: base_logit_def)
  have "list_all isfinite (map (\<lambda>name. Fin (tab SLOPE_WEIGHT name)
      * ftanh M (tab (dr_slopes d) name / Fin (tab DRIVER_SCALE name))) DRIVERS)"
    using assms scale_pos by (auto simp: list_all_iff fin_drivers_def intro!: isfinite_ops) (metis less_irrefl)+
  from fsum_finite [OF this] obtain r where "fsum (map (\<lambda>name. Fin (tab SLOPE_WEIGHT name)
      * ftanh M (tab (dr_slopes d) name / Fin (tab DRIVER_SCALE name))) DRIVERS) = Fin r" by blast
  then show "\<exists>s. drift M d = Fin s" unfolding drift_def Let_def by simp
qed

lemma sigmoid_unit:
  assumes "pymath_laws M"
  shows "\<exists>p. sigmoid M (Fin z) = Fin p \<and> 0 \<le> p \<and> p \<le> 1"
proof (cases "0 \<le> z")
  case True
  have "0 \<le> m_exp M (- z)" by (rule pymath_laws.exp_pos [OF assms])
  with True show ?thesis by (simp add: sigmoid_def)
next
  case False
  have "0 \<le> m_exp M z" by (rule pymath_laws.exp_pos [OF assms])
  with False show ?thesis by (simp add: sigmoid_def Let_def)
qed

lemma keys_stage_distribution [simp]: "map fst (stage_distribution r) = STAGES"
  by (simp add: stage_distribution_def Let_def comp_def)

lemma trajectory_step_ok:
  assumes "pymath_laws M"
  shows "\<exists>lo p hi. trajectory_step M (Fin b) (Fin s) k = \<lparr>tp_k = int k, tp_p = Fin p, tp_lo = Fin lo, tp_hi = Fin hi,
      tp_stages = stage_distribution (sigmoid M (Fin (b + of_nat k * s)))\<rparr> \<and> 0 \<le> lo \<and> lo \<le> p \<and> p \<le> hi \<and> hi \<le> 1"
proof -
  obtain r where r: "sigmoid M (Fin (b + of_nat k * s)) = Fin r" "0 \<le> r" "r \<le> 1"
    using sigmoid_unit [OF assms] by blast
  define half where "half = CI_BASE + CI_PER_K * rat_of_nat k"
  have half: "0 \<le> half" by (simp add: half_def CI_BASE_def CI_PER_K_def)
  have "py_round ROUND_DP 0 \<le> py_round ROUND_DP (max 0 (r - half))"
    "py_round ROUND_DP (max 0 (r - half)) \<le> py_round ROUND_DP r"
    "py_round ROUND_DP r \<le> py_round ROUND_DP (min 1 (r + half))"
    "py_round ROUND_DP (min 1 (r + half)) \<le> py_round ROUND_DP 1"
    by (rule py_round_mono, use r half in simp)+
  then show ?thesis
    by (simp add: trajectory_step_def Let_def r(1) half_def [symmetric])
qed

section \<open>Lead time\<close>

text \<open>From \<open>i\<close> on, \<open>pc_m\<close> consecutive points at or above the threshold.\<close>

definition sustained :: "predictor_cfg \<Rightarrow> trajectory_point list \<Rightarrow> nat \<Rightarrow> bool" where
  "sustained cfg points i \<longleftrightarrow> i + nat (pc_m cfg) \<le> length points \<and>
     list_all (\<lambda>j. pc_threshold cfg \<le> tp_p (points ! (i + j))) [0..<nat (pc_m cfg)]"

lemma find_upt_none: "(\<And>i. lo \<le> i \<Longrightarrow> \<not> P i) \<Longrightarrow> find P [lo..<hi] = None"
  by (simp add: find_None_iff)

lemma lead_scan_find:
  assumes "1 \<le> pc_m cfg"
  shows "lead_scan cfg points [int i..int (length points) - pc_m cfg] =
    Inr (map_option (\<lambda>i. Fin (of_int (tp_k (points ! i) * pc_delta cfg))) (find (sustained cfg points) [i..<length points]))"
proof (induction "length points - i" arbitrary: i rule: less_induct)
  case less
  define m where "m = nat (pc_m cfg)"
  have m: "1 \<le> m" "pc_m cfg = int m" using assms by (simp_all add: m_def)
  show ?case
  proof (cases "i + m \<le> length points")
    case False
    have "find (sustained cfg points) [i..<length points] = None"
      using False by (intro find_upt_none) (auto simp: sustained_def m_def)
    moreover have "[int i..int (length points) - pc_m cfg] = []" using False m by simp
    ultimately show ?thesis by simp
  next
    case True
    have up: "[int i..int (length points) - pc_m cfg] = int i # [int (Suc i)..int (length points) - pc_m cfg]"
      using True m by (subst upto_rec1) (auto simp: add.commute)
    have up': "[i..<length points] = i # [Suc i..<length points]"
      using True m by (simp add: upt_rec)
    have w: "slice (int i) (int i + pc_m cfg) points = take m (drop i points)"
      using slice_inside [of "int i" "int m" points] True m by simp
    have "list_all (\<lambda>point. pc_threshold cfg \<le> tp_p point) (take m (drop i points)) \<longleftrightarrow> sustained cfg points i"
      using True by (auto simp: sustained_def m_def [symmetric] list_all_length)
    moreover have "take m (drop i points) = points ! i # take (m - 1) (drop (Suc i) points)"
      using True m by (cases m) (simp_all add: Cons_nth_drop_Suc [symmetric])
    moreover have "lead_scan cfg points [int (Suc i)..int (length points) - pc_m cfg] = Inr (map_option
        (\<lambda>i. Fin (of_int (tp_k (points ! i) * pc_delta cfg))) (find (sustained cfg points) [Suc i..<length points]))"
      using True m by (intro less) simp
    ultimately show ?thesis unfolding up up' by (simp add: w Let_def)
  qed
qed

text \<open>
  The lead time is the first sustained crossing: for a positive run length, the seconds reported
  are those of the earliest point from which that many consecutive points are at or above the
  threshold, and nothing is reported when there is none.
\<close>

lemma lead_time_first_sustained:
  assumes "1 \<le> pc_m cfg"
  shows "lead_time_s cfg points = Inr (map_option (\<lambda>i. Fin (of_int (tp_k (points ! i) * pc_delta cfg)))
    (find (sustained cfg points) [0..<length points]))"
  using lead_scan_find [OF assms, of points 0] by (simp add: lead_time_s_def)

lemma lead_time_first_sustained_witness:
  "lead_time_s \<lparr>pc_delta = 60, pc_K = 2, pc_threshold = Fin (1 / 2), pc_m = 1\<rparr>
     [\<lparr>tp_k = 1, tp_p = Fin (1 / 4), tp_lo = Fin 0, tp_hi = Fin 1, tp_stages = []\<rparr>,
      \<lparr>tp_k = 2, tp_p = Fin (3 / 4), tp_lo = Fin 0, tp_hi = Fin 1, tp_stages = []\<rparr>] = Inr (Some (Fin 120))"
  by (subst lead_time_first_sustained) (simp_all add: sustained_def upt_rec)

section \<open>The forecast keeps the contract\<close>

lemma predict_ok:
  assumes M: "pymath_laws M" and N: "numpy_laws NP" and m: "1 \<le> pc_m cfg" and D: "0 < pc_delta cfg"
    and b: "fin_block states"
  shows "\<exists>f. predict M NP cfg states host origin = Inr f \<and> forecast_ok (pc_K cfg) f \<and>
    fc_host f = host \<and> as_utc (fc_origin f) = as_utc origin"
proof -
  let ?d = "read_drivers NP states"
  have fd: "fin_drivers ?d" by (rule fin_drivers_read [OF N b])
  obtain bl s where bs: "base_logit M ?d = Fin bl" "drift M ?d = Fin s"
    using base_drift_Fin [OF fd] by blast
  let ?pts = "trajectory M cfg ?d"
  obtain lead where lead: "lead_time_s cfg ?pts = Inr lead" using lead_time_first_sustained [OF m] by blast
  have v: "validate_states states = Inr states"
    using b by (auto simp: validate_states_def fin_block_def list_all_iff Suc_le_eq)
  define hz where "hz k = \<lparr>hp_k = int k, hp_ts = Aware (as_utc origin + int k * pc_delta cfg * 1000000),
      hp_p = tp_p (trajectory_step M (Fin bl) (Fin s) k), hp_lo = tp_lo (trajectory_step M (Fin bl) (Fin s) k),
      hp_hi = tp_hi (trajectory_step M (Fin bl) (Fin s) k), hp_stages = tp_stages (trajectory_step M (Fin bl) (Fin s) k),
      hp_features = predicted_features states ?d k\<rparr>" for k
  have tk: "tp_k (trajectory_step M x y k) = int k" for x y k by (simp add: trajectory_step_def Let_def)
  have ok: "point_ok (hz k)" for k
  proof -
    obtain lo p hi where "trajectory_step M (Fin bl) (Fin s) k = \<lparr>tp_k = int k, tp_p = Fin p, tp_lo = Fin lo, tp_hi = Fin hi,
        tp_stages = stage_distribution (sigmoid M (Fin (bl + of_nat k * s)))\<rparr>" "0 \<le> lo" "lo \<le> p" "p \<le> hi" "hi \<le> 1"
      using trajectory_step_ok [OF M] by blast
    moreover have "fst ` set (stage_distribution r) = set STAGES" for r
      using keys_stage_distribution [of r] by (metis set_map)
    ultimately show ?thesis by (simp add: point_ok_def hz_def)
  qed
  have inc: "sorted_wrt (<) (as_utc origin # map (as_utc \<circ> hp_ts) (map hz [1..<K + 1]))" for K
  proof (induction K)
    case (Suc K)
    have "[1..<Suc K + 1] = [1..<K + 1] @ [Suc K]" by simp
    with Suc D show ?case by (auto simp: sorted_wrt_append hz_def)
  qed simp
  have "map (\<lambda>point. \<lparr>hp_k = tp_k point, hp_ts = Aware (as_utc origin + tp_k point * pc_delta cfg * 1000000),
        hp_p = tp_p point, hp_lo = tp_lo point, hp_hi = tp_hi point, hp_stages = tp_stages point,
        hp_features = predicted_features states ?d (nat (tp_k point))\<rparr>) ?pts = map hz [1..<pc_K cfg + 1]"
    by (simp add: trajectory_def bs hz_def tk)
  then show ?thesis using ok inc [of "pc_K cfg"]
    by (simp add: predict_def v Let_def lead forecast_ok_def list_all_iff hz_def [THEN arg_cong [where f = hp_k]] comp_def)
qed

lemma isfinite_round_to [simp]: "isfinite (round_to n x) = isfinite x"
  by (cases x) simp_all

lemma isfinite_fabs [simp]: "isfinite x \<Longrightarrow> isfinite (fabs x)"
  by (cases x) simp_all

lemma mset_insert_desc [simp]: "mset (insert_desc f x xs) = add_mset x (mset xs)"
  by (induction xs) auto

lemma mset_sort_desc [simp]: "mset (sort_desc f xs) = mset xs"
  by (induction xs) (simp_all add: sort_desc_def)

lemma flt_total: "isfinite a \<Longrightarrow> isfinite b \<Longrightarrow> \<not> a < b \<Longrightarrow> b \<le> a" for a b :: flt
  by (cases a; cases b) simp_all

lemma flt_lt_le: "isfinite a \<Longrightarrow> isfinite b \<Longrightarrow> a < b \<Longrightarrow> a \<le> b" for a b :: flt
  by (cases a; cases b) simp_all

lemma flt_trans: "a \<le> b \<Longrightarrow> b \<le> c \<Longrightarrow> a \<le> c" for a b c :: flt
  by (cases a; cases b; cases c) simp_all

lemma set_insert_desc [simp]: "set (insert_desc f x xs) = insert x (set xs)"
  by (induction xs) auto

lemma insert_desc_sorted:
  assumes "\<forall>y \<in> insert x (set xs). isfinite (f y)" "sorted_wrt (\<lambda>a b. f b \<le> f a) xs"
  shows "sorted_wrt (\<lambda>a b. f b \<le> f a) (insert_desc f x xs)"
  using assms
proof (induction xs)
  case (Cons y ys)
  show ?case
  proof (cases "f x < f y")
    case True
    with Cons show ?thesis using flt_lt_le [of "f x" "f y"] by auto
  next
    case False
    then have "f y \<le> f x" using Cons.prems flt_total [of "f x" "f y"] by simp
    then have "\<forall>z \<in> set (y # ys). f z \<le> f x" using Cons.prems flt_trans by auto
    with False Cons.prems show ?thesis by simp
  qed
qed simp

lemma sort_desc_sorted:
  "\<forall>y \<in> set xs. isfinite (f y) \<Longrightarrow> sorted_wrt (\<lambda>a b. f b \<le> f a) (sort_desc f xs)"
proof (induction xs)
  case (Cons x xs)
  have "set (sort_desc f xs) = set xs" by (metis mset_sort_desc set_mset_mset)
  with Cons show ?case by (simp add: sort_desc_def insert_desc_sorted)
qed (simp add: sort_desc_def)

lemma top_signals_ranked:
  assumes "fin_drivers d"
  shows "mset (map sg_name (top_signals M d)) = mset DRIVERS"
    and "sorted_wrt (\<lambda>a b. fabs (sg_shap b) \<le> fabs (sg_shap a)) (top_signals M d)"
proof -
  show "mset (map sg_name (top_signals M d)) = mset DRIVERS"
    by (simp add: top_signals_def Let_def multiset.map_comp comp_def)
  have "isfinite (tab (contributions M d) name)" if "name \<in> set DRIVERS" for name
    using contributions_finite [OF assms, of M] that
    by (auto simp: contributions_def map_of_map_self list_all_iff)
  then show "sorted_wrt (\<lambda>a b. fabs (sg_shap b) \<le> fabs (sg_shap a)) (top_signals M d)"
    unfolding top_signals_def by (intro sort_desc_sorted) (auto simp: Let_def)
qed

section \<open>The stage distribution is a distribution\<close>

lemma stage_values:
  assumes "0 \<le> r" "r \<le> 1"
  shows "\<exists>ps. map snd (stage_distribution (Fin r)) = map (\<lambda>p. Fin (py_round ROUND_DP p)) ps \<and>
    length ps = 6 \<and> sum_list ps = 1 \<and> list_all (\<lambda>p. 0 \<le> p \<and> p \<le> 1) ps"
proof -
  let ?h = "97 / 100 :: rat"
  let ?ps = "[?h * ((1 - r) * (1 - r)), ?h * 2 * r * (1 - r), ?h * (r * r), 1 / 100, 1 / 100, 1 / 100]"
  have m: "map snd (stage_distribution (Fin r)) = map (\<lambda>p. Fin (py_round ROUND_DP p)) ?ps"
    by (simp add: stage_distribution_def Let_def STAGES_def RESIDUAL_STAGES_def RESIDUAL_MASS_def dict_simps)
  have "0 \<le> (1 - r) * (1 - r)" "(1 - r) * (1 - r) \<le> 1" "0 \<le> r * (1 - r)" "0 \<le> r * r" "r * r \<le> 1"
  proof -
    show "(1 - r) * (1 - r) \<le> 1" "r * r \<le> 1" using assms by (simp_all add: mult_le_one)
  qed (use assms in simp_all)
  moreover have "?h * 2 * r * (1 - r) \<le> 1"
  proof -
    have "0 \<le> (r - 1 / 2) * (r - 1 / 2)" by simp
    then have "r - r * r \<le> 1 / 4" by (simp add: algebra_simps)
    then have "194 / 100 * (r - r * r) \<le> 194 / 100 * (1 / 4)" by (intro mult_left_mono) simp_all
    also have "194 / 100 * (1 / 4 :: rat) \<le> 1" by simp
    finally show ?thesis by (simp add: algebra_simps)
  qed
  ultimately have "list_all (\<lambda>p. 0 \<le> p \<and> p \<le> 1) ?ps" by (simp add: mult.assoc)
  moreover have "sum_list ?ps = 1" by (simp add: field_simps)
  ultimately show ?thesis using m by (intro exI [of _ ?ps]) simp
qed

lemma sum_round_error:
  "\<bar>sum_list (map (py_round n) ps) - sum_list ps\<bar> \<le> of_nat (length ps) / (2 * 10 ^ n)"
proof (induction ps)
  case (Cons p ps)
  have "of_nat (length (p # ps)) / (2 * 10 ^ n) = 1 / (2 * 10 ^ n) + of_nat (length ps) / (2 * 10 ^ n :: rat)"
    by (simp add: add_divide_distrib)
  with Cons py_round_error [of n p] show ?case by (simp only: list.map sum_list.Cons)
qed simp

text \<open>
  The stage distribution of any risk in the unit interval is one: its keys are the stages in
  their order, every share lies between 0 and 1, and the shares sum to 1 up to three millionths, the
  error of rounding six of them to six places.
\<close>

lemma stage_distribution_sums_to_one:
  assumes "0 \<le> r" "r \<le> 1"
  shows "map fst (stage_distribution (Fin r)) = STAGES \<and>
    (\<exists>qs. map snd (stage_distribution (Fin r)) = map Fin qs \<and> list_all (\<lambda>q. 0 \<le> q \<and> q \<le> 1) qs \<and>
      \<bar>sum_list qs - 1\<bar> \<le> 3 / 1000000)"
proof -
  obtain ps where ps: "map snd (stage_distribution (Fin r)) = map (\<lambda>p. Fin (py_round ROUND_DP p)) ps"
    "length ps = 6" "sum_list ps = 1" "list_all (\<lambda>p. 0 \<le> p \<and> p \<le> 1) ps"
    using stage_values [OF assms] by blast
  have "list_all (\<lambda>q. 0 \<le> q \<and> q \<le> 1) (map (py_round ROUND_DP) ps)"
    using ps(4) py_round_mono [of 0 _ ROUND_DP] py_round_mono [of _ 1 ROUND_DP] by (auto simp: list_all_iff)
  moreover have "\<bar>sum_list (map (py_round ROUND_DP) ps) - 1\<bar> \<le> 3 / 1000000"
    using sum_round_error [of ROUND_DP ps] by (simp add: ps ROUND_DP_def)
  ultimately show ?thesis
    using ps(1) by (intro conjI exI [of _ "map (py_round ROUND_DP) ps"]) simp_all
qed

lemma stage_distribution_sums_to_one_witness:
  "map fst (stage_distribution (Fin (1 / 2))) = STAGES"
  using stage_distribution_sums_to_one [of "1 / 2"] by simp

section \<open>Counterfactuals\<close>

lemma column_update_other:
  assumes "map_of FEATURE_INDEX f = Some i" "name \<in> set FEATURE_ORDER" "name \<noteq> f"
  shows "column (map (\<lambda>row. row[i := x]) states) name = column states name"
proof -
  obtain j where j: "map_of FEATURE_INDEX name = Some j" using FEATURE_INDEX_dom [OF assms(2)] by blast
  then have "i \<noteq> j" using assms(1,3) FEATURE_INDEX_Some by blast
  then show ?thesis by (simp add: column_def j)
qed

lemma read_drivers_other:
  assumes "map_of FEATURE_INDEX f = Some i" "f \<notin> set DRIVERS"
  shows "read_drivers NP (map (\<lambda>row. row[i := x]) states) = read_drivers NP states"
proof -
  have "column (map (\<lambda>row. row[i := x]) states) name = column states name" if "name \<in> set DRIVERS" for name
    using that assms driver_known by (intro column_update_other) auto
  then show ?thesis by (simp add: read_drivers_def)
qed

text \<open>
  A counterfactual is a question about the predictor: clamping a feature outside the four drivers
  leaves the projected curve exactly as it was, whatever the clamp, and an unknown feature is refused.
\<close>

lemma counterfactual_only_drivers_matter:
  assumes "validate_states states = Inr states"
  shows "(f \<notin> set FEATURE_ORDER \<longrightarrow> counterfactual M NP cfg states f x = Inl ValueError) \<and>
    (f \<in> set FEATURE_ORDER \<and> f \<notin> set DRIVERS \<longrightarrow> (\<exists>c. counterfactual M NP cfg states f x = Inr c \<and>
       cr_counterfactual c = cr_original c \<and>
       cr_original c = map curve_point_of (trajectory M cfg (read_drivers NP states))))"
proof (intro conjI impI)
  assume "f \<notin> set FEATURE_ORDER"
  then have "map_of FEATURE_INDEX f = None" by (metis FEATURE_INDEX_Some length_FEATURE_ORDER nth_mem option.exhaust)
  then show "counterfactual M NP cfg states f x = Inl ValueError" by (simp add: counterfactual_def assms)
next
  assume f: "f \<in> set FEATURE_ORDER \<and> f \<notin> set DRIVERS"
  then obtain i where i: "map_of FEATURE_INDEX f = Some i" using FEATURE_INDEX_dom by blast
  then show "\<exists>c. counterfactual M NP cfg states f x = Inr c \<and> cr_counterfactual c = cr_original c \<and>
       cr_original c = map curve_point_of (trajectory M cfg (read_drivers NP states))"
    using f by (simp add: counterfactual_def assms Let_def trajectory_of_def read_drivers_other)
qed

definition quiet_block :: "flt list list" where "quiet_block = [replicate 45 (Fin 0), replicate 45 (Fin 1)]"

lemma quiet_block_ok: "fin_block quiet_block" "validate_states quiet_block = Inr quiet_block"
  by (simp_all add: quiet_block_def fin_block_def validate_states_def list_all_iff)

lemma counterfactual_only_drivers_matter_witness:
  "counterfactual rat_math list_numpy \<lparr>pc_delta = 60, pc_K = 3, pc_threshold = Fin (1 / 2), pc_m = 1\<rparr> quiet_block
     ''nonsense'' (Fin 0) = Inl ValueError"
proof -
  have "''nonsense'' \<notin> set FEATURE_ORDER" by code_simp
  then show ?thesis using counterfactual_only_drivers_matter [OF quiet_block_ok(2)] by blast
qed

section \<open>The driving window\<close>

lemma last_best_spec:
  assumes "list_all isfinite ws" "best < n" "n + m \<le> length ws"
    "\<forall>i < n. ws ! i \<le> ws ! best" "\<forall>i. best < i \<and> i < n \<longrightarrow> ws ! i < ws ! best"
  shows "let b = last_best ws best [n..<n + m] in b < n + m \<and>
    (\<forall>i < n + m. ws ! i \<le> ws ! b) \<and> (\<forall>i. b < i \<and> i < n + m \<longrightarrow> ws ! i < ws ! b)"
  using assms
proof (induction m arbitrary: n best)
  case 0
  then show ?case by simp
next
  case (Suc m)
  have fin: "isfinite (ws ! i)" if "i < length ws" for i using Suc.prems(1) that by (simp add: list_all_length)
  have up: "[n..<n + Suc m] = n # [Suc n..<Suc n + m]" by (simp add: upt_rec)
  show ?case
  proof (cases "ws ! best \<le> ws ! n")
    case True
    have "\<forall>i < Suc n. ws ! i \<le> ws ! n"
      using Suc.prems True fin [of n] by (auto simp: less_Suc_eq isfinite_iff intro: flt_trans)
    moreover have "\<forall>i. n < i \<and> i < Suc n \<longrightarrow> ws ! i < ws ! n" by auto
    ultimately show ?thesis using Suc.IH [of n "Suc n"] Suc.prems True unfolding up by (simp del: upt_Suc)
  next
    case False
    then have lt: "ws ! n < ws ! best" and le: "ws ! n \<le> ws ! best"
      using fin [of n] fin [of best] Suc.prems by (auto simp: isfinite_iff)
    have "\<forall>i < Suc n. ws ! i \<le> ws ! best" "\<forall>i. best < i \<and> i < Suc n \<longrightarrow> ws ! i < ws ! best"
      using Suc.prems lt le by (auto simp: less_Suc_eq)
    with Suc.IH [of best "Suc n"] Suc.prems False show ?thesis unfolding up by (simp del: upt_Suc)
  qed
qed


context numpy_laws
begin

lemma diff_finite:
  assumes "list_all isfinite xs"
  shows "list_all isfinite (np_diff NP xs) \<and> length (np_diff NP xs) = length xs - 1"
  using all_finite_Fin [OF assms] diff_Fin by (auto simp: list_all_iff)

lemma add_movement_finite:
  assumes "fin_block states" "name \<in> set DRIVERS" "list_all isfinite ws" "length ws = length states"
  shows "list_all isfinite (add_movement NP states name ws) \<and> length (add_movement NP states name ws) = length states"
proof -
  have "ws \<noteq> []" using assms(1,4) by (auto simp: fin_block_def)
  obtain rs where rs: "column states name = map Fin rs" "length rs = length states"
    using column_Fin [OF assms(1) driver_known [OF assms(2)]] by blast
  have d: "list_all isfinite (np_diff NP (column states name))" "length (np_diff NP (column states name)) = length states - 1"
    using diff_finite [of "column states name"] rs by (auto simp: list_all_iff)
  have fin: "isfinite (w + fabs x / Fin (tab DRIVER_SCALE name))" if "isfinite w" "isfinite x" for w x
    using that scale_pos [OF assms(2)] by (intro isfinite_ops isfinite_fabs) auto
  have "list_all isfinite (add_movement NP states name ws)"
    using assms(3) d(1) \<open>ws \<noteq> []\<close> list.set_sel(2) [OF \<open>ws \<noteq> []\<close>]
    unfolding add_movement_def list_all_iff by (auto intro!: fin dest: set_zip_leftD set_zip_rightD)
  with assms(4) d \<open>ws \<noteq> []\<close> show ?thesis by (cases ws) (auto simp: add_movement_def)
qed

lemma weights_finite:
  assumes "fin_block states" "set names \<subseteq> set DRIVERS" "list_all isfinite ws" "length ws = length states"
  shows "list_all isfinite (foldl (\<lambda>w name. add_movement NP states name w) ws names) \<and>
    length (foldl (\<lambda>w name. add_movement NP states name w) ws names) = length states"
  using assms(2-4)
proof (induction names arbitrary: ws)
  case (Cons name names)
  then show ?case using add_movement_finite [OF assms(1), of name ws] by simp
qed simp

lemma window_importance_finite:
  assumes "fin_block states"
  shows "list_all isfinite (window_importance NP states) \<and> length (window_importance NP states) = length states"
proof -
  let ?w = "foldl (\<lambda>w name. add_movement NP states name w) (replicate (length states) (Fin 0)) DRIVERS"
  have w: "list_all isfinite ?w" "length ?w = length states"
    using weights_finite [OF assms, of DRIVERS "replicate (length states) (Fin 0)"] by (simp_all add: list_all_iff)
  obtain ws where ws: "?w = map Fin ws" using all_finite_Fin [OF w(1)] by blast
  have "list_all isfinite (map (\<lambda>w. round_to ROUND_DP (w / Fin t)) (map Fin ws))" if "t \<noteq> 0" for t
    using that by (auto simp: list_all_iff)
  moreover have "length ws = length states" using w(2) ws by (metis length_map)
  ultimately show ?thesis
    unfolding window_importance_def Let_def ws sum_Fin by (simp add: feq_def list_all_iff)
qed

end

text \<open>
  The driving window of a block of finite readings is the newest of the windows with the largest
  importance: no window has a larger weight and every later one has a strictly smaller one.
\<close>

lemma driving_window_newest_maximum:
  assumes "numpy_laws NP" "fin_block states"
  shows "let ws = window_importance NP states; b = driving_window NP states in
    length ws = length states \<and> b < length states \<and>
    (\<forall>i < length states. ws ! i \<le> ws ! b) \<and> (\<forall>i. b < i \<and> i < length states \<longrightarrow> ws ! i < ws ! b)"
proof -
  let ?ws = "window_importance NP states"
  have fin: "list_all isfinite ?ws" and len: "length ?ws = length states"
    using numpy_laws.window_importance_finite [OF assms] by auto
  have pos: "0 < length states" using assms(2) by (auto simp: fin_block_def)
  have refl: "?ws ! 0 \<le> ?ws ! 0" using fin pos len by (auto simp: list_all_length isfinite_iff)
  have e: "1 + (length states - 1) = length states" using pos by simp
  have "[0..<length states] = 0 # [1..<length states]" using pos by (simp add: upt_rec)
  then have b: "driving_window NP states = last_best ?ws 0 [1..<length states]"
    using refl len by (simp add: driving_window_def Let_def)
  show ?thesis
    using last_best_spec [of ?ws 0 1 "length states - 1", unfolded e] fin pos len refl
    unfolding b by (simp add: Let_def)
qed

lemma driving_window_newest_maximum_witness: "driving_window list_numpy quiet_block < 2"
  using driving_window_newest_maximum [OF list_numpy.numpy_laws_axioms quiet_block_ok(1)]
  by (simp add: Let_def quiet_block_def)

text \<open>
  A forecast made from a block of finite readings keeps the contract the workers check: the
  configured number of horizon points, numbered from 1, later and later than the origin, each with its
  band around the risk inside the unit interval and one entry per stage. The signals are the four
  drivers, ordered by the size of their share, and \<open>explain\<close> reports the same signals and the same
  driving window.
\<close>

lemma predict_keeps_contract:
  assumes "pymath_laws M" "numpy_laws NP" "1 \<le> pc_m cfg" "0 < pc_delta cfg" "fin_block states"
  shows "\<exists>f. predict M NP cfg states host origin = Inr f \<and> forecast_ok (pc_K cfg) f \<and>
    fc_host f = host \<and> as_utc (fc_origin f) = as_utc origin \<and>
    mset (map sg_name (fc_signals f)) = mset DRIVERS \<and>
    sorted_wrt (\<lambda>a b. fabs (sg_shap b) \<le> fabs (sg_shap a)) (fc_signals f) \<and>
    (\<forall>k. 1 \<le> k \<and> k \<le> int (pc_K cfg) \<longrightarrow> (\<exists>e. explain M NP cfg states k = Inr e \<and>
       xp_signals e = fc_signals f \<and> int (xp_driving e) = fc_driving f))"
proof -
  obtain f where f: "predict M NP cfg states host origin = Inr f" "forecast_ok (pc_K cfg) f"
    "fc_host f = host" "as_utc (fc_origin f) = as_utc origin" using predict_ok [OF assms] by blast
  have v: "validate_states states = Inr states"
    using assms(5) by (auto simp: validate_states_def fin_block_def list_all_iff Suc_le_eq)
  have s: "fc_signals f = top_signals M (read_drivers NP states)" "fc_driving f = int (driving_window NP states)"
    using f(1) by (auto simp: predict_def v Let_def bind_res_eq_Inr)
  show ?thesis
    using f top_signals_ranked [OF fin_drivers_read [OF assms(2,5)], of M] by (auto simp: s explain_def v)
qed

lemma predict_keeps_contract_witness:
  "\<exists>f. predict rat_math list_numpy \<lparr>pc_delta = 60, pc_K = 3, pc_threshold = Fin (1 / 2), pc_m = 2\<rparr> quiet_block
     ''h1'' (Aware 0) = Inr f \<and> forecast_ok 3 f"
  using predict_keeps_contract [OF rat_math.pymath_laws_axioms list_numpy.numpy_laws_axioms,
      of "\<lparr>pc_delta = 60, pc_K = 3, pc_threshold = Fin (1 / 2), pc_m = 2\<rparr>" quiet_block "''h1''" "Aware 0"] quiet_block_ok
  by auto

end
