(* ===== verification/InferWorker.thy ===== *)
theory InferWorker
  imports StubPredictor PyConv Action
begin

text \<open>
  \<open>services/inference/worker.py\<close>: the consumer of the \<open>state_vectors\<close> stream. Its only state is the
  Redis list \<open>seq:{tenant}:{host}\<close> with the last \<open>L\<close> windows of a host. \<open>dump\<close> and \<open>load\<close> are
  pydantic's JSON codec for \<open>StateVector\<close>; the predictor is the one function \<open>P\<close> of the protocol
  the worker calls. The world is the Redis state, the forecasts put on the bus in order, and whether
  the bus accepts the next one. \<open>Bus.publish\<close> raising is the only failure of Redis considered.
\<close>

section \<open>The worker\<close>

record 's infer_world =
  iw_redis :: 's
  iw_bus :: "forecast list"
  iw_up :: bool

record sv_codec =
  sc_dump :: "state_vector \<Rightarrow> string"
  sc_load :: "string \<Rightarrow> state_vector res"

definition SEQ_TTL_S :: int where "SEQ_TTL_S = 3600"

definition seq_key :: "string \<Rightarrow> string \<Rightarrow> string" where
  "seq_key tenant_id host_id = ''seq:'' @ tenant_id @ '':'' @ host_id"

definition states_array :: "state_vector list \<Rightarrow> flt list list res" where
  "states_array vectors = traverse_res (\<lambda>vector. traverse_res (dict_index (sv_features vector)) FEATURE_ORDER) vectors"

definition is_duplicate ::
    "sv_codec \<Rightarrow> 's redis_ops \<Rightarrow> string \<Rightarrow> state_vector \<Rightarrow> ('s infer_world, bool) act" where
  "is_duplicate J R key vector = reads_res (\<lambda>w.
     case r_lindex_last R (iw_redis w) key of None \<Rightarrow> Inr False
     | Some raw \<Rightarrow> bind_res (sc_load J raw) (\<lambda>tail. Inr (sv_ts tail = sv_ts vector)))"

text \<open>The pipeline runs as one transaction; \<open>L\<close> is \<open>context_L\<close>.\<close>

definition push ::
    "sv_codec \<Rightarrow> 's redis_ops \<Rightarrow> nat \<Rightarrow> string \<Rightarrow> state_vector \<Rightarrow> ('s infer_world, state_vector list) act" where
  "push J R L key vector =
     abind (updates (\<lambda>w. w\<lparr>iw_redis := r_rpush R (iw_redis w) key (sc_dump J vector)\<rparr>)) (\<lambda>_.
     abind (updates (\<lambda>w. w\<lparr>iw_redis := r_ltrim_last R (iw_redis w) key L\<rparr>)) (\<lambda>_.
     abind (updates (\<lambda>w. w\<lparr>iw_redis := r_expire R (iw_redis w) key SEQ_TTL_S\<rparr>)) (\<lambda>_.
     abind (reads (\<lambda>w. r_lrange R (iw_redis w) key)) (\<lambda>raw.
       lift_res (traverse_res (sc_load J) raw)))))"

definition publish_forecast :: "forecast \<Rightarrow> ('s infer_world, unit) act" where
  "publish_forecast f = (\<lambda>w. if iw_up w then (Inr (), w\<lparr>iw_bus := iw_bus w @ [f]\<rparr>) else (Inl RedisError, w))"

definition infer ::
    "sv_codec \<Rightarrow> 's redis_ops \<Rightarrow> nat \<Rightarrow> nat \<Rightarrow> (flt list list \<Rightarrow> string \<Rightarrow> datetime \<Rightarrow> forecast res) \<Rightarrow>
     state_vector \<Rightarrow> ('s infer_world, forecast option) act" where
  "infer J R L K P vector =
     (let key = seq_key (sv_tenant vector) (sv_host vector) in
      abind (is_duplicate J R key vector) (\<lambda>duplicate.
      if duplicate then ret None
      else abind (push J R L key vector) (\<lambda>buffered.
        if length buffered < L then ret None
        else
          abind (lift_res (bind_res (states_array buffered) (\<lambda>states. P states (sv_host vector) (sv_ts vector)))) (\<lambda>result.
          abind (lift_res (validate_forecast K (result\<lparr>fc_tenant := sv_tenant vector\<rparr>))) (\<lambda>f.
          abind (publish_forecast f) (\<lambda>_. ret (Some f)))))))"

definition handle_vector ::
    "sv_codec \<Rightarrow> 's redis_ops \<Rightarrow> nat \<Rightarrow> nat \<Rightarrow> (flt list list \<Rightarrow> string \<Rightarrow> datetime \<Rightarrow> forecast res) \<Rightarrow>
     string \<Rightarrow> ('s infer_world, forecast option) act" where
  "handle_vector J R L K P payload = abind (lift_res (sc_load J payload)) (infer J R L K P)"

text \<open>
  A sequence of deliveries: an exception of one leaves its message unacknowledged and the worker goes
  on with the next.
\<close>

fun infer_all ::
    "sv_codec \<Rightarrow> 's redis_ops \<Rightarrow> nat \<Rightarrow> nat \<Rightarrow> (flt list list \<Rightarrow> string \<Rightarrow> datetime \<Rightarrow> forecast res) \<Rightarrow>
     state_vector list \<Rightarrow> 's infer_world \<Rightarrow> 's infer_world" where
  "infer_all J R L K P [] w = w"
| "infer_all J R L K P (v # vs) w = infer_all J R L K P vs (snd (infer J R L K P v w))"

section \<open>Choosing the predictor\<close>

text \<open>
  \<open>predictor_loader.py\<close>: which predictor a process builds, from the \<open>predictor\<close> block of the
  configuration. Constructing the object itself and torch's thread pool are left out.
\<close>

definition STUB_IMPL :: string where "STUB_IMPL = ''stub''"
definition NIDRA_IMPL :: string where "NIDRA_IMPL = ''nidra''"

datatype predictor_choice = Use_stub | Use_nidra string string string

definition resolve :: "string \<Rightarrow> string \<Rightarrow> string" where
  "resolve base path = (if take 1 path = ''/'' then path else base @ ''/'' @ path)"

definition load_predictor :: "string \<Rightarrow> (string, string) dict \<Rightarrow> predictor_choice res" where
  "load_predictor base predictor_cfg =
     (let impl = dict_get predictor_cfg ''impl'' STUB_IMPL in
      if impl = STUB_IMPL then Inr Use_stub
      else if impl = NIDRA_IMPL then
        bind_res (dict_index predictor_cfg ''weights_dir'') (\<lambda>weights_dir.
        bind_res (dict_index predictor_cfg ''scaler_path'') (\<lambda>scaler_path.
        bind_res (dict_index predictor_cfg ''config_path'') (\<lambda>config_path.
          Inr (Use_nidra (resolve base weights_dir) (resolve base scaler_path) (resolve base config_path)))))
      else Inl ValueError)"

section \<open>The interface to the predictor\<close>

text \<open>
  What the worker and the other services rely on: for a full block of finite readings the predictor
  returns a forecast for that host and instant that keeps the contract.
\<close>

locale predictor =
  fixes K :: nat and P :: "flt list list \<Rightarrow> string \<Rightarrow> datetime \<Rightarrow> forecast res"
  assumes contract: "fin_block states \<Longrightarrow> \<exists>f. P states host origin = Inr f \<and> forecast_ok K f \<and>
    fc_host f = host \<and> as_utc (fc_origin f) = as_utc origin"
begin

definition tagged :: "string \<Rightarrow> flt list list \<Rightarrow> string \<Rightarrow> datetime \<Rightarrow> forecast" where
  "tagged tenant states host origin = (case P states host origin of Inr f \<Rightarrow> f\<lparr>fc_tenant := tenant\<rparr>)"

lemma tagged_ok:
  assumes "fin_block states"
  shows "bind_res (P states host origin) (\<lambda>r. validate_forecast K (r\<lparr>fc_tenant := tenant\<rparr>)) =
      Inr (tagged tenant states host origin)"
    and "forecast_ok K (tagged tenant states host origin)"
    and "fc_host (tagged tenant states host origin) = host"
    and "as_utc (fc_origin (tagged tenant states host origin)) = as_utc origin"
    and "fc_tenant (tagged tenant states host origin) = tenant"
  using contract [OF assms, of host origin]
  by (auto simp: tagged_def validate_forecast_exact forecast_ok_def)

lemma lifted_forecast:
  assumes "fin_block states"
  shows "\<exists>r. P states host origin = Inr r \<and>
    validate_forecast K (r\<lparr>fc_tenant := tenant\<rparr>) = Inr (tagged tenant states host origin)"
  using tagged_ok(1) [OF assms] by (auto simp: bind_res_eq_Inr)

end

text \<open>The surrogate predictor provides it, for any settings with a positive run length and width.\<close>

locale stub_settings = pymath_laws M + numpy_laws NP for M :: pymath and NP :: numpy +
  fixes cfg :: predictor_cfg
  assumes run: "1 \<le> pc_m cfg" and width: "0 < pc_delta cfg"

sublocale stub_settings \<subseteq> predictor "pc_K cfg" "predict M NP cfg"
  by unfold_locales (rule predict_ok [OF pymath_laws_axioms numpy_laws_axioms run width])

definition demo_cfg :: predictor_cfg where
  "demo_cfg = \<lparr>pc_delta = 60, pc_K = 2, pc_threshold = Fin (1 / 2), pc_m = 2\<rparr>"

interpretation stub: stub_settings rat_math list_numpy demo_cfg
  by unfold_locales (simp_all add: demo_cfg_def)

section \<open>The codec\<close>

text \<open>
  A vector the features worker publishes: one finite number per canonical feature. JSON has no literal
  for the infinities or NaN, so reading inverts writing on these vectors only.
\<close>

definition vec_ok :: "state_vector \<Rightarrow> bool" where
  "vec_ok v \<longleftrightarrow> wf_dict (sv_features v) \<and> set (keys (sv_features v)) = set FEATURE_ORDER \<and>
     list_all isfinite (map snd (sv_features v))"

locale sv_codec_laws =
  fixes J :: sv_codec
  assumes load_dump: "vec_ok v \<Longrightarrow> sc_load J (sc_dump J v) = Inr v"

instance datetime :: countable
  by countable_datatype

definition std_codec :: sv_codec where
  "std_codec = \<lparr>
     sc_dump = (\<lambda>v. nat_str (to_nat (sv_tenant v, sv_host v, sv_ts v, sv_features v, sv_schema v))),
     sc_load = (\<lambda>s. case from_nat (digits_val s) of (tenant, host, ts, features, schema) \<Rightarrow>
       validate_state_vector \<lparr>sv_tenant = tenant, sv_host = host, sv_ts = ts, sv_features = features,
         sv_schema = schema\<rparr>)\<rparr>"

interpretation std: sv_codec_laws std_codec
  by unfold_locales (simp add: std_codec_def validate_state_vector_def vec_ok_def)

section \<open>What one window does\<close>

definition matrix :: "state_vector list \<Rightarrow> flt list list" where
  "matrix vs = map (\<lambda>v. map (\<lambda>name. the (map_of (sv_features v) name)) FEATURE_ORDER) vs"

lemma vec_ok_lookup:
  assumes "vec_ok v" "name \<in> set FEATURE_ORDER"
  shows "\<exists>x. map_of (sv_features v) name = Some x \<and> isfinite x"
proof -
  have "name \<in> set (keys (sv_features v))" using assms by (simp add: vec_ok_def)
  then obtain x where x: "map_of (sv_features v) name = Some x"
    by (metis dom_map_of_conv_image_fst domD set_map)
  then have "x \<in> set (map snd (sv_features v))" by (force dest: map_of_SomeD)
  with assms(1) x show ?thesis by (auto simp: vec_ok_def list_all_iff)
qed

lemma states_array_matrix:
  assumes "list_all vec_ok vs"
  shows "states_array vs = Inr (matrix vs)"
  unfolding states_array_def matrix_def
proof (rule traverse_res_all, rule traverse_res_all)
  fix v name assume "v \<in> set vs" "name \<in> set FEATURE_ORDER"
  then show "dict_index (sv_features v) name = Inr (the (map_of (sv_features v) name))"
    using assms vec_ok_lookup [of v name] by (auto simp: dict_index_def list_all_iff)
qed

lemma matrix_fin_block: "list_all vec_ok vs \<Longrightarrow> vs \<noteq> [] \<Longrightarrow> fin_block (matrix vs)"
  using vec_ok_lookup by (fastforce simp: fin_block_def matrix_def list_all_iff)

text \<open>The windows a host's stream settles on: a window that repeats the one before it is dropped.\<close>

fun fresh :: "datetime option \<Rightarrow> state_vector list \<Rightarrow> state_vector list" where
  "fresh prev [] = []"
| "fresh prev (v # vs) = (if prev = Some (sv_ts v) then fresh prev vs else v # fresh (Some (sv_ts v)) vs)"

definition repeats :: "state_vector list \<Rightarrow> state_vector \<Rightarrow> bool" where
  "repeats b v \<longleftrightarrow> b \<noteq> [] \<and> sv_ts (last b) = sv_ts v"

lemma fresh_snoc: "fresh prev (vs @ [v]) =
    (let b = fresh prev vs in
     if (if b = [] then prev = Some (sv_ts v) else sv_ts (last b) = sv_ts v) then b else b @ [v])"
  by (induction vs arbitrary: prev) (auto simp: Let_def)

lemma fresh_Nil: "fresh None vs = [] \<longleftrightarrow> vs = []"
  by (cases vs) auto

lemma fresh_step: "fresh None (vs @ [v]) = (let b = fresh None vs in if repeats b v then b else b @ [v])"
  by (simp add: fresh_snoc repeats_def Let_def)

lemma set_fresh: "set (fresh prev vs) \<subseteq> set vs"
  by (induction vs arbitrary: prev) auto

text \<open>A stream in order, with repeats, settles on its windows, each once.\<close>

lemma fresh_sorted:
  assumes "sorted (map (\<lambda>v. as_utc (sv_ts v)) vs)" "\<forall>v \<in> set vs. \<exists>us. sv_ts v = Aware us"
  shows "sorted_wrt (<) (map (\<lambda>v. as_utc (sv_ts v)) (fresh None vs)) \<and>
    (\<forall>p \<in> set vs. \<exists>q \<in> set (fresh None vs). sv_ts q = sv_ts p)"
  using assms
proof (induction vs rule: rev_induct)
  case (snoc v vs)
  let ?b = "fresh None vs"
  have IH: "sorted_wrt (<) (map (\<lambda>v. as_utc (sv_ts v)) ?b)" "\<forall>p \<in> set vs. \<exists>q \<in> set ?b. sv_ts q = sv_ts p"
    using snoc by (auto simp: sorted_append)
  have le: "as_utc (sv_ts q) \<le> as_utc (sv_ts v)" if "q \<in> set ?b" for q
    using that set_fresh [of None vs] snoc.prems(1) by (auto simp: sorted_append)
  have aware: "\<exists>us. sv_ts q = Aware us" if "q \<in> set ?b \<or> q = v" for q
    using that set_fresh [of None vs] snoc.prems(2) by auto
  show ?case
  proof (cases "repeats ?b v")
    case True
    then have "last ?b \<in> set ?b" "sv_ts (last ?b) = sv_ts v" by (simp_all add: repeats_def)
    with True IH show ?thesis by (auto simp: fresh_step)
  next
    case False
    have "as_utc (sv_ts q) < as_utc (sv_ts v)" if q: "q \<in> set ?b" for q
    proof -
      have ne: "?b \<noteq> []" using q by auto
      have lst: "as_utc (sv_ts (last ?b)) < as_utc (sv_ts v)"
        using le [of "last ?b"] ne False aware [of "last ?b"] aware [of v]
        by (auto simp: repeats_def)
      have "as_utc (sv_ts q) \<le> as_utc (sv_ts (last ?b))"
        using IH(1) q ne by (cases ?b rule: rev_cases) (auto simp: sorted_wrt_append)
      with lst show ?thesis by simp
    qed
    with False IH show ?thesis by (auto simp: fresh_step sorted_wrt_append)
  qed
qed simp

section \<open>The buffers\<close>

lemma seq_key_inj:
  assumes "CHR '':'' \<notin> set t" "CHR '':'' \<notin> set t'"
  shows "seq_key t h = seq_key t' h' \<longleftrightarrow> t = t' \<and> h = h'"
proof
  assume "seq_key t h = seq_key t' h'"
  then have "t @ CHR '':'' # h = t' @ CHR '':'' # h'" by (simp add: seq_key_def)
  then have "(t, True, h) = (t', True, h')"
    using partition_str_append [OF assms(1), of h] partition_str_append [OF assms(2), of h'] by metis
  then show "t = t' \<and> h = h'" by simp
qed simp

locale inference = redis_laws R F + sv_codec_laws J + predictor K P
  for R :: "'s redis_ops" and F :: "string \<Rightarrow> flt res" and J :: sv_codec and K :: nat
    and P :: "flt list list \<Rightarrow> string \<Rightarrow> datetime \<Rightarrow> forecast res" +
  fixes L :: nat
  assumes windows: "0 < L"
begin

text \<open>The list of a key holds these vectors.\<close>

definition holds :: "'s infer_world \<Rightarrow> string \<Rightarrow> state_vector list \<Rightarrow> bool" where
  "holds w key b \<longleftrightarrow> list_all vec_ok b \<and> r_lrange R (iw_redis w) key = map (sc_dump J) b"

lemma load_all: "list_all vec_ok b \<Longrightarrow> traverse_res (sc_load J) (map (sc_dump J) b) = Inr b"
  by (induction b) (simp_all add: load_dump)

lemma is_duplicate_run:
  assumes "holds w key b"
  shows "is_duplicate J R key v w = (Inr (repeats b v), w)"
proof (cases b rule: rev_cases)
  case Nil
  with assms show ?thesis by (simp add: is_duplicate_def act_simps lindex_last holds_def repeats_def)
next
  case (snoc ys y)
  with assms show ?thesis
    by (simp add: is_duplicate_def act_simps lindex_last holds_def repeats_def load_dump)
qed

lemma push_run:
  assumes "holds w key b" "vec_ok v"
  shows "\<exists>s. push J R L key v w = (Inr (last_n L (b @ [v])), w\<lparr>iw_redis := s\<rparr>) \<and>
    holds (w\<lparr>iw_redis := s\<rparr>) key (last_n L (b @ [v])) \<and>
    (\<forall>k. k \<noteq> key \<longrightarrow> r_lrange R s k = r_lrange R (iw_redis w) k)"
proof -
  let ?s1 = "r_rpush R (iw_redis w) key (sc_dump J v)"
  let ?s2 = "r_ltrim_last R ?s1 key L"
  have ok: "list_all vec_ok (last_n L (b @ [v]))"
    using assms last_n_set [of L "b @ [v]"] by (auto simp: holds_def list_all_iff)
  have rng: "r_lrange R ?s2 key = map (sc_dump J) (last_n L (b @ [v]))"
    using assms(1) windows by (simp add: ltrim_same rpush_same holds_def last_n_def drop_map)
  have oth: "r_lrange R ?s2 k = r_lrange R (iw_redis w) k" if "k \<noteq> key" for k
    using view_lrange [OF ltrim_frame [OF that]] view_lrange [OF rpush_frame [OF that]] by simp
  show ?thesis
    using ok rng oth load_all [OF ok]
    by (intro exI [of _ "r_expire R ?s2 key SEQ_TTL_S"]) (simp add: push_def act_simps holds_def)
qed

lemma infer_run:
  assumes "holds w (seq_key (sv_tenant v) (sv_host v)) b" "vec_ok v"
  shows "\<exists>s. (let b' = last_n L (b @ [v]); f = tagged (sv_tenant v) (matrix b') (sv_host v) (sv_ts v) in
    infer J R L K P v w =
      (if repeats b v then (Inr None, w)
       else if length b' < L then (Inr None, w\<lparr>iw_redis := s\<rparr>)
       else if iw_up w then (Inr (Some f), w\<lparr>iw_redis := s, iw_bus := iw_bus w @ [f]\<rparr>)
       else (Inl RedisError, w\<lparr>iw_redis := s\<rparr>)) \<and>
    holds (w\<lparr>iw_redis := s\<rparr>) (seq_key (sv_tenant v) (sv_host v)) b' \<and> forecast_ok K f \<and>
    (\<forall>k. k \<noteq> seq_key (sv_tenant v) (sv_host v) \<longrightarrow> r_lrange R s k = r_lrange R (iw_redis w) k))"
proof -
  let ?b = "last_n L (b @ [v])"
  obtain s where s: "push J R L (seq_key (sv_tenant v) (sv_host v)) v w = (Inr ?b, w\<lparr>iw_redis := s\<rparr>)"
    "holds (w\<lparr>iw_redis := s\<rparr>) (seq_key (sv_tenant v) (sv_host v)) ?b"
    "\<forall>k. k \<noteq> seq_key (sv_tenant v) (sv_host v) \<longrightarrow> r_lrange R s k = r_lrange R (iw_redis w) k"
    using push_run [OF assms] by blast
  have ok: "list_all vec_ok ?b" using s(2) by (simp add: holds_def)
  have "?b \<noteq> []" using windows by (simp add: last_n_append1)
  then have fb: "fin_block (matrix ?b)" by (rule matrix_fin_block [OF ok])
  obtain r where r: "P (matrix ?b) (sv_host v) (sv_ts v) = Inr r"
    "validate_forecast K (r\<lparr>fc_tenant := sv_tenant v\<rparr>) = Inr (tagged (sv_tenant v) (matrix ?b) (sv_host v) (sv_ts v))"
    using lifted_forecast [OF fb] by blast
  show ?thesis
    using s(2,3) tagged_ok(2) [OF fb]
    by (intro exI [of _ s])
      (simp add: Let_def infer_def act_simps is_duplicate_run [OF assms(1)] s(1) states_array_matrix [OF ok] r
        publish_forecast_def)
qed

end

section \<open>What the worker promises, and where it does not\<close>

definition of_host :: "string \<Rightarrow> string \<Rightarrow> state_vector list \<Rightarrow> state_vector list" where
  "of_host t h vs = filter (\<lambda>v. sv_tenant v = t \<and> sv_host v = h) vs"

definition no_buffers :: "'s redis_ops \<Rightarrow> 's infer_world \<Rightarrow> bool" where
  "no_buffers R w \<longleftrightarrow> (\<forall>t h. r_lrange R (iw_redis w) (seq_key t h) = [])"

definition vecs_ok :: "state_vector list \<Rightarrow> bool" where
  "vecs_ok vs \<longleftrightarrow> list_all (\<lambda>v. vec_ok v \<and> CHR '':'' \<notin> set (sv_tenant v)) vs"

lemma last_n_last: "0 < n \<Longrightarrow> xs \<noteq> [] \<Longrightarrow> last (last_n n xs) = last xs"
  by (cases xs rule: rev_cases) (simp_all add: last_n_append1)

lemma last_n_Nil: "0 < n \<Longrightarrow> last_n n xs = [] \<longleftrightarrow> xs = []"
  by (cases xs) (auto simp: last_n_def)

lemma repeats_last_n: "0 < n \<Longrightarrow> repeats (last_n n b) v = repeats b v"
  by (cases "b = []") (auto simp: repeats_def last_n_last last_n_Nil)

lemma last_n_snoc: "0 < n \<Longrightarrow> last_n n (last_n n b @ [v]) = last_n n (b @ [v])"
  by (simp add: last_n_append1)

context inference
begin

text \<open>Every host's buffer is the last \<open>L\<close> windows its stream has settled on.\<close>

definition buffers :: "'s infer_world \<Rightarrow> state_vector list \<Rightarrow> bool" where
  "buffers w hist \<longleftrightarrow> (\<forall>t h. CHR '':'' \<notin> set t \<longrightarrow>
     holds w (seq_key t h) (last_n L (fresh None (of_host t h hist))))"

lemma buffers_start: "no_buffers R w \<Longrightarrow> buffers w []"
  by (simp add: buffers_def no_buffers_def of_host_def holds_def)

lemma infer_buffers:
  assumes "buffers w hist" "vec_ok v" "CHR '':'' \<notin> set (sv_tenant v)"
  shows "buffers (snd (infer J R L K P v w)) (hist @ [v]) \<and> iw_up (snd (infer J R L K P v w)) = iw_up w"
proof -
  let ?k = "seq_key (sv_tenant v) (sv_host v)"
  let ?fr = "fresh None (of_host (sv_tenant v) (sv_host v) hist)"
  let ?b = "last_n L ?fr"
  have b: "holds w ?k ?b" using assms(1,3) by (simp add: buffers_def)
  obtain s where s: "let b' = last_n L (?b @ [v]); f = tagged (sv_tenant v) (matrix b') (sv_host v) (sv_ts v) in
    infer J R L K P v w =
      (if repeats ?b v then (Inr None, w)
       else if length b' < L then (Inr None, w\<lparr>iw_redis := s\<rparr>)
       else if iw_up w then (Inr (Some f), w\<lparr>iw_redis := s, iw_bus := iw_bus w @ [f]\<rparr>)
       else (Inl RedisError, w\<lparr>iw_redis := s\<rparr>)) \<and>
    holds (w\<lparr>iw_redis := s\<rparr>) ?k b' \<and> forecast_ok K f \<and>
    (\<forall>k. k \<noteq> ?k \<longrightarrow> r_lrange R s k = r_lrange R (iw_redis w) k)"
    using infer_run [OF b assms(2)] by blast
  let ?w = "snd (infer J R L K P v w)"
  have up: "iw_up ?w = iw_up w" using s by (simp add: Let_def split: if_splits)
  have red: "iw_redis ?w = (if repeats ?b v then iw_redis w else s)"
    using s by (simp add: Let_def split: if_splits)
  have "holds ?w (seq_key t h) (last_n L (fresh None (of_host t h (hist @ [v]))))" if t: "CHR '':'' \<notin> set t" for t h
  proof (cases "t = sv_tenant v \<and> h = sv_host v")
    case True
    have "last_n L (fresh None (of_host t h (hist @ [v]))) = (if repeats ?b v then ?b else last_n L (?b @ [v]))"
      using True windows by (simp add: of_host_def fresh_step Let_def repeats_last_n last_n_snoc)
    moreover have "holds ?w ?k (if repeats ?b v then ?b else last_n L (?b @ [v]))"
      using b s red by (simp add: holds_def Let_def)
    ultimately show ?thesis using True by simp
  next
    case False
    then have "seq_key t h \<noteq> ?k" using seq_key_inj [OF t assms(3)] by blast
    then have "r_lrange R (iw_redis ?w) (seq_key t h) = r_lrange R (iw_redis w) (seq_key t h)"
      using s red by (simp add: Let_def)
    moreover have "of_host t h (hist @ [v]) = of_host t h hist" using False by (auto simp: of_host_def)
    moreover have "holds w (seq_key t h) (last_n L (fresh None (of_host t h hist)))"
      using assms(1) t by (simp add: buffers_def)
    ultimately show ?thesis by (simp add: holds_def)
  qed
  with up show ?thesis by (simp add: buffers_def)
qed

lemma infer_all_buffers:
  assumes "buffers w hist" "vecs_ok vs"
  shows "buffers (infer_all J R L K P vs w) (hist @ vs) \<and> iw_up (infer_all J R L K P vs w) = iw_up w"
  using assms
proof (induction vs arbitrary: w hist)
  case (Cons v vs)
  have v: "buffers (snd (infer J R L K P v w)) (hist @ [v]) \<and> iw_up (snd (infer J R L K P v w)) = iw_up w"
    using Cons.prems by (intro infer_buffers) (simp_all add: vecs_ok_def)
  then show ?case using Cons.IH [of _ "hist @ [v]"] Cons.prems(2) by (simp add: vecs_ok_def)
qed simp

lemma forecast_step:
  assumes "buffers w hist" "vec_ok v" "CHR '':'' \<notin> set (sv_tenant v)" "iw_up w"
  shows "let old = fresh None (of_host (sv_tenant v) (sv_host v) hist);
      f = tagged (sv_tenant v) (matrix (last_n L (old @ [v]))) (sv_host v) (sv_ts v) in
    (repeats old v \<longrightarrow> infer J R L K P v w = (Inr None, w)) \<and>
    (\<not> repeats old v \<longrightarrow> length old + 1 < L \<longrightarrow> fst (infer J R L K P v w) = Inr None \<and>
       iw_bus (snd (infer J R L K P v w)) = iw_bus w) \<and>
    (\<not> repeats old v \<longrightarrow> L \<le> length old + 1 \<longrightarrow> fst (infer J R L K P v w) = Inr (Some f) \<and>
       iw_bus (snd (infer J R L K P v w)) = iw_bus w @ [f] \<and> forecast_ok K f)"
proof -
  let ?old = "fresh None (of_host (sv_tenant v) (sv_host v) hist)"
  have b: "holds w (seq_key (sv_tenant v) (sv_host v)) (last_n L ?old)"
    using assms(1,3) by (simp add: buffers_def)
  have len: "length (last_n L (?old @ [v])) < L \<longleftrightarrow> length ?old + 1 < L" by auto
  show ?thesis
    using infer_run [OF b assms(2)] assms(4) windows len
    by (auto simp: Let_def repeats_last_n last_n_snoc)
qed

end

interpretation stub_inference: inference std_redis parse_flt std_codec 2 "predict rat_math list_numpy demo_cfg" 2
proof -
  have F: "c_float std_conv = parse_flt" by (simp add: std_conv_def)
  have K: "pc_K demo_cfg = 2" by (simp add: demo_cfg_def)
  show "inference std_redis parse_flt std_codec 2 (predict rat_math list_numpy demo_cfg) 2"
    using std.redis_laws_axioms stub.predictor_axioms std.sv_codec_laws_axioms
    unfolding F K by (intro inference.intro inference_axioms.intro) auto
qed

text \<open>
  The buffer in Redis is all the worker needs: whatever windows of whatever hosts were delivered,
  in any interleaving and with immediate repeats, a host's list holds exactly the last \<open>L\<close> windows
  its stream settles on, a repeat of the newest one dropped. For a stream that is in time order
  these are distinct windows, each delivered window among the settled ones.
\<close>

lemma buffers_are_last_windows:
  assumes "inference R F J K P L" "no_buffers R w" "vecs_ok vs" "CHR '':'' \<notin> set t"
  shows "r_lrange R (iw_redis (infer_all J R L K P vs w)) (seq_key t h) =
      map (sc_dump J) (last_n L (fresh None (of_host t h vs))) \<and>
    (sorted (map (\<lambda>v. as_utc (sv_ts v)) (of_host t h vs)) \<longrightarrow> (\<forall>v \<in> set vs. \<exists>us. sv_ts v = Aware us) \<longrightarrow>
      sorted_wrt (<) (map (\<lambda>v. as_utc (sv_ts v)) (fresh None (of_host t h vs))) \<and>
      (\<forall>p \<in> set (of_host t h vs). \<exists>q \<in> set (fresh None (of_host t h vs)). sv_ts q = sv_ts p))"
proof -
  have "inference.buffers R J L (infer_all J R L K P vs w) vs"
    using inference.infer_all_buffers [OF assms(1) inference.buffers_start [OF assms(1,2)] assms(3)] by simp
  then have "r_lrange R (iw_redis (infer_all J R L K P vs w)) (seq_key t h) =
      map (sc_dump J) (last_n L (fresh None (of_host t h vs)))"
    using assms(4) by (simp add: inference.buffers_def [OF assms(1)] inference.holds_def [OF assms(1)])
  moreover have "set (of_host t h vs) \<subseteq> set vs" by (auto simp: of_host_def)
  ultimately show ?thesis using fresh_sorted [of "of_host t h vs"] by blast
qed

definition demo_vec :: "int \<Rightarrow> state_vector" where
  "demo_vec us = \<lparr>sv_tenant = ''t'', sv_host = ''h'', sv_ts = Aware us,
     sv_features = map (\<lambda>name. (name, Fin 0)) FEATURE_ORDER, sv_schema = SCHEMA_VERSION\<rparr>"

definition demo_infer :: "mem infer_world" where
  "demo_infer = \<lparr>iw_redis = [], iw_bus = [], iw_up = True\<rparr>"

lemma demo_vec_ok [simp]: "vec_ok (demo_vec us)"
  by (simp add: vec_ok_def demo_vec_def wf_dict_def comp_def list_all_iff)

lemma demo_vecs_ok: "vecs_ok (map demo_vec uss)"
  by (simp add: vecs_ok_def list_all_iff demo_vec_ok) (simp add: demo_vec_def)

lemma demo_no_buffers: "no_buffers std_redis demo_infer"
  by (simp add: no_buffers_def demo_infer_def std_redis_def mem_redis_def m_entry_def no_entry_def dict_get_def)

lemma demo_of_host: "of_host ''t'' ''h'' (map demo_vec uss) = map demo_vec uss"
  by (simp add: of_host_def demo_vec_def filter_map comp_def)

lemma demo_ts [simp]: "sv_ts (demo_vec us) = Aware us" "sv_tenant (demo_vec us) = ''t''" "sv_host (demo_vec us) = ''h''"
  by (simp_all add: demo_vec_def)

lemma buffers_are_last_windows_witness:
  "r_lrange std_redis (iw_redis (infer_all std_codec std_redis 2 2 (predict rat_math list_numpy demo_cfg)
      (map demo_vec [0, 60, 60, 120]) demo_infer)) (seq_key ''t'' ''h'') = map (sc_dump std_codec) (map demo_vec [60, 120])"
proof -
  have "fresh None (map demo_vec [0, 60, 60, 120]) = map demo_vec [0, 60, 120]" by simp
  moreover have "last_n 2 (map demo_vec [0, 60, 120]) = map demo_vec [60, 120]" by (simp add: last_n_def)
  ultimately show ?thesis
    using buffers_are_last_windows [OF stub_inference.inference_axioms demo_no_buffers demo_vecs_ok, of "''t''" "[0, 60, 60, 120]" "''h''"]
    by (simp only: demo_of_host) simp
qed

text \<open>
  C16. A forecast is made from exactly the last \<open>L\<close> settled windows of the host. After any deliveries,
  the next window is dropped when it repeats the newest one, only buffered while the host has fewer
  than \<open>L\<close> windows, and otherwise the predictor's answer on those \<open>L\<close> windows, stamped with the
  tenant and checked, is the one message put on the bus.
\<close>

theorem forecast_from_last_windows:
  assumes "inference R F J K P L" "no_buffers R w" "vecs_ok (vs @ [v])" "iw_up w"
  shows "let old = fresh None (of_host (sv_tenant v) (sv_host v) vs); w' = infer_all J R L K P vs w;
      r = infer J R L K P v w' in
    (repeats old v \<longrightarrow> r = (Inr None, w')) \<and>
    (\<not> repeats old v \<longrightarrow> length old + 1 < L \<longrightarrow> fst r = Inr None \<and> iw_bus (snd r) = iw_bus w') \<and>
    (\<not> repeats old v \<longrightarrow> L \<le> length old + 1 \<longrightarrow> (\<exists>f. P (matrix (last_n L (old @ [v]))) (sv_host v) (sv_ts v) = Inr f \<and>
       fst r = Inr (Some (f\<lparr>fc_tenant := sv_tenant v\<rparr>)) \<and> iw_bus (snd r) = iw_bus w' @ [f\<lparr>fc_tenant := sv_tenant v\<rparr>] \<and>
       forecast_ok K (f\<lparr>fc_tenant := sv_tenant v\<rparr>)))"
proof -
  let ?w = "infer_all J R L K P vs w"
  let ?old = "fresh None (of_host (sv_tenant v) (sv_host v) vs)"
  have ok: "vecs_ok vs" "vec_ok v" "CHR '':'' \<notin> set (sv_tenant v)" using assms(3) by (auto simp: vecs_ok_def)
  have b: "inference.buffers R J L ?w vs \<and> iw_up ?w = iw_up w"
    using inference.infer_all_buffers [OF assms(1) inference.buffers_start [OF assms(1,2)] ok(1)] by simp
  have pr: "predictor K P" using assms(1) by (simp add: inference_def)
  have old: "list_all vec_ok (last_n L (?old @ [v]))"
    using ok set_fresh [of None "of_host (sv_tenant v) (sv_host v) vs"] last_n_set [of L "?old @ [v]"]
    by (fastforce simp: list_all_iff vecs_ok_def of_host_def)
  have "0 < L" using assms(1) by (simp add: inference_def inference_axioms_def)
  then have "fin_block (matrix (last_n L (?old @ [v])))" by (intro matrix_fin_block old) (simp add: last_n_Nil)
  from predictor.contract [OF pr this] obtain f where f: "P (matrix (last_n L (?old @ [v]))) (sv_host v) (sv_ts v) = Inr f" by blast
  show ?thesis
    using inference.forecast_step [OF assms(1) conjunct1 [OF b] ok(2,3)] b assms(4) f
    by (simp add: Let_def predictor.tagged_def [OF pr])
qed

lemma forecast_from_last_windows_witness:
  "\<exists>f. predict rat_math list_numpy demo_cfg (matrix (map demo_vec [60, 120])) ''h'' (Aware 120) = Inr f \<and>
    fst (infer std_codec std_redis 2 2 (predict rat_math list_numpy demo_cfg) (demo_vec 120)
      (infer_all std_codec std_redis 2 2 (predict rat_math list_numpy demo_cfg) (map demo_vec [0, 60]) demo_infer))
    = Inr (Some (f\<lparr>fc_tenant := ''t''\<rparr>))"
proof -
  have v: "vecs_ok (map demo_vec [0, 60] @ [demo_vec 120])" using demo_vecs_ok [of "[0, 60, 120]"] by simp
  have fr: "fresh None (map demo_vec [0, 60]) = map demo_vec [0, 60]" by simp
  have l: "last_n 2 (map demo_vec [0, 60] @ [demo_vec 120]) = map demo_vec [60, 120]" by (simp add: last_n_def)
  have n: "\<not> repeats (map demo_vec [0, 60]) (demo_vec 120)" by (simp add: repeats_def)
  have up: "iw_up demo_infer" by (simp add: demo_infer_def)
  show ?thesis
    using forecast_from_last_windows [OF stub_inference.inference_axioms demo_no_buffers v up]
    unfolding Let_def demo_ts demo_of_host fr l using n by auto
qed

text \<open>
  A forecast is lost when the bus fails once. The window is already in the buffer when the publish
  raises, so the message stays pending, and when it is delivered again the worker takes it for a
  duplicate: it returns without an error, so the message is acknowledged, and no forecast of that
  window is ever published.
\<close>

lemma failed_publish_loses_forecast:
  assumes "inference R F J K P L" "no_buffers R w" "vecs_ok (vs @ [v])"
    "\<not> repeats (fresh None (of_host (sv_tenant v) (sv_host v) vs)) v"
    "L \<le> length (fresh None (of_host (sv_tenant v) (sv_host v) vs)) + 1"
  shows "let w1 = (infer_all J R L K P vs w)\<lparr>iw_up := False\<rparr>; r1 = infer J R L K P v w1; w2 = (snd r1)\<lparr>iw_up := True\<rparr> in
    fst r1 = Inl RedisError \<and> infer J R L K P v w2 = (Inr None, w2) \<and> iw_bus w2 = iw_bus w1"
proof -
  let ?w = "infer_all J R L K P vs w"
  let ?w1 = "?w\<lparr>iw_up := False\<rparr>"
  let ?k = "seq_key (sv_tenant v) (sv_host v)"
  let ?old = "fresh None (of_host (sv_tenant v) (sv_host v) vs)"
  have ok: "vecs_ok vs" "vec_ok v" "CHR '':'' \<notin> set (sv_tenant v)" using assms(3) by (auto simp: vecs_ok_def)
  have L: "0 < L" using assms(1) by (simp add: inference_def inference_axioms_def)
  have "inference.buffers R J L ?w vs"
    using inference.infer_all_buffers [OF assms(1) inference.buffers_start [OF assms(1,2)] ok(1)] by simp
  then have h: "inference.holds R J ?w1 ?k (last_n L ?old)"
    using ok(3) by (simp add: inference.buffers_def [OF assms(1)] inference.holds_def [OF assms(1)])
  have "\<not> length (last_n L (?old @ [v])) < L" using assms(5) by simp
  then obtain s where s: "infer J R L K P v ?w1 = (Inl RedisError, ?w1\<lparr>iw_redis := s\<rparr>)"
    "inference.holds R J (?w1\<lparr>iw_redis := s\<rparr>) ?k (last_n L (?old @ [v]))"
    using inference.infer_run [OF assms(1) h ok(2)] assms(4) L
    by (auto simp: Let_def repeats_last_n last_n_snoc)
  then have again: "inference.holds R J (?w1\<lparr>iw_redis := s, iw_up := True\<rparr>) ?k (last_n L (?old @ [v]))"
    by (simp add: inference.holds_def [OF assms(1)])
  have rep: "repeats (last_n L (?old @ [v])) v" by (simp only: repeats_last_n [OF L]) (simp add: repeats_def)
  from inference.infer_run [OF assms(1) again ok(2)]
  have "infer J R L K P v (?w1\<lparr>iw_redis := s, iw_up := True\<rparr>) = (Inr None, ?w1\<lparr>iw_redis := s, iw_up := True\<rparr>)"
    using rep by (auto simp: Let_def)
  with s show ?thesis by (simp add: Let_def)
qed

lemma failed_publish_loses_forecast_witness:
  "let P = predict rat_math list_numpy demo_cfg;
    w1 = (infer_all std_codec std_redis 2 2 P (map demo_vec [0]) demo_infer)\<lparr>iw_up := False\<rparr>;
    r1 = infer std_codec std_redis 2 2 P (demo_vec 60) w1; w2 = (snd r1)\<lparr>iw_up := True\<rparr> in
    fst r1 = Inl RedisError \<and> infer std_codec std_redis 2 2 P (demo_vec 60) w2 = (Inr None, w2) \<and> iw_bus w2 = iw_bus w1"
proof -
  have v: "vecs_ok (map demo_vec [0] @ [demo_vec 60])" using demo_vecs_ok [of "[0, 60]"] by simp
  show ?thesis
    unfolding Let_def
    by (rule failed_publish_loses_forecast [OF stub_inference.inference_axioms demo_no_buffers v, unfolded Let_def])
      (simp_all only: demo_ts demo_of_host, simp_all add: repeats_def)
qed

text \<open>
  Only the newest window is compared, so a window delivered again after a newer one of its host,
  as a reclaimed message is, enters the buffer a second time and out of order.
\<close>

lemma stale_redelivery_enters_buffer:
  assumes "inference R F J K P L" "3 \<le> L" "no_buffers R w" "vecs_ok [v1, v2]"
    "sv_tenant v1 = sv_tenant v2" "sv_host v1 = sv_host v2" "sv_ts v1 \<noteq> sv_ts v2"
  shows "r_lrange R (iw_redis (infer_all J R L K P [v1, v2, v1] w)) (seq_key (sv_tenant v1) (sv_host v1)) =
    map (sc_dump J) [v1, v2, v1]"
proof -
  let ?w = "infer_all J R L K P [v1, v2, v1] w"
  have ok: "vecs_ok [v1, v2, v1]" "CHR '':'' \<notin> set (sv_tenant v1)" using assms(4) by (auto simp: vecs_ok_def)
  have "inference.buffers R J L ?w [v1, v2, v1]"
    using inference.infer_all_buffers [OF assms(1) inference.buffers_start [OF assms(1,3)] ok(1)] by simp
  moreover have "fresh None (of_host (sv_tenant v1) (sv_host v1) [v1, v2, v1]) = [v1, v2, v1]"
    using assms(5-7) by (auto simp: of_host_def)
  ultimately show ?thesis
    using ok(2) assms(2) by (simp add: inference.buffers_def [OF assms(1)] inference.holds_def [OF assms(1)])
qed

interpretation stub_inference3: inference std_redis parse_flt std_codec 2 "predict rat_math list_numpy demo_cfg" 3
  using stub_inference.inference_axioms by (simp add: inference_def inference_axioms_def)

lemma stale_redelivery_enters_buffer_witness:
  "r_lrange std_redis (iw_redis (infer_all std_codec std_redis 3 2 (predict rat_math list_numpy demo_cfg)
      [demo_vec 0, demo_vec 60, demo_vec 0] demo_infer)) (seq_key ''t'' ''h'') =
    map (sc_dump std_codec) [demo_vec 0, demo_vec 60, demo_vec 0]"
  using stale_redelivery_enters_buffer [OF stub_inference3.inference_axioms _ demo_no_buffers, of "demo_vec 0" "demo_vec 60"]
    demo_vecs_ok [of "[0, 60]"] by (simp add: demo_ts)

end
