(* ===== verification/Config.thy ===== *)
theory Config
  imports PyConv "HOL-Library.Sublist"
begin

text \<open>
  \<open>nidra_common/config.py\<close>: the configuration tree, its environment overrides and the accessors the
  services read it through. The file as \<open>yaml.safe_load\<close> returns it is the argument; \<open>os.environ\<close> is
  a dictionary. The built-ins \<open>int\<close>, \<open>float\<close>, \<open>str\<close>, \<open>bool\<close> and \<open>dict\<close> on a node are defined here.
\<close>

section \<open>Reading a node\<close>

fun truthy :: "tree \<Rightarrow> bool" where
  "truthy TNull = False"
| "truthy (TBool b) = b"
| "truthy (TInt i) = (i \<noteq> 0)"
| "truthy (TFloat x) = (\<not> feq x (Fin 0))"
| "truthy (TStr s) = (s \<noteq> [])"
| "truthy (TList ts) = (ts \<noteq> [])"
| "truthy (TMap d) = (d \<noteq> [])"

text \<open>\<open>node.get(k, default)\<close>; only a mapping has the method.\<close>

fun t_get :: "tree \<Rightarrow> string \<Rightarrow> tree \<Rightarrow> tree res" where
  "t_get (TMap d) k z = Inr (dict_get d k z)"
| "t_get t k z = Inl AttributeError"

text \<open>\<open>dict(node)\<close>: a mapping, or an empty sequence; a sequence of pairs is not considered.\<close>

fun t_dict :: "tree \<Rightarrow> tree res" where
  "t_dict (TMap d) = Inr (TMap d)"
| "t_dict (TList []) = Inr (TMap [])"
| "t_dict (TList ts) = Inl ValueError"
| "t_dict (TStr s) = (if s = [] then Inr (TMap []) else Inl ValueError)"
| "t_dict t = Inl TypeError"

fun t_int :: "pyconv \<Rightarrow> tree \<Rightarrow> int res" where
  "t_int C (TInt i) = Inr i"
| "t_int C (TBool b) = Inr (if b then 1 else 0)"
| "t_int C (TFloat x) = fint x"
| "t_int C (TStr s) = c_int C s"
| "t_int C t = Inl TypeError"

fun t_float :: "pyconv \<Rightarrow> tree \<Rightarrow> flt res" where
  "t_float C (TFloat x) = Inr x"
| "t_float C (TInt i) = Inr (Fin (of_int i))"
| "t_float C (TBool b) = Inr (Fin (if b then 1 else 0))"
| "t_float C (TStr s) = c_float C s"
| "t_float C t = Inl TypeError"

fun t_str :: "pyconv \<Rightarrow> tree \<Rightarrow> string" where
  "t_str C (TStr s) = s"
| "t_str C (TInt i) = int_str i"
| "t_str C (TBool b) = (if b then ''True'' else ''False'')"
| "t_str C (TFloat x) = c_repr C x"
| "t_str C TNull = ''None''"
| "t_str C t = c_show C t"

text \<open>What a loop over a node yields.\<close>

fun t_iter :: "tree \<Rightarrow> tree list res" where
  "t_iter (TList ts) = Inr ts"
| "t_iter (TStr s) = Inr (map (\<lambda>c. TStr [c]) s)"
| "t_iter (TMap d) = Inr (map (\<lambda>p. TStr (fst p)) d)"
| "t_iter t = Inl TypeError"

text \<open>\<open>dict(node.get(key, {}))\<close>: a block of the configuration.\<close>

definition sub_block :: "tree \<Rightarrow> string \<Rightarrow> tree res" where
  "sub_block t key = bind_res (t_get t key (TMap [])) t_dict"

section \<open>Loading\<close>

definition DEV_SECRET_KEY :: string where "DEV_SECRET_KEY = ''dev-insecure-secret-change-me''"

definition ENV_OVERRIDES :: "(string, string list) dict" where
  "ENV_OVERRIDES =
    [(''NIDRA_REDIS_URL'', [''redis'', ''url'']),
     (''NIDRA_POSTGRES_URL'', [''postgres'', ''url'']),
     (''NIDRA_SECRET_KEY'', [''auth'', ''secret_key'']),
     (''NIDRA_UPLOAD_DIR'', [''ingest'', ''upload_dir'']),
     (''NIDRA_ENV'', [''env'']),
     (''NIDRA_PREDICTOR_IMPL'', [''predictor'', ''impl''])]"

definition CORS_ORIGINS_ENV :: string where "CORS_ORIGINS_ENV = ''NIDRA_CORS_ORIGINS''"
definition DEV_ENV :: string where "DEV_ENV = ''dev''"

fun set_in :: "(string, tree) dict \<Rightarrow> string list \<Rightarrow> tree \<Rightarrow> (string, tree) dict" where
  "set_in node [] x = node"
| "set_in node [key] x = dict_set key x node"
| "set_in node (key # key2 # path) x =
     (let child = (case map_of node key of Some (TMap d) \<Rightarrow> d | _ \<Rightarrow> [])
      in dict_set key (TMap (set_in child (key2 # path) x)) node)"

definition override :: "(string, string) dict \<Rightarrow> (string, tree) dict \<Rightarrow> string \<times> string list \<Rightarrow> (string, tree) dict" where
  "override environ cfg p =
     (case map_of environ (fst p) of None \<Rightarrow> cfg
      | Some x \<Rightarrow> if x = [] then cfg else set_in cfg (snd p) (TStr x))"

definition cors_override :: "(string, string) dict \<Rightarrow> (string, tree) dict \<Rightarrow> (string, tree) dict" where
  "cors_override environ cfg =
     (case map_of environ CORS_ORIGINS_ENV of None \<Rightarrow> cfg
      | Some x \<Rightarrow> if x = [] then cfg else
          set_in cfg [''api'', ''cors_origins''] (TList (map TStr
            (map strip (filter (\<lambda>origin. strip origin \<noteq> []) (split_str (CHR '','') x))))))"

text \<open>\<open>auth = cfg.setdefault("auth", {})\<close>, and the development key when there is none.\<close>

definition default_secret :: "(string, tree) dict \<Rightarrow> (string, tree) dict res" where
  "default_secret cfg =
     (let cfg1 = (case map_of cfg ''auth'' of None \<Rightarrow> dict_set ''auth'' (TMap []) cfg | Some t \<Rightarrow> cfg);
          auth = dict_get cfg1 ''auth'' (TMap [])
      in bind_res (t_get auth ''secret_key'' TNull) (\<lambda>key.
        if truthy key then Inr cfg1
        else case auth of TMap d \<Rightarrow> Inr (dict_set ''auth'' (TMap (dict_set ''secret_key'' (TStr DEV_SECRET_KEY) d)) cfg1)
             | _ \<Rightarrow> Inl TypeError))"

definition load_config :: "(string, string) dict \<Rightarrow> tree \<Rightarrow> tree res" where
  "load_config environ file =
     (case file of
        TMap cfg \<Rightarrow> bind_res (default_secret (cors_override environ (foldl (override environ) cfg ENV_OVERRIDES)))
          (\<lambda>c. Inr (TMap c))
      | _ \<Rightarrow> Inl ValueError)"

definition environment :: "pyconv \<Rightarrow> tree \<Rightarrow> string res" where
  "environment C config = bind_res (t_get config ''env'' TNull) (\<lambda>e.
     Inr (lower (strip (if truthy e then t_str C e else ''''))))"

definition is_dev :: "pyconv \<Rightarrow> tree \<Rightarrow> bool res" where
  "is_dev C config = bind_res (environment C config) (\<lambda>e. Inr (e = DEV_ENV))"

section \<open>What the overrides do\<close>

text \<open>The node at a path, when every step of it is a mapping.\<close>

fun t_at :: "(string, tree) dict \<Rightarrow> string list \<Rightarrow> tree option" where
  "t_at d [] = None"
| "t_at d [k] = map_of d k"
| "t_at d (k # k2 # ks) = (case map_of d k of Some (TMap c) \<Rightarrow> t_at c (k2 # ks) | _ \<Rightarrow> None)"

lemma t_at_set_in_same: "path \<noteq> [] \<Longrightarrow> t_at (set_in d path x) path = Some x"
  by (induction d path x rule: set_in.induct) (auto simp: Let_def map_of_dict_set)

lemma t_at_set_in_other:
  "\<not> prefix path q \<Longrightarrow> \<not> prefix q path \<Longrightarrow> t_at (set_in d path x) q = t_at d q"
proof (induction d path x arbitrary: q rule: set_in.induct)
  case (2 node key x)
  show ?case
  proof (cases q)
    case (Cons k ks)
    with 2 show ?thesis by (cases ks) (auto simp: map_of_dict_set)
  qed simp
next
  case (3 node key key2 path x)
  show ?case
  proof (cases q)
    case (Cons k ks)
    show ?thesis
    proof (cases "k = key")
      case True
      with 3 Cons obtain k2 ks' where ks: "ks = k2 # ks'" by (cases ks) auto
      have *: "t_at (set_in (case map_of node key of Some (TMap d) \<Rightarrow> d | _ \<Rightarrow> []) (key2 # path) x) ks =
          t_at (case map_of node key of Some (TMap d) \<Rightarrow> d | _ \<Rightarrow> []) ks"
        using 3 Cons True by simp
      have e: "t_at [] (k2 # ks') = None" by (cases ks') auto
      show ?thesis
        using * True e by (auto simp: Cons ks Let_def map_of_dict_set split: option.splits tree.splits)
    next
      case False
      then show ?thesis by (cases ks) (auto simp: Cons Let_def map_of_dict_set)
    qed
  qed simp
qed simp

definition env_set :: "(string, string) dict \<Rightarrow> string \<Rightarrow> string option" where
  "env_set environ name = (case map_of environ name of Some x \<Rightarrow> if x = [] then None else Some x | None \<Rightarrow> None)"

abbreviation apart :: "string list \<Rightarrow> string list \<Rightarrow> bool" where
  "apart p q \<equiv> \<not> prefix p q \<and> \<not> prefix q p"

lemma override_other: "apart (snd ov) q \<Longrightarrow> t_at (override environ cfg ov) q = t_at cfg q"
  by (auto simp: override_def t_at_set_in_other split: option.splits)

lemma override_same: "path \<noteq> [] \<Longrightarrow> t_at (override environ cfg (name, path)) path =
    (case env_set environ name of Some x \<Rightarrow> Some (TStr x) | None \<Rightarrow> t_at cfg path)"
  by (auto simp: override_def env_set_def t_at_set_in_same split: option.splits)

lemma overrides_other:
  "\<forall>ov \<in> set ovs. apart (snd ov) q \<Longrightarrow> t_at (foldl (override environ) cfg ovs) q = t_at cfg q"
  by (induction ovs arbitrary: cfg) (auto simp: override_other)

lemma overrides_same:
  assumes "sorted_wrt (\<lambda>a b. apart (snd a) (snd b)) ovs" "(name, path) \<in> set ovs" "path \<noteq> []"
  shows "t_at (foldl (override environ) cfg ovs) path =
    (case env_set environ name of Some x \<Rightarrow> Some (TStr x) | None \<Rightarrow> t_at cfg path)"
  using assms(1,2)
proof (induction ovs arbitrary: cfg)
  case (Cons ov ovs)
  show ?case
  proof (cases "(name, path) \<in> set ovs")
    case True
    with Cons.prems have "apart (snd ov) path" by force
    with Cons True show ?thesis by (auto simp: override_other split: option.splits)
  next
    case False
    with Cons.prems have ov: "ov = (name, path)" by simp
    with Cons.prems have "\<forall>o' \<in> set ovs. apart (snd o') path" by auto
    then show ?thesis using override_same [OF assms(3)] by (simp add: ov overrides_other)
  qed
qed simp

lemma ENV_OVERRIDES_apart:
  "sorted_wrt (\<lambda>a b. apart (snd a) (snd b)) ENV_OVERRIDES"
  "\<forall>ov \<in> set ENV_OVERRIDES. apart (snd ov) [''api'', ''cors_origins'']"
  by code_simp+

lemma cors_other: "apart [''api'', ''cors_origins''] q \<Longrightarrow> t_at (cors_override environ cfg) q = t_at cfg q"
  unfolding cors_override_def by (auto simp: t_at_set_in_other simp del: set_in.simps split: option.splits)

lemma t_at_dict_set_other: "y \<noteq> k \<Longrightarrow> t_at (dict_set k x d) (y # ys) = t_at d (y # ys)"
  by (cases ys) (auto simp: map_of_dict_set)

lemma default_secret_other:
  assumes "default_secret cfg = Inr cfg'" "q \<noteq> [''auth'']" "\<not> prefix [''auth'', ''secret_key''] q"
  shows "t_at cfg' q = t_at cfg q"
proof -
  have *: "t_at (dict_set ''auth'' (TMap d') cfg) q = t_at cfg q"
    if "\<And>ks. q = ''auth'' # ks \<Longrightarrow> t_at d' ks = t_at cfg q" for d'
    using assms(2) that by (cases q; cases "tl q") (auto simp: map_of_dict_set)
  show ?thesis
  proof (cases "map_of cfg ''auth''")
    case None
    have e: "t_at [] ks = None" for ks by (cases ks; cases "tl ks") auto
    from None assms(1) have "cfg' = dict_set ''auth'' (TMap (dict_set ''secret_key'' (TStr DEV_SECRET_KEY) [])) (dict_set ''auth'' (TMap []) cfg)"
      by (simp add: default_secret_def dict_get_def map_of_dict_set)
    then have "t_at cfg' q = t_at (dict_set ''auth'' (TMap (dict_set ''secret_key'' (TStr DEV_SECRET_KEY) [])) cfg) q"
      by (cases q; cases "tl q") (auto simp: map_of_dict_set split: option.splits tree.splits)
    also have "\<dots> = t_at cfg q"
      using None assms(2,3) e
      by (intro *) (auto simp: neq_Nil_conv t_at_dict_set_other)
    finally show ?thesis .
  next
    case (Some t)
    with assms(1) obtain d where t: "t = TMap d"
      by (cases t) (auto simp: default_secret_def dict_get_def)
    have "cfg' = cfg \<or> cfg' = dict_set ''auth'' (TMap (dict_set ''secret_key'' (TStr DEV_SECRET_KEY) d)) cfg"
      using assms(1) Some by (auto simp: default_secret_def dict_get_def t split: if_splits)
    moreover have "t_at (dict_set ''secret_key'' x d) ks = t_at cfg q" if "q = ''auth'' # ks" for ks x
      using that assms(2,3) Some t by (cases ks; cases "tl ks") (auto simp: map_of_dict_set)
    ultimately show ?thesis using * by auto
  qed
qed

lemma default_secret_key:
  assumes "default_secret cfg = Inr cfg'"
  shows "t_at cfg' [''auth'', ''secret_key''] =
    (case t_at cfg [''auth'', ''secret_key''] of
       Some t \<Rightarrow> if truthy t then Some t else Some (TStr DEV_SECRET_KEY) | None \<Rightarrow> Some (TStr DEV_SECRET_KEY))"
proof (cases "map_of cfg ''auth''")
  case None
  with assms show ?thesis by (auto simp: default_secret_def dict_get_def map_of_dict_set)
next
  case (Some t)
  with assms obtain d where t: "t = TMap d" by (cases t) (auto simp: default_secret_def dict_get_def)
  with Some assms show ?thesis
    by (auto simp: default_secret_def dict_get_def map_of_dict_set split: option.splits if_splits)
qed

text \<open>
  A loaded configuration is the file with exactly the environment's settings on top: at the path
  of every override the tree holds the variable's text when it is set and not empty, and the file's
  own node otherwise; the signing key alone is never missing or empty, falling back to the
  development key; and a path that no override touches reads as in the file.
\<close>

lemma load_config_overrides:
  assumes "load_config environ (TMap file) = Inr (TMap cfg)"
  shows "(\<forall>(name, path) \<in> set ENV_OVERRIDES. path \<noteq> [''auth'', ''secret_key''] \<longrightarrow> t_at cfg path =
      (case env_set environ name of Some x \<Rightarrow> Some (TStr x) | None \<Rightarrow> t_at file path)) \<and>
    t_at cfg [''auth'', ''secret_key''] = (case env_set environ ''NIDRA_SECRET_KEY'' of Some x \<Rightarrow> Some (TStr x)
      | None \<Rightarrow> (case t_at file [''auth'', ''secret_key''] of
          Some t \<Rightarrow> if truthy t then Some t else Some (TStr DEV_SECRET_KEY) | None \<Rightarrow> Some (TStr DEV_SECRET_KEY))) \<and>
    (\<forall>q. q \<noteq> [''auth''] \<longrightarrow> apart [''api'', ''cors_origins''] q \<longrightarrow>
      (\<forall>ov \<in> set ENV_OVERRIDES. apart (snd ov) q) \<longrightarrow> t_at cfg q = t_at file q)"
proof -
  let ?o = "foldl (override environ) file ENV_OVERRIDES"
  let ?c = "cors_override environ ?o"
  have d: "default_secret ?c = Inr cfg" using assms by (auto simp: load_config_def bind_res_eq_Inr)
  have ne: "path \<noteq> [] \<and> path \<noteq> [''auth'']" if "(name, path) \<in> set ENV_OVERRIDES" for name path
    using that by (auto simp: ENV_OVERRIDES_def)
  have at: "t_at ?c path = (case env_set environ name of Some x \<Rightarrow> Some (TStr x) | None \<Rightarrow> t_at file path)"
    if p: "(name, path) \<in> set ENV_OVERRIDES" for name path
    using overrides_same [OF ENV_OVERRIDES_apart(1) p] ENV_OVERRIDES_apart(2) p ne [OF p]
    by (subst cors_other) auto
  have 1: "t_at cfg path = (case env_set environ name of Some x \<Rightarrow> Some (TStr x) | None \<Rightarrow> t_at file path)"
    if p: "(name, path) \<in> set ENV_OVERRIDES" "path \<noteq> [''auth'', ''secret_key'']" for name path
  proof -
    have "\<not> prefix [''auth'', ''secret_key''] path" using p by (auto simp: ENV_OVERRIDES_def)
    then show ?thesis using default_secret_other [OF d, of path] at [OF p(1)] ne [OF p(1)] by simp
  qed
  have "(''NIDRA_SECRET_KEY'', [''auth'', ''secret_key'']) \<in> set ENV_OVERRIDES" by (simp add: ENV_OVERRIDES_def)
  from default_secret_key [OF d] at [OF this]
  have 2: "t_at cfg [''auth'', ''secret_key''] = (case env_set environ ''NIDRA_SECRET_KEY'' of Some x \<Rightarrow> Some (TStr x)
      | None \<Rightarrow> (case t_at file [''auth'', ''secret_key''] of
          Some t \<Rightarrow> if truthy t then Some t else Some (TStr DEV_SECRET_KEY) | None \<Rightarrow> Some (TStr DEV_SECRET_KEY)))"
    by (auto simp: env_set_def split: option.splits if_splits)
  have 3: "t_at cfg q = t_at file q"
    if "q \<noteq> [''auth'']" "apart [''api'', ''cors_origins''] q" "\<forall>ov \<in> set ENV_OVERRIDES. apart (snd ov) q" for q
  proof -
    have "\<not> prefix [''auth'', ''secret_key''] q" using that(3) by (auto simp: ENV_OVERRIDES_def)
    then show ?thesis
      using default_secret_other [OF d] cors_other [OF that(2)] overrides_other [OF that(3)] that(1) by simp
  qed
  show ?thesis using 1 2 3 by blast
qed

lemma load_config_overrides_witness:
  "load_config [(''NIDRA_REDIS_URL'', ''redis://r'')] (TMap [(''redis'', TMap [(''url'', TStr ''old'')])]) =
     Inr (TMap [(''redis'', TMap [(''url'', TStr ''redis://r'')]), (''auth'', TMap [(''secret_key'', TStr DEV_SECRET_KEY)])]) \<and>
   t_at [(''redis'', TMap [(''url'', TStr ''redis://r'')]), (''auth'', TMap [(''secret_key'', TStr DEV_SECRET_KEY)])]
     [''redis'', ''url''] = Some (TStr ''redis://r'')"
proof -
  have 1: "load_config [(''NIDRA_REDIS_URL'', ''redis://r'')] (TMap [(''redis'', TMap [(''url'', TStr ''old'')])]) =
     Inr (TMap [(''redis'', TMap [(''url'', TStr ''redis://r'')]), (''auth'', TMap [(''secret_key'', TStr DEV_SECRET_KEY)])])"
    by (simp add: load_config_def ENV_OVERRIDES_def override_def cors_override_def CORS_ORIGINS_ENV_def
        default_secret_def dict_set_def dict_get_def DEV_SECRET_KEY_def Let_def)
  have "(''NIDRA_REDIS_URL'', [''redis'', ''url'']) \<in> set ENV_OVERRIDES" by (simp add: ENV_OVERRIDES_def)
  with load_config_overrides [OF 1] 1 show ?thesis by (fastforce simp: env_set_def)
qed

end
