(* ===== verification/Bus.thy ===== *)
theory Bus
  imports Config Action
begin

text \<open>
  \<open>nidra_common/bus.py\<close> and \<open>nidra_common/worker.py\<close>: the Redis Streams wrapper and the consumer loop.
  The stream server is not code of the repository: \<open>'s streams\<close> is the record of the commands the bus
  issues, with the observers its laws speak through: the entries of a stream (\<open>XRANGE\<close>), whether a
  group exists, its entries not yet delivered, its pending entries, the pending ids a claim scan has
  still to visit from a cursor, and whether a pending id has been idle long enough.
\<close>

section \<open>Entries\<close>

text \<open>What the client library returns: \<open>bytes\<close>, or \<open>str\<close> when it decodes responses.\<close>

datatype py_text = Bytes string | Str string

definition PAYLOAD_FIELD :: string where "PAYLOAD_FIELD = ''payload''"
definition NEW_GROUP_ID :: string where "NEW_GROUP_ID = ''0''"
definition SCAN_START :: string where "SCAN_START = ''0-0''"
definition DEFAULT_COUNT :: nat where "DEFAULT_COUNT = 32"
definition DEFAULT_MIN_IDLE_MS :: int where "DEFAULT_MIN_IDLE_MS = 60000"

fun as_str :: "py_text \<Rightarrow> string" where
  "as_str (Bytes b) = b"
| "as_str (Str s) = s"

type_synonym entry_fields = "(py_text, py_text) dict"

definition payload_of :: "entry_fields \<Rightarrow> string res" where
  "payload_of flds =
     (case map_of flds (Bytes PAYLOAD_FIELD) of
        Some x \<Rightarrow> Inr (as_str x)
      | None \<Rightarrow> (case map_of flds (Str PAYLOAD_FIELD) of Some x \<Rightarrow> Inr (as_str x) | None \<Rightarrow> Inl KeyError))"

section \<open>Configuration\<close>

definition section_get :: "tree \<Rightarrow> string \<Rightarrow> string \<Rightarrow> tree res" where
  "section_get config sec key = bind_res (t_get config sec (TMap [])) (\<lambda>s. t_get s key TNull)"

definition redis_url :: "pyconv \<Rightarrow> tree \<Rightarrow> string res" where
  "redis_url C config = bind_res (section_get config ''redis'' ''url'') (\<lambda>url.
     if \<not> truthy url then Inl ValueError else Inr (t_str C url))"

definition stream_maxlen :: "pyconv \<Rightarrow> tree \<Rightarrow> int res" where
  "stream_maxlen C config = bind_res (section_get config ''streams'' ''maxlen'') (\<lambda>maxlen.
     if \<not> truthy maxlen then Inl ValueError else t_int C maxlen)"

definition stream_name :: "pyconv \<Rightarrow> string \<Rightarrow> tree \<Rightarrow> string res" where
  "stream_name C key config = bind_res (section_get config ''streams'' key) (\<lambda>name.
     if \<not> truthy name then Inl ValueError else Inr (t_str C name))"

section \<open>The server\<close>

record 's streams =
  x_group_create :: "'s \<Rightarrow> string \<Rightarrow> string \<Rightarrow> string \<Rightarrow> string + 's"
  x_add :: "'s \<Rightarrow> string \<Rightarrow> entry_fields \<Rightarrow> nat \<Rightarrow> string \<times> 's"
  x_readgroup :: "'s \<Rightarrow> string \<Rightarrow> string \<Rightarrow> string \<Rightarrow> nat \<Rightarrow> (string \<times> entry_fields) list \<times> 's"
  x_ack :: "'s \<Rightarrow> string \<Rightarrow> string \<Rightarrow> string \<Rightarrow> nat \<times> 's"
  x_autoclaim :: "'s \<Rightarrow> string \<Rightarrow> string \<Rightarrow> string \<Rightarrow> int \<Rightarrow> string \<Rightarrow> nat \<Rightarrow> string \<times> (string \<times> entry_fields) list \<times> 's"
  x_pending :: "'s \<Rightarrow> string \<Rightarrow> string \<Rightarrow> nat option"
  x_has :: "'s \<Rightarrow> string \<Rightarrow> string \<Rightarrow> bool"
  x_waiting :: "'s \<Rightarrow> string \<Rightarrow> string \<Rightarrow> (string \<times> entry_fields) list"
  x_pel :: "'s \<Rightarrow> string \<Rightarrow> string \<Rightarrow> (string \<times> entry_fields) list"
  x_scan :: "'s \<Rightarrow> string \<Rightarrow> string \<Rightarrow> string \<Rightarrow> string list"
  x_idle :: "'s \<Rightarrow> string \<Rightarrow> string \<Rightarrow> int \<Rightarrow> string \<Rightarrow> bool"
  x_entries :: "'s \<Rightarrow> string \<Rightarrow> (string \<times> entry_fields) list"

section \<open>One consumer's view\<close>

record bus =
  b_stream :: string
  b_group :: string
  b_consumer :: string
  b_maxlen :: nat

text \<open>Whether one string occurs in another: \<open>needle in s\<close>.\<close>

fun contains_str :: "string \<Rightarrow> string \<Rightarrow> bool" where
  "contains_str needle [] = (needle = [])"
| "contains_str needle (c # s) = (take (length needle) (c # s) = needle \<or> contains_str needle s)"

definition ensure_group :: "'s streams \<Rightarrow> bus \<Rightarrow> 's \<Rightarrow> 's res" where
  "ensure_group X B s =
     (case x_group_create X s (b_stream B) (b_group B) NEW_GROUP_ID of
        Inr s' \<Rightarrow> Inr s'
      | Inl message \<Rightarrow> if contains_str ''BUSYGROUP'' message then Inr s else Inl ResponseError)"

text \<open>\<open>publish\<close> takes the model's JSON.\<close>

definition bus_publish :: "'s streams \<Rightarrow> bus \<Rightarrow> 's \<Rightarrow> string \<Rightarrow> string \<times> 's" where
  "bus_publish X B s json = x_add X s (b_stream B) [(Str PAYLOAD_FIELD, Str json)] (b_maxlen B)"

definition bus_read :: "'s streams \<Rightarrow> bus \<Rightarrow> nat \<Rightarrow> 's \<Rightarrow> (string \<times> string) list res \<times> 's" where
  "bus_read X B count s =
     (case x_readgroup X s (b_group B) (b_consumer B) (b_stream B) count of (messages, s') \<Rightarrow>
        (traverse_res (\<lambda>(msg_id, flds). bind_res (payload_of flds) (\<lambda>p. Inr (msg_id, p))) messages, s'))"

definition bus_ack :: "'s streams \<Rightarrow> bus \<Rightarrow> 's \<Rightarrow> string \<Rightarrow> nat \<times> 's" where
  "bus_ack X B s msg_id = x_ack X s (b_stream B) (b_group B) msg_id"

definition pending_count :: "'s streams \<Rightarrow> bus \<Rightarrow> 's \<Rightarrow> nat" where
  "pending_count X B s = (case x_pending X s (b_stream B) (b_group B) of None \<Rightarrow> 0 | Some n \<Rightarrow> n)"

section \<open>The consumer loop\<close>

text \<open>
  A handler may change the world and raise. \<open>cs_count\<close> counts the dispatches of this process, so that a
  shutdown signal is a number: \<open>stop_at = Some n\<close> means the event is found set once \<open>n\<close> messages were
  dispatched. \<open>cs_handled\<close> is the ids whose handler returned, a history variable of the model.
\<close>

type_synonym 'w handler = "'w \<Rightarrow> string \<Rightarrow> unit res \<times> 'w"

record ('s, 'w) consumer =
  cs_srv :: 's
  cs_world :: 'w
  cs_count :: nat
  cs_handled :: "string list"

definition dispatch ::
    "'s streams \<Rightarrow> bus \<Rightarrow> 'w handler \<Rightarrow> string \<Rightarrow> string \<Rightarrow> ('s, 'w) consumer \<Rightarrow> ('s, 'w) consumer" where
  "dispatch X B H msg_id payload c =
     (case H (cs_world c) payload of
        (Inl e, w) \<Rightarrow> c\<lparr>cs_world := w, cs_count := cs_count c + 1\<rparr>
      | (Inr _, w) \<Rightarrow> c\<lparr>cs_world := w, cs_count := cs_count c + 1, cs_handled := cs_handled c @ [msg_id],
          cs_srv := snd (bus_ack X B (cs_srv c) msg_id)\<rparr>)"

definition stop_set :: "nat option \<Rightarrow> ('s, 'w) consumer \<Rightarrow> bool" where
  "stop_set stop_at c = (case stop_at of None \<Rightarrow> False | Some n \<Rightarrow> n \<le> cs_count c)"

lemma stop_set_None [simp]: "\<not> stop_set None c"
  by (simp add: stop_set_def)

text \<open>The inner loop over a batch; true when it was left because of a shutdown.\<close>

fun dispatch_batch ::
    "'s streams \<Rightarrow> bus \<Rightarrow> 'w handler \<Rightarrow> nat option \<Rightarrow> (string \<times> string) list \<Rightarrow> ('s, 'w) consumer \<Rightarrow>
     bool \<times> ('s, 'w) consumer" where
  "dispatch_batch X B H stop_at [] c = (False, c)"
| "dispatch_batch X B H stop_at ((msg_id, payload) # rest) c =
     (let c' = dispatch X B H msg_id payload c in
      if stop_set stop_at c' then (True, c') else dispatch_batch X B H stop_at rest c')"

text \<open>
  One page of \<open>reclaim\<close> with the loop that consumes it: an entry without fields was trimmed and is
  skipped, the payload of each other one is read when it is yielded.
\<close>

fun claim_page ::
    "'s streams \<Rightarrow> bus \<Rightarrow> 'w handler \<Rightarrow> nat option \<Rightarrow> (string \<times> entry_fields) list \<Rightarrow>
     (('s, 'w) consumer, bool) act" where
  "claim_page X B H stop_at [] c = (Inr False, c)"
| "claim_page X B H stop_at ((msg_id, flds) # rest) c =
     (if flds = [] then claim_page X B H stop_at rest c
      else case payload_of flds of
        Inl e \<Rightarrow> (Inl e, c)
      | Inr payload \<Rightarrow>
          let c' = dispatch X B H msg_id payload c in
          if stop_set stop_at c' then (Inr True, c') else claim_page X B H stop_at rest c')"

fun reclaim ::
    "nat \<Rightarrow> 's streams \<Rightarrow> bus \<Rightarrow> 'w handler \<Rightarrow> nat option \<Rightarrow> int \<Rightarrow> nat \<Rightarrow> string \<Rightarrow> (('s, 'w) consumer, bool) act" where
  "reclaim 0 X B H stop_at min_idle_ms count cursor c = (Inl RuntimeError, c)"
| "reclaim (Suc fuel) X B H stop_at min_idle_ms count cursor c =
     (case x_autoclaim X (cs_srv c) (b_stream B) (b_group B) (b_consumer B) min_idle_ms cursor count of
        (cursor', messages, s') \<Rightarrow>
          (case claim_page X B H stop_at messages (c\<lparr>cs_srv := s'\<rparr>) of
             (Inl e, c') \<Rightarrow> (Inl e, c')
           | (Inr stopped, c') \<Rightarrow>
               if stopped then (Inr True, c')
               else if cursor' = SCAN_START then (Inr False, c')
               else reclaim fuel X B H stop_at min_idle_ms count cursor' c'))"

text \<open>Enough for a whole scan: one page per pending entry, and one more.\<close>

definition reclaim_fuel :: "'s streams \<Rightarrow> bus \<Rightarrow> ('s, 'w) consumer \<Rightarrow> nat" where
  "reclaim_fuel X B c = Suc (length (x_scan X (cs_srv c) (b_stream B) (b_group B) SCAN_START))"

text \<open>
  One iteration; \<open>due\<close> is the reading of the clock against the reclaim timer. True when the loop ends.
\<close>

definition iterate ::
    "'s streams \<Rightarrow> bus \<Rightarrow> 'w handler \<Rightarrow> nat option \<Rightarrow> int \<Rightarrow> nat \<Rightarrow> bool \<Rightarrow> (('s, 'w) consumer, bool) act" where
  "iterate X B H stop_at min_idle_ms count due c =
     (case (if due then reclaim (reclaim_fuel X B c) X B H stop_at min_idle_ms count SCAN_START c else (Inr False, c)) of
        (Inl e, c1) \<Rightarrow> (Inl e, c1)
      | (Inr stopped, c1) \<Rightarrow>
          if stopped then (Inr True, c1)
          else case bus_read X B count (cs_srv c1) of
            (Inl e, s2) \<Rightarrow> (Inl e, c1\<lparr>cs_srv := s2\<rparr>)
          | (Inr batch, s2) \<Rightarrow>
              (case dispatch_batch X B H stop_at batch (c1\<lparr>cs_srv := s2\<rparr>) of (stopped', c2) \<Rightarrow> (Inr stopped', c2)))"

fun consume_loop ::
    "'s streams \<Rightarrow> bus \<Rightarrow> 'w handler \<Rightarrow> nat option \<Rightarrow> int \<Rightarrow> nat \<Rightarrow> bool list \<Rightarrow> (('s, 'w) consumer, unit) act" where
  "consume_loop X B H stop_at min_idle_ms count [] c = (Inr (), c)"
| "consume_loop X B H stop_at min_idle_ms count (due # schedule) c =
     (if stop_set stop_at c then (Inr (), c)
      else case iterate X B H stop_at min_idle_ms count due c of
        (Inl e, c') \<Rightarrow> (Inl e, c')
      | (Inr stopped, c') \<Rightarrow> if stopped then (Inr (), c') else consume_loop X B H stop_at min_idle_ms count schedule c')"

definition run_consumer ::
    "'s streams \<Rightarrow> bus \<Rightarrow> 'w handler \<Rightarrow> nat option \<Rightarrow> int \<Rightarrow> nat \<Rightarrow> bool list \<Rightarrow> (('s, 'w) consumer, unit) act" where
  "run_consumer X B H stop_at min_idle_ms count schedule c =
     (case ensure_group X B (cs_srv c) of
        Inl e \<Rightarrow> (Inl e, c)
      | Inr s \<Rightarrow> consume_loop X B H stop_at min_idle_ms count schedule (c\<lparr>cs_srv := s\<rparr>))"

section \<open>What the server promises\<close>

text \<open>
  The documented behaviour of the stream commands on one stream and group. \<open>XADD\<close> with a \<open>MAXLEN\<close>
  evicts old entries once the stream is longer; the law speaks of a stream that is not.
\<close>

locale stream_laws =
  fixes X :: "'s streams" and st :: string and g :: string
  assumes create_new: "\<not> x_has X s st g \<Longrightarrow> \<exists>s'. x_group_create X s st g NEW_GROUP_ID = Inr s' \<and>
      x_has X s' st g \<and> x_waiting X s' st g = x_entries X s st \<and> x_pel X s' st g = []"
    and create_old: "x_has X s st g \<Longrightarrow>
      \<exists>m. x_group_create X s st g NEW_GROUP_ID = Inl m \<and> contains_str ''BUSYGROUP'' m"
    and add: "x_has X s st g \<Longrightarrow> length (x_entries X s st) < n \<Longrightarrow> x_add X s st f n = (i, s') \<Longrightarrow>
      x_has X s' st g \<and> x_waiting X s' st g = x_waiting X s st g @ [(i, f)] \<and> x_pel X s' st g = x_pel X s st g"
    and readgroup: "x_has X s st g \<Longrightarrow> x_readgroup X s g k st n = (ms, s') \<Longrightarrow>
      ms = take n (x_waiting X s st g) \<and> x_has X s' st g \<and> x_waiting X s' st g = drop n (x_waiting X s st g) \<and>
      x_pel X s' st g = x_pel X s st g @ ms"
    and ack: "x_has X s st g \<Longrightarrow> x_ack X s st g i = (n, s') \<Longrightarrow>
      x_has X s' st g \<and> x_waiting X s' st g = x_waiting X s st g \<and>
      x_pel X s' st g = filter (\<lambda>e. fst e \<noteq> i) (x_pel X s st g) \<and>
      x_scan X s' st g cur = filter (\<lambda>j. j \<noteq> i) (x_scan X s st g cur)"
    and scan_start: "x_scan X s st g SCAN_START = map fst (x_pel X s st g)"
    and autoclaim: "x_has X s st g \<Longrightarrow> 0 < n \<Longrightarrow> x_autoclaim X s st g k idle cur n = (cur', ms, s') \<Longrightarrow>
      x_has X s' st g \<and> x_waiting X s' st g = x_waiting X s st g \<and> x_pel X s' st g = x_pel X s st g \<and>
      (\<exists>page rest. x_scan X s st g cur = page @ rest \<and>
        ms = map (\<lambda>i. (i, the (map_of (x_pel X s st g) i))) (filter (x_idle X s st g idle) page) \<and>
        (if cur' = SCAN_START then rest = [] else x_scan X s' st g cur' = rest \<and> page \<noteq> []))"
    and scan_pel: "set (x_scan X s st g cur) \<subseteq> fst ` set (x_pel X s st g)"
    and ids_distinct: "distinct (map fst (x_pel X s st g @ x_waiting X s st g))"
begin

text \<open>The ids the group still owes, and the relation between two server states when some are settled.\<close>

definition owed :: "'s \<Rightarrow> string set" where
  "owed s = fst ` set (x_pel X s st g) \<union> fst ` set (x_waiting X s st g)"

definition settled :: "'s \<Rightarrow> string list \<Rightarrow> 's \<Rightarrow> bool" where
  "settled s ids s' \<longleftrightarrow> x_has X s' st g \<and> x_waiting X s' st g = x_waiting X s st g \<and>
     x_pel X s' st g = filter (\<lambda>e. fst e \<notin> set ids) (x_pel X s st g) \<and>
     (\<forall>cur. x_scan X s' st g cur = filter (\<lambda>j. j \<notin> set ids) (x_scan X s st g cur))"

definition cleared :: "'s \<Rightarrow> string list \<Rightarrow> 's \<Rightarrow> bool" where
  "cleared s ids s' \<longleftrightarrow> x_has X s' st g \<and> x_waiting X s' st g = x_waiting X s st g \<and>
     x_pel X s' st g = filter (\<lambda>e. fst e \<notin> set ids) (x_pel X s st g)"

lemma settled_cleared: "settled s ids s' \<Longrightarrow> cleared s ids s'"
  by (simp add: settled_def cleared_def)

lemma cleared_trans: "cleared s ids s' \<Longrightarrow> cleared s' ids' s'' \<Longrightarrow> cleared s (ids @ ids') s''"
  by (auto simp: cleared_def conj_commute intro!: filter_cong)

lemma settled_refl: "x_has X s st g \<Longrightarrow> settled s [] s"
  by (simp add: settled_def)

lemma settled_trans: "settled s ids s' \<Longrightarrow> settled s' ids' s'' \<Longrightarrow> settled s (ids @ ids') s''"
  by (auto simp: settled_def conj_commute intro!: filter_cong)

lemma settled_has: "settled s ids s' \<Longrightarrow> x_has X s' st g"
  by (simp add: settled_def)

end

text \<open>A handler that never raises, and entries that carry a payload.\<close>

definition succeeds :: "'w handler \<Rightarrow> bool" where
  "succeeds H \<longleftrightarrow> (\<forall>w x. \<exists>w'. H w x = (Inr (), w'))"

definition readable :: "(string \<times> entry_fields) list \<Rightarrow> bool" where
  "readable ms \<longleftrightarrow> (\<forall>m \<in> set ms. \<exists>p. payload_of (snd m) = Inr p)"

lemma payload_of_Inl: "payload_of flds = Inl e \<Longrightarrow> e = KeyError"
  by (auto simp: payload_of_def split: option.splits)

lemma payload_of_Nil [simp]: "payload_of [] = Inl KeyError"
  by (simp add: payload_of_def)

locale bus_client = stream_laws X "b_stream B" "b_group B"
  for X :: "'s streams" and B :: bus
begin

lemma dispatch_settles:
  assumes "x_has X (cs_srv c) (b_stream B) (b_group B)"
  shows "\<exists>ids. settled (cs_srv c) ids (cs_srv (dispatch X B H i p c)) \<and> set ids \<subseteq> {i} \<and> distinct ids \<and>
    cs_handled (dispatch X B H i p c) = cs_handled c @ ids \<and>
    (succeeds H \<longrightarrow> ids = [i])"
proof -
  obtain r w where h: "H (cs_world c) p = (r, w)" by force
  obtain n s' where a: "x_ack X (cs_srv c) (b_stream B) (b_group B) i = (n, s')" by force
  show ?thesis
  proof (cases r)
    case (Inl e)
    have "\<not> succeeds H"
      using h Inl unfolding succeeds_def by (metis Inl_Inr_False prod.inject)
    with h Inl settled_refl [OF assms] show ?thesis
      by (intro exI [of _ "[]"]) (simp add: dispatch_def)
  next
    case (Inr u)
    have "settled (cs_srv c) [i] s'" using ack [OF assms a] by (auto simp: settled_def)
    with h Inr a show ?thesis by (intro exI [of _ "[i]"]) (simp add: dispatch_def bus_ack_def)
  qed
qed

lemma batch_settles:
  assumes "x_has X (cs_srv c) (b_stream B) (b_group B)"
    "dispatch_batch X B H stop_at ms c = (stopped, c')" "distinct (map fst ms)"
  shows "\<exists>ids. settled (cs_srv c) ids (cs_srv c') \<and> set ids \<subseteq> fst ` set ms \<and> distinct ids \<and>
    cs_handled c' = cs_handled c @ ids \<and>
    (succeeds H \<longrightarrow> stop_at = None \<longrightarrow> ids = map fst ms \<and> \<not> stopped)"
  using assms
proof (induction ms arbitrary: c)
  case Nil
  then show ?case using settled_refl by (intro exI [of _ "[]"]) simp
next
  case (Cons m ms)
  obtain i p where m: "m = (i, p)" by force
  let ?c = "dispatch X B H i p c"
  obtain ids where ids: "settled (cs_srv c) ids (cs_srv ?c)" "set ids \<subseteq> {i}" "distinct ids"
    "cs_handled ?c = cs_handled c @ ids" "succeeds H \<longrightarrow> ids = [i]"
    using dispatch_settles [OF Cons.prems(1), of H i p] by blast
  show ?case
  proof (cases "stop_set stop_at ?c")
    case True
    then have "c' = ?c" using Cons.prems(2) by (simp add: m Let_def)
    moreover have "stop_at \<noteq> None" using True by (cases stop_at) simp_all
    ultimately show ?thesis using ids by (auto simp: m)
  next
    case False
    then have "dispatch_batch X B H stop_at ms ?c = (stopped, c')" using Cons.prems(2) by (simp add: m)
    from Cons.IH [OF settled_has [OF ids(1)] this] Cons.prems(3)
    obtain ids' where ids': "settled (cs_srv ?c) ids' (cs_srv c')" "set ids' \<subseteq> fst ` set ms" "distinct ids'"
      "cs_handled c' = cs_handled ?c @ ids'"
      "succeeds H \<longrightarrow> stop_at = None \<longrightarrow> ids' = map fst ms \<and> \<not> stopped" by auto
    have "distinct (ids @ ids')" using ids(2,3) ids'(2,3) Cons.prems(3) by (auto simp: m)
    with ids ids' settled_trans [OF ids(1) ids'(1)] show ?thesis
      by (intro exI [of _ "ids @ ids'"]) (auto simp: m)
  qed
qed

lemma page_settles:
  assumes "x_has X (cs_srv c) (b_stream B) (b_group B)"
    "claim_page X B H stop_at ms c = (r, c')" "distinct (map fst ms)"
  shows "\<exists>ids. settled (cs_srv c) ids (cs_srv c') \<and> set ids \<subseteq> fst ` set ms \<and> distinct ids \<and>
    cs_handled c' = cs_handled c @ ids \<and> (\<forall>e. r = Inl e \<longrightarrow> e = KeyError) \<and>
    (succeeds H \<longrightarrow> stop_at = None \<longrightarrow> readable ms \<longrightarrow> ids = map fst ms \<and> r = Inr False)"
  using assms
proof (induction ms arbitrary: c)
  case Nil
  then show ?case using settled_refl by (intro exI [of _ "[]"]) auto
next
  case (Cons m ms)
  obtain i flds where m: "m = (i, flds)" by force
  show ?case
  proof (cases "payload_of flds")
    case (Inl e)
    show ?thesis
    proof (cases "flds = []")
      case True
      then have *: "claim_page X B H stop_at ms c = (r, c')" using Cons.prems(2) by (simp add: m)
      have "\<not> readable (m # ms)" using True by (auto simp: readable_def m)
      with Cons.IH [OF Cons.prems(1) *] Cons.prems(3) show ?thesis by auto
    next
      case False
      then have "r = Inl e" "c' = c" using Cons.prems(2) Inl by (simp_all add: m)
      moreover have "\<not> readable (m # ms)" using Inl by (auto simp: readable_def m)
      ultimately show ?thesis
        using settled_refl [OF Cons.prems(1)] payload_of_Inl [OF Inl] by (intro exI [of _ "[]"]) simp
    qed
  next
    case (Inr p)
    let ?c = "dispatch X B H i p c"
    have ne: "flds \<noteq> []" using Inr by auto
    obtain ids where ids: "settled (cs_srv c) ids (cs_srv ?c)" "set ids \<subseteq> {i}" "distinct ids"
      "cs_handled ?c = cs_handled c @ ids" "succeeds H \<longrightarrow> ids = [i]"
      using dispatch_settles [OF Cons.prems(1), of H i p] by blast
    show ?thesis
    proof (cases "stop_set stop_at ?c")
      case True
      then have "c' = ?c" "r = Inr True" using Cons.prems(2) Inr ne by (simp_all add: m Let_def)
      moreover have "stop_at \<noteq> None" using True by (cases stop_at) simp_all
      ultimately show ?thesis using ids by (auto simp: m)
    next
      case False
      then have "claim_page X B H stop_at ms ?c = (r, c')" using Cons.prems(2) Inr ne by (simp add: m)
      from Cons.IH [OF settled_has [OF ids(1)] this] Cons.prems(3)
      obtain ids' where ids': "settled (cs_srv ?c) ids' (cs_srv c')" "set ids' \<subseteq> fst ` set ms" "distinct ids'"
        "cs_handled c' = cs_handled ?c @ ids'" "\<forall>e. r = Inl e \<longrightarrow> e = KeyError"
        "succeeds H \<longrightarrow> stop_at = None \<longrightarrow> readable ms \<longrightarrow> ids' = map fst ms \<and> r = Inr False" by auto
      have "distinct (ids @ ids')" using ids(2,3) ids'(2,3) Cons.prems(3) by (auto simp: m)
      moreover have "readable (m # ms) \<longrightarrow> readable ms" by (simp add: readable_def)
      ultimately show ?thesis using ids ids' settled_trans [OF ids(1) ids'(1)]
        by (intro exI [of _ "ids @ ids'"]) (auto simp: m)
    qed
  qed
qed

text \<open>A scan comes to its end within one page per entry it has to visit.\<close>

lemma reclaim_settles:
  assumes "x_has X (cs_srv c) (b_stream B) (b_group B)" "0 < count"
    "distinct (x_scan X (cs_srv c) (b_stream B) (b_group B) cur)"
    "length (x_scan X (cs_srv c) (b_stream B) (b_group B) cur) < fuel"
    "reclaim fuel X B H stop_at idle count cur c = (r, c')"
  shows "\<exists>ids. cleared (cs_srv c) ids (cs_srv c') \<and>
    set ids \<subseteq> set (x_scan X (cs_srv c) (b_stream B) (b_group B) cur) \<and> distinct ids \<and>
    cs_handled c' = cs_handled c @ ids \<and> (\<forall>e. r = Inl e \<longrightarrow> e = KeyError) \<and>
    (succeeds H \<longrightarrow> stop_at = None \<longrightarrow> readable (x_pel X (cs_srv c) (b_stream B) (b_group B)) \<longrightarrow>
     (\<forall>s i. x_idle X s (b_stream B) (b_group B) idle i) \<longrightarrow>
     set ids = set (x_scan X (cs_srv c) (b_stream B) (b_group B) cur) \<and> r = Inr False)"
  using assms
proof (induction fuel arbitrary: cur c)
  case (Suc fuel)
  let ?st = "b_stream B" and ?g = "b_group B"
  obtain cur' ms s' where ac: "x_autoclaim X (cs_srv c) ?st ?g (b_consumer B) idle cur count = (cur', ms, s')"
    by (metis prod_cases3)
  obtain page rest where pr: "x_scan X (cs_srv c) ?st ?g cur = page @ rest"
    "ms = map (\<lambda>i. (i, the (map_of (x_pel X (cs_srv c) ?st ?g) i))) (filter (x_idle X (cs_srv c) ?st ?g idle) page)"
    "if cur' = SCAN_START then rest = [] else x_scan X s' ?st ?g cur' = rest \<and> page \<noteq> []"
    and s': "x_has X s' ?st ?g" "x_waiting X s' ?st ?g = x_waiting X (cs_srv c) ?st ?g"
      "x_pel X s' ?st ?g = x_pel X (cs_srv c) ?st ?g"
    using autoclaim [OF Suc.prems(1,2) ac] by blast
  have fms: "map fst ms = filter (x_idle X (cs_srv c) ?st ?g idle) page" by (simp add: pr(2) comp_def)
  then have sms: "fst ` set ms = set (filter (x_idle X (cs_srv c) ?st ?g idle) page)" by (metis set_map)
  have dms: "distinct (map fst ms)" using Suc.prems(3) unfolding fms by (simp add: pr(1))
  have rd: "readable ms" if "readable (x_pel X (cs_srv c) ?st ?g)"
  proof -
    have "(i, the (map_of (x_pel X (cs_srv c) ?st ?g) i)) \<in> set (x_pel X (cs_srv c) ?st ?g)" if "i \<in> set page" for i
    proof -
      have "i \<in> fst ` set (x_pel X (cs_srv c) ?st ?g)" using scan_pel [of "cs_srv c" cur] pr(1) that by auto
      then obtain f where "map_of (x_pel X (cs_srv c) ?st ?g) i = Some f" by (metis domD dom_map_of_conv_image_fst)
      then show ?thesis by (simp add: map_of_SomeD)
    qed
    with that show ?thesis by (fastforce simp: readable_def pr(2))
  qed
  obtain r1 c1 where pg: "claim_page X B H stop_at ms (c\<lparr>cs_srv := s'\<rparr>) = (r1, c1)" by force
  obtain ids where ids: "settled s' ids (cs_srv c1)" "set ids \<subseteq> fst ` set ms" "distinct ids"
    "cs_handled c1 = cs_handled c @ ids" "\<forall>e. r1 = Inl e \<longrightarrow> e = KeyError"
    "succeeds H \<longrightarrow> stop_at = None \<longrightarrow> readable ms \<longrightarrow> ids = map fst ms \<and> r1 = Inr False"
    using page_settles [OF _ pg dms] s'(1) by auto
  have cl: "cleared (cs_srv c) ids (cs_srv c1)"
    using settled_cleared [OF ids(1)] s' by (simp add: cleared_def)
  have sub: "set ids \<subseteq> set page" using ids(2) sms by auto
  show ?case
  proof (cases "r1 = Inr False \<and> cur' \<noteq> SCAN_START")
    case False
    then have "c' = c1" "r = r1"
      using Suc.prems(5) by (auto simp: ac pg split: sum.splits if_splits)
    moreover have "set ids = set (page @ rest)"
      if "succeeds H" "stop_at = None" "readable (x_pel X (cs_srv c) ?st ?g)" "\<forall>s i. x_idle X s ?st ?g idle i"
      using that False ids(6) rd pr(3) sms by (auto split: if_splits)
    ultimately show ?thesis using cl sub ids rd by (intro exI [of _ ids]) (auto simp: pr(1))
  next
    case True
    have c1: "x_has X (cs_srv c1) ?st ?g" using settled_has [OF ids(1)] .
    have "x_scan X (cs_srv c1) ?st ?g cur' = filter (\<lambda>j. j \<notin> set ids) rest"
      using ids(1) pr(3) True by (simp add: settled_def)
    moreover have "set ids \<inter> set rest = {}" using sub Suc.prems(3) by (auto simp: pr(1))
    then have "filter (\<lambda>j. j \<notin> set ids) rest = rest" by (auto simp: filter_id_conv)
    ultimately have sc: "x_scan X (cs_srv c1) ?st ?g cur' = rest" by simp
    have dr: "distinct rest" and lt: "length rest < fuel"
      using Suc.prems(3,4) pr(1,3) True by (cases page; auto split: if_splits)+
    have rc: "reclaim fuel X B H stop_at idle count cur' c1 = (r, c')"
      using Suc.prems(5) True by (simp add: ac pg)
    obtain ids' where ids': "cleared (cs_srv c1) ids' (cs_srv c')" "set ids' \<subseteq> set rest" "distinct ids'"
      "cs_handled c' = cs_handled c1 @ ids'" "\<forall>e. r = Inl e \<longrightarrow> e = KeyError"
      "succeeds H \<longrightarrow> stop_at = None \<longrightarrow> readable (x_pel X (cs_srv c1) ?st ?g) \<longrightarrow>
       (\<forall>s i. x_idle X s ?st ?g idle i) \<longrightarrow> set ids' = set rest \<and> r = Inr False"
      using Suc.IH [OF c1 Suc.prems(2) _ _ rc] dr lt unfolding sc by blast
    have "readable (x_pel X (cs_srv c1) ?st ?g)" if "readable (x_pel X (cs_srv c) ?st ?g)"
      using that cl by (auto simp: readable_def cleared_def)
    moreover have "distinct (ids @ ids')" using ids(3) ids'(2,3) sub Suc.prems(3) by (auto simp: pr(1))
    ultimately show ?thesis
      using cleared_trans [OF cl ids'(1)] ids ids' sub rd sms
      by (intro exI [of _ "ids @ ids'"]) (auto simp: pr(1))
  qed
qed simp

lemma ids_filter: "fst ` set (filter (\<lambda>e. fst e \<notin> A) es) = fst ` set es - A"
  by auto

lemma traverse_payloads:
  "traverse_res (\<lambda>(i, f). bind_res (payload_of f) (\<lambda>p. Inr (i, p))) ms = r \<Longrightarrow>
   (\<forall>e. r = Inl e \<longrightarrow> e = KeyError) \<and> (\<forall>ps. r = Inr ps \<longrightarrow> map fst ps = map fst ms) \<and> (readable ms \<longrightarrow> (\<exists>ps. r = Inr ps))"
proof (induction ms arbitrary: r)
  case (Cons m ms)
  obtain i f where m: "m = (i, f)" by force
  let ?t = "traverse_res (\<lambda>(i, f). bind_res (payload_of f) (\<lambda>p. Inr (i, p))) ms"
  show ?case
  proof (cases "payload_of f")
    case (Inl e)
    with Cons.prems payload_of_Inl [OF Inl] show ?thesis by (auto simp: m readable_def)
  next
    case (Inr p)
    with Cons.prems Cons.IH [OF refl] show ?thesis
      by (cases ?t) (auto simp: m readable_def)
  qed
qed auto

abbreviation waiting :: "('s, 'w) consumer \<Rightarrow> (string \<times> entry_fields) list" where
  "waiting c \<equiv> x_waiting X (cs_srv c) (b_stream B) (b_group B)"

abbreviation pel :: "('s, 'w) consumer \<Rightarrow> (string \<times> entry_fields) list" where
  "pel c \<equiv> x_pel X (cs_srv c) (b_stream B) (b_group B)"

lemma iterate_settles:
  assumes "x_has X (cs_srv c) (b_stream B) (b_group B)" "0 < count"
    "iterate X B H stop_at idle count due c = (r, c')"
  shows "\<exists>ids. x_has X (cs_srv c') (b_stream B) (b_group B) \<and> cs_handled c' = cs_handled c @ ids \<and> distinct ids \<and>
    set ids \<subseteq> owed (cs_srv c) \<and> owed (cs_srv c') = owed (cs_srv c) - set ids \<and> (\<forall>e. r = Inl e \<longrightarrow> e = KeyError) \<and>
    (succeeds H \<longrightarrow> stop_at = None \<longrightarrow> readable (pel c @ waiting c) \<longrightarrow> (\<forall>s i. x_idle X s (b_stream B) (b_group B) idle i) \<longrightarrow>
     r = Inr False \<and> pel c' = (if due then [] else pel c) \<and> waiting c' = drop count (waiting c))"
proof -
  let ?st = "b_stream B" and ?g = "b_group B"
  obtain r1 c1 where rc: "(if due then reclaim (reclaim_fuel X B c) X B H stop_at idle count SCAN_START c
      else (Inr False, c)) = (r1, c1)" by force
  have d: "distinct (map fst (pel c @ waiting c))" by (rule ids_distinct)
  obtain ids1 where i1: "cleared (cs_srv c) ids1 (cs_srv c1)" "set ids1 \<subseteq> fst ` set (pel c)" "distinct ids1"
    "cs_handled c1 = cs_handled c @ ids1" "\<forall>e. r1 = Inl e \<longrightarrow> e = KeyError"
    "succeeds H \<longrightarrow> stop_at = None \<longrightarrow> readable (pel c) \<longrightarrow> (\<forall>s i. x_idle X s ?st ?g idle i) \<longrightarrow>
      r1 = Inr False \<and> set ids1 = (if due then fst ` set (pel c) else {})"
  proof (cases due)
    case True
    have 1: "distinct (x_scan X (cs_srv c) ?st ?g SCAN_START)" using d by (simp add: scan_start)
    have 2: "length (x_scan X (cs_srv c) ?st ?g SCAN_START) < reclaim_fuel X B c" by (simp add: reclaim_fuel_def)
    have 3: "reclaim (reclaim_fuel X B c) X B H stop_at idle count SCAN_START c = (r1, c1)" using rc True by simp
    obtain ids where "cleared (cs_srv c) ids (cs_srv c1)" "set ids \<subseteq> fst ` set (pel c)" "distinct ids"
      "cs_handled c1 = cs_handled c @ ids" "\<forall>e. r1 = Inl e \<longrightarrow> e = KeyError"
      "succeeds H \<longrightarrow> stop_at = None \<longrightarrow> readable (pel c) \<longrightarrow> (\<forall>s i. x_idle X s ?st ?g idle i) \<longrightarrow>
       set ids = fst ` set (pel c) \<and> r1 = Inr False"
      using reclaim_settles [OF assms(1,2) 1 2 3, unfolded scan_start set_map] by blast
    with True show ?thesis by (intro that [of ids]) simp_all
  next
    case False
    with rc that [of "[]"] assms(1) show ?thesis by (auto simp: cleared_def)
  qed
  have h1: "x_has X (cs_srv c1) ?st ?g" and w1: "waiting c1 = waiting c"
    and p1: "pel c1 = filter (\<lambda>e. fst e \<notin> set ids1) (pel c)" using i1(1) by (simp_all add: cleared_def)
  have o1: "owed (cs_srv c1) = owed (cs_srv c) - set ids1" and s1: "set ids1 \<subseteq> owed (cs_srv c)"
    using i1(2) d by (auto simp: owed_def w1 p1)
  show ?thesis
  proof (cases "r1 = Inr False")
    case False
    then have "c' = c1" "(r = Inr True \<and> r1 = Inr True) \<or> (\<exists>e. r = Inl e \<and> r1 = Inl e)"
      using assms(3) rc by (auto simp: iterate_def split: sum.splits if_splits)
    moreover have "readable (pel c @ waiting c) \<Longrightarrow> readable (pel c)" by (auto simp: readable_def)
    ultimately show ?thesis using i1 h1 o1 s1 False by (intro exI [of _ ids1]) auto
  next
    case True
    obtain ms s2 where rd: "x_readgroup X (cs_srv c1) ?g (b_consumer B) ?st count = (ms, s2)" by force
    have s2: "ms = take count (waiting c)" "x_has X s2 ?st ?g" "x_waiting X s2 ?st ?g = drop count (waiting c)"
      "x_pel X s2 ?st ?g = pel c1 @ ms"
      using readgroup [OF h1 rd] by (simp_all add: w1)
    have o2: "owed s2 = owed (cs_srv c1)"
      unfolding owed_def s2 w1 set_append image_Un
      by (metis (no_types, opaque_lifting) Un_assoc append_take_drop_id image_Un set_append)
    obtain rp where rp: "traverse_res (\<lambda>(i, f). bind_res (payload_of f) (\<lambda>p. Inr (i, p))) ms = rp" by blast
    have dm: "distinct (map fst ms)" using d by (simp add: s2(1) distinct_take take_map [symmetric])
    show ?thesis
    proof (cases rp)
      case (Inl e)
      then have "r = Inl e" "c' = c1\<lparr>cs_srv := s2\<rparr>"
        using assms(3) rc True rd rp by (auto simp: iterate_def bus_read_def)
      moreover have "\<not> readable (pel c @ waiting c)"
      proof
        assume "readable (pel c @ waiting c)"
        then have "readable ms" by (auto simp: readable_def s2(1) dest: in_set_takeD)
        with traverse_payloads [OF rp] Inl show False by simp
      qed
      ultimately show ?thesis
        using traverse_payloads [OF rp] Inl i1 o1 s1 o2 s2(2) by (intro exI [of _ ids1]) simp
    next
      case (Inr ps)
      then have fps: "map fst ps = map fst ms" using traverse_payloads [OF rp] by simp
      obtain st' c2 where b: "dispatch_batch X B H stop_at ps (c1\<lparr>cs_srv := s2\<rparr>) = (st', c2)" by force
      have rr: "r = Inr st'" "c' = c2"
        using assms(3) rc True rd rp Inr b by (auto simp: iterate_def bus_read_def)
      obtain ids2 where i2: "settled s2 ids2 (cs_srv c2)" "set ids2 \<subseteq> fst ` set ps" "distinct ids2"
        "cs_handled c2 = cs_handled c1 @ ids2" "succeeds H \<longrightarrow> stop_at = None \<longrightarrow> ids2 = map fst ps \<and> \<not> st'"
        using batch_settles [OF _ b] s2(2) dm fps by auto
      have sps: "fst ` set ps = fst ` set ms" using fps by (metis set_map)
      have m_in: "fst ` set ms \<subseteq> fst ` set (waiting c)" by (auto simp: s2(1) dest: in_set_takeD)
      have dpw: "fst ` set (pel c) \<inter> fst ` set (waiting c) = {}" using d by simp
      have in_w: "set ids2 \<subseteq> fst ` set (waiting c)" using subset_trans [OF i2(2) [unfolded sps] m_in] .
      have dj: "set ids1 \<inter> set ids2 = {}" using Int_mono [OF i1(2) in_w] dpw by simp
      have p2: "pel c2 = filter (\<lambda>e. fst e \<notin> set ids2) (pel c1 @ ms)" and w2: "waiting c2 = drop count (waiting c)"
        using i2(1) unfolding settled_def s2(3,4) by blast+
      have dwd: "fst ` set (drop count (waiting c)) \<inter> fst ` set ms = {}"
      proof -
        have "distinct (map fst (take count (waiting c)) @ map fst (drop count (waiting c)))"
          using d by (simp add: take_map [symmetric] drop_map [symmetric])
        then show ?thesis by (auto simp: s2(1))
      qed
      have o3: "owed (cs_srv c2) = owed s2 - set ids2"
        using i2(2) sps dwd unfolding owed_def p2 w2 s2(3,4) ids_filter by blast
      have fin: "pel c2 = (if due then [] else pel c)"
        if "succeeds H" "stop_at = None" "readable (pel c @ waiting c)" "\<forall>s i. x_idle X s ?st ?g idle i"
      proof -
        have "readable (pel c)" using that(3) by (auto simp: readable_def)
        then have e1: "set ids1 = (if due then fst ` set (pel c) else {})" using that i1(6) by simp
        have e2: "set ids2 = fst ` set ms" using that i2(5) sps by (metis list.set_map)
        have nw: "fst ` set (pel c) \<inter> fst ` set ms = {}" using Int_mono [OF subset_refl m_in] dpw by blast
        show ?thesis using e1 e2 nw by (auto simp: p2 p1 filter_id_conv filter_empty_conv)
      qed
      have own: "owed (cs_srv c') = owed (cs_srv c) - set (ids1 @ ids2)"
        using o1 o2 o3 rr(2) by auto
      have sub: "set (ids1 @ ids2) \<subseteq> owed (cs_srv c)"
        using s1 in_w by (auto simp: owed_def)
      have hand: "cs_handled c' = cs_handled c @ ids1 @ ids2" using i1(4) i2(4) rr(2) by simp
      have dst: "distinct (ids1 @ ids2)" using i1(3) i2(3) dj by simp
      have "stop_at = None \<longrightarrow> succeeds H \<longrightarrow> \<not> st'" using i2(5) by blast
      then show ?thesis
        using own sub hand dst fin w2 rr settled_has [OF i2(1)] by (intro exI [of _ "ids1 @ ids2"]) simp
    qed
  qed
qed

lemma loop_settles:
  assumes "x_has X (cs_srv c) (b_stream B) (b_group B)" "0 < count"
    "consume_loop X B H stop_at idle count schedule c = (r, c')"
  shows "\<exists>ids. cs_handled c' = cs_handled c @ ids \<and> distinct ids \<and> set ids \<subseteq> owed (cs_srv c) \<and>
    owed (cs_srv c') = owed (cs_srv c) - set ids \<and> (\<forall>e. r = Inl e \<longrightarrow> e = KeyError)"
  using assms
proof (induction schedule arbitrary: c)
  case Nil
  then show ?case by (intro exI [of _ "[]"]) auto
next
  case (Cons due schedule)
  show ?case
  proof (cases "stop_set stop_at c")
    case True
    with Cons.prems show ?thesis by (intro exI [of _ "[]"]) auto
  next
    case False
    obtain r1 c1 where it: "iterate X B H stop_at idle count due c = (r1, c1)" by force
    obtain ids where ids: "x_has X (cs_srv c1) (b_stream B) (b_group B)" "cs_handled c1 = cs_handled c @ ids"
      "distinct ids" "set ids \<subseteq> owed (cs_srv c)" "owed (cs_srv c1) = owed (cs_srv c) - set ids"
      "\<forall>e. r1 = Inl e \<longrightarrow> e = KeyError"
      using iterate_settles [OF Cons.prems(1,2) it] by blast
    show ?thesis
    proof (cases "r1 = Inr False")
      case False
      with Cons.prems(3) it \<open>\<not> stop_set stop_at c\<close> have "c' = c1" "\<forall>e. r = Inl e \<longrightarrow> r1 = Inl e"
        by (auto split: sum.splits if_splits)
      with ids show ?thesis by auto
    next
      case True
      with Cons.prems(3) it \<open>\<not> stop_set stop_at c\<close>
      have "consume_loop X B H stop_at idle count schedule c1 = (r, c')" by simp
      from Cons.IH [OF ids(1) Cons.prems(2) this] obtain ids' where ids': "cs_handled c' = cs_handled c1 @ ids'"
        "distinct ids'" "set ids' \<subseteq> owed (cs_srv c1)" "owed (cs_srv c') = owed (cs_srv c1) - set ids'"
        "\<forall>e. r = Inl e \<longrightarrow> e = KeyError" by blast
      have "distinct (ids @ ids')" "set (ids @ ids') \<subseteq> owed (cs_srv c)"
        "owed (cs_srv c') = owed (cs_srv c) - set (ids @ ids')" using ids ids' by auto
      with ids(2) ids'(1,5) show ?thesis by (intro exI [of _ "ids @ ids'"]) simp
    qed
  qed
qed

lemma run_settles:
  assumes "x_has X (cs_srv c) (b_stream B) (b_group B)" "0 < count"
    "run_consumer X B H stop_at idle count schedule c = (r, c')"
  shows "\<exists>ids. cs_handled c' = cs_handled c @ ids \<and> distinct ids \<and> set ids \<subseteq> owed (cs_srv c) \<and>
    owed (cs_srv c') = owed (cs_srv c) - set ids \<and> (\<forall>e. r = Inl e \<longrightarrow> e = KeyError)"
proof -
  obtain m where "x_group_create X (cs_srv c) (b_stream B) (b_group B) NEW_GROUP_ID = Inl m" "contains_str ''BUSYGROUP'' m"
    using create_old [OF assms(1)] by blast
  then have "consume_loop X B H stop_at idle count schedule c = (r, c')"
    using assms(3) by (simp add: run_consumer_def ensure_group_def)
  from loop_settles [OF assms(1,2) this] show ?thesis .
qed

lemma polls_drain:
  assumes "x_has X (cs_srv c) (b_stream B) (b_group B)" "0 < count" "succeeds H" "readable (pel c @ waiting c)"
    "\<forall>s i. x_idle X s (b_stream B) (b_group B) idle i" "pel c = []" "length (waiting c) \<le> n * count"
    "consume_loop X B H None idle count (replicate n False) c = (r, c')"
  shows "r = Inr () \<and> pel c' = [] \<and> waiting c' = []"
  using assms
proof (induction n arbitrary: c)
  case (Suc n)
  obtain r1 c1 where it: "iterate X B H None idle count False c = (r1, c1)" by force
  have i: "x_has X (cs_srv c1) (b_stream B) (b_group B)" "r1 = Inr False" "pel c1 = []" "waiting c1 = drop count (waiting c)"
    using iterate_settles [OF Suc.prems(1,2) it] Suc.prems(3-6) by auto
  have "readable (pel c1 @ waiting c1)" using Suc.prems(4) i by (auto simp: readable_def dest: in_set_dropD)
  moreover have "length (waiting c1) \<le> n * count" using Suc.prems(7) i by simp
  moreover have "consume_loop X B H None idle count (replicate n False) c1 = (r, c')"
    using Suc.prems(8) it i by simp
  ultimately show ?case using Suc.IH [OF i(1) Suc.prems(2,3) _ Suc.prems(5) i(3)] by blast
qed simp

lemma run_drains:
  assumes "x_has X (cs_srv c) (b_stream B) (b_group B)" "0 < count" "succeeds H" "readable (pel c @ waiting c)"
    "\<forall>s i. x_idle X s (b_stream B) (b_group B) idle i" "length (waiting c) \<le> n * count"
    "run_consumer X B H None idle count (True # replicate n False) c = (r, c')"
  shows "r = Inr () \<and> owed (cs_srv c') = {}"
proof -
  obtain m where "x_group_create X (cs_srv c) (b_stream B) (b_group B) NEW_GROUP_ID = Inl m" "contains_str ''BUSYGROUP'' m"
    using create_old [OF assms(1)] by blast
  then have l: "consume_loop X B H None idle count (True # replicate n False) c = (r, c')"
    using assms(7) by (simp add: run_consumer_def ensure_group_def)
  obtain r1 c1 where it: "iterate X B H None idle count True c = (r1, c1)" by force
  have i: "x_has X (cs_srv c1) (b_stream B) (b_group B)" "r1 = Inr False" "pel c1 = []" "waiting c1 = drop count (waiting c)"
    using iterate_settles [OF assms(1,2) it] assms(3-5) by auto
  have "readable (pel c1 @ waiting c1)" using assms(4) i by (auto simp: readable_def dest: in_set_dropD)
  moreover have "length (waiting c1) \<le> n * count" using assms(6) i by simp
  moreover have "consume_loop X B H None idle count (replicate n False) c1 = (r, c')" using l it i by simp
  ultimately have "r = Inr () \<and> pel c' = [] \<and> waiting c' = []"
    using polls_drain [OF i(1) assms(2,3) _ assms(5) i(3)] by blast
  then show ?thesis by (simp add: owed_def)
qed

end

section \<open>Several processes on one group\<close>

text \<open>
  Publishers, and any number of consumer processes of one group, interleaved. A process holds the part
  of a batch it has not dispatched yet; it may be killed at any point, also between its handler's
  return and the acknowledgement. \<open>pl_published\<close> and \<open>pl_handled\<close> are histories.
\<close>

record ('s, 'w) plane =
  pl_srv :: 's
  pl_world :: 'w
  pl_batch :: "string \<Rightarrow> (string \<times> entry_fields) list"
  pl_published :: "string list"
  pl_handled :: "string list"

inductive plane_step :: "'s streams \<Rightarrow> bus \<Rightarrow> 'w handler \<Rightarrow> ('s, 'w) plane \<Rightarrow> ('s, 'w) plane \<Rightarrow> bool"
  for X B H where
  published: "length (x_entries X (pl_srv p) (b_stream B)) < b_maxlen B \<Longrightarrow>
    bus_publish X B (pl_srv p) json = (i, s) \<Longrightarrow>
    plane_step X B H p (p\<lparr>pl_srv := s, pl_published := pl_published p @ [i]\<rparr>)"
| polled: "pl_batch p k = [] \<Longrightarrow> x_readgroup X (pl_srv p) (b_group B) k (b_stream B) n = (ms, s) \<Longrightarrow>
    plane_step X B H p (p\<lparr>pl_srv := s, pl_batch := (pl_batch p)(k := ms)\<rparr>)"
| claimed: "pl_batch p k = [] \<Longrightarrow> 0 < n \<Longrightarrow>
    x_autoclaim X (pl_srv p) (b_stream B) (b_group B) k idle cur n = (cur', ms, s) \<Longrightarrow>
    plane_step X B H p (p\<lparr>pl_srv := s, pl_batch := (pl_batch p)(k := ms)\<rparr>)"
| handled: "pl_batch p k = (i, f) # ms \<Longrightarrow> payload_of f = Inr x \<Longrightarrow> H (pl_world p) x = (Inr (), w) \<Longrightarrow>
    bus_ack X B (pl_srv p) i = (n, s) \<Longrightarrow>
    plane_step X B H p (p\<lparr>pl_srv := s, pl_world := w, pl_batch := (pl_batch p)(k := ms), pl_handled := pl_handled p @ [i]\<rparr>)"
| raised: "pl_batch p k = (i, f) # ms \<Longrightarrow> payload_of f = Inr x \<Longrightarrow> H (pl_world p) x = (Inl e, w) \<Longrightarrow>
    plane_step X B H p (p\<lparr>pl_world := w, pl_batch := (pl_batch p)(k := ms)\<rparr>)"
| killed_after: "pl_batch p k = (i, f) # ms \<Longrightarrow> payload_of f = Inr x \<Longrightarrow> H (pl_world p) x = (r, w) \<Longrightarrow>
    plane_step X B H p (p\<lparr>pl_world := w, pl_batch := (pl_batch p)(k := [])\<rparr>)"
| killed: "plane_step X B H p (p\<lparr>pl_batch := (pl_batch p)(k := [])\<rparr>)"

text \<open>A fresh plane: the group exists, nothing was published for it yet.\<close>

definition plane_start :: "'s streams \<Rightarrow> bus \<Rightarrow> ('s, 'w) plane \<Rightarrow> bool" where
  "plane_start X B p \<longleftrightarrow> x_has X (pl_srv p) (b_stream B) (b_group B) \<and> pl_published p = [] \<and> pl_handled p = [] \<and>
     readable (x_pel X (pl_srv p) (b_stream B) (b_group B) @ x_waiting X (pl_srv p) (b_stream B) (b_group B))"

context bus_client
begin

definition nothing_lost :: "('s, 'w) plane \<Rightarrow> bool" where
  "nothing_lost p \<longleftrightarrow> x_has X (pl_srv p) (b_stream B) (b_group B) \<and>
     set (pl_published p) \<subseteq> owed (pl_srv p) \<union> set (pl_handled p) \<and>
     readable (x_pel X (pl_srv p) (b_stream B) (b_group B) @ x_waiting X (pl_srv p) (b_stream B) (b_group B))"

lemma step_keeps:
  assumes "plane_step X B H p p'" "nothing_lost p"
  shows "nothing_lost p'"
  using assms
proof (induction rule: plane_step.induct)
  case (published p json i s)
  then show ?case
    using add [of "pl_srv p" "b_maxlen B" "[(Str PAYLOAD_FIELD, Str json)]" i s]
    by (auto simp: nothing_lost_def owed_def bus_publish_def readable_def payload_of_def)
next
  case (polled p k n ms s)
  have "x_has X (pl_srv p) (b_stream B) (b_group B)" using polled by (simp add: nothing_lost_def)
  from readgroup [OF this polled(2)] have r: "ms = take n (x_waiting X (pl_srv p) (b_stream B) (b_group B))"
    "x_has X s (b_stream B) (b_group B)"
    "x_waiting X s (b_stream B) (b_group B) = drop n (x_waiting X (pl_srv p) (b_stream B) (b_group B))"
    "x_pel X s (b_stream B) (b_group B) = x_pel X (pl_srv p) (b_stream B) (b_group B) @ ms" by auto
  have "owed s = owed (pl_srv p)"
    unfolding owed_def r(1,3,4) set_append image_Un
    by (metis (no_types, opaque_lifting) Un_assoc append_take_drop_id image_Un set_append)
  moreover have "set (x_pel X s (b_stream B) (b_group B) @ x_waiting X s (b_stream B) (b_group B)) \<subseteq>
      set (x_pel X (pl_srv p) (b_stream B) (b_group B) @ x_waiting X (pl_srv p) (b_stream B) (b_group B))"
    by (auto simp: r(1,3,4) dest: in_set_takeD in_set_dropD)
  ultimately show ?case using polled r(2) by (auto simp: nothing_lost_def readable_def)
next
  case (claimed p k n idle cur cur' ms s)
  then have "owed s = owed (pl_srv p)" "x_has X s (b_stream B) (b_group B)"
    "x_pel X s (b_stream B) (b_group B) = x_pel X (pl_srv p) (b_stream B) (b_group B)"
    "x_waiting X s (b_stream B) (b_group B) = x_waiting X (pl_srv p) (b_stream B) (b_group B)"
    using autoclaim [of "pl_srv p" n k idle cur cur' ms s] by (auto simp: nothing_lost_def owed_def)
  with claimed show ?case by (simp add: nothing_lost_def)
next
  case (handled p k i f ms x w n s)
  then have a: "x_has X s (b_stream B) (b_group B)"
    "x_waiting X s (b_stream B) (b_group B) = x_waiting X (pl_srv p) (b_stream B) (b_group B)"
    "x_pel X s (b_stream B) (b_group B) = filter (\<lambda>e. fst e \<noteq> i) (x_pel X (pl_srv p) (b_stream B) (b_group B))"
    using ack [of "pl_srv p" i n s] by (auto simp: nothing_lost_def bus_ack_def)
  then have "owed (pl_srv p) \<subseteq> insert i (owed s)" by (auto simp: owed_def)
  with handled a show ?case by (auto simp: nothing_lost_def readable_def)
qed (simp_all add: nothing_lost_def)

lemma run_keeps: "(plane_step X B H)\<^sup>*\<^sup>* p p' \<Longrightarrow> nothing_lost p \<Longrightarrow> nothing_lost p'"
  by (induction rule: rtranclp_induct) (auto intro: step_keeps)

end

end
