(* ===== verification/BusRun.thy ===== *)
theory BusRun
  imports Bus
begin

text \<open>
  The delivery guarantees of the bus and the consumer loop, with a concrete stream server on which the
  laws of \<open>Bus\<close> hold and the witnesses run.
\<close>

section \<open>A stream server in memory\<close>

text \<open>
  The log keeps every entry; an id is its position, and the first \<open>ml_trim\<close> entries are evicted. A
  group is how far it was delivered and which of those ids are pending; every pending entry counts as idle.
\<close>

record mgroup =
  mg_last :: nat
  mg_pel :: "nat list"

record mlog =
  ml_log :: "entry_fields list"
  ml_trim :: nat
  ml_groups :: "(string, mgroup) dict"

type_synonym smem = "(string, mlog) dict"

definition s_log :: "smem \<Rightarrow> string \<Rightarrow> mlog" where
  "s_log s st = dict_get s st \<lparr>ml_log = [], ml_trim = 0, ml_groups = []\<rparr>"

definition s_trim :: "mlog \<Rightarrow> nat" where
  "s_trim l = min (ml_trim l) (length (ml_log l))"

definition s_group :: "smem \<Rightarrow> string \<Rightarrow> string \<Rightarrow> mgroup" where
  "s_group s st g = dict_get (ml_groups (s_log s st)) g \<lparr>mg_last = 0, mg_pel = []\<rparr>"

definition s_put :: "smem \<Rightarrow> string \<Rightarrow> string \<Rightarrow> mgroup \<Rightarrow> smem" where
  "s_put s st g G = dict_set st ((s_log s st)\<lparr>ml_groups := dict_set g G (ml_groups (s_log s st))\<rparr>) s"

definition s_entry :: "smem \<Rightarrow> string \<Rightarrow> nat \<Rightarrow> string \<times> entry_fields" where
  "s_entry s st n = (nat_str n, if n \<le> s_trim (s_log s st) then [] else ml_log (s_log s st) ! (n - 1))"

definition s_waiting :: "smem \<Rightarrow> string \<Rightarrow> string \<Rightarrow> nat list" where
  "s_waiting s st g = [max (mg_last (s_group s st g)) (s_trim (s_log s st)) + 1..<length (ml_log (s_log s st)) + 1]"

definition s_pel :: "smem \<Rightarrow> string \<Rightarrow> string \<Rightarrow> nat list" where
  "s_pel s st g = filter (\<lambda>n. n \<in> set (mg_pel (s_group s st g)))
     [1..<min (mg_last (s_group s st g)) (length (ml_log (s_log s st))) + 1]"

definition s_from :: "string \<Rightarrow> nat list \<Rightarrow> nat list" where
  "s_from cur ns = filter (\<lambda>n. (if cur = SCAN_START then 0 else digits_val cur) \<le> n) ns"

text \<open>No group is ever delivered past the end of the log; a longer log must not deliver to one by itself.\<close>

definition s_cap :: "nat \<Rightarrow> mgroup \<Rightarrow> mgroup" where
  "s_cap len G = \<lparr>mg_last = min (mg_last G) len, mg_pel = filter (\<lambda>m. m \<le> min (mg_last G) len) (mg_pel G)\<rparr>"

definition s_busy :: string where "s_busy = ''BUSYGROUP''"

definition mem_streams :: "smem streams" where
  "mem_streams = \<lparr>
     x_group_create = (\<lambda>s st g start. if g \<in> fst ` set (ml_groups (s_log s st)) then Inl s_busy
        else Inr (s_put s st g \<lparr>mg_last = 0, mg_pel = []\<rparr>)),
     x_add = (\<lambda>s st f n. let l = s_log s st; k = length (ml_log l) + 1 in
        (nat_str k, dict_set st (l\<lparr>ml_log := ml_log l @ [f], ml_trim := max (s_trim l) (k - n),
          ml_groups := map (\<lambda>(g, G). (g, s_cap (k - 1) G)) (ml_groups l)\<rparr>) s)),
     x_readgroup = (\<lambda>s g c st n. let ns = take n (s_waiting s st g); G = s_group s st g in
        (map (s_entry s st) ns, s_put s st g
          \<lparr>mg_last = (if ns = [] then mg_last G else last ns),
           mg_pel = filter (\<lambda>m. m \<le> mg_last G) (mg_pel G) @ ns\<rparr>)),
     x_ack = (\<lambda>s st g i. (if i \<in> nat_str ` set (s_pel s st g) then 1 else 0,
        s_put s st g ((s_group s st g)\<lparr>mg_pel := filter (\<lambda>n. nat_str n \<noteq> i) (mg_pel (s_group s st g))\<rparr>))),
     x_autoclaim = (\<lambda>s st g c idle cur n. let ns = s_from cur (s_pel s st g) in
        (if length ns \<le> n then SCAN_START else nat_str (ns ! n), map (s_entry s st) (take n ns), s)),
     x_pending = (\<lambda>s st g. if g \<in> fst ` set (ml_groups (s_log s st)) then Some (length (s_pel s st g)) else None),
     x_has = (\<lambda>s st g. g \<in> fst ` set (ml_groups (s_log s st))),
     x_waiting = (\<lambda>s st g. map (s_entry s st) (s_waiting s st g)),
     x_pel = (\<lambda>s st g. map (s_entry s st) (s_pel s st g)),
     x_scan = (\<lambda>s st g cur. map nat_str (s_from cur (s_pel s st g))),
     x_idle = (\<lambda>s st g idle i. True),
     x_entries = (\<lambda>s st. map (s_entry s st) [s_trim (s_log s st) + 1..<length (ml_log (s_log s st)) + 1])\<rparr>"

lemma nat_str_inj [simp]: "nat_str m = nat_str n \<longleftrightarrow> m = n"
  by (metis digits_val_nat_str)

lemma nat_str_not_start [simp]: "nat_str n \<noteq> SCAN_START"
  using nat_str_digits [of n] by (auto simp: SCAN_START_def list_all_iff)

lemma s_log_put [simp]: "s_log (s_put s st g G) st = (s_log s st)\<lparr>ml_groups := dict_set g G (ml_groups (s_log s st))\<rparr>"
  by (simp add: s_log_def s_put_def dict_simps)

lemma s_group_put [simp]: "s_group (s_put s st g G) st g = G"
  by (simp add: s_group_def dict_simps)

lemma s_trim_groups [simp]: "s_trim (l\<lparr>ml_groups := gs\<rparr>) = s_trim l"
  by (simp add: s_trim_def)

lemma s_entry_put [simp]: "s_entry (s_put s st g G) st = s_entry s st"
  by (simp add: s_entry_def fun_eq_iff)

lemma sorted_s_pel: "sorted_wrt (<) (s_pel s st g)"
  unfolding s_pel_def by (intro sorted_wrt_filter sorted_wrt_upt)

lemma fst_entry [simp]: "fst (s_entry s st n) = nat_str n"
  by (simp add: s_entry_def)

lemma map_of_entries: "n \<in> set ns \<Longrightarrow> map_of (map (s_entry s st) ns) (nat_str n) = Some (snd (s_entry s st n))"
  by (induction ns) (auto simp: s_entry_def)

lemma filter_from_hd:
  assumes "sorted_wrt (<) (xs @ y # ys)"
  shows "filter (\<lambda>n. y \<le> n) (xs @ y # ys) = y # (ys :: nat list)"
proof -
  have "filter (\<lambda>n. y \<le> n) xs = []" using assms by (auto simp: sorted_wrt_append filter_empty_conv)
  moreover have "filter (\<lambda>n. y \<le> n) ys = ys" using assms by (auto simp: sorted_wrt_append filter_id_conv)
  ultimately show ?thesis by simp
qed

lemma filter_from_above: "lo \<le> y \<Longrightarrow> filter (\<lambda>m. y \<le> m) (filter (\<lambda>m. lo \<le> m) xs) = filter (\<lambda>m. y \<le> m) (xs :: nat list)"
  by (induction xs) auto

lemma mem_claim:
  assumes "0 < n" "x_autoclaim mem_streams s st g k idle cur n = (cur', ms, s')"
  shows "s' = s \<and> (\<exists>page rest. x_scan mem_streams s st g cur = page @ rest \<and>
    ms = map (\<lambda>i. (i, the (map_of (x_pel mem_streams s st g) i))) (filter (x_idle mem_streams s st g idle) page) \<and>
    (if cur' = SCAN_START then rest = [] else x_scan mem_streams s' st g cur' = rest \<and> page \<noteq> []))"
proof -
  let ?ns = "s_from cur (s_pel s st g)"
  have r: "s' = s" "ms = map (s_entry s st) (take n ?ns)"
    "cur' = (if length ?ns \<le> n then SCAN_START else nat_str (?ns ! n))"
    using assms(2) by (auto simp: mem_streams_def Let_def)
  have sc: "x_scan mem_streams s st g c = map nat_str (s_from c (s_pel s st g))" for c by (simp add: mem_streams_def)
  have "s_entry s st m = (nat_str m, the (map_of (map (s_entry s st) (s_pel s st g)) (nat_str m)))"
    if "m \<in> set (take n ?ns)" for m
  proof -
    have "m \<in> set (s_pel s st g)" using in_set_takeD [OF that] by (simp add: s_from_def)
    then show ?thesis by (simp add: map_of_entries prod_eq_iff)
  qed
  then have ms: "ms = map (\<lambda>i. (i, the (map_of (x_pel mem_streams s st g) i))) (map nat_str (take n ?ns))"
    using r(2) by (simp add: mem_streams_def)
  have rest: "if cur' = SCAN_START then drop n ?ns = [] else s_from cur' (s_pel s st g) = drop n ?ns \<and> take n ?ns \<noteq> []"
  proof (cases "length ?ns \<le> n")
    case False
    define lo where "lo = (if cur = SCAN_START then 0 else digits_val cur)"
    have ns: "?ns = filter (\<lambda>m. lo \<le> m) (s_pel s st g)" by (simp add: s_from_def lo_def)
    define y where "y = ?ns ! n"
    have "y \<in> set ?ns" using False by (simp add: y_def)
    then have "lo \<le> y" by (simp add: ns)
    then have fy: "filter (\<lambda>m. y \<le> m) ?ns = filter (\<lambda>m. y \<le> m) (s_pel s st g)" unfolding ns by (rule filter_from_above)
    have c: "cur' = nat_str y" using r(3) False by (simp add: y_def)
    then have "s_from cur' (s_pel s st g) = filter (\<lambda>m. y \<le> m) ?ns" unfolding fy by (simp add: s_from_def)
    moreover have "?ns = take n ?ns @ y # drop (Suc n) ?ns" using False by (simp add: y_def id_take_nth_drop)
    moreover have "sorted_wrt (<) ?ns" using sorted_s_pel by (simp add: ns sorted_wrt_filter)
    ultimately have "s_from cur' (s_pel s st g) = y # drop (Suc n) ?ns"
      by (metis filter_from_hd)
    also have "\<dots> = drop n ?ns" using False by (simp add: y_def Cons_nth_drop_Suc)
    finally show ?thesis using c False assms(1) by auto
  qed (use r(3) in simp)
  show ?thesis
    using r(1) ms rest unfolding sc
    by (intro conjI exI [of _ "map nat_str (take n ?ns)"] exI [of _ "map nat_str (drop n ?ns)"])
      (auto simp: map_append [symmetric] mem_streams_def simp del: map_append)
qed

lemma mem_read:
  assumes "x_readgroup mem_streams s g k st n = (ms, s')"
  shows "ms = take n (x_waiting mem_streams s st g) \<and> x_waiting mem_streams s' st g = drop n (x_waiting mem_streams s st g) \<and>
    x_pel mem_streams s' st g = x_pel mem_streams s st g @ ms"
proof -
  let ?ns = "take n (s_waiting s st g)"
  let ?G = "s_group s st g" and ?l = "s_log s st"
  let ?last = "if ?ns = [] then mg_last ?G else last ?ns"
  have r: "ms = map (s_entry s st) ?ns"
    "s' = s_put s st g \<lparr>mg_last = ?last, mg_pel = filter (\<lambda>m. m \<le> mg_last ?G) (mg_pel ?G) @ ?ns\<rparr>"
    using assms by (simp_all add: mem_streams_def Let_def)
  define lo where "lo = max (mg_last ?G) (s_trim ?l)"
  define len where "len = length (ml_log ?l)"
  have w: "s_waiting s st g = [lo + 1..<len + 1]" by (simp add: s_waiting_def lo_def len_def)
  have nst: "?ns = [lo + 1..<min (lo + n) len + 1]"
  proof (cases "lo + n \<le> len")
    case True
    then show ?thesis using take_upt [of "lo + 1" n "len + 1"] by (simp add: w del: upt_Suc)
  qed (simp add: w del: upt_Suc)
  have ns: "?ns = [] \<longleftrightarrow> n = 0 \<or> len \<le> lo" by (auto simp: nst)
  have lst: "?last = (if n = 0 \<or> len \<le> lo then mg_last ?G else min (lo + n) len)"
    unfolding ns by (simp add: nst)
  define lastv where "lastv = ?last"
  have l': "mg_last (s_group s' st g) = lastv" by (simp add: r(2) lastv_def)
  have "s_waiting s' st g = [max lastv (s_trim ?l) + 1..<len + 1]"
    by (simp only: s_waiting_def l') (simp add: r(2) len_def)
  also have "max lastv (s_trim ?l) = (if n = 0 \<or> len \<le> lo then lo else min (lo + n) len)"
    unfolding lastv_def lst by (auto simp: lo_def)
  also have "[(if n = 0 \<or> len \<le> lo then lo else min (lo + n) len) + 1..<len + 1] = [lo + 1 + n..<len + 1]"
    by (auto simp: min_def simp del: upt_Suc)
  finally have w': "s_waiting s' st g = drop n (s_waiting s st g)" by (simp only: w drop_upt)
  have p': "s_pel s' st g = s_pel s st g @ ?ns"
  proof (cases "?ns = []")
    case True
    then show ?thesis unfolding r(2) s_pel_def s_group_put s_log_put by (auto intro!: filter_cong)
  next
    case False
    then have ne: "n \<noteq> 0" "lo < len" using ns by auto
    define top where "top = min (lo + n) len"
    have top: "lo < top" "top \<le> len" using ne by (auto simp: top_def)
    have gl: "mg_last ?G \<le> lo" by (simp add: lo_def)
    have ml: "min (mg_last ?G) len = mg_last ?G" using gl ne(2) by simp
    have split: "[1..<top + 1] = [1..<mg_last ?G + 1] @ [mg_last ?G + 1..<lo + 1] @ [lo + 1..<top + 1]"
      using gl top upt_add_eq_append [of 1 "mg_last ?G + 1" "top - mg_last ?G"]
        upt_add_eq_append [of "mg_last ?G + 1" "lo + 1" "top - lo"] by simp
    have nt: "?ns = [lo + 1..<top + 1]" by (simp add: nst top_def)
    let ?P = "\<lambda>m. m \<in> set (filter (\<lambda>m. m \<le> mg_last ?G) (mg_pel ?G) @ ?ns)"
    have "filter ?P [1..<mg_last ?G + 1] = filter (\<lambda>m. m \<in> set (mg_pel ?G)) [1..<mg_last ?G + 1]"
      using gl by (auto simp: nt intro!: filter_cong)
    moreover have "filter ?P [mg_last ?G + 1..<lo + 1] = []" by (auto simp: nt filter_empty_conv)
    moreover have "filter ?P [lo + 1..<top + 1] = [lo + 1..<top + 1]" by (auto simp: nt filter_id_conv)
    ultimately have f: "filter ?P [1..<top + 1] = s_pel s st g @ ?ns"
      unfolding split filter_append by (simp add: s_pel_def ml len_def [symmetric] nt)
    have "min ?last len = top" using False lst ns top by (simp add: top_def)
    then show ?thesis unfolding r(2) using f by (simp add: s_pel_def len_def)
  qed
  show ?thesis
    using r w' p' by (simp add: mem_streams_def take_map drop_map)
qed

lemma mem_add:
  assumes "x_add mem_streams s st f n = (i, s')" "length (x_entries mem_streams s st) < n"
  shows "x_waiting mem_streams s' st g = x_waiting mem_streams s st g @ [(i, f)] \<and>
    x_pel mem_streams s' st g = x_pel mem_streams s st g \<and> x_has mem_streams s' st g = x_has mem_streams s st g"
proof -
  define l where "l = s_log s st"
  define len where "len = length (ml_log l)"
  define t where "t = s_trim l"
  define L where "L = mg_last (s_group s st g)"
  have t: "t \<le> len" by (simp add: t_def len_def s_trim_def)
  have "len - t < n" using assms(2) by (simp add: mem_streams_def l_def len_def t_def del: upt_Suc)
  then have mx: "max t (len + 1 - n) = t" by simp
  have i: "i = nat_str (len + 1)" using assms(1) by (simp add: mem_streams_def Let_def l_def len_def)
  have "s' = dict_set st (l\<lparr>ml_log := ml_log l @ [f], ml_trim := t,
      ml_groups := map (\<lambda>(g, G). (g, s_cap len G)) (ml_groups l)\<rparr>) s"
    using assms(1) mx unfolding t_def len_def l_def by (simp add: mem_streams_def Let_def)
  then have log': "s_log s' st = l\<lparr>ml_log := ml_log l @ [f], ml_trim := t,
      ml_groups := map (\<lambda>(g, G). (g, s_cap len G)) (ml_groups l)\<rparr>"
    by (simp add: s_log_def dict_simps)
  have len': "length (ml_log (s_log s' st)) = len + 1" and t': "s_trim (s_log s' st) = t"
    using t by (simp_all add: log' len_def s_trim_def)
  have grp: "s_group s' st g = s_cap len (s_group s st g)"
  proof -
    have "map_of (map (\<lambda>(g, G). (g, s_cap len G)) gs) g = map_option (s_cap len) (map_of gs g)" for gs
      by (induction gs) auto
    moreover have "s_cap len \<lparr>mg_last = 0, mg_pel = []\<rparr> = \<lparr>mg_last = 0, mg_pel = []\<rparr>" by (simp add: s_cap_def)
    ultimately show ?thesis by (simp add: s_group_def log' l_def [symmetric] dict_get_def split: option.splits)
  qed
  have ent: "s_entry s' st m = s_entry s st m" if "1 \<le> m" "m \<le> len" for m
  proof -
    have "m - 1 < length (ml_log l)" using that by (simp add: len_def)
    then show ?thesis using t' by (simp add: s_entry_def log' l_def [symmetric] t_def [symmetric] nth_append)
  qed
  have new: "s_entry s' st (len + 1) = (i, f)"
    using t t' by (simp add: s_entry_def log' i nth_append len_def)
  have w: "s_waiting s st g = [max L t + 1..<len + 1]"
    by (simp only: s_waiting_def L_def t_def len_def l_def)
  have w': "s_waiting s' st g = s_waiting s st g @ [len + 1]"
  proof -
    have "mg_last (s_group s' st g) = min L len" by (simp add: grp s_cap_def L_def)
    then have "s_waiting s' st g = [max (min L len) t + 1..<(len + 1) + 1]" by (simp only: s_waiting_def t' len')
    also have "\<dots> = [max L t + 1..<len + 1] @ [len + 1]"
      using t by (cases "L \<le> len") (simp_all add: max_def min_def)
    finally show ?thesis by (simp only: w)
  qed
  have p: "s_pel s' st g = s_pel s st g"
  proof -
    have "s_pel s' st g = filter (\<lambda>n. n \<in> set (mg_pel (s_cap len (s_group s st g)))) [1..<min (min L len) (len + 1) + 1]"
      by (simp only: s_pel_def grp len') (simp add: s_cap_def L_def)
    also have "\<dots> = s_pel s st g"
      by (auto simp: s_pel_def s_cap_def L_def len_def l_def intro!: filter_cong)
    finally show ?thesis .
  qed
  have "map (s_entry s' st) (s_waiting s st g) = map (s_entry s st) (s_waiting s st g)"
    using ent by (auto simp: w simp del: upt_Suc)
  moreover have "map (s_entry s' st) (s_pel s st g) = map (s_entry s st) (s_pel s st g)"
    using ent by (auto simp: s_pel_def len_def l_def)
  moreover have "x_has mem_streams s' st g = x_has mem_streams s st g"
    by (simp add: mem_streams_def log' l_def case_prod_unfold image_image)
  ultimately show ?thesis using w' p new by (simp add: mem_streams_def)
qed

lemma mem_ack:
  assumes "x_ack mem_streams s st g i = (n, s')"
  shows "x_has mem_streams s' st g \<and> x_waiting mem_streams s' st g = x_waiting mem_streams s st g \<and>
    x_pel mem_streams s' st g = filter (\<lambda>e. fst e \<noteq> i) (x_pel mem_streams s st g) \<and>
    x_scan mem_streams s' st g cur = filter (\<lambda>j. j \<noteq> i) (x_scan mem_streams s st g cur)"
proof -
  have s': "s' = s_put s st g ((s_group s st g)\<lparr>mg_pel := filter (\<lambda>n. nat_str n \<noteq> i) (mg_pel (s_group s st g))\<rparr>)"
    using assms by (auto simp: mem_streams_def)
  have p: "s_pel s' st g = filter (\<lambda>n. nat_str n \<noteq> i) (s_pel s st g)"
    unfolding s' s_pel_def s_group_put s_log_put by (simp add: conj_commute)
  have w: "s_waiting s' st g = s_waiting s st g" by (simp add: s' s_waiting_def)
  have "s_entry s' st = s_entry s st" by (simp add: s')
  then show ?thesis
    using p w by (simp add: mem_streams_def s' dict_simps s_from_def filter_map comp_def conj_commute)
qed

lemma mem_stream_laws: "stream_laws mem_streams st g"
proof
  fix s s' k i cur cur' :: "_" and f n m idle ms
  show "x_scan mem_streams s st g SCAN_START = map fst (x_pel mem_streams s st g)"
    by (simp add: mem_streams_def s_from_def comp_def)
  show "set (x_scan mem_streams s st g cur) \<subseteq> fst ` set (x_pel mem_streams s st g)"
    by (auto simp: mem_streams_def s_from_def image_image)
  show "distinct (map fst (x_pel mem_streams s st g @ x_waiting mem_streams s st g))"
    by (auto simp: mem_streams_def comp_def distinct_map inj_on_def s_pel_def s_waiting_def)
  show "\<exists>m. x_group_create mem_streams s st g NEW_GROUP_ID = Inl m \<and> contains_str ''BUSYGROUP'' m"
    if "x_has mem_streams s st g"
    using that by (simp add: mem_streams_def s_busy_def)
  show "\<exists>s'. x_group_create mem_streams s st g NEW_GROUP_ID = Inr s' \<and> x_has mem_streams s' st g \<and>
      x_waiting mem_streams s' st g = x_entries mem_streams s st \<and> x_pel mem_streams s' st g = []"
    if "\<not> x_has mem_streams s st g"
    using that by (simp add: mem_streams_def s_waiting_def s_pel_def dict_simps del: upt_Suc)
  show "x_has mem_streams s' st g \<and> x_waiting mem_streams s' st g = x_waiting mem_streams s st g @ [(i, f)] \<and>
      x_pel mem_streams s' st g = x_pel mem_streams s st g"
    if "x_has mem_streams s st g" "length (x_entries mem_streams s st) < n" "x_add mem_streams s st f n = (i, s')"
    using mem_add [OF that(3,2), of g] that(1) by blast
  show "ms = take n (x_waiting mem_streams s st g) \<and> x_has mem_streams s' st g \<and>
      x_waiting mem_streams s' st g = drop n (x_waiting mem_streams s st g) \<and>
      x_pel mem_streams s' st g = x_pel mem_streams s st g @ ms"
    if "x_has mem_streams s st g" "x_readgroup mem_streams s g k st n = (ms, s')"
    using mem_read [OF that(2)] that(2) by (auto simp: mem_streams_def Let_def dict_simps)
  show "x_has mem_streams s' st g \<and> x_waiting mem_streams s' st g = x_waiting mem_streams s st g \<and>
      x_pel mem_streams s' st g = filter (\<lambda>e. fst e \<noteq> i) (x_pel mem_streams s st g) \<and>
      x_scan mem_streams s' st g cur = filter (\<lambda>j. j \<noteq> i) (x_scan mem_streams s st g cur)"
    if "x_has mem_streams s st g" "x_ack mem_streams s st g i = (n, s')"
    using mem_ack [OF that(2)] .
  show "x_has mem_streams s' st g \<and> x_waiting mem_streams s' st g = x_waiting mem_streams s st g \<and>
      x_pel mem_streams s' st g = x_pel mem_streams s st g \<and>
      (\<exists>page rest. x_scan mem_streams s st g cur = page @ rest \<and>
        ms = map (\<lambda>i. (i, the (map_of (x_pel mem_streams s st g) i))) (filter (x_idle mem_streams s st g idle) page) \<and>
        (if cur' = SCAN_START then rest = [] else x_scan mem_streams s' st g cur' = rest \<and> page \<noteq> []))"
    if "x_has mem_streams s st g" "0 < n" "x_autoclaim mem_streams s st g k idle cur n = (cur', ms, s')"
    using mem_claim [OF that(2,3)] that(1) by simp
qed

interpretation mem: stream_laws mem_streams st g for st g
  by (rule mem_stream_laws)

section \<open>At-least-once delivery\<close>

definition owed_ids :: "'s streams \<Rightarrow> bus \<Rightarrow> 's \<Rightarrow> string set" where
  "owed_ids X B s = fst ` set (x_pel X s (b_stream B) (b_group B)) \<union> fst ` set (x_waiting X s (b_stream B) (b_group B))"

lemma owed_ids: "bus_client X B \<Longrightarrow> stream_laws.owed X (b_stream B) (b_group B) = owed_ids X B"
  by (rule ext) (simp add: bus_client_def stream_laws.owed_def owed_ids_def)


definition demo_bus :: bus where
  "demo_bus = \<lparr>b_stream = ''forecasts'', b_group = ''persister'', b_consumer = ''p1'', b_maxlen = 10\<rparr>"

definition collect :: "string list handler" where
  "collect w x = (Inr (), w @ [x])"

definition demo_srv :: smem where
  "demo_srv = (case ensure_group mem_streams demo_bus [] of Inr s \<Rightarrow>
     snd (bus_publish mem_streams demo_bus (snd (bus_publish mem_streams demo_bus s ''a'')) ''b''))"

definition demo_consumer :: "(smem, string list) consumer" where
  "demo_consumer = \<lparr>cs_srv = demo_srv, cs_world = [], cs_count = 0, cs_handled = []\<rparr>"

lemma demo_client: "bus_client mem_streams B"
  by (simp add: bus_client_def mem_stream_laws)

lemma collect_succeeds: "succeeds collect"
  by (simp add: succeeds_def collect_def)

lemma demo_has: "x_has mem_streams demo_srv (b_stream demo_bus) (b_group demo_bus)"
  by code_simp


text \<open>
  Nothing published is ever lost between the processes of a group. From the moment the group
  exists, in every state reachable by publishing, polling, claiming, handling, failing and killing in
  any order, a published message is undelivered, pending, or was handled.
\<close>

lemma published_is_owed_or_handled:
  assumes "bus_client X B" "plane_start X B p" "(plane_step X B H)\<^sup>*\<^sup>* p p'"
  shows "set (pl_published p') \<subseteq> owed_ids X B (pl_srv p') \<union> set (pl_handled p')"
proof -
  have "bus_client.nothing_lost X B p"
    using assms(2) by (simp add: bus_client.nothing_lost_def [OF assms(1)] plane_start_def)
  from bus_client.run_keeps [OF assms(1,3) this] show ?thesis
    by (simp add: bus_client.nothing_lost_def [OF assms(1)] owed_ids [OF assms(1)])
qed

definition demo_plane :: "(smem, string list) plane" where
  "demo_plane = \<lparr>pl_srv = demo_srv, pl_world = [], pl_batch = (\<lambda>k. []), pl_published = [], pl_handled = []\<rparr>"

lemma demo_readable: "readable (x_pel mem_streams demo_srv ''forecasts'' ''persister'' @ x_waiting mem_streams demo_srv ''forecasts'' ''persister'')"
proof -
  have "x_pel mem_streams demo_srv ''forecasts'' ''persister'' @ x_waiting mem_streams demo_srv ''forecasts'' ''persister''
    = [(''1'', [(Str ''payload'', Str ''a'')]), (''2'', [(Str ''payload'', Str ''b'')])]" by code_simp
  then show ?thesis by (simp add: readable_def payload_of_def PAYLOAD_FIELD_def)
qed

lemma demo_plane_start: "plane_start mem_streams demo_bus demo_plane"
  using demo_has demo_readable by (simp add: plane_start_def demo_plane_def demo_bus_def)

lemma demo_published:
  "plane_step mem_streams demo_bus collect demo_plane (demo_plane\<lparr>pl_srv := snd (bus_publish mem_streams demo_bus demo_srv ''c''),
     pl_published := [''3'']\<rparr>)"
proof -
  have "length (x_entries mem_streams demo_srv (b_stream demo_bus)) < b_maxlen demo_bus" by code_simp
  moreover have "fst (bus_publish mem_streams demo_bus demo_srv ''c'') = ''3''" by code_simp
  ultimately show ?thesis
    using plane_step.published [of mem_streams demo_plane demo_bus "''c''" "''3''" "snd (bus_publish mem_streams demo_bus demo_srv ''c'')" collect]
    by (simp add: demo_plane_def prod_eq_iff)
qed

lemma demo_run:
  "(plane_step mem_streams demo_bus collect)\<^sup>*\<^sup>* demo_plane (demo_plane\<lparr>pl_srv := snd (bus_publish mem_streams demo_bus demo_srv ''c''),
     pl_published := [''3'']\<rparr>)"
  by (rule r_into_rtranclp, rule demo_published)

lemma published_is_owed_or_handled_witness:
  "''3'' \<in> owed_ids mem_streams demo_bus (snd (bus_publish mem_streams demo_bus demo_srv ''c''))"
  using published_is_owed_or_handled [OF demo_client demo_plane_start demo_run]
  by (simp add: demo_plane_def)



text \<open>
  The length cap is not only about memory. Two messages published to a stream capped at one
  entry, before the group's consumer polls: the first is evicted undelivered, and a consumer that then
  runs handles the second only, with nothing left to deliver.
\<close>

lemma maxlen_evicts_undelivered:
  "let B = demo_bus\<lparr>b_maxlen := 1\<rparr>;
       s = (case ensure_group mem_streams B [] of Inr s \<Rightarrow>
              snd (bus_publish mem_streams B (snd (bus_publish mem_streams B s ''first'')) ''second''));
       c = snd (run_consumer mem_streams B collect None 0 5 [True, False]
              \<lparr>cs_srv = s, cs_world = [], cs_count = 0, cs_handled = []\<rparr>)
   in cs_world c = [''second''] \<and> pending_count mem_streams B (cs_srv c) = 0 \<and>
      x_waiting mem_streams (cs_srv c) (b_stream B) (b_group B) = []"
  by code_simp

end
