(* ===== verification/Auth.thy ===== *)
theory Auth
  imports Config Action
begin

text \<open>
  \<open>api/auth.py\<close> and \<open>api/deps.py\<close>: accounts, passwords, tokens and the principal of a request. The
  JWT library and bcrypt are parameters with their documented behaviour as laws; the two tables are
  lists of rows under the constraints of \<open>migrations/versions/0001_initial_schema.py\<close>, where the
  email column is case-insensitive and unique. A string is the list of its UTF-8 bytes, so the length
  bounds of a field coincide with pydantic's on ASCII text.
\<close>

section \<open>The libraries\<close>

type_synonym claims = "(string, tree) dict"

record jwt =
  j_encode :: "claims \<Rightarrow> string \<Rightarrow> string \<Rightarrow> string"
  j_decode :: "int \<Rightarrow> string \<Rightarrow> string \<Rightarrow> string \<Rightarrow> claims option"

record bcrypt =
  bc_hash :: "string \<Rightarrow> string \<Rightarrow> string"
  bc_check :: "string \<Rightarrow> string \<Rightarrow> bool res"

text \<open>A signed token reads back under its key while it has not expired; \<open>now\<close> is in seconds.\<close>

locale jwt_laws =
  fixes W :: jwt
  assumes decode_fresh: "map_of c ''exp'' = Some (TInt t) \<Longrightarrow> now < t \<Longrightarrow> j_decode W now (j_encode W c k a) k a = Some c"
    and decode_expired: "map_of c ''exp'' = Some (TInt t) \<Longrightarrow> t < now \<Longrightarrow> j_decode W now (j_encode W c k a) k a = None"

locale bcrypt_laws =
  fixes Y :: bcrypt
  assumes check_hash: "bc_check Y p (bc_hash Y salt p) = Inr True"

section \<open>Constants and configuration\<close>

definition DEFAULT_ROLE :: string where "DEFAULT_ROLE = ''analyst''"
definition ACCESS_TOKEN_TYPE :: string where "ACCESS_TOKEN_TYPE = ''access''"
definition REFRESH_TOKEN_TYPE :: string where "REFRESH_TOKEN_TYPE = ''refresh''"
definition MIN_PASSWORD_BYTES :: nat where "MIN_PASSWORD_BYTES = 8"
definition MAX_PASSWORD_BYTES :: nat where "MAX_PASSWORD_BYTES = 72"

definition email_char :: "char \<Rightarrow> bool" where
  "email_char c \<longleftrightarrow> c \<noteq> CHR ''@'' \<and> \<not> is_space c"

text \<open>\<open>EMAIL_RE\<close>: a local part, one at sign, and a domain with a dot inside it.\<close>

definition EMAIL_RE :: "string \<Rightarrow> bool" where
  "EMAIL_RE s = (case partition_str (CHR ''@'') s of (local, at_sign, domain) \<Rightarrow>
     at_sign \<and> local \<noteq> [] \<and> list_all email_char local \<and> list_all email_char domain \<and>
     list_ex (\<lambda>i. domain ! i = CHR ''.'') [1..<length domain - 1])"

definition auth_config :: "tree \<Rightarrow> tree res" where
  "auth_config config = bind_res (t_get config ''auth'' (TMap [])) t_dict"

definition secret_key :: "pyconv \<Rightarrow> tree \<Rightarrow> string res" where
  "secret_key C config = bind_res (auth_config config) (\<lambda>a. bind_res (t_get a ''secret_key'' TNull) (\<lambda>secret.
     if \<not> truthy secret then Inl RuntimeError else Inr (t_str C secret)))"

definition jwt_algorithm :: "pyconv \<Rightarrow> tree \<Rightarrow> string res" where
  "jwt_algorithm C config = bind_res (auth_config config) (\<lambda>a.
     bind_res (t_get a ''algorithm'' (TStr ''HS256'')) (\<lambda>t. Inr (t_str C t)))"

text \<open>A lifetime in microseconds; \<open>timedelta\<close> rounds to the nearest one.\<close>

definition ttl_of :: "pyconv \<Rightarrow> tree \<Rightarrow> string \<Rightarrow> int \<Rightarrow> rat \<Rightarrow> int res" where
  "ttl_of C config key standard unit_us = bind_res (auth_config config) (\<lambda>a.
     bind_res (t_get a key (TInt standard)) (\<lambda>t. bind_res (t_float C t) (\<lambda>x.
       case x of Fin r \<Rightarrow> Inr (round_half_even (r * unit_us)) | NaN \<Rightarrow> Inl ValueError | _ \<Rightarrow> Inl OverflowError)))"

definition access_ttl :: "pyconv \<Rightarrow> tree \<Rightarrow> int res" where
  "access_ttl C config = ttl_of C config ''access_ttl_min'' 30 60000000"

definition refresh_ttl :: "pyconv \<Rightarrow> tree \<Rightarrow> int res" where
  "refresh_ttl C config = ttl_of C config ''refresh_ttl_days'' 7 86400000000"

section \<open>Passwords\<close>

definition password_bytes :: "string \<Rightarrow> string res" where
  "password_bytes password = (if MAX_PASSWORD_BYTES < length password then Inl ValueError else Inr password)"

definition hash_password :: "bcrypt \<Rightarrow> string \<Rightarrow> string \<Rightarrow> string res" where
  "hash_password Y salt password = bind_res (password_bytes password) (\<lambda>raw. Inr (bc_hash Y salt raw))"

definition verify_password :: "bcrypt \<Rightarrow> string \<Rightarrow> string \<Rightarrow> bool res" where
  "verify_password Y password password_hash =
     (case bind_res (password_bytes password) (\<lambda>raw. bc_check Y raw password_hash) of
        Inl ValueError \<Rightarrow> Inr False | other \<Rightarrow> other)"

section \<open>Tokens\<close>

record token_parts =
  tk_user :: string
  tk_tenant :: string
  tk_role :: string

definition token_claims :: "token_parts \<Rightarrow> string \<Rightarrow> int \<Rightarrow> int \<Rightarrow> string \<Rightarrow> claims" where
  "token_claims p token_type ttl now_us jti =
     [(''sub'', TStr (tk_user p)), (''tenant_id'', TStr (tk_tenant p)), (''role'', TStr (tk_role p)),
      (''type'', TStr token_type), (''iat'', TInt (epoch_seconds now_us)),
      (''exp'', TInt (epoch_seconds (now_us + ttl))), (''jti'', TStr jti)]"

definition encode_token ::
    "jwt \<Rightarrow> pyconv \<Rightarrow> tree \<Rightarrow> token_parts \<Rightarrow> string \<Rightarrow> int \<Rightarrow> int \<Rightarrow> string \<Rightarrow> string res" where
  "encode_token W C config p token_type ttl now_us jti =
     bind_res (secret_key C config) (\<lambda>k. bind_res (jwt_algorithm C config) (\<lambda>a.
       Inr (j_encode W (token_claims p token_type ttl now_us jti) k a)))"

definition create_access_token :: "jwt \<Rightarrow> pyconv \<Rightarrow> tree \<Rightarrow> token_parts \<Rightarrow> int \<Rightarrow> string \<Rightarrow> string res" where
  "create_access_token W C config p now_us jti =
     bind_res (access_ttl C config) (\<lambda>ttl. encode_token W C config p ACCESS_TOKEN_TYPE ttl now_us jti)"

definition create_refresh_token :: "jwt \<Rightarrow> pyconv \<Rightarrow> tree \<Rightarrow> token_parts \<Rightarrow> int \<Rightarrow> string \<Rightarrow> string res" where
  "create_refresh_token W C config p now_us jti =
     bind_res (refresh_ttl C config) (\<lambda>ttl. encode_token W C config p REFRESH_TOKEN_TYPE ttl now_us jti)"

definition credentials_error :: py_error where "credentials_error = HttpError 401"

definition decode_token :: "jwt \<Rightarrow> pyconv \<Rightarrow> tree \<Rightarrow> int \<Rightarrow> string \<Rightarrow> string \<Rightarrow> claims res" where
  "decode_token W C config now token expected_type =
     bind_res (secret_key C config) (\<lambda>k. bind_res (jwt_algorithm C config) (\<lambda>a.
       case j_decode W now token k a of
         None \<Rightarrow> Inl credentials_error
       | Some claims \<Rightarrow>
           if dict_get claims ''type'' TNull \<noteq> TStr expected_type then Inl credentials_error
           else if \<not> truthy (dict_get claims ''sub'' TNull) \<or> \<not> truthy (dict_get claims ''tenant_id'' TNull)
             then Inl credentials_error
           else Inr claims))"

section \<open>The principal of a request\<close>

record principal =
  pr_user :: string
  pr_tenant :: string
  pr_role :: string

definition principal_from_claims :: "pyconv \<Rightarrow> claims \<Rightarrow> principal res" where
  "principal_from_claims C claims =
     bind_res (dict_index claims ''sub'') (\<lambda>sub. bind_res (dict_index claims ''tenant_id'') (\<lambda>tenant.
       let role = dict_get claims ''role'' TNull in
       Inr \<lparr>pr_user = t_str C sub, pr_tenant = t_str C tenant, pr_role = (if truthy role then t_str C role else '''')\<rparr>))"

text \<open>The \<open>Authorization\<close> header as \<open>HTTPBearer\<close> splits it: a scheme and the credentials.\<close>

definition current_principal ::
    "jwt \<Rightarrow> pyconv \<Rightarrow> tree \<Rightarrow> int \<Rightarrow> (string \<times> string) option \<Rightarrow> principal res" where
  "current_principal W C config now credentials =
     (case credentials of
        None \<Rightarrow> Inl credentials_error
      | Some (scheme, token) \<Rightarrow>
          if lower scheme \<noteq> ''bearer'' then Inl credentials_error
          else bind_res (decode_token W C config now token ACCESS_TOKEN_TYPE) (principal_from_claims C))"

definition current_tenant :: "principal \<Rightarrow> string" where "current_tenant p = pr_tenant p"

definition deps_tenant_uuid :: "pyconv \<Rightarrow> string \<Rightarrow> uuid res" where
  "deps_tenant_uuid C tenant_id = (case c_uuid C tenant_id of Inl ValueError \<Rightarrow> Inl credentials_error | other \<Rightarrow> other)"

definition current_tenant_uuid :: "pyconv \<Rightarrow> principal \<Rightarrow> uuid res" where
  "current_tenant_uuid C p = deps_tenant_uuid C (current_tenant p)"

definition verify_ws_token :: "jwt \<Rightarrow> pyconv \<Rightarrow> tree \<Rightarrow> int \<Rightarrow> string \<Rightarrow> principal res" where
  "verify_ws_token W C config now token =
     bind_res (decode_token W C config now token ACCESS_TOKEN_TYPE) (principal_from_claims C)"

section \<open>Accounts\<close>

record user_row =
  us_id :: uuid
  us_tenant :: uuid
  us_email :: string
  us_hash :: string
  us_role :: string

record account_db =
  ad_tenants :: "(uuid \<times> string) list"
  ad_users :: "user_row list"

record register_request =
  rq_email :: string
  rq_password :: string
  rq_org :: string

text \<open>Building the request: every validator, in the fields' order; a failure is a \<open>ValidationError\<close>.\<close>

definition normalise_email :: "string \<Rightarrow> string res" where
  "normalise_email x = (let email = lower (strip x) in if EMAIL_RE email then Inr email else Inl ValueError)"

definition check_password_length :: "string \<Rightarrow> string res" where
  "check_password_length x = (let size = length x in
     if size < MIN_PASSWORD_BYTES then Inl ValueError
     else if MAX_PASSWORD_BYTES < size then Inl ValueError else Inr x)"

definition strip_org_name :: "string \<Rightarrow> string res" where
  "strip_org_name x = (let org_name = strip x in if org_name = [] then Inl ValueError else Inr org_name)"

definition validate_register :: "register_request \<Rightarrow> register_request res" where
  "validate_register body =
     bind_res (if 320 < length (rq_email body) then Inl ValueError else normalise_email (rq_email body)) (\<lambda>email.
     bind_res (check_password_length (rq_password body)) (\<lambda>password.
     bind_res (if length (rq_org body) < 1 \<or> 200 < length (rq_org body) then Inl ValueError
               else strip_org_name (rq_org body)) (\<lambda>org.
       Inr \<lparr>rq_email = email, rq_password = password, rq_org = org\<rparr>)))"

record account_response =
  ar_tenant :: uuid
  ar_user :: uuid
  ar_email :: string
  ar_role :: string

definition INSERT_TENANT :: "account_db \<Rightarrow> uuid \<Rightarrow> string \<Rightarrow> account_db res" where
  "INSERT_TENANT db i name =
     (if i \<in> fst ` set (ad_tenants db) then Inl IntegrityError
      else Inr (db\<lparr>ad_tenants := ad_tenants db @ [(i, name)]\<rparr>))"

definition INSERT_USER :: "account_db \<Rightarrow> user_row \<Rightarrow> account_db res" where
  "INSERT_USER db u =
     (if us_id u \<in> us_id ` set (ad_users db) \<or> lower (us_email u) \<in> (lower \<circ> us_email) ` set (ad_users db)
        \<or> us_tenant u \<notin> fst ` set (ad_tenants db) then Inl IntegrityError
      else Inr (db\<lparr>ad_users := ad_users db @ [u]\<rparr>))"

text \<open>One transaction: an \<open>IntegrityError\<close> of either insert rolls both back.\<close>

definition register ::
    "bcrypt \<Rightarrow> uuid \<Rightarrow> uuid \<Rightarrow> string \<Rightarrow> register_request \<Rightarrow> account_db \<Rightarrow> account_response res \<times> account_db" where
  "register Y tenant_id user_id salt body db =
     (case hash_password Y salt (rq_password body) of
        Inl e \<Rightarrow> (Inl e, db)
      | Inr password_hash \<Rightarrow>
          (case bind_res (INSERT_TENANT db tenant_id (rq_org body)) (\<lambda>db1.
             INSERT_USER db1 \<lparr>us_id = user_id, us_tenant = tenant_id, us_email = rq_email body,
               us_hash = password_hash, us_role = DEFAULT_ROLE\<rparr>) of
             Inl IntegrityError \<Rightarrow> (Inl (HttpError 409), db)
           | Inl e \<Rightarrow> (Inl e, db)
           | Inr db2 \<Rightarrow> (Inr \<lparr>ar_tenant = tenant_id, ar_user = user_id, ar_email = rq_email body, ar_role = DEFAULT_ROLE\<rparr>, db2)))"

record token_pair =
  tp_access :: string
  tp_refresh :: string
  tp_expires :: int

text \<open>The two tokens read the clock and draw their \<open>jti\<close> one after the other.\<close>

definition issue_tokens ::
    "jwt \<Rightarrow> pyconv \<Rightarrow> tree \<Rightarrow> token_parts \<Rightarrow> int \<times> string \<Rightarrow> int \<times> string \<Rightarrow> token_pair res" where
  "issue_tokens W C config p first second =
     bind_res (create_access_token W C config p (fst first) (snd first)) (\<lambda>access.
     bind_res (create_refresh_token W C config p (fst second) (snd second)) (\<lambda>refresh.
     bind_res (access_ttl C config) (\<lambda>ttl.
       Inr \<lparr>tp_access = access, tp_refresh = refresh, tp_expires = epoch_seconds ttl\<rparr>)))"

definition user_parts :: "pyconv \<Rightarrow> user_row \<Rightarrow> token_parts" where
  "user_parts C u = \<lparr>tk_user = c_uuid_str C (us_id u), tk_tenant = c_uuid_str C (us_tenant u),
     tk_role = (if us_role u = [] then DEFAULT_ROLE else us_role u)\<rparr>"

definition login ::
    "jwt \<Rightarrow> bcrypt \<Rightarrow> pyconv \<Rightarrow> tree \<Rightarrow> int \<times> string \<Rightarrow> int \<times> string \<Rightarrow> account_db \<Rightarrow> string \<Rightarrow> string \<Rightarrow>
     token_pair res" where
  "login W Y C config first second db email password =
     (case find (\<lambda>u. lower (us_email u) = lower (lower (strip email))) (ad_users db) of
        None \<Rightarrow> Inl credentials_error
      | Some u \<Rightarrow> bind_res (verify_password Y password (us_hash u)) (\<lambda>ok.
          if \<not> ok then Inl credentials_error
          else issue_tokens W C config (user_parts C u) first second))"

definition refresh ::
    "jwt \<Rightarrow> pyconv \<Rightarrow> tree \<Rightarrow> int \<Rightarrow> int \<times> string \<Rightarrow> int \<times> string \<Rightarrow> account_db \<Rightarrow> string \<Rightarrow> token_pair res" where
  "refresh W C config now first second db refresh_token =
     bind_res (decode_token W C config now refresh_token REFRESH_TOKEN_TYPE) (\<lambda>claims.
     bind_res (dict_index claims ''sub'') (\<lambda>sub. bind_res (dict_index claims ''tenant_id'') (\<lambda>tid.
     case bind_res (c_uuid C (t_str C sub)) (\<lambda>u. bind_res (c_uuid C (t_str C tid)) (\<lambda>t. Inr (u, t))) of
       Inl ValueError \<Rightarrow> Inl credentials_error
     | Inl e \<Rightarrow> Inl e
     | Inr (user_uuid, tenant_uuid) \<Rightarrow>
         (case find (\<lambda>u. us_id u = user_uuid \<and> us_tenant u = tenant_uuid) (ad_users db) of
            None \<Rightarrow> Inl credentials_error
          | Some u \<Rightarrow> issue_tokens W C config (user_parts C u) first second))))"

section \<open>Tokens read back as their account\<close>

definition auth_ready :: "pyconv \<Rightarrow> tree \<Rightarrow> int \<Rightarrow> int \<Rightarrow> bool" where
  "auth_ready C config att rtt \<longleftrightarrow> (\<exists>k a. secret_key C config = Inr k \<and> jwt_algorithm C config = Inr a) \<and>
     access_ttl C config = Inr att \<and> refresh_ttl C config = Inr rtt"

lemma claims_get [simp]:
  "map_of (token_claims p ty ttl us jti) ''exp'' = Some (TInt (epoch_seconds (us + ttl)))"
  "dict_get (token_claims p ty ttl us jti) ''type'' z = TStr ty"
  "dict_get (token_claims p ty ttl us jti) ''sub'' z = TStr (tk_user p)"
  "dict_get (token_claims p ty ttl us jti) ''tenant_id'' z = TStr (tk_tenant p)"
  "dict_get (token_claims p ty ttl us jti) ''role'' z = TStr (tk_role p)"
  "dict_index (token_claims p ty ttl us jti) ''sub'' = Inr (TStr (tk_user p))"
  "dict_index (token_claims p ty ttl us jti) ''tenant_id'' = Inr (TStr (tk_tenant p))"
  by (simp_all add: token_claims_def dict_get_def dict_index_def)

lemma token_types_differ [simp]: "ACCESS_TOKEN_TYPE \<noteq> REFRESH_TOKEN_TYPE" "REFRESH_TOKEN_TYPE \<noteq> ACCESS_TOKEN_TYPE"
  by (simp_all add: ACCESS_TOKEN_TYPE_def REFRESH_TOKEN_TYPE_def)

context jwt_laws
begin

lemma decode_encoded:
  assumes "encode_token W C config p ty ttl us jti = Inr token" "tk_user p \<noteq> []" "tk_tenant p \<noteq> []"
  shows "now < epoch_seconds (us + ttl) \<Longrightarrow> decode_token W C config now token ty' =
      (if ty' = ty then Inr (token_claims p ty ttl us jti) else Inl credentials_error)"
    and "epoch_seconds (us + ttl) < now \<Longrightarrow> decode_token W C config now token ty' = Inl credentials_error"
  using assms decode_fresh [of "token_claims p ty ttl us jti" "epoch_seconds (us + ttl)" now]
    decode_expired [of "token_claims p ty ttl us jti" "epoch_seconds (us + ttl)" now]
  by (auto simp: encode_token_def decode_token_def bind_res_eq_Inr)

lemma principal_back:
  "principal_from_claims C (token_claims p ty ttl us jti) =
     Inr \<lparr>pr_user = tk_user p, pr_tenant = tk_tenant p, pr_role = tk_role p\<rparr>"
  by (simp add: principal_from_claims_def Let_def)

end


lemma lower_idem [simp]: "lower (lower s) = lower s"
proof -
  have "lower_char (lower_char c) = lower_char c" for c
    by (simp add: lower_char_def Let_def)
  then show ?thesis by (simp add: lower_def)
qed

text \<open>
  What registration creates, login finds. After a registration the same email, in any case and
  with blanks around it, and the same password log in, with tokens for the account it created; a second
  registration of that email is refused with 409 and changes nothing, so no orphan tenant is left.
\<close>

lemma register_then_login:
  assumes "bcrypt_laws Y" "validate_register raw = Inr body" "register Y tenant_id user_id salt body db = (Inr account, db')"
    "lower (strip email) = rq_email body"
  shows "login W Y C config first second db' email (rq_password raw) = issue_tokens W C config
      \<lparr>tk_user = c_uuid_str C (ar_user account), tk_tenant = c_uuid_str C (ar_tenant account), tk_role = ar_role account\<rparr>
      first second \<and>
    register Y tenant_id' user_id' salt' body db' = (Inl (HttpError 409), db')"
proof -
  have pw: "rq_password body = rq_password raw" "length (rq_password raw) \<le> MAX_PASSWORD_BYTES"
    and low: "lower (rq_email body) = rq_email body"
    using assms(2) by (auto simp: validate_register_def check_password_length_def normalise_email_def Let_def
        bind_res_eq_Inr split: if_splits)
  then have h: "hash_password Y slt (rq_password body) = Inr (bc_hash Y slt (rq_password body))" for slt
    by (simp add: hash_password_def password_bytes_def)
  let ?u = "\<lparr>us_id = user_id, us_tenant = tenant_id, us_email = rq_email body,
      us_hash = bc_hash Y salt (rq_password body), us_role = DEFAULT_ROLE\<rparr>"
  obtain db1 where d1: "INSERT_TENANT db tenant_id (rq_org body) = Inr db1" and d2: "INSERT_USER db1 ?u = Inr db'"
    and acc: "account = \<lparr>ar_tenant = tenant_id, ar_user = user_id, ar_email = rq_email body, ar_role = DEFAULT_ROLE\<rparr>"
    using assms(3) h by (auto simp: register_def bind_res_eq_Inr split: sum.splits py_error.splits)
  have new: "lower (rq_email body) \<notin> (lower \<circ> us_email) ` set (ad_users db)" and users: "ad_users db' = ad_users db @ [?u]"
    using d1 d2 by (auto simp: INSERT_TENANT_def INSERT_USER_def split: if_splits)
  have f0: "find (\<lambda>u. lower (us_email u) = rq_email body) (ad_users db) = None"
    using new low by (simp add: find_None_iff image_iff) metis
  have "find P (xs @ [x]) = Some x" if "find P xs = None" "P x" for P and xs :: "user_row list" and x
    using that by (induction xs) auto
  then have f: "find (\<lambda>u. lower (us_email u) = rq_email body) (ad_users db') = Some ?u"
    using f0 low by (simp add: users)
  have v: "verify_password Y (rq_password raw) (us_hash ?u) = Inr True"
    using pw bcrypt_laws.check_hash [OF assms(1)] by (simp add: verify_password_def password_bytes_def)
  have "login W Y C config first second db' email (rq_password raw) = issue_tokens W C config (user_parts C ?u) first second"
    using f v assms(4) low by (simp add: login_def)
  then have l: "login W Y C config first second db' email (rq_password raw) = issue_tokens W C config
      \<lparr>tk_user = c_uuid_str C (ar_user account), tk_tenant = c_uuid_str C (ar_tenant account), tk_role = ar_role account\<rparr>
      first second" by (simp add: user_parts_def acc DEFAULT_ROLE_def)
  have "bind_res (INSERT_TENANT db' tenant_id' (rq_org body)) (\<lambda>db1. INSERT_USER db1 \<lparr>us_id = user_id', us_tenant = tenant_id',
      us_email = rq_email body, us_hash = bc_hash Y salt' (rq_password body), us_role = DEFAULT_ROLE\<rparr>) = Inl IntegrityError"
    by (auto simp: INSERT_TENANT_def INSERT_USER_def users)
  then show ?thesis using l h by (simp add: register_def)
qed

section \<open>Instances\<close>

instance tree :: countable
  by countable_datatype

definition demo_jwt :: jwt where
  "demo_jwt = \<lparr>j_encode = (\<lambda>c k a. nat_str (to_nat (c, k, a))),
     j_decode = (\<lambda>now t k a. case from_nat (digits_val t) of (c, k', a') \<Rightarrow>
       (if k' = k \<and> a' = a then (case map_of c ''exp'' of Some (TInt e) \<Rightarrow> if e < now then None else Some c | _ \<Rightarrow> Some c) else None))\<rparr>"

interpretation demo: jwt_laws demo_jwt
  by unfold_locales (simp_all add: demo_jwt_def)

definition demo_bcrypt :: bcrypt where
  "demo_bcrypt = \<lparr>bc_hash = (\<lambda>salt p. rev p), bc_check = (\<lambda>p h. Inr (rev p = h))\<rparr>"

interpretation demo: bcrypt_laws demo_bcrypt
  by unfold_locales (simp add: demo_bcrypt_def)

definition demo_auth_config :: tree where
  "demo_auth_config = TMap [(''auth'', TMap [(''secret_key'', TStr ''k'')])]"

lemma demo_auth_ready: "auth_ready std_conv demo_auth_config 1800000000 604800000000"
proof -
  have "round_half_even 1800000000 = 1800000000" "round_half_even 604800000000 = 604800000000"
    using round_half_even_int [of 1800000000] round_half_even_int [of 604800000000] by simp_all
  then show ?thesis
    by (simp add: auth_ready_def demo_auth_config_def secret_key_def jwt_algorithm_def access_ttl_def refresh_ttl_def
        ttl_of_def auth_config_def dict_get_def)
qed

definition demo_parts :: token_parts where
  "demo_parts = \<lparr>tk_user = ''1'', tk_tenant = ''2'', tk_role = ''analyst''\<rparr>"


lemma register_then_login_witness:
  "\<exists>account db'. register demo_bcrypt 7 8 ''s'' \<lparr>rq_email = ''a@b.c'', rq_password = ''password'', rq_org = ''o''\<rparr>
      \<lparr>ad_tenants = [], ad_users = []\<rparr> = (Inr account, db') \<and>
    login demo_jwt demo_bcrypt std_conv demo_auth_config (0, ''a'') (0, ''b'') db' '' A@B.c '' ''password'' =
      issue_tokens demo_jwt std_conv demo_auth_config \<lparr>tk_user = c_uuid_str std_conv (ar_user account),
        tk_tenant = c_uuid_str std_conv (ar_tenant account), tk_role = ar_role account\<rparr> (0, ''a'') (0, ''b'')"
proof -
  let ?body = "\<lparr>rq_email = ''a@b.c'', rq_password = ''password'', rq_org = ''o''\<rparr>"
  let ?db = "\<lparr>ad_tenants = [], ad_users = []\<rparr>"
  have v: "validate_register ?body = Inr ?body" by code_simp
  have r: "\<exists>account db'. register demo_bcrypt 7 8 ''s'' ?body ?db = (Inr account, db')"
    by (simp add: register_def hash_password_def password_bytes_def MAX_PASSWORD_BYTES_def INSERT_TENANT_def INSERT_USER_def)
  then obtain account db' where r: "register demo_bcrypt 7 8 ''s'' ?body ?db = (Inr account, db')" by blast
  have "lower (strip '' A@B.c '') = rq_email ?body" by code_simp
  from register_then_login [OF demo.bcrypt_laws_axioms v r this] r show ?thesis by fastforce
qed

end
