(* ===== verification/Ws.thy ===== *)
theory Ws
  imports Auth Schema "HOL-Library.Sublist"
begin

text \<open>
  \<open>api/ws.py\<close>: the fan-out of forecasts to open sockets. The steps of the two tasks of a socket, and of
  the consumer that feeds them, are functions on the state they share; the event loop's interleaving of
  them is any sequence of those steps. \<open>json.dumps\<close> and the decoding of a forecast are parameters.
\<close>

definition FILTER_MESSAGE :: string where "FILTER_MESSAGE = ''filter''"
definition PONG_MESSAGE :: string where "PONG_MESSAGE = ''pong''"
definition PING_MESSAGE :: string where "PING_MESSAGE = ''ping''"
definition WS_GOING_AWAY :: nat where "WS_GOING_AWAY = 1001"
definition WS_POLICY_VIOLATION :: nat where "WS_POLICY_VIOLATION = 1008"

section \<open>A subscription\<close>

text \<open>A queue entry is the host it is about, none for a control frame, and the bytes.\<close>

type_synonym queued = "string option \<times> string"

record subscription =
  sb_tenant :: string
  sb_queue :: "queued list"
  sb_hosts :: "string set option"
  sb_dropped :: nat

definition wants :: "subscription \<Rightarrow> string option \<Rightarrow> bool" where
  "wants s host_id =
     (case host_id of None \<Rightarrow> True | Some h \<Rightarrow> (case sb_hosts s of None \<Rightarrow> True | Some hosts \<Rightarrow> h \<in> hosts))"

definition set_hosts :: "string list option \<Rightarrow> subscription \<Rightarrow> subscription" where
  "set_hosts hosts s = s\<lparr>sb_hosts := (case hosts of None \<Rightarrow> None | Some hs \<Rightarrow> if set hs = {} then None else Some (set hs))\<rparr>"

text \<open>What \<open>{str(host) for host in hosts}\<close> yields on a decoded JSON node.\<close>

fun host_items :: "pyconv \<Rightarrow> tree \<Rightarrow> string list option res" where
  "host_items C TNull = Inr None"
| "host_items C (TList ts) = Inr (Some (map (t_str C) ts))"
| "host_items C (TStr s) = Inr (Some (map (\<lambda>c. [c]) s))"
| "host_items C (TMap d) = Inr (Some (keys d))"
| "host_items C t = Inl TypeError"

text \<open>\<open>asyncio.Queue.full\<close>: a queue without a positive bound is never full.\<close>

definition queue_full :: "int \<Rightarrow> queued list \<Rightarrow> bool" where
  "queue_full cap q \<longleftrightarrow> 0 < cap \<and> cap \<le> int (length q)"

fun drop_oldest :: "int \<Rightarrow> queued list \<Rightarrow> nat \<Rightarrow> queued list \<times> nat" where
  "drop_oldest cap [] n = ([], n)"
| "drop_oldest cap (e # q) n = (if queue_full cap (e # q) then drop_oldest cap q (n + 1) else (e # q, n))"

definition offer :: "int \<Rightarrow> string option \<Rightarrow> string \<Rightarrow> subscription \<Rightarrow> bool \<times> subscription" where
  "offer cap host_id payload s =
     (case drop_oldest cap (sb_queue s) 0 of (q, n) \<Rightarrow>
       (n = 0, s\<lparr>sb_queue := q @ [(host_id, payload)], sb_dropped := sb_dropped s + n\<rparr>))"

section \<open>The connection manager\<close>

record connections =
  cm_queue_size :: int
  cm_subs :: "(nat, subscription) dict"

definition connection_count :: "connections \<Rightarrow> nat" where "connection_count m = length (cm_subs m)"

definition dropped_total :: "connections \<Rightarrow> nat" where
  "dropped_total m = sum_list (map (\<lambda>p. sb_dropped (snd p)) (cm_subs m))"

text \<open>A subscription has its identity, so a registration comes with the number of the new object.\<close>

definition subscribe :: "nat \<Rightarrow> string \<Rightarrow> string list option \<Rightarrow> connections \<Rightarrow> connections" where
  "subscribe i tenant hosts m = m\<lparr>cm_subs :=
     dict_set i (set_hosts hosts \<lparr>sb_tenant = tenant, sb_queue = [], sb_hosts = None, sb_dropped = 0\<rparr>) (cm_subs m)\<rparr>"

definition unsubscribe :: "nat \<Rightarrow> connections \<Rightarrow> connections" where
  "unsubscribe i m = m\<lparr>cm_subs := filter (\<lambda>p. fst p \<noteq> i) (cm_subs m)\<rparr>"

definition broadcast :: "string \<Rightarrow> string \<Rightarrow> string \<Rightarrow> connections \<Rightarrow> nat \<times> connections" where
  "broadcast tenant host_id payload m =
     (length (filter (\<lambda>p. sb_tenant (snd p) = tenant) (cm_subs m)),
      m\<lparr>cm_subs := map (\<lambda>(i, s). (i, if sb_tenant s \<noteq> tenant then s
         else snd (offer (cm_queue_size m) (Some host_id) payload s))) (cm_subs m)\<rparr>)"

definition fanout_handle ::
    "nat \<Rightarrow> (string \<Rightarrow> forecast res) \<Rightarrow> string \<Rightarrow> (connections, unit) act" where
  "fanout_handle K load payload =
     abind (lift_res (bind_res (load payload) (validate_forecast K))) (\<lambda>f.
       updates (\<lambda>m. snd (broadcast (fc_tenant f) (fc_host f) payload m)))"

section \<open>Settings\<close>

record ws_settings =
  wo_queue_size :: int
  wo_ping_interval_s :: flt
  wo_max_missed_pongs :: int

definition read_ws_settings :: "pyconv \<Rightarrow> tree \<Rightarrow> ws_settings res" where
  "read_ws_settings C config = bind_res (sub_block config ''api'') (\<lambda>api.
     bind_res (bind_res (t_get api ''ws_queue_size'' (TInt 512)) (t_int C)) (\<lambda>cap.
     bind_res (bind_res (t_get api ''ws_ping_interval_s'' (TFloat (Fin 30))) (t_float C)) (\<lambda>interval.
     bind_res (bind_res (t_get api ''ws_max_missed_pongs'' (TInt 2)) (t_int C)) (\<lambda>missed.
       Inr \<lparr>wo_queue_size = cap, wo_ping_interval_s = interval, wo_max_missed_pongs = missed\<rparr>))))"

definition parse_hosts :: "string list option \<Rightarrow> string list option" where
  "parse_hosts hosts =
     (case hosts of None \<Rightarrow> None
      | Some vs \<Rightarrow> let selected = filter (\<lambda>p. p \<noteq> []) (map strip (concat (map (split_str (CHR '','')) vs)))
                  in if selected = [] then None else Some selected)"

section \<open>One socket\<close>

datatype ws_frame = Disconnected | Not_json | Json tree

datatype ws_out = Sent string | Closed nat

text \<open>The item the pending \<open>queue.get\<close> has taken, the unanswered pings, and whether the receiving task is over.\<close>

record socket =
  sk_slot :: "queued option"
  sk_missed :: int
  sk_receiver_over :: bool
  sk_out :: "ws_out list"

definition control :: "(tree \<Rightarrow> string) \<Rightarrow> string \<Rightarrow> (string, tree) dict \<Rightarrow> string" where
  "control dumps kind extra = dumps (TMap ((''type'', TStr kind) # extra))"

text \<open>One turn of the receiving task. An exception ends the task like a disconnect does.\<close>

definition receive_frame ::
    "pyconv \<Rightarrow> (tree \<Rightarrow> string) \<Rightarrow> int \<Rightarrow> ws_frame \<Rightarrow> subscription \<times> socket \<Rightarrow> subscription \<times> socket" where
  "receive_frame C dumps cap frame st = (case st of (sub, sk) \<Rightarrow>
     (case frame of
        Disconnected \<Rightarrow> (sub, sk\<lparr>sk_receiver_over := True\<rparr>)
      | Not_json \<Rightarrow> (sub, sk)
      | Json (TMap message) \<Rightarrow>
          (let kind = dict_get message ''type'' TNull in
           if kind = TStr PONG_MESSAGE then (sub, sk\<lparr>sk_missed := 0\<rparr>)
           else if kind = TStr FILTER_MESSAGE then
             (case host_items C (dict_get message ''hosts'' TNull) of
                Inl e \<Rightarrow> (sub, sk\<lparr>sk_receiver_over := True\<rparr>)
              | Inr hosts \<Rightarrow>
                  let sub' = set_hosts hosts sub;
                      names = (case sb_hosts sub' of None \<Rightarrow> [] | Some hs \<Rightarrow> sorted_list_of_set hs)
                  in (snd (offer cap None (control dumps FILTER_MESSAGE [(''hosts'', TList (map TStr names))]) sub'), sk))
           else (sub, sk))
      | Json other \<Rightarrow> (sub, sk)))"

text \<open>The pending \<open>queue.get\<close> completes.\<close>

definition fetch :: "subscription \<times> socket \<Rightarrow> subscription \<times> socket" where
  "fetch st = (case st of (sub, sk) \<Rightarrow> (case (sk_slot sk, sb_queue sub) of
     (None, e # q) \<Rightarrow> (sub\<lparr>sb_queue := q\<rparr>, sk\<lparr>sk_slot := Some e\<rparr>) | _ \<Rightarrow> (sub, sk)))"

text \<open>
  One turn of the sending task once its wait returned: the receiver is over, or an item is there, or the
  interval has passed. \<open>alive\<close> says whether a send reaches the peer; otherwise it raises
  \<open>WebSocketDisconnect\<close>. The flag of the result says that the task has returned.
\<close>

definition serve_turn ::
    "(tree \<Rightarrow> string) \<Rightarrow> int \<Rightarrow> bool \<Rightarrow> subscription \<times> socket \<Rightarrow> bool \<times> subscription \<times> socket" where
  "serve_turn dumps max_missed alive st = (case st of (sub, sk) \<Rightarrow>
     if sk_receiver_over sk then (True, sub, sk)
     else (case sk_slot sk of
        Some (host_id, payload) \<Rightarrow>
          let sk' = sk\<lparr>sk_slot := None\<rparr> in
          if \<not> wants sub host_id then (False, sub, sk')
          else if alive then (False, sub, sk'\<lparr>sk_out := sk_out sk' @ [Sent payload]\<rparr>)
          else (True, sub, sk')
      | None \<Rightarrow>
          if max_missed \<le> sk_missed sk then (True, sub, sk\<lparr>sk_out := sk_out sk @ [Closed WS_GOING_AWAY]\<rparr>)
          else let sk' = sk\<lparr>sk_missed := sk_missed sk + 1\<rparr> in
            if alive then (False, sub, sk'\<lparr>sk_out := sk_out sk' @ [Sent (control dumps PING_MESSAGE [])]\<rparr>)
            else (True, sub, sk')))"

section \<open>The fan-out process\<close>

record ws_app =
  wa_jwt :: jwt
  wa_conv :: pyconv
  wa_config :: tree
  wa_dumps :: "tree \<Rightarrow> string"
  wa_horizons :: nat
  wa_load :: "string \<Rightarrow> forecast res"
  wa_settings :: ws_settings

text \<open>A connection keeps the tenant its token named; sockets are numbered as they come.\<close>

record ws_world =
  ww_conns :: connections
  ww_sockets :: "(string \<times> socket) list"

datatype ws_event =
    Connect int string "string list option"
  | Publish string
  | Frame nat ws_frame
  | Fetch nat
  | Turn nat bool

definition new_socket :: socket where
  "new_socket = \<lparr>sk_slot = None, sk_missed = 0, sk_receiver_over = False, sk_out = []\<rparr>"

text \<open>\<open>stream_forecast\<close> up to the serving loop: a refused handshake is closed before it is accepted.\<close>

definition stream_forecast :: "ws_app \<Rightarrow> int \<Rightarrow> string \<Rightarrow> string list option \<Rightarrow> ws_world \<Rightarrow> ws_out list \<times> ws_world" where
  "stream_forecast A now token hosts w =
     (case verify_ws_token (wa_jwt A) (wa_conv A) (wa_config A) now token of
        Inl (HttpError n) \<Rightarrow> ([Closed WS_POLICY_VIOLATION], w)
      | Inl e \<Rightarrow> ([], w)
      | Inr p \<Rightarrow> ([], w\<lparr>ww_conns := subscribe (length (ww_sockets w)) (pr_tenant p) (parse_hosts hosts) (ww_conns w),
                        ww_sockets := ww_sockets w @ [(pr_tenant p, new_socket)]\<rparr>))"

text \<open>A step of a task of socket \<open>i\<close>, while the socket is served.\<close>

definition on_socket :: "nat \<Rightarrow> (subscription \<times> socket \<Rightarrow> bool \<times> subscription \<times> socket) \<Rightarrow> ws_world \<Rightarrow> ws_world" where
  "on_socket i step w =
     (case map_of (cm_subs (ww_conns w)) i of
        None \<Rightarrow> w
      | Some sub \<Rightarrow>
          if i < length (ww_sockets w) then
            (case step (sub, snd (ww_sockets w ! i)) of (over, sub', sk') \<Rightarrow>
               let m = (ww_conns w)\<lparr>cm_subs := dict_set i sub' (cm_subs (ww_conns w))\<rparr> in
               w\<lparr>ww_conns := (if over then unsubscribe i m else m),
                 ww_sockets := (ww_sockets w)[i := (fst (ww_sockets w ! i), sk')]\<rparr>)
          else w)"

fun ws_apply :: "ws_app \<Rightarrow> ws_world \<Rightarrow> ws_event \<Rightarrow> ws_world" where
  "ws_apply A w (Connect now token hosts) = snd (stream_forecast A now token hosts w)"
| "ws_apply A w (Publish payload) =
     w\<lparr>ww_conns := snd (fanout_handle (wa_horizons A) (wa_load A) payload (ww_conns w))\<rparr>"
| "ws_apply A w (Frame i frame) =
     on_socket i (\<lambda>st. (False, if sk_receiver_over (snd st) then st
       else receive_frame (wa_conv A) (wa_dumps A) (wo_queue_size (wa_settings A)) frame st)) w"
| "ws_apply A w (Fetch i) = on_socket i (\<lambda>st. (False, fetch st)) w"
| "ws_apply A w (Turn i alive) = on_socket i (serve_turn (wa_dumps A) (wo_max_missed_pongs (wa_settings A)) alive) w"

definition no_sockets :: "ws_app \<Rightarrow> ws_world" where
  "no_sockets A = \<lparr>ww_conns = \<lparr>cm_queue_size = wo_queue_size (wa_settings A), cm_subs = []\<rparr>, ww_sockets = []\<rparr>"

definition ws_run :: "ws_app \<Rightarrow> ws_event list \<Rightarrow> ws_world" where
  "ws_run A evs = foldl (ws_apply A) (no_sockets A) evs"

section \<open>Order and overflow of one queue\<close>

lemma drop_oldest_spec:
  "drop_oldest cap q n = (q', m) \<Longrightarrow>
    \<exists>pre. q = pre @ q' \<and> m = n + length pre \<and> \<not> queue_full cap q' \<and> (pre \<noteq> [] \<longrightarrow> 0 < cap)"
proof (induction cap q n rule: drop_oldest.induct)
  case (1 cap n)
  then show ?case by (auto simp: queue_full_def)
next
  case (2 cap e q n)
  show ?case
  proof (cases "queue_full cap (e # q)")
    case True
    with 2 obtain pre where "q = pre @ q'" "m = n + 1 + length pre" "\<not> queue_full cap q'" by auto
    with True show ?thesis by (intro exI [of _ "e # pre"]) (auto simp: queue_full_def)
  qed (use 2 in auto)
qed

datatype queue_op = Offered "string option" string | Taken

text \<open>What is taken out of a queue over a run of offers and gets.\<close>

fun queue_run :: "int \<Rightarrow> queue_op list \<Rightarrow> queued list \<times> subscription \<Rightarrow> queued list \<times> subscription" where
  "queue_run cap [] st = st"
| "queue_run cap (Offered h p # ops) (out, s) = queue_run cap ops (out, snd (offer cap h p s))"
| "queue_run cap (Taken # ops) (out, s) =
     (case fetch (s, new_socket) of (s', sk) \<Rightarrow>
        queue_run cap ops (out @ (case sk_slot sk of None \<Rightarrow> [] | Some e \<Rightarrow> [e]), s'))"

fun offered :: "queue_op list \<Rightarrow> queued list" where
  "offered [] = []"
| "offered (Offered h p # ops) = (h, p) # offered ops"
| "offered (Taken # ops) = offered ops"

definition queue_inv :: "int \<Rightarrow> queued list \<Rightarrow> queued list \<Rightarrow> subscription \<Rightarrow> bool" where
  "queue_inv cap all_in out s \<longleftrightarrow> subseq (out @ sb_queue s) all_in \<and> suffix (sb_queue s) all_in \<and>
     length out + length (sb_queue s) + sb_dropped s = length all_in \<and>
     (0 < cap \<longrightarrow> int (length (sb_queue s)) \<le> cap) \<and> (cap \<le> 0 \<longrightarrow> sb_dropped s = 0)"

lemma queue_inv_offer:
  assumes "queue_inv cap all_in out s"
  shows "queue_inv cap (all_in @ [(h, p)]) out (snd (offer cap h p s))"
proof -
  obtain q n where d: "drop_oldest cap (sb_queue s) 0 = (q, n)" by force
  from drop_oldest_spec [OF d] obtain pre where pre: "sb_queue s = pre @ q" "n = length pre"
      "\<not> queue_full cap q" "pre \<noteq> [] \<longrightarrow> 0 < cap" by auto
  have "subseq (out @ q) (out @ sb_queue s)" by (auto simp: pre(1) intro: list_emb_append_mono list_emb_append2)
  then have "subseq (out @ q) all_in" using assms by (auto simp: queue_inv_def intro: subseq_order.trans)
  then have "subseq ((out @ q) @ [(h, p)]) (all_in @ [(h, p)])" by (intro list_emb_append_mono) auto
  moreover have "suffix q all_in" using assms pre(1) by (auto simp: queue_inv_def suffix_def)
  moreover have "snd (offer cap h p s) = s\<lparr>sb_queue := q @ [(h, p)], sb_dropped := sb_dropped s + n\<rparr>"
    by (simp add: offer_def d)
  moreover have "length out + length q + (sb_dropped s + n) = length all_in"
    using assms pre(1,2) by (simp add: queue_inv_def)
  moreover have "0 < cap \<longrightarrow> int (length q) + 1 \<le> cap" using pre(3) by (auto simp: queue_full_def)
  moreover have "cap \<le> 0 \<longrightarrow> sb_dropped s + n = 0" using assms pre(2,4) by (auto simp: queue_inv_def)
  ultimately show ?thesis by (auto simp: queue_inv_def)
qed

lemma queue_run_inv:
  "queue_inv cap all_in out s \<Longrightarrow> queue_run cap ops (out, s) = (out', s') \<Longrightarrow>
    queue_inv cap (all_in @ offered ops) out' s'"
proof (induction cap ops "(out, s)" arbitrary: all_in out s rule: queue_run.induct)
  case (2 cap h p ops out s)
  from 2(1) [of "all_in @ [(h, p)]"] 2(2,3) show ?case by (simp add: queue_inv_offer)
next
  case (3 cap ops out s)
  show ?case
  proof (cases "sb_queue s")
    case Nil
    with 3 show ?thesis by (auto simp: fetch_def new_socket_def)
  next
    case (Cons e q)
    let ?st = "(s\<lparr>sb_queue := q\<rparr>, new_socket\<lparr>sk_slot := Some e\<rparr>)"
    have f: "fetch (s, new_socket) = ?st" by (simp add: fetch_def new_socket_def Cons)
    have "queue_inv cap all_in (out @ [e]) (s\<lparr>sb_queue := q\<rparr>)"
      using 3(2) Cons by (auto simp: queue_inv_def dest: suffix_ConsD)
    then show ?thesis using 3(1) [of "fst ?st" "snd ?st" all_in] 3(3) by (simp add: f)
  qed
qed simp

text \<open>
  A socket never reorders and drops only its oldest. Over any run of offers and reads, what was
  taken and what still waits is a subsequence of what was offered, in order; what waits is the newest
  part of it and at most the configured number; every entry is taken, waiting or counted as dropped,
  so with nothing counted nothing is missing; an unbounded queue never drops.
\<close>

lemma socket_queue_drops_oldest:
  assumes "queue_run cap ops ([], s) = (out, s')" "sb_queue s = []" "sb_dropped s = 0"
  shows "subseq (out @ sb_queue s') (offered ops) \<and> suffix (sb_queue s') (offered ops) \<and>
    length out + length (sb_queue s') + sb_dropped s' = length (offered ops) \<and>
    (if 0 < cap then int (length (sb_queue s')) \<le> cap else sb_dropped s' = 0) \<and>
    (if sb_dropped s' = 0 then out @ sb_queue s' = offered ops else 0 < cap)"
proof -
  have "queue_inv cap (offered ops) out s'"
    using queue_run_inv [of cap "[]" "[]" s ops out s'] assms by (simp add: queue_inv_def)
  then show ?thesis by (auto simp: queue_inv_def subseq_same_length)
qed

lemma socket_queue_drops_oldest_witness:
  "\<exists>out s'. queue_run 1 [Offered None ''a'', Offered None ''b'', Taken]
     ([], \<lparr>sb_tenant = ''t'', sb_queue = [], sb_hosts = None, sb_dropped = 0\<rparr>) = (out, s') \<and>
     length out + length (sb_queue s') + sb_dropped s' = 2"
proof -
  obtain out s' where r: "queue_run 1 [Offered None ''a'', Offered None ''b'', Taken]
     ([], \<lparr>sb_tenant = ''t'', sb_queue = [], sb_hosts = None, sb_dropped = 0\<rparr>) = (out, s')" by force
  from socket_queue_drops_oldest [OF r] r show ?thesis by fastforce
qed

section \<open>Whose bytes a socket sends\<close>

definition owned :: "ws_app \<Rightarrow> string \<Rightarrow> queued \<Rightarrow> bool" where
  "owned A tenant e \<longleftrightarrow> (case fst e of
     None \<Rightarrow> \<exists>kind extra. snd e = control (wa_dumps A) kind extra
   | Some h \<Rightarrow> \<exists>f. bind_res (wa_load A (snd e)) (validate_forecast (wa_horizons A)) = Inr f \<and> fc_tenant f = tenant \<and> fc_host f = h)"

definition owned_out :: "ws_app \<Rightarrow> string \<Rightarrow> ws_out \<Rightarrow> bool" where
  "owned_out A tenant x \<longleftrightarrow> (case x of Closed c \<Rightarrow> True | Sent p \<Rightarrow> \<exists>host. owned A tenant (host, p))"

definition owned_sub :: "ws_app \<Rightarrow> string \<Rightarrow> subscription \<Rightarrow> bool" where
  "owned_sub A tenant s \<longleftrightarrow> sb_tenant s = tenant \<and> (\<forall>e \<in> set (sb_queue s). owned A tenant e)"

definition owned_socket :: "ws_app \<Rightarrow> string \<Rightarrow> socket \<Rightarrow> bool" where
  "owned_socket A tenant k \<longleftrightarrow> (case sk_slot k of None \<Rightarrow> True | Some e \<Rightarrow> owned A tenant e) \<and>
     (\<forall>x \<in> set (sk_out k). owned_out A tenant x)"

lemma owned_control [simp]: "owned A tenant (None, control (wa_dumps A) kind extra)"
  by (auto simp: owned_def)

lemma owned_sent_control [simp]: "owned_out A tenant (Sent (control (wa_dumps A) kind extra))"
  unfolding owned_out_def by (auto intro!: exI [of _ None])

lemma owned_outI:
  "owned A tenant (host, p) \<Longrightarrow> owned_out A tenant (Sent p)" "owned_out A tenant (Closed c)"
  by (auto simp: owned_out_def)

lemma owned_offer:
  assumes "owned_sub A tenant s" "owned A tenant (h, p)"
  shows "owned_sub A tenant (snd (offer cap h p s))"
proof -
  obtain q n where d: "drop_oldest cap (sb_queue s) 0 = (q, n)" by force
  from drop_oldest_spec [OF d] have "set q \<subseteq> set (sb_queue s)" by auto
  then show ?thesis using assms by (auto simp: owned_sub_def offer_def d)
qed

lemma owned_receive:
  assumes "owned_sub A tenant s" "owned_socket A tenant k" "receive_frame C (wa_dumps A) cap frame (s, k) = (s', k')"
  shows "owned_sub A tenant s' \<and> owned_socket A tenant k'"
proof -
  have h: "owned_sub A tenant (set_hosts hs s)" for hs using assms(1) by (simp add: owned_sub_def set_hosts_def)
  show ?thesis
    using assms by (auto simp: receive_frame_def Let_def owned_socket_def intro: owned_offer [OF h]
      split: ws_frame.splits tree.splits if_splits sum.splits)
qed

lemma owned_fetch:
  "owned_sub A tenant s \<Longrightarrow> owned_socket A tenant k \<Longrightarrow> fetch (s, k) = (s', k') \<Longrightarrow>
    owned_sub A tenant s' \<and> owned_socket A tenant k'"
  by (auto simp: fetch_def owned_sub_def owned_socket_def split: option.splits list.splits)

lemma owned_turn:
  "owned_sub A tenant s \<Longrightarrow> owned_socket A tenant k \<Longrightarrow> serve_turn (wa_dumps A) m alive (s, k) = (over, s', k') \<Longrightarrow>
    owned_sub A tenant s' \<and> owned_socket A tenant k'"
  by (auto simp: serve_turn_def owned_socket_def Let_def intro: owned_outI split: option.splits prod.splits if_splits)

definition fanout_inv :: "ws_app \<Rightarrow> ws_world \<Rightarrow> bool" where
  "fanout_inv A w \<longleftrightarrow>
     (\<forall>i s. map_of (cm_subs (ww_conns w)) i = Some s \<longrightarrow> i < length (ww_sockets w) \<and> owned_sub A (fst (ww_sockets w ! i)) s) \<and>
     (\<forall>(tenant, k) \<in> set (ww_sockets w). owned_socket A tenant k)"

lemma map_of_unsubscribe [simp]:
  "map_of (cm_subs (unsubscribe i m)) j = (if j = i then None else map_of (cm_subs m) j)"
proof -
  have "map_of (filter (\<lambda>p. fst p \<noteq> i) d) j = (if j = i then None else map_of d j)" for d :: "(nat, subscription) dict"
    by (induction d) auto
  then show ?thesis by (simp add: unsubscribe_def)
qed

lemma fanout_inv_on_socket:
  assumes "fanout_inv A w"
    and step: "\<And>tenant s k over s' k'. owned_sub A tenant s \<Longrightarrow> owned_socket A tenant k \<Longrightarrow> step (s, k) = (over, s', k') \<Longrightarrow>
      owned_sub A tenant s' \<and> owned_socket A tenant k'"
  shows "fanout_inv A (on_socket i step w)"
proof (cases "map_of (cm_subs (ww_conns w)) i")
  case None
  then show ?thesis using assms(1) by (simp add: on_socket_def)
next
  case (Some s)
  obtain T k where sk: "ww_sockets w ! i = (T, k)" by force
  obtain over s' k' where st: "step (s, k) = (over, s', k')" by (metis prod_cases3)
  have i: "i < length (ww_sockets w)" "owned_sub A T s"
    using assms(1) [unfolded fanout_inv_def] Some sk by (metis fst_conv)+
  have "(T, k) \<in> set (ww_sockets w)" using i(1) sk by (metis nth_mem)
  then have "owned_socket A T k" using assms(1) by (auto simp: fanout_inv_def)
  from step [OF i(2) this st] have new: "owned_sub A T s'" "owned_socket A T k'" by auto
  have w: "on_socket i step w = w\<lparr>ww_conns := (if over then unsubscribe i else id)
        ((ww_conns w)\<lparr>cm_subs := dict_set i s' (cm_subs (ww_conns w))\<rparr>), ww_sockets := (ww_sockets w)[i := (T, k')]\<rparr>"
    by (simp add: on_socket_def Some i(1) sk st Let_def)
  have "\<forall>(tenant, k) \<in> set (ww_sockets (on_socket i step w)). owned_socket A tenant k"
    using assms(1) new(2) by (auto simp: w fanout_inv_def dest!: set_update_subset_insert [THEN subsetD])
  moreover have "j < length (ww_sockets (on_socket i step w)) \<and> owned_sub A (fst (ww_sockets (on_socket i step w) ! j)) s2"
    if "map_of (cm_subs (ww_conns (on_socket i step w))) j = Some s2" for j s2
  proof (cases "j = i")
    case True
    with that new(1) i(1) show ?thesis
      by (auto simp: w map_of_dict_set split: if_splits)
  next
    case False
    then have "map_of (cm_subs (ww_conns w)) j = Some s2"
      using that by (auto simp: w map_of_dict_set split: if_splits)
    with assms(1) False show ?thesis by (auto simp: fanout_inv_def w)
  qed
  ultimately show ?thesis by (simp add: fanout_inv_def)
qed

lemma fanout_inv_map:
  assumes "fanout_inv A w" "\<And>T s. owned_sub A T s \<Longrightarrow> owned_sub A T (g s)"
  shows "fanout_inv A (w\<lparr>ww_conns := (ww_conns w)\<lparr>cm_subs := map (\<lambda>(i, s). (i, g s)) (cm_subs (ww_conns w))\<rparr>\<rparr>)"
  using assms by (auto simp: fanout_inv_def map_of_map)

lemma fanout_inv_publish:
  assumes "fanout_inv A w"
  shows "fanout_inv A (w\<lparr>ww_conns := snd (fanout_handle (wa_horizons A) (wa_load A) p (ww_conns w))\<rparr>)"
proof (cases "bind_res (wa_load A p) (validate_forecast (wa_horizons A))")
  case (Inl e)
  then show ?thesis using assms by (simp add: fanout_handle_def act_simps)
next
  case (Inr f)
  have "owned A (fc_tenant f) (Some (fc_host f), p)" using Inr by (auto simp: owned_def)
  then have off: "owned_sub A T s \<Longrightarrow> sb_tenant s = fc_tenant f \<Longrightarrow> owned_sub A T (snd (offer cap (Some (fc_host f)) p s))" for T s cap
    by (intro owned_offer) (simp_all add: owned_sub_def)
  have "snd (fanout_handle (wa_horizons A) (wa_load A) p (ww_conns w)) = (ww_conns w)\<lparr>cm_subs := map (\<lambda>(i, s). (i,
      if sb_tenant s \<noteq> fc_tenant f then s else snd (offer (cm_queue_size (ww_conns w)) (Some (fc_host f)) p s))) (cm_subs (ww_conns w))\<rparr>"
    by (simp add: fanout_handle_def Inr act_simps broadcast_def)
  then show ?thesis using fanout_inv_map [OF assms] off by simp
qed

lemma fanout_inv_connect:
  assumes "fanout_inv A w"
  shows "fanout_inv A (snd (stream_forecast A now token hosts w))"
proof (cases "verify_ws_token (wa_jwt A) (wa_conv A) (wa_config A) now token")
  case (Inl e)
  then show ?thesis using assms by (cases e) (simp_all add: stream_forecast_def)
next
  case (Inr p)
  have "owned_sub A T (set_hosts hs \<lparr>sb_tenant = T, sb_queue = [], sb_hosts = None, sb_dropped = 0\<rparr>)" for T hs
    by (simp add: owned_sub_def set_hosts_def)
  moreover have "owned_socket A T new_socket" for T by (simp add: owned_socket_def new_socket_def)
  ultimately show ?thesis
    using assms by (auto simp: stream_forecast_def Inr fanout_inv_def subscribe_def map_of_dict_set nth_append less_Suc_eq split: if_splits)
qed

lemma fanout_inv_apply:
  assumes "fanout_inv A w"
  shows "fanout_inv A (ws_apply A w ev)"
proof (cases ev)
  case (Frame i fr)
  show ?thesis unfolding Frame ws_apply.simps
    by (rule fanout_inv_on_socket [OF assms]) (auto dest: owned_receive split: if_splits)
next
  case (Fetch i)
  show ?thesis unfolding Fetch ws_apply.simps
    by (rule fanout_inv_on_socket [OF assms]) (auto dest: owned_fetch)
next
  case (Turn i a)
  show ?thesis unfolding Turn ws_apply.simps
    by (rule fanout_inv_on_socket [OF assms]) (auto dest: owned_turn)
qed (use assms fanout_inv_publish fanout_inv_connect in auto)

lemma fanout_inv_run: "fanout_inv A (ws_run A evs)"
  unfolding ws_run_def
proof (induction evs rule: rev_induct)
  case Nil
  then show ?case by (simp add: fanout_inv_def no_sockets_def)
qed (simp add: fanout_inv_apply)

text \<open>The tenants of the sockets are those of the tokens that opened them.\<close>

definition opened_by :: "ws_app \<Rightarrow> ws_event list \<Rightarrow> string \<Rightarrow> bool" where
  "opened_by A evs tenant \<longleftrightarrow> (\<exists>now token hosts p. Connect now token hosts \<in> set evs \<and>
     verify_ws_token (wa_jwt A) (wa_conv A) (wa_config A) now token = Inr p \<and> pr_tenant p = tenant)"

lemma tenants_on_socket [simp]: "map fst (ww_sockets (on_socket i step w)) = map fst (ww_sockets w)"
proof -
  have "(map fst xs)[i := fst (xs ! i)] = map fst xs" if "i < length xs" for xs :: "(string \<times> socket) list"
    using that by (metis list_update_id map_update)
  then show ?thesis by (auto simp: on_socket_def Let_def map_update split: option.splits prod.splits)
qed

lemma tenants_apply:
  "T \<in> fst ` set (ww_sockets (ws_apply A w ev)) \<Longrightarrow> T \<in> fst ` set (ww_sockets w) \<or> opened_by A [ev] T"
proof (cases ev)
  case (Connect now token hosts)
  moreover assume "T \<in> fst ` set (ww_sockets (ws_apply A w ev))"
  ultimately show ?thesis
    by (auto simp: stream_forecast_def opened_by_def split: sum.splits py_error.splits)
qed (simp_all flip: set_map)

lemma tenants_run: "T \<in> fst ` set (ww_sockets (ws_run A evs)) \<Longrightarrow> opened_by A evs T"
  unfolding ws_run_def
proof (induction evs rule: rev_induct)
  case Nil
  then show ?case by (simp add: no_sockets_def)
next
  case (snoc ev evs)
  then show ?case
    using tenants_apply [of T A "foldl (ws_apply A) (no_sockets A) evs" ev] by (fastforce simp: opened_by_def)
qed

text \<open>
  C13. A socket only ever sends its own tenant's bytes. Whatever the handshakes, forecasts, client frames
  and task turns, in any order, each text a socket has sent is a control frame of the server or the
  bytes of a valid forecast whose tenant is the one named by the token the socket was opened with.
\<close>

theorem sockets_keep_tenants_apart:
  assumes "(tenant, sk) \<in> set (ww_sockets (ws_run A evs))" "Sent p \<in> set (sk_out sk)"
  shows "((\<exists>kind extra. p = control (wa_dumps A) kind extra) \<or>
      (\<exists>f. bind_res (wa_load A p) (validate_forecast (wa_horizons A)) = Inr f \<and> fc_tenant f = tenant)) \<and>
    (\<exists>now token hosts pr. Connect now token hosts \<in> set evs \<and>
       verify_ws_token (wa_jwt A) (wa_conv A) (wa_config A) now token = Inr pr \<and> pr_tenant pr = tenant)"
proof -
  have "owned_out A tenant (Sent p)"
    using fanout_inv_run [of A evs] assms by (auto simp: fanout_inv_def owned_socket_def)
  moreover have "opened_by A evs tenant" using assms(1) tenants_run by force
  ultimately show ?thesis by (auto simp: owned_out_def owned_def opened_by_def split: option.splits)
qed


section \<open>A concrete run\<close>

definition demo_ws_point :: horizon_point where
  "demo_ws_point = \<lparr>hp_k = 1, hp_ts = Naive 120, hp_p = Fin (3 / 4), hp_lo = Fin (1 / 2), hp_hi = Fin 1,
     hp_stages = [], hp_features = []\<rparr>"

definition demo_app :: ws_app where
  "demo_app = \<lparr>wa_jwt = \<lparr>j_encode = (\<lambda>c k a. []), j_decode = (\<lambda>now t k a.
       Some [(''type'', TStr ''access''), (''sub'', TStr ''u''), (''tenant_id'', TStr t)])\<rparr>,
     wa_conv = std_conv, wa_config = demo_auth_config, wa_dumps = (\<lambda>t. ''{}''), wa_horizons = 1,
     wa_load = (\<lambda>p. Inr \<lparr>fc_tenant = ''a'', fc_host = p, fc_origin = Aware 60, fc_horizons = [demo_ws_point],
       fc_lead = None, fc_stage = ''recon'', fc_risk = Fin (1 / 2), fc_signals = [], fc_driving = 0,
       fc_model = ''m'', fc_schema = SCHEMA_VERSION\<rparr>),
     wa_settings = \<lparr>wo_queue_size = 2, wo_ping_interval_s = Fin 30, wo_max_missed_pongs = 2\<rparr>\<rparr>"

definition demo_events :: "ws_event list" where
  "demo_events = [Connect 0 ''a'' None, Connect 0 ''b'' None, Publish ''h'', Fetch 0, Fetch 1, Turn 0 True, Turn 1 True]"

lemma demo_sockets:
  "map (\<lambda>(tenant, sk). (tenant, sk_out sk)) (ww_sockets (ws_run demo_app demo_events)) =
    [(''a'', [Sent ''h'']), (''b'', [Sent ''{}''])]"
  by code_simp

lemma sockets_keep_tenants_apart_witness:
  "\<exists>sk. (''a'', sk) \<in> set (ww_sockets (ws_run demo_app demo_events)) \<and> Sent ''h'' \<in> set (sk_out sk) \<and>
    (\<exists>f. bind_res (wa_load demo_app ''h'') (validate_forecast 1) = Inr f \<and> fc_tenant f = ''a'')"
proof -
  have "(''a'', [Sent ''h'']) \<in> set (map (\<lambda>(tenant, sk). (tenant, sk_out sk)) (ww_sockets (ws_run demo_app demo_events)))"
    by (simp add: demo_sockets)
  then obtain sk where sk: "(''a'', sk) \<in> set (ww_sockets (ws_run demo_app demo_events))" "Sent ''h'' \<in> set (sk_out sk)"
    by (force dest: sym)
  from sockets_keep_tenants_apart [OF this] sk show ?thesis by (auto simp: control_def demo_app_def)
qed

text \<open>
  A filter whose hosts are neither a list, a string, an object nor null ends the socket: the exception
  ends the receiving task, and the sending task returns on its next turn.
\<close>

lemma malformed_filter_ends_socket:
  assumes "host_items C (dict_get d ''hosts'' TNull) = Inl e" "dict_get d ''type'' TNull = TStr FILTER_MESSAGE"
  shows "fst (serve_turn dumps m alive (receive_frame C dumps cap (Json (TMap d)) (sub, sk)))"
  using assms by (simp add: receive_frame_def serve_turn_def Let_def FILTER_MESSAGE_def PONG_MESSAGE_def)

end
