(* ===== verification/RateLimit.thy ===== *)
theory RateLimit
  imports Auth
begin

text \<open>
  \<open>api/ratelimit.py\<close>: the sliding window in front of every request. The server is \<open>redis_ops\<close> of the
  port; \<open>now\<close> and the random nonce of a member are arguments. That Redis is unreachable is an input
  of the middleware, one flag per ceiling for the pipeline that opens its hit, since a server state cannot raise by itself.
\<close>

section \<open>Settings\<close>

definition EXEMPT_PATHS :: "string list" where "EXEMPT_PATHS = [''/health'', ''/metrics'']"
definition INGEST_PATH :: string where "INGEST_PATH = ''/api/v1/ingest''"
definition INGEST_METHOD :: string where "INGEST_METHOD = ''POST''"
definition GENERAL_SCOPE :: string where "GENERAL_SCOPE = ''general''"
definition INGEST_SCOPE :: string where "INGEST_SCOPE = ''ingest''"
definition KEY_PREFIX :: string where "KEY_PREFIX = ''rl''"
definition TOO_MANY :: nat where "TOO_MANY = 429"
definition MILLISECONDS :: int where "MILLISECONDS = 1000"

record limit =
  lm_scope :: string
  lm_limit :: int
  lm_window_s :: flt

definition window_ms :: "limit \<Rightarrow> int res" where
  "window_ms l = bind_res (fint (lm_window_s l * Fin (of_int MILLISECONDS))) (\<lambda>ms. Inr (max ms 1))"

record rate_settings =
  rs_enabled :: bool
  rs_general :: limit
  rs_ingest :: limit

definition limit_of :: "pyconv \<Rightarrow> tree \<Rightarrow> string \<Rightarrow> int \<Rightarrow> limit res" where
  "limit_of C block scope multiplier =
     bind_res (t_get block ''limit'' (TInt 0)) (\<lambda>l. bind_res (t_int C l) (\<lambda>n.
     bind_res (t_get block ''window_s'' (TInt 60)) (\<lambda>w. bind_res (t_float C w) (\<lambda>x.
       Inr \<lparr>lm_scope = scope, lm_limit = n * multiplier, lm_window_s = x\<rparr>))))"

definition rate_limit_settings :: "pyconv \<Rightarrow> tree \<Rightarrow> rate_settings res" where
  "rate_limit_settings C config =
     bind_res (sub_block config ''api'') (\<lambda>api. bind_res (sub_block api ''rate_limit'') (\<lambda>block.
     bind_res (is_dev C config) (\<lambda>dev.
     bind_res (if dev then bind_res (t_get block ''dev_multiplier'' (TInt 1)) (t_int C) else Inr 1) (\<lambda>multiplier.
     bind_res (t_get block ''enabled'' (TBool True)) (\<lambda>enabled.
     bind_res (bind_res (sub_block block ''general'') (\<lambda>g. limit_of C g GENERAL_SCOPE multiplier)) (\<lambda>general.
     bind_res (bind_res (sub_block block ''ingest'') (\<lambda>g. limit_of C g INGEST_SCOPE multiplier)) (\<lambda>ingest.
       Inr \<lparr>rs_enabled = truthy enabled, rs_general = general, rs_ingest = ingest\<rparr>)))))))"

section \<open>The window\<close>

record decision =
  dc_allowed :: bool
  dc_limit :: limit
  dc_remaining :: int
  dc_retry_after :: int

record request =
  rq_method :: string
  rq_path :: string
  rq_authorization :: string
  rq_client :: "string option"

definition caller_key :: "jwt \<Rightarrow> pyconv \<Rightarrow> tree \<Rightarrow> int \<Rightarrow> request \<Rightarrow> string res" where
  "caller_key W C config now req =
     (let (scheme, found, token) = partition_str (CHR '' '') (rq_authorization req);
          address = Inr (''ip:'' @ (case rq_client req of None \<Rightarrow> ''unknown'' | Some h \<Rightarrow> h))
      in if lower scheme = ''bearer'' \<and> token \<noteq> [] then
           (case decode_token W C config now (strip token) ACCESS_TOKEN_TYPE of
              Inl (HttpError n) \<Rightarrow> address
            | Inl e \<Rightarrow> Inl e
            | Inr claims \<Rightarrow> bind_res (dict_index claims ''tenant_id'') (\<lambda>t. Inr (''tenant:'' @ t_str C t)))
         else address)"

definition limit_key :: "limit \<Rightarrow> string \<Rightarrow> string" where
  "limit_key l caller = KEY_PREFIX @ '':'' @ lm_scope l @ '':'' @ caller"

definition hit_member :: "int \<Rightarrow> string \<Rightarrow> string" where
  "hit_member at_ms nonce = int_str at_ms @ ''-'' @ nonce"

text \<open>The pipeline, then the decision; \<open>w\<close> is the width of the window in milliseconds.\<close>

definition hit_ms ::
    "'s redis_ops \<Rightarrow> string \<Rightarrow> limit \<Rightarrow> int \<Rightarrow> int \<Rightarrow> string \<Rightarrow> 's \<Rightarrow> decision \<times> 's" where
  "hit_ms R caller l w at_ms nonce s =
     (let key = limit_key l caller; member = hit_member at_ms nonce;
          s1 = r_zremrangebyscore R s key 0 (at_ms - w);
          s2 = r_zadd R s1 key member at_ms;
          used = int (r_zcard R s2 key);
          s3 = r_expire R s2 key w
      in if used \<le> lm_limit l
         then (\<lparr>dc_allowed = True, dc_limit = l, dc_remaining = lm_limit l - used, dc_retry_after = 0\<rparr>, s3)
         else
           let s4 = r_zrem R s3 key member in
           (\<lparr>dc_allowed = False, dc_limit = l, dc_remaining = 0, dc_retry_after =
              (case r_zrange R s4 key of
                 oldest # rest \<Rightarrow> max 1 \<lceil>of_int (snd oldest + w - at_ms) / (of_int MILLISECONDS :: rat)\<rceil>
               | [] \<Rightarrow> max 1 (case lm_window_s l of Fin x \<Rightarrow> \<lceil>x\<rceil> | _ \<Rightarrow> 1))\<rparr>, s4))"

definition hit ::
    "'s redis_ops \<Rightarrow> string \<Rightarrow> limit \<Rightarrow> int \<Rightarrow> string \<Rightarrow> ('s, decision) act" where
  "hit R caller l at_ms nonce = (\<lambda>s. case window_ms l of
     Inl e \<Rightarrow> (Inl e, s)
   | Inr w \<Rightarrow> (case hit_ms R caller l w at_ms nonce s of (d, s') \<Rightarrow> (Inr d, s')))"

definition limits_for :: "request \<Rightarrow> rate_settings \<Rightarrow> limit list" where
  "limits_for req settings =
     (if rq_method req = INGEST_METHOD \<and> rstrip_char (CHR ''/'') (rq_path req) = INGEST_PATH
      then [rs_general settings, rs_ingest settings] else [rs_general settings])"

section \<open>The middleware\<close>

definition applies_to :: "rate_settings \<Rightarrow> request \<Rightarrow> bool" where
  "applies_to settings req \<longleftrightarrow> rs_enabled settings \<and> rq_path req \<notin> set EXEMPT_PATHS"

text \<open>The loop over the ceilings: a ceiling comes with its random nonce and whether Redis answers.\<close>

fun check_limits ::
    "'s redis_ops \<Rightarrow> string \<Rightarrow> int \<Rightarrow> (limit \<times> string \<times> bool) list \<Rightarrow> ('s, decision option) act" where
  "check_limits R caller at_ms [] = ret None"
| "check_limits R caller at_ms ((l, nonce, answers) # rest) =
     (if \<not> answers then ret None
      else abind (hit R caller l at_ms nonce) (\<lambda>d.
        if \<not> dc_allowed d then ret (Some d) else check_limits R caller at_ms rest))"

definition check ::
    "jwt \<Rightarrow> pyconv \<Rightarrow> 's redis_ops \<Rightarrow> tree \<Rightarrow> rate_settings \<Rightarrow> request \<Rightarrow> int \<Rightarrow> int \<Rightarrow> (string \<times> bool) list \<Rightarrow>
     ('s, decision option) act" where
  "check W C R config settings req now at_ms draws =
     abind (lift_res (caller_key W C config now req)) (\<lambda>caller.
       check_limits R caller at_ms (zip (limits_for req settings) draws))"

datatype verdict = Pass | Refused nat int

definition too_many :: "decision \<Rightarrow> verdict" where
  "too_many d = Refused TOO_MANY (dc_retry_after d)"

definition limiter_call ::
    "jwt \<Rightarrow> pyconv \<Rightarrow> 's redis_ops \<Rightarrow> tree \<Rightarrow> rate_settings \<Rightarrow> request \<Rightarrow> int \<Rightarrow> int \<Rightarrow> (string \<times> bool) list \<Rightarrow>
     ('s, verdict) act" where
  "limiter_call W C R config settings req now at_ms draws =
     (if \<not> applies_to settings req then ret Pass
      else abind (check W C R config settings req now at_ms draws) (\<lambda>d.
        ret (case d of None \<Rightarrow> Pass | Some dec \<Rightarrow> too_many dec)))"

section \<open>One hit\<close>

context redis_laws
begin

lemma zadd_new:
  assumes "m \<notin> fst ` set (r_zrange R s k)"
  shows "set (r_zrange R (r_zadd R s k m t) k) = insert (m, t) (set (r_zrange R s k))"
  using assms by (force simp: zadd_same)

lemma zrem_added:
  assumes "m \<notin> fst ` set (r_zrange R s k)"
  shows "set (r_zrange R (r_zrem R (r_expire R (r_zadd R s k m t) k w) k m) k) = set (r_zrange R s k)"
  using assms by (force simp: zrem_same zadd_new)

text \<open>The entries left of a window at an instant.\<close>

definition live :: "'s \<Rightarrow> string \<Rightarrow> int \<Rightarrow> int \<Rightarrow> (string \<times> int) list" where
  "live s key w t = filter (\<lambda>e. \<not> (0 \<le> snd e \<and> snd e \<le> t - w)) (r_zrange R s key)"

lemma hit_run:
  assumes "hit_member t x \<notin> fst ` set (r_zrange R s (limit_key l caller))"
    "hit_ms R caller l w t x s = (d, s')"
  shows "dc_allowed d \<longleftrightarrow> int (length (live s (limit_key l caller) w t)) < lm_limit l"
    and "set (r_zrange R s' (limit_key l caller)) =
      (if dc_allowed d then insert (hit_member t x, t) else id) (set (live s (limit_key l caller) w t))"
    and "\<not> dc_allowed d \<Longrightarrow> live s (limit_key l caller) w t \<noteq> [] \<Longrightarrow>
      dc_retry_after d = max 1 \<lceil>of_int (Min (snd ` set (live s (limit_key l caller) w t)) + w - t) / (1000 :: rat)\<rceil>"
    and "k \<noteq> limit_key l caller \<Longrightarrow> r_view R s' k = r_view R s k"
proof -
  let ?k = "limit_key l caller" and ?m = "hit_member t x"
  let ?s1 = "r_zremrangebyscore R s ?k 0 (t - w)"
  let ?s3 = "r_expire R (r_zadd R ?s1 ?k ?m t) ?k w"
  have l1: "r_zrange R ?s1 ?k = live s ?k w t" by (simp add: zremrange_same live_def)
  have fr: "?m \<notin> fst ` set (r_zrange R ?s1 ?k)" using assms(1) by (auto simp: l1 live_def)
  have used: "int (r_zcard R (r_zadd R ?s1 ?k ?m t) ?k) = int (length (live s ?k w t)) + 1"
    using zadd_length [OF fr] by (simp add: zcard_length l1)
  have al: "dc_allowed d \<longleftrightarrow> int (length (live s ?k w t)) + 1 \<le> lm_limit l"
    and s': "s' = (if dc_allowed d then ?s3 else r_zrem R ?s3 ?k ?m)"
    using assms(2) used by (auto simp: hit_ms_def Let_def split: if_splits)
  show "dc_allowed d \<longleftrightarrow> int (length (live s ?k w t)) < lm_limit l" using al by linarith
  show "set (r_zrange R s' ?k) = (if dc_allowed d then insert (?m, t) else id) (set (live s ?k w t))"
    using zadd_new [OF fr, of t] zrem_added [OF fr, of t w] by (simp add: s' l1)
  show "r_view R s' k = r_view R s k" if "k \<noteq> ?k"
    using that by (simp add: s' frames)
  show "dc_retry_after d = max 1 \<lceil>of_int (Min (snd ` set (live s ?k w t)) + w - t) / (1000 :: rat)\<rceil>"
    if n: "\<not> dc_allowed d" "live s ?k w t \<noteq> []"
  proof -
    have st: "set (r_zrange R (r_zrem R ?s3 ?k ?m) ?k) = set (live s ?k w t)" using zrem_added [OF fr, of t w] by (simp add: l1)
    then obtain o1 os where os: "r_zrange R (r_zrem R ?s3 ?k ?m) ?k = o1 # os"
      using n(2) by (metis list.exhaust set_empty)
    have "sorted (map snd (o1 # os))" using zrange_sorted [of "r_zrem R ?s3 ?k ?m" ?k] by (simp only: os)
    then have "snd o1 = Min (snd ` set (o1 # os))" by (intro Min_eqI [symmetric]) auto
    moreover have "set (o1 # os) = set (live s ?k w t)" using st by (simp only: os)
    ultimately have "snd o1 = Min (snd ` set (live s ?k w t))" by (simp only:)
    then show ?thesis
      using assms(2) used n(1) al os by (auto simp: hit_ms_def Let_def MILLISECONDS_def split: if_splits)
  qed
qed

text \<open>What has been granted so far, against what the server holds after a hit at \<open>last\<close>.\<close>

definition window_inv :: "int \<Rightarrow> int \<Rightarrow> string \<Rightarrow> 's \<Rightarrow> (string \<times> int) list \<Rightarrow> int \<Rightarrow> bool" where
  "window_inv n w key s A t0 \<longleftrightarrow> set (r_zrange R s key) \<subseteq> set A \<and>
     (\<forall>e \<in> set A. t0 - w < snd e \<longrightarrow> e \<in> set (r_zrange R s key)) \<and> (\<forall>e \<in> set A. 0 \<le> snd e \<and> snd e \<le> t0) \<and>
     distinct (map fst A) \<and>
     (\<forall>T. int (length (filter (\<lambda>e. T - w < snd e \<and> snd e \<le> T) A)) \<le> n)"

lemma window_inv_hit:
  assumes "window_inv (lm_limit l) w (limit_key l caller) s A t0" "t0 \<le> t" "0 \<le> t"
    "hit_member t x \<notin> fst ` set A" "hit_ms R caller l w t x s = (d, s')"
  shows "window_inv (lm_limit l) w (limit_key l caller) s' (A @ (if dc_allowed d then [(hit_member t x, t)] else [])) t"
proof -
  let ?k = "limit_key l caller"
  have A: "set (r_zrange R s ?k) \<subseteq> set A" "\<forall>e \<in> set A. t0 - w < snd e \<longrightarrow> e \<in> set (r_zrange R s ?k)"
    "\<forall>e \<in> set A. 0 \<le> snd e \<and> snd e \<le> t0" "distinct (map fst A)"
    "\<And>T. int (length (filter (\<lambda>e. T - w < snd e \<and> snd e \<le> T) A)) \<le> lm_limit l"
    using assms(1) by (simp_all add: window_inv_def)
  have fr: "hit_member t x \<notin> fst ` set (r_zrange R s ?k)" using assms(4) A(1) by auto
  note run = hit_run [OF fr assms(5)]
  have lv: "set (live s ?k w t) = set (filter (\<lambda>e. t - w < snd e) A)"
    using A(1,2,3) assms(2) by (auto simp: live_def)
  have "distinct (live s ?k w t)" using zrange_distinct [of s ?k] by (simp add: live_def distinct_map)
  moreover have "distinct (filter (\<lambda>e. t - w < snd e) A)" using A(4) by (simp add: distinct_map)
  ultimately have len: "length (live s ?k w t) = length (filter (\<lambda>e. t - w < snd e) A)"
    using lv by (metis distinct_card)
  have bound: "int (length (filter (\<lambda>e. T - w < snd e \<and> snd e \<le> T) (A @ [(hit_member t x, t)]))) \<le> lm_limit l"
    if "dc_allowed d" for T
  proof (cases "T - w < t \<and> t \<le> T")
    case True
    then have "length (filter (\<lambda>e. T - w < snd e \<and> snd e \<le> T) A) \<le> length (filter (\<lambda>e. t - w < snd e) A)"
      by (intro length_filter_mono) auto
    with run(1) that len show ?thesis by simp
  next
    case False
    then show ?thesis using A(5) [of T] by auto
  qed
  let ?A = "A @ (if dc_allowed d then [(hit_member t x, t)] else [])"
  have now: "set (r_zrange R s' ?k) = (if dc_allowed d then {(hit_member t x, t)} else {}) \<union> {e \<in> set A. t - w < snd e}"
    using run(2) by (auto simp: lv)
  have "set (r_zrange R s' ?k) \<subseteq> set ?A" by (auto simp: now)
  moreover have "\<forall>e \<in> set ?A. t - w < snd e \<longrightarrow> e \<in> set (r_zrange R s' ?k)" by (auto simp: now)
  moreover have "\<forall>e \<in> set ?A. 0 \<le> snd e \<and> snd e \<le> t" using A(3) assms(2,3) by fastforce
  moreover have "distinct (map fst ?A)" using A(4) assms(4) by auto
  moreover have "\<forall>T. int (length (filter (\<lambda>e. T - w < snd e \<and> snd e \<le> T) ?A)) \<le> lm_limit l"
    using bound A(5) by (cases "dc_allowed d") (simp_all del: filter_append)
  ultimately show ?thesis unfolding window_inv_def by blast
qed

end

text \<open>The hits of one caller against one ceiling, one after the other.\<close>

fun hits :: "'s redis_ops \<Rightarrow> string \<Rightarrow> limit \<Rightarrow> int \<Rightarrow> (int \<times> string) list \<Rightarrow> 's \<Rightarrow> decision list \<times> 's" where
  "hits R caller l w [] s = ([], s)"
| "hits R caller l w ((t, x) # hs) s =
     (case hit_ms R caller l w t x s of (d, s') \<Rightarrow> (case hits R caller l w hs s' of (ds, s'') \<Rightarrow> (d # ds, s'')))"

definition granted :: "(int \<times> string) list \<Rightarrow> decision list \<Rightarrow> (string \<times> int) list" where
  "granted hs ds = map (\<lambda>(h, d). (hit_member (fst h) (snd h), fst h)) (filter (\<lambda>(h, d). dc_allowed d) (zip hs ds))"

context redis_laws
begin

lemma window_inv_hits:
  assumes "window_inv (lm_limit l) w (limit_key l caller) s A t0" "sorted (t0 # map fst hs)" "0 \<le> t0"
    "distinct (map fst A @ map (\<lambda>h. hit_member (fst h) (snd h)) hs)" "hits R caller l w hs s = (ds, s')"
  shows "window_inv (lm_limit l) w (limit_key l caller) s' (A @ granted hs ds) (last (t0 # map fst hs))"
  using assms
proof (induction hs arbitrary: s A t0 ds)
  case Nil
  then show ?case by (auto simp: granted_def)
next
  case (Cons h hs)
  obtain t x where h: "h = (t, x)" by force
  obtain d s1 where d: "hit_ms R caller l w t x s = (d, s1)" by force
  obtain ds' where ds: "hits R caller l w hs s1 = (ds', s')" "ds = d # ds'"
    using Cons.prems(5) by (auto simp: h d split: prod.splits)
  let ?A = "A @ (if dc_allowed d then [(hit_member t x, t)] else [])"
  have "window_inv (lm_limit l) w (limit_key l caller) s1 ?A t"
    using Cons.prems(1-4) by (intro window_inv_hit [OF _ _ _ _ d]) (auto simp: h)
  moreover have "sorted (t # map fst hs)" "0 \<le> t" using Cons.prems(2,3) by (auto simp: h)
  moreover have "distinct (map fst ?A @ map (\<lambda>h. hit_member (fst h) (snd h)) hs)" using Cons.prems(4) by (auto simp: h)
  ultimately have "window_inv (lm_limit l) w (limit_key l caller) s' (?A @ granted hs ds') (last (t # map fst hs))"
    using Cons.IH [OF _ _ _ _ ds(1)] by blast
  moreover have "?A @ granted hs ds' = A @ granted (h # hs) ds" by (simp add: granted_def ds(2) h)
  ultimately show ?case by (simp add: h)
qed

end

text \<open>
  C10. The sliding window holds for every window, not only the aligned ones. Over any sequence of
  requests of one caller against one ceiling, with the clock not running backwards, any interval of
  the window's width contains at most \<open>limit\<close> granted requests.
\<close>

theorem sliding_window_bound:
  assumes "redis_laws R F" "r_zrange R s (limit_key l caller) = []" "0 \<le> lm_limit l" "sorted (0 # map fst hs)"
    "distinct (map (\<lambda>h. hit_member (fst h) (snd h)) hs)" "hits R caller l w hs s = (ds, s')"
  shows "int (length (filter (\<lambda>e. T - w < snd e \<and> snd e \<le> T) (granted hs ds))) \<le> lm_limit l"
proof -
  have "redis_laws.window_inv R (lm_limit l) w (limit_key l caller) s [] 0"
    using assms(2,3) by (simp add: redis_laws.window_inv_def [OF assms(1)])
  from redis_laws.window_inv_hits [OF assms(1) this assms(4) _ _ assms(6)] assms(5)
  show ?thesis by (auto simp: redis_laws.window_inv_def [OF assms(1)])
qed

definition demo_limit :: limit where
  "demo_limit = \<lparr>lm_scope = ''general'', lm_limit = 1, lm_window_s = Fin 1\<rparr>"

lemma mem_empty_zset [simp]: "r_zrange std_redis [] k = []"
  by (simp add: std_redis_def mem_redis_def m_entry_def no_entry_def dict_get_def uniq_def z_sort_def)

lemma sliding_window_bound_witness:
  "int (length (filter (\<lambda>e. 0 < snd e \<and> snd e \<le> 1000) (granted [(100, ''a''), (600, ''b''), (1200, ''c'')]
     (fst (hits std_redis ''ip:x'' demo_limit 1000 [(100, ''a''), (600, ''b''), (1200, ''c'')] []))))) \<le> 1"
proof -
  let ?hs = "[(100 :: int, ''a''), (600, ''b''), (1200, ''c'')]"
  obtain ds s' where run: "hits std_redis ''ip:x'' demo_limit 1000 ?hs [] = (ds, s')" by force
  have d: "distinct (map (\<lambda>h. hit_member (fst h) (snd h)) ?hs)" by (simp add: hit_member_def)
  show ?thesis
    using sliding_window_bound [OF std.redis_laws_axioms mem_empty_zset _ _ d run, of 1000]
    by (simp add: demo_limit_def [symmetric] run del: hits.simps) (simp add: demo_limit_def)
qed

context redis_laws
begin

lemma refused_leaves:
  assumes "window_inv (lm_limit l) w (limit_key l caller) s A t0" "sorted (t0 # map fst hs)" "0 \<le> t0"
    "distinct (map fst A @ map (\<lambda>h. hit_member (fst h) (snd h)) hs)" "hits R caller l w hs s = (ds, s')"
    "\<forall>d \<in> set ds. \<not> dc_allowed d"
  shows "set (r_zrange R s' (limit_key l caller)) \<subseteq> set A"
proof -
  have "granted hs ds = []" using assms(6) by (auto simp: granted_def filter_empty_conv dest: set_zip_rightD)
  with window_inv_hits [OF assms(1-5)] show ?thesis by (auto simp: window_inv_def)
qed

lemma retry_hit_allowed:
  assumes "window_inv (lm_limit l) w (limit_key l caller) s1 A t0" "t0 \<le> t" "0 \<le> t"
    "hit_member t x \<notin> fst ` set A" "hit_ms R caller l w t x s1 = (d, s2)" "\<not> dc_allowed d" "1 \<le> lm_limit l"
    "set (r_zrange R s3 (limit_key l caller)) \<subseteq> set A" "t + 1000 * dc_retry_after d \<le> t'"
    "hit_member t' x' \<notin> fst ` set A" 
  shows "dc_allowed (fst (hit_ms R caller l w t' x' s3))"
proof -
  let ?k = "limit_key l caller"
  have A: "set (r_zrange R s1 ?k) \<subseteq> set A" "\<forall>e \<in> set A. t0 - w < snd e \<longrightarrow> e \<in> set (r_zrange R s1 ?k)"
    "\<forall>e \<in> set A. 0 \<le> snd e \<and> snd e \<le> t0" "distinct (map fst A)"
    "int (length (filter (\<lambda>e. t - w < snd e \<and> snd e \<le> t) A)) \<le> lm_limit l"
    using assms(1) by (simp_all add: window_inv_def)
  have fr: "hit_member t x \<notin> fst ` set (r_zrange R s1 ?k)" using assms(4) A(1) by auto
  have fr': "hit_member t' x' \<notin> fst ` set (r_zrange R s3 ?k)" using assms(8,10) by auto
  note run = hit_run [OF fr assms(5)]
  have ne: "live s1 ?k w t \<noteq> []" using run(1) assms(6,7) by auto
  have "Min (snd ` set (live s1 ?k w t)) \<in> snd ` set (live s1 ?k w t)" using ne by (intro Min_in) auto
  then obtain z where z: "z \<in> set (live s1 ?k w t)" "snd z = Min (snd ` set (live s1 ?k w t))" by force
  have zA: "z \<in> set A" "t - w < snd z" "snd z \<le> t" using z(1) A(1,3) assms(2) by (fastforce simp: live_def)+
  have "of_int (snd z + w - t) / 1000 \<le> (of_int (dc_retry_after d) :: rat)"
    using run(3) [OF assms(6) ne] z(2) by (simp add: ceiling_le_iff [symmetric] del: of_int_diff of_int_add)
  then have "(of_int (snd z + w - t) :: rat) \<le> of_int (1000 * dc_retry_after d)" by (simp add: field_simps)
  then have "snd z + w - t \<le> 1000 * dc_retry_after d" by (simp only: of_int_le_iff)
  then have old: "snd z \<le> t' - w" using assms(9) by linarith
  have mono: "t \<le> t'" using assms(9) run(3) [OF assms(6) ne] by linarith
  have "length (live s3 ?k w t') \<le> length (filter (\<lambda>e. t' - w < snd e) A)"
  proof -
    have "distinct (live s3 ?k w t')" using zrange_distinct [of s3 ?k] by (simp add: live_def distinct_map)
    moreover have "distinct (filter (\<lambda>e. t' - w < snd e) A)" using A(4) by (simp add: distinct_map)
    moreover have "set (live s3 ?k w t') \<subseteq> set (filter (\<lambda>e. t' - w < snd e) A)"
      using assms(8) A(3) by (fastforce simp: live_def)
    ultimately show ?thesis by (metis List.finite_set card_mono distinct_card)
  qed
  also have "\<dots> < length (filter (\<lambda>e. t - w < snd e \<and> snd e \<le> t) A)"
    using A(3) assms(2) mono old zA by (intro length_filter_strict_mono [of _ _ _ z]) fastforce+
  finally have "int (length (live s3 ?k w t')) < lm_limit l" using A(5) by linarith
  moreover obtain d' s4 where d': "hit_ms R caller l w t' x' s3 = (d', s4)" by force
  ultimately show ?thesis using hit_run(1) [OF fr' d'] by simp
qed

end

lemma granted_members: "fst ` set (granted hs ds) \<subseteq> (\<lambda>h. hit_member (fst h) (snd h)) ` set hs"
  by (force simp: granted_def dest: set_zip_leftD)

lemma granted_distinct:
  assumes "distinct (map (\<lambda>h. hit_member (fst h) (snd h)) hs)"
  shows "distinct (map fst (granted hs ds))"
  using assms
proof (induction hs arbitrary: ds)
  case (Cons h hs)
  show ?case
  proof (cases ds)
    case (Cons e es)
    note ds = Cons
    have "fst ` set (granted hs es) \<subseteq> (\<lambda>h. hit_member (fst h) (snd h)) ` set hs" by (rule granted_members)
    moreover have "granted (h # hs) ds =
        (if dc_allowed e then [(hit_member (fst h) (snd h), fst h)] else []) @ granted hs es"
      by (simp add: granted_def ds)
    ultimately show ?thesis using Cons.prems Cons.IH [of es] by auto
  qed (simp add: granted_def)
qed (simp add: granted_def)

text \<open>
  The answer to a throttled caller is honest. Whoever waits \<open>Retry-After\<close> seconds after a refusal
  is let through, however many more requests of its own were refused meanwhile.
\<close>

lemma retry_after_suffices:
  assumes "redis_laws R F" "r_zrange R s (limit_key l caller) = []" "1 \<le> lm_limit l"
    "sorted (0 # map fst (hs @ (t, x) # later))"
    "distinct (map (\<lambda>h. hit_member (fst h) (snd h)) (hs @ (t, x) # later @ [(t', x')]))"
    "hits R caller l w hs s = (ds, s1)" "hit_ms R caller l w t x s1 = (d, s2)" "\<not> dc_allowed d"
    "hits R caller l w later s2 = (ds', s3)" "\<forall>e \<in> set ds'. \<not> dc_allowed e"
    "t + 1000 * dc_retry_after d \<le> t'"
  shows "dc_allowed (fst (hit_ms R caller l w t' x' s3))"
proof -
  have "redis_laws.window_inv R (lm_limit l) w (limit_key l caller) s [] 0"
    using assms(2,3) by (simp add: redis_laws.window_inv_def [OF assms(1)])
  moreover have srt: "sorted (0 # map fst hs)" "sorted (t # map fst later)" and "0 \<le> t" and "\<forall>u \<in> set (map fst hs). u \<le> t"
    using assms(4) by (auto simp: sorted_append)
  moreover from this have le: "last (0 # map fst hs) \<le> t" "0 \<le> t" by (metis last.simps last_in_set)+
  ultimately have inv: "redis_laws.window_inv R (lm_limit l) w (limit_key l caller) s1 (granted hs ds) (last (0 # map fst hs))"
    using redis_laws.window_inv_hits [OF assms(1) _ srt(1) _ _ assms(6), of "[]"] assms(5) by simp
  have fr: "hit_member t x \<notin> fst ` set (granted hs ds)" "hit_member t' x' \<notin> fst ` set (granted hs ds)"
    using assms(5) granted_members [of hs ds] by auto
  have "redis_laws.window_inv R (lm_limit l) w (limit_key l caller) s2 (granted hs ds) t"
    using redis_laws.window_inv_hit [OF assms(1) inv le fr(1) assms(7)] assms(8) by simp
  moreover have "distinct (map fst (granted hs ds) @ map (\<lambda>h. hit_member (fst h) (snd h)) later)"
  proof -
    have d: "distinct (map (\<lambda>h. hit_member (fst h) (snd h)) hs)" "distinct (map (\<lambda>h. hit_member (fst h) (snd h)) later)"
      "(\<lambda>h. hit_member (fst h) (snd h)) ` set hs \<inter> (\<lambda>h. hit_member (fst h) (snd h)) ` set later = {}"
      using assms(5) by (simp, simp, simp)
    have "fst ` set (granted hs ds) \<inter> (\<lambda>h. hit_member (fst h) (snd h)) ` set later = {}"
      using d(3) granted_members [of hs ds] by blast
    with d granted_distinct [OF d(1)] show ?thesis by simp
  qed
  ultimately have "set (r_zrange R s3 (limit_key l caller)) \<subseteq> set (granted hs ds)"
    using redis_laws.refused_leaves [OF assms(1) _ srt(2) le(2) _ assms(9,10)] by blast
  then show ?thesis
    by (rule redis_laws.retry_hit_allowed [OF assms(1) inv le fr(1) assms(7,8,3) _ assms(11) fr(2)])
qed

lemma retry_after_suffices_witness:
  "dc_allowed (fst (hit_ms std_redis ''ip:x'' demo_limit 1000 1100 ''d''
     (snd (hits std_redis ''ip:x'' demo_limit 1000 [(600, ''c'')]
       (snd (hit_ms std_redis ''ip:x'' demo_limit 1000 100 ''b''
         (snd (hits std_redis ''ip:x'' demo_limit 1000 [(50, ''a'')] []))))))))"
proof -
  have d: "distinct (map (\<lambda>h. hit_member (fst h) (snd h)) ([(50, ''a'')] @ (100, ''b'') # [(600, ''c'')] @ [(1100, ''d'')]))"
    by (simp add: hit_member_def)
  let ?r1 = "hits std_redis ''ip:x'' demo_limit 1000 [(50, ''a'')] []"
  let ?r2 = "hit_ms std_redis ''ip:x'' demo_limit 1000 100 ''b'' (snd ?r1)"
  let ?r3 = "hits std_redis ''ip:x'' demo_limit 1000 [(600, ''c'')] (snd ?r2)"
  have r: "\<not> dc_allowed (fst ?r2)" "\<forall>e \<in> set (fst ?r3). \<not> dc_allowed e" "100 + 1000 * dc_retry_after (fst ?r2) \<le> 1100"
    by code_simp+
  show ?thesis
    using retry_after_suffices [OF std.redis_laws_axioms mem_empty_zset _ _ d
      prod.collapse [symmetric] prod.collapse [symmetric] r(1) prod.collapse [symmetric] r(2,3)]
    by (simp add: demo_limit_def)
qed

text \<open>
  A refused upload still counts against the general ceiling. The hit that the ingest ceiling refuses
  has left its entry in the window of the general one, which is only removed by the ceiling that refuses:
  a caller that keeps uploading past its five an hour uses up its general allowance.
\<close>

lemma refused_upload_is_counted:
  assumes "redis_laws R F" "window_ms g = Inr wg" "lm_scope g = GENERAL_SCOPE" "lm_scope i = INGEST_SCOPE"
    "hit_member t x \<notin> fst ` set (r_zrange R s (limit_key g caller))"
    "check_limits R caller t [(g, x, True), (i, y, True)] s = (Inr (Some d), s')" "dc_limit d = i"
  shows "set (r_zrange R s' (limit_key g caller)) =
    insert (hit_member t x, t) {e \<in> set (r_zrange R s (limit_key g caller)). \<not> (0 \<le> snd e \<and> snd e \<le> t - wg)}"
proof -
  obtain dg s1 where g: "hit_ms R caller g wg t x s = (dg, s1)" by force
  have "dc_limit dg = g" using g by (auto simp: hit_ms_def Let_def split: if_splits)
  then have "dc_limit dg \<noteq> i" using assms(3,4) by (auto simp: GENERAL_SCOPE_def INGEST_SCOPE_def)
  have hg: "hit R caller g t x s = (Inr dg, s1)" by (simp add: hit_def assms(2) g)
  moreover obtain r s2 where hi: "hit R caller i t y s1 = (r, s2)" by force
  ultimately have ok: "dc_allowed dg" and "r = Inr d" "s2 = s'"
    using assms(6) \<open>dc_limit dg \<noteq> i\<close> assms(7) by (auto simp: abind_def ret_def split: if_splits sum.splits)
  then obtain wi where i: "hit_ms R caller i wi t y s1 = (d, s')"
    using hi by (auto simp: hit_def split: sum.splits prod.splits)
  have "limit_key g caller \<noteq> limit_key i caller"
    using assms(3,4) by (simp add: limit_key_def GENERAL_SCOPE_def INGEST_SCOPE_def)
  then have "r_view R s' (limit_key g caller) = r_view R s1 (limit_key g caller)"
    using i by (auto simp: hit_ms_def Let_def redis_laws.frames [OF assms(1)] split: if_splits)
  from redis_laws.view_zrange [OF assms(1) this]
  show ?thesis
    using redis_laws.hit_run(2) [OF assms(1,5) g] ok by (simp add: redis_laws.live_def [OF assms(1)])
qed

definition demo_ingest :: limit where
  "demo_ingest = \<lparr>lm_scope = ''ingest'', lm_limit = 0, lm_window_s = Fin 1\<rparr>"

lemma refused_upload_is_counted_witness:
  "set (r_zrange std_redis (snd (check_limits std_redis ''ip:x'' 100 [(demo_limit, ''a'', True), (demo_ingest, ''b'', True)] []))
     (limit_key demo_limit ''ip:x'')) = {(hit_member 100 ''a'', 100)}"
proof -
  have w: "window_ms demo_limit = Inr 1000" by code_simp
  have d: "dc_limit (case check_limits std_redis ''ip:x'' 100 [(demo_limit, ''a'', True), (demo_ingest, ''b'', True)] [] of
      (Inr (Some d), s) \<Rightarrow> d) = demo_ingest"
    and run: "check_limits std_redis ''ip:x'' 100 [(demo_limit, ''a'', True), (demo_ingest, ''b'', True)] [] =
      (Inr (Some (case check_limits std_redis ''ip:x'' 100 [(demo_limit, ''a'', True), (demo_ingest, ''b'', True)] [] of
        (Inr (Some d), s) \<Rightarrow> d)), snd (check_limits std_redis ''ip:x'' 100 [(demo_limit, ''a'', True), (demo_ingest, ''b'', True)] []))"
    by code_simp+
  show ?thesis
    using refused_upload_is_counted [OF std.redis_laws_axioms w _ _ _ run d]
    by (simp add: demo_limit_def demo_ingest_def GENERAL_SCOPE_def INGEST_SCOPE_def del: check_limits.simps)
qed

end
