(* ===== verification/Metrics.thy ===== *)
theory Metrics
  imports Ws Bus RateLimit "HOL-Library.Product_Lexorder"
begin

text \<open>
  \<open>api/metrics.py\<close> and the parts of \<open>api/main.py\<close> that use it: the request counter, the pending count
  of every consumer group, the exposition text, the backlog monitor and the status \<open>/health\<close> reports.
  The answer of Redis to a pending query is an argument, an exception included.
\<close>

definition STREAM_CONSUMERS :: "(string \<times> string \<times> string) list" where
  "STREAM_CONSUMERS =
    [(''ingest_jobs'', ''ingest_jobs'', ''ingest''),
     (''raw_events'', ''raw_events'', ''features''),
     (''state_vectors'', ''state_vectors'', ''inference''),
     (''forecasts'', ''forecasts'', ''persister''),
     (''forecasts:api'', ''forecasts'', ''api'')]"

section \<open>Requests\<close>

type_synonym request_counter = "(string \<times> nat, nat) dict"

definition upper_char :: "char \<Rightarrow> char" where
  "upper_char c = (let n = of_char c :: nat in if 97 \<le> n \<and> n \<le> 122 then char_of (n - 32) else c)"

definition observe_request :: "string \<Rightarrow> nat \<Rightarrow> request_counter \<Rightarrow> request_counter" where
  "observe_request verb status_code counts =
     (let k = (map upper_char verb, status_code) in dict_set k (dict_get counts k 0 + 1) counts)"

definition requests_total :: "request_counter \<Rightarrow> nat" where
  "requests_total counts = sum_list (map snd counts)"

definition request_items :: "request_counter \<Rightarrow> (string \<times> nat \<times> nat) list" where
  "request_items counts = map (\<lambda>((verb, status), count). (verb, status, count)) (sort counts)"

section \<open>Lag\<close>

text \<open>\<open>pending\<close> is what \<open>Bus(redis, stream, group=group).pending_count()\<close> answers.\<close>

fun stream_lag_of ::
    "pyconv \<Rightarrow> tree \<Rightarrow> (string \<Rightarrow> string \<Rightarrow> nat res) \<Rightarrow> (string \<times> string \<times> string) list \<Rightarrow> (string, nat) dict \<Rightarrow> (string, nat) dict res" where
  "stream_lag_of C config pending [] lag = Inr lag"
| "stream_lag_of C config pending ((label, key, grp) # rest) lag =
     bind_res (stream_name C key config) (\<lambda>name.
       case pending name grp of
         Inr n \<Rightarrow> stream_lag_of C config pending rest (dict_set label n lag)
       | Inl e \<Rightarrow> if e = RedisError \<or> e = ResponseError then stream_lag_of C config pending rest (dict_set label 0 lag)
                  else Inl e)"

definition stream_lag :: "pyconv \<Rightarrow> tree \<Rightarrow> (string \<Rightarrow> string \<Rightarrow> nat res) \<Rightarrow> (string, nat) dict res" where
  "stream_lag C config pending = stream_lag_of C config pending STREAM_CONSUMERS []"

definition HEALTH_OK :: string where "HEALTH_OK = ''ok''"
definition HEALTH_DEGRADED :: string where "HEALTH_DEGRADED = ''degraded''"

definition lag_status :: "pyconv \<Rightarrow> tree \<Rightarrow> (string \<Rightarrow> string \<Rightarrow> nat res) \<Rightarrow> (string \<times> (string, nat) dict) res" where
  "lag_status C config pending =
     (case stream_lag C config pending of
        Inr lag \<Rightarrow> Inr (HEALTH_OK, lag)
      | Inl e \<Rightarrow> if e = RedisError \<or> e = ResponseError then Inr (HEALTH_DEGRADED, []) else Inl e)"

section \<open>The exposition text\<close>

definition newline :: string where "newline = [CHR 0x0A]"

fun join_str :: "string \<Rightarrow> string list \<Rightarrow> string" where
  "join_str sep [] = []"
| "join_str sep [x] = x"
| "join_str sep (x # y # xs) = x @ sep @ join_str sep (y # xs)"

definition quoted :: "string \<Rightarrow> string" where "quoted s = [CHR 0x22] @ s @ [CHR 0x22]"

definition render :: "request_counter \<Rightarrow> nat \<Rightarrow> nat \<Rightarrow> (string, nat) dict \<Rightarrow> string" where
  "render requests ws_connections ws_dropped lag =
     join_str newline (
       [''# HELP nidra_http_requests_total HTTP requests served by this process.'',
        ''# TYPE nidra_http_requests_total counter'']
       @ map (\<lambda>(verb, status, count). ''nidra_http_requests_total{method='' @ quoted verb @ '',status='' @
           quoted (nat_str status) @ ''} '' @ nat_str count) (request_items requests)
       @ [''# HELP nidra_websocket_connections Open forecast-stream sockets.'',
        ''# TYPE nidra_websocket_connections gauge'',
        ''nidra_websocket_connections '' @ nat_str ws_connections,
        ''# HELP nidra_websocket_dropped_total Forecasts dropped by the drop-oldest policy.'',
        ''# TYPE nidra_websocket_dropped_total counter'',
        ''nidra_websocket_dropped_total '' @ nat_str ws_dropped,
        ''# HELP nidra_stream_pending Unacknowledged messages in each stream'' @ [CHR 0x27] @ ''s consumer group.'',
        ''# TYPE nidra_stream_pending gauge'']
       @ map (\<lambda>(stream, count). ''nidra_stream_pending{stream='' @ quoted stream @ ''} '' @ nat_str count) lag) @ newline"

definition metrics_body :: "pyconv \<Rightarrow> tree \<Rightarrow> (string \<Rightarrow> string \<Rightarrow> nat res) \<Rightarrow> request_counter \<Rightarrow> connections \<Rightarrow> string res" where
  "metrics_body C config pending requests conns =
     bind_res (lag_status C config pending) (\<lambda>(status, lag).
       Inr (render requests (connection_count conns) (dropped_total conns) lag))"

section \<open>Backpressure\<close>

record streak =
  st_started_at :: flt
  st_last_value :: int
  st_warned_at :: "flt option"

type_synonym backlog = "(string, streak) dict"

definition growing :: "backlog \<Rightarrow> string list" where
  "growing streaks = sorted_list_of_set (set (keys (filter (\<lambda>p. st_warned_at (snd p) \<noteq> None) streaks)))"

text \<open>One stream's sample: the new streak, and whether it warns now.\<close>

definition sample :: "flt \<Rightarrow> flt \<Rightarrow> int \<Rightarrow> streak option \<Rightarrow> streak \<times> bool" where
  "sample warn_after_s now v streak =
     (case streak of
        None \<Rightarrow> (\<lparr>st_started_at = now, st_last_value = v, st_warned_at = None\<rparr>, False)
      | Some s \<Rightarrow>
          if v \<le> st_last_value s then (\<lparr>st_started_at = now, st_last_value = v, st_warned_at = None\<rparr>, False)
          else
            let s' = s\<lparr>st_last_value := v\<rparr> in
            if now - st_started_at s < warn_after_s then (s', False)
            else (case st_warned_at s of
                Some w \<Rightarrow> if now - w < warn_after_s then (s', False) else (s'\<lparr>st_warned_at := Some now\<rparr>, True)
              | None \<Rightarrow> (s'\<lparr>st_warned_at := Some now\<rparr>, True)))"

fun observe_lag :: "flt \<Rightarrow> flt \<Rightarrow> (string, nat) dict \<Rightarrow> backlog \<Rightarrow> string list \<times> backlog" where
  "observe_lag warn_after_s now [] streaks = ([], streaks)"
| "observe_lag warn_after_s now ((stream, n) # lag) streaks =
     (case sample warn_after_s now (int n) (map_of streaks stream) of (s, warns) \<Rightarrow>
        (case observe_lag warn_after_s now lag (dict_set stream s streaks) of (warned, streaks') \<Rightarrow>
          ((if warns then [stream] else []) @ warned, streaks')))"

definition backlog_settings :: "pyconv \<Rightarrow> tree \<Rightarrow> (flt \<times> flt) res" where
  "backlog_settings C config = bind_res (sub_block config ''api'') (\<lambda>api.
     bind_res (bind_res (t_get api ''backlog_poll_s'' (TInt 5)) (t_float C)) (\<lambda>poll.
     bind_res (bind_res (t_get api ''backlog_warn_after_s'' (TInt 30)) (t_float C)) (\<lambda>warn.
       Inr (poll, warn))))"

text \<open>One round of \<open>BacklogWatch._run\<close>; a failing sample changes nothing.\<close>

definition watch_round ::
    "pyconv \<Rightarrow> tree \<Rightarrow> (string \<Rightarrow> string \<Rightarrow> nat res) \<Rightarrow> flt \<Rightarrow> flt \<Rightarrow> (backlog, unit) act" where
  "watch_round C config pending warn_after_s now = (\<lambda>streaks. case stream_lag C config pending of
     Inr lag \<Rightarrow> (Inr (), snd (observe_lag warn_after_s now lag streaks))
   | Inl e \<Rightarrow> (if e = RedisError \<or> e = ResponseError then Inr () else Inl e, streaks))"

text \<open>The two middlewares: the counter is the outer one, so a throttled request is counted too.\<close>

definition count_requests ::
    "jwt \<Rightarrow> pyconv \<Rightarrow> 's redis_ops \<Rightarrow> tree \<Rightarrow> rate_settings \<Rightarrow> request \<Rightarrow> int \<Rightarrow> int \<Rightarrow> (string \<times> bool) list \<Rightarrow>
     (request \<Rightarrow> nat) \<Rightarrow> ('s \<times> request_counter, nat) act" where
  "count_requests W C R config settings req now at_ms draws route = (\<lambda>(s, counts).
     case limiter_call W C R config settings req now at_ms draws s of
       (Inl e, s') \<Rightarrow> (Inl e, (s', counts))
     | (Inr verdict, s') \<Rightarrow>
         let status = (case verdict of Pass \<Rightarrow> route req | Refused code retry \<Rightarrow> code) in
         (Inr status, (s', observe_request (rq_method req) status counts)))"

section \<open>What the monitor reports\<close>

text \<open>A stream's samples, newest first, cut to the run of strictly growing counts that ends in the newest.\<close>

fun rising :: "(flt \<times> int) list \<Rightarrow> (flt \<times> int) list" where
  "rising [] = []"
| "rising [x] = [x]"
| "rising (x # y # r) = (if snd y < snd x then x # rising (y # r) else [x])"

definition over :: "flt \<Rightarrow> (flt \<times> int) list \<Rightarrow> bool" where
  "over warn_after_s h \<longleftrightarrow> (\<exists>x \<in> set (butlast (rising h)). \<not> fst x - fst (last (rising h)) < warn_after_s)"

text \<open>The samples a stream has had over a sequence of rounds, newest first.\<close>

fun history :: "string \<Rightarrow> (flt \<times> (string, nat) dict) list \<Rightarrow> (flt \<times> int) list \<Rightarrow> (flt \<times> int) list" where
  "history stream [] h = h"
| "history stream ((now, lag) # rounds) h =
     history stream rounds (case map_of lag stream of None \<Rightarrow> h | Some n \<Rightarrow> (now, int n) # h)"

definition observe_rounds :: "flt \<Rightarrow> (flt \<times> (string, nat) dict) list \<Rightarrow> backlog \<Rightarrow> backlog" where
  "observe_rounds warn_after_s rounds streaks =
     foldl (\<lambda>b (now, lag). snd (observe_lag warn_after_s now lag b)) streaks rounds"

definition tracks :: "flt \<Rightarrow> (flt \<times> int) list \<Rightarrow> streak option \<Rightarrow> bool" where
  "tracks warn_after_s h streak \<longleftrightarrow> (case streak of None \<Rightarrow> h = [] | Some s \<Rightarrow> h \<noteq> [] \<and>
     st_last_value s = snd (hd h) \<and> st_started_at s = fst (last (rising h)) \<and>
     (st_warned_at s \<noteq> None \<longleftrightarrow> over warn_after_s h))"

lemma wf_observe_lag: "wf_dict b \<Longrightarrow> wf_dict (snd (observe_lag W now lag b))"
proof (induction lag arbitrary: b)
  case (Cons p lag)
  obtain k n where p: "p = (k, n)" by force
  obtain s warns where s: "sample W now (int n) (map_of b k) = (s, warns)" by force
  have "wf_dict (snd (observe_lag W now lag (dict_set k s b)))"
    by (rule Cons.IH) (use Cons.prems in auto)
  then show ?case by (auto simp: p s split: prod.split)
qed simp

lemma wf_observe_rounds: "wf_dict b \<Longrightarrow> wf_dict (observe_rounds W rounds b)"
  unfolding observe_rounds_def
proof (induction rounds arbitrary: b)
  case (Cons r rounds)
  then show ?case using wf_observe_lag by (cases r) simp
qed simp

lemma rising_Nil [simp]: "rising h = [] \<longleftrightarrow> h = []"
  by (induction h rule: rising.induct) auto

lemma over_Cons:
  "h \<noteq> [] \<Longrightarrow> over W ((now, v) # h) \<longleftrightarrow>
    snd (hd h) < v \<and> (\<not> now - fst (last (rising h)) < W \<or> over W h)"
  by (cases h) (auto simp: over_def)

lemma tracks_sample:
  assumes "tracks W h streak" "sample W now v streak = (s, warns)"
  shows "tracks W ((now, v) # h) (Some s)"
proof (cases streak)
  case None
  with assms show ?thesis by (auto simp: tracks_def sample_def over_def)
next
  case (Some s0)
  with assms(1) have h: "h \<noteq> []" "st_last_value s0 = snd (hd h)" "st_started_at s0 = fst (last (rising h))"
    "st_warned_at s0 \<noteq> None \<longleftrightarrow> over W h" by (auto simp: tracks_def)
  have "rising ((now, v) # h) = (if snd (hd h) < v then (now, v) # rising h else [(now, v)])"
    using h(1) by (cases h) auto
  then show ?thesis
    using assms(2) h Some by (auto simp: tracks_def sample_def over_Cons Let_def split: if_splits option.splits)
qed

lemma tracks_observe:
  assumes "distinct (keys lag)"
  shows "tracks W h (map_of streaks stream) \<Longrightarrow>
    tracks W (history stream [(now, lag)] h) (map_of (snd (observe_lag W now lag streaks)) stream)"
  using assms
proof (induction lag arbitrary: streaks h)
  case (Cons p lag)
  obtain k n where p: "p = (k, n)" by force
  obtain s warns where s: "sample W now (int n) (map_of streaks k) = (s, warns)" by force
  show ?case
  proof (cases "k = stream")
    case True
    then have "map_of lag stream = None" using Cons.prems(2) by (simp add: p map_of_eq_None_iff)
    with Cons.IH [of "(now, int n) # h" "dict_set k s streaks"] tracks_sample [OF Cons.prems(1)] Cons.prems(2) s True
    show ?thesis by (auto simp: p map_of_dict_set split: prod.splits)
  next
    case False
    with Cons.IH [of h "dict_set k s streaks"] Cons.prems s show ?thesis
      by (auto simp: p map_of_dict_set split: prod.splits)
  qed
qed simp

lemma history_Cons: "history stream (r # rounds) h = history stream rounds (history stream [r] h)"
  by (cases r) simp

lemma tracks_rounds:
  assumes "\<forall>(now, lag) \<in> set rounds. distinct (keys lag)" "tracks W h (map_of streaks stream)"
  shows "tracks W (history stream rounds h) (map_of (observe_rounds W rounds streaks) stream)"
  using assms
proof (induction rounds arbitrary: streaks h)
  case (Cons r rounds)
  obtain now lag where r: "r = (now, lag)" by force
  from Cons.prems have "tracks W (history stream [r] h) (map_of (snd (observe_lag W now lag streaks)) stream)"
    unfolding r by (intro tracks_observe) auto
  from Cons.IH [OF _ this] Cons.prems(1) show ?case
    by (subst history_Cons) (simp add: observe_rounds_def r)
qed (simp add: observe_rounds_def)

text \<open>
  Backpressure is flagged exactly for sustained growth. After any samples, a stream is reported by
  \<open>/health\<close> if and only if its counts have strictly risen at every sample from some sample on up to the
  newest one, and some sample of that run came at least \<open>backlog_warn_after_s\<close> after the run began. A count that
  held or fell ends the report.
\<close>

lemma growing_iff_sustained:
  assumes "\<forall>(now, lag) \<in> set rounds. distinct (keys lag)"
  shows "stream \<in> set (growing (observe_rounds W rounds [])) \<longleftrightarrow> over W (history stream rounds [])"
proof -
  have wf: "wf_dict (observe_rounds W rounds [])" by (simp add: wf_observe_rounds)
  have "stream \<in> set (growing b) \<longleftrightarrow> (\<exists>s. map_of b stream = Some s \<and> st_warned_at s \<noteq> None)" if "wf_dict b" for b
    using that by (force simp: growing_def wf_dict_def)
  moreover have "tracks W (history stream rounds []) (map_of (observe_rounds W rounds []) stream)"
    using tracks_rounds [OF assms, of W "[]" "[]" stream] by (simp add: tracks_def)
  ultimately show ?thesis using wf by (auto simp: tracks_def over_def split: option.splits)
qed

lemma growing_iff_sustained_witness:
  "''s'' \<in> set (growing (observe_rounds (Fin 30) [(Fin 0, [(''s'', 1)]), (Fin 20, [(''s'', 2)]), (Fin 40, [(''s'', 3)])] []))"
proof -
  have "over (Fin 30) (history ''s'' [(Fin 0, [(''s'', 1)]), (Fin 20, [(''s'', 2)]), (Fin 40, [(''s'', 3)])] [])"
    by code_simp
  then show ?thesis by (subst growing_iff_sustained) simp_all
qed

text \<open>
  \<open>/health\<close> never says \<open>degraded\<close>: \<open>stream_lag\<close> takes a dropped connection for an empty backlog.
\<close>

lemma stream_name_errors: "stream_name C key config \<noteq> Inl RedisError" "stream_name C key config \<noteq> Inl ResponseError"
proof -
  have g: "t_get t k z = Inl e \<Longrightarrow> e = AttributeError" for t k z e by (cases t) auto
  have "section_get config ''streams'' key = Inl e \<Longrightarrow> e = AttributeError" for e
    unfolding section_get_def using g by (auto simp: bind_res_def split: sum.splits)
  then show "stream_name C key config \<noteq> Inl RedisError" "stream_name C key config \<noteq> Inl ResponseError"
    unfolding stream_name_def by (auto simp: bind_res_def split: sum.splits)
qed

lemma lag_status_never_degraded:
  assumes "lag_status C config pending = Inr (status, lag)"
  shows "status = HEALTH_OK"
proof -
  have "stream_lag_of C config pending cs l \<noteq> Inl RedisError \<and> stream_lag_of C config pending cs l \<noteq> Inl ResponseError" for cs l
  proof (induction cs arbitrary: l)
    case (Cons c cs)
    obtain label key grp where c: "c = (label, key, grp)" by (cases c) auto
    show ?case
      using Cons.IH stream_name_errors [of C key config]
      by (cases "stream_name C key config") (auto simp: c split: sum.split)
  qed simp
  then show ?thesis using assms by (auto simp: lag_status_def stream_lag_def split: sum.splits if_splits)
qed

end
