(* ===== verification/ApiForecasts.thy ===== *)
theory ApiForecasts
  imports Persister Config "HOL-Library.Multiset"
begin

text \<open>
  \<open>api/forecasts.py\<close>: the history, one forecast in full, and the current risk of every host. The three
  statements read the rows the persister writes; a promoted column may be null for an older row.
  PostgreSQL's order on a float column has NaN above every number, and \<open>NULLS LAST\<close> in both directions.
  A request FastAPI refuses by its declared bounds is a 422.
\<close>

section \<open>The rows\<close>

record api_row =
  ap_tenant :: uuid
  ap_host :: string
  ap_origin :: int
  ap_risk :: "flt option"
  ap_stage :: "string option"
  ap_max_p :: "flt option"
  ap_lead :: "flt option"
  ap_model :: "string option"
  ap_payload :: string

definition api_row_of :: "forecast_row \<Rightarrow> api_row" where
  "api_row_of r = \<lparr>ap_tenant = fr_tenant r, ap_host = fr_host r, ap_origin = fr_origin r, ap_risk = Some (fr_risk r),
     ap_stage = Some (fr_stage r), ap_max_p = Some (fr_max_p r), ap_lead = fr_lead r, ap_model = Some (fr_model r),
     ap_payload = fr_payload r\<rparr>"

definition api_key :: "api_row \<Rightarrow> uuid \<times> string \<times> int" where
  "api_key r = (ap_tenant r, ap_host r, ap_origin r)"

section \<open>ORDER BY\<close>

text \<open>Sorting by a strict \<open>before\<close> that need not be an order of the whole row; ties keep their place.\<close>

fun place :: "('a \<Rightarrow> 'a \<Rightarrow> bool) \<Rightarrow> 'a \<Rightarrow> 'a list \<Rightarrow> 'a list" where
  "place before x [] = [x]"
| "place before x (y # ys) = (if before y x then y # place before x ys else x # y # ys)"

fun order_by :: "('a \<Rightarrow> 'a \<Rightarrow> bool) \<Rightarrow> 'a list \<Rightarrow> 'a list" where
  "order_by before [] = []"
| "order_by before (x # xs) = place before x (order_by before xs)"

datatype sort_order = Desc | Asc
datatype host_sort = By_risk | By_observed_risk | By_host | By_last_seen

datatype column = Null | Num flt | Txt string | Stamp int

fun flt_rank :: "flt \<Rightarrow> nat \<times> rat" where
  "flt_rank NInf = (0, 0)"
| "flt_rank (Fin x) = (1, x)"
| "flt_rank PInf = (2, 0)"
| "flt_rank NaN = (3, 0)"

fun column_less :: "column \<Rightarrow> column \<Rightarrow> bool" where
  "column_less (Num x) (Num y) = (fst (flt_rank x) < fst (flt_rank y) \<or>
     (fst (flt_rank x) = fst (flt_rank y) \<and> snd (flt_rank x) < snd (flt_rank y)))"
| "column_less (Txt x) (Txt y) = (x < y)"
| "column_less (Stamp x) (Stamp y) = (x < y)"
| "column_less a b = False"

definition column_before :: "sort_order \<Rightarrow> column \<Rightarrow> column \<Rightarrow> bool" where
  "column_before order a b =
     (if a = Null then False else if b = Null then True
      else case order of Desc \<Rightarrow> column_less b a | Asc \<Rightarrow> column_less a b)"

definition HOST_SORT_COLUMNS :: "host_sort \<Rightarrow> api_row \<Rightarrow> column" where
  "HOST_SORT_COLUMNS col r =
     (case col of
        By_risk \<Rightarrow> (case ap_max_p r of None \<Rightarrow> Null | Some x \<Rightarrow> Num x)
      | By_observed_risk \<Rightarrow> (case ap_risk r of None \<Rightarrow> Null | Some x \<Rightarrow> Num x)
      | By_host \<Rightarrow> Txt (ap_host r)
      | By_last_seen \<Rightarrow> Stamp (ap_origin r))"

definition host_before :: "host_sort \<Rightarrow> sort_order \<Rightarrow> api_row \<Rightarrow> api_row \<Rightarrow> bool" where
  "host_before col order a b =
     (let x = HOST_SORT_COLUMNS col a; y = HOST_SORT_COLUMNS col b in
      column_before order x y \<or> (\<not> column_before order y x \<and> ap_host a < ap_host b))"

definition history_before :: "sort_order \<Rightarrow> api_row \<Rightarrow> api_row \<Rightarrow> bool" where
  "history_before order a b =
     ((case order of Desc \<Rightarrow> ap_origin b < ap_origin a | Asc \<Rightarrow> ap_origin a < ap_origin b) \<or>
      (ap_origin a = ap_origin b \<and> ap_host a < ap_host b))"

section \<open>The statements\<close>

definition LIST_FILTER :: "uuid \<Rightarrow> string option \<Rightarrow> int option \<Rightarrow> int option \<Rightarrow> api_row \<Rightarrow> bool" where
  "LIST_FILTER tenant host since until r \<longleftrightarrow> ap_tenant r = tenant \<and>
     (case host of None \<Rightarrow> True | Some h \<Rightarrow> ap_host r = h) \<and>
     (case since of None \<Rightarrow> True | Some t \<Rightarrow> t \<le> ap_origin r) \<and>
     (case until of None \<Rightarrow> True | Some t \<Rightarrow> ap_origin r < t)"

definition COUNT_FORECASTS :: "api_row list \<Rightarrow> uuid \<Rightarrow> string option \<Rightarrow> int option \<Rightarrow> int option \<Rightarrow> nat" where
  "COUNT_FORECASTS rows tenant host since until = length (filter (LIST_FILTER tenant host since until) rows)"

definition select_forecasts ::
    "sort_order \<Rightarrow> api_row list \<Rightarrow> uuid \<Rightarrow> string option \<Rightarrow> int option \<Rightarrow> int option \<Rightarrow> nat \<Rightarrow> nat \<Rightarrow> api_row list" where
  "select_forecasts order rows tenant host since until limit offset =
     take limit (drop offset (order_by (history_before order) (filter (LIST_FILTER tenant host since until) rows)))"

text \<open>\<open>DISTINCT ON (host_id) ... ORDER BY host_id, origin_ts DESC\<close>.\<close>

definition newest :: "api_row \<Rightarrow> api_row list \<Rightarrow> api_row" where
  "newest r rs = foldl (\<lambda>b x. if ap_origin b < ap_origin x then x else b) r rs"

definition latest_rows :: "api_row list \<Rightarrow> uuid \<Rightarrow> api_row list" where
  "latest_rows rows tenant =
     (let own = filter (\<lambda>r. ap_tenant r = tenant) rows in
      map (\<lambda>h. case filter (\<lambda>r. ap_host r = h) own of r # rs \<Rightarrow> newest r rs)
        (sorted_list_of_set (set (map ap_host own))))"

definition select_hosts :: "host_sort \<Rightarrow> sort_order \<Rightarrow> api_row list \<Rightarrow> uuid \<Rightarrow> nat \<Rightarrow> api_row list" where
  "select_hosts col order rows tenant limit = take limit (order_by (host_before col order) (latest_rows rows tenant))"

definition SELECT_FORECAST :: "api_row list \<Rightarrow> uuid \<Rightarrow> string \<Rightarrow> int \<Rightarrow> api_row option" where
  "SELECT_FORECAST rows tenant host origin =
     List.find (\<lambda>r. ap_tenant r = tenant \<and> ap_host r = host \<and> ap_origin r = origin) rows"

section \<open>Configuration and schemas\<close>

record forecast_item =
  fi_host :: string
  fi_origin :: int
  fi_risk :: "flt option"
  fi_stage :: "string option"
  fi_max_p :: "flt option"
  fi_lead :: "flt option"
  fi_model :: "string option"

record forecast_page =
  pg_items :: "forecast_item list"
  pg_all :: nat
  pg_limit :: int
  pg_offset :: int

definition api_fields :: "api_row \<Rightarrow> forecast_item" where
  "api_fields r = \<lparr>fi_host = ap_host r, fi_origin = ap_origin r, fi_risk = ap_risk r, fi_stage = ap_stage r,
     fi_max_p = ap_max_p r, fi_lead = ap_lead r, fi_model = ap_model r\<rparr>"

definition api_config :: "tree \<Rightarrow> tree res" where "api_config config = sub_block config ''api''"

definition page_limit :: "pyconv \<Rightarrow> tree \<Rightarrow> int res" where
  "page_limit C config = bind_res (api_config config) (\<lambda>b. bind_res (t_get b ''page_limit'' (TInt 50)) (t_int C))"

definition max_page_limit :: "pyconv \<Rightarrow> tree \<Rightarrow> int res" where
  "max_page_limit C config = bind_res (api_config config) (\<lambda>b. bind_res (t_get b ''max_page_limit'' (TInt 500)) (t_int C))"

definition resolved_limit :: "pyconv \<Rightarrow> tree \<Rightarrow> int option \<Rightarrow> int res" where
  "resolved_limit C config requested =
     bind_res (max_page_limit C config) (\<lambda>ceiling.
     bind_res (case requested of None \<Rightarrow> page_limit C config | Some n \<Rightarrow> Inr n) (\<lambda>n. Inr (min n ceiling)))"

definition optional_utc :: "datetime option \<Rightarrow> int option" where "optional_utc d = map_option as_utc d"

section \<open>The routes\<close>

text \<open>The server refuses a negative \<open>LIMIT\<close>, which a configured ceiling below zero would give.\<close>

definition list_forecasts ::
    "pyconv \<Rightarrow> tree \<Rightarrow> api_row list \<Rightarrow> uuid \<Rightarrow> string option \<Rightarrow> datetime option \<Rightarrow> datetime option \<Rightarrow>
     int option \<Rightarrow> int \<Rightarrow> sort_order \<Rightarrow> forecast_page res" where
  "list_forecasts C config rows tenant host since until limit offset order =
     (if (case limit of None \<Rightarrow> False | Some n \<Rightarrow> n < 1) \<or> offset < 0 then Inl (HttpError 422)
      else bind_res (resolved_limit C config limit) (\<lambda>size.
        if size < 0 then Inl RuntimeError
        else Inr \<lparr>pg_items = map api_fields (select_forecasts order rows tenant host (optional_utc since) (optional_utc until)
                (nat size) (nat offset)),
              pg_all = COUNT_FORECASTS rows tenant host (optional_utc since) (optional_utc until),
              pg_limit = size, pg_offset = offset\<rparr>))"

definition list_hosts ::
    "pyconv \<Rightarrow> tree \<Rightarrow> api_row list \<Rightarrow> uuid \<Rightarrow> host_sort \<Rightarrow> sort_order \<Rightarrow> int option \<Rightarrow> forecast_item list res" where
  "list_hosts C config rows tenant col order limit =
     (if (case limit of None \<Rightarrow> False | Some n \<Rightarrow> n < 1) then Inl (HttpError 422)
      else bind_res (resolved_limit C config limit) (\<lambda>size.
        if size < 0 then Inl RuntimeError else Inr (map api_fields (select_hosts col order rows tenant (nat size)))))"

definition get_forecast ::
    "nat \<Rightarrow> (string \<Rightarrow> forecast res) \<Rightarrow> api_row list \<Rightarrow> uuid \<Rightarrow> string \<Rightarrow> datetime \<Rightarrow> forecast res" where
  "get_forecast K load rows tenant host ts =
     (case SELECT_FORECAST rows tenant host (as_utc ts) of
        None \<Rightarrow> Inl (HttpError 404)
      | Some r \<Rightarrow> bind_res (load (ap_payload r)) (validate_forecast K))"

section \<open>Sorting\<close>

lemma place_mset [simp]: "mset (place before x xs) = add_mset x (mset xs)"
  by (induction xs) auto

lemma order_by_mset [simp]: "mset (order_by before xs) = mset xs"
  by (induction xs) auto

lemma order_by_set [simp]: "set (order_by before xs) = set xs" "length (order_by before xs) = length xs"
  by (metis order_by_mset set_mset_mset) (metis order_by_mset size_mset)

lemma order_by_distinct [simp]: "distinct (map f (order_by before xs)) \<longleftrightarrow> distinct (map f xs)"
proof -
  have "mset (map f (order_by before xs)) = mset (map f xs)" by simp
  then show ?thesis by (metis mset_eq_imp_distinct_iff)
qed

text \<open>A strict \<open>before\<close> whose negation is transitive sorts.\<close>

definition weak_order :: "('a \<Rightarrow> 'a \<Rightarrow> bool) \<Rightarrow> bool" where
  "weak_order before \<longleftrightarrow> (\<forall>x y. before x y \<longrightarrow> \<not> before y x) \<and>
     (\<forall>x y z. \<not> before y x \<longrightarrow> \<not> before z y \<longrightarrow> \<not> before z x)"

lemma place_sorted:
  assumes "weak_order before"
  shows "sorted_wrt (\<lambda>a b. \<not> before b a) xs \<Longrightarrow> sorted_wrt (\<lambda>a b. \<not> before b a) (place before x xs)"
proof (induction xs)
  case (Cons y ys)
  have st: "set (place before x ys) = insert x (set ys)" by (metis place_mset set_mset_add_mset_insert set_mset_mset)
  show ?case
  proof (cases "before y x")
    case True
    then have "\<not> before x y" using assms unfolding weak_order_def by blast
    with Cons True show ?thesis by (simp add: st)
  next
    case False
    have "\<forall>z \<in> set ys. \<not> before z x" using Cons.prems False assms unfolding weak_order_def by (metis sorted_wrt.simps(2))
    with Cons.prems False show ?thesis by simp
  qed
qed simp

lemma order_by_sorted: "weak_order before \<Longrightarrow> sorted_wrt (\<lambda>a b. \<not> before b a) (order_by before xs)"
  by (induction xs) (auto intro: place_sorted)

lemma column_less_weak: "column_less a b \<Longrightarrow> \<not> column_less b a"
  by (cases a; cases b) auto

lemma history_weak: "weak_order (history_before order)"
  by (cases order) (auto simp: weak_order_def history_before_def)

lemma weak_order_lex:
  assumes "weak_order p" "weak_order q"
  shows "weak_order (\<lambda>a b. p a b \<or> (\<not> p b a \<and> q a b))"
  using assms unfolding weak_order_def by blast

lemma column_before_trans:
  assumes "\<not> column_before order b a" "\<not> column_before order c b"
    "\<forall>x \<in> {a, b, c}. x = Null \<or> (\<exists>y. x = Num y)"
  shows "\<not> column_before order c a"
  using assms by (cases order; cases a; cases b; cases c) (auto simp: column_before_def)

lemma column_weak: "weak_order (\<lambda>a b. column_before order (HOST_SORT_COLUMNS col a) (HOST_SORT_COLUMNS col b))"
proof -
  have asym: "\<not> column_before order b a" if "column_before order a b" for a b
    using that column_less_weak by (cases order) (auto simp: column_before_def split: if_splits)
  have num: "HOST_SORT_COLUMNS col r = Null \<or> (\<exists>y. HOST_SORT_COLUMNS col r = Num y)" if "col = By_risk \<or> col = By_observed_risk" for r
    using that by (auto simp: HOST_SORT_COLUMNS_def split: option.split)
  show ?thesis
  proof (cases "col = By_risk \<or> col = By_observed_risk")
    case True
    show ?thesis unfolding weak_order_def using asym column_before_trans num [OF True] by blast
  next
    case False
    then consider "col = By_host" | "col = By_last_seen" by (cases col) auto
    then show ?thesis
      by cases (cases order; auto simp: weak_order_def column_before_def HOST_SORT_COLUMNS_def)+
  qed
qed

lemma host_weak: "weak_order (host_before col order)"
proof -
  have "weak_order (\<lambda>a b :: api_row. ap_host a < ap_host b)" by (auto simp: weak_order_def)
  moreover have "host_before col order = (\<lambda>a b. column_before order (HOST_SORT_COLUMNS col a) (HOST_SORT_COLUMNS col b) \<or>
      (\<not> column_before order (HOST_SORT_COLUMNS col b) (HOST_SORT_COLUMNS col a) \<and> ap_host a < ap_host b))"
    by (intro ext) (simp add: host_before_def Let_def)
  ultimately show ?thesis using weak_order_lex [OF column_weak [of order col]] by simp
qed

section \<open>Pages\<close>

lemma pages_take: "concat (map (\<lambda>i. take s (drop (i * s) xs)) [0..<n]) = take (n * s) xs"
proof (induction n)
  case (Suc n)
  have "take (Suc n * s) xs = take (n * s + s) xs" by (simp add: add.commute)
  also have "\<dots> = take (n * s) xs @ take s (drop (n * s) xs)" by (rule take_add)
  finally show ?case using Suc by simp
qed simp

definition history_item_before :: "sort_order \<Rightarrow> forecast_item \<Rightarrow> forecast_item \<Rightarrow> bool" where
  "history_item_before order a b =
     ((case order of Desc \<Rightarrow> fi_origin b < fi_origin a | Asc \<Rightarrow> fi_origin a < fi_origin b) \<or>
      (fi_origin a = fi_origin b \<and> fi_host a < fi_host b))"

lemma history_total:
  assumes "ap_tenant a = ap_tenant b" "api_key a \<noteq> api_key b" "\<not> history_before order b a"
  shows "history_item_before order (api_fields a) (api_fields b)"
  using assms by (cases order) (auto simp: history_before_def history_item_before_def api_fields_def api_key_def)

lemma sorted_keys_strict:
  assumes "sorted_wrt P xs" "distinct (map f xs)"
  shows "sorted_wrt (\<lambda>a b. P a b \<and> f a \<noteq> f b) xs"
  using assms by (induction xs) (auto simp: rev_image_eqI)

lemma history_sorted:
  assumes "distinct (map api_key rows)" "\<forall>r \<in> set rows. ap_tenant r = tenant"
  shows "sorted_wrt (history_item_before order) (map api_fields (order_by (history_before order) rows))"
proof -
  let ?xs = "order_by (history_before order) rows"
  have "sorted_wrt (\<lambda>a b. \<not> history_before order b a \<and> api_key a \<noteq> api_key b) ?xs"
    by (rule sorted_keys_strict [OF order_by_sorted [OF history_weak]]) (simp add: assms(1))
  then have "sorted_wrt (\<lambda>a b. history_item_before order (api_fields a) (api_fields b)) ?xs"
    by (rule sorted_wrt_mono_rel [rotated]) (use assms(2) history_total in auto)
  then show ?thesis by (simp add: sorted_wrt_map)
qed

text \<open>
  C18. The pages of the history tile it. Reading page after page at any size within the ceiling gives every
  forecast of this tenant that passes the filters, each exactly once and none of another tenant, in
  the order asked for, which is strict; every page carries the number of them all.
\<close>

theorem history_pages_tile:
  fixes rows tenant host since until
  defines "match \<equiv> filter (LIST_FILTER tenant host (optional_utc since) (optional_utc until)) rows"
  assumes "max_page_limit C config = Inr upper" "1 \<le> s" "s \<le> upper" "length match \<le> n * nat s"
    "distinct (map api_key rows)"
  shows "\<exists>page. (\<forall>i. list_forecasts C config rows tenant host since until (Some s) (int i * s) order = Inr (page i) \<and>
      pg_all (page i) = length match) \<and>
    mset (concat (map (\<lambda>i. pg_items (page i)) [0..<n])) = mset (map api_fields match) \<and>
    sorted_wrt (history_item_before order) (concat (map (\<lambda>i. pg_items (page i)) [0..<n]))"
proof -
  let ?xs = "order_by (history_before order) match"
  define page where "page = (\<lambda>i. \<lparr>pg_items = map api_fields (take (nat s) (drop (i * nat s) ?xs)),
    pg_all = length match, pg_limit = s, pg_offset = int i * s\<rparr>)"
  have lim: "resolved_limit C config (Some s) = Inr s" using assms(2,4) by (simp add: resolved_limit_def)
  have off: "nat (int i * s) = i * nat s" for i using assms(3) by (simp add: nat_mult_distrib)
  have nn: "\<not> int i * s < 0" for i using assms(3) by (simp add: not_less)
  have pages: "list_forecasts C config rows tenant host since until (Some s) (int i * s) order = Inr (page i)" for i
    using assms(3) lim off nn by (simp add: list_forecasts_def page_def select_forecasts_def COUNT_FORECASTS_def match_def)
  have "concat (map (\<lambda>i. pg_items (page i)) [0..<n]) =
      map api_fields (concat (map (\<lambda>i. take (nat s) (drop (i * nat s) ?xs)) [0..<n]))"
    by (simp add: page_def map_concat comp_def)
  also have "\<dots> = map api_fields ?xs" using assms(5) by (simp add: pages_take)
  finally have all: "concat (map (\<lambda>i. pg_items (page i)) [0..<n]) = map api_fields ?xs" .
  have "distinct (map api_key match)" using assms(6) by (simp add: match_def distinct_map inj_on_def)
  moreover have "\<forall>r \<in> set match. ap_tenant r = tenant" by (auto simp: match_def LIST_FILTER_def)
  ultimately have "sorted_wrt (history_item_before order) (map api_fields ?xs)" by (rule history_sorted)
  moreover have "mset (map api_fields ?xs) = mset (map api_fields match)" by simp
  ultimately show ?thesis using pages all by (intro exI [of _ page]) (simp add: page_def)
qed

section \<open>Hosts\<close>

lemma newest_spec:
  "newest r rs \<in> insert r (set rs) \<and> (\<forall>x \<in> insert r (set rs). ap_origin x \<le> ap_origin (newest r rs))"
  unfolding newest_def
proof (induction rs arbitrary: r)
  case (Cons x rs)
  from Cons.IH [of "if ap_origin r < ap_origin x then x else r"] show ?case
    by (auto split: if_splits)
qed simp

lemma latest_rows_spec:
  "map ap_host (latest_rows rows tenant) = sorted_list_of_set (ap_host ` {r \<in> set rows. ap_tenant r = tenant}) \<and>
   (\<forall>r \<in> set (latest_rows rows tenant). r \<in> set rows \<and> ap_tenant r = tenant \<and>
     (\<forall>x \<in> set rows. ap_tenant x = tenant \<and> ap_host x = ap_host r \<longrightarrow> ap_origin x \<le> ap_origin r))"
proof -
  let ?own = "filter (\<lambda>r. ap_tenant r = tenant) rows"
  let ?pick = "\<lambda>h. case filter (\<lambda>r. ap_host r = h) ?own of r # rs \<Rightarrow> newest r rs"
  have pick: "?pick h \<in> set rows \<and> ap_tenant (?pick h) = tenant \<and> ap_host (?pick h) = h \<and>
      (\<forall>x \<in> set rows. ap_tenant x = tenant \<and> ap_host x = h \<longrightarrow> ap_origin x \<le> ap_origin (?pick h))"
    if h: "h \<in> ap_host ` set ?own" for h
  proof -
    have ne: "filter (\<lambda>r. ap_host r = h) ?own \<noteq> []" using h by (auto simp: filter_empty_conv)
    then obtain r rs where f: "filter (\<lambda>r. ap_host r = h) ?own = r # rs" by (meson neq_Nil_conv)
    have st: "insert r (set rs) = {x \<in> set rows. ap_tenant x = tenant \<and> ap_host x = h}"
      using arg_cong [OF f, of set] by auto
    show ?thesis using newest_spec [of r rs] unfolding st f by auto
  qed
  have own: "set (map ap_host ?own) = ap_host ` {r \<in> set rows. ap_tenant r = tenant}" by simp
  have l: "latest_rows rows tenant = map ?pick (sorted_list_of_set (set (map ap_host ?own)))"
    by (simp add: latest_rows_def Let_def)
  have "map ap_host (latest_rows rows tenant) = map (\<lambda>h. h) (sorted_list_of_set (set (map ap_host ?own)))"
    unfolding l map_map by (rule map_cong) (use pick in auto)
  moreover have "\<forall>r \<in> set (latest_rows rows tenant). r \<in> set rows \<and> ap_tenant r = tenant \<and>
     (\<forall>x \<in> set rows. ap_tenant x = tenant \<and> ap_host x = ap_host r \<longrightarrow> ap_origin x \<le> ap_origin r)"
    unfolding l using pick by auto
  ultimately show ?thesis unfolding own by simp
qed

text \<open>
  The host list is one row per host, its latest. Whatever the sort, what is answered is the head of a list
  that has every host this tenant has a forecast for exactly once, each at its newest forecast, in the
  order of the chosen column with the hosts that have no such number last.
\<close>

lemma host_list_is_latest:
  assumes "list_hosts C config rows tenant col order limit = Inr items"
  shows "\<exists>sel n. resolved_limit C config limit = Inr n \<and> items = map api_fields (take (nat n) sel) \<and>
    distinct (map ap_host sel) \<and> set (map ap_host sel) = ap_host ` {r \<in> set rows. ap_tenant r = tenant} \<and>
    (\<forall>r \<in> set sel. r \<in> set rows \<and> ap_tenant r = tenant \<and>
      (\<forall>x \<in> set rows. ap_tenant x = tenant \<and> ap_host x = ap_host r \<longrightarrow> ap_origin x \<le> ap_origin r)) \<and>
    sorted_wrt (\<lambda>a b. \<not> host_before col order b a) sel"
proof -
  let ?sel = "order_by (host_before col order) (latest_rows rows tenant)"
  obtain n where n: "resolved_limit C config limit = Inr n" "items = map api_fields (take (nat n) ?sel)"
    using assms by (auto simp: list_hosts_def select_hosts_def bind_res_eq_Inr split: if_splits)
  have d: "distinct (map ap_host (latest_rows rows tenant))"
    "set (map ap_host (latest_rows rows tenant)) = ap_host ` {r \<in> set rows. ap_tenant r = tenant}"
    using latest_rows_spec [of rows tenant] by (simp_all only:) simp_all
  then have "set (map ap_host ?sel) = ap_host ` {r \<in> set rows. ap_tenant r = tenant}" by simp
  moreover have "distinct (map ap_host ?sel)" using d(1) by (simp only: order_by_distinct)
  moreover have "\<forall>r \<in> set ?sel. r \<in> set rows \<and> ap_tenant r = tenant \<and>
      (\<forall>x \<in> set rows. ap_tenant x = tenant \<and> ap_host x = ap_host r \<longrightarrow> ap_origin x \<le> ap_origin r)"
    using latest_rows_spec [of rows tenant] by simp
  moreover note order_by_sorted [OF host_weak, of col order "latest_rows rows tenant"]
  ultimately show ?thesis using n by blast
qed

section \<open>From the persister to the console\<close>

lemma process_row:
  assumes "process C R rules dump u s db f = Inr (out, s', db')"
  shows "\<exists>tenant r. c_uuid C (fc_tenant f) = Inr tenant \<and> forecast_key r = (tenant, fc_host f, as_utc (fc_origin f)) \<and>
    fr_payload r = dump f \<and> po_inserted out = (forecast_key r \<notin> forecast_key ` set (pd_forecasts db)) \<and>
    pd_forecasts db' = pd_forecasts db @ (if po_inserted out then [r] else [])"
proof -
  have "process_db C R rules dump u s db f = Inr (out, db')" using assms by (simp add: process_Inr)
  then show ?thesis
  proof (rule process_db_Inr)
    fix tenant peak st db1
    assume t: "c_uuid C (fc_tenant f) = Inr tenant" "max_p_compromise f = Inr peak"
      and i: "insert_forecast dump db f tenant peak = (po_inserted out, db1)"
      and w: "(case po_transition out of None \<Rightarrow> Inr db1 | Some tr \<Rightarrow> write_episode db1 f tenant tr) = Inr db'"
    have "pd_forecasts db' = pd_forecasts db1" using w write_episode_forecasts by (auto split: option.splits)
    with t INSERT_FORECAST_spec [OF i [unfolded insert_forecast_def]] show ?thesis
      by (intro exI [of _ tenant] exI conjI) (auto simp: forecast_key_def)
  qed
qed

lemma find_row_key:
  "SELECT_FORECAST rows tenant host origin = List.find (\<lambda>r. api_key r = (tenant, host, origin)) rows"
  by (simp add: SELECT_FORECAST_def api_key_def conj_assoc)

lemma api_row_key [simp]: "api_key (api_row_of r) = forecast_key r" "ap_payload (api_row_of r) = fr_payload r"
  by (simp_all add: api_key_def api_row_of_def forecast_key_def)


section \<open>Concrete requests\<close>

definition demo_row :: "uuid \<Rightarrow> string \<Rightarrow> int \<Rightarrow> flt option \<Rightarrow> api_row" where
  "demo_row tenant host origin p = \<lparr>ap_tenant = tenant, ap_host = host, ap_origin = origin, ap_risk = None, ap_stage = None,
     ap_max_p = p, ap_lead = None, ap_model = None, ap_payload = []\<rparr>"

definition demo_api_rows :: "api_row list" where
  "demo_api_rows = [demo_row 1 ''a'' 10 (Some (Fin (1 / 2))), demo_row 1 ''b'' 10 None, demo_row 2 ''a'' 10 (Some (Fin 1)),
     demo_row 1 ''a'' 20 (Some (Fin (1 / 4))), demo_row 1 ''c'' 20 (Some (Fin (3 / 4)))]"

lemma demo_page_limit: "max_page_limit std_conv (TMap []) = Inr 500" "page_limit std_conv (TMap []) = Inr 50"
  by (simp_all add: max_page_limit_def page_limit_def api_config_def sub_block_def dict_get_def)

lemma history_pages_tile_witness:
  "\<exists>page. list_forecasts std_conv (TMap []) demo_api_rows 1 None None None (Some 3) (int 1 * 3) Desc = Inr (page 1) \<and>
    pg_all (page 1) = 4 \<and> length (concat (map (\<lambda>i. pg_items (page i)) [0..<2])) = 4"
proof -
  have len: "length (filter (LIST_FILTER 1 None (optional_utc None) (optional_utc None)) demo_api_rows) = 4"
    by (simp add: demo_api_rows_def demo_row_def LIST_FILTER_def optional_utc_def)
  have d: "distinct (map api_key demo_api_rows)" by (simp add: demo_api_rows_def demo_row_def api_key_def)
  have "length (filter (LIST_FILTER 1 None (optional_utc None) (optional_utc None)) demo_api_rows) \<le> 2 * nat 3"
    unfolding len by simp
  from history_pages_tile [OF demo_page_limit(1) _ _ this d, of Desc] obtain page where
    p: "\<forall>i. list_forecasts std_conv (TMap []) demo_api_rows 1 None None None (Some 3) (int i * 3) Desc = Inr (page i) \<and> pg_all (page i) = 4"
    and m: "mset (concat (map (\<lambda>i. pg_items (page i)) [0..<2])) =
      mset (map api_fields (filter (LIST_FILTER 1 None (optional_utc None) (optional_utc None)) demo_api_rows))"
    unfolding len by auto
  show ?thesis using p mset_eq_length [OF m] len by (intro exI [of _ page]) (metis length_map)
qed

lemma host_list_is_latest_witness:
  "\<exists>sel. list_hosts std_conv (TMap []) demo_api_rows 1 By_risk Desc None = Inr (map api_fields (take 50 sel)) \<and>
    set (map ap_host sel) = {''a'', ''b'', ''c''} \<and> distinct (map ap_host sel)"
proof -
  have lim: "resolved_limit std_conv (TMap []) None = Inr 50" by (simp add: resolved_limit_def demo_page_limit)
  then obtain items where run: "list_hosts std_conv (TMap []) demo_api_rows 1 By_risk Desc None = Inr items"
    by (simp add: list_hosts_def)
  have "ap_host ` set (filter (\<lambda>r. ap_tenant r = 1) demo_api_rows) = {''a'', ''b'', ''c''}"
    by (simp add: demo_api_rows_def demo_row_def insert_commute)
  with host_list_is_latest [OF run] lim run show ?thesis by (auto simp: set_filter [symmetric] simp del: set_filter)
qed


end
