(* ===== verification/Jobs.thy ===== *)
theory Jobs
  imports Config Schema
begin

text \<open>
  \<open>services/ingest/jobs.py\<close> and \<open>services/ingest/replay.py\<close>: where an upload lands, how its progress is
  kept in Redis, and the clock that paces a replay. A path is its string; \<open>os.path.expanduser\<close> and the
  repository's directory are arguments.
\<close>

section \<open>Paths\<close>

definition JOB_KEY_PREFIX :: string where "JOB_KEY_PREFIX = ''job:''"
definition JOB_TTL_S :: int where "JOB_TTL_S = 24 * 3600"

definition is_alnum :: "char \<Rightarrow> bool" where
  "is_alnum c = (let n = of_char c :: nat in 48 \<le> n \<and> n \<le> 57 \<or> 65 \<le> n \<and> n \<le> 90 \<or> 97 \<le> n \<and> n \<le> 122)"

definition plain_component :: "string \<Rightarrow> bool" where
  "plain_component s \<longleftrightarrow> s \<noteq> [] \<and> is_alnum (hd s) \<and> length s \<le> 128 \<and>
     list_all (\<lambda>c. is_alnum c \<or> c \<in> {CHR ''.'', CHR ''_'', CHR ''-''}) s"

text \<open>\<open>re.match\<close> with \<open>$\<close>, which also matches before a final newline.\<close>

definition SAFE_COMPONENT :: "string \<Rightarrow> bool" where
  "SAFE_COMPONENT s \<longleftrightarrow> plain_component s \<or> (s \<noteq> [] \<and> last s = CHR 0x0A \<and> plain_component (butlast s))"

definition job_key :: "string \<Rightarrow> string" where "job_key job_id = JOB_KEY_PREFIX @ job_id"

definition upload_root :: "pyconv \<Rightarrow> (string \<Rightarrow> string) \<Rightarrow> string \<Rightarrow> tree \<Rightarrow> string res" where
  "upload_root C expanduser repo_root config =
     bind_res (t_get config ''ingest'' (TMap [])) (\<lambda>block. bind_res (t_get block ''upload_dir'' TNull) (\<lambda>configured.
       if \<not> truthy configured then Inl ValueError
       else let path = expanduser (t_str C configured) in
         Inr (if path \<noteq> [] \<and> hd path = CHR ''/'' then path else repo_root @ ''/'' @ path)))"

definition safe_component :: "string \<Rightarrow> string res" where
  "safe_component s = (if \<not> SAFE_COMPONENT s then Inl ValueError else Inr s)"

definition job_dir :: "pyconv \<Rightarrow> (string \<Rightarrow> string) \<Rightarrow> string \<Rightarrow> tree \<Rightarrow> string \<Rightarrow> string \<Rightarrow> string res" where
  "job_dir C expanduser repo_root config tenant_id job_id =
     bind_res (upload_root C expanduser repo_root config) (\<lambda>base.
     bind_res (safe_component tenant_id) (\<lambda>t. bind_res (safe_component job_id) (\<lambda>j.
       Inr (base @ ''/'' @ t @ ''/'' @ j))))"

definition upload_path :: "pyconv \<Rightarrow> (string \<Rightarrow> string) \<Rightarrow> string \<Rightarrow> tree \<Rightarrow> string \<Rightarrow> string \<Rightarrow> string \<Rightarrow> string res" where
  "upload_path C expanduser repo_root config tenant_id job_id ext =
     bind_res (job_dir C expanduser repo_root config tenant_id job_id) (\<lambda>d. Inr (d @ ''/'' @ job_id @ ext))"

lemma safe_component_Inr: "safe_component s = Inr u \<longleftrightarrow> u = s \<and> SAFE_COMPONENT s"
  by (auto simp: safe_component_def)

lemma no_slash: "SAFE_COMPONENT s \<Longrightarrow> CHR ''/'' \<notin> set s"
proof -
  have p: "CHR ''/'' \<notin> set s" if "plain_component s" for s
    using that by (auto simp: plain_component_def list_all_iff is_alnum_def)
  assume "SAFE_COMPONENT s"
  then show ?thesis unfolding SAFE_COMPONENT_def
  proof (elim disjE conjE)
    assume s: "s \<noteq> []" "last s = CHR 0x0A" "plain_component (butlast s)"
    have "set s = set (butlast s @ [last s])" using s(1) by simp
    with p [OF s(3)] s(2) show ?thesis by simp
  qed (rule p)
qed

lemma not_dots: "SAFE_COMPONENT s \<Longrightarrow> s \<noteq> [] \<and> hd s \<noteq> CHR ''.''"
proof -
  have p: "s \<noteq> [] \<and> hd s \<noteq> CHR ''.''" if "plain_component s" for s
    using that by (auto simp: plain_component_def is_alnum_def)
  assume "SAFE_COMPONENT s"
  then show ?thesis unfolding SAFE_COMPONENT_def
  proof (elim disjE conjE)
    assume s: "s \<noteq> []" "plain_component (butlast s)"
    with p [OF s(2)] show ?thesis by (cases s) (auto split: if_splits)
  qed (rule p)
qed

text \<open>
  Every job has a directory of its own below the upload root. Two jobs that are given a directory
  get the same one only when both the tenant and the job agree, it lies two ordinary levels below the
  root, and an identifier with a separator, or one that starts with a dot, is refused.
\<close>

lemma job_dirs_apart:
  assumes "job_dir C expanduser repo_root config t j = Inr d" "job_dir C expanduser repo_root config t' j' = Inr d'"
  shows "(d = d' \<longleftrightarrow> t = t' \<and> j = j') \<and>
    (\<exists>base. upload_root C expanduser repo_root config = Inr base \<and> d = base @ ''/'' @ t @ ''/'' @ j) \<and>
    CHR ''/'' \<notin> set t \<union> set j \<and> t \<noteq> [] \<and> j \<noteq> [] \<and> hd t \<noteq> CHR ''.'' \<and> hd j \<noteq> CHR ''.''"
proof -
  obtain base where b: "upload_root C expanduser repo_root config = Inr base" "d = base @ ''/'' @ t @ ''/'' @ j"
      "d' = base @ ''/'' @ t' @ ''/'' @ j'" and s: "SAFE_COMPONENT t" "SAFE_COMPONENT j" "SAFE_COMPONENT t'" "SAFE_COMPONENT j'"
    using assms by (auto simp: job_dir_def bind_res_eq_Inr safe_component_Inr)
  have "t = t' \<and> j = j'" if "d = d'"
  proof -
    have "t @ CHR ''/'' # j = t' @ CHR ''/'' # j'" using that b(2,3) by simp
    then have "partition_str (CHR ''/'') (t @ CHR ''/'' # j) = partition_str (CHR ''/'') (t' @ CHR ''/'' # j')" by simp
    then show ?thesis using no_slash [OF s(1)] no_slash [OF s(3)] by (simp add: str_simps)
  qed
  then show ?thesis using b s no_slash not_dots by auto
qed

lemma job_dirs_apart_witness:
  "job_dir std_conv id ''/srv'' (TMap [(''ingest'', TMap [(''upload_dir'', TStr ''/up'')])]) ''t1'' ''j1'' = Inr ''/up/t1/j1'' \<and>
    ''/up/t1/j1'' \<noteq> ''/up/t1/j2''"
proof -
  let ?cfg = "TMap [(''ingest'', TMap [(''upload_dir'', TStr ''/up'')])]"
  have d: "job_dir std_conv id ''/srv'' ?cfg ''t1'' ''j1'' = Inr ''/up/t1/j1''"
    "job_dir std_conv id ''/srv'' ?cfg ''t1'' ''j2'' = Inr ''/up/t1/j2''" by code_simp+
  from job_dirs_apart [OF d] d(1) show ?thesis by simp
qed

text \<open>The dollar of the pattern lets a name with a final newline through.\<close>

lemma newline_is_safe: "safe_component (''a'' @ [CHR 0x0A]) = Inr (''a'' @ [CHR 0x0A])"
  by code_simp

section \<open>Progress\<close>

definition kind_str :: "job_kind \<Rightarrow> string" where "kind_str k = (case k of Csv \<Rightarrow> ''csv'' | Pcap \<Rightarrow> ''pcap'')"

definition status_str :: "job_status \<Rightarrow> string" where
  "status_str st = (case st of Job_queued \<Rightarrow> ''queued'' | Job_running \<Rightarrow> ''running'' | Job_complete \<Rightarrow> ''complete''
     | Job_error \<Rightarrow> ''error'')"

definition init_progress :: "pyconv \<Rightarrow> 's redis_ops \<Rightarrow> string \<Rightarrow> job_kind \<Rightarrow> flt \<Rightarrow> int \<Rightarrow> 's \<Rightarrow> 's" where
  "init_progress C R job_id kind speed all_events s =
     r_expire R (r_hset R s (job_key job_id)
       [(''status'', status_str Job_queued), (''kind'', kind_str kind), (''speed'', c_repr C speed),
        (''processed'', ''0''), (''total'', int_str all_events), (''error'', '''')]) (job_key job_id) JOB_TTL_S"

definition set_progress :: "'s redis_ops \<Rightarrow> string \<Rightarrow> job_status \<Rightarrow> int \<Rightarrow> int \<Rightarrow> string \<Rightarrow> 's \<Rightarrow> 's" where
  "set_progress R job_id st processed all_events err s =
     r_expire R (r_hset R s (job_key job_id)
       [(''status'', status_str st), (''processed'', int_str processed), (''total'', int_str all_events), (''error'', err)])
       (job_key job_id) JOB_TTL_S"

definition read_progress :: "'s redis_ops \<Rightarrow> string \<Rightarrow> 's \<Rightarrow> (string, string) dict" where
  "read_progress R job_id s = r_hgetall R s (job_key job_id)"

definition progress_fraction :: "int \<Rightarrow> int \<Rightarrow> string \<Rightarrow> flt" where
  "progress_fraction processed all_events st =
     (if st = status_str Job_complete then Fin 1
      else if all_events \<le> 0 then Fin 0
      else Fin (min 1 (max 0 (of_int processed / of_int all_events))))"

section \<open>The replay clock\<close>

record replay_clock =
  rc_first_ts :: int
  rc_speed :: flt
  rc_start :: flt

definition replay_clock_of :: "datetime \<Rightarrow> flt \<Rightarrow> flt \<Rightarrow> replay_clock" where
  "replay_clock_of first_ts speed now = \<lparr>rc_first_ts = as_utc first_ts, rc_speed = speed, rc_start = now\<rparr>"

definition paced :: "replay_clock \<Rightarrow> bool" where "paced K \<longleftrightarrow> Fin 0 < rc_speed K"

text \<open>The division by the speed does not raise: a paced clock's speed is positive.\<close>

definition delay_for :: "replay_clock \<Rightarrow> datetime \<Rightarrow> flt \<Rightarrow> flt" where
  "delay_for K event_ts now =
     (if \<not> paced K then Fin 0
      else let target = Fin (of_int (as_utc event_ts - rc_first_ts K) / 1000000) / rc_speed K
        in target - (now - rc_start K))"

text \<open>\<open>sleep now delay\<close> is the clock after sleeping; the result is the seconds slept and the clock.\<close>

definition wait_until :: "(flt \<Rightarrow> flt \<Rightarrow> flt) \<Rightarrow> replay_clock \<Rightarrow> datetime \<Rightarrow> flt \<Rightarrow> flt \<times> flt" where
  "wait_until sleep K event_ts now =
     (let delay = delay_for K event_ts now in
      if delay \<le> Fin 0 then (Fin 0, now) else (delay, sleep now delay))"

end
