(* ===== verification/Parsers.thy ===== *)
theory Parsers
  imports Jobs
begin

text \<open>
  \<open>services/ingest/parsers.py\<close>: a file to chunks of events. pandas is a parameter: \<open>pd_datetime\<close> is
  \<open>to_datetime\<close> with \<open>errors="coerce"\<close> on a cell and \<open>pd_numeric\<close> is \<open>to_numeric\<close> with \<open>errors="coerce"\<close>,
  NaN when the cell cannot be read. A chunk of \<open>read_csv\<close> is its header and rows of optional strings, an empty
  cell being missing. A file that carries two spellings of one column, where pandas would select a
  frame instead of a column, is not considered: the first such column is read.
\<close>

section \<open>Columns\<close>

definition CIC_COLUMNS :: "(string, string) dict" where
  "CIC_COLUMNS =
    [(''source ip'', ''src_ip''), (''src ip'', ''src_ip''),
     (''destination ip'', ''dst_ip''), (''dst ip'', ''dst_ip''),
     (''source port'', ''src_port''), (''src port'', ''src_port''),
     (''destination port'', ''dst_port''), (''dst port'', ''dst_port''),
     (''protocol'', ''protocol''), (''timestamp'', ''ts''),
     (''flow duration'', ''duration_us''),
     (''total fwd packets'', ''pkts_fwd''), (''tot fwd pkts'', ''pkts_fwd''),
     (''total backward packets'', ''pkts_bwd''), (''tot bwd pkts'', ''pkts_bwd''),
     (''total length of fwd packets'', ''bytes_fwd''), (''totlen fwd pkts'', ''bytes_fwd''),
     (''total length of bwd packets'', ''bytes_bwd''), (''totlen bwd pkts'', ''bytes_bwd''),
     (''flow iat mean'', ''iat_mean_us''), (''flow iat std'', ''iat_std_us''), (''flow iat max'', ''iat_max_us''),
     (''syn flag count'', ''syn_count''), (''ack flag count'', ''ack_count''), (''rst flag count'', ''rst_count''),
     (''fin flag count'', ''fin_count''), (''psh flag count'', ''psh_count''), (''urg flag count'', ''urg_count''),
     (''label'', ''label'')]"

definition CSV_REQUIRED :: "string list" where "CSV_REQUIRED = [''src_ip'', ''dst_ip'', ''ts'']"

definition CSV_COUNTS :: "(string, string) dict" where
  "CSV_COUNTS =
    [(''pkts_fwd'', ''pkts_fwd''), (''pkts_bwd'', ''pkts_bwd''), (''bytes_fwd'', ''bytes_fwd''),
     (''bytes_bwd'', ''bytes_bwd''), (''syn_count'', ''syn_count''), (''ack_count'', ''ack_count''),
     (''rst_count'', ''rst_count''), (''fin_count'', ''fin_count''), (''psh_count'', ''psh_count''),
     (''urg_count'', ''urg_count'')]"

definition CSV_MICROSECONDS :: "(string, string) dict" where
  "CSV_MICROSECONDS =
    [(''duration_us'', ''duration''), (''iat_mean_us'', ''iat_mean''), (''iat_std_us'', ''iat_std''),
     (''iat_max_us'', ''iat_max'')]"

definition MICROSECONDS_PER_SECOND :: flt where "MICROSECONDS_PER_SECOND = Fin 1000000"

text \<open>\<open>s.split()\<close>: the runs of characters that are not whitespace.\<close>

fun words_from :: "string \<Rightarrow> string \<Rightarrow> string list" where
  "words_from w [] = (if w = [] then [] else [w])"
| "words_from w (c # cs) =
     (if is_space c then (if w = [] then [] else [w]) @ words_from [] cs else words_from (w @ [c]) cs)"

fun join_words :: "string list \<Rightarrow> string" where
  "join_words [] = []"
| "join_words [w] = w"
| "join_words (w # v # ws) = w @ '' '' @ join_words (v # ws)"

definition normalise_column :: "string \<Rightarrow> string" where
  "normalise_column name =
     lower (join_words (words_from [] (map (\<lambda>c. if c = CHR ''_'' then CHR '' '' else c) name)))"

definition count_csv_rows :: "string \<Rightarrow> nat" where
  "count_csv_rows content = length (filter (\<lambda>c. c = CHR 0x0A) content) - 1"

section \<open>A CSV chunk\<close>

type_synonym cell = "string option"

record frame =
  fr_columns :: "string list"
  fr_rows :: "cell list list"

record pandas =
  pd_datetime :: "string \<Rightarrow> datetime option"
  pd_numeric :: "string \<Rightarrow> flt"

text \<open>A row of the renamed frame, by the names ingest uses.\<close>

type_synonym csv_row = "(string, cell) dict"

definition rename_columns :: "frame \<Rightarrow> string list \<times> csv_row list" where
  "rename_columns f =
     (let kept = map (\<lambda>column. map_of CIC_COLUMNS (normalise_column column)) (fr_columns f) in
      (map the (filter (\<lambda>n. n \<noteq> None) kept),
       map (\<lambda>row. map (\<lambda>(n, c). (the n, c)) (filter (\<lambda>(n, c). n \<noteq> None) (zip kept row))) (fr_rows f)))"

text \<open>\<open>_numeric\<close> at one row.\<close>

definition numeric :: "pandas \<Rightarrow> csv_row \<Rightarrow> string \<Rightarrow> flt" where
  "numeric P row column =
     (case map_of row column of
        Some (Some s) \<Rightarrow> (case pd_numeric P s of NaN \<Rightarrow> Fin 0 | x \<Rightarrow> x)
      | _ \<Rightarrow> Fin 0)"

text \<open>
  \<open>float\<close> of a missing cell is NaN and of \<open>None\<close> a \<open>TypeError\<close>, both of which give none; \<open>int\<close> of an infinity
  raises an \<open>OverflowError\<close> that is not caught.
\<close>

definition optional_int :: "pyconv \<Rightarrow> cell \<Rightarrow> int option res" where
  "optional_int C c =
     (case c of None \<Rightarrow> Inr None
      | Some s \<Rightarrow> (case c_float C s of
          Inl e \<Rightarrow> if e = ValueError \<or> e = TypeError then Inr None else Inl e
        | Inr x \<Rightarrow> if x = NaN then Inr None else bind_res (fint x) (\<lambda>i. Inr (Some i))))"

definition row_cell :: "csv_row \<Rightarrow> string \<Rightarrow> cell" where
  "row_cell row column = (case map_of row column of None \<Rightarrow> None | Some c \<Rightarrow> c)"

text \<open>The timestamp of a row that has all it needs.\<close>

definition row_ts :: "pandas \<Rightarrow> csv_row \<Rightarrow> datetime option" where
  "row_ts P row =
     (case (row_cell row ''ts'', row_cell row ''src_ip'', row_cell row ''dst_ip'') of
        (Some t, Some a, Some b) \<Rightarrow> pd_datetime P t | _ \<Rightarrow> None)"

definition csv_fields :: "pandas \<Rightarrow> csv_row \<Rightarrow> (string, flt) dict" where
  "csv_fields P row =
     dict_update (map (\<lambda>(column, key). (key, numeric P row column)) CSV_COUNTS)
       (map (\<lambda>(column, key). (key, numeric P row column / MICROSECONDS_PER_SECOND)) CSV_MICROSECONDS)"

definition row_event :: "pyconv \<Rightarrow> pandas \<Rightarrow> string \<Rightarrow> string \<Rightarrow> datetime \<times> csv_row \<Rightarrow> raw_event res" where
  "row_event C P tenant_id job_id tr = (case tr of (ts, row) \<Rightarrow>
     bind_res (optional_int C (row_cell row ''src_port'')) (\<lambda>sport.
     bind_res (optional_int C (row_cell row ''dst_port'')) (\<lambda>dport.
     bind_res (optional_int C (row_cell row ''protocol'')) (\<lambda>proto.
       validate_raw_event \<lparr>ev_tenant = tenant_id, ev_job = job_id, ev_kind = Flow, ev_ts = Aware (as_utc ts),
         ev_src = strip (the (row_cell row ''src_ip'')), ev_dst = strip (the (row_cell row ''dst_ip'')),
         ev_sport = sport, ev_dport = dport, ev_proto = proto, ev_fields = csv_fields P row,
         ev_label = (case row_cell row ''label'' of Some l \<Rightarrow> if strip l \<noteq> [] then Some (strip l) else None | None \<Rightarrow> None)\<rparr>))))"

text \<open>The rows that keep a time and both addresses, in stable timestamp order.\<close>

definition usable_rows :: "pandas \<Rightarrow> csv_row list \<Rightarrow> (datetime \<times> csv_row) list" where
  "usable_rows P rows =
     sort_key (\<lambda>(ts, row). as_utc ts) (concat (map (\<lambda>row. case row_ts P row of None \<Rightarrow> [] | Some ts \<Rightarrow> [(ts, row)]) rows))"

definition csv_chunk_to_events ::
    "pyconv \<Rightarrow> pandas \<Rightarrow> string \<Rightarrow> string \<Rightarrow> frame \<Rightarrow> (raw_event list \<times> nat) res" where
  "csv_chunk_to_events C P tenant_id job_id chunk = (case rename_columns chunk of (columns, rows) \<Rightarrow>
     if filter (\<lambda>name. name \<notin> set columns) CSV_REQUIRED \<noteq> [] then Inl IngestError
     else bind_res (traverse_res (row_event C P tenant_id job_id) (usable_rows P rows)) (\<lambda>events.
       Inr (events, length rows - length (usable_rows P rows))))"

text \<open>
  What a source yields: chunks of events, and the exception that ends it early, if any. \<open>read_csv\<close> gives
  its frames and may stop with a parse error, which becomes an \<open>IngestError\<close>.
\<close>

type_synonym chunks = "raw_event list list \<times> py_error option"

fun iter_csv_events :: "pyconv \<Rightarrow> pandas \<Rightarrow> string \<Rightarrow> string \<Rightarrow> frame list \<Rightarrow> bool \<Rightarrow> chunks" where
  "iter_csv_events C P tenant_id job_id [] broken = ([], if broken then Some IngestError else None)"
| "iter_csv_events C P tenant_id job_id (chunk # rest) broken =
     (case csv_chunk_to_events C P tenant_id job_id chunk of
        Inl e \<Rightarrow> ([], Some e)
      | Inr (events, dropped) \<Rightarrow> (case iter_csv_events C P tenant_id job_id rest broken of
          (cs, e) \<Rightarrow> (if events \<noteq> [] then events # cs else cs, e)))"

section \<open>A capture\<close>

definition TSHARK_FIELDS :: "string list" where
  "TSHARK_FIELDS =
    [''frame.time_epoch'', ''ip.src'', ''ip.dst'', ''tcp.srcport'', ''tcp.dstport'', ''udp.srcport'',
     ''udp.dstport'', ''ip.proto'', ''ip.ttl'', ''tcp.window_size_value'', ''ip.flags.mf'', ''ip.frag_offset'',
     ''frame.len'', ''tcp.len'', ''tcp.flags'', ''tcp.analysis.retransmission'']"

definition TSHARK_DISPLAY_FILTER :: string where "TSHARK_DISPLAY_FILTER = ''ip''"
definition PACKET_BATCH :: nat where "PACKET_BATCH = 500"

definition tshark_argv :: "string \<Rightarrow> string \<Rightarrow> string list" where
  "tshark_argv path binary =
     [binary, ''-r'', path, ''-T'', ''fields'', ''-E'', ''separator=,'', ''-E'', ''quote=n'', ''-E'', ''occurrence=f'']
     @ concat (map (\<lambda>f. [''-e'', f]) TSHARK_FIELDS) @ [''-Y'', TSHARK_DISPLAY_FILTER]"

definition float_or_none :: "pyconv \<Rightarrow> string \<Rightarrow> flt option res" where
  "float_or_none C s =
     (if s = [] then Inr None
      else case c_float C s of Inr x \<Rightarrow> Inr (Some x) | Inl e \<Rightarrow> if e = ValueError then Inr None else Inl e)"

definition FALSEY :: "string list" where "FALSEY = ['''', ''0'', ''false'']"

definition is_set :: "string \<Rightarrow> bool" where "is_set s \<longleftrightarrow> lower (strip s) \<notin> set FALSEY"

text \<open>\<open>int(s, 16)\<close> after its prefix: digits, single underscores allowed before each.\<close>

definition hex_digit :: "char \<Rightarrow> int option" where
  "hex_digit c = (let n = int (of_char c) in
     if 48 \<le> n \<and> n \<le> 57 then Some (n - 48) else if 65 \<le> n \<and> n \<le> 70 then Some (n - 55)
     else if 97 \<le> n \<and> n \<le> 102 then Some (n - 87) else None)"

fun hex_run :: "int option \<Rightarrow> bool \<Rightarrow> string \<Rightarrow> int option" where
  "hex_run acc us [] = (if us then None else acc)"
| "hex_run acc us (c # cs) =
     (if c = CHR ''_'' then (if us then None else hex_run acc True cs)
      else case hex_digit c of None \<Rightarrow> None
        | Some d \<Rightarrow> hex_run (Some ((case acc of None \<Rightarrow> 0 | Some a \<Rightarrow> 16 * a) + d)) False cs)"

definition flags_or_none :: "pyconv \<Rightarrow> string \<Rightarrow> flt option res" where
  "flags_or_none C s =
     (if s = [] then Inr None
      else if lower (take 2 s) = ''0x'' then
        Inr (map_option (\<lambda>i. Fin (of_int i)) (hex_run None False (drop 2 (strip s))))
      else case c_int C s of Inr i \<Rightarrow> Inr (Some (Fin (of_int i))) | Inl e \<Rightarrow> if e = ValueError then Inr None else Inl e)"

text \<open>\<open>datetime.fromtimestamp(x, tz=UTC)\<close>: rounded to microseconds, in the years 1 to 9999.\<close>

definition fromtimestamp :: "flt \<Rightarrow> datetime res" where
  "fromtimestamp x =
     (case x of
        Fin r \<Rightarrow> let us = round_half_even (r * 1000000) in
          if - 62135596800 * 1000000 \<le> us \<and> us < 253402300800 * 1000000 then Inr (Aware us) else Inl ValueError
      | NaN \<Rightarrow> Inl ValueError | _ \<Rightarrow> Inl OverflowError)"

text \<open>The optional measurements, a field each when it is there.\<close>

fun read_measures :: "pyconv \<Rightarrow> (string \<times> string) list \<Rightarrow> (string, flt) dict \<Rightarrow> (string, flt) dict res" where
  "read_measures C [] flds = Inr flds"
| "read_measures C ((key, raw) # rest) flds =
     bind_res (float_or_none C raw) (\<lambda>v.
       read_measures C rest (case v of None \<Rightarrow> flds | Some x \<Rightarrow> dict_set key x flds))"

definition nonempty_or :: "string \<Rightarrow> string \<Rightarrow> cell" where
  "nonempty_or a b = (if a \<noteq> [] then Some a else if b \<noteq> [] then Some b else None)"

definition packet_event ::
    "pyconv \<Rightarrow> string \<Rightarrow> string \<Rightarrow> flt \<Rightarrow> string list \<Rightarrow> raw_event res" where
  "packet_event C tenant_id job_id seconds parts =
     (let part = (\<lambda>i. parts ! i) in
      bind_res (read_measures C [(''ttl'', part 8), (''tcp_window'', part 9), (''frame_len'', part 12), (''tcp_len'', part 13)] [])
        (\<lambda>measures.
      bind_res (flags_or_none C (part 14)) (\<lambda>flag_bits.
      bind_res (float_or_none C (part 11)) (\<lambda>raw_offset.
        let flds = (case flag_bits of None \<Rightarrow> measures | Some b \<Rightarrow> dict_set ''tcp_flags'' b measures);
            offset = (case raw_offset of None \<Rightarrow> Fin 0 | Some x \<Rightarrow> if feq x (Fin 0) then Fin 0 else x);
            flds = dict_set ''frag'' (if is_set (part 10) \<or> Fin 0 < offset then Fin 1 else Fin 0) flds;
            flds = dict_set ''retransmission'' (if is_set (part 15) then Fin 1 else Fin 0) flds
        in bind_res (fromtimestamp seconds) (\<lambda>ts.
           bind_res (optional_int C (nonempty_or (part 3) (part 5))) (\<lambda>sport.
           bind_res (optional_int C (nonempty_or (part 4) (part 6))) (\<lambda>dport.
           bind_res (optional_int C (nonempty_or (part 7) [])) (\<lambda>proto.
             validate_raw_event \<lparr>ev_tenant = tenant_id, ev_job = job_id, ev_kind = Packet, ev_ts = ts,
               ev_src = part 1, ev_dst = part 2, ev_sport = sport, ev_dport = dport, ev_proto = proto,
               ev_fields = flds, ev_label = None\<rparr>))))))))"

definition rstrip_newlines :: "string \<Rightarrow> string" where
  "rstrip_newlines s = rev (dropWhile (\<lambda>c. c = CHR 0x0A) (rev s))"

definition parse_tshark_line :: "pyconv \<Rightarrow> string \<Rightarrow> string \<Rightarrow> string \<Rightarrow> raw_event option res" where
  "parse_tshark_line C tenant_id job_id line =
     (let parts = split_str (CHR '','') (rstrip_newlines line) in
      if length parts \<noteq> length TSHARK_FIELDS then Inr None
      else let parts = map strip parts in
        bind_res (float_or_none C (parts ! 0)) (\<lambda>seconds.
          case seconds of None \<Rightarrow> Inr None
          | Some x \<Rightarrow> if parts ! 1 = [] \<or> parts ! 2 = [] then Inr None
              else bind_res (packet_event C tenant_id job_id x parts) (\<lambda>ev. Inr (Some ev))))"

text \<open>The loop over the lines of the process, with the batch that is being filled.\<close>

fun batch_lines ::
    "pyconv \<Rightarrow> string \<Rightarrow> string \<Rightarrow> nat \<Rightarrow> string list \<Rightarrow> raw_event list \<Rightarrow> chunks" where
  "batch_lines C tenant_id job_id batch [] batched = (if batched \<noteq> [] then [batched] else [], None)"
| "batch_lines C tenant_id job_id batch (line # rest) batched =
     (case parse_tshark_line C tenant_id job_id line of
        Inl e \<Rightarrow> ([], Some e)
      | Inr None \<Rightarrow> batch_lines C tenant_id job_id batch rest batched
      | Inr (Some ev) \<Rightarrow>
          (let batched = batched @ [ev] in
           if batch \<le> length batched then
             (case batch_lines C tenant_id job_id batch rest [] of (cs, e) \<Rightarrow> (batched # cs, e))
           else batch_lines C tenant_id job_id batch rest batched))"

text \<open>\<open>resolved\<close> is whether tshark is on the path; its output lines and exit code are arguments.\<close>

definition iter_pcap_events ::
    "pyconv \<Rightarrow> string \<Rightarrow> string \<Rightarrow> nat \<Rightarrow> bool \<Rightarrow> string list \<Rightarrow> int \<Rightarrow> chunks" where
  "iter_pcap_events C tenant_id job_id batch resolved lines exit_code =
     (if \<not> resolved then ([], Some IngestError)
      else case batch_lines C tenant_id job_id batch lines [] of
        (cs, Some e) \<Rightarrow> (cs, Some e)
      | (cs, None) \<Rightarrow> (cs, if exit_code \<noteq> 0 then Some IngestError else None))"

section \<open>What is parsed is valid\<close>

definition chunk_ok :: "event_kind \<Rightarrow> string \<Rightarrow> string \<Rightarrow> raw_event list \<Rightarrow> bool" where
  "chunk_ok kind tenant_id job_id evs \<longleftrightarrow> evs \<noteq> [] \<and> list_all (\<lambda>ev. event_ok ev \<and> ev_kind ev = kind \<and>
     ev_tenant ev = tenant_id \<and> ev_job ev = job_id) evs"

lemma row_event_ok:
  "row_event C P t j (ts, row) = Inr ev \<Longrightarrow>
    event_ok ev \<and> ev_kind ev = Flow \<and> ev_tenant ev = t \<and> ev_job ev = j \<and> as_utc (ev_ts ev) = as_utc ts"
  by (auto simp: row_event_def bind_res_eq_Inr schema_simps)

lemma csv_chunk_ok:
  assumes "csv_chunk_to_events C P t j chunk = Inr (evs, dropped)"
  shows "evs = [] \<or> chunk_ok Flow t j evs" "sorted (map (\<lambda>ev. as_utc (ev_ts ev)) evs)"
    "length evs + dropped = length (fr_rows chunk)"
proof -
  obtain columns rows where r: "rename_columns chunk = (columns, rows)" by force
  have tr: "traverse_res (row_event C P t j) (usable_rows P rows) = Inr evs"
    and d: "dropped = length rows - length (usable_rows P rows)"
    using assms by (auto simp: csv_chunk_to_events_def r bind_res_eq_Inr split: if_splits)
  have all: "list_all2 (\<lambda>tr ev. row_event C P t j tr = Inr ev) (usable_rows P rows) evs"
    using tr by (simp add: traverse_res_Inr)
  then have "list_all (\<lambda>ev. event_ok ev \<and> ev_kind ev = Flow \<and> ev_tenant ev = t \<and> ev_job ev = j) evs"
    by (induction rule: list_all2_induct) (auto dest!: row_event_ok)
  then show "evs = [] \<or> chunk_ok Flow t j evs" by (simp add: chunk_ok_def)
  have "map (\<lambda>ev. as_utc (ev_ts ev)) evs = map (\<lambda>(ts, row). as_utc ts) (usable_rows P rows)"
    using all by (induction rule: list_all2_induct) (auto dest!: row_event_ok)
  then show "sorted (map (\<lambda>ev. as_utc (ev_ts ev)) evs)" by (simp add: usable_rows_def)
  have "length (concat (map (\<lambda>row. case row_ts P row of None \<Rightarrow> [] | Some ts \<Rightarrow> [(ts, row)]) rows)) \<le> length rows"
    by (induction rows) (auto split: option.splits)
  then have "length (usable_rows P rows) \<le> length rows" by (simp add: usable_rows_def)
  moreover have "length rows = length (fr_rows chunk)" using r by (auto simp: rename_columns_def Let_def)
  ultimately show "length evs + dropped = length (fr_rows chunk)"
    using d list_all2_lengthD [OF all] by simp
qed

lemma packet_event_ok:
  "packet_event C t j x parts = Inr ev \<Longrightarrow> event_ok ev \<and> ev_kind ev = Packet \<and> ev_tenant ev = t \<and> ev_job ev = j"
  by (auto simp: packet_event_def Let_def bind_res_eq_Inr schema_simps)

lemma parse_line_ok:
  "parse_tshark_line C t j line = Inr (Some ev) \<Longrightarrow>
    event_ok ev \<and> ev_kind ev = Packet \<and> ev_tenant ev = t \<and> ev_job ev = j"
  by (auto simp: parse_tshark_line_def Let_def bind_res_eq_Inr packet_event_ok split: if_splits option.splits)

lemma batch_lines_ok:
  "list_all (\<lambda>ev. event_ok ev \<and> ev_kind ev = Packet \<and> ev_tenant ev = t \<and> ev_job ev = j) batched \<Longrightarrow>
    length batched < batch \<Longrightarrow>
    list_all (\<lambda>c. chunk_ok Packet t j c \<and> length c \<le> batch) (fst (batch_lines C t j batch lines batched))"
proof (induction C t j batch lines batched rule: batch_lines.induct)
  case (2 C t j batch line rest batched)
  show ?case
  proof (cases "parse_tshark_line C t j line")
    case (Inr o1)
    show ?thesis
    proof (cases o1)
      case None
      with 2 Inr show ?thesis by simp
    next
      case (Some ev)
      have ev: "event_ok ev \<and> ev_kind ev = Packet \<and> ev_tenant ev = t \<and> ev_job ev = j"
        using Inr Some parse_line_ok by simp
      show ?thesis
      proof (cases "batch \<le> length (batched @ [ev])")
        case True
        have "0 < batch" using "2.prems"(2) by simp
        with "2.IH"(2) [OF Inr Some refl True] have
          "list_all (\<lambda>c. chunk_ok Packet t j c \<and> length c \<le> batch) (fst (batch_lines C t j batch rest []))" by simp
        then show ?thesis
          using True ev "2.prems" Inr Some by (auto simp: chunk_ok_def Let_def split: prod.splits)
      next
        case False
        with "2.IH"(3) [OF Inr Some refl False] "2.prems" ev Inr Some show ?thesis by (simp add: Let_def)
      qed
    qed
  qed simp
qed (auto simp: chunk_ok_def)

text \<open>
  A cell that reads as infinite in a usable row ends the chunk with an exception that is not an
  \<open>IngestError\<close>.
\<close>

definition py_floats :: "pyconv \<Rightarrow> bool" where
  "py_floats C \<longleftrightarrow> (\<forall>s e. c_float C s = Inl e \<longrightarrow> e = ValueError)"

lemma optional_int_error: "py_floats C \<Longrightarrow> optional_int C c = Inl e \<Longrightarrow> e = OverflowError"
proof -
  have "fint x = Inl e \<Longrightarrow> x \<noteq> NaN \<Longrightarrow> e = OverflowError" for x by (cases x) auto
  then show "py_floats C \<Longrightarrow> optional_int C c = Inl e \<Longrightarrow> e = OverflowError"
    by (auto simp: optional_int_def py_floats_def bind_res_def split: option.splits sum.splits if_splits)
qed

lemma row_event_error: "py_floats C \<Longrightarrow> row_event C P t j tr = Inl e \<Longrightarrow> e = OverflowError \<or> e = ValueError"
  by (cases tr) (auto simp: row_event_def bind_res_def validate_raw_event_def dest: optional_int_error split: sum.splits if_splits)

lemma traverse_res_error:
  "traverse_res f xs = Inl e \<Longrightarrow> \<exists>x \<in> set xs. f x = Inl e"
  by (induction xs) (auto simp: bind_res_def split: sum.splits)

lemma row_event_fields: "row_event C P t j (ts, row) = Inr ev \<Longrightarrow> ev_fields ev = csv_fields P row"
  by (auto simp: row_event_def bind_res_eq_Inr schema_simps)

lemma csv_infinite_cell:
  assumes "py_floats C" "rename_columns chunk = (columns, rows)" "set CSV_REQUIRED \<subseteq> set columns"
    "(ts, row) \<in> set (usable_rows P rows)" "(k, x) \<in> set (csv_fields P row)" "\<not> isfinite x"
  shows "\<exists>e. e \<noteq> IngestError \<and> csv_chunk_to_events C P t j chunk = Inl e"
proof -
  have no: "row_event C P t j (ts, row) \<noteq> Inr ev" for ev
    using row_event_ok [of C P t j ts row ev] row_event_fields [of C P t j ts row ev] assms(5,6)
    by (auto simp: event_ok_def)
  have "\<not> list_all2 (\<lambda>tr ev. row_event C P t j tr = Inr ev) (usable_rows P rows) evs" for evs
  proof
    assume "list_all2 (\<lambda>tr ev. row_event C P t j tr = Inr ev) (usable_rows P rows) evs"
    then have "\<forall>tr \<in> set (usable_rows P rows). \<exists>ev. row_event C P t j tr = Inr ev"
      by (induction rule: list_all2_induct) auto
    with assms(4) no show False by blast
  qed
  then have "traverse_res (row_event C P t j) (usable_rows P rows) \<noteq> Inr evs" for evs
    by (simp only: traverse_res_Inr not_False_eq_True)
  then obtain e where e: "traverse_res (row_event C P t j) (usable_rows P rows) = Inl e"
    by (meson sumE)
  with traverse_res_error [OF e] row_event_error [OF assms(1)] have "e \<noteq> IngestError" by fastforce
  moreover have "filter (\<lambda>name. name \<notin> set columns) CSV_REQUIRED = []" using assms(3) by (auto simp: filter_empty_conv)
  ultimately show ?thesis using assms(2) e by (simp add: csv_chunk_to_events_def)
qed

text \<open>
  C14. Whatever the file, what is yielded is valid. Every chunk of either source is not empty and holds only
  events that pass the schema, of the source's kind, under the job's own tenant and identifier; a batch
  of packets is at most the batch size, and the events of a CSV chunk are in timestamp order and account for
  every row of it, parsed or dropped.
\<close>

theorem parsed_events_are_valid:
  "list_all (\<lambda>c. chunk_ok Flow t j c \<and> sorted (map (\<lambda>ev. as_utc (ev_ts ev)) c)) (fst (iter_csv_events C P t j frames broken)) \<and>
   list_all (\<lambda>c. chunk_ok Packet t j c \<and> length c \<le> PACKET_BATCH) (fst (iter_pcap_events C t j PACKET_BATCH resolved lines exit_code)) \<and>
   (case csv_chunk_to_events C P t j chunk of Inl e \<Rightarrow> True
    | Inr (evs, dropped) \<Rightarrow> length evs + dropped = length (fr_rows chunk))"
proof -
  have "list_all (\<lambda>c. chunk_ok Flow t j c \<and> sorted (map (\<lambda>ev. as_utc (ev_ts ev)) c)) (fst (iter_csv_events C P t j frames broken))"
  proof (induction frames)
    case (Cons f fs)
    then show ?case
      using csv_chunk_ok [of C P t j f] by (auto split: sum.splits prod.splits)
  qed simp
  moreover have "list_all (\<lambda>c. chunk_ok Packet t j c \<and> length c \<le> PACKET_BATCH)
      (fst (iter_pcap_events C t j PACKET_BATCH resolved lines exit_code))"
    using batch_lines_ok [of t j "[]" PACKET_BATCH C lines]
    by (auto simp: iter_pcap_events_def PACKET_BATCH_def split: prod.splits option.splits)
  moreover have "case csv_chunk_to_events C P t j chunk of Inl e \<Rightarrow> True
      | Inr (evs, dropped) \<Rightarrow> length evs + dropped = length (fr_rows chunk)"
    using csv_chunk_ok(3) [of C P t j chunk] by (auto split: sum.splits)
  ultimately show ?thesis by blast
qed

end
