(* ===== verification/IngestWorker.thy ===== *)
theory IngestWorker
  imports Parsers Action
begin

text \<open>
  \<open>services/ingest/worker.py\<close>: the consumer that replays an uploaded file onto \<open>raw_events\<close>. The world is the
  Redis server, the \<open>ingest_jobs\<close> table, what is on the bus with the instant it got there, and the
  monotonic clock. The text of an exception is the argument \<open>message\<close>. The warning about a chunk
  boundary that goes back in time, and the timestamp kept for it, are logging and left out.
\<close>

definition DEFAULT_CSV_CHUNK_ROWS :: int where "DEFAULT_CSV_CHUNK_ROWS = 5000"

record job_row =
  jr_id :: uuid
  jr_tenant :: uuid
  jr_filename :: string
  jr_kind :: string
  jr_created :: int
  jr_status :: string
  jr_progress :: flt
  jr_error :: "string option"

text \<open>\<open>gw_count\<close> is the \<open>_Published\<close> of the job at hand; \<open>gw_up\<close> is whether the bus takes an event.\<close>

record 's ingest_world =
  gw_redis :: 's
  gw_rows :: "job_row list"
  gw_bus :: "(raw_event \<times> flt) list"
  gw_count :: int
  gw_now :: flt
  gw_up :: bool

record job_result =
  rs_job :: string
  rs_status :: job_status
  rs_published :: int
  rs_all :: int
  rs_error :: string

text \<open>The uploaded file: whether it is there, its bytes, what pandas or tshark reads of it.\<close>

record upload =
  up_is_file :: bool
  up_content :: string
  up_frames :: "int \<Rightarrow> frame list"
  up_broken :: bool
  up_tshark :: bool
  up_lines :: "string list"
  up_exit :: int

definition csv_chunk_rows :: "pyconv \<Rightarrow> tree \<Rightarrow> int res" where
  "csv_chunk_rows C config = bind_res (t_get config ''ingest'' (TMap [])) (\<lambda>block.
     bind_res (t_get block ''csv_chunk_rows'' (TInt DEFAULT_CSV_CHUNK_ROWS)) (t_int C))"

definition tshark_bin :: "pyconv \<Rightarrow> tree \<Rightarrow> string res" where
  "tshark_bin C config = bind_res (t_get config ''ingest'' (TMap [])) (\<lambda>block.
     bind_res (t_get block ''tshark_bin'' (TStr ''tshark'')) (\<lambda>b. Inr (t_str C b)))"

section \<open>Reporting\<close>

definition UPDATE_JOB :: "uuid \<Rightarrow> uuid \<Rightarrow> string \<Rightarrow> flt \<Rightarrow> string option \<Rightarrow> job_row list \<Rightarrow> job_row list" where
  "UPDATE_JOB job_id tenant_id st progress err rows =
     map (\<lambda>r. if jr_id r = job_id \<and> jr_tenant r = tenant_id
       then r\<lparr>jr_status := st, jr_progress := progress, jr_error := err\<rparr> else r) rows"

definition update_row ::
    "pyconv \<Rightarrow> ingest_job \<Rightarrow> job_status \<Rightarrow> flt \<Rightarrow> string \<Rightarrow> ('s ingest_world, unit) act" where
  "update_row C job st progress err =
     (case bind_res (c_uuid C (ij_job job)) (\<lambda>j. bind_res (c_uuid C (ij_tenant job)) (\<lambda>t. Inr (j, t))) of
        Inl e \<Rightarrow> if e = ValueError then ret () else lift_res (Inl e)
      | Inr (j, t) \<Rightarrow> updates (\<lambda>w. w\<lparr>gw_rows :=
          UPDATE_JOB j t (status_str st) progress (if err = [] then None else Some err) (gw_rows w)\<rparr>))"

definition report ::
    "pyconv \<Rightarrow> 's redis_ops \<Rightarrow> ingest_job \<Rightarrow> job_status \<Rightarrow> int \<Rightarrow> int \<Rightarrow> string \<Rightarrow> ('s ingest_world, unit) act" where
  "report C R job st processed all_events err =
     abind (updates (\<lambda>w. w\<lparr>gw_redis := set_progress R (ij_job job) st processed all_events err (gw_redis w)\<rparr>)) (\<lambda>_.
       update_row C job st (progress_fraction processed all_events (status_str st)) err)"

section \<open>Replay\<close>

definition publish_event :: "raw_event \<Rightarrow> ('s ingest_world, unit) act" where
  "publish_event ev = (\<lambda>w. if gw_up w then (Inr (), w\<lparr>gw_bus := gw_bus w @ [(ev, gw_now w)], gw_count := gw_count w + 1\<rparr>)
     else (Inl RedisError, w))"

text \<open>The events of a chunk; the clock is created at the first event of the job.\<close>

fun replay_chunk ::
    "(flt \<Rightarrow> flt \<Rightarrow> flt) \<Rightarrow> ingest_job \<Rightarrow> raw_event list \<Rightarrow> replay_clock option \<Rightarrow> ('s ingest_world, replay_clock option) act" where
  "replay_chunk sleep job [] clock = ret clock"
| "replay_chunk sleep job (ev # evs) clock =
     abind (reads (\<lambda>w. case clock of None \<Rightarrow> replay_clock_of (ev_ts ev) (ij_speed job) (gw_now w) | Some K \<Rightarrow> K)) (\<lambda>K.
     abind (updates (\<lambda>w. w\<lparr>gw_now := snd (wait_until sleep K (ev_ts ev) (gw_now w))\<rparr>)) (\<lambda>_.
     abind (publish_event ev) (\<lambda>_. replay_chunk sleep job evs (Some K))))"

fun replay ::
    "pyconv \<Rightarrow> 's redis_ops \<Rightarrow> (flt \<Rightarrow> flt \<Rightarrow> flt) \<Rightarrow> ingest_job \<Rightarrow> int \<Rightarrow> raw_event list list \<Rightarrow> py_error option \<Rightarrow>
     replay_clock option \<Rightarrow> ('s ingest_world, unit) act" where
  "replay C R sleep job all_events [] failure clock =
     (case failure of None \<Rightarrow> ret () | Some e \<Rightarrow> lift_res (Inl e))"
| "replay C R sleep job all_events (chunk # rest) failure clock =
     abind (replay_chunk sleep job chunk clock) (\<lambda>clock'.
     abind (\<lambda>w. report C R job Job_running (gw_count w) all_events [] w) (\<lambda>_.
       replay C R sleep job all_events rest failure clock'))"

definition source_of :: "pyconv \<Rightarrow> pandas \<Rightarrow> int \<Rightarrow> ingest_job \<Rightarrow> upload \<Rightarrow> chunks" where
  "source_of C P chunk_rows job U =
     (case ij_kind job of
        Csv \<Rightarrow> iter_csv_events C P (ij_tenant job) (ij_job job) (up_frames U chunk_rows) (up_broken U)
      | Pcap \<Rightarrow> iter_pcap_events C (ij_tenant job) (ij_job job) PACKET_BATCH (up_tshark U) (up_lines U) (up_exit U))"

definition expected_events :: "ingest_job \<Rightarrow> upload \<Rightarrow> int" where
  "expected_events job U = (if up_is_file U \<and> ij_kind job = Csv then int (count_csv_rows (up_content U)) else 0)"

text \<open>The body of the \<open>try\<close>.\<close>

definition attempt ::
    "pyconv \<Rightarrow> pandas \<Rightarrow> 's redis_ops \<Rightarrow> tree \<Rightarrow> (flt \<Rightarrow> flt \<Rightarrow> flt) \<Rightarrow> ingest_job \<Rightarrow> upload \<Rightarrow> ('s ingest_world, unit) act" where
  "attempt C P R config sleep job U =
     (if \<not> up_is_file U then lift_res (Inl IngestError)
      else abind (report C R job Job_running 0 (expected_events job U) []) (\<lambda>_.
           abind (lift_res (case ij_kind job of Csv \<Rightarrow> csv_chunk_rows C config
               | Pcap \<Rightarrow> bind_res (tshark_bin C config) (\<lambda>_. Inr 0))) (\<lambda>chunk_rows.
             (case source_of C P chunk_rows job U of (chunks, failure) \<Rightarrow>
               replay C R sleep job (expected_events job U) chunks failure None))))"

definition run_job ::
    "pyconv \<Rightarrow> pandas \<Rightarrow> 's redis_ops \<Rightarrow> tree \<Rightarrow> (flt \<Rightarrow> flt \<Rightarrow> flt) \<Rightarrow> string \<Rightarrow> ingest_job \<Rightarrow> upload \<Rightarrow>
     ('s ingest_world, job_result) act" where
  "run_job C P R config sleep message job U =
     (let n = expected_events job U in
      abind (updates (\<lambda>w. w\<lparr>gw_count := 0\<rparr>)) (\<lambda>_ w.
        (case attempt C P R config sleep job U w of
           (Inl e, w1) \<Rightarrow>
             if e = IngestError then
               abind (report C R job Job_error (gw_count w1) n message) (\<lambda>_.
                 ret \<lparr>rs_job = ij_job job, rs_status = Job_error, rs_published = gw_count w1, rs_all = n, rs_error = message\<rparr>) w1
             else (Inl e, w1)
         | (Inr u, w1) \<Rightarrow>
             abind (report C R job Job_complete (gw_count w1) n []) (\<lambda>_.
               ret \<lparr>rs_job = ij_job job, rs_status = Job_complete, rs_published = gw_count w1, rs_all = n, rs_error = []\<rparr>) w1)))"

text \<open>The bus entry point; \<open>files\<close> is what is found at a path.\<close>

definition handle_job ::
    "(string \<Rightarrow> ingest_job res) \<Rightarrow> pyconv \<Rightarrow> pandas \<Rightarrow> 's redis_ops \<Rightarrow> tree \<Rightarrow> (flt \<Rightarrow> flt \<Rightarrow> flt) \<Rightarrow> string \<Rightarrow>
     (string \<Rightarrow> upload) \<Rightarrow> string \<Rightarrow> ('s ingest_world, job_result) act" where
  "handle_job load C P R config sleep message files payload =
     abind (lift_res (load payload)) (\<lambda>job. run_job C P R config sleep message job (files (ij_path job)))"

section \<open>What a job leaves behind\<close>

lemma report_run:
  assumes "c_uuid C (ij_job job) = Inr j" "c_uuid C (ij_tenant job) = Inr t"
  shows "report C R job st n m err w =
    (Inr (), w\<lparr>gw_redis := set_progress R (ij_job job) st n m err (gw_redis w),
      gw_rows := UPDATE_JOB j t (status_str st) (progress_fraction n m (status_str st)) (if err = [] then None else Some err) (gw_rows w)\<rparr>)"
  by (simp add: report_def update_row_def assms act_simps)

lemma replay_chunk_run:
  assumes "gw_up w"
  shows "\<exists>K times w'. replay_chunk sleep job evs clock w = (Inr K, w') \<and> gw_bus w' = gw_bus w @ zip evs times \<and>
    length times = length evs \<and> gw_count w' = gw_count w + int (length evs) \<and> gw_redis w' = gw_redis w \<and>
    gw_rows w' = gw_rows w \<and> gw_up w'"
  using assms
proof (induction evs arbitrary: clock w)
  case (Cons ev evs)
  define K where "K = (case clock of None \<Rightarrow> replay_clock_of (ev_ts ev) (ij_speed job) (gw_now w) | Some K \<Rightarrow> K)"
  let ?now = "snd (wait_until sleep K (ev_ts ev) (gw_now w))"
  let ?w = "w\<lparr>gw_now := ?now, gw_bus := gw_bus w @ [(ev, ?now)], gw_count := gw_count w + 1\<rparr>"
  have r: "replay_chunk sleep job (ev # evs) clock w = replay_chunk sleep job evs (Some K) ?w"
    using Cons.prems by (simp add: act_simps publish_event_def abind_def K_def)
  have "gw_up ?w" using Cons.prems by simp
  from Cons.IH [OF this, of "Some K"] obtain K' times w' where
    "replay_chunk sleep job evs (Some K) ?w = (Inr K', w')" "gw_bus w' = gw_bus ?w @ zip evs times"
    "length times = length evs" "gw_count w' = gw_count ?w + int (length evs)" "gw_redis w' = gw_redis ?w"
    "gw_rows w' = gw_rows ?w" "gw_up w'" by blast
  then show ?case
    unfolding r by (intro exI [of _ K'] exI [of _ "?now # times"] exI [of _ w']) simp
qed (simp add: act_simps)

text \<open>The progress of a job as its hash and its row show it, and the rows it does not touch.\<close>

definition shows_status :: "'s redis_ops \<Rightarrow> ingest_job \<Rightarrow> uuid \<Rightarrow> uuid \<Rightarrow> job_status \<Rightarrow> int \<Rightarrow> 's ingest_world \<Rightarrow> bool" where
  "shows_status R job j t st n w \<longleftrightarrow>
     map_of (read_progress R (ij_job job) (gw_redis w)) ''status'' = Some (status_str st) \<and>
     map_of (read_progress R (ij_job job) (gw_redis w)) ''processed'' = Some (int_str n) \<and>
     list_all (\<lambda>r. jr_id r = j \<and> jr_tenant r = t \<longrightarrow> jr_status r = status_str st) (gw_rows w)"

definition other_rows_kept :: "uuid \<Rightarrow> uuid \<Rightarrow> job_row list \<Rightarrow> job_row list \<Rightarrow> bool" where
  "other_rows_kept j t rows rows' \<longleftrightarrow> list_all2 (\<lambda>r0 r. jr_id r = jr_id r0 \<and> jr_tenant r = jr_tenant r0 \<and>
     (jr_id r0 = j \<and> jr_tenant r0 = t \<or> r = r0)) rows rows'"

lemma other_rows_refl [simp]: "other_rows_kept j t rows rows"
  by (simp add: other_rows_kept_def list_all2_same)

lemma other_rows_update: "other_rows_kept j t rows rows' \<Longrightarrow> other_rows_kept j t rows (UPDATE_JOB j t st p e rows')"
  unfolding other_rows_kept_def UPDATE_JOB_def list_all2_map2 by (erule list_all2_mono) auto

lemma rows_updated:
  "list_all (\<lambda>r. jr_id r = j \<and> jr_tenant r = t \<longrightarrow> jr_status r = st) (UPDATE_JOB j t st p e rows)"
  by (induction rows) (auto simp: UPDATE_JOB_def)

context redis_laws
begin

lemma progress_reads:
  "map_of (read_progress R job_id (set_progress R job_id st n m err s)) ''status'' = Some (status_str st)"
  "map_of (read_progress R job_id (set_progress R job_id st n m err s)) ''processed'' = Some (int_str n)"
  by (simp_all add: read_progress_def set_progress_def hset_same map_add_def)

lemma report_shows:
  assumes "c_uuid C (ij_job job) = Inr j" "c_uuid C (ij_tenant job) = Inr t" "other_rows_kept j t rows (gw_rows w)"
  shows "\<exists>w'. report C R job st n m err w = (Inr (), w') \<and> shows_status R job j t st n w' \<and>
    other_rows_kept j t rows (gw_rows w') \<and> gw_bus w' = gw_bus w \<and> gw_count w' = gw_count w \<and> gw_up w' = gw_up w"
  using report_run [OF assms(1,2), of R st n m err w] assms(3)
  by (simp add: shows_status_def progress_reads rows_updated other_rows_update)

lemma replay_run:
  assumes "c_uuid C (ij_job job) = Inr j" "c_uuid C (ij_tenant job) = Inr t"
  shows "other_rows_kept j t rows (gw_rows w) \<Longrightarrow> gw_up w \<Longrightarrow> shows_status R job j t Job_running (gw_count w) w \<Longrightarrow>
    \<exists>w'. replay C R sleep job m chunks failure clock w = (case failure of None \<Rightarrow> Inr () | Some e \<Rightarrow> Inl e, w') \<and>
      map fst (gw_bus w') = map fst (gw_bus w) @ concat chunks \<and> gw_count w' = gw_count w + int (length (concat chunks)) \<and>
      shows_status R job j t Job_running (gw_count w') w' \<and> other_rows_kept j t rows (gw_rows w') \<and> gw_up w'"
proof (induction chunks arbitrary: clock w)
  case Nil
  then show ?case by (auto simp: act_simps split: option.splits)
next
  case (Cons evs chunks)
  obtain K times w1 where w1: "replay_chunk sleep job evs clock w = (Inr K, w1)" "gw_bus w1 = gw_bus w @ zip evs times"
    "length times = length evs" "gw_count w1 = gw_count w + int (length evs)" "gw_rows w1 = gw_rows w" "gw_up w1"
    using replay_chunk_run [OF Cons.prems(2)] by blast
  from Cons.prems(1) have "other_rows_kept j t rows (gw_rows w1)" by (simp add: w1(5))
  from report_shows [OF assms this] obtain w2 where w2: "report C R job Job_running (gw_count w1) m [] w1 = (Inr (), w2)"
    "shows_status R job j t Job_running (gw_count w1) w2" "other_rows_kept j t rows (gw_rows w2)" "gw_bus w2 = gw_bus w1"
    "gw_count w2 = gw_count w1" "gw_up w2 = gw_up w1" by blast
  have "replay C R sleep job m (evs # chunks) failure clock w = replay C R sleep job m chunks failure K w2"
    by (simp add: abind_def w1(1) w2(1))
  moreover obtain w3 where "replay C R sleep job m chunks failure K w2 = (case failure of None \<Rightarrow> Inr () | Some e \<Rightarrow> Inl e, w3)"
      "map fst (gw_bus w3) = map fst (gw_bus w2) @ concat chunks" "gw_count w3 = gw_count w2 + int (length (concat chunks))"
      "shows_status R job j t Job_running (gw_count w3) w3" "other_rows_kept j t rows (gw_rows w3)" "gw_up w3"
    using Cons.IH [of w2 K] w2 w1(6) by auto
  ultimately show ?case using w1 w2 by auto
qed

end

definition chunk_rows_of :: "pyconv \<Rightarrow> tree \<Rightarrow> ingest_job \<Rightarrow> int res" where
  "chunk_rows_of C config job = (case ij_kind job of Csv \<Rightarrow> csv_chunk_rows C config
     | Pcap \<Rightarrow> bind_res (tshark_bin C config) (\<lambda>_. Inr 0))"

text \<open>
  C11. A job ends in one of three ways, and says so. While Redis and the database answer, the events its source
  yields are on the bus in the source's order, none missing and none twice. When the source ends,
  the job is complete; when it fails with an \<open>IngestError\<close>, the message is acknowledged and the job is in error
  with the number that reached the bus; any other exception leaves the message pending, the job still
  running. The hash and the row of this tenant's job agree, and no other row changes.
\<close>

theorem job_outcome:
  assumes "redis_laws R F" "c_uuid C (ij_job job) = Inr j" "c_uuid C (ij_tenant job) = Inr t" "gw_up w" "up_is_file U"
    "chunk_rows_of C config job = Inr n" "source_of C P n job U = (chunks, failure)"
    "run_job C P R config sleep message job U w = (r, w')"
  shows "map fst (gw_bus w') = map fst (gw_bus w) @ concat chunks \<and> gw_up w' \<and> other_rows_kept j t (gw_rows w) (gw_rows w') \<and>
    (let result = \<lambda>st err. \<lparr>rs_job = ij_job job, rs_status = st, rs_published = int (length (concat chunks)),
           rs_all = expected_events job U, rs_error = err\<rparr>;
         shown = \<lambda>st. shows_status R job j t st (int (length (concat chunks))) w'
     in case failure of
          None \<Rightarrow> r = Inr (result Job_complete []) \<and> shown Job_complete
        | Some e \<Rightarrow> if e = IngestError then r = Inr (result Job_error message) \<and> shown Job_error
            else r = Inl e \<and> shown Job_running)"
proof -
  let ?m = "expected_events job U" and ?w0 = "w\<lparr>gw_count := 0\<rparr>"
  have "other_rows_kept j t (gw_rows w) (gw_rows ?w0)" by simp
  from redis_laws.report_shows [OF assms(1-3) this, of Job_running 0 ?m "[]"] obtain w1 where
    w1: "report C R job Job_running 0 ?m [] ?w0 = (Inr (), w1)" "shows_status R job j t Job_running 0 w1"
      "other_rows_kept j t (gw_rows w) (gw_rows w1)" "gw_bus w1 = gw_bus w" "gw_count w1 = 0" "gw_up w1"
    using assms(4) by auto
  from redis_laws.replay_run [OF assms(1-3) w1(3,6), of sleep ?m chunks failure None] w1(2,4,5) obtain w2 where
    w2: "replay C R sleep job ?m chunks failure None w1 = (case failure of None \<Rightarrow> Inr () | Some e \<Rightarrow> Inl e, w2)"
      "map fst (gw_bus w2) = map fst (gw_bus w) @ concat chunks" "gw_count w2 = int (length (concat chunks))"
      "shows_status R job j t Job_running (gw_count w2) w2" "other_rows_kept j t (gw_rows w) (gw_rows w2)" "gw_up w2"
    by auto
  have at: "attempt C P R config sleep job U ?w0 = (case failure of None \<Rightarrow> Inr () | Some e \<Rightarrow> Inl e, w2)"
    using assms(5-7) w1(1) w2(1) by (simp add: attempt_def abind_def lift_res_def chunk_rows_of_def)
  obtain w3 where w3: "report C R job Job_complete (gw_count w2) ?m [] w2 = (Inr (), w3)"
      "shows_status R job j t Job_complete (gw_count w2) w3" "other_rows_kept j t (gw_rows w) (gw_rows w3)" "gw_bus w3 = gw_bus w2" "gw_up w3"
    using redis_laws.report_shows [OF assms(1-3) w2(5)] w2(6) by blast
  obtain w4 where w4: "report C R job Job_error (gw_count w2) ?m message w2 = (Inr (), w4)"
      "shows_status R job j t Job_error (gw_count w2) w4" "other_rows_kept j t (gw_rows w) (gw_rows w4)" "gw_bus w4 = gw_bus w2" "gw_up w4"
    using redis_laws.report_shows [OF assms(1-3) w2(5)] w2(6) by blast
  have run: "run_job C P R config sleep message job U w = (case failure of
      None \<Rightarrow> (Inr \<lparr>rs_job = ij_job job, rs_status = Job_complete, rs_published = gw_count w2, rs_all = ?m, rs_error = []\<rparr>, w3)
    | Some e \<Rightarrow> if e = IngestError then
        (Inr \<lparr>rs_job = ij_job job, rs_status = Job_error, rs_published = gw_count w2, rs_all = ?m, rs_error = message\<rparr>, w4)
      else (Inl e, w2))"
    using at w3(1) w4(1) by (simp add: run_job_def Let_def abind_def updates_def ret_def split: option.splits)
  show ?thesis
    using assms(8) run w2 w3 w4 by (auto simp: Let_def split: option.splits if_splits)
qed

section \<open>A cell that reads as infinite\<close>

lemma iter_csv_until_error:
  assumes "\<forall>c \<in> set good. \<exists>x. csv_chunk_to_events C P t j c = Inr x" "csv_chunk_to_events C P t j bad = Inl e"
  shows "\<exists>cs. iter_csv_events C P t j (good @ bad # rest) broken = (cs, Some e)"
  using assms(1)
proof (induction good)
  case (Cons c good)
  then obtain evs n cs where "csv_chunk_to_events C P t j c = Inr (evs, n)"
    "iter_csv_events C P t j (good @ bad # rest) broken = (cs, Some e)" by auto
  then show ?case by simp
qed (simp add: assms(2))

text \<open>
  One infinite cell makes a CSV job fail forever. The exception of the event it would become is not an
  \<open>IngestError\<close>: the job is left running, its message stays pending, and every redelivery publishes the
  chunks before it once more and fails in the same way.
\<close>

lemma infinite_cell_poisons_job:
  assumes "redis_laws R F" "c_uuid C (ij_job job) = Inr j" "c_uuid C (ij_tenant job) = Inr t" "gw_up w" "up_is_file U"
    "ij_kind job = Csv" "csv_chunk_rows C config = Inr n" "up_frames U n = good @ bad # rest"
    "\<forall>c \<in> set good. \<exists>x. csv_chunk_to_events C P (ij_tenant job) (ij_job job) c = Inr x"
    "py_floats C" "rename_columns bad = (columns, rows)" "set CSV_REQUIRED \<subseteq> set columns"
    "(ts, row) \<in> set (usable_rows P rows)" "(k, x) \<in> set (csv_fields P row)" "\<not> isfinite x"
    "run_job C P R config sleep message job U w = (r, w1)" "run_job C P R config sleep message job U w1 = (r', w2)"
  shows "\<exists>e. e \<noteq> IngestError \<and> r = Inl e \<and> r' = Inl e \<and>
    (\<exists>m. shows_status R job j t Job_running m w2) \<and>
    map fst (gw_bus w2) = map fst (gw_bus w) @ concat (fst (source_of C P n job U)) @ concat (fst (source_of C P n job U))"
proof -
  obtain e where e: "e \<noteq> IngestError" "csv_chunk_to_events C P (ij_tenant job) (ij_job job) bad = Inl e"
    using csv_infinite_cell [OF assms(10-15)] by blast
  from iter_csv_until_error [OF assms(9) e(2)] obtain cs where src: "source_of C P n job U = (cs, Some e)"
    by (auto simp: source_of_def assms(6,8))
  have n: "chunk_rows_of C config job = Inr n" by (simp add: chunk_rows_of_def assms(6,7))
  note run1 = job_outcome [OF assms(1-5) n src assms(16)]
  then have up: "gw_up w1" by simp
  from run1 job_outcome [OF assms(1-3) up assms(5) n src assms(17)] e(1) show ?thesis
    by (auto simp: Let_def src)
qed

section \<open>Pacing\<close>

text \<open>What \<open>asyncio.sleep\<close> promises: at least the delay has passed on the monotonic clock.\<close>

definition honest_sleep :: "(flt \<Rightarrow> flt \<Rightarrow> flt) \<Rightarrow> bool" where
  "honest_sleep sleep \<longleftrightarrow> (\<forall>n d. 0 < d \<longrightarrow> (\<exists>m. sleep (Fin n) (Fin d) = Fin m \<and> n + d \<le> m))"

definition on_time :: "replay_clock \<Rightarrow> raw_event \<times> flt \<Rightarrow> bool" where
  "on_time K p \<longleftrightarrow> (\<exists>x. snd p = Fin x \<and> delay_for K (ev_ts (fst p)) (Fin x) \<le> Fin 0)"

definition paced_to :: "replay_clock \<Rightarrow> 's ingest_world \<Rightarrow> 's ingest_world \<Rightarrow> bool" where
  "paced_to K w w' \<longleftrightarrow> (\<exists>n n' new. gw_now w = Fin n \<and> gw_now w' = Fin n' \<and> n \<le> n' \<and>
     gw_bus w' = gw_bus w @ new \<and> list_all (on_time K) new)"

lemma paced_to_refl: "gw_now w = Fin n \<Longrightarrow> gw_now w' = gw_now w \<Longrightarrow> gw_bus w' = gw_bus w \<Longrightarrow> paced_to K w w'"
  by (auto simp: paced_to_def)

lemma paced_to_trans [trans]:
  assumes "paced_to K w w1" "paced_to K w1 w2"
  shows "paced_to K w w2"
proof -
  obtain n n1 new where a: "gw_now w = Fin n" "gw_now w1 = Fin n1" "n \<le> n1" "gw_bus w1 = gw_bus w @ new"
      "list_all (on_time K) new" using assms(1) unfolding paced_to_def by blast
  obtain n2 new2 where b: "gw_now w2 = Fin n2" "n1 \<le> n2" "gw_bus w2 = gw_bus w1 @ new2" "list_all (on_time K) new2"
    using assms(2) a(2) unfolding paced_to_def by auto
  then show ?thesis unfolding paced_to_def using a b
    by (intro exI [of _ n] exI [of _ n2] exI [of _ "new @ new2"]) auto
qed

lemma wait_on_time:
  assumes "honest_sleep sleep" "rc_speed K = Fin v" "rc_start K = Fin s" "wait_until sleep K ts (Fin n) = (d, now)"
  shows "\<exists>x. now = Fin x \<and> n \<le> x \<and> delay_for K ts now \<le> Fin 0"
proof (cases "delay_for K ts (Fin n) \<le> Fin 0")
  case True
  with assms(4) show ?thesis by (auto simp: wait_until_def Let_def)
next
  case False
  then have v: "0 < v" using assms(2) by (cases "0 < v") (simp_all add: delay_for_def paced_def)
  obtain q where q: "\<And>m. delay_for K ts (Fin m) = Fin (q - m)"
  proof -
    have "delay_for K ts (Fin m) = Fin (of_int (as_utc ts - rc_first_ts K) / 1000000 / v + s - m)" for m
      using v assms(2,3) by (simp add: delay_for_def paced_def)
    with that show ?thesis by blast
  qed
  have pos: "0 < q - n" using False by (simp add: q)
  obtain m where m: "sleep (Fin n) (Fin (q - n)) = Fin m" "n + (q - n) \<le> m"
    using assms(1) pos unfolding honest_sleep_def by blast
  have "now = Fin m" using assms(4) False m(1) by (simp add: wait_until_def Let_def q)
  with m(2) pos show ?thesis by (simp add: q)
qed

lemma chunk_paced:
  assumes "honest_sleep sleep" "rc_speed K = Fin v" "rc_start K = Fin s"
  shows "gw_now w = Fin n \<Longrightarrow> replay_chunk sleep job evs (Some K) w = (r, w') \<Longrightarrow>
    paced_to K w w' \<and> (case r of Inl e \<Rightarrow> True | Inr c \<Rightarrow> c = Some K)"
proof (induction evs arbitrary: w n)
  case Nil
  then show ?case by (auto simp: act_simps intro: paced_to_refl)
next
  case (Cons ev evs)
  obtain d now where wt: "wait_until sleep K (ev_ts ev) (Fin n) = (d, now)" by force
  from wait_on_time [OF assms wt] obtain x where x: "now = Fin x" "n \<le> x" "delay_for K (ev_ts ev) now \<le> Fin 0" by blast
  let ?w1 = "w\<lparr>gw_now := now, gw_bus := gw_bus w @ [(ev, now)], gw_count := gw_count w + 1\<rparr>"
  have run: "replay_chunk sleep job (ev # evs) (Some K) w =
      (if gw_up w then replay_chunk sleep job evs (Some K) ?w1 else (Inl RedisError, w\<lparr>gw_now := now\<rparr>))"
    using Cons.prems(1) by (simp add: act_simps publish_event_def abind_def wt)
  show ?case
  proof (cases "gw_up w")
    case True
    have "paced_to K w ?w1" using Cons.prems(1) x by (auto simp: paced_to_def on_time_def)
    moreover have "paced_to K ?w1 w' \<and> (case r of Inl e \<Rightarrow> True | Inr c \<Rightarrow> c = Some K)"
      using Cons.IH [of ?w1 x] Cons.prems(2) run True x(1) by simp
    ultimately show ?thesis using paced_to_trans by blast
  next
    case False
    with Cons.prems run x show ?thesis by (auto simp: paced_to_def)
  qed
qed

lemma report_time:
  "report C R job st n m err w = (r, w') \<Longrightarrow> gw_now w' = gw_now w \<and> gw_bus w' = gw_bus w"
  by (auto simp: report_def update_row_def abind_def updates_def ret_def lift_res_def split: sum.splits if_splits)

lemma replay_paced:
  assumes "honest_sleep sleep" "rc_speed K = Fin v" "rc_start K = Fin s"
  shows "gw_now w = Fin n \<Longrightarrow> replay C R sleep job m chunks failure (Some K) w = (r, w') \<Longrightarrow> paced_to K w w'"
proof (induction chunks arbitrary: w n)
  case Nil
  then show ?case by (auto simp: act_simps intro: paced_to_refl split: option.splits)
next
  case (Cons evs chunks)
  obtain r1 w1 where w1: "replay_chunk sleep job evs (Some K) w = (r1, w1)" by force
  obtain r2 w2 where w2: "report C R job Job_running (gw_count w1) m [] w1 = (r2, w2)" by force
  note c = chunk_paced [OF assms Cons.prems(1) w1] and rt = report_time [OF w2]
  obtain n1 where n1: "gw_now w1 = Fin n1" using c by (auto simp: paced_to_def)
  have "paced_to K w1 w2" using rt n1 by (intro paced_to_refl [of _ n1]) auto
  with c have w12: "paced_to K w w2" using paced_to_trans by blast
  show ?case
  proof (cases r1)
    case (Inl e)
    then show ?thesis using Cons.prems(2) w1 c by (simp add: abind_def)
  next
    case (Inr c1)
    then have c1: "c1 = Some K" using c by simp
    show ?thesis
    proof (cases r2)
      case (Inl e)
      then show ?thesis using Cons.prems(2) w1 w2 Inr w12 by (simp add: abind_def)
    next
      case (Inr u)
      then have "replay C R sleep job m chunks failure (Some K) w2 = (r, w')"
        using Cons.prems(2) w1 w2 \<open>r1 = Inr c1\<close> c1 by (simp add: abind_def)
      with Cons.IH [of w2 n1] rt n1 w12 show ?thesis using paced_to_trans by auto
    qed
  qed
qed

lemma replay_chunk_first:
  "replay_chunk sleep job (ev # evs) None w =
    replay_chunk sleep job (ev # evs) (Some (replay_clock_of (ev_ts ev) (ij_speed job) (gw_now w))) w"
  by (simp add: abind_def reads_def)

lemma replay_first:
  assumes "concat chunks = first # others"
  shows "\<exists>w0. gw_now w0 = gw_now w \<and> gw_bus w0 = gw_bus w \<and> ((\<exists>e. replay C R sleep job m chunks failure None w = (Inl e, w0)) \<or>
    (\<exists>chunks'. replay C R sleep job m chunks failure None w =
      replay C R sleep job m chunks' failure (Some (replay_clock_of (ev_ts first) (ij_speed job) (gw_now w0))) w0))"
  using assms
proof (induction chunks arbitrary: w)
  case (Cons evs chunks)
  show ?case
  proof (cases evs)
    case Nil
    obtain r2 w2 where w2: "report C R job Job_running (gw_count w) m [] w = (r2, w2)" by force
    note rt = report_time [OF w2]
    have step: "replay C R sleep job m (evs # chunks) failure None w =
        (case r2 of Inl e \<Rightarrow> (Inl e, w2) | Inr u \<Rightarrow> replay C R sleep job m chunks failure None w2)"
      using w2 by (simp add: Nil abind_def ret_def split: sum.split)
    show ?thesis
    proof (cases r2)
      case (Inl e)
      then show ?thesis using step rt by (intro exI [of _ w2]) auto
    next
      case (Inr u)
      have "concat chunks = first # others" using Cons.prems Nil by simp
      from Cons.IH [OF this, of w2] show ?thesis using step Inr rt by auto
    qed
  next
    case (Cons ev evs')
    have "replay C R sleep job m (evs # chunks) failure None w =
        replay C R sleep job m (evs # chunks) failure (Some (replay_clock_of (ev_ts first) (ij_speed job) (gw_now w))) w"
      using \<open>concat (evs # chunks) = first # others\<close> unfolding Cons by (simp only: replay.simps replay_chunk_first abind_def concat.simps append.simps list.inject)
    then show ?thesis by (intro exI [of _ w] conjI disjI2 exI [of _ "evs # chunks"]) (simp_all del: replay.simps)
  qed
qed simp


text \<open>
  C12. A replay never runs ahead of its capture. With a positive speed and a sleep that lasts at least as long
  as asked, every event of a job reaches the bus no earlier than its capture time says: as long after the
  job's start as its timestamp lies after the first event's, divided by the speed. Late is
  allowed, early is not, also when the job ends with an exception.
\<close>

theorem replay_never_early:
  assumes "honest_sleep sleep" "ij_speed job = Fin v" "0 < v" "gw_now w = Fin s" "up_is_file U"
    "chunk_rows_of C config job = Inr n" "source_of C P n job U = (chunks, failure)" "concat chunks = first # others"
    "run_job C P R config sleep message job U w = (r, w')"
  shows "\<exists>new. gw_bus w' = gw_bus w @ new \<and> list_all (\<lambda>(ev, at_s). \<exists>x. at_s = Fin x \<and>
    s + of_int (as_utc (ev_ts ev) - as_utc (ev_ts first)) / 1000000 / v \<le> x) new"
proof -
  let ?K = "replay_clock_of (ev_ts first) (ij_speed job) (Fin s)"
  let ?w0 = "w\<lparr>gw_count := 0\<rparr>"
  obtain r1 w1 where w1: "attempt C P R config sleep job U ?w0 = (r1, w1)" by force
  have "paced_to ?K ?w0 w1"
  proof -
    obtain r0 wr where wr: "report C R job Job_running 0 (expected_events job U) [] ?w0 = (r0, wr)" by force
    have wr': "gw_now wr = Fin s" "gw_bus wr = gw_bus w" using report_time [OF wr] assms(4) by auto
    have att: "attempt C P R config sleep job U ?w0 =
        (case r0 of Inl e \<Rightarrow> (Inl e, wr) | Inr u \<Rightarrow> replay C R sleep job (expected_events job U) chunks failure None wr)"
      using assms(5-7) wr by (simp add: attempt_def abind_def lift_res_def chunk_rows_of_def split: sum.split)
    have here: "paced_to ?K ?w0 w2" if "gw_now w2 = Fin s" "gw_bus w2 = gw_bus w" for w2
      using that assms(4) by (intro paced_to_refl [of _ s]) auto
    show ?thesis
    proof (cases r0)
      case (Inl e)
      then show ?thesis using att w1 wr' here by simp
    next
      case (Inr u)
      obtain w2 where w2: "gw_now w2 = Fin s" "gw_bus w2 = gw_bus w"
        "(\<exists>e. (r1, w1) = (Inl e, w2)) \<or> (\<exists>chunks'. (r1, w1) = replay C R sleep job (expected_events job U) chunks' failure (Some ?K) w2)"
        using replay_first [OF assms(8), of wr C R sleep job "expected_events job U" failure] att w1 Inr wr' by fastforce
      have k: "rc_speed ?K = Fin v" "rc_start ?K = Fin s" by (simp_all add: replay_clock_of_def assms(2))
      show ?thesis using w2(3)
      proof (elim disjE exE)
        fix chunks'
        assume "(r1, w1) = replay C R sleep job (expected_events job U) chunks' failure (Some ?K) w2"
        from replay_paced [OF assms(1) k w2(1) this [symmetric]] show ?thesis
          by (rule paced_to_trans [OF here [OF w2(1,2)]])
      qed (use here [OF w2(1,2)] in simp)
    qed
  qed
  then obtain new where new: "gw_bus w1 = gw_bus w @ new" "list_all (on_time ?K) new" by (auto simp: paced_to_def)
  have "gw_bus w' = gw_bus w1"
    using assms(9) w1 by (auto simp: run_job_def Let_def abind_def updates_def ret_def dest!: report_time split: sum.splits prod.splits if_splits)
  moreover have "list_all (\<lambda>(ev, at_s). \<exists>x. at_s = Fin x \<and>
      s + of_int (as_utc (ev_ts ev) - as_utc (ev_ts first)) / 1000000 / v \<le> x) new"
    using new(2) assms(2,3)
    by (auto simp: list_all_iff on_time_def delay_for_def paced_def replay_clock_of_def elim!: ballE)
  ultimately show ?thesis using new(1) by auto
qed


section \<open>A concrete job\<close>

definition demo_pandas :: pandas where
  "demo_pandas = \<lparr>pd_datetime = (\<lambda>s. case int_parse s of Inr i \<Rightarrow> Some (Naive (i * 1000000)) | Inl e \<Rightarrow> None),
     pd_numeric = (\<lambda>s. case parse_flt s of Inr x \<Rightarrow> x | Inl e \<Rightarrow> NaN)\<rparr>"

definition demo_frame :: "string \<Rightarrow> frame" where
  "demo_frame pkts = \<lparr>fr_columns = ['' Source IP'', ''Destination_IP'', ''Timestamp'', ''Tot Fwd Pkts''],
     fr_rows = [[Some ''a'', Some ''b'', Some ''90'', Some pkts], [Some ''a'', Some ''b'', Some ''Timestamp'', None]]\<rparr>"

definition demo_job :: ingest_job where
  "demo_job = \<lparr>ij_job = ''1'', ij_tenant = ''2'', ij_kind = Csv, ij_path = ''/up'', ij_filename = ''f'', ij_speed = Fin 60\<rparr>"

definition demo_upload :: "string \<Rightarrow> upload" where
  "demo_upload pkts = \<lparr>up_is_file = True, up_content = [], up_frames = (\<lambda>n. [demo_frame ''1'', demo_frame pkts]),
     up_broken = False, up_tshark = False, up_lines = [], up_exit = 0\<rparr>"

definition demo_ingest_world :: "mem ingest_world" where
  "demo_ingest_world = \<lparr>gw_redis = [], gw_rows = [], gw_bus = [], gw_count = 0, gw_now = Fin 0, gw_up = True\<rparr>"

definition good_event :: raw_event where
  "good_event = \<lparr>ev_tenant = ''2'', ev_job = ''1'', ev_kind = Flow, ev_ts = Aware 90000000, ev_src = ''a'', ev_dst = ''b'',
     ev_sport = None, ev_dport = None, ev_proto = None, ev_fields = (''pkts_fwd'', Fin 1) # map (\<lambda>k. (k, Fin 0))
       (map snd (tl CSV_COUNTS) @ map snd CSV_MICROSECONDS), ev_label = None\<rparr>"

abbreviation good_events :: "raw_event list" where "good_events \<equiv> [good_event]"

lemma demo_source:
  "csv_chunk_to_events std_conv demo_pandas ''2'' ''1'' (demo_frame ''1'') = Inr (good_events, 1)"
  "csv_chunk_to_events std_conv demo_pandas ''2'' ''1'' (demo_frame ''inf'') = Inl ValueError"
  by code_simp+

lemma demo_ids: "c_uuid std_conv (ij_job demo_job) = Inr 1" "c_uuid std_conv (ij_tenant demo_job) = Inr 2"
  by code_simp+

lemma demo_rows_of: "csv_chunk_rows std_conv (TMap []) = Inr 5000" "chunk_rows_of std_conv (TMap []) demo_job = Inr 5000"
  by (simp_all add: csv_chunk_rows_def chunk_rows_of_def demo_job_def DEFAULT_CSV_CHUNK_ROWS_def dict_get_def)

lemma demo_source_of:
  "source_of std_conv demo_pandas 5000 demo_job (demo_upload ''1'') = ([good_events, good_events], None)"
  "source_of std_conv demo_pandas 5000 demo_job (demo_upload ''inf'') = ([good_events], Some ValueError)"
  by (simp_all add: source_of_def demo_job_def demo_upload_def demo_source)

lemma job_outcome_witness:
  "\<exists>r w'. run_job std_conv demo_pandas std_redis (TMap []) (\<lambda>n d. n + d) ''m'' demo_job (demo_upload ''1'') demo_ingest_world = (Inr r, w') \<and>
    rs_status r = Job_complete \<and> rs_published r = 2 \<and> map fst (gw_bus w') = good_events @ good_events"
proof -
  obtain r w' where run: "run_job std_conv demo_pandas std_redis (TMap []) (\<lambda>n d. n + d) ''m'' demo_job (demo_upload ''1'') demo_ingest_world = (r, w')"
    by force
  from job_outcome [OF std.redis_laws_axioms demo_ids _ _ demo_rows_of(2) demo_source_of(1) run] run show ?thesis
    by (auto simp: demo_ingest_world_def demo_upload_def Let_def)
qed

lemma replay_never_early_witness:
  "\<exists>r w' new. run_job std_conv demo_pandas std_redis (TMap []) (\<lambda>n d. n + d) ''m'' demo_job (demo_upload ''1'') demo_ingest_world = (r, w') \<and>
    gw_bus w' = new \<and> list_all (\<lambda>(ev, at_s). \<exists>x. at_s = Fin x \<and>
      0 + of_int (as_utc (ev_ts ev) - as_utc (ev_ts good_event)) / 1000000 / 60 \<le> x) new"
proof -
  obtain r w' where run: "run_job std_conv demo_pandas std_redis (TMap []) (\<lambda>n d. n + d) ''m'' demo_job (demo_upload ''1'') demo_ingest_world = (r, w')"
    by force
  have "concat [good_events, good_events] = good_event # good_events" by simp
  moreover have "honest_sleep (\<lambda>n d. n + d)" by (simp add: honest_sleep_def)
  moreover have "ij_speed demo_job = Fin 60" "gw_now demo_ingest_world = Fin 0" "up_is_file (demo_upload ''1'')"
    by (simp_all add: demo_job_def demo_ingest_world_def demo_upload_def)
  ultimately show ?thesis
    using replay_never_early [OF _ _ _ _ _ demo_rows_of(2) demo_source_of(1) _ run, of 60 0 good_event good_events] run
    by (auto simp: demo_ingest_world_def)
qed

lemma int_parse_error: "int_parse s = Inl e \<Longrightarrow> e = ValueError"
  by (auto simp: int_parse_def split: list.splits if_splits)

lemma std_floats: "py_floats std_conv"
proof -
  have r: "parse_rat s = Inl e \<Longrightarrow> e = ValueError" for s e
    by (auto simp: parse_rat_def bind_res_def dest: int_parse_error split: prod.splits sum.splits if_splits)
  have "parse_flt s = Inl e \<Longrightarrow> e = ValueError" for s e
    by (auto simp: parse_flt_def dest: r split: sum.splits if_splits)
  then show ?thesis by (auto simp: py_floats_def std_conv_def)
qed

lemma infinite_cell_poisons_job_witness:
  "\<exists>e w1 w2. run_job std_conv demo_pandas std_redis (TMap []) (\<lambda>n d. n + d) ''m'' demo_job (demo_upload ''inf'') demo_ingest_world = (Inl e, w1) \<and>
    run_job std_conv demo_pandas std_redis (TMap []) (\<lambda>n d. n + d) ''m'' demo_job (demo_upload ''inf'') w1 = (Inl e, w2) \<and>
    map fst (gw_bus w2) = good_events @ good_events"
proof -
  let ?run = "run_job std_conv demo_pandas std_redis (TMap []) (\<lambda>n d. n + d) ''m'' demo_job (demo_upload ''inf'')"
  obtain r w1 where run1: "?run demo_ingest_world = (r, w1)" by force
  obtain r' w2 where run2: "?run w1 = (r', w2)" by force
  have good: "\<forall>c \<in> set [demo_frame ''1'']. \<exists>x. csv_chunk_to_events std_conv demo_pandas (ij_tenant demo_job) (ij_job demo_job) c = Inr x"
    by (simp add: demo_job_def demo_source)
  note fl = std_floats
  obtain columns rows where rn: "rename_columns (demo_frame ''inf'') = (columns, rows)" by force
  have cols: "set CSV_REQUIRED \<subseteq> set (fst (rename_columns (demo_frame ''inf'')))" by code_simp
  have bad: "\<exists>tr \<in> set (usable_rows demo_pandas (snd (rename_columns (demo_frame ''inf'')))).
      \<exists>kx \<in> set (csv_fields demo_pandas (snd tr)). \<not> isfinite (snd kx)" by code_simp
  then obtain ts row k x where tr: "(ts, row) \<in> set (usable_rows demo_pandas rows)"
      "(k, x) \<in> set (csv_fields demo_pandas row)" "\<not> isfinite x" using rn by auto
  have fr: "up_frames (demo_upload ''inf'') 5000 = [demo_frame ''1''] @ demo_frame ''inf'' # []" by (simp add: demo_upload_def)
  have cols': "set CSV_REQUIRED \<subseteq> set columns" using cols rn by simp
  have up: "gw_up demo_ingest_world" "up_is_file (demo_upload ''inf'')" "ij_kind demo_job = Csv" "gw_bus demo_ingest_world = []"
    by (simp_all add: demo_ingest_world_def demo_upload_def demo_job_def)
  from infinite_cell_poisons_job [OF std.redis_laws_axioms demo_ids up(1-3) demo_rows_of(1) fr good fl rn cols' tr run1 run2]
  have "\<exists>e. r = Inl e \<and> r' = Inl e \<and> map fst (gw_bus w2) = good_events @ good_events"
    by (auto simp: demo_source_of up(4))
  then show ?thesis using run1 run2 by auto
qed

end
