(* ===== verification/ApiIngest.thy ===== *)
theory ApiIngest
  imports IngestWorker Auth ApiForecasts Bus
begin

text \<open>
  \<open>api/ingest.py\<close>: the upload endpoint and the status of its jobs. An upload is the list of chunks
  \<open>file.read\<close> returns before its empty one; bytes are characters. The disk is the files by path and the job
  directories; the parents \<open>mkdir\<close> also makes are not tracked. \<open>Path.name\<close> and \<open>Path.suffix\<close> are defined as
  pathlib defines them. Redis and the bus answer or raise, by a flag of the world.
\<close>

section \<open>Validation\<close>

definition PCAP_MAGICS :: "string list" where
  "PCAP_MAGICS = [[CHR 0xD4, CHR 0xC3, CHR 0xB2, CHR 0xA1], [CHR 0xA1, CHR 0xB2, CHR 0xC3, CHR 0xD4],
     [CHR 0x0A, CHR 0x0D, CHR 0x0D, CHR 0x0A]]"

definition SNIFF_BYTES :: nat where "SNIFF_BYTES = 4096"
definition UPLOAD_CHUNK_BYTES :: nat where "UPLOAD_CHUNK_BYTES = 2 ^ 20"

definition PRINTABLE :: "char \<Rightarrow> bool" where
  "PRINTABLE c = (let n = of_char c :: nat in 0x20 \<le> n \<and> n < 0x7F \<or> n \<in> {0x09, 0x0D, 0x0A})"

definition MAX_LIST_LIMIT :: int where "MAX_LIST_LIMIT = 200"

definition ingest_config :: "tree \<Rightarrow> tree res" where "ingest_config config = sub_block config ''ingest''"

definition allowed_extensions :: "pyconv \<Rightarrow> tree \<Rightarrow> string list res" where
  "allowed_extensions C config = bind_res (ingest_config config) (\<lambda>b. bind_res (t_get b ''allowed_ext'' (TList [])) (\<lambda>exts.
     bind_res (t_iter exts) (\<lambda>ts. Inr (map (\<lambda>ext. lower (t_str C ext)) ts))))"

definition max_upload_bytes :: "pyconv \<Rightarrow> tree \<Rightarrow> int res" where
  "max_upload_bytes C config = bind_res (ingest_config config) (\<lambda>b. bind_res (t_get b ''max_upload_mb'' (TInt 2048)) (\<lambda>mb.
     bind_res (t_float C mb) (\<lambda>x. fint (x * Fin 1024 * Fin 1024))))"

definition default_speed :: "pyconv \<Rightarrow> tree \<Rightarrow> flt res" where
  "default_speed C config = bind_res (t_get config ''replay'' (TMap [])) (\<lambda>b.
     bind_res (t_get b ''default_speed'' (TFloat (Fin 60))) (t_float C))"

text \<open>\<open>Path(s).name\<close> and \<open>.suffix\<close>.\<close>

definition path_name :: "string \<Rightarrow> string" where
  "path_name s = (case rev (filter (\<lambda>p. p \<noteq> [] \<and> p \<noteq> ''.'') (split_str (CHR ''/'') s)) of [] \<Rightarrow> [] | p # ps \<Rightarrow> p)"

definition path_suffix :: "string \<Rightarrow> string" where
  "path_suffix s =
     (let name = path_name s; ext = rev (takeWhile (\<lambda>c. c \<noteq> CHR ''.'') (rev name))
      in if CHR ''.'' \<in> set name \<and> ext \<noteq> [] \<and> length ext + 1 < length name then CHR ''.'' # ext else [])"

definition validated_extension :: "pyconv \<Rightarrow> tree \<Rightarrow> string option \<Rightarrow> string res" where
  "validated_extension C config filename =
     (let suff = lower (path_suffix (case filename of None \<Rightarrow> [] | Some f \<Rightarrow> f)) in
      bind_res (allowed_extensions C config) (\<lambda>allowed.
        if suff \<notin> set allowed then Inl (HttpError 415) else Inr suff))"

definition looks_like_text :: "string \<Rightarrow> bool" where
  "looks_like_text head =
     (let first_line = takeWhile (\<lambda>c. c \<noteq> CHR 0x0A) head in first_line \<noteq> [] \<and> list_all PRINTABLE first_line)"

definition job_kind_for :: "string \<Rightarrow> string \<Rightarrow> job_kind res" where
  "job_kind_for head ext =
     (if ext \<in> {''.pcap'', ''.pcapng''}
      then (if take 4 head \<notin> set PCAP_MAGICS then Inl (HttpError 415) else Inr Pcap)
      else if \<not> looks_like_text head then Inl (HttpError 415) else Inr Csv)"

definition display_filename :: "string option \<Rightarrow> string" where
  "display_filename filename =
     (let base = (case filename of None \<Rightarrow> ''upload'' | Some f \<Rightarrow> if f = [] then ''upload'' else f);
          name = take 255 (path_name base)
      in if name = [] then ''upload'' else name)"

section \<open>Storing\<close>

record disk =
  dk_files :: "(string, string) dict"
  dk_dirs :: "string list"

definition unlink :: "string \<Rightarrow> disk \<Rightarrow> disk" where
  "unlink path d = d\<lparr>dk_files := filter (\<lambda>p. fst p \<noteq> path) (dk_files d)\<rparr>"

text \<open>The copying loop: the sniffed head, the bytes so far and what was written, or a 413.\<close>

fun copy_chunks :: "int \<Rightarrow> string list \<Rightarrow> string \<Rightarrow> string \<Rightarrow> (string \<times> string) res" where
  "copy_chunks cap [] head out = Inr (head, out)"
| "copy_chunks cap (chunk # rest) head out =
     (if cap < int (length out + length chunk) then Inl (HttpError 413)
      else copy_chunks cap rest
        (if length head < SNIFF_BYTES then head @ take (SNIFF_BYTES - length head) chunk else head) (out @ chunk))"

definition store_upload :: "string list \<Rightarrow> string \<Rightarrow> string \<Rightarrow> int \<Rightarrow> (disk, string) act" where
  "store_upload chunks directory destination cap = (\<lambda>d0.
     let d = d0\<lparr>dk_dirs := directory # removeAll directory (dk_dirs d0)\<rparr> in
     case copy_chunks cap chunks [] [] of
       Inl e \<Rightarrow> (Inl e, unlink destination d)
     | Inr (head, out) \<Rightarrow>
         if out = [] then (Inl (HttpError 400), unlink destination d)
         else (Inr head, d\<lparr>dk_files := dict_set destination out (dk_files d)\<rparr>))"

text \<open>The files right in the directory, then the directory.\<close>

definition cleanup :: "string \<Rightarrow> disk \<Rightarrow> disk" where
  "cleanup directory d = d\<lparr>dk_files := filter (\<lambda>p. \<not> (take (length directory + 1) (fst p) = directory @ ''/'' \<and>
       CHR ''/'' \<notin> set (drop (length directory + 1) (fst p)))) (dk_files d),
     dk_dirs := removeAll directory (dk_dirs d)\<rparr>"

section \<open>The routes\<close>

record 's upload_world =
  uw_disk :: disk
  uw_rows :: "job_row list"
  uw_redis :: 's
  uw_bus :: "ingest_job list"
  uw_up :: bool

record ingest_created =
  ic_job :: uuid
  ic_kind :: job_kind
  ic_filename :: string
  ic_speed :: flt
  ic_status :: string

definition INSERT_JOB :: "job_row list \<Rightarrow> job_row \<Rightarrow> job_row list res" where
  "INSERT_JOB rows r = (if jr_id r \<in> jr_id ` set rows then Inl IntegrityError else Inr (rows @ [r]))"

definition on_disk :: "(disk, 'a) act \<Rightarrow> ('s upload_world, 'a) act" where
  "on_disk m = (\<lambda>w. case m (uw_disk w) of (r, d) \<Rightarrow> (r, w\<lparr>uw_disk := d\<rparr>))"

definition on_server :: "('s \<Rightarrow> 's) \<Rightarrow> ('s upload_world, unit) act" where
  "on_server f = (\<lambda>w. if uw_up w then (Inr (), w\<lparr>uw_redis := f (uw_redis w)\<rparr>) else (Inl RedisError, w))"

text \<open>The fixed data of the process: the conversions, the configuration, the home expansion and its directory.\<close>

record api_env =
  ae_conv :: pyconv
  ae_config :: tree
  ae_expanduser :: "string \<Rightarrow> string"
  ae_repo_root :: string

text \<open>The \<open>try\<close> of the endpoint, whose handler cleans up after an \<open>HTTPException\<close>.\<close>

definition receive ::
    "api_env \<Rightarrow> string list \<Rightarrow> string \<Rightarrow> string \<Rightarrow> string \<Rightarrow> ('s upload_world, job_kind) act" where
  "receive E chunks ext directory destination = (\<lambda>w.
     case abind (lift_res (max_upload_bytes (ae_conv E) (ae_config E))) (\<lambda>cap.
            abind (on_disk (store_upload chunks directory destination cap)) (\<lambda>head. lift_res (job_kind_for head ext))) w of
       (Inl e, w') \<Rightarrow> (Inl e, case e of HttpError n \<Rightarrow> w'\<lparr>uw_disk := cleanup directory (uw_disk w')\<rparr> | other \<Rightarrow> w')
     | (Inr kind, w') \<Rightarrow> (Inr kind, w'))"

definition create_ingest_job ::
    "'s redis_ops \<Rightarrow> api_env \<Rightarrow> uuid \<Rightarrow> int \<Rightarrow> string \<Rightarrow> string option \<Rightarrow> string list \<Rightarrow> flt option \<Rightarrow>
     ('s upload_world, ingest_created) act" where
  "create_ingest_job R E job_id now tenant_id filename chunks speed = (let C = ae_conv E; config = ae_config E in
     abind (lift_res (validated_extension C config filename)) (\<lambda>ext.
     abind (lift_res (case speed of None \<Rightarrow> default_speed C config | Some x \<Rightarrow> Inr x)) (\<lambda>replay_speed.
     if replay_speed < Fin 0 then lift_res (Inl (HttpError 400))
     else
       abind (lift_res (deps_tenant_uuid C tenant_id)) (\<lambda>tenant.
       let t = c_uuid_str C tenant; j = c_uuid_str C job_id in
       abind (lift_res (job_dir C (ae_expanduser E) (ae_repo_root E) config t j)) (\<lambda>directory.
       abind (lift_res (upload_path C (ae_expanduser E) (ae_repo_root E) config t j ext)) (\<lambda>destination.
       abind (receive E chunks ext directory destination) (\<lambda>kind.
       let shown = display_filename filename in
       abind (\<lambda>w. case INSERT_JOB (uw_rows w) \<lparr>jr_id = job_id, jr_tenant = tenant, jr_filename = shown, jr_kind = kind_str kind,
           jr_created = now, jr_status = status_str Job_queued, jr_progress = Fin 0, jr_error = None\<rparr> of
           Inl e \<Rightarrow> (Inl e, w) | Inr rows \<Rightarrow> (Inr (), w\<lparr>uw_rows := rows\<rparr>)) (\<lambda>_.
       abind (on_server (init_progress C R j kind replay_speed 0)) (\<lambda>_.
       abind (lift_res (stream_name C ''ingest_jobs'' config)) (\<lambda>_.
       abind (\<lambda>w. if uw_up w then (Inr (), w\<lparr>uw_bus := uw_bus w @ [\<lparr>ij_job = j, ij_tenant = tenant_id, ij_kind = kind,
           ij_path = destination, ij_filename = shown, ij_speed = replay_speed\<rparr>]\<rparr>) else (Inl RedisError, w)) (\<lambda>_.
       ret \<lparr>ic_job = job_id, ic_kind = kind, ic_filename = shown, ic_speed = replay_speed, ic_status = status_str Job_queued\<rparr>)))))))))))"

section \<open>Status\<close>

record ingest_status =
  is_job :: uuid
  is_kind :: string
  is_filename :: string
  is_state :: string
  is_processed :: int
  is_all :: int
  is_progress :: flt
  is_speed :: "flt option"
  is_error :: "string option"
  is_created :: int

text \<open>\<open>live.get(k) or z\<close>: an empty string counts as missing.\<close>

definition live_or :: "(string, string) dict \<Rightarrow> string \<Rightarrow> string \<Rightarrow> string" where
  "live_or live k z = (case map_of live k of None \<Rightarrow> z | Some s \<Rightarrow> if s = [] then z else s)"

definition merge_status :: "pyconv \<Rightarrow> job_row \<Rightarrow> (string, string) dict \<Rightarrow> ingest_status res" where
  "merge_status C row live =
     (let state = live_or live ''status'' (if jr_status row = [] then status_str Job_queued else jr_status row) in
      bind_res (c_int C (live_or live ''processed'' ''0'')) (\<lambda>processed.
      bind_res (c_int C (live_or live ''total'' ''0'')) (\<lambda>all_events.
      bind_res (if live_or live ''speed'' [] = [] then Inr None else bind_res (c_float C (live_or live ''speed'' [])) (\<lambda>x. Inr (Some x)))
        (\<lambda>speed.
      let progress = (if live \<noteq> [] then progress_fraction processed all_events state else jr_progress row);
          err = live_or live ''error'' (case jr_error row of None \<Rightarrow> [] | Some e \<Rightarrow> e)
      in if Fin 0 \<le> progress \<and> progress \<le> Fin 1 then
           Inr \<lparr>is_job = jr_id row, is_kind = jr_kind row, is_filename = jr_filename row, is_state = state,
             is_processed = processed, is_all = all_events, is_progress = progress, is_speed = speed,
             is_error = (if err = [] then None else Some err), is_created = jr_created row\<rparr>
         else Inl ValueError))))"

definition SELECT_JOB :: "job_row list \<Rightarrow> uuid \<Rightarrow> uuid \<Rightarrow> job_row option" where
  "SELECT_JOB rows job_id tenant = List.find (\<lambda>r. jr_id r = job_id \<and> jr_tenant r = tenant) rows"

definition SELECT_JOBS :: "job_row list \<Rightarrow> uuid \<Rightarrow> nat \<Rightarrow> job_row list" where
  "SELECT_JOBS rows tenant limit = take limit (order_by (\<lambda>a b. jr_created b < jr_created a \<or>
     (jr_created a = jr_created b \<and> jr_id b < jr_id a)) (filter (\<lambda>r. jr_tenant r = tenant) rows))"

definition list_ingest_jobs ::
    "pyconv \<Rightarrow> 's redis_ops \<Rightarrow> 's \<Rightarrow> job_row list \<Rightarrow> string \<Rightarrow> int \<Rightarrow> ingest_status list res" where
  "list_ingest_jobs C R s rows tenant_id limit =
     (if limit < 1 \<or> MAX_LIST_LIMIT < limit then Inl (HttpError 422)
      else bind_res (deps_tenant_uuid C tenant_id) (\<lambda>tenant.
        traverse_res (\<lambda>row. merge_status C row (read_progress R (c_uuid_str C (jr_id row)) s)) (SELECT_JOBS rows tenant (nat limit))))"

definition get_ingest_job ::
    "pyconv \<Rightarrow> 's redis_ops \<Rightarrow> 's \<Rightarrow> job_row list \<Rightarrow> string \<Rightarrow> uuid \<Rightarrow> ingest_status res" where
  "get_ingest_job C R s rows tenant_id job_id =
     bind_res (deps_tenant_uuid C tenant_id) (\<lambda>tenant.
       case SELECT_JOB rows job_id tenant of
         None \<Rightarrow> Inl (HttpError 404)
       | Some row \<Rightarrow> merge_status C row (read_progress R (c_uuid_str C job_id) s))"

section \<open>Storing leaves everything or nothing\<close>

lemma copy_chunks_error: "copy_chunks cap chunks head out = Inl e \<Longrightarrow> e = HttpError 413"
  by (induction cap chunks head out rule: copy_chunks.induct) (auto split: if_splits)

lemma copy_chunks_ok:
  "copy_chunks cap chunks head out = Inr (h, all_bytes) \<Longrightarrow> head = take SNIFF_BYTES out \<Longrightarrow>
    all_bytes = out @ concat chunks \<and> h = take SNIFF_BYTES all_bytes \<and> (chunks \<noteq> [] \<longrightarrow> int (length all_bytes) \<le> cap)"
proof (induction chunks arbitrary: head out)
  case (Cons c chunks)
  have head': "(if length head < SNIFF_BYTES then head @ take (SNIFF_BYTES - length head) c else head) = take SNIFF_BYTES (out @ c)"
    using Cons.prems(2) by auto
  have ok: "\<not> cap < int (length out + length c)" "copy_chunks cap chunks (take SNIFF_BYTES (out @ c)) (out @ c) = Inr (h, all_bytes)"
    using Cons.prems(1) head' by (auto split: if_splits)
  from Cons.IH [OF ok(2) refl] ok(1) show ?case by (cases chunks) auto
qed simp

definition fresh_dir :: "string \<Rightarrow> disk \<Rightarrow> bool" where
  "fresh_dir directory d \<longleftrightarrow> directory \<notin> set (dk_dirs d) \<and>
     list_all (\<lambda>p. take (length directory + 1) (fst p) \<noteq> directory @ ''/'') (dk_files d)"

lemma cleanup_fresh:
  assumes "fresh_dir directory d" "CHR ''/'' \<notin> set name"
  shows "cleanup directory (d\<lparr>dk_files := dk_files d @ [(directory @ ''/'' @ name, x)], dk_dirs := directory # dk_dirs d\<rparr>) = d"
    "cleanup directory (d\<lparr>dk_dirs := directory # dk_dirs d\<rparr>) = d" "cleanup directory d = d"
proof -
  have "filter (\<lambda>p. \<not> (take (length directory + 1) (fst p) = directory @ ''/'' \<and>
       CHR ''/'' \<notin> set (drop (length directory + 1) (fst p)))) (dk_files d) = dk_files d"
    using assms(1) by (auto simp: fresh_dir_def list_all_iff filter_id_conv)
  moreover have "removeAll directory (dk_dirs d) = dk_dirs d" using assms(1) by (simp add: fresh_dir_def)
  ultimately show "cleanup directory (d\<lparr>dk_files := dk_files d @ [(directory @ ''/'' @ name, x)], dk_dirs := directory # dk_dirs d\<rparr>) = d"
    "cleanup directory (d\<lparr>dk_dirs := directory # dk_dirs d\<rparr>) = d" "cleanup directory d = d"
    using assms(2) by (simp_all add: cleanup_def)
qed

lemma store_run:
  assumes "fresh_dir directory d"
  shows "store_upload chunks directory (directory @ ''/'' @ name) cap d = (case copy_chunks cap chunks [] [] of
       Inl e \<Rightarrow> (Inl (HttpError 413), d\<lparr>dk_dirs := directory # dk_dirs d\<rparr>)
     | Inr (head, out) \<Rightarrow> if out = [] then (Inl (HttpError 400), d\<lparr>dk_dirs := directory # dk_dirs d\<rparr>)
         else (Inr head, d\<lparr>dk_files := dk_files d @ [(directory @ ''/'' @ name, out)], dk_dirs := directory # dk_dirs d\<rparr>))"
proof -
  have no: "directory @ ''/'' @ name \<notin> fst ` set (dk_files d)"
  proof
    assume "directory @ ''/'' @ name \<in> fst ` set (dk_files d)"
    then obtain p where p: "p \<in> set (dk_files d)" "fst p = directory @ ''/'' @ name" by auto
    then have "take (length directory + 1) (fst p) = directory @ ''/''" by simp
    with p(1) assms show False by (auto simp: fresh_dir_def list_all_iff)
  qed
  have "filter (\<lambda>p. fst p \<noteq> directory @ ''/'' @ name) (dk_files d) = dk_files d"
    using no by (force simp: filter_id_conv)
  then have "unlink (directory @ ''/'' @ name) (d\<lparr>dk_dirs := directory # dk_dirs d\<rparr>) = d\<lparr>dk_dirs := directory # dk_dirs d\<rparr>"
    by (cases d) (simp add: unlink_def)
  moreover have "removeAll directory (dk_dirs d) = dk_dirs d" using assms by (simp add: fresh_dir_def)
  moreover have "dict_set (directory @ ''/'' @ name) out (dk_files d) = dk_files d @ [(directory @ ''/'' @ name, out)]" for out
    using no by (rule dict_set_fresh)
  ultimately show ?thesis
    unfolding store_upload_def Let_def
    by (auto dest: copy_chunks_error split: sum.split)
qed

text \<open>What storing an upload in a fresh directory leaves on the disk.\<close>

definition stored :: "string \<Rightarrow> string \<Rightarrow> string \<Rightarrow> disk \<Rightarrow> disk" where
  "stored directory destination out d = d\<lparr>dk_files := dk_files d @ [(destination, out)], dk_dirs := directory # dk_dirs d\<rparr>"

lemma store_cases:
  assumes "fresh_dir directory d" "store_upload chunks directory (directory @ ''/'' @ name) cap d = (r, d')"
  shows "(\<exists>n. r = Inl (HttpError n)) \<and> d' = d\<lparr>dk_dirs := directory # dk_dirs d\<rparr> \<or>
    (\<exists>out. out = concat chunks \<and> out \<noteq> [] \<and> int (length out) \<le> cap \<and> r = Inr (take SNIFF_BYTES out) \<and>
      d' = stored directory (directory @ ''/'' @ name) out d)"
proof (cases "copy_chunks cap chunks [] []")
  case (Inl e)
  then show ?thesis using assms(2) store_run [OF assms(1), of chunks name cap] by auto
next
  case (Inr ho)
  obtain h out where ho: "ho = (h, out)" by force
  have out: "out = concat chunks" "h = take SNIFF_BYTES out" "chunks \<noteq> [] \<Longrightarrow> int (length out) \<le> cap"
    using copy_chunks_ok [OF Inr [unfolded ho]] by auto
  show ?thesis
  proof (cases "out = []")
    case True
    then show ?thesis using assms(2) store_run [OF assms(1), of chunks name cap] Inr ho by auto
  next
    case False
    then have "chunks \<noteq> []" using out(1) by auto
    moreover have "r = Inr h" "d' = stored directory (directory @ ''/'' @ name) out d"
      using False assms(2) store_run [OF assms(1), of chunks name cap] Inr ho by (simp_all add: stored_def)
    ultimately show ?thesis using out False by blast
  qed
qed

lemma cleanup_stored:
  "fresh_dir directory d \<Longrightarrow> CHR ''/'' \<notin> set name \<Longrightarrow> cleanup directory (stored directory (directory @ ''/'' @ name) out d) = d"
  unfolding stored_def by (rule cleanup_fresh(1))

lemma receive_unfold:
  assumes "max_upload_bytes (ae_conv E) (ae_config E) = Inr cap"
    "store_upload chunks directory destination cap (uw_disk w) = (x, d')"
  shows "receive E chunks ext directory destination w = (case x of
      Inl e \<Rightarrow> (Inl e, w\<lparr>uw_disk := (case e of HttpError n \<Rightarrow> cleanup directory d' | other \<Rightarrow> d')\<rparr>)
    | Inr head \<Rightarrow> (case job_kind_for head ext of
        Inl e \<Rightarrow> (Inl e, w\<lparr>uw_disk := (case e of HttpError n \<Rightarrow> cleanup directory d' | other \<Rightarrow> d')\<rparr>)
      | Inr kind \<Rightarrow> (Inr kind, w\<lparr>uw_disk := d'\<rparr>)))"
  using assms by (simp add: receive_def abind_def on_disk_def lift_res_def split: sum.split py_error.split)

lemma job_kind_error: "job_kind_for head ext = Inl e \<Longrightarrow> e = HttpError 415"
  by (auto simp: job_kind_for_def split: if_splits)

lemma receive_spec:
  assumes "fresh_dir directory (uw_disk w)" "CHR ''/'' \<notin> set name"
    "receive E chunks ext directory (directory @ ''/'' @ name) w = (r, w')"
  shows "(\<exists>e. r = Inl e) \<and> w' = w \<or>
    (\<exists>kind cap out. r = Inr kind \<and> out = concat chunks \<and> out \<noteq> [] \<and>
        max_upload_bytes (ae_conv E) (ae_config E) = Inr cap \<and> int (length out) \<le> cap \<and>
        job_kind_for (take SNIFF_BYTES out) ext = Inr kind \<and>
        w' = w\<lparr>uw_disk := stored directory (directory @ ''/'' @ name) out (uw_disk w)\<rparr>)"
proof (cases "max_upload_bytes (ae_conv E) (ae_config E)")
  case (Inl e)
  then show ?thesis
    using assms(3) cleanup_fresh(3) [OF assms(1,2)]
    by (auto simp: receive_def abind_def lift_res_def split: py_error.splits)
next
  case (Inr cap)
  obtain x d' where st: "store_upload chunks directory (directory @ ''/'' @ name) cap (uw_disk w) = (x, d')" by force
  note run = receive_unfold [where ext = ext, OF Inr st] assms(3)
  from store_cases [OF assms(1) st] show ?thesis
  proof (elim disjE conjE exE)
    fix n assume "x = Inl (HttpError n)" "d' = (uw_disk w)\<lparr>dk_dirs := directory # dk_dirs (uw_disk w)\<rparr>"
    then have "r = Inl (HttpError n)" "w' = w" using run cleanup_fresh(2) [OF assms(1,2)] by auto
    then show ?thesis by blast
  next
    fix out assume o: "out = concat chunks" "out \<noteq> []" "int (length out) \<le> cap" "x = Inr (take SNIFF_BYTES out)"
      "d' = stored directory (directory @ ''/'' @ name) out (uw_disk w)"
    show ?thesis
    proof (cases "job_kind_for (take SNIFF_BYTES out) ext")
      case (Inl e)
      then have "r = Inl e" "w' = w"
        using run o(4,5) cleanup_stored [OF assms(1,2)] job_kind_error [OF Inl] by auto
      then show ?thesis by blast
    next
      case inr: (Inr kind)
      then have "r = Inr kind" "w' = w\<lparr>uw_disk := d'\<rparr>" using run o(4) by simp_all
      then show ?thesis using Inr o(1-3,5) inr by blast
    qed
  qed
qed

lemma split_str_parts: "p \<in> set (split_str c s) \<Longrightarrow> c \<notin> set p"
  by (induction c s arbitrary: p rule: split_str.induct) (auto split: if_splits list.splits)

lemma path_suffix_no_slash: "CHR ''/'' \<notin> set (path_suffix s)"
proof -
  have "CHR ''/'' \<notin> set (path_name s)"
  proof (cases "rev (filter (\<lambda>p. p \<noteq> [] \<and> p \<noteq> ''.'') (split_str (CHR ''/'') s))")
    case (Cons p ps)
    then have "p \<in> set (rev (filter (\<lambda>p. p \<noteq> [] \<and> p \<noteq> ''.'') (split_str (CHR ''/'') s)))" by simp
    then have "p \<in> set (split_str (CHR ''/'') s)" by simp
    then show ?thesis using split_str_parts [of p "CHR ''/''" s] Cons by (simp add: path_name_def)
  qed (simp add: path_name_def)
  then show ?thesis by (auto simp: path_suffix_def Let_def dest: set_takeWhileD)
qed

lemma lower_char_slash: "lower_char c = CHR ''/'' \<Longrightarrow> c = CHR ''/''"
proof -
  have "of_char (char_of (n + 32) :: char) = n + 32" if "n \<le> 90" for n :: nat
    using that by simp
  then show "lower_char c = CHR ''/'' \<Longrightarrow> c = CHR ''/''"
    by (auto simp: lower_char_def Let_def split: if_splits dest!: arg_cong [of "char_of _" _ "of_char :: char \<Rightarrow> nat"])
qed

lemma lower_no_slash: "CHR ''/'' \<notin> set s \<Longrightarrow> CHR ''/'' \<notin> set (lower s)"
  by (auto simp: lower_def dest!: lower_char_slash [OF sym])

lemma abind_lift_cases:
  assumes "abind (lift_res m) f w = (r, w')"
  obtains e where "m = Inl e" "r = Inl e" "w' = w" | x where "m = Inr x" "f x w = (r, w')"
  using assms by (cases m) (auto simp: abind_def lift_res_def)

lemma abind_cases:
  assumes "abind m f w = (r, w')"
  obtains e where "m w = (Inl e, w')" "r = Inl e" | x w1 where "m w = (Inr x, w1)" "f x w1 = (r, w')"
  using assms by (auto simp: abind_def split: prod.splits sum.splits)

lemma if_guard_cases:
  assumes "(if b then lift_res (Inl e) else m) w = (r, w')"
  obtains "r = Inl e" "w' = w" | "\<not> b" "m w = (r, w')"
  using assms by (auto simp: lift_res_def split: if_splits)

lemma stream_name_error: "stream_name C key config = Inl e \<Longrightarrow> e \<noteq> HttpError n"
proof -
  have "t_get t k z = Inl e \<Longrightarrow> e = AttributeError" for t k z by (cases t) auto
  then show "stream_name C key config = Inl e \<Longrightarrow> e \<noteq> HttpError n"
    by (auto simp: stream_name_def section_get_def bind_res_def split: sum.splits if_splits)
qed

text \<open>
  C20. An upload is accepted or refused as a whole. When the endpoint answers with an HTTP error nothing has changed, on the
  disk, in the table, in Redis or on the bus; when it answers with a job, the file under the job's path is exactly the
  bytes sent, not empty and within the cap, its first bytes fit its extension, one queued row with its tenant and one
  message with its path were added, and the progress hash is initialised.
\<close>

theorem upload_all_or_nothing:
  assumes fresh: "\<And>tenant directory. deps_tenant_uuid (ae_conv E) tenant_id = Inr tenant \<Longrightarrow>
      job_dir (ae_conv E) (ae_expanduser E) (ae_repo_root E) (ae_config E) (c_uuid_str (ae_conv E) tenant) (c_uuid_str (ae_conv E) job_id) = Inr directory \<Longrightarrow>
      fresh_dir directory (uw_disk w)"
    and run: "create_ingest_job R E job_id now tenant_id filename chunks speed w = (r, w')"
  shows "(r = Inl (HttpError n) \<longrightarrow> w' = w) \<and>
    (\<forall>created. r = Inr created \<longrightarrow>
       (\<exists>tenant ext path directory cap. validated_extension (ae_conv E) (ae_config E) filename = Inr ext \<and>
          deps_tenant_uuid (ae_conv E) tenant_id = Inr tenant \<and>
          upload_path (ae_conv E) (ae_expanduser E) (ae_repo_root E) (ae_config E) (c_uuid_str (ae_conv E) tenant) (c_uuid_str (ae_conv E) job_id) ext = Inr path \<and>
          job_dir (ae_conv E) (ae_expanduser E) (ae_repo_root E) (ae_config E) (c_uuid_str (ae_conv E) tenant) (c_uuid_str (ae_conv E) job_id) = Inr directory \<and>
          max_upload_bytes (ae_conv E) (ae_config E) = Inr cap \<and> concat chunks \<noteq> [] \<and> int (length (concat chunks)) \<le> cap \<and>
          job_kind_for (take SNIFF_BYTES (concat chunks)) ext = Inr (ic_kind created) \<and>
          uw_disk w' = stored directory path (concat chunks) (uw_disk w) \<and>
          (\<exists>row. uw_rows w' = uw_rows w @ [row] \<and> jr_id row = job_id \<and> jr_tenant row = tenant \<and> jr_status row = status_str Job_queued \<and>
             jr_id row \<notin> jr_id ` set (uw_rows w)) \<and>
          (\<exists>msg. uw_bus w' = uw_bus w @ [msg] \<and> ij_job msg = c_uuid_str (ae_conv E) job_id \<and> ij_tenant msg = tenant_id \<and>
             ij_path msg = path \<and> ij_kind msg = ic_kind created \<and> ij_speed msg = ic_speed created \<and> \<not> ic_speed created < Fin 0) \<and>
          uw_redis w' = init_progress (ae_conv E) R (c_uuid_str (ae_conv E) job_id) (ic_kind created) (ic_speed created) 0 (uw_redis w)))"
proof -
  let ?C = "ae_conv E" and ?config = "ae_config E"
  have refused: ?thesis if "r = Inl e" "w' = w" for e using that by simp
  from run [unfolded create_ingest_job_def Let_def] show ?thesis
  proof (cases rule: abind_lift_cases)
    case (2 ext)
    note ext = 2(1)
    from 2(2) show ?thesis
    proof (cases rule: abind_lift_cases)
      case (2 replay_speed)
      from 2(2) show ?thesis
      proof (cases rule: if_guard_cases)
        case 2
        note speed = 2(1)
        from 2(2) show ?thesis
        proof (cases rule: abind_lift_cases)
          case (2 tenant)
          note tenant = 2(1)
          from 2(2) show ?thesis
          proof (cases rule: abind_lift_cases)
            case (2 directory)
            note directory = 2(1)
            from 2(2) show ?thesis
            proof (cases rule: abind_lift_cases)
              case (2 path)
              note path = 2(1)
              have named: "path = directory @ ''/'' @ (c_uuid_str ?C job_id @ ext)"
                using path directory by (simp add: upload_path_def)
              have name: "CHR ''/'' \<notin> set (c_uuid_str ?C job_id @ ext)"
                using directory ext lower_no_slash [OF path_suffix_no_slash]
                by (auto simp: job_dir_def bind_res_eq_Inr safe_component_Inr dest: no_slash simp: validated_extension_def Let_def split: if_splits)
              from 2(2) show ?thesis
              proof (cases rule: abind_cases)
                case (1 e)
                then show ?thesis
                  using receive_spec [OF fresh [OF tenant directory] name 1(1) [unfolded named]] by auto
              next
                case (2 kind w1)
                from receive_spec [OF fresh [OF tenant directory] name 2(1) [unfolded named]]
                obtain cap where cap: "max_upload_bytes ?C ?config = Inr cap" "concat chunks \<noteq> []" "int (length (concat chunks)) \<le> cap"
                  "job_kind_for (take SNIFF_BYTES (concat chunks)) ext = Inr kind"
                  "w1 = w\<lparr>uw_disk := stored directory path (concat chunks) (uw_disk w)\<rparr>"
                  unfolding named by blast
                show ?thesis
                proof (cases r)
                  case (Inl e)
                  with 2(2) have "e \<noteq> HttpError n"
                    using stream_name_error
                    by (auto simp: abind_def on_server_def lift_res_def ret_def INSERT_JOB_def split: sum.splits if_splits prod.splits)
                  then show ?thesis using Inl by simp
                next
                  case (Inr created)
                  with 2(2) cap(5) have "ic_kind created = kind" "ic_speed created = replay_speed"
                    "uw_disk w' = stored directory path (concat chunks) (uw_disk w)"
                    "\<exists>row. uw_rows w' = uw_rows w @ [row] \<and> jr_id row = job_id \<and> jr_tenant row = tenant \<and> jr_status row = status_str Job_queued \<and>
                       jr_id row \<notin> jr_id ` set (uw_rows w)"
                    "\<exists>msg. uw_bus w' = uw_bus w @ [msg] \<and> ij_job msg = c_uuid_str ?C job_id \<and> ij_tenant msg = tenant_id \<and>
                       ij_path msg = path \<and> ij_kind msg = kind \<and> ij_speed msg = replay_speed"
                    "uw_redis w' = init_progress ?C R (c_uuid_str ?C job_id) kind replay_speed 0 (uw_redis w)"
                    by (auto simp: abind_def on_server_def lift_res_def ret_def INSERT_JOB_def split: sum.splits if_splits prod.splits)
                  then show ?thesis using Inr ext tenant path directory cap(1-4) speed by auto
                qed
              qed
            qed (rule refused)
          qed (rule refused)
        qed (rule refused)
      qed (rule refused)
    qed (rule refused)
  qed (rule refused)
qed

definition demo_upload_env :: api_env where
  "demo_upload_env = \<lparr>ae_conv = std_conv, ae_config = TMap [(''ingest'', TMap [(''upload_dir'', TStr ''/up''),
       (''allowed_ext'', TList [TStr ''.csv''])]), (''streams'', TMap [(''ingest_jobs'', TStr ''q'')])],
     ae_expanduser = id, ae_repo_root = ''/srv''\<rparr>"

definition demo_upload_world :: "mem upload_world" where
  "demo_upload_world = \<lparr>uw_disk = \<lparr>dk_files = [], dk_dirs = []\<rparr>, uw_rows = [], uw_redis = [], uw_bus = [], uw_up = True\<rparr>"

lemma upload_all_or_nothing_witness:
  "(\<exists>created w'. create_ingest_job std_redis demo_upload_env 4 0 ''7'' (Some ''a.CSV'') [''x,'', ''y''] (Some (Fin 2)) demo_upload_world
        = (Inr created, w') \<and> uw_disk w' = stored ''/up/7/4'' ''/up/7/4/4.csv'' ''x,y'' (uw_disk demo_upload_world)) \<and>
    create_ingest_job std_redis demo_upload_env 4 0 ''7'' (Some ''a.CSV'') [''x'' @ [CHR 0x00]] (Some (Fin 2)) demo_upload_world
        = (Inl (HttpError 415), demo_upload_world)"
proof -
  let ?run = "\<lambda>cs. create_ingest_job std_redis demo_upload_env 4 0 ''7'' (Some ''a.CSV'') cs (Some (Fin 2)) demo_upload_world"
  have fresh: "fresh_dir directory (uw_disk demo_upload_world)" for directory
    by (simp add: fresh_dir_def demo_upload_world_def)
  have bad: "fst (?run [''x'' @ [CHR 0x00]]) = Inl (HttpError 415)" by code_simp
  have good: "case fst (?run [''x,'', ''y'']) of Inl e \<Rightarrow> False | Inr created \<Rightarrow> ic_status created = ''queued''" by code_simp
  obtain r w' where run: "?run [''x'' @ [CHR 0x00]] = (r, w')" by force
  obtain r2 w2 where run2: "?run [''x,'', ''y''] = (r2, w2)" by force
  obtain created where r2: "r2 = Inr created" using good run2 by (auto split: sum.splits)
  have path: "job_dir std_conv id ''/srv'' (ae_config demo_upload_env) (c_uuid_str std_conv 7) (c_uuid_str std_conv 4) = Inr ''/up/7/4''"
    "upload_path std_conv id ''/srv'' (ae_config demo_upload_env) (c_uuid_str std_conv 7) (c_uuid_str std_conv 4) ''.csv'' = Inr ''/up/7/4/4.csv''"
    "validated_extension std_conv (ae_config demo_upload_env) (Some ''a.CSV'') = Inr ''.csv''"
    "deps_tenant_uuid std_conv ''7'' = Inr 7" by code_simp+
  have "uw_disk w2 = stored ''/up/7/4'' ''/up/7/4/4.csv'' ''x,y'' (uw_disk demo_upload_world)"
    using upload_all_or_nothing [OF fresh run2, of 0] r2 path by (auto simp: demo_upload_env_def)
  then show ?thesis
    using upload_all_or_nothing [OF fresh run, of 415] run bad run2 r2 by auto
qed

end
