(* ===== verification/Tables.thy ===== *)
theory Tables
  imports PyFloat "HOL-Library.Product_Lexorder" "HOL-Library.Multiset"
begin

text \<open>
  What the offline pipeline uses of pandas and numpy. A table is the list of its rows; \<open>sort_values\<close> on
  several columns is stable, \<open>unique\<close> and \<open>groupby(sort=False)\<close> go by first appearance. Timestamps are
  integers, identifiers are strings. Columns a function does not read are one polymorphic field of a row.
\<close>

section \<open>Frames\<close>

text \<open>\<open>pd.unique\<close>.\<close>

fun firsts :: "'a list \<Rightarrow> 'a list" where
  "firsts [] = []"
| "firsts (x # xs) = x # filter (\<lambda>y. y \<noteq> x) (firsts xs)"

definition rows_of :: "('a \<Rightarrow> 'k) \<Rightarrow> 'k \<Rightarrow> 'a list \<Rightarrow> 'a list" where
  "rows_of f k rows = filter (\<lambda>r. f r = k) rows"

text \<open>The index of the first row with a value, as \<open>np.unique(return_index=True)\<close> gives it.\<close>

definition first_index :: "'a \<Rightarrow> 'a list \<Rightarrow> nat" where
  "first_index x xs = length (takeWhile (\<lambda>y. y \<noteq> x) xs)"

text \<open>\<open>out[lo:hi] = new\<close>.\<close>

definition set_slice :: "nat \<Rightarrow> nat \<Rightarrow> 'a list \<Rightarrow> 'a list \<Rightarrow> 'a list" where
  "set_slice lo hi new out = take lo out @ new @ drop hi out"

text \<open>\<open>[0]\<close> and \<open>np.cumsum\<close>.\<close>

fun cumsum_from :: "'a::plus \<Rightarrow> 'a list \<Rightarrow> 'a list" where
  "cumsum_from s [] = [s]"
| "cumsum_from s (x # xs) = s # cumsum_from (s + x) xs"

text \<open>\<open>np.median\<close>.\<close>

definition median_rat :: "rat list \<Rightarrow> rat option" where
  "median_rat xs = (let s = sort xs; n = length s in
     if n = 0 then None
     else if odd n then Some (s ! (n div 2))
     else Some ((s ! (n div 2 - 1) + s ! (n div 2)) / 2))"

section \<open>Their laws\<close>

lemma set_firsts [simp]: "set (firsts xs) = set xs"
  by (induction xs) auto

lemma distinct_firsts [simp]: "distinct (firsts xs)"
  by (induction xs) auto

lemma set_rows_of [simp]: "set (rows_of f k rows) = {r \<in> set rows. f r = k}"
  by (auto simp: rows_of_def)

lemma first_index_le: "x \<in> set xs \<Longrightarrow> first_index x xs < length xs \<and> xs ! first_index x xs = x"
  by (induction xs) (auto simp: first_index_def)

lemma first_index_before: "i < first_index x xs \<Longrightarrow> xs ! i \<noteq> x"
  unfolding first_index_def by (metis (mono_tags, lifting) nth_mem set_takeWhileD takeWhile_nth)

lemma first_index_nth: "i < length xs \<Longrightarrow> first_index (xs ! i) xs \<le> i"
  using first_index_before [of i "xs ! i" xs] by fastforce

lemma length_set_slice: "lo \<le> hi \<Longrightarrow> hi \<le> length out \<Longrightarrow> length new = hi - lo \<Longrightarrow> length (set_slice lo hi new out) = length out"
  by (simp add: set_slice_def)

lemma nth_set_slice:
  assumes "lo \<le> hi" "hi \<le> length out" "length new = hi - lo" "i < length out"
  shows "set_slice lo hi new out ! i = (if lo \<le> i \<and> i < hi then new ! (i - lo) else out ! i)"
  using assms by (auto simp: set_slice_def nth_append)

lemma length_cumsum [simp]: "length (cumsum_from s xs) = length xs + 1"
  by (induction xs arbitrary: s) auto

lemma nth_cumsum:
  fixes s :: "'a::comm_monoid_add"
  shows "j \<le> length xs \<Longrightarrow> cumsum_from s xs ! j = s + sum_list (take j xs)"
proof (induction xs arbitrary: s j)
  case (Cons x xs)
  then show ?case by (cases j) (auto simp: add.assoc)
qed simp

lemma strict_nth_mono: "sorted_wrt (<) (b :: nat list) \<Longrightarrow> i \<le> j \<Longrightarrow> j < length b \<Longrightarrow> b ! i \<le> b ! j"
  using strict_sorted_imp_sorted sorted_nth_mono by blast

text \<open>Where an index lies between two neighbours of an ascending list.\<close>

lemma between_neighbours:
  assumes "sorted_wrt (<) b" "b \<noteq> []" "hd b \<le> i" "(i :: nat) < last b"
  obtains k where "k + 1 < length b" "b ! k \<le> i" "i < b ! (k + 1)"
  using assms
proof (induction b arbitrary: thesis)
  case (Cons x b)
  note thesis = Cons.prems(1)
  show ?case
  proof (cases b)
    case Nil
    then show ?thesis using Cons.prems by simp
  next
    case (Cons y ys)
    show ?thesis
    proof (cases "i < y")
      case True
      then show ?thesis using thesis [of 0] Cons Cons.prems(4) by simp
    next
      case False
      have "sorted_wrt (<) b" "b \<noteq> []" "hd b \<le> i" "i < last b"
        using Cons.prems False Cons by auto
      then obtain k where "k + 1 < length b" "b ! k \<le> i" "i < b ! (k + 1)" using Cons.IH by blast
      then show ?thesis using thesis [of "k + 1"] by simp
    qed
  qed
qed simp

lemma zip_neighbours: "k + 1 < length b \<Longrightarrow> (b ! k, b ! (k + 1)) \<in> set (zip b (tl b))"
  by (auto simp: set_zip nth_tl)

lemma zip_neighboursD: "(lo, hi) \<in> set (zip b (tl b)) \<Longrightarrow> \<exists>k. k + 1 < length b \<and> lo = b ! k \<and> hi = b ! (k + 1)"
  by (auto simp: set_zip nth_tl less_diff_conv)

lemma mset_filter_disj: "(\<And>x. P x \<Longrightarrow> \<not> Q x) \<Longrightarrow> mset (filter (\<lambda>x. P x \<or> Q x) xs) = mset (filter P xs) + mset (filter Q xs)"
  by (induction xs) auto

lemma mset_rows_of: "distinct ks \<Longrightarrow> mset (concat (map (\<lambda>k. rows_of f k xs) ks)) = mset (filter (\<lambda>x. f x \<in> set ks) xs)"
proof (induction ks)
  case (Cons k ks)
  then show ?case using mset_filter_disj [of "\<lambda>x. f x = k" "\<lambda>x. f x \<in> set ks" xs] by (auto simp: rows_of_def)
qed simp

section \<open>Chains\<close>

text \<open>Cutting a list wherever two neighbours are not linked; \<open>g\<close> is the part that is still open.\<close>

fun chain_groups :: "('a \<Rightarrow> 'a \<Rightarrow> bool) \<Rightarrow> 'a list \<Rightarrow> 'a list \<Rightarrow> 'a list list" where
  "chain_groups P g [] = [g]"
| "chain_groups P g (x # xs) = (if P (last g) x then chain_groups P (g @ [x]) xs else g # chain_groups P [x] xs)"

lemma concat_chain_groups: "concat (chain_groups P g xs) = g @ xs"
  by (induction P g xs rule: chain_groups.induct) auto

lemma chain_groups_hd: "chain_groups P g xs \<noteq> [] \<and> (\<exists>ys. hd (chain_groups P g xs) = g @ ys)"
  by (induction P g xs rule: chain_groups.induct) auto

text \<open>The groups are linked inside and cut between: there is no other such partition.\<close>

definition chained :: "('a \<Rightarrow> 'a \<Rightarrow> bool) \<Rightarrow> 'a list list \<Rightarrow> bool" where
  "chained P gs \<longleftrightarrow> list_all (\<lambda>g. g \<noteq> [] \<and> successively P g) gs \<and> successively (\<lambda>g g'. \<not> P (last g) (hd g')) gs"

lemma chained_chain_groups: "g \<noteq> [] \<Longrightarrow> successively P g \<Longrightarrow> chained P (chain_groups P g xs)"
proof (induction P g xs rule: chain_groups.induct)
  case (2 P g x xs)
  show ?case
  proof (cases "P (last g) x")
    case True
    then show ?thesis using 2 by (simp add: successively_append_iff)
  next
    case False
    have ch: "chained P (chain_groups P [x] xs)" using "2.IH"(2) [OF False] by simp
    obtain ys gs where gs: "chain_groups P [x] xs = (x # ys) # gs"
      using chain_groups_hd [of P "[x]" xs] by (cases "chain_groups P [x] xs") auto
    show ?thesis using False ch 2(3,4) by (simp add: gs chained_def)
  qed
qed (simp add: chained_def)

end
