(* ===== verification/Regexes.thy ===== *)
theory Regexes
  imports Prelude
begin

text \<open>
  The part of \<open>re\<close> the sources use: patterns that are sequences of literal characters, optional or
  repeated characters of a class, alternatives of literal words and word boundaries, all with \<open>re.I\<close>.
  \<open>rx_search\<close> is \<open>Pattern.search\<close> as a truth value, on ASCII text.
\<close>

datatype rx_atom =
    Lit char
  | Opt "char \<Rightarrow> bool"
  | Many "char \<Rightarrow> bool"
  | OneOf "string list"
  | WordB

definition word_char :: "char \<Rightarrow> bool" where
  "word_char c = (let n = of_char c :: nat in 48 \<le> n \<and> n \<le> 57 \<or> 65 \<le> n \<and> n \<le> 90 \<or> 97 \<le> n \<and> n \<le> 122 \<or> n = 95)"

definition word_at :: "char option \<Rightarrow> bool" where
  "word_at c = (case c of None \<Rightarrow> False | Some x \<Rightarrow> word_char x)"

definition first_of :: "string \<Rightarrow> char option" where
  "first_of s = (case s of [] \<Rightarrow> None | x # xs \<Rightarrow> Some x)"

text \<open>A match that starts here, after the character \<open>prev\<close>.\<close>

function rx_here :: "rx_atom list \<Rightarrow> char option \<Rightarrow> string \<Rightarrow> bool" where
  "rx_here [] prev s = True"
| "rx_here (Lit c # r) prev s = (case s of [] \<Rightarrow> False | x # xs \<Rightarrow> lower_char x = lower_char c \<and> rx_here r (Some x) xs)"
| "rx_here (Opt P # r) prev s = (rx_here r prev s \<or> (case s of [] \<Rightarrow> False | x # xs \<Rightarrow> P x \<and> rx_here r (Some x) xs))"
| "rx_here (Many P # r) prev s = (rx_here r prev s \<or> (case s of [] \<Rightarrow> False | x # xs \<Rightarrow> P x \<and> rx_here (Many P # r) (Some x) xs))"
| "rx_here (OneOf ws # r) prev s = list_ex (\<lambda>w. w \<noteq> [] \<and> lower (take (length w) s) = lower w \<and> rx_here r (Some (last w)) (drop (length w) s)) ws"
| "rx_here (WordB # r) prev s = (word_at prev \<noteq> word_at (first_of s) \<and> rx_here r prev s)"
  by pat_completeness auto

termination by (relation "measure (\<lambda>(r, p, s). length r + length s)") auto

fun rx_from :: "rx_atom list \<Rightarrow> char option \<Rightarrow> string \<Rightarrow> bool" where
  "rx_from r prev [] = rx_here r prev []"
| "rx_from r prev (x # xs) = (rx_here r prev (x # xs) \<or> rx_from r (Some x) xs)"

definition rx_search :: "rx_atom list \<Rightarrow> string \<Rightarrow> bool" where
  "rx_search r s = rx_from r None s"

text \<open>A literal pattern.\<close>

definition lits :: "string \<Rightarrow> rx_atom list" where
  "lits s = map Lit s"

lemma lits_here: "rx_here (lits w) prev s \<longleftrightarrow> length w \<le> length s \<and> lower (take (length w) s) = lower w"
proof (induction w arbitrary: prev s)
  case (Cons c w)
  then show ?case by (cases s) (auto simp: lits_def lower_def)
qed (simp add: lits_def lower_def)

lemma prefix_word: "(\<exists>b c. s = b @ c \<and> lower b = lower w) \<longleftrightarrow> length w \<le> length s \<and> lower (take (length w) s) = lower w"
proof
  assume "\<exists>b c. s = b @ c \<and> lower b = lower w"
  then obtain b c where s: "s = b @ c" "lower b = lower w" by blast
  then have "length b = length w" by (metis length_map lower_def)
  then show "length w \<le> length s \<and> lower (take (length w) s) = lower w" using s by simp
next
  assume "length w \<le> length s \<and> lower (take (length w) s) = lower w"
  then show "\<exists>b c. s = b @ c \<and> lower b = lower w"
    by (intro exI [of _ "take (length w) s"] exI [of _ "drop (length w) s"]) simp
qed

text \<open>Searching a literal is looking for it, in any case.\<close>

lemma lits_from: "rx_from (lits w) prev s \<longleftrightarrow> (\<exists>a b c. s = a @ b @ c \<and> lower b = lower w)"
proof (induction s arbitrary: prev)
  case Nil
  then show ?case by (auto simp: lits_here lower_def)
next
  case (Cons x s)
  have "(\<exists>a b c. x # s = a @ b @ c \<and> lower b = lower w) \<longleftrightarrow>
      (\<exists>b c. x # s = b @ c \<and> lower b = lower w) \<or> (\<exists>a b c. s = a @ b @ c \<and> lower b = lower w)"
  proof (intro iffI; elim disjE exE conjE)
    fix a b c assume "x # s = a @ b @ c" "lower b = lower w"
    then show "(\<exists>b c. x # s = b @ c \<and> lower b = lower w) \<or> (\<exists>a b c. s = a @ b @ c \<and> lower b = lower w)"
      by (cases a) auto
  next
    fix b c assume "x # s = b @ c" "lower b = lower w"
    then show "\<exists>a b c. x # s = a @ b @ c \<and> lower b = lower w" by (intro exI [of _ "[]"] exI [of _ b] exI [of _ c]) auto
  next
    fix a b c assume "s = a @ b @ c" "lower b = lower w"
    then show "\<exists>a b c. x # s = a @ b @ c \<and> lower b = lower w" by (intro exI [of _ "x # a"] exI [of _ b] exI [of _ c]) auto
  qed
  moreover have "(\<exists>b c. x # s = b @ c \<and> lower b = lower w) \<longleftrightarrow> rx_here (lits w) prev (x # s)"
    unfolding lits_here by (rule prefix_word)
  ultimately show ?case using Cons.IH by simp
qed

end
