(* ===== verification/Labels.thy ===== *)
theory Labels
  imports Tables Regexes Schema
begin

text \<open>
  \<open>ml/nidra/data/labels.py\<close>: the stage of a raw label, the stage of a host's window and the risk label
  that looks \<open>K\<close> windows ahead. A labelled table is a list of \<open>lrow\<close>; its feature columns are one field.
\<close>

section \<open>Label rules\<close>

definition blank_or_dash :: "char \<Rightarrow> bool" where
  "blank_or_dash c \<longleftrightarrow> is_space c \<or> c = CHR ''-''"

definition LABEL_RULES :: "(rx_atom list \<times> string) list" where
  "LABEL_RULES =
    [(lits ''portscan'', ''recon''),
     (lits ''ftp'' @ [Opt blank_or_dash] @ lits ''patator'', ''initial_access''),
     (lits ''ssh'' @ [Opt blank_or_dash] @ lits ''patator'', ''initial_access''),
     (lits ''web attack'', ''initial_access''),
     (lits ''ftp'' @ [Opt blank_or_dash] @ lits ''bruteforce'', ''initial_access''),
     (lits ''ssh'' @ [Opt blank_or_dash] @ lits ''bruteforce'', ''initial_access''),
     (lits ''brute'' @ [Many is_space] @ lits ''force'' @ [Many is_space, Opt (\<lambda>c. c = CHR ''-''), Many is_space, OneOf [''web'', ''xss'']],
       ''initial_access''),
     (lits ''sql injection'', ''initial_access''),
     (lits ''heartbleed'', ''initial_access''),
     (lits ''infilt'', ''lateral''),
     ([WordB] @ lits ''bot'' @ [WordB], ''c2''),
     (lits ''ddos'', ''exfil''),
     ([WordB] @ lits ''dos'' @ [WordB], ''exfil''),
     (lits ''benign'', ''benign'')]"

definition CTU_BOTNET_MARKER :: "rx_atom list" where
  "CTU_BOTNET_MARKER = lits ''from-botnet''"

definition CTU_RULES :: "(rx_atom list \<times> string) list" where
  "CTU_RULES =
    [([WordB] @ lits ''cc'' @ [Many is_digit, WordB], ''c2''),
     ([WordB] @ lits ''irc'' @ [WordB], ''c2''),
     (lits ''binary-download'', ''initial_access''),
     (lits ''spam'', ''exfil''),
     (lits ''http-ad'', ''exfil''),
     (lits ''click'', ''exfil''),
     (lits ''ddos'', ''exfil''),
     (lits ''icmp'', ''exfil''),
     (lits ''attempt'', ''recon''),
     ([WordB] @ lits ''ps'' @ [WordB], ''recon'')]"

definition CTU_DEFAULT_ATTACK_STAGE :: string where
  "CTU_DEFAULT_ATTACK_STAGE = ''c2''"

fun first_match :: "(rx_atom list \<times> string) list \<Rightarrow> string \<Rightarrow> string \<Rightarrow> string" where
  "first_match [] label z = z"
| "first_match ((pattern, stage) # rules) label z = (if rx_search pattern label then stage else first_match rules label z)"

definition map_label_to_stage :: "string \<Rightarrow> string \<Rightarrow> string res" where
  "map_label_to_stage raw_label dialect =
     (let label = strip raw_label in
      if dialect = ''ctu'' then
        (if \<not> rx_search CTU_BOTNET_MARKER label then Inr ''benign''
         else Inr (first_match CTU_RULES label CTU_DEFAULT_ATTACK_STAGE))
      else if dialect \<noteq> ''cic'' then Inl ValueError
      else Inr (first_match LABEL_RULES label ''benign''))"

definition label_is_recognised :: "string \<Rightarrow> string \<Rightarrow> bool" where
  "label_is_recognised label dialect =
     (let txt = strip label in
      if dialect = ''ctu'' then
        rx_search CTU_BOTNET_MARKER txt \<or> rx_search (lits ''background'') txt \<or> rx_search (lits ''normal'') txt
      else list_ex (\<lambda>(p, s). rx_search p txt) LABEL_RULES)"

section \<open>The stage of a window\<close>

text \<open>The source address, window and raw label of a windowed flow, and a row of the stage table.\<close>

type_synonym flow_label = "string \<times> int \<times> string"
type_synonym stage_row = "string \<times> int \<times> string"

text \<open>\<open>idxmax\<close>: the first row with the largest value.\<close>

fun first_max :: "('a \<Rightarrow> nat) \<Rightarrow> 'a \<Rightarrow> 'a list \<Rightarrow> 'a" where
  "first_max f x [] = x"
| "first_max f x (y # ys) = first_max f (if f x < f y then y else x) ys"

definition STAGE_INDEX :: "string \<Rightarrow> nat" where
  "STAGE_INDEX s = first_index s STAGES"

definition label_stage_table :: "flow_label list \<Rightarrow> string \<Rightarrow> (stage_row list \<times> string list) res" where
  "label_stage_table flows dialect =
     (let vocabulary = firsts (map (\<lambda>(h, t, l). l) flows) in
      bind_res (traverse_res (\<lambda>v. map_label_to_stage v dialect) vocabulary) (\<lambda>stages.
      let stage_of = (\<lambda>l. dict_get (zip vocabulary stages) l []);
          unmapped = sort (filter (\<lambda>v. \<not> label_is_recognised v dialect) vocabulary);
          df = map (\<lambda>(h, t, l). (h, t, stage_of l)) flows;
          ids = sort (firsts (map (\<lambda>(h, t, s). (h, t)) df));
          winner = (\<lambda>k. let g = rows_of (\<lambda>(h, t, s). (h, t)) k df in first_max (\<lambda>(h, t, s). STAGE_INDEX s) (hd g) (tl g))
      in Inr (map winner ids, unmapped)))"

section \<open>The risk label\<close>

record 'f lrow =
  lr_host :: string
  lr_ts :: int
  lr_feat :: 'f
  lr_stage :: string
  lr_risk :: int

definition is_attack :: "'f lrow \<Rightarrow> bool" where
  "is_attack r \<longleftrightarrow> lr_stage r \<noteq> ''benign''"

text \<open>\<open>sort_values(["host_id", "window_ts"])\<close>.\<close>

definition by_host_ts :: "'f lrow list \<Rightarrow> 'f lrow list" where
  "by_host_ts rows = sort_key (\<lambda>r. (lr_host r, lr_ts r)) rows"

definition risk_label_from_attack_flags :: "int list \<Rightarrow> nat \<Rightarrow> int list" where
  "risk_label_from_attack_flags attack horizon_k =
     (let n = length attack; cum = cumsum_from 0 attack in
      if n = 0 then []
      else map (\<lambda>i. let hi = min n (i + 1 + horizon_k); ahead = cum ! hi - cum ! (i + 1) in if ahead > 0 then 1 else 0) [0..<n])"

definition reattach_risk_label :: "'f lrow list \<Rightarrow> nat \<Rightarrow> 'f lrow list" where
  "reattach_risk_label labelled horizon_k =
     (let df = by_host_ts labelled;
          flags = map (\<lambda>r. if is_attack r then 1 else 0) df;
          hosts = map lr_host df;
          bounds = sort (map (\<lambda>h. first_index h hosts) (sort (firsts hosts))) @ [length df];
          risk = foldl (\<lambda>risk (lo, hi). set_slice lo hi (risk_label_from_attack_flags (take (hi - lo) (drop lo flags)) horizon_k) risk)
                   (replicate (length df) 0) (zip bounds (tl bounds))
      in map (\<lambda>(r, y). r\<lparr>lr_risk := y\<rparr>) (zip df risk))"

text \<open>
  The left merge: a state row is kept once per stage row of its host and window, or once with no stage,
  which is read as benign.
\<close>

definition attach_risk_label :: "(string \<times> int \<times> 'f) list \<Rightarrow> stage_row list \<Rightarrow> nat \<Rightarrow> 'f lrow list" where
  "attach_risk_label state_table stage_table horizon_k =
     reattach_risk_label (concat (map (\<lambda>(h, t, x).
       let stages = map (\<lambda>(h', t', s). s) (filter (\<lambda>(h', t', s). h' = h \<and> t' = t) stage_table) in
       map (\<lambda>s. \<lparr>lr_host = h, lr_ts = t, lr_feat = x, lr_stage = s, lr_risk = 0\<rparr>) (if stages = [] then [''benign''] else stages))
       state_table)) horizon_k"

section \<open>The look-ahead is the definition\<close>

lemma sum_list_zero_one: "set xs \<subseteq> {0, 1 :: int} \<Longrightarrow> 0 \<le> sum_list xs \<and> (0 < sum_list xs \<longleftrightarrow> 1 \<in> set xs)"
  by (induction xs) auto

lemma length_risk_flags [simp]: "length (risk_label_from_attack_flags a K) = length a"
  by (simp add: risk_label_from_attack_flags_def Let_def)

lemma nth_risk_flags:
  assumes "set a \<subseteq> {0, 1}" "i < length a"
  shows "risk_label_from_attack_flags a K ! i = (if \<exists>j. i < j \<and> j \<le> i + K \<and> j < length a \<and> a ! j = 1 then 1 else 0)"
proof -
  define hi where "hi = min (length a) (i + 1 + K)"
  define ahead where "ahead = take (hi - (i + 1)) (drop (i + 1) a)"
  have hi: "i + 1 \<le> hi" "hi \<le> length a" using assms(2) by (auto simp: hi_def)
  have "take hi a = take (i + 1) a @ ahead"
    using hi take_add [of "i + 1" "hi - (i + 1)" a] by (simp add: ahead_def)
  then have "cumsum_from 0 a ! hi - cumsum_from 0 a ! (i + 1) = sum_list ahead"
    using hi by (simp add: nth_cumsum)
  moreover have "set ahead \<subseteq> {0, 1}" using assms(1) by (auto simp: ahead_def dest!: in_set_takeD in_set_dropD)
  moreover have "1 \<in> set ahead \<longleftrightarrow> (\<exists>j. i < j \<and> j \<le> i + K \<and> j < length a \<and> a ! j = 1)"
  proof
    assume "1 \<in> set ahead"
    then obtain k where k: "k < length ahead" "ahead ! k = 1" by (auto simp: in_set_conv_nth)
    then have "k < hi - (i + 1)" "a ! (i + 1 + k) = 1" using hi by (auto simp: ahead_def)
    then show "\<exists>j. i < j \<and> j \<le> i + K \<and> j < length a \<and> a ! j = 1"
      by (intro exI [of _ "i + 1 + k"]) (auto simp: hi_def)
  next
    assume "\<exists>j. i < j \<and> j \<le> i + K \<and> j < length a \<and> a ! j = 1"
    then obtain j where j: "i < j" "j \<le> i + K" "j < length a" "a ! j = 1" by blast
    then have "ahead ! (j - (i + 1)) = 1" "j - (i + 1) < length ahead" by (auto simp: ahead_def hi_def)
    then show "1 \<in> set ahead" by (metis nth_mem)
  qed
  moreover have "risk_label_from_attack_flags a K ! i = (if cumsum_from 0 a ! hi - cumsum_from 0 a ! (i + 1) > 0 then 1 else 0)"
    using assms(2) by (auto simp: risk_label_from_attack_flags_def Let_def hi_def)
  ultimately show ?thesis using sum_list_zero_one [of ahead] by simp
qed

text \<open>Assigning slices that do not overlap.\<close>

lemma foldl_slices_outside:
  assumes "\<forall>(lo, hi) \<in> set ps. lo \<le> hi \<and> hi \<le> length out \<and> length (f lo hi) = hi - lo \<and> \<not> (lo \<le> i \<and> i < hi)" "i < length out"
  shows "foldl (\<lambda>out (lo, hi). set_slice lo hi (f lo hi) out) out ps ! i = out ! i"
  using assms
proof (induction ps arbitrary: out)
  case (Cons p ps)
  then show ?case by (cases p) (auto simp: nth_set_slice length_set_slice)
qed simp

lemma length_foldl_slices:
  assumes "\<forall>(lo, hi) \<in> set ps. lo \<le> hi \<and> hi \<le> length out \<and> length (f lo hi) = hi - lo"
  shows "length (foldl (\<lambda>out (lo, hi). set_slice lo hi (f lo hi) out) out ps) = length out"
  using assms
proof (induction ps arbitrary: out)
  case (Cons p ps)
  then show ?case by (cases p) (auto simp: length_set_slice)
qed simp

lemma foldl_slices_inside:
  assumes "\<forall>(lo, hi) \<in> set ps. lo \<le> hi \<and> hi \<le> length out \<and> length (f lo hi) = hi - lo"
    "(lo, hi) \<in> set ps" "lo \<le> i" "i < hi"
    "\<forall>(lo', hi') \<in> set ps. lo' \<le> i \<and> i < hi' \<longrightarrow> lo' = lo \<and> hi' = hi"
  shows "foldl (\<lambda>out (lo, hi). set_slice lo hi (f lo hi) out) out ps ! i = f lo hi ! (i - lo)"
  using assms
proof (induction ps arbitrary: out rule: rev_induct)
  case (snoc p ps)
  obtain a b where p: "p = (a, b)" by force
  let ?run = "foldl (\<lambda>out (lo, hi). set_slice lo hi (f lo hi) out) out ps"
  have len: "length ?run = length out" using snoc.prems(1) by (intro length_foldl_slices) auto
  have ab: "a \<le> b" "b \<le> length out" "length (f a b) = b - a" using snoc.prems(1) p by auto
  have i: "i < length out" using snoc.prems(1,2,4) by fastforce
  show ?case
  proof (cases "a \<le> i \<and> i < b")
    case True
    then have "a = lo" "b = hi" using snoc.prems(5) p by auto
    then show ?thesis using ab i len True p by (simp add: nth_set_slice)
  next
    case False
    then have "(lo, hi) \<in> set ps" using snoc.prems(2,3,4) p by auto
    then have "?run ! i = f lo hi ! (i - lo)" using snoc by auto
    then show ?thesis using ab i len False p by (auto simp: nth_set_slice)
  qed
qed simp

text \<open>The bounds of the hosts of a sorted column.\<close>

definition host_bounds :: "string list \<Rightarrow> nat list" where
  "host_bounds hosts = sort (map (\<lambda>h. first_index h hosts) (sort (firsts hosts))) @ [length hosts]"

lemma host_bounds_strict: "sorted_wrt (<) (host_bounds hosts)"
proof -
  have "inj_on (\<lambda>h. first_index h hosts) (set hosts)"
  proof (rule inj_onI)
    fix x y assume "x \<in> set hosts" "y \<in> set hosts" "first_index x hosts = first_index y hosts"
    then show "x = y" using first_index_le [of x hosts] first_index_le [of y hosts] by metis
  qed
  then have "distinct (sort (map (\<lambda>h. first_index h hosts) (sort (firsts hosts))))" by (simp add: distinct_map)
  then have "sorted_wrt (<) (sort (map (\<lambda>h. first_index h hosts) (sort (firsts hosts))))"
    by (simp add: strict_sorted_iff)
  then show ?thesis
    using first_index_le [of _ hosts] by (auto simp: host_bounds_def sorted_wrt_append)
qed

lemma set_host_bounds: "set (host_bounds hosts) = insert (length hosts) ((\<lambda>h. first_index h hosts) ` set hosts)"
  by (simp add: host_bounds_def)

lemma host_segment:
  assumes "sorted hosts" "i < length hosts"
  obtains lo hi where "(lo, hi) \<in> set (zip (host_bounds hosts) (tl (host_bounds hosts)))" "lo \<le> i" "i < hi" "hi \<le> length hosts"
    "\<And>j. j < length hosts \<Longrightarrow> hosts ! j = hosts ! i \<longleftrightarrow> lo \<le> j \<and> j < hi"
proof -
  let ?b = "host_bounds hosts"
  have st: "sorted_wrt (<) ?b" by (rule host_bounds_strict)
  have mem: "first_index (hosts ! j) hosts \<in> set ?b" if "j < length hosts" for j
    using that by (simp add: set_host_bounds)
  have "first_index (hosts ! 0) hosts = 0" using first_index_nth [of 0 hosts] assms(2) by (cases hosts) auto
  then have "0 \<in> set ?b" using mem [of 0] assms(2) by fastforce
  then have "hd ?b = 0" using st by (cases ?b) auto
  moreover have "last ?b = length hosts" by (simp add: host_bounds_def)
  moreover have "?b \<noteq> []" by (simp add: host_bounds_def)
  ultimately obtain k where k: "k + 1 < length ?b" "?b ! k \<le> i" "i < ?b ! (k + 1)"
    using between_neighbours [OF st, of i] assms(2) by auto
  define lo hi where "lo = ?b ! k" and "hi = ?b ! (k + 1)"
  have none: "\<not> (lo < x \<and> x < hi)" if x: "x \<in> set ?b" for x
  proof -
    obtain m where m: "m < length ?b" "x = ?b ! m" using x by (auto simp: in_set_conv_nth)
    consider "m \<le> k" | "k + 1 \<le> m" by linarith
    then show ?thesis
    proof cases
      case 1
      then have "x \<le> lo" using strict_nth_mono [OF st, of m k] m k(1) by (simp add: lo_def)
      then show ?thesis by simp
    next
      case 2
      then have "hi \<le> x" using strict_nth_mono [OF st, of "k + 1" m] m k(1) by (simp add: hi_def)
      then show ?thesis by simp
    qed
  qed
  have bound: "x \<le> length hosts" if "x \<in> set ?b" for x
    using that first_index_le [of _ hosts] by (fastforce simp: set_host_bounds)
  have hi_le: "hi \<le> length hosts" using bound k(1) unfolding hi_def by (meson nth_mem)
  have lo_lt: "lo < length hosts" using k(2) assms(2) by (simp add: lo_def)
  have same: "hosts ! j = hosts ! lo" if j: "lo \<le> j" "j < hi" for j
  proof -
    have jn: "j < length hosts" using j hi_le by simp
    let ?f = "first_index (hosts ! j) hosts"
    have "?f \<le> j" using first_index_nth jn by blast
    then have "?f \<le> lo" using none [OF mem [OF jn]] j by linarith
    then have "hosts ! ?f \<le> hosts ! lo" using assms(1) lo_lt by (simp add: sorted_nth_mono)
    then have "hosts ! j \<le> hosts ! lo" using first_index_le [of "hosts ! j" hosts] jn by auto
    moreover have "hosts ! lo \<le> hosts ! j" using assms(1) j jn by (simp add: sorted_nth_mono)
    ultimately show ?thesis by simp
  qed
  have lo_first: "lo = first_index (hosts ! lo) hosts"
  proof -
    have "lo \<in> set ?b" using k(1) unfolding lo_def by (intro nth_mem) simp
    then obtain h where "h \<in> set hosts" "lo = first_index h hosts" using lo_lt by (auto simp: set_host_bounds)
    then show ?thesis using first_index_le [of h hosts] by simp
  qed
  have inside: "lo \<le> j \<and> j < hi" if j: "j < length hosts" "hosts ! j = hosts ! lo" for j
  proof
    show "lo \<le> j" using first_index_nth [OF j(1)] j(2) lo_first by simp
    show "j < hi"
    proof (rule ccontr)
      assume "\<not> j < hi"
      then have hn: "hi < length hosts" "hi \<le> j" using j(1) by auto
      have "hi \<in> set ?b" using k(1) unfolding hi_def by (intro nth_mem) simp
      then obtain h where h: "h \<in> set hosts" "hi = first_index h hosts" using hn by (auto simp: set_host_bounds)
      then have "hosts ! hi = h" using first_index_le [of h hosts] by simp
      moreover have "lo < hi" using k(2,3) by (simp add: lo_def hi_def)
      then have "hosts ! lo \<noteq> h" using first_index_before [of lo h hosts] h(2) by simp
      moreover have "hosts ! lo \<le> hosts ! hi" "hosts ! hi \<le> hosts ! j"
        using assms(1) \<open>lo < hi\<close> hn j(1) by (simp_all add: sorted_nth_mono)
      ultimately show False using j(2) by simp
    qed
  qed
  show ?thesis
  proof
    show "(lo, hi) \<in> set (zip ?b (tl ?b))" using zip_neighbours [OF k(1)] by (simp add: lo_def hi_def)
    show "lo \<le> i" "i < hi" using k by (simp_all add: lo_def hi_def)
    show "hi \<le> length hosts" by (rule hi_le)
    show "hosts ! j = hosts ! i \<longleftrightarrow> lo \<le> j \<and> j < hi" if "j < length hosts" for j
      using inside [OF that] same [of j] same [of i] k by (auto simp: lo_def hi_def)
  qed
qed

text \<open>What the function returns: the sorted table, each row labelled by the rows of its own host that follow it.\<close>

definition looks_ahead :: "nat \<Rightarrow> 'f lrow list \<Rightarrow> nat \<Rightarrow> bool" where
  "looks_ahead K df i \<longleftrightarrow> (\<exists>j. i < j \<and> j \<le> i + K \<and> j < length df \<and> lr_host (df ! j) = lr_host (df ! i) \<and> is_attack (df ! j))"

lemma by_host_ts_sorted: "sorted (map (\<lambda>r. (lr_host r, lr_ts r)) (by_host_ts rows))"
  by (simp add: by_host_ts_def)

lemma sorted_hosts: "sorted (map lr_host (by_host_ts rows))"
proof -
  have "sorted (map fst (map (\<lambda>r. (lr_host r, lr_ts r)) (by_host_ts rows)))"
    using by_host_ts_sorted [of rows] by (fastforce simp: sorted_iff_nth_mono less_imp_le)
  then show ?thesis by (simp add: comp_def)
qed

lemma reattach_nth:
  fixes rows :: "'f lrow list"
  defines "df \<equiv> by_host_ts rows"
  shows "length (reattach_risk_label rows K) = length df"
    "i < length df \<Longrightarrow> reattach_risk_label rows K ! i = (df ! i)\<lparr>lr_risk := (if looks_ahead K df i then 1 else 0)\<rparr>"
proof -
  define flags :: "int list" where "flags = map (\<lambda>r. if is_attack r then 1 else 0) df"
  define hosts where "hosts = map lr_host df"
  define f where "f = (\<lambda>lo hi. risk_label_from_attack_flags (take (hi - lo) (drop lo flags)) K)"
  define ps where "ps = zip (host_bounds hosts) (tl (host_bounds hosts))"
  define risk where "risk = foldl (\<lambda>risk (lo, hi). set_slice lo hi (f lo hi) risk) (replicate (length df) 0) ps"
  have def: "reattach_risk_label rows K = map (\<lambda>(r, y). r\<lparr>lr_risk := y\<rparr>) (zip df risk)"
    by (simp add: reattach_risk_label_def Let_def risk_def f_def ps_def hosts_def flags_def df_def host_bounds_def)
  have n: "length flags = length df" "length hosts = length df" by (simp_all add: flags_def hosts_def)
  have strict: "sorted_wrt (<) (host_bounds hosts)" by (rule host_bounds_strict)
  have pair: "lo < hi \<and> hi \<le> length df" if "(lo, hi) \<in> set ps" for lo hi
  proof -
    from zip_neighboursD [OF that [unfolded ps_def]] obtain k where k: "k + 1 < length (host_bounds hosts)"
      "lo = host_bounds hosts ! k" "hi = host_bounds hosts ! (k + 1)" by blast
    then have "hi \<in> set (host_bounds hosts)" by simp
    then have "hi \<le> length df" using first_index_le [of _ hosts] n(2) by (fastforce simp: set_host_bounds)
    moreover have "lo < hi" using strict k sorted_wrt_nth_less by fastforce
    ultimately show ?thesis by simp
  qed
  have ok: "\<forall>(lo, hi) \<in> set ps. lo \<le> hi \<and> hi \<le> length (replicate (length df) (0 :: int)) \<and> length (f lo hi) = hi - lo"
  proof clarify
    fix lo hi assume "(lo, hi) \<in> set ps"
    then show "lo \<le> hi \<and> hi \<le> length (replicate (length df) (0 :: int)) \<and> length (f lo hi) = hi - lo"
      using pair [of lo hi] n(1) by (auto simp: f_def min_def)
  qed
  have len: "length risk = length df" unfolding risk_def using length_foldl_slices [OF ok] by simp
  then show "length (reattach_risk_label rows K) = length df" by (simp add: def)
  assume i: "i < length df"
  have "sorted hosts" unfolding hosts_def df_def by (rule sorted_hosts)
  then obtain lo hi where seg: "(lo, hi) \<in> set ps" "lo \<le> i" "i < hi" "hi \<le> length df"
    and same: "\<And>j. j < length df \<Longrightarrow> hosts ! j = hosts ! i \<longleftrightarrow> lo \<le> j \<and> j < hi"
    using host_segment [of hosts i] i n(2) unfolding ps_def by metis
  have only: "\<forall>(lo', hi') \<in> set ps. lo' \<le> i \<and> i < hi' \<longrightarrow> lo' = lo \<and> hi' = hi"
  proof (clarify)
    fix lo' hi' assume o: "(lo', hi') \<in> set ps" "lo' \<le> i" "i < hi'"
    obtain k where k: "k + 1 < length (host_bounds hosts)" "lo = host_bounds hosts ! k" "hi = host_bounds hosts ! (k + 1)"
      using zip_neighboursD [OF seg(1) [unfolded ps_def]] by auto
    obtain k' where k': "k' + 1 < length (host_bounds hosts)" "lo' = host_bounds hosts ! k'" "hi' = host_bounds hosts ! (k' + 1)"
      using zip_neighboursD [OF o(1) [unfolded ps_def]] by auto
    have "\<not> k + 1 \<le> k'"
    proof
      assume "k + 1 \<le> k'"
      then have "hi \<le> lo'" using strict_nth_mono [OF strict] k k' by simp
      then show False using o(2) seg(3) by simp
    qed
    moreover have "\<not> k' + 1 \<le> k"
    proof
      assume "k' + 1 \<le> k"
      then have "hi' \<le> lo" using strict_nth_mono [OF strict] k k' by simp
      then show False using o(3) seg(2) by simp
    qed
    ultimately have "k = k'" by simp
    then show "lo' = lo \<and> hi' = hi" using k k' by simp
  qed
  have "risk ! i = f lo hi ! (i - lo)"
    unfolding risk_def by (rule foldl_slices_inside [OF ok seg(1-3) only])
  also have "\<dots> = (if looks_ahead K df i then 1 else 0)"
  proof -
    let ?a = "take (hi - lo) (drop lo flags)"
    have "set ?a \<subseteq> {0, 1}" by (auto simp: flags_def dest!: in_set_takeD in_set_dropD)
    moreover have "i - lo < length ?a" using seg n(1) by simp
    moreover have "(\<exists>j. i - lo < j \<and> j \<le> i - lo + K \<and> j < length ?a \<and> ?a ! j = 1) \<longleftrightarrow> looks_ahead K df i"
    proof
      assume "\<exists>j. i - lo < j \<and> j \<le> i - lo + K \<and> j < length ?a \<and> ?a ! j = 1"
      then obtain j where j: "i - lo < j" "j \<le> i - lo + K" "j < length ?a" "?a ! j = 1" by blast
      then have "lo + j < length df" "is_attack (df ! (lo + j))" using seg n(1) by (auto simp: flags_def split: if_splits)
      moreover have "hosts ! (lo + j) = hosts ! i" using same [of "lo + j"] j(3) seg by auto
      ultimately show "looks_ahead K df i"
        using j(1,2) seg i unfolding looks_ahead_def hosts_def by (intro exI [of _ "lo + j"]) auto
    next
      assume "looks_ahead K df i"
      then obtain j where j: "i < j" "j \<le> i + K" "j < length df" "lr_host (df ! j) = lr_host (df ! i)" "is_attack (df ! j)"
        unfolding looks_ahead_def by blast
      then have "lo \<le> j" "j < hi" using same [of j] i by (auto simp: hosts_def)
      then show "\<exists>j. i - lo < j \<and> j \<le> i - lo + K \<and> j < length ?a \<and> ?a ! j = 1"
        using j seg n(1) by (intro exI [of _ "j - lo"]) (auto simp: flags_def)
    qed
    ultimately show ?thesis unfolding f_def by (simp add: nth_risk_flags)
  qed
  finally show "reattach_risk_label rows K ! i = (df ! i)\<lparr>lr_risk := (if looks_ahead K df i then 1 else 0)\<rparr>"
    using i len by (simp add: def)
qed

text \<open>A table whose hosts have a row for every window of \<open>W\<close> seconds between their first and their last.\<close>

definition gap_filled :: "int \<Rightarrow> 'f lrow list \<Rightarrow> bool" where
  "gap_filled W rows \<longleftrightarrow> (let df = by_host_ts rows in
     \<forall>i. i + 1 < length df \<longrightarrow> lr_host (df ! (i + 1)) = lr_host (df ! i) \<longrightarrow> lr_ts (df ! (i + 1)) = lr_ts (df ! i) + W)"

lemma host_between:
  assumes "sorted hosts" "i \<le> k" "k \<le> j" "j < length hosts" "hosts ! i = (hosts ! j :: string)"
  shows "hosts ! k = hosts ! i"
  using assms sorted_nth_mono [OF assms(1), of i k] sorted_nth_mono [OF assms(1), of k j] by simp

lemma gap_filled_time:
  assumes "gap_filled W rows" "i \<le> j" "j < length (by_host_ts rows)"
    "lr_host (by_host_ts rows ! i) = lr_host (by_host_ts rows ! j)"
  shows "lr_ts (by_host_ts rows ! j) = lr_ts (by_host_ts rows ! i) + int (j - i) * W"
  using assms(2-)
proof (induction "j - i" arbitrary: j)
  case (Suc d)
  let ?df = "by_host_ts rows"
  obtain j' where j: "j = Suc j'" using Suc.hyps(2) by (cases j) auto
  have "lr_host (?df ! j') = lr_host (?df ! i)"
    using host_between [OF sorted_hosts [of rows], of i j' j] Suc.prems Suc.hyps(2) j by simp
  then have "lr_ts (?df ! j') = lr_ts (?df ! i) + int (j' - i) * W"
    using Suc.hyps(1) [of j'] Suc.hyps(2) Suc.prems j by auto
  moreover have "lr_ts (?df ! j) = lr_ts (?df ! j') + W"
    using assms(1) Suc.prems j \<open>lr_host (?df ! j') = lr_host (?df ! i)\<close> unfolding gap_filled_def Let_def
    by (metis Suc_eq_plus1)
  moreover have "int (j - i) = int (j' - i) + 1" using Suc.hyps(2) Suc.prems(1) j by auto
  ultimately show ?case by (simp add: algebra_simps)
qed simp

lemma reattached_risk:
  assumes "0 < W" "gap_filled W rows" "r \<in> set (reattach_risk_label rows K)"
  shows "lr_risk r = (if \<exists>s \<in> set rows. lr_host s = lr_host r \<and> is_attack s \<and> lr_ts r < lr_ts s \<and> lr_ts s \<le> lr_ts r + int K * W then 1 else 0)"
    "map (\<lambda>r. r\<lparr>lr_risk := 0\<rparr>) (reattach_risk_label rows K) = map (\<lambda>r. r\<lparr>lr_risk := 0\<rparr>) (by_host_ts rows)"
proof -
  let ?df = "by_host_ts rows"
  obtain i where i: "i < length ?df" "r = (?df ! i)\<lparr>lr_risk := (if looks_ahead K ?df i then 1 else 0)\<rparr>"
    using assms(3) reattach_nth [where rows = rows and K = K] by (metis in_set_conv_nth)
  have set: "set ?df = set rows" by (simp add: by_host_ts_def)
  have "looks_ahead K ?df i \<longleftrightarrow> (\<exists>s \<in> set rows. lr_host s = lr_host (?df ! i) \<and> is_attack s \<and> lr_ts (?df ! i) < lr_ts s \<and> lr_ts s \<le> lr_ts (?df ! i) + int K * W)"
  proof
    assume "looks_ahead K ?df i"
    then obtain j where j: "i < j" "j \<le> i + K" "j < length ?df" "lr_host (?df ! j) = lr_host (?df ! i)" "is_attack (?df ! j)"
      unfolding looks_ahead_def by blast
    have "lr_ts (?df ! j) = lr_ts (?df ! i) + int (j - i) * W"
      using gap_filled_time [OF assms(2), of i j] j by simp
    moreover have "0 < int (j - i) * W" using j(1) assms(1) by simp
    moreover have "int (j - i) * W \<le> int K * W" using j(1,2) assms(1) by (intro mult_right_mono) auto
    ultimately show "\<exists>s \<in> set rows. lr_host s = lr_host (?df ! i) \<and> is_attack s \<and> lr_ts (?df ! i) < lr_ts s \<and> lr_ts s \<le> lr_ts (?df ! i) + int K * W"
      using j(3-5) set by (metis add_le_cancel_left less_add_same_cancel1 nth_mem)
  next
    assume "\<exists>s \<in> set rows. lr_host s = lr_host (?df ! i) \<and> is_attack s \<and> lr_ts (?df ! i) < lr_ts s \<and> lr_ts s \<le> lr_ts (?df ! i) + int K * W"
    then obtain j where j: "j < length ?df" "lr_host (?df ! j) = lr_host (?df ! i)" "is_attack (?df ! j)"
        "lr_ts (?df ! i) < lr_ts (?df ! j)" "lr_ts (?df ! j) \<le> lr_ts (?df ! i) + int K * W"
      using set by (metis in_set_conv_nth)
    have "\<not> j \<le> i"
    proof
      assume "j \<le> i"
      then have "lr_ts (?df ! i) = lr_ts (?df ! j) + int (i - j) * W" using gap_filled_time [OF assms(2)] j(2) i(1) by simp
      moreover have "0 \<le> int (i - j) * W" using assms(1) by simp
      ultimately show False using j(4) by linarith
    qed
    then have "lr_ts (?df ! j) = lr_ts (?df ! i) + int (j - i) * W"
      using gap_filled_time [OF assms(2), of i j] j(1,2) by simp
    then have "int (j - i) * W \<le> int K * W" using j(5) by simp
    then have "j - i \<le> K" using assms(1) by simp
    then show "looks_ahead K ?df i" using j \<open>\<not> j \<le> i\<close> unfolding looks_ahead_def by (intro exI [of _ j]) auto
  qed
  then show "lr_risk r = (if \<exists>s \<in> set rows. lr_host s = lr_host r \<and> is_attack s \<and> lr_ts r < lr_ts s \<and> lr_ts s \<le> lr_ts r + int K * W then 1 else 0)"
    using i(2) by simp
  show "map (\<lambda>r. r\<lparr>lr_risk := 0\<rparr>) (reattach_risk_label rows K) = map (\<lambda>r. r\<lparr>lr_risk := 0\<rparr>) ?df"
    using reattach_nth [where rows = rows and K = K] by (intro nth_equalityI) auto
qed

text \<open>
  The risk label looks exactly \<open>K\<close> windows ahead. On a table without gaps, a row is labelled 1 exactly
  when its host has an attack window in the \<open>K\<close> windows after it, never for the attack it is in, and
  the rows are those given, sorted by host and time.
\<close>

lemma risk_label_looks_ahead:
  assumes "0 < W" "gap_filled W rows" "r \<in> set (reattach_risk_label rows K)"
  shows "lr_risk r = (if \<exists>s \<in> set rows. lr_host s = lr_host r \<and> is_attack s \<and> lr_ts r < lr_ts s \<and> lr_ts s \<le> lr_ts r + int K * W then 1 else 0) \<and>
    map (\<lambda>r. r\<lparr>lr_risk := 0\<rparr>) (reattach_risk_label rows K) = map (\<lambda>r. r\<lparr>lr_risk := 0\<rparr>) (by_host_ts rows)"
  using reattached_risk [OF assms] by blast

definition demo_lrow :: "string \<Rightarrow> int \<Rightarrow> string \<Rightarrow> unit lrow" where
  "demo_lrow h t s = \<lparr>lr_host = h, lr_ts = t, lr_feat = (), lr_stage = s, lr_risk = 0\<rparr>"

definition demo_table :: "unit lrow list" where
  "demo_table = [demo_lrow ''a'' 120 ''recon'', demo_lrow ''a'' 0 ''benign'', demo_lrow ''b'' 60 ''benign'', demo_lrow ''a'' 60 ''benign'']"

lemma demo_gap_filled: "gap_filled 60 demo_table"
proof -
  have "by_host_ts demo_table = [demo_lrow ''a'' 0 ''benign'', demo_lrow ''a'' 60 ''benign'', demo_lrow ''a'' 120 ''recon'', demo_lrow ''b'' 60 ''benign'']"
    by code_simp
  then show ?thesis by (auto simp: gap_filled_def Let_def demo_lrow_def nth_Cons' less_Suc_eq)
qed

lemma risk_label_looks_ahead_witness:
  "\<forall>r \<in> set (reattach_risk_label demo_table 1). lr_risk r = (if lr_host r = ''a'' \<and> lr_ts r = 60 then 1 else 0)"
proof
  fix r assume r: "r \<in> set (reattach_risk_label demo_table 1)"
  have "r\<lparr>lr_risk := 0\<rparr> \<in> set (map (\<lambda>r. r\<lparr>lr_risk := 0\<rparr>) (by_host_ts demo_table))"
    using r risk_label_looks_ahead [OF _ demo_gap_filled r] by (metis image_eqI image_set zero_less_numeral)
  then have "lr_ts r \<in> {0, 60, 120}"
    by (cases r) (auto simp: by_host_ts_def demo_table_def demo_lrow_def)
  then show "lr_risk r = (if lr_host r = ''a'' \<and> lr_ts r = 60 then 1 else 0)"
    using risk_label_looks_ahead [OF _ demo_gap_filled r] by (auto simp: demo_table_def demo_lrow_def is_attack_def)
qed

section \<open>The stage of a window is its most severe\<close>

lemma first_max_spec: "first_max f x xs \<in> set (x # xs) \<and> (\<forall>y \<in> set (x # xs). f y \<le> f (first_max f x xs))"
proof (induction xs arbitrary: x)
  case (Cons y ys)
  show ?case
    using Cons [of "if f x < f y then y else x"] by (cases "f x < f y") (force intro: order_trans less_imp_le)+
qed simp

lemma traverse_lookup:
  assumes "traverse_res f vs = Inr ys" "distinct vs" "v \<in> set vs"
  shows "f v = Inr (dict_get (zip vs ys) v z)"
  using assms by (induction vs arbitrary: ys) (auto simp: bind_res_eq_Inr dict_get_def)

lemma label_stage_table_rows:
  assumes "label_stage_table flows dialect = Inr (winners, unmapped)"
  shows "map (\<lambda>(h, t, s). (h, t)) winners = sort (firsts (map (\<lambda>(h, t, l). (h, t)) flows))"
    "(h, t, s) \<in> set winners \<Longrightarrow> (\<exists>l. (h, t, l) \<in> set flows \<and> map_label_to_stage l dialect = Inr s) \<and>
       (\<forall>l s'. (h, t, l) \<in> set flows \<longrightarrow> map_label_to_stage l dialect = Inr s' \<longrightarrow> STAGE_INDEX s' \<le> STAGE_INDEX s)"
    "l \<in> set unmapped \<longleftrightarrow> (\<exists>h t. (h, t, l) \<in> set flows) \<and> \<not> label_is_recognised l dialect"
proof -
  define vocabulary where "vocabulary = firsts (map (\<lambda>(h :: string, t :: int, l :: string). l) flows)"
  obtain stages where st: "traverse_res (\<lambda>v. map_label_to_stage v dialect) vocabulary = Inr stages"
    using assms by (auto simp: label_stage_table_def Let_def bind_res_eq_Inr vocabulary_def)
  define stage_of where "stage_of = (\<lambda>l. dict_get (zip vocabulary stages) l [])"
  define df where "df = map (\<lambda>(h :: string, t :: int, l). (h, t, stage_of l)) flows"
  define ids where "ids = sort (firsts (map (\<lambda>(h, t, s). (h, t)) df))"
  define winner where "winner = (\<lambda>k. let g = rows_of (\<lambda>(h, t, s). (h, t)) k df in first_max (\<lambda>(h, t, s). STAGE_INDEX s) (hd g) (tl g))"
  have out: "winners = map winner ids" "unmapped = sort (filter (\<lambda>v. \<not> label_is_recognised v dialect) vocabulary)"
    using assms st by (simp_all add: label_stage_table_def Let_def vocabulary_def stage_of_def df_def ids_def winner_def)
  have stage: "map_label_to_stage l dialect = Inr (stage_of l)" if "(h, t, l) \<in> set flows" for h t l
    using traverse_lookup [OF st, of l "[]"] that by (force simp: vocabulary_def stage_of_def)
  define key where "key = (\<lambda>(h :: string, t :: int, s :: string). (h, t))"
  define sev where "sev = (\<lambda>(h :: string, t :: int, s). STAGE_INDEX s)"
  have g: "winner k \<in> set df \<and> key (winner k) = k \<and> (\<forall>x \<in> set df. key x = k \<longrightarrow> sev x \<le> sev (winner k))" if k: "k \<in> set ids" for k
  proof -
    let ?g = "rows_of key k df"
    obtain x where "x \<in> set df" "key x = k" using k unfolding ids_def key_def by auto
    then have "x \<in> set ?g" by simp
    then have "?g \<noteq> []" by (metis empty_iff list.set(1))
    then have same: "set (hd ?g # tl ?g) = {x \<in> set df. key x = k}" using set_rows_of [of key k df] by simp
    have "winner k = first_max sev (hd ?g) (tl ?g)" by (simp add: winner_def Let_def key_def sev_def)
    then have "winner k \<in> {x \<in> set df. key x = k} \<and> (\<forall>y \<in> {x \<in> set df. key x = k}. sev y \<le> sev (winner k))"
      using first_max_spec [of sev "hd ?g" "tl ?g"] unfolding same by simp
    then show ?thesis by blast
  qed
  have keys: "map (\<lambda>(h, t, s). (h, t)) df = map (\<lambda>(h, t, l). (h, t)) flows" by (auto simp: df_def)
  have "map key (map winner ids) = ids" using g by (induction ids) auto
  then show "map (\<lambda>(h, t, s). (h, t)) winners = sort (firsts (map (\<lambda>(h, t, l). (h, t)) flows))"
    by (simp add: out ids_def keys key_def)
  show "l \<in> set unmapped \<longleftrightarrow> (\<exists>h t. (h, t, l) \<in> set flows) \<and> \<not> label_is_recognised l dialect"
    by (force simp: out vocabulary_def)
  assume "(h, t, s) \<in> set winners"
  then obtain k where k: "k \<in> set ids" "winner k = (h, t, s)" by (auto simp: out)
  then have w: "(h, t, s) \<in> set df" "\<forall>(h', t', s') \<in> set df. (h', t') = (h, t) \<longrightarrow> STAGE_INDEX s' \<le> STAGE_INDEX s"
    using g [OF k(1)] by (auto simp: key_def sev_def)
  have "\<exists>l. (h, t, l) \<in> set flows \<and> map_label_to_stage l dialect = Inr s"
    using w(1) stage by (auto simp: df_def)
  moreover have "STAGE_INDEX s' \<le> STAGE_INDEX s" if "(h, t, l) \<in> set flows" "map_label_to_stage l dialect = Inr s'" for l s'
  proof -
    have "(h, t, s') \<in> set df" using that stage by (force simp: df_def)
    then show ?thesis using w(2) by auto
  qed
  ultimately show "(\<exists>l. (h, t, l) \<in> set flows \<and> map_label_to_stage l dialect = Inr s) \<and>
       (\<forall>l s'. (h, t, l) \<in> set flows \<longrightarrow> map_label_to_stage l dialect = Inr s' \<longrightarrow> STAGE_INDEX s' \<le> STAGE_INDEX s)" by blast
qed

text \<open>
  A window's stage is its most severe flow's. Of the labelled flows, every host and window that has one gets
  exactly one row, ordered by host and time, and its stage is the largest, in the order of the stages, that a label of its
  flows maps to; the labels reported as unmapped are those no rule recognises.
\<close>

lemma window_stage_is_most_severe:
  assumes "label_stage_table flows dialect = Inr (winners, unmapped)"
  shows "map (\<lambda>(h, t, s). (h, t)) winners = sort (firsts (map (\<lambda>(h, t, l). (h, t)) flows)) \<and>
    (\<forall>h t s. (h, t, s) \<in> set winners \<longrightarrow> (\<exists>l. (h, t, l) \<in> set flows \<and> map_label_to_stage l dialect = Inr s) \<and>
       (\<forall>l s'. (h, t, l) \<in> set flows \<longrightarrow> map_label_to_stage l dialect = Inr s' \<longrightarrow> STAGE_INDEX s' \<le> STAGE_INDEX s)) \<and>
    (\<forall>l. l \<in> set unmapped \<longleftrightarrow> (\<exists>h t. (h, t, l) \<in> set flows) \<and> \<not> label_is_recognised l dialect)"
  using label_stage_table_rows [OF assms] by blast

lemma window_stage_is_most_severe_witness:
  "label_stage_table [(''a'', 0, ''FTP-Patator''), (''a'', 0, ''PortScan'')] ''cic'' = Inr ([(''a'', 0, ''initial_access'')], []) \<and>
    STAGE_INDEX ''recon'' \<le> STAGE_INDEX ''initial_access''"
proof -
  have run: "label_stage_table [(''a'', 0, ''FTP-Patator''), (''a'', 0, ''PortScan'')] ''cic'' = Inr ([(''a'', 0, ''initial_access'')], [])"
    by code_simp
  have "map_label_to_stage ''PortScan'' ''cic'' = Inr ''recon''" by code_simp
  then show ?thesis using run window_stage_is_most_severe [OF run] by auto
qed

end
