(* ===== verification/Splits.thy ===== *)
theory Splits
  imports Labels
begin

text \<open>
  \<open>ml/nidra/data/splits.py\<close>: attack episodes, the trailing validation block of a capture and the four
  splits. The column \<open>split_group\<close>, when a table has it, is the argument \<open>grp\<close>; the validation fraction is
  a rational, as the floats are exact. \<open>pre_onset_margin_s\<close> is \<open>margin\<close>.
\<close>

section \<open>Episodes\<close>

text \<open>Host, first and last window.\<close>

type_synonym episode = "string \<times> int \<times> int"

text \<open>The loop over the sorted rows: the row before, and the start of the open episode.\<close>

definition close_run :: "'f lrow option \<Rightarrow> int option \<Rightarrow> episode list" where
  "close_run prev start = (case (start, prev) of (Some s, Some p) \<Rightarrow> [(lr_host p, s, lr_ts p)] | _ \<Rightarrow> [])"

fun episode_scan :: "'f lrow option \<Rightarrow> int option \<Rightarrow> 'f lrow list \<Rightarrow> episode list" where
  "episode_scan prev start [] = close_run prev start"
| "episode_scan prev start (r # rs) =
     (let new_host = (case prev of None \<Rightarrow> True | Some p \<Rightarrow> lr_host r \<noteq> lr_host p);
          closed = (if new_host then close_run prev start else []);
          start1 = (if new_host then None else start)
      in if is_attack r then closed @ episode_scan (Some r) (case start1 of None \<Rightarrow> Some (lr_ts r) | Some s \<Rightarrow> Some s) rs
         else closed @ close_run prev start1 @ episode_scan (Some r) None rs)"

definition find_episodes :: "'f lrow list \<Rightarrow> episode list" where
  "find_episodes df = episode_scan None None (by_host_ts df)"

section \<open>The validation block\<close>

definition capture_day :: "int \<Rightarrow> int" where
  "capture_day window_ts = window_ts div 86400"

definition block_group :: "('f lrow \<Rightarrow> string) option \<Rightarrow> 'f lrow \<Rightarrow> string" where
  "block_group grp r = (case grp of Some g \<Rightarrow> g r | None \<Rightarrow> int_str (capture_day (lr_ts r)))"

definition DEFAULT_PRE_ONSET_MARGIN_S :: int where
  "DEFAULT_PRE_ONSET_MARGIN_S = 1800"

definition nominal_cutoff :: "'f lrow list \<Rightarrow> rat \<Rightarrow> int res" where
  "nominal_cutoff block val_fraction =
     (let unique_ts = sort (firsts (map lr_ts block)); n = int (length unique_ts);
          cutoff_idx = min (max (trunc_rat (of_int n * (1 - val_fraction))) 0) (n - 1)
      in if unique_ts = [] then Inl IndexError else Inr (unique_ts ! nat cutoff_idx))"

definition trailing_block_cutoff :: "'f lrow list \<Rightarrow> rat \<Rightarrow> int \<Rightarrow> int res" where
  "trailing_block_cutoff block val_fraction margin =
     bind_res (nominal_cutoff block val_fraction) (\<lambda>cutoff.
       let near = filter (\<lambda>(h, s, e). s - margin < cutoff \<and> cutoff \<le> e) (find_episodes block)
       in if near = [] then Inr cutoff
          else Inr (max (Min (set (map (\<lambda>(h, s, e). s) near)) - margin) (Min (set (map lr_ts block)))))"

definition temporal_train_val_split ::
    "('f lrow \<Rightarrow> string) option \<Rightarrow> 'f lrow list \<Rightarrow> rat \<Rightarrow> bool \<Rightarrow> int \<Rightarrow> ('f lrow list \<times> 'f lrow list) res" where
  "temporal_train_val_split grp train_df val_fraction per_day margin =
     (if train_df = [] then Inr (train_df, train_df)
      else if \<not> per_day then
        bind_res (trailing_block_cutoff train_df val_fraction margin) (\<lambda>cutoff.
          Inr (filter (\<lambda>r. lr_ts r < cutoff) train_df, filter (\<lambda>r. cutoff \<le> lr_ts r) train_df))
      else
        bind_res (traverse_res (\<lambda>day. bind_res (trailing_block_cutoff (rows_of (block_group grp) day train_df) val_fraction margin)
            (\<lambda>cutoff. Inr (day, cutoff))) (firsts (map (block_group grp) train_df))) (\<lambda>cuts.
          let is_val = (\<lambda>r. list_ex (\<lambda>(day, cutoff). block_group grp r = day \<and> cutoff \<le> lr_ts r) cuts)
          in Inr (filter (\<lambda>r. \<not> is_val r) train_df, filter is_val train_df)))"

section \<open>The four splits\<close>

record 'f split_result =
  sp_train :: "'f lrow list"
  sp_val :: "'f lrow list"
  sp_test :: "'f lrow list"
  sp_holdout :: "'f lrow list"

definition concat_days :: "(string, 'f lrow list) dict \<Rightarrow> string list \<Rightarrow> 'f lrow list" where
  "concat_days day_tables ks = concat (map (\<lambda>k. dict_get day_tables k []) ks)"

definition relabel :: "nat option \<Rightarrow> 'f lrow list \<Rightarrow> 'f lrow list" where
  "relabel horizon_k rows = (case horizon_k of None \<Rightarrow> rows | Some k \<Rightarrow> if rows = [] then rows else reattach_risk_label rows k)"

definition build_splits ::
    "('f lrow \<Rightarrow> string) option \<Rightarrow> (string, 'f lrow list) dict \<Rightarrow> string list \<Rightarrow> string list \<Rightarrow> string list \<Rightarrow> rat \<Rightarrow> bool \<Rightarrow>
     nat option \<Rightarrow> int \<Rightarrow> string list \<Rightarrow> string list \<Rightarrow> 'f split_result res" where
  "build_splits grp day_tables train_days test_days holdout_days val_fraction val_block_per_day horizon_k margin val_days carve_days =
     (if val_days \<noteq> [] \<and> set val_days \<inter> set train_days \<noteq> {} then Inl ValueError
      else
        let split = (\<lambda>rows. temporal_train_val_split grp rows val_fraction val_block_per_day margin);
            carve = filter (\<lambda>d. d \<in> set train_days) carve_days
        in bind_res
          (if val_days \<noteq> [] then
             (if carve \<noteq> [] then
                bind_res (split (concat_days day_tables carve)) (\<lambda>(carved_in, carved_out).
                  let train = concat_days day_tables (filter (\<lambda>d. d \<notin> set carve) train_days) @ carved_in;
                      val = concat_days day_tables val_days @ carved_out
                  in if train = [] \<or> val = [] then Inl ValueError else Inr (train, val))
              else Inr (concat_days day_tables train_days, concat_days day_tables val_days))
           else split (concat_days day_tables train_days))
          (\<lambda>(train, val). Inr \<lparr>sp_train = relabel horizon_k train, sp_val = relabel horizon_k val,
             sp_test = concat_days day_tables test_days, sp_holdout = concat_days day_tables holdout_days\<rparr>))"

text \<open>The two assertions on a result.\<close>

fun leak_scan :: "(string \<times> int, string) dict \<Rightarrow> (string \<times> string \<times> int) list \<Rightarrow> unit res" where
  "leak_scan seen [] = Inr ()"
| "leak_scan seen ((name, k) # rest) =
     (if map_of seen k \<noteq> None \<and> map_of seen k \<noteq> Some name then Inl AssertionError
      else leak_scan (dict_set k name seen) rest)"

definition assert_no_episode_leakage :: "'f split_result \<Rightarrow> unit res" where
  "assert_no_episode_leakage splits =
     leak_scan [] (concat (map (\<lambda>(name, df). map (\<lambda>r. (name, lr_host r, lr_ts r)) (filter is_attack df))
       [(''train'', sp_train splits), (''val'', sp_val splits), (''test'', sp_test splits), (''holdout'', sp_holdout splits)]))"

definition assert_no_temporal_overlap :: "'f split_result \<Rightarrow> unit res" where
  "assert_no_temporal_overlap splits =
     (if sp_train splits = [] \<or> sp_val splits = [] then Inr ()
      else if (\<lambda>r. (lr_host r, lr_ts r)) ` set (sp_train splits) \<inter> (\<lambda>r. (lr_host r, lr_ts r)) ` set (sp_val splits) \<noteq> {}
      then Inl AssertionError else Inr ())"

section \<open>Episodes are the maximal runs\<close>

text \<open>The reference: cut off the longest run of attack rows of one host.\<close>

definition same_run :: "'f lrow \<Rightarrow> 'f lrow \<Rightarrow> bool" where
  "same_run r x \<longleftrightarrow> is_attack x \<and> lr_host x = lr_host r"

function attack_runs :: "'f lrow list \<Rightarrow> 'f lrow list list" where
  "attack_runs [] = []"
| "attack_runs (r # rs) = (if is_attack r then (r # takeWhile (same_run r) rs) # attack_runs (dropWhile (same_run r) rs) else attack_runs rs)"
  by pat_completeness auto

termination by (relation "measure length") (auto simp: le_imp_less_Suc length_dropWhile_le)

definition span_of :: "'f lrow list \<Rightarrow> episode" where
  "span_of run = (lr_host (hd run), lr_ts (hd run), lr_ts (last run))"

lemma episode_scan_runs:
  "episode_scan prev None rs = map span_of (attack_runs rs)"
  "is_attack p \<Longrightarrow> episode_scan (Some p) (Some s) rs =
     (lr_host p, s, lr_ts (last (p # takeWhile (same_run p) rs))) # map span_of (attack_runs (dropWhile (same_run p) rs))"
proof (induction rs arbitrary: prev p s)
  case Nil
  { case 1 then show ?case by (simp add: close_run_def) }
  { case 2 then show ?case by (simp add: close_run_def) }
next
  case (Cons r rs)
  have ext: "is_attack p \<Longrightarrow> lr_host r = lr_host p \<Longrightarrow> same_run r = same_run p" for p
    by (auto simp: same_run_def fun_eq_iff)
  { case 1
    show ?case using Cons.IH(1) [of "Some r"] Cons.IH(2) [of r "lr_ts r"]
      by (auto simp: Let_def close_run_def span_of_def) }
  { case 2
    have "same_run p r \<longleftrightarrow> is_attack r \<and> lr_host r = lr_host p" by (simp add: same_run_def)
    then show ?case using 2 Cons.IH(1) [of "Some r"] Cons.IH(2) [of r "lr_ts r"] Cons.IH(2) [of r s] ext [of p]
      by (auto simp: Let_def close_run_def span_of_def) }
qed


text \<open>What the runs of a list are: they cover its attack rows, in order, and hold one host each.\<close>

lemma attack_runs_concat: "concat (attack_runs rs) = filter is_attack rs"
proof (induction rs rule: attack_runs.induct)
  case (2 r rs)
  have "filter is_attack (takeWhile (same_run r) rs) = takeWhile (same_run r) rs"
    by (auto simp: filter_id_conv same_run_def dest: set_takeWhileD)
  then have "filter is_attack rs = takeWhile (same_run r) rs @ filter is_attack (dropWhile (same_run r) rs)"
    by (metis filter_append takeWhile_dropWhile_id)
  then show ?case using 2 by auto
qed simp

lemma attack_runs_host: "run \<in> set (attack_runs rs) \<Longrightarrow> run \<noteq> [] \<and> (\<forall>r \<in> set run. lr_host r = lr_host (hd run) \<and> is_attack r)"
proof (induction rs rule: attack_runs.induct)
  case (2 r rs)
  have g: "x \<in> set (takeWhile (same_run r) rs) \<Longrightarrow> is_attack x \<and> lr_host x = lr_host r" for x
    by (auto simp: same_run_def dest: set_takeWhileD)
  show ?case
  proof (cases "is_attack r")
    case True
    then consider "run = r # takeWhile (same_run r) rs" | "run \<in> set (attack_runs (dropWhile (same_run r) rs))"
      using 2(3) by auto
    then show ?thesis
    proof cases
      case 1
      then show ?thesis using True g by auto
    next
      case 2
      then show ?thesis by (rule "2.IH"(1) [OF True])
    qed
  next
    case False
    then have "run \<in> set (attack_runs rs)" using 2(3) by simp
    then show ?thesis by (rule "2.IH"(2) [OF False])
  qed
qed simp

text \<open>Each run is a stretch of the list that cannot be made longer.\<close>

lemma attack_runs_stretch:
  "run \<in> set (attack_runs rs) \<Longrightarrow> \<exists>before after. rs = before @ run @ after \<and>
     (before = [] \<or> \<not> same_run (hd run) (last before)) \<and> (after = [] \<or> \<not> same_run (hd run) (hd after))"
proof (induction rs rule: attack_runs.induct)
  case (2 r rs)
  show ?case
  proof (cases "is_attack r")
    case False
    then have "run \<in> set (attack_runs rs)" using 2(3) by simp
    then obtain before after where *: "rs = before @ run @ after"
      "before = [] \<or> \<not> same_run (hd run) (last before)" "after = [] \<or> \<not> same_run (hd run) (hd after)"
      using "2.IH"(2) [OF False] by blast
    moreover have "\<not> same_run (hd run) (last (r # before))"
      using * False by (auto simp: same_run_def)
    ultimately show ?thesis by (intro exI [of _ "r # before"] exI [of _ after]) auto
  next
    case True
    let ?g = "r # takeWhile (same_run r) rs" and ?rest = "dropWhile (same_run r) rs"
    have rs: "r # rs = ?g @ ?rest" by simp
    have g: "\<forall>x \<in> set ?g. lr_host x = lr_host r" by (auto simp: same_run_def dest: set_takeWhileD)
    from True 2(3) consider "run = ?g" | "run \<in> set (attack_runs ?rest)" by auto
    then show ?thesis
    proof cases
      case 1
      have "?rest = [] \<or> \<not> same_run r (hd ?rest)" using hd_dropWhile by blast
      then show ?thesis using 1 rs by (intro exI [of _ "[]"] exI [of _ ?rest]) auto
    next
      case 2
      from "2.IH"(1) [OF True this] obtain before after where *: "?rest = before @ run @ after"
        "before = [] \<or> \<not> same_run (hd run) (last before)" "after = [] \<or> \<not> same_run (hd run) (hd after)" by blast
      have "\<not> same_run (hd run) (last (?g @ before))"
      proof (cases "before = []")
        case b: True
        have run: "run \<noteq> []" "is_attack (hd run)" using attack_runs_host [OF 2] by auto
        then have "hd ?rest = hd run" "?rest \<noteq> []" using * b by auto
        then have "\<not> same_run r (hd run)" using hd_dropWhile [of "same_run r" rs] by simp
        then have "lr_host (hd run) \<noteq> lr_host r" using run by (simp add: same_run_def)
        moreover have "lr_host (last ?g) = lr_host r" using g last_in_set by blast
        ultimately show ?thesis using b by (simp add: same_run_def)
      qed (use * in auto)
      moreover have "r # rs = (?g @ before) @ run @ after" using rs *(1) by simp
      ultimately show ?thesis using *(3) by blast
    qed
  qed
qed simp

definition maximal_run :: "'f lrow list \<Rightarrow> 'f lrow list \<Rightarrow> bool" where
  "maximal_run df run \<longleftrightarrow> run \<noteq> [] \<and> (\<forall>r \<in> set run. lr_host r = lr_host (hd run)) \<and>
     (\<exists>before after. df = before @ run @ after \<and>
        (before = [] \<or> \<not> same_run (hd run) (last before)) \<and> (after = [] \<or> \<not> same_run (hd run) (hd after)))"

text \<open>
  Episodes are the maximal attack runs. The loop over the sorted table reports, in order, one
  span per run; the runs are exactly the attack rows, each run holds one host and is a stretch of the
  table that cannot be made longer on either side.
\<close>

lemma episodes_are_maximal_runs:
  "\<exists>runs. find_episodes rows = map span_of runs \<and> concat runs = filter is_attack (by_host_ts rows) \<and>
     list_all (maximal_run (by_host_ts rows)) runs"
proof (intro exI conjI)
  show "find_episodes rows = map span_of (attack_runs (by_host_ts rows))"
    by (simp add: find_episodes_def episode_scan_runs(1))
  show "list_all (maximal_run (by_host_ts rows)) (attack_runs (by_host_ts rows))"
    using attack_runs_host attack_runs_stretch unfolding list_all_iff maximal_run_def by blast
qed (rule attack_runs_concat)

section \<open>What the cut keeps together\<close>

lemma cutoff_ok:
  assumes "trailing_block_cutoff block vf margin = Inr edge"
  obtains c where "nominal_cutoff block vf = Inr c" "0 \<le> margin \<Longrightarrow> edge \<le> c"
    "\<And>h s e r. (h, s, e) \<in> set (find_episodes block) \<Longrightarrow> s - margin < c \<Longrightarrow> c \<le> e \<Longrightarrow> r \<in> set block \<Longrightarrow> s - margin \<le> lr_ts r \<Longrightarrow> edge \<le> lr_ts r"
proof -
  from assms obtain c where c: "nominal_cutoff block vf = Inr c" by (auto simp: trailing_block_cutoff_def bind_res_eq_Inr)
  define near where "near = filter (\<lambda>(h, s, e). s - margin < c \<and> c \<le> e) (find_episodes block)"
  have ne: "block \<noteq> []" using c by (auto simp: nominal_cutoff_def Let_def split: if_splits)
  have mem: "c \<in> set (map lr_ts block)"
  proof -
    let ?u = "sort (firsts (map lr_ts block))"
    have "?u \<noteq> []" using ne by (cases block) auto
    moreover define i where "i = nat (min (max (trunc_rat (of_int (int (length ?u)) * (1 - vf))) 0) (int (length ?u) - 1))"
    ultimately have "c = ?u ! i" using c by (simp add: nominal_cutoff_def Let_def)
    moreover have "0 < length ?u" using \<open>?u \<noteq> []\<close> by blast
    then have "i < length ?u" unfolding i_def by linarith
    ultimately have "c \<in> set ?u" by (metis nth_mem)
    then show ?thesis by simp
  qed
  have edge: "edge = (if near = [] then c else max (Min (set (map (\<lambda>(h, s, e). s) near)) - margin) (Min (set (map lr_ts block))))"
    using assms c by (simp add: trailing_block_cutoff_def near_def Let_def split: if_splits)
  show ?thesis
  proof (rule that [OF c])
    show "edge \<le> c"
    proof (cases "near = []")
      case False
      then obtain h s e where x: "(h, s, e) \<in> set near" by (cases near) auto
      then have "Min (set (map (\<lambda>(h, s, e). s) near)) \<le> s" by (intro Min_le) force+
      moreover have "s - margin < c" using x by (auto simp: near_def)
      moreover have "Min (set (map lr_ts block)) \<le> c" using mem by (intro Min_le) auto
      ultimately show ?thesis using edge False by auto
    qed (simp add: edge)
    fix h s e r assume e: "(h, s, e) \<in> set (find_episodes block)" "s - margin < c" "c \<le> e" "r \<in> set block" "s - margin \<le> lr_ts r"
    then have x: "(h, s, e) \<in> set near" by (simp add: near_def)
    then have "Min (set (map (\<lambda>(h, s, e). s) near)) \<le> s" by (intro Min_le) force+
    moreover have "Min (set (map lr_ts block)) \<le> lr_ts r" using e(4) by (intro Min_le) auto
    moreover have "near \<noteq> []" using x by auto
    ultimately show "edge \<le> lr_ts r" using edge e(5) by auto
  qed
qed

lemma traverse_pairs:
  assumes "traverse_res (\<lambda>d. bind_res (f d) (\<lambda>c. Inr (d, c))) ds = Inr ps"
  shows "map fst ps = ds \<and> (\<forall>(d, c) \<in> set ps. f d = Inr c)"
  using assms by (induction ds arbitrary: ps) (auto simp: bind_res_eq_Inr)

text \<open>
  C21. The validation block of a capture is its tail, and the episode at the cut is kept whole. Every
  row of the training captures is in exactly one of the two parts, by one cut per capture; the cut is never later
  than the nominal one, and when the nominal cut falls into an episode, or into the margin before it, that
  episode and its whole run-up are in the validation part.
\<close>

theorem validation_block_keeps_episode:
  assumes "temporal_train_val_split grp df vf True margin = Inr (train, val)" "df \<noteq> []"
  shows "\<exists>edge. train = filter (\<lambda>r. lr_ts r < edge (block_group grp r)) df \<and> val = filter (\<lambda>r. edge (block_group grp r) \<le> lr_ts r) df \<and>
    (\<forall>g \<in> block_group grp ` set df. \<exists>c. nominal_cutoff (rows_of (block_group grp) g df) vf = Inr c \<and> (0 \<le> margin \<longrightarrow> edge g \<le> c) \<and>
       (\<forall>(h, s, e) \<in> set (find_episodes (rows_of (block_group grp) g df)). s - margin < c \<longrightarrow> c \<le> e \<longrightarrow>
          (\<forall>r \<in> set df. block_group grp r = g \<longrightarrow> s - margin \<le> lr_ts r \<longrightarrow> r \<in> set val)))"
proof -
  let ?g = "block_group grp"
  from assms obtain cuts where cuts: "traverse_res (\<lambda>day. bind_res (trailing_block_cutoff (rows_of ?g day df) vf margin)
      (\<lambda>cutoff. Inr (day, cutoff))) (firsts (map ?g df)) = Inr cuts"
    and parts: "train = filter (\<lambda>r. \<not> list_ex (\<lambda>(day, cutoff). ?g r = day \<and> cutoff \<le> lr_ts r) cuts) df"
      "val = filter (\<lambda>r. list_ex (\<lambda>(day, cutoff). ?g r = day \<and> cutoff \<le> lr_ts r) cuts) df"
    by (auto simp: temporal_train_val_split_def bind_res_eq_Inr Let_def)
  note tp = traverse_pairs [OF cuts]
  define edge where "edge = (\<lambda>g. the (map_of cuts g))"
  have dist: "distinct (map fst cuts)" using tp by simp
  have edge: "(g, edge g) \<in> set cuts \<and> trailing_block_cutoff (rows_of ?g g df) vf margin = Inr (edge g)" if "g \<in> ?g ` set df" for g
  proof -
    have "g \<in> set (map fst cuts)" using tp that by simp
    then obtain c where c: "(g, c) \<in> set cuts" by auto
    then have "map_of cuts g = Some c" using dist by (rule map_of_is_SomeI [rotated])
    then show ?thesis using c tp by (auto simp: edge_def)
  qed
  have val: "list_ex (\<lambda>(day, cutoff). ?g r = day \<and> cutoff \<le> lr_ts r) cuts \<longleftrightarrow> edge (?g r) \<le> lr_ts r" if "r \<in> set df" for r
  proof -
    have "(?g r, c) \<in> set cuts \<Longrightarrow> c = edge (?g r)" for c using map_of_is_SomeI [OF dist] by (simp add: edge_def)
    then show ?thesis using edge [of "?g r"] that by (auto simp: list_ex_iff)
  qed
  have "train = filter (\<lambda>r. lr_ts r < edge (?g r)) df" "val = filter (\<lambda>r. edge (?g r) \<le> lr_ts r) df"
    unfolding parts using val by (auto intro!: filter_cong)
  moreover have "\<exists>c. nominal_cutoff (rows_of ?g g df) vf = Inr c \<and> (0 \<le> margin \<longrightarrow> edge g \<le> c) \<and>
       (\<forall>(h, s, e) \<in> set (find_episodes (rows_of ?g g df)). s - margin < c \<longrightarrow> c \<le> e \<longrightarrow>
          (\<forall>r \<in> set df. ?g r = g \<longrightarrow> s - margin \<le> lr_ts r \<longrightarrow> edge g \<le> lr_ts r))" if "g \<in> ?g ` set df" for g
    using cutoff_ok [OF conjunct2 [OF edge [OF that]]] by (smt (verit, ccfv_threshold) case_prodI2 mem_Collect_eq set_rows_of)
  ultimately show ?thesis by (intro exI [of _ edge]) (auto split: prod.splits; blast)
qed

section \<open>What the cut can tear apart\<close>

definition demo_cut_table :: "unit lrow list" where
  "demo_cut_table = map (\<lambda>i. demo_lrow ''a'' (600 * i) (if i \<in> {1, 2, 3, 4, 7, 8} then ''c2'' else ''benign'')) [0..9]"

text \<open>
  The nudge can cut an earlier episode in two. The cut moves to the margin before the first episode it touches, and
  nothing looks at the episodes it moves over: there is a capture, with the default margin, one of whose
  episodes has rows on both sides of the split.
\<close>

lemma nudged_cut_tears_an_episode:
  "\<exists>(df :: unit lrow list) train val. temporal_train_val_split None df (3 / 10) True DEFAULT_PRE_ONSET_MARGIN_S = Inr (train, val) \<and>
     (\<exists>(h, s, e) \<in> set (find_episodes df). (\<exists>r \<in> set train. lr_host r = h \<and> s \<le> lr_ts r \<and> lr_ts r \<le> e) \<and>
        (\<exists>r \<in> set val. lr_host r = h \<and> s \<le> lr_ts r \<and> lr_ts r \<le> e))"
proof -
  have run: "case temporal_train_val_split None demo_cut_table (3 / 10) True DEFAULT_PRE_ONSET_MARGIN_S of
      Inl e \<Rightarrow> False | Inr (train, val) \<Rightarrow> (''a'', 600, 2400) \<in> set (find_episodes demo_cut_table) \<and>
        demo_lrow ''a'' 600 ''c2'' \<in> set train \<and> demo_lrow ''a'' 2400 ''c2'' \<in> set val"
    by code_simp
  then obtain train val where *: "temporal_train_val_split None demo_cut_table (3 / 10) True DEFAULT_PRE_ONSET_MARGIN_S = Inr (train, val)"
    "(''a'', 600, 2400) \<in> set (find_episodes demo_cut_table)" "demo_lrow ''a'' 600 ''c2'' \<in> set train" "demo_lrow ''a'' 2400 ''c2'' \<in> set val"
    by (auto split: sum.splits)
  show ?thesis
    by (intro exI [of _ demo_cut_table] exI [of _ train] exI [of _ val] conjI *(1) bexI [OF _ *(2)])
      (auto intro!: bexI [OF _ *(3)] bexI [OF _ *(4)] simp: demo_lrow_def)
qed

text \<open>
  Cutting and joining captures leaves gaps the label does not see. With two training captures of one host, the relabelled
  training part has a row marked as followed by an attack although its host has no attack in any capture
  within the horizon: the rows after it are those of the next capture.
\<close>

lemma joined_captures_leak_labels:
  "\<exists>grp (tables :: (string, unit lrow list) dict) splits. build_splits grp tables (keys tables) [] [] (1 / 4) True (Some 1) DEFAULT_PRE_ONSET_MARGIN_S [] [] = Inr splits \<and>
     list_all (\<lambda>(d, t). gap_filled 60 t) tables \<and>
     (\<exists>r \<in> set (sp_train splits). lr_risk r = 1 \<and>
        \<not> (\<exists>(d, t) \<in> set tables. \<exists>s \<in> set t. lr_host s = lr_host r \<and> is_attack s \<and> lr_ts r < lr_ts s \<and> lr_ts s \<le> lr_ts r + 1 * 60))"
proof -
  let ?grp = "Some (\<lambda>r :: unit lrow. if lr_ts r < 6000 then ''mon'' else ''tue'')"
  define t1 where "t1 = map (\<lambda>i. demo_lrow ''a'' (60 * i) ''benign'') [0..3]"
  define t2 where "t2 = map (\<lambda>i. demo_lrow ''a'' (6000 + 60 * i) (if i = 0 then ''c2'' else ''benign'')) [0..3]"
  have run: "case build_splits ?grp [(''mon'', t1), (''tue'', t2)] [''mon'', ''tue''] [] [] (1 / 4) True (Some 1) DEFAULT_PRE_ONSET_MARGIN_S [] [] of
      Inl e \<Rightarrow> False | Inr splits \<Rightarrow> (demo_lrow ''a'' 120 ''benign'')\<lparr>lr_risk := 1\<rparr> \<in> set (sp_train splits)"
    unfolding t1_def t2_def by code_simp
  have tables: "t1 = [demo_lrow ''a'' 0 ''benign'', demo_lrow ''a'' 60 ''benign'', demo_lrow ''a'' 120 ''benign'', demo_lrow ''a'' 180 ''benign'']"
    "t2 = [demo_lrow ''a'' 6000 ''c2'', demo_lrow ''a'' 6060 ''benign'', demo_lrow ''a'' 6120 ''benign'', demo_lrow ''a'' 6180 ''benign'']"
    unfolding t1_def t2_def by code_simp+
  have gaps: "gap_filled 60 t1" "gap_filled 60 t2"
    unfolding tables by (auto simp: gap_filled_def by_host_ts_def Let_def demo_lrow_def nth_Cons' less_Suc_eq)
  obtain splits where s: "build_splits ?grp [(''mon'', t1), (''tue'', t2)] [''mon'', ''tue''] [] [] (1 / 4) True (Some 1) DEFAULT_PRE_ONSET_MARGIN_S [] [] = Inr splits"
    "(demo_lrow ''a'' 120 ''benign'')\<lparr>lr_risk := 1\<rparr> \<in> set (sp_train splits)" using run by (auto split: sum.splits)
  show ?thesis
    by (intro exI [of _ ?grp] exI [of _ "[(''mon'', t1), (''tue'', t2)]"] exI [of _ splits] conjI bexI [OF _ s(2)])
      (use s(1) gaps in \<open>auto simp: tables demo_lrow_def is_attack_def\<close>)
qed

lemma validation_block_keeps_episode_witness:
  "\<exists>train val. temporal_train_val_split (Some (\<lambda>r. ''d'')) demo_cut_table (3 / 10) True 1800 = Inr (train, val) \<and>
     (\<forall>r \<in> set demo_cut_table. 2400 \<le> lr_ts r \<longrightarrow> r \<in> set val)"
proof -
  let ?grp = "Some (\<lambda>r :: unit lrow. ''d'')"
  have facts: "temporal_train_val_split ?grp demo_cut_table (3 / 10) True 1800 \<noteq> Inl e" for e
    by (cases e) code_simp+
  obtain train val where run: "temporal_train_val_split ?grp demo_cut_table (3 / 10) True 1800 = Inr (train, val)"
    using facts by (cases "temporal_train_val_split ?grp demo_cut_table (3 / 10) True 1800") auto
  have same: "rows_of (block_group ?grp) ''d'' demo_cut_table = demo_cut_table"
    by (simp add: rows_of_def block_group_def)
  have nominal: "nominal_cutoff demo_cut_table (3 / 10) = Inr 4200" by code_simp
  have ep: "(''a'', 4200, 4800) \<in> set (find_episodes demo_cut_table)" by code_simp
  have "demo_cut_table \<noteq> []" by code_simp
  then have "''d'' \<in> block_group ?grp ` set demo_cut_table" by (simp add: block_group_def image_constant_conv)
  then have "\<forall>r \<in> set demo_cut_table. 2400 \<le> lr_ts r \<longrightarrow> r \<in> set val"
    using validation_block_keeps_episode [OF run \<open>demo_cut_table \<noteq> []\<close>] ep
    by (force simp: same nominal block_group_def)
  then show ?thesis using run by blast
qed

end
