(* ===== verification/Onsets.thy ===== *)
theory Onsets
  imports Splits
begin

text \<open>
  Merged episodes (\<open>merge_episodes\<close> and \<open>label_composition\<close> of \<open>ml/nidra/data/audit.py\<close>) and the onset targets
  of \<open>ml/nidra/data/onset.py\<close>: where an origin lies relative to its host's episodes, and the supervision
  derived from it. Arrays are lists over the origins; an element of a vectorised step depends on its own origin
  only, so the steps are written per origin.
\<close>

section \<open>Merging\<close>

text \<open>The loop over one host's spans, with the span that is still open.\<close>

fun merge_scan :: "int \<Rightarrow> int \<Rightarrow> (int \<times> int) option \<Rightarrow> (int \<times> int) list \<Rightarrow> (int \<times> int) list" where
  "merge_scan W gap None [] = []"
| "merge_scan W gap (Some p) [] = [p]"
| "merge_scan W gap None ((s, e) # spans) = merge_scan W gap (Some (s, e)) spans"
| "merge_scan W gap (Some (start, stop)) ((s, e) # spans) =
     (if (s - stop) div W - 1 \<le> gap then merge_scan W gap (Some (start, max stop e)) spans
      else (start, stop) # merge_scan W gap (Some (s, e)) spans)"

text \<open>Host, start, end and the number of windows.\<close>

type_synonym merged_episode = "string \<times> int \<times> int \<times> int"

definition merge_episodes :: "'f lrow list \<Rightarrow> int \<Rightarrow> int \<Rightarrow> merged_episode list" where
  "merge_episodes df window_seconds merge_gap_windows =
     (let raw = sort_key (\<lambda>(h, s, e). (h, s)) (find_episodes df) in
      concat (map (\<lambda>h. map (\<lambda>(s, e). (h, s, e, (e - s) div window_seconds + 1))
          (merge_scan window_seconds merge_gap_windows None (map snd (rows_of fst h raw))))
        (firsts (map fst raw))))"

text \<open>
  Where the positive windows lie; distances count windows. A table or a list of episodes that is empty only has
  its number of positive windows, which is then the sum of the label.
\<close>

record composition =
  co_inside :: nat
  co_inside_fraction :: "rat option"
  co_pre_onset :: nat
  co_onsets :: nat
  co_available :: "(int \<times> nat) list"

definition onset_distance :: "merged_episode list \<Rightarrow> int \<Rightarrow> 'f lrow \<Rightarrow> flt" where
  "onset_distance episodes window_seconds r =
     foldl (\<lambda>d (h, s, e, n). let x = Fin (of_int (s - lr_ts r) / of_int window_seconds) in
         if h = lr_host r \<and> x > Fin 0 then py_min d x else d) PInf episodes"

definition label_composition :: "'f lrow list \<Rightarrow> merged_episode list \<Rightarrow> int \<Rightarrow> int \<times> composition option" where
  "label_composition df episodes window_seconds =
     (if df = [] \<or> episodes = [] then (sum_list (map lr_risk df), None)
      else
        let rows = by_host_ts df;
            inside = (\<lambda>r. list_ex (\<lambda>(h, s, e, n). h = lr_host r \<and> s \<le> lr_ts r \<and> lr_ts r \<le> e) episodes);
            pos = filter (\<lambda>r. lr_risk r = 1) rows;
            n_in = length (filter inside pos)
        in (int (length pos), Some
          \<lparr>co_inside = n_in, co_inside_fraction = (if pos = [] then None else Some (of_nat n_in / of_nat (length pos))),
           co_pre_onset = length (filter (\<lambda>r. \<not> inside r) pos), co_onsets = length episodes,
           co_available = map (\<lambda>h. (h, length (filter (\<lambda>r. \<not> inside r \<and>
             onset_distance episodes window_seconds r \<le> Fin (of_int (h * 60) / of_int window_seconds)) rows))) [1, 3, 5, 10, 15, 30]\<rparr>))"

section \<open>Geometry\<close>

definition DEFAULT_ONSET_HORIZONS_MIN :: "int list" where
  "DEFAULT_ONSET_HORIZONS_MIN = [1, 3, 5, 10, 15, 30]"

definition DEFAULT_MERGE_GAP_WINDOWS :: int where
  "DEFAULT_MERGE_GAP_WINDOWS = 5"

definition infer_window_seconds :: "'f lrow list \<Rightarrow> int res" where
  "infer_window_seconds df =
     (let rows = by_host_ts df;
          diffs = filter (\<lambda>d. 0 < d) (map (\<lambda>(a, b). lr_ts b - lr_ts a) (filter (\<lambda>(a, b). lr_host b = lr_host a) (zip rows (tl rows))))
      in if df = [] \<or> diffs = [] then Inl ValueError else Inr (Min (set diffs)))"

text \<open>Inside an episode, minutes to the next onset, the key of the episode.\<close>

type_synonym geometry = "bool \<times> flt \<times> string"

definition episode_name :: "string \<Rightarrow> int \<Rightarrow> string" where
  "episode_name host start = host @ ''@'' @ int_str start"

definition geometry_step :: "string \<Rightarrow> int \<Rightarrow> geometry \<Rightarrow> int \<times> int \<Rightarrow> geometry" where
  "geometry_step host t = (\<lambda>(inside, to_onset, key) (start, stop).
     let ek = episode_name host start;
         in_ep = start \<le> t \<and> t \<le> stop;
         inside1 = inside \<or> in_ep;
         key1 = (if in_ep then ek else key);
         d = Fin (of_int (start - t) / 60);
         before = Fin 0 < d \<and> d < to_onset
     in (inside1, (if before then d else to_onset), (if before \<and> \<not> inside1 then ek else key1)))"

definition episode_geometry :: "'f lrow list \<Rightarrow> (string \<times> int) list \<Rightarrow> int \<Rightarrow> int \<Rightarrow> geometry list" where
  "episode_geometry table origins window_seconds merge_gap_windows =
     (let episodes = sort_key (\<lambda>(h, s, e, n). (h, s)) (merge_episodes table window_seconds merge_gap_windows) in
      map (\<lambda>(host, t). foldl (geometry_step host t) (False, PInf, []) (map (\<lambda>(h, s, e, n). (s, e)) (rows_of fst host episodes))) origins)"

definition onset_targets :: "geometry list \<Rightarrow> int list \<Rightarrow> nat list list" where
  "onset_targets geo horizons_min =
     map (\<lambda>(inside, minutes, key). map (\<lambda>h. if \<not> inside \<and> minutes \<le> Fin (of_int h) then 1 else 0) horizons_min) geo"

text \<open>For each origin, the event and the at-risk flag of every bucket.\<close>

definition discrete_hazard_targets :: "geometry list \<Rightarrow> int list \<Rightarrow> (nat list \<times> bool list) list" where
  "discrete_hazard_targets geo horizons_min =
     (let edges = zip (0 # horizons_min) horizons_min in
      map (\<lambda>(inside, minutes, key).
        (map (\<lambda>(lo, hi). if \<not> inside \<and> Fin (of_int lo) < minutes \<and> minutes \<le> Fin (of_int hi) then 1 else 0) edges,
         map (\<lambda>(lo, hi). \<not> inside \<and> Fin (of_int lo) < minutes) edges)) geo)"

fun cumprod :: "rat \<Rightarrow> rat list \<Rightarrow> rat list" where
  "cumprod p [] = []"
| "cumprod p (x # xs) = p * x # cumprod (p * x) xs"

definition clip_unit :: "rat \<Rightarrow> rat" where
  "clip_unit h = min 1 (max 0 h)"

definition survival_to_cumulative :: "rat list list \<Rightarrow> rat list list" where
  "survival_to_cumulative hazards =
     map (\<lambda>row. map (\<lambda>s. 1 - s) (cumprod 1 (map (\<lambda>h. 1 - clip_unit h) row))) hazards"

section \<open>What merging does\<close>

text \<open>Two spans that merge, and the bounds of a group of spans.\<close>

definition joins :: "int \<Rightarrow> int \<Rightarrow> int \<times> int \<Rightarrow> int \<times> int \<Rightarrow> bool" where
  "joins W gap p q \<longleftrightarrow> (fst q - snd p) div W - 1 \<le> gap"

definition bounds :: "(int \<times> int) list \<Rightarrow> int \<times> int" where
  "bounds g = (fst (hd g), snd (last g))"

lemma merge_scan_groups:
  "g \<noteq> [] \<Longrightarrow> sorted (map snd (g @ spans)) \<Longrightarrow>
    merge_scan W gap (Some (fst (hd g), snd (last g))) spans = map bounds (chain_groups (joins W gap) g spans)"
proof (induction spans arbitrary: g)
  case (Cons q spans)
  obtain s e where q: "q = (s, e)" by force
  have "snd (last g) \<le> e"
    using Cons.prems by (cases g rule: rev_cases) (auto simp: q sorted_append)
  then show ?case
    using Cons.IH [of "g @ [q]"] Cons.IH [of "[q]"] Cons.prems by (auto simp: q joins_def bounds_def sorted_append hd_append)
qed (simp add: bounds_def)

lemma merge_scan_None:
  "sorted (map snd spans) \<Longrightarrow> merge_scan W gap None spans = map bounds (case spans of [] \<Rightarrow> [] | p # ps \<Rightarrow> chain_groups (joins W gap) [p] ps)"
  using merge_scan_groups [of "[hd spans]" "tl spans" W gap] by (cases spans) auto

text \<open>The spans the loop over the table reports are in order.\<close>

lemma sorted_hd_last:
  fixes K :: "'a \<Rightarrow> 'k :: linorder"
  assumes "list_all (\<lambda>g. g \<noteq> []) gs" "sorted (map K (concat gs))"
  shows "sorted (map (\<lambda>g. K (hd g)) gs) \<and> sorted (map (\<lambda>g. K (last g)) gs)"
  using assms
proof (induction gs)
  case (Cons g gs)
  have le: "\<forall>x \<in> set g. \<forall>g' \<in> set gs. K x \<le> K (hd g') \<and> K x \<le> K (last g')"
    using Cons.prems by (fastforce simp: sorted_append list_all_iff)
  have "hd g \<in> set g" "last g \<in> set g" using Cons.prems(1) by auto
  then show ?case using Cons le by (auto simp: sorted_append)
qed simp

definition host_spans :: "string \<Rightarrow> 'f lrow list \<Rightarrow> (int \<times> int) list" where
  "host_spans h df = map snd (rows_of fst h (find_episodes df))"

lemma find_episodes_sorted:
  "sorted (map (\<lambda>(h, s, e). (h, s)) (find_episodes df))" "sorted (map (\<lambda>(h, s, e). (h, e)) (find_episodes df))"
proof -
  let ?K = "\<lambda>r. (lr_host r, lr_ts r)" and ?runs = "attack_runs (by_host_ts df)"
  have "sorted (map ?K (filter is_attack (by_host_ts df)))" by (intro sorted_filter by_host_ts_sorted)
  then have s: "sorted (map ?K (concat ?runs))" by (simp add: attack_runs_concat)
  have ne: "run \<noteq> [] \<and> lr_host (hd run) = lr_host (last run)" if "run \<in> set ?runs" for run
    using attack_runs_host [OF that] last_in_set [of run] by metis
  have sl: "sorted (map (\<lambda>g. ?K (hd g)) ?runs) \<and> sorted (map (\<lambda>g. ?K (last g)) ?runs)"
    using ne s by (intro sorted_hd_last) (auto simp: list_all_iff)
  have "map (\<lambda>(h, s, e). (h, s)) (find_episodes df) = map (\<lambda>g. ?K (hd g)) ?runs"
    "map (\<lambda>(h, s, e). (h, e)) (find_episodes df) = map (\<lambda>g. ?K (last g)) ?runs"
    using ne by (auto simp: find_episodes_def episode_scan_runs(1) span_of_def cong: map_cong)
  with sl show "sorted (map (\<lambda>(h, s, e). (h, s)) (find_episodes df))" "sorted (map (\<lambda>(h, s, e). (h, e)) (find_episodes df))"
    by simp_all
qed

lemma rows_of_sorted:
  assumes "sorted (map (\<lambda>x. (fst x, f (snd x))) xs)"
  shows "sorted (map f (map snd (rows_of fst h xs)))"
proof -
  have "sorted (map (\<lambda>x. (fst x, f (snd x))) (rows_of fst h xs))" unfolding rows_of_def by (rule sorted_filter [OF assms])
  moreover have "map (\<lambda>x. (fst x, f (snd x))) (rows_of fst h xs) = map (\<lambda>y. (h, y)) (map f (map snd (rows_of fst h xs)))"
    by (auto simp: rows_of_def)
  ultimately show ?thesis by (auto simp: sorted_iff_nth_mono)
qed

lemma host_spans_sorted: "sorted (map fst (host_spans h df))" "sorted (map snd (host_spans h df))"
  unfolding host_spans_def
  by (rule rows_of_sorted; use find_episodes_sorted [of df] in \<open>simp add: case_prod_unfold\<close>)+

lemma rows_of_concat:
  assumes "distinct ks" "\<And>k x. x \<in> set (F k) \<Longrightarrow> f x = k"
  shows "rows_of f h (concat (map F ks)) = (if h \<in> set ks then F h else [])"
proof -
  have "rows_of f h (F k) = (if k = h then F k else [])" for k
    using assms(2) by (auto simp: rows_of_def filter_id_conv filter_empty_conv)
  then have "rows_of f h (concat (map F ks)) = concat (map (\<lambda>k. if k = h then F k else []) ks)"
    by (induction ks) (auto simp: rows_of_def)
  moreover have "concat (map (\<lambda>k. if k = h then F k else []) ks) = (if h \<in> set ks then F h else [])"
    using assms(1) by (induction ks) auto
  ultimately show ?thesis by simp
qed

lemma merged_host:
  "map (\<lambda>(h, s, e, n). (s, e)) (rows_of fst h (merge_episodes df W gap)) = merge_scan W gap None (host_spans h df)"
proof -
  let ?F = "\<lambda>h. map (\<lambda>(s, e). (h, s, e, (e - s) div W + 1)) (merge_scan W gap None (host_spans h df))"
  have raw: "sort_key (\<lambda>(h, s, e). (h, s)) (find_episodes df) = find_episodes df"
    using find_episodes_sorted(1) by (rule sort_key_id_if_sorted)
  have "merge_episodes df W gap = concat (map ?F (firsts (map fst (find_episodes df))))"
    by (simp add: merge_episodes_def raw host_spans_def Let_def)
  moreover have "rows_of fst h (concat (map ?F (firsts (map fst (find_episodes df))))) =
      (if h \<in> set (firsts (map fst (find_episodes df))) then ?F h else [])"
    by (rule rows_of_concat) auto
  ultimately have "rows_of fst h (merge_episodes df W gap) = (if h \<in> fst ` set (find_episodes df) then ?F h else [])"
    by simp
  moreover have "h \<notin> fst ` set (find_episodes df) \<Longrightarrow> host_spans h df = []"
    by (auto simp: host_spans_def rows_of_def filter_empty_conv)
  ultimately show ?thesis by (auto simp: comp_def case_prod_beta)
qed

lemma merged_episodes_gap_groups:
  "\<exists>groups. map (\<lambda>(h, s, e, n). (s, e)) (rows_of fst h (merge_episodes df W gap)) = map bounds groups \<and>
     concat groups = map snd (rows_of fst h (find_episodes df)) \<and> chained (joins W gap) groups"
proof -
  let ?gs = "case host_spans h df of [] \<Rightarrow> [] | p # ps \<Rightarrow> chain_groups (joins W gap) [p] ps"
  have "chained (joins W gap) ?gs" by (auto simp: chained_def [of _ "[]"] intro: chained_chain_groups split: list.split)
  moreover have "concat ?gs = host_spans h df" by (auto simp: concat_chain_groups split: list.split)
  moreover have "map (\<lambda>(h, s, e, n). (s, e)) (rows_of fst h (merge_episodes df W gap)) = map bounds ?gs"
    using merged_host [of h df W gap] merge_scan_None [OF host_spans_sorted(2)] by simp
  ultimately show ?thesis unfolding host_spans_def by (intro exI conjI)
qed

text \<open>
  Merged episodes are the groups of runs with short gaps. The merged episodes of a host are the bounds of the groups
  its attack runs fall into when they are cut exactly where the benign windows between two runs
  are more than the allowed gap; no run is lost and none is in two episodes.
\<close>

lemma merged_episodes_are_gap_groups:
  "\<exists>groups. map (\<lambda>(h, s, e, n). (s, e)) (rows_of fst h (merge_episodes df W gap)) = map bounds groups \<and>
     concat groups = map snd (rows_of fst h (find_episodes df)) \<and> chained (joins W gap) groups"
  by (rule merged_episodes_gap_groups)

section \<open>Where an origin lies\<close>

definition containing :: "int \<Rightarrow> (int \<times> int) list \<Rightarrow> (int \<times> int) list" where
  "containing t spans = filter (\<lambda>(s, e). s \<le> t \<and> t \<le> e) spans"

definition later :: "int \<Rightarrow> (int \<times> int) list \<Rightarrow> (int \<times> int) list" where
  "later t spans = filter (\<lambda>(s, e). t < s) spans"

definition geometry_of :: "string \<Rightarrow> int \<Rightarrow> (int \<times> int) list \<Rightarrow> geometry" where
  "geometry_of host t spans =
     (containing t spans \<noteq> [],
      (if later t spans = [] then PInf else Fin (of_int (fst (hd (later t spans)) - t) / 60)),
      (if containing t spans \<noteq> [] then episode_name host (fst (last (containing t spans)))
       else if later t spans \<noteq> [] then episode_name host (fst (hd (later t spans))) else []))"

lemma geometry_fold:
  "sorted (map fst spans) \<Longrightarrow> foldl (geometry_step host t) (False, PInf, []) spans = geometry_of host t spans"
proof (induction spans rule: rev_induct)
  case (snoc p spans)
  obtain s e where p: "p = (s, e)" by force
  have le: "\<forall>q \<in> set spans. fst q \<le> s" using snoc.prems by (auto simp: p sorted_append)
  have IH: "foldl (geometry_step host t) (False, PInf, []) spans = geometry_of host t spans"
    using snoc by (simp add: sorted_append)
  show ?case
  proof (cases "t < s")
    case True
    have "later t spans \<noteq> [] \<Longrightarrow> fst (hd (later t spans)) \<le> s"
      using le hd_in_set [of "later t spans"] by (auto simp: later_def)
    then show ?thesis
      using True IH by (auto simp: geometry_of_def geometry_step_def Let_def p containing_def later_def divide_le_cancel)
  next
    case False
    then have "later t spans = []" using le by (force simp: later_def filter_empty_conv)
    then show ?thesis
      using False IH by (auto simp: geometry_of_def geometry_step_def Let_def p containing_def later_def)
  qed
qed (simp add: geometry_of_def containing_def later_def)

lemma sorted_pair [simp]: "sorted (map (\<lambda>y. (h :: string, y :: int)) ys) = sorted ys"
  by (induction ys) auto

lemma merged_starts_sorted: "sorted (map fst (map (\<lambda>(h, s, e, n). (s, e)) (rows_of fst h (merge_episodes df W gap))))"
proof -
  obtain groups where g: "map (\<lambda>(h, s, e, n). (s, e)) (rows_of fst h (merge_episodes df W gap)) = map bounds groups"
    "concat groups = host_spans h df" "chained (joins W gap) groups"
    using merged_episodes_gap_groups [of h df W gap] by (auto simp: host_spans_def)
  have "sorted (map (\<lambda>g. fst (hd g)) groups)"
    using sorted_hd_last [of groups fst] g(2,3) host_spans_sorted(1) [of h df] by (auto simp: chained_def list_all_iff)
  then show ?thesis unfolding g(1) by (simp add: bounds_def comp_def)
qed

text \<open>
  An origin's geometry is read off its host's merged episodes. It is inside exactly when one of them contains it, its
  distance is that to the first one that starts later, or infinite, and its key names the last one that contains
  it, else the next one, else none; never an episode of another host.
\<close>

lemma origin_geometry_exact:
  "episode_geometry table origins W gap =
     map (\<lambda>(host, t). geometry_of host t (map (\<lambda>(h, s, e, n). (s, e)) (rows_of fst host (merge_episodes table W gap)))) origins"
proof -
  have same: "rows_of fst host (sort_key (\<lambda>(h, s, e, n). (h, s)) (merge_episodes table W gap)) = rows_of fst host (merge_episodes table W gap)" for host
  proof -
    have "sorted (map (\<lambda>(h, s, e, n). (h, s)) (rows_of fst host (merge_episodes table W gap)))"
    proof -
      have "map (\<lambda>(h, s, e, n). (h, s)) (rows_of fst host (merge_episodes table W gap)) =
          map (\<lambda>s. (host, s)) (map fst (map (\<lambda>(h, s, e, n). (s, e)) (rows_of fst host (merge_episodes table W gap))))"
        by (auto simp: rows_of_def)
      then show ?thesis using merged_starts_sorted [of host table W gap] by (simp only: sorted_pair)
    qed
    then show ?thesis unfolding rows_of_def filter_sort by (rule sort_key_id_if_sorted)
  qed
  have "foldl (geometry_step host t) (False, PInf, []) (map (\<lambda>(h, s, e, n). (s, e)) (rows_of fst host (merge_episodes table W gap))) =
      geometry_of host t (map (\<lambda>(h, s, e, n). (s, e)) (rows_of fst host (merge_episodes table W gap)))" for host t
    by (rule geometry_fold [OF merged_starts_sorted])
  then show ?thesis by (simp add: episode_geometry_def same Let_def)
qed

section \<open>The two supervisions agree\<close>

lemma hazard_prefix:
  assumes "sorted_wrt (<) (0 # hs)" "Fin 0 < minutes" "m \<le> length hs"
  shows "sum_list (take m (map (\<lambda>(lo, hi). if \<not> inside \<and> Fin (of_int lo) < minutes \<and> minutes \<le> Fin (of_int hi) then 1 else 0) (zip (0 # hs) hs))) =
    (if \<not> inside \<and> m \<noteq> 0 \<and> minutes \<le> Fin (of_int ((0 # hs) ! m)) then 1 else (0 :: nat))"
  using assms(3)
proof (induction m)
  case (Suc m)
  define f where "f = (\<lambda>(lo, hi). if \<not> inside \<and> Fin (of_int lo) < minutes \<and> minutes \<le> Fin (of_int hi) then 1 else (0 :: nat))"
  have "take (Suc m) (map f (zip (0 # hs) hs)) = take m (map f (zip (0 # hs) hs)) @ [f ((0 # hs) ! m, hs ! m)]"
    using Suc.prems by (simp add: take_Suc_conv_app_nth)
  then have "sum_list (take (Suc m) (map f (zip (0 # hs) hs))) = sum_list (take m (map f (zip (0 # hs) hs))) + f ((0 # hs) ! m, hs ! m)"
    by simp
  also have "sum_list (take m (map f (zip (0 # hs) hs))) = (if \<not> inside \<and> m \<noteq> 0 \<and> minutes \<le> Fin (of_int ((0 # hs) ! m)) then 1 else 0)"
    using Suc by (simp add: f_def)
  finally have step: "sum_list (take (Suc m) (map f (zip (0 # hs) hs))) =
    (if \<not> inside \<and> m \<noteq> 0 \<and> minutes \<le> Fin (of_int ((0 # hs) ! m)) then 1 else 0) + f ((0 # hs) ! m, hs ! m)" .
  have "(0 # hs) ! m < hs ! m"
    using assms(1) Suc.prems sorted_wrt_nth_less [OF assms(1), of m "Suc m"] by simp
  moreover have "m = 0 \<Longrightarrow> (0 # hs) ! m = 0" by simp
  ultimately show ?case using assms(2) unfolding f_def [symmetric] step by (cases minutes) (auto simp: f_def)
qed simp

text \<open>
  Hazard and onset targets are the same supervision. For an ascending horizon grid, an origin's event
  lies in at most one bucket, the events up to a horizon add up to its onset target there, and it is at risk in a bucket
  exactly when it is outside every episode and had no event in an earlier one.
\<close>

lemma hazards_sum_to_onset_targets:
  assumes "sorted_wrt (<) (0 # hs)" "i < length geo" "geo ! i = (inside, minutes, key)" "Fin 0 < minutes" "m < length hs"
  shows "sum_list (take (m + 1) (fst (discrete_hazard_targets geo hs ! i))) = onset_targets geo hs ! i ! m \<and>
    (snd (discrete_hazard_targets geo hs ! i) ! m \<longleftrightarrow> \<not> inside \<and> sum_list (take m (fst (discrete_hazard_targets geo hs ! i))) = 0)"
proof -
  have ev: "fst (discrete_hazard_targets geo hs ! i) =
      map (\<lambda>(lo, hi). if \<not> inside \<and> Fin (of_int lo) < minutes \<and> minutes \<le> Fin (of_int hi) then 1 else 0) (zip (0 # hs) hs)"
    "snd (discrete_hazard_targets geo hs ! i) = map (\<lambda>(lo, hi). \<not> inside \<and> Fin (of_int lo) < minutes) (zip (0 # hs) hs)"
    "onset_targets geo hs ! i = map (\<lambda>h. if \<not> inside \<and> minutes \<le> Fin (of_int h) then 1 else 0) hs"
    using assms(2,3) by (simp_all add: discrete_hazard_targets_def onset_targets_def Let_def)
  have "snd (discrete_hazard_targets geo hs ! i) ! m \<longleftrightarrow> \<not> inside \<and> \<not> (m \<noteq> 0 \<and> minutes \<le> Fin (of_int ((0 # hs) ! m)))"
    using assms(4,5) unfolding ev(2) by (cases minutes; cases m) auto
  then show ?thesis
    using hazard_prefix [OF assms(1,4), of "m + 1" inside] hazard_prefix [OF assms(1,4), of m inside] assms(5)
    unfolding ev(1,3) by (simp add: nth_Cons')
qed

lemma hazards_sum_to_onset_targets_witness:
  "sum_list (take 2 (fst (discrete_hazard_targets [(False, Fin 2, [])] [1, 3, 5] ! 0))) = 1"
  using hazards_sum_to_onset_targets [of "[1, 3, 5]" 0 "[(False, Fin 2, [])]" False "Fin 2" "[]" 1]
  by (simp add: onset_targets_def numeral_2_eq_2)

text \<open>Hazards give coherent probabilities: within the unit interval and never falling with the horizon.\<close>

lemma cumprod_bounds:
  assumes "0 \<le> p" "p \<le> 1" "list_all (\<lambda>x. 0 \<le> x \<and> x \<le> 1) xs"
  shows "list_all (\<lambda>y. 0 \<le> y \<and> y \<le> p) (cumprod p xs) \<and> sorted_wrt (\<ge>) (cumprod p xs)"
  using assms
proof (induction xs arbitrary: p)
  case (Cons x xs)
  have px: "0 \<le> p * x" "p * x \<le> p" "p * x \<le> 1"
    using Cons.prems mult_left_le [of x p] by (auto intro: order_trans)
  then show ?case using Cons.IH [of "p * x"] Cons.prems by (auto simp: list_all_iff intro: order_trans)
qed simp

lemma cumulative_is_a_distribution:
  assumes "row \<in> set (survival_to_cumulative hazards)"
  shows "sorted row \<and> list_all (\<lambda>p. 0 \<le> p \<and> p \<le> 1) row"
proof -
  obtain h where row: "row = map (\<lambda>s. 1 - s) (cumprod 1 (map (\<lambda>h. 1 - clip_unit h) h))"
    using assms by (auto simp: survival_to_cumulative_def)
  have "0 \<le> 1 - clip_unit x \<and> 1 - clip_unit x \<le> 1" for x by (simp add: clip_unit_def min_def max_def)
  then have "list_all (\<lambda>x. 0 \<le> x \<and> x \<le> 1) (map (\<lambda>h. 1 - clip_unit h) h)" by (simp add: list_all_iff)
  note b = cumprod_bounds [OF zero_le_one order_refl this]
  have "sorted_wrt (\<ge>) ys \<Longrightarrow> sorted (map (\<lambda>s. 1 - s) ys)" for ys :: "rat list" by (induction ys) auto
  from this [OF conjunct2 [OF b]] conjunct1 [OF b] show ?thesis unfolding row by (simp add: list_all_iff)
qed

end
