(* ===== verification/Leads.thy ===== *)
theory Leads
  imports Onsets "HOL-Library.Sublist"
begin

text \<open>
  Lead times of a score: \<open>lead_time_for_episode\<close> and its report (\<open>ml/nidra/eval/metrics.py\<close>), the
  per-episode report (\<open>episode_metrics.py\<close>) and the campaign report (\<open>campaign_metrics.py\<close>). The number of
  consecutive windows \<open>m\<close> is positive. A score array is a column of its rows.
\<close>

section \<open>Runs of hits\<close>

text \<open>The loop of \<open>_first_run\<close> at index \<open>i\<close> with the current run.\<close>

fun first_run_from :: "nat \<Rightarrow> nat \<Rightarrow> nat \<Rightarrow> bool list \<Rightarrow> nat option" where
  "first_run_from m i run [] = None"
| "first_run_from m i run (h # hs) =
     (let run' = (if h then run + 1 else 0) in if m \<le> run' then Some (i + 1 - m) else first_run_from m (i + 1) run' hs)"

definition first_run :: "bool list \<Rightarrow> nat \<Rightarrow> nat option" where
  "first_run hit m = first_run_from m 0 0 hit"

text \<open>The loop of \<open>_first_timed_run\<close>, with the timestamp of the row before.\<close>

fun timed_run_from :: "int \<Rightarrow> nat \<Rightarrow> nat \<Rightarrow> nat \<Rightarrow> int option \<Rightarrow> (int \<times> bool) list \<Rightarrow> nat option" where
  "timed_run_from W m i run prev [] = None"
| "timed_run_from W m i run prev ((t, h) # rows) =
     (let adjacent = (case prev of None \<Rightarrow> False | Some t0 \<Rightarrow> t - t0 = W);
          run' = (if h then (if adjacent then run + 1 else 1) else 0)
      in if m \<le> run' then Some (i + 1 - m) else timed_run_from W m (i + 1) run' (Some t) rows)"

definition first_timed_run :: "(int \<times> bool) list \<Rightarrow> nat \<Rightarrow> int \<Rightarrow> nat option" where
  "first_timed_run rows m W = timed_run_from W m 0 0 None rows"

section \<open>Lead time of an episode\<close>

fun lead_loop :: "(int \<times> flt) list \<Rightarrow> int \<Rightarrow> flt \<Rightarrow> nat \<Rightarrow> nat \<Rightarrow> nat \<Rightarrow> (int \<times> flt) list \<Rightarrow> int option" where
  "lead_loop curve onset_ts threshold m i run [] = None"
| "lead_loop curve onset_ts threshold m i run ((ts, p) # rest) =
     (if onset_ts \<le> ts then None
      else
        let run' = (if threshold \<le> p then run + 1 else 0)
        in if m \<le> run' then Some (onset_ts - fst (curve ! (i + 1 - m)))
           else lead_loop curve onset_ts threshold m (i + 1) run' rest)"

definition lead_time_for_episode :: "(int \<times> flt) list \<Rightarrow> int \<Rightarrow> flt \<Rightarrow> nat \<Rightarrow> int option" where
  "lead_time_for_episode risk_curve onset_ts threshold m = lead_loop risk_curve onset_ts threshold m 0 0 risk_curve"

definition median_int :: "int list \<Rightarrow> rat option" where
  "median_int xs = median_rat (map of_int xs)"

record lead_report =
  le_leads :: "int list"
  le_episodes :: nat
  le_no_warning :: nat

definition lead_time_distribution :: "((int \<times> flt) list \<times> int) list \<Rightarrow> flt \<Rightarrow> nat \<Rightarrow> lead_report" where
  "lead_time_distribution episodes threshold m =
     foldl (\<lambda>report (curve, onset). case lead_time_for_episode curve onset threshold m of
         None \<Rightarrow> report\<lparr>le_no_warning := le_no_warning report + 1\<rparr>
       | Some lt \<Rightarrow> report\<lparr>le_leads := le_leads report @ [lt]\<rparr>)
       \<lparr>le_leads = [], le_episodes = length episodes, le_no_warning = 0\<rparr> episodes"

definition report_median :: "lead_report \<Rightarrow> rat option" where
  "report_median r = median_int (le_leads r)"

definition fraction_no_warning :: "lead_report \<Rightarrow> rat" where
  "fraction_no_warning r = (if le_episodes r = 0 then 0 else of_nat (le_no_warning r) / of_nat (le_episodes r))"

text \<open>\<open>arr.max()\<close>, when there is an element; NaN wins.\<close>

definition np_max :: "flt list \<Rightarrow> flt option" where
  "np_max xs = (if xs = [] then None else if NaN \<in> set xs then Some NaN else Some (foldl py_max (hd xs) (tl xs)))"

section \<open>The episode report\<close>

text \<open>A row of the evaluation set with its score.\<close>

record eval_row =
  er_host :: string
  er_ts :: int
  er_key :: string
  er_inside :: bool
  er_score :: flt

record episode_line =
  el_episode :: string
  el_host :: string
  el_onset :: int
  el_end :: int
  el_length :: nat
  el_pre_rows :: nat
  el_warned :: bool
  el_lead :: "int option"
  el_max_pre :: "flt option"
  el_detected :: bool
  el_latency :: "rat option"
  el_max_inside :: "flt option"
  el_fraction :: "rat option"

text \<open>\<open>key.rsplit("@", 1)\<close>.\<close>

definition rsplit_at :: "char \<Rightarrow> string \<Rightarrow> (string \<times> string) res" where
  "rsplit_at c s = (if c \<notin> set s then Inl ValueError
     else Inr (rev (tl (dropWhile (\<lambda>x. x \<noteq> c) (rev s))), rev (takeWhile (\<lambda>x. x \<noteq> c) (rev s))))"

definition episode_line_of :: "eval_row list \<Rightarrow> flt \<Rightarrow> nat \<Rightarrow> int \<Rightarrow> string \<Rightarrow> episode_line option res" where
  "episode_line_of rows threshold m pre_onset_minutes key =
     bind_res (rsplit_at (CHR ''@'') key) (\<lambda>(host, start_str). bind_res (int_parse start_str) (\<lambda>start.
       let g = sort_key er_ts (filter (\<lambda>r. er_key r = key \<and> er_host r = host) rows);
           dur = filter er_inside g;
           stop = (if dur \<noteq> [] then Max (set (map er_ts dur)) else start);
           pre = filter (\<lambda>r. er_ts r < start \<and> start - pre_onset_minutes * 60 \<le> er_ts r) g;
           hit = (\<lambda>r. threshold \<le> er_score r);
           pw = first_run (map hit pre) m;
           dw = first_run (map hit dur) m
       in Inr (if g = [] then None else Some
         \<lparr>el_episode = key, el_host = host, el_onset = start, el_end = stop, el_length = length dur, el_pre_rows = length pre,
           el_warned = pw \<noteq> None, el_lead = map_option (\<lambda>i. start - er_ts (pre ! i)) pw, el_max_pre = np_max (map er_score pre),
           el_detected = dw \<noteq> None, el_latency = map_option (\<lambda>i. of_int (er_ts (dur ! i) - start) / 60) dw,
           el_max_inside = np_max (map er_score dur),
           el_fraction = (if dur = [] then None else Some (of_nat (length (filter hit dur)) / of_nat (length dur)))\<rparr>)))"

record episode_report =
  ep_lines :: "episode_line list"
  ep_warned :: nat
  ep_detected :: nat
  ep_median_lead :: "rat option"
  ep_median_latency :: "rat option"

definition per_episode_report :: "eval_row list \<Rightarrow> flt \<Rightarrow> nat \<Rightarrow> int \<Rightarrow> episode_report res" where
  "per_episode_report rows threshold m pre_onset_minutes =
     bind_res (traverse_res (episode_line_of rows threshold m pre_onset_minutes)
         (sort (firsts (filter (\<lambda>k. k \<noteq> []) (map er_key rows))))) (\<lambda>found.
       let ls = List.map_filter id found
       in Inr \<lparr>ep_lines = ls, ep_warned = length (filter el_warned ls), ep_detected = length (filter el_detected ls),
         ep_median_lead = median_int (List.map_filter el_lead ls), ep_median_latency = median_rat (List.map_filter el_latency ls)\<rparr>)"

section \<open>Campaigns\<close>

record episode_span =
  es_host :: string
  es_onset :: int
  es_end :: int
  es_stage :: string

definition episode_spans :: "'f lrow list \<Rightarrow> int \<Rightarrow> int \<Rightarrow> episode_span list res" where
  "episode_spans table window_seconds merge_gap_windows =
     (let merged = merge_episodes table window_seconds merge_gap_windows in
      if merged = [] then Inr []
      else if \<not> list_all (\<lambda>r. lr_stage r \<in> set STAGES) table then Inl ValueError
      else Inr (map (\<lambda>(h, start, stop, n).
        let inside = filter (\<lambda>r. lr_host r = h \<and> start \<le> lr_ts r \<and> lr_ts r \<le> stop) table;
            rank = Max (set (map (\<lambda>r. STAGE_INDEX (lr_stage r)) inside))
        in \<lparr>es_host = h, es_onset = start, es_end = stop, es_stage = STAGES ! rank\<rparr>) merged))"

text \<open>The loop over one host's episodes: the open campaign and the rest.\<close>

fun campaign_scan :: "int \<Rightarrow> episode_span list \<Rightarrow> episode_span list \<Rightarrow> episode_span list list" where
  "campaign_scan max_gap current [] = [current]"
| "campaign_scan max_gap current (e # es) =
     (if current \<noteq> [] \<and> max_gap * 60 < es_onset e - es_end (last current)
      then current # campaign_scan max_gap [e] es
      else campaign_scan max_gap (current @ [e]) es)"

definition group_campaigns :: "episode_span list \<Rightarrow> int \<Rightarrow> episode_span list list" where
  "group_campaigns episodes max_gap_minutes =
     concat (map (\<lambda>host. campaign_scan max_gap_minutes [] (sort_key es_onset (rows_of es_host host episodes)))
       (sort (firsts (map es_host episodes))))"

definition completing_phase :: "episode_span list \<Rightarrow> episode_span res" where
  "completing_phase campaign =
     (if list_ex (\<lambda>e. es_stage e \<notin> set STAGES \<or> es_stage e = ''benign'') campaign then Inl ValueError
      else
        let ordered = sort_key es_onset campaign;
            top = Max (set (map (\<lambda>e. STAGE_INDEX (es_stage e)) ordered))
        in if ordered = [] then Inl ValueError
           else if length (firsts (map es_stage ordered)) = 1 then Inr (last ordered)
           else Inr (hd (filter (\<lambda>e. STAGE_INDEX (es_stage e) = top) ordered)))"

record campaign_line =
  cl_host :: string
  cl_onset :: int
  cl_phases :: "episode_span list"
  cl_completing :: int
  cl_stage :: string
  cl_expected :: int
  cl_scored :: nat
  cl_max :: "flt option"
  cl_flag :: "int option"
  cl_early :: bool
  cl_lead :: "int option"
  cl_detected :: bool
  cl_latency :: "rat option"

text \<open>The rows are the timestamps and scores of the campaign's host, in order.\<close>

definition score_campaign ::
    "episode_span list \<Rightarrow> (int \<times> flt) list \<Rightarrow> flt \<Rightarrow> int \<Rightarrow> nat \<Rightarrow> int \<Rightarrow> campaign_line res" where
  "score_campaign campaign rows threshold window_seconds m pre_onset_minutes =
     bind_res (completing_phase campaign) (\<lambda>completing.
       let onset = es_onset (hd campaign);
           lo = onset - pre_onset_minutes * 60;
           hits = map (\<lambda>(t, s). (t, threshold \<le> s));
           before = filter (\<lambda>(t, s). lo \<le> t \<and> t < es_onset completing) rows;
           flag_ts = map_option (\<lambda>i. fst (before ! i)) (first_timed_run (hits before) m window_seconds);
           inside = filter (\<lambda>(t, s). es_onset completing \<le> t \<and> t \<le> es_end completing) rows;
           run_in = first_timed_run (hits inside) m window_seconds
       in Inr \<lparr>cl_host = es_host (hd campaign), cl_onset = onset, cl_phases = campaign, cl_completing = es_onset completing,
         cl_stage = es_stage completing, cl_expected = (es_onset completing - lo) div window_seconds, cl_scored = length before,
         cl_max = np_max (map snd before), cl_flag = flag_ts, cl_early = (case flag_ts of None \<Rightarrow> False | Some f \<Rightarrow> f < onset),
         cl_lead = map_option (\<lambda>f. es_onset completing - f) flag_ts,
         cl_detected = run_in \<noteq> None, cl_latency = map_option (\<lambda>i. of_int (fst (inside ! i) - es_onset completing) / 60) run_in\<rparr>)"

definition campaign_lead_report ::
    "episode_span list \<Rightarrow> string list \<Rightarrow> int list \<Rightarrow> flt list \<Rightarrow> flt \<Rightarrow> int \<Rightarrow> nat \<Rightarrow> int \<Rightarrow> int \<Rightarrow> (campaign_line list \<times> nat) res" where
  "campaign_lead_report episodes host_id origin_ts score threshold window_seconds m max_gap_minutes pre_onset_minutes =
     (if \<not> (length host_id = length origin_ts \<and> length origin_ts = length score) then Inl ValueError
      else
        let campaigns = group_campaigns episodes max_gap_minutes;
            scored = filter (\<lambda>c. 1 < length c) campaigns;
            rows = zip host_id (zip origin_ts score)
        in bind_res (traverse_res (\<lambda>c. score_campaign c (sort_key fst (map snd (rows_of fst (es_host (hd c)) rows)))
             threshold window_seconds m pre_onset_minutes) scored) (\<lambda>found.
           Inr (found, length campaigns - length scored)))"

section \<open>What a run is\<close>

text \<open>\<open>m\<close> hits from index \<open>k\<close> on, one window apart.\<close>

definition run_at :: "int \<Rightarrow> (int \<times> bool) list \<Rightarrow> nat \<Rightarrow> nat \<Rightarrow> bool" where
  "run_at W rows k m \<longleftrightarrow> k + m \<le> length rows \<and> (\<forall>j < m. snd (rows ! (k + j))) \<and>
     (\<forall>j. j + 1 < m \<longrightarrow> fst (rows ! (k + j + 1)) - fst (rows ! (k + j)) = W)"

lemma run_at_Suc:
  "run_at W rows k (Suc r) \<longleftrightarrow> run_at W rows k r \<and> k + r < length rows \<and> snd (rows ! (k + r)) \<and>
     (0 < r \<longrightarrow> fst (rows ! (k + r)) - fst (rows ! (k + r - 1)) = W)"
proof -
  have "(\<forall>j. j + 1 < Suc r \<longrightarrow> P j) \<longleftrightarrow> (\<forall>j. j + 1 < r \<longrightarrow> P j) \<and> (0 < r \<longrightarrow> P (r - 1))" for P :: "nat \<Rightarrow> bool"
    by (cases r) (auto simp: less_Suc_eq)
  from this [of "\<lambda>j. fst (rows ! (k + j + 1)) - fst (rows ! (k + j)) = W"]
  show ?thesis unfolding run_at_def by (auto simp: less_Suc_eq)
qed

definition the_first :: "(nat \<Rightarrow> bool) \<Rightarrow> nat option" where
  "the_first P = (if \<exists>k. P k then Some (LEAST k. P k) else None)"

lemma the_first_Some: "P k \<Longrightarrow> (\<And>k'. P k' \<Longrightarrow> k \<le> k') \<Longrightarrow> the_first P = Some k"
  unfolding the_first_def using Least_equality [of P k] by auto

lemma the_first_ex: "P k \<Longrightarrow> \<exists>l. the_first P = Some l"
  unfolding the_first_def by auto

lemma the_firstD: "the_first P = Some k \<Longrightarrow> P k \<and> (\<forall>k' < k. \<not> P k')"
  unfolding the_first_def using LeastI_ex not_less_Least by (metis option.distinct(1) option.inject)

lemma timed_run_loop:
  assumes "0 < m" "rows = pre @ rest" "i = length pre" "prev = (if pre = [] then None else Some (fst (last pre)))"
    "\<forall>r. 0 < r \<longrightarrow> (r \<le> run \<longleftrightarrow> r \<le> i \<and> run_at W rows (i - r) r)" "\<forall>k. run_at W rows k m \<longrightarrow> i < k + m"
  shows "timed_run_from W m i run prev rest = the_first (\<lambda>k. run_at W rows k m)"
  using assms(2-)
proof (induction rest arbitrary: pre i run prev)
  case Nil
  then have "\<not> run_at W rows k m" for k by (auto simp: run_at_def)
  then show ?case by (simp add: the_first_def)
next
  case (Cons x rest)
  obtain t h where x: "x = (t, h)" by force
  define run' where "run' = (if h then (if (case prev of None \<Rightarrow> False | Some t0 \<Rightarrow> t - t0 = W) then run + 1 else 1) else 0)"
  have at: "rows ! i = (t, h)" "i < length rows" using Cons.prems by (auto simp: x)
  have before: "0 < i \<Longrightarrow> prev = Some (fst (rows ! (i - 1)))"
    using Cons.prems by (auto simp: nth_append last_conv_nth)
  have inv: "r \<le> run' \<longleftrightarrow> r \<le> i + 1 \<and> run_at W rows (i + 1 - r) r" if r: "0 < r" for r
  proof -
    obtain q where q: "r = Suc q" using r by (cases r) auto
    show ?thesis
    proof (cases "q = 0")
      case True
      then show ?thesis using at by (auto simp: q run'_def run_at_def)
    next
      case False
      have "r \<le> run' \<longleftrightarrow> h \<and> 0 < i \<and> t - fst (rows ! (i - 1)) = W \<and> q \<le> run"
        using False before Cons.prems(2,3) by (cases "i = 0") (auto simp: q run'_def)
      also have "\<dots> \<longleftrightarrow> h \<and> t - fst (rows ! (i - 1)) = W \<and> q \<le> i \<and> run_at W rows (i - q) q"
        using Cons.prems(4) False by auto
      also have "\<dots> \<longleftrightarrow> r \<le> i + 1 \<and> run_at W rows (i + 1 - r) r"
        using False at by (auto simp: q run_at_Suc)
      finally show ?thesis .
    qed
  qed
  show ?case
  proof (cases "m \<le> run'")
    case True
    then have "run_at W rows (i + 1 - m) m" using inv [of m] assms(1) by simp
    then have "the_first (\<lambda>k. run_at W rows k m) = Some (i + 1 - m)"
      using Cons.prems(5) by (intro the_first_Some) (auto simp: Suc_le_eq le_diff_conv)
    then show ?thesis using True by (simp add: x run'_def Let_def)
  next
    case False
    then have no: "\<not> (m \<le> i + 1 \<and> run_at W rows (i + 1 - m) m)" using inv [of m] assms(1) by simp
    have later: "\<forall>k. run_at W rows k m \<longrightarrow> i + 1 < k + m"
    proof (intro allI impI)
      fix k assume k: "run_at W rows k m"
      then have "i < k + m" using Cons.prems(5) by blast
      moreover have "k + m \<noteq> i + 1"
      proof
        assume "k + m = i + 1"
        then have "k = i + 1 - m" "m \<le> i + 1" by auto
        then show False using no k by simp
      qed
      ultimately show "i + 1 < k + m" by simp
    qed
    have "timed_run_from W m (i + 1) run' (Some t) rest = the_first (\<lambda>k. run_at W rows k m)"
      using Cons.prems inv later by (intro Cons.IH [of "pre @ [x]"]) (auto simp: x)
    then show ?thesis using False by (simp add: x run'_def Let_def)
  qed
qed

lemma first_timed_run_spec: "0 < m \<Longrightarrow> first_timed_run rows m W = the_first (\<lambda>k. run_at W rows k m)"
  unfolding first_timed_run_def by (rule timed_run_loop [where pre = "[]"]) (auto simp: run_at_def)

lemma first_run_timed:
  "(i = 0 \<Longrightarrow> run = 0) \<Longrightarrow> first_run_from m i run hs =
     timed_run_from 1 m i run (if i = 0 then None else Some (int i - 1)) (zip (map int [i..<i + length hs]) hs)"
proof (induction hs arbitrary: i run)
  case (Cons h hs)
  have "[i..<i + length (h # hs)] = i # [Suc i..<Suc i + length hs]" by (subst upt_conv_Cons) auto
  then show ?case using Cons.prems Cons.IH [of "i + 1"] by (auto simp: Let_def)
qed simp

definition sustained :: "bool list \<Rightarrow> nat \<Rightarrow> nat \<Rightarrow> bool" where
  "sustained hit m k \<longleftrightarrow> k + m \<le> length hit \<and> (\<forall>j < m. hit ! (k + j))"

lemma first_run_spec: "0 < m \<Longrightarrow> first_run hit m = the_first (sustained hit m)"
proof -
  assume m: "0 < m"
  have "first_run hit m = first_timed_run (zip (map int [0..<length hit]) hit) m 1"
    using first_run_timed [of 0 0 m hit] by (simp add: first_run_def first_timed_run_def)
  moreover have "run_at 1 (zip (map int [0..<length hit]) hit) k m \<longleftrightarrow> sustained hit m k" for k
    by (auto simp: run_at_def sustained_def)
  ultimately show ?thesis using first_timed_run_spec [OF m] by simp
qed

section \<open>Lead times\<close>

lemma lead_loop_first_run:
  "lead_loop curve onset threshold m i run rest =
     map_option (\<lambda>k. onset - fst (curve ! k)) (first_run_from m i run (map (\<lambda>(t, p). threshold \<le> p) (takeWhile (\<lambda>(t, p). t < onset) rest)))"
  by (induction curve onset threshold m i run rest rule: lead_loop.induct) (auto simp: Let_def)

lemma takeWhile_before:
  assumes "sorted (map fst curve)" "k < length curve" "fst (curve ! k) < (onset :: int)"
  shows "k < length (takeWhile (\<lambda>(t, p). t < onset) curve)"
proof (rule ccontr)
  assume "\<not> ?thesis"
  then have n: "length (takeWhile (\<lambda>(t, p). t < onset) curve) \<le> k" by simp
  let ?n = "length (takeWhile (\<lambda>(t, p). t < onset) curve)"
  have "?n < length curve" using n assms(2) by simp
  then have "onset \<le> fst (curve ! ?n)" using nth_length_takeWhile [of "\<lambda>(t, p). t < onset" curve] by (auto simp: case_prod_beta)
  moreover have "fst (curve ! ?n) \<le> fst (curve ! k)" using assms(1,2) n sorted_nth_mono [of "map fst curve" ?n k] by simp
  ultimately show False using assms(3) by simp
qed

definition warns_from :: "(int \<times> flt) list \<Rightarrow> int \<Rightarrow> flt \<Rightarrow> nat \<Rightarrow> nat \<Rightarrow> bool" where
  "warns_from curve onset threshold m k \<longleftrightarrow>
     k + m \<le> length curve \<and> (\<forall>j < m. fst (curve ! (k + j)) < onset \<and> threshold \<le> snd (curve ! (k + j)))"

text \<open>
  C22. The lead time is that of the first sustained warning. On a chronological curve it is a number exactly when some \<open>m\<close>
  consecutive windows before the onset reach the threshold, and then the distance from the first window of
  the earliest such run to the onset, which is positive; what follows the onset never matters.
\<close>

theorem lead_time_is_first_sustained_warning:
  assumes "0 < m" "sorted (map fst curve)"
  shows "lead_time_for_episode curve onset threshold m =
      map_option (\<lambda>k. onset - fst (curve ! k)) (the_first (warns_from curve onset threshold m)) \<and>
    (lead_time_for_episode curve onset threshold m = Some lead \<longrightarrow> 0 < lead)"
proof -
  let ?pre = "takeWhile (\<lambda>(t, p). t < onset) curve"
  have nth: "?pre ! k = curve ! k" "fst (curve ! k) < onset" if "k < length ?pre" for k
    using that takeWhile_nth [of k "\<lambda>(t, p). t < onset" curve] nth_mem [OF that] by (auto dest!: set_takeWhileD simp: case_prod_beta)
  have le: "length ?pre \<le> length curve" by (rule length_takeWhile_le)
  have "sustained (map (\<lambda>(t, p). threshold \<le> p) ?pre) m = warns_from curve onset threshold m"
  proof
    fix k
    show "sustained (map (\<lambda>(t, p). threshold \<le> p) ?pre) m k \<longleftrightarrow> warns_from curve onset threshold m k"
    proof
      assume s: "sustained (map (\<lambda>(t, p). threshold \<le> p) ?pre) m k"
      then show "warns_from curve onset threshold m k" using nth le unfolding sustained_def warns_from_def by (auto simp: case_prod_beta)
    next
      assume w: "warns_from curve onset threshold m k"
      then have "fst (curve ! (k + (m - 1))) < onset" "k + (m - 1) < length curve"
        using assms(1) unfolding warns_from_def by (auto dest: spec [of _ "m - 1"])
      then have "k + (m - 1) < length ?pre" using takeWhile_before [OF assms(2)] by blast
      then have "k + m \<le> length ?pre" using assms(1) by simp
      then show "sustained (map (\<lambda>(t, p). threshold \<le> p) ?pre) m k"
        using w nth unfolding sustained_def warns_from_def by (auto simp: case_prod_beta)
    qed
  qed
  then have lead: "lead_time_for_episode curve onset threshold m = map_option (\<lambda>k. onset - fst (curve ! k)) (the_first (warns_from curve onset threshold m))"
    using first_run_spec [OF assms(1)] by (simp add: lead_time_for_episode_def lead_loop_first_run first_run_def)
  moreover have "0 < lead" if s: "lead_time_for_episode curve onset threshold m = Some lead"
  proof -
    obtain k where k: "the_first (warns_from curve onset threshold m) = Some k" "lead = onset - fst (curve ! k)" using s lead by auto
    then have "warns_from curve onset threshold m k" using the_firstD by blast
    then have "fst (curve ! (k + 0)) < onset" using assms(1) unfolding warns_from_def by blast
    then show ?thesis using k(2) by simp
  qed
  ultimately show ?thesis by blast
qed

lemma lead_time_is_first_sustained_warning_witness:
  "lead_time_for_episode [(0, Fin 1), (60, Fin 0), (120, Fin 1), (180, Fin 1), (240, Fin 1)] 300 (Fin (3 / 4)) 2 = Some 180 \<and> (0 :: int) < 180"
proof -
  let ?curve = "[(0, Fin 1), (60, Fin 0), (120, Fin 1), (180, Fin 1), (240, Fin 1)] :: (int \<times> flt) list"
  have run: "lead_time_for_episode ?curve 300 (Fin (3 / 4)) 2 = Some 180" by code_simp
  have "(0 :: nat) < 2" "sorted (map fst ?curve)" by simp_all
  from lead_time_is_first_sustained_warning [OF this, of 300 "Fin (3 / 4)" 180] run show ?thesis by blast
qed

section \<open>Campaigns\<close>

definition close_by :: "int \<Rightarrow> episode_span \<Rightarrow> episode_span \<Rightarrow> bool" where
  "close_by max_gap a b \<longleftrightarrow> es_onset b - es_end a \<le> max_gap * 60"

lemma campaign_scan_groups:
  "current \<noteq> [] \<Longrightarrow> campaign_scan max_gap current es = chain_groups (close_by max_gap) current es"
  by (induction max_gap current es rule: campaign_scan.induct) (auto simp: close_by_def)

lemma campaign_scan_host:
  assumes "es \<noteq> []"
  shows "concat (campaign_scan max_gap [] es) = es \<and> chained (close_by max_gap) (campaign_scan max_gap [] es)"
  using assms campaign_scan_groups [of "[hd es]"] concat_chain_groups [of "close_by max_gap" "[hd es]" "tl es"]
    chained_chain_groups [of "[hd es]" "close_by max_gap" "tl es"]
  by (cases es) auto

text \<open>
  Campaigns are the chains of close episodes. The campaigns of a host, in order, are its episodes sorted by onset and cut
  exactly where the gap from one episode's end to the next onset exceeds the allowed minutes; each campaign has one
  host, and no episode is lost or counted twice.
\<close>

lemma campaigns_are_chains:
  assumes "h \<in> es_host ` set episodes"
  shows "chained (close_by max_gap) (filter (\<lambda>c. es_host (hd c) = h) (group_campaigns episodes max_gap)) \<and>
    concat (filter (\<lambda>c. es_host (hd c) = h) (group_campaigns episodes max_gap)) = sort_key es_onset (rows_of es_host h episodes) \<and>
    list_all (\<lambda>c. list_all (\<lambda>e. es_host e = es_host (hd c)) c) (group_campaigns episodes max_gap)"
proof -
  let ?F = "\<lambda>h. campaign_scan max_gap [] (sort_key es_onset (rows_of es_host h episodes))"
  have host: "list_all (\<lambda>e. es_host e = k) c \<and> c \<noteq> []" if "k \<in> es_host ` set episodes" "c \<in> set (?F k)" for k c
  proof -
    let ?es = "sort_key es_onset (rows_of es_host k episodes)"
    have "set ?es \<noteq> {}" using that(1) by auto
    then have "?es \<noteq> []" by force
    from campaign_scan_host [OF this] have "concat (?F k) = ?es" "c \<noteq> []" using that(2) by (auto simp: chained_def list_all_iff)
    then have "set c \<subseteq> set ?es" using that(2) by (metis set_concat UN_upper)
    then show ?thesis using \<open>c \<noteq> []\<close> by (auto simp: list_all_iff)
  qed
  have F: "es_host (hd c) = k" if "k \<in> es_host ` set episodes" "c \<in> set (?F k)" for k c
    using host [OF that] by (cases c) auto
  let ?ks = "sort (firsts (map es_host episodes))"
  have pick: "filter (\<lambda>c. es_host (hd c) = h) (concat (map ?F ks)) = concat (map (\<lambda>k. if k = h then ?F k else []) ks)"
    if "set ks \<subseteq> es_host ` set episodes" for ks
    using that
  proof (induction ks)
    case (Cons k ks)
    have "filter (\<lambda>c. es_host (hd c) = h) (?F k) = (if k = h then ?F k else [])"
      using F [of k] Cons.prems by (auto simp: filter_id_conv filter_empty_conv)
    then show ?case using Cons by simp
  qed simp
  have one: "concat (map (\<lambda>k. if k = h then ?F k else []) ks) = ?F h" if "distinct ks" "h \<in> set ks" for ks
    using that
  proof (induction ks)
    case (Cons k ks)
    have "h \<notin> set ks \<Longrightarrow> concat (map (\<lambda>k. if k = h then ?F k else []) ks) = []" by auto
    then show ?case using Cons by auto
  qed simp
  have mine: "filter (\<lambda>c. es_host (hd c) = h) (group_campaigns episodes max_gap) = ?F h"
    unfolding group_campaigns_def using pick [of ?ks] one [of ?ks] assms by simp
  have "set (sort_key es_onset (rows_of es_host h episodes)) \<noteq> {}" using assms by auto
  then have "sort_key es_onset (rows_of es_host h episodes) \<noteq> []" by force
  note ch = campaign_scan_host [OF this, of max_gap]
  have "list_all (\<lambda>c. list_all (\<lambda>e. es_host e = es_host (hd c)) c) (group_campaigns episodes max_gap)"
    unfolding list_all_iff [of _ "group_campaigns episodes max_gap"]
  proof
    fix c assume "c \<in> set (group_campaigns episodes max_gap)"
    then obtain k where "k \<in> es_host ` set episodes" "c \<in> set (?F k)" by (auto simp: group_campaigns_def)
    then show "list_all (\<lambda>e. es_host e = es_host (hd c)) c" using host F by auto
  qed
  then show ?thesis using ch mine by simp
qed

definition demo_span :: "string \<Rightarrow> int \<Rightarrow> int \<Rightarrow> string \<Rightarrow> episode_span" where
  "demo_span h s e st = \<lparr>es_host = h, es_onset = s, es_end = e, es_stage = st\<rparr>"

lemma campaigns_are_chains_witness:
  "list_all (\<lambda>c. list_all (\<lambda>e. es_host e = es_host (hd c)) c)
     (group_campaigns [demo_span ''a'' 9000 9060 ''c2'', demo_span ''a'' 0 60 ''recon'', demo_span ''b'' 60 60 ''c2''] 60)"
  using campaigns_are_chains [of "''a''" "[demo_span ''a'' 9000 9060 ''c2'', demo_span ''a'' 0 60 ''recon'', demo_span ''b'' 60 60 ''c2'']" 60]
  by (simp add: demo_span_def)

section \<open>Missing windows\<close>

lemma subseq_filter: "subseq xs ys \<Longrightarrow> subseq (filter P xs) (filter P ys)"
  by (induction rule: list_emb.induct) auto

lemma subseq_set: "subseq xs ys \<Longrightarrow> set xs \<subseteq> set ys"
  by (induction rule: list_emb.induct) auto

text \<open>A run of some rows is a run of all of them when no window lies between two neighbouring ones.\<close>

lemma run_survives:
  assumes "0 < W" "sorted_wrt (<) (map fst rows)" "\<forall>r \<in> set rows. W dvd fst r" "set rows' \<subseteq> set rows" "run_at W rows' k m" "0 < m"
  shows "\<exists>i. run_at W rows i m \<and> fst (rows ! i) = fst (rows' ! k)"
proof -
  have k: "k + m \<le> length rows'" using assms(5) by (simp add: run_at_def)
  have mem: "rows' ! (k + j) \<in> set rows" if "j < m" for j
    using that k by (intro subsetD [OF assms(4)] nth_mem) simp
  obtain i where i: "i < length rows" "rows ! i = rows' ! k" using mem [of 0] assms(6) by (auto simp: in_set_conv_nth)
  have same: "i + j < length rows \<and> rows ! (i + j) = rows' ! (k + j)" if "j < m" for j
    using that
  proof (induction j)
    case (Suc j)
    then have IH: "i + j < length rows" "rows ! (i + j) = rows' ! (k + j)" by auto
    have step: "fst (rows' ! (k + Suc j)) = fst (rows ! (i + j)) + W"
      using assms(5) Suc.prems IH(2) unfolding run_at_def by (auto dest: spec [of _ j])
    obtain l where l: "l < length rows" "rows ! l = rows' ! (k + Suc j)" using mem [OF Suc.prems] by (auto simp: in_set_conv_nth)
    have mono: "fst (rows ! a) < fst (rows ! b)" if "a < b" "b < length rows" for a b
      using sorted_wrt_nth_less [OF assms(2), of a b] that by simp
    have "i + j < l"
    proof (rule ccontr)
      assume "\<not> i + j < l"
      then have "l = i + j \<or> fst (rows ! l) < fst (rows ! (i + j))" using mono [of l "i + j"] IH(1) by (cases "l = i + j") auto
      then show False using step l(2) assms(1) by auto
    qed
    moreover have "\<not> i + Suc j < l"
    proof
      assume lt: "i + Suc j < l"
      have "fst (rows ! (i + j)) < fst (rows ! (i + Suc j))" "fst (rows ! (i + Suc j)) < fst (rows ! (i + j)) + W"
        using mono [of "i + j" "i + Suc j"] mono [OF lt l(1)] lt l step by auto
      moreover have "W dvd fst (rows ! (i + Suc j)) - fst (rows ! (i + j))"
        using assms(3) lt l(1) IH(1) by (intro dvd_diff) auto
      ultimately show False using zdvd_not_zless [of "fst (rows ! (i + Suc j)) - fst (rows ! (i + j))" W] by simp
    qed
    ultimately have "l = i + Suc j" by simp
    then show ?case using l by simp
  qed (use i in simp)
  have "run_at W rows i m"
    unfolding run_at_def
  proof (intro conjI allI impI)
    have "i + (m - 1) < length rows" using same [of "m - 1"] assms(6) by simp
    then show "i + m \<le> length rows" by linarith
    show "snd (rows ! (i + j))" if "j < m" for j using same [OF that] that assms(5) by (simp add: run_at_def)
    show "fst (rows ! (i + j + 1)) - fst (rows ! (i + j)) = W" if "j + 1 < m" for j
      using same [of j] same [of "j + 1"] that assms(5) by (auto simp: run_at_def)
  qed
  then show ?thesis using i(2) by auto
qed

text \<open>
  A missing window can only hide a flag, never make one. If a campaign is flagged before its completion on some of the
  windows of its host, then it is flagged on all of them, no later, and always before the completing phase starts.
\<close>

lemma missing_windows_only_hide_flags:
  assumes "0 < m" "0 < W" "sorted_wrt (<) (map fst rows)" "\<forall>r \<in> set rows. W dvd fst r" "subseq rows' rows"
    "score_campaign campaign rows' threshold W m pre = Inr some" "score_campaign campaign rows threshold W m pre = Inr full"
    "cl_flag some = Some f"
  shows "\<exists>f'. cl_flag full = Some f' \<and> f' \<le> f \<and> f' < cl_completing full \<and> cl_lead full = Some (cl_completing full - f')"
proof -
  obtain completing where c: "completing_phase campaign = Inr completing"
    using assms(6) by (auto simp: score_campaign_def bind_res_eq_Inr)
  define P where "P = (\<lambda>(t, s :: flt). es_onset (hd campaign) - pre * 60 \<le> t \<and> t < es_onset completing)"
  define hits where "hits = map (\<lambda>(t, s). (t :: int, threshold \<le> s))"
  have fst_hits: "map fst (hits xs) = map fst xs" for xs by (auto simp: hits_def)
  have nth_hits: "fst (hits xs ! i) = fst (xs ! i)" if "i < length xs" for xs i using that by (simp add: hits_def case_prod_beta)
  have some: "cl_flag some = map_option (\<lambda>i. fst (filter P rows' ! i)) (the_first (\<lambda>k. run_at W (hits (filter P rows')) k m))"
    and full: "cl_flag full = map_option (\<lambda>i. fst (filter P rows ! i)) (the_first (\<lambda>k. run_at W (hits (filter P rows)) k m))"
      "cl_completing full = es_onset completing" "cl_lead full = map_option (\<lambda>f. es_onset completing - f) (cl_flag full)"
    using assms(6,7) c by (auto simp: score_campaign_def first_timed_run_spec [OF assms(1)] P_def hits_def Let_def)
  obtain k where k: "the_first (\<lambda>k. run_at W (hits (filter P rows')) k m) = Some k" "f = fst (filter P rows' ! k)"
    using assms(8) some by auto
  then have run: "run_at W (hits (filter P rows')) k m" using the_firstD by blast
  have "sorted_wrt (<) (map fst (hits (filter P rows)))"
    unfolding fst_hits using assms(3) by (simp add: sorted_wrt_map sorted_wrt_filter)
  moreover have "\<forall>r \<in> set (hits (filter P rows)). W dvd fst r" using assms(4) by (auto simp: hits_def)
  moreover have "set (hits (filter P rows')) \<subseteq> set (hits (filter P rows))"
    using subseq_set [OF assms(5)] by (auto simp: hits_def)
  ultimately obtain i where i: "run_at W (hits (filter P rows)) i m" "fst (hits (filter P rows) ! i) = fst (hits (filter P rows') ! k)"
    using run_survives [OF assms(2) _ _ _ run assms(1)] by blast
  obtain l where l: "the_first (\<lambda>k. run_at W (hits (filter P rows)) k m) = Some l"
    using the_first_ex [of "\<lambda>k. run_at W (hits (filter P rows)) k m", OF i(1)] by blast
  from the_firstD [OF l] have l': "run_at W (hits (filter P rows)) l m" "l \<le> i" using i(1) by (auto simp: not_less [symmetric])
  have len: "i < length (filter P rows)" "l < length (filter P rows)" "k < length (filter P rows')"
    using i(1) l'(1) run assms(1) by (auto simp: run_at_def hits_def)
  have "sorted (map fst (filter P rows))"
    using assms(3) by (intro strict_sorted_imp_sorted) (simp add: sorted_wrt_map sorted_wrt_filter)
  then have "fst (filter P rows ! l) \<le> fst (filter P rows ! i)"
    using sorted_nth_mono [of "map fst (filter P rows)" l i] l'(2) len by simp
  moreover have "fst (filter P rows ! i) = f" using i(2) k(2) nth_hits len by simp
  moreover have "P (filter P rows ! l)" using len(2) nth_mem by fastforce
  ultimately show ?thesis using full l by (auto simp: P_def case_prod_beta)
qed

lemma missing_windows_only_hide_flags_witness:
  "\<exists>full f'. score_campaign [demo_span ''a'' 0 60 ''recon'', demo_span ''a'' 600 660 ''c2'']
      [(0, Fin 1), (60, Fin 1), (120, Fin 1), (180, Fin 1)] (Fin (3 / 4)) 60 2 30 = Inr full \<and> cl_flag full = Some f' \<and> f' \<le> 120"
proof -
  let ?c = "[demo_span ''a'' 0 60 ''recon'', demo_span ''a'' 600 660 ''c2'']"
  let ?rows = "[(0, Fin 1), (60, Fin 1), (120, Fin 1), (180, Fin 1)] :: (int \<times> flt) list"
  let ?some = "[(0, Fin 1), (120, Fin 1), (180, Fin 1)] :: (int \<times> flt) list"
  have flag: "(case score_campaign ?c ?some (Fin (3 / 4)) 60 2 30 of Inl e \<Rightarrow> None | Inr a \<Rightarrow> cl_flag a) = Some 120" by code_simp
  have ok: "(case score_campaign ?c ?rows (Fin (3 / 4)) 60 2 30 of Inl e \<Rightarrow> False | Inr a \<Rightarrow> True)" by code_simp
  obtain some full where runs: "score_campaign ?c ?some (Fin (3 / 4)) 60 2 30 = Inr some" "cl_flag some = Some 120"
      "score_campaign ?c ?rows (Fin (3 / 4)) 60 2 30 = Inr full"
    using flag ok by (auto split: sum.splits)
  have "sorted_wrt (<) (map fst ?rows)" "\<forall>r \<in> set ?rows. 60 dvd fst r" "subseq ?some ?rows" by simp_all
  from missing_windows_only_hide_flags [OF _ _ this runs(1,3,2)] runs(3) show ?thesis by auto
qed

end
