(* ===== verification/FlowAssemble.thy ===== *)
theory FlowAssemble
  imports Tables "HOL-Library.Word"
begin

unbundle bit_operations_syntax

text \<open>
  \<open>ml/nidra/data/flow_assemble.py\<close>: flow records in the shape of CICFlowMeter's, rebuilt from packets. Times and
  lengths are rationals, as the floats are exact; a missing value is \<open>None\<close>. \<open>pd.to_numeric(errors="coerce")\<close> on a
  flag string is the parameter \<open>N\<close>.
\<close>

section \<open>Flags\<close>

definition FIN_BIT :: int where "FIN_BIT = 0x01"
definition SYN_BIT :: int where "SYN_BIT = 0x02"
definition RST_BIT :: int where "RST_BIT = 0x04"
definition PSH_BIT :: int where "PSH_BIT = 0x08"
definition ACK_BIT :: int where "ACK_BIT = 0x10"
definition URG_BIT :: int where "URG_BIT = 0x20"

definition DEFAULT_FLOW_TIMEOUT_S :: rat where "DEFAULT_FLOW_TIMEOUT_S = 120"
definition MIN_PACKETS_PER_FLOW :: nat where "MIN_PACKETS_PER_FLOW = 2"
definition FIN_CLOSES_FLOW_AT :: nat where "FIN_CLOSES_FLOW_AT = 2"
definition US :: rat where "US = 1000000"

text \<open>\<open>int(v, 16)\<close>: hexadecimal digits, with or without \<open>0x\<close>.\<close>

definition hex_digit :: "char \<Rightarrow> int option" where
  "hex_digit c = (let n = of_char c :: int in
     if 48 \<le> n \<and> n \<le> 57 then Some (n - 48) else if 97 \<le> n \<and> n \<le> 102 then Some (n - 87)
     else if 65 \<le> n \<and> n \<le> 70 then Some (n - 55) else None)"

fun hex_digits :: "int \<Rightarrow> string \<Rightarrow> int res" where
  "hex_digits acc [] = Inr acc"
| "hex_digits acc (c # s) = (case hex_digit c of None \<Rightarrow> Inl ValueError | Some d \<Rightarrow> hex_digits (16 * acc + d) s)"

definition hex_int :: "string \<Rightarrow> int res" where
  "hex_int s = (let d = (if take 2 s = ''0x'' \<or> take 2 s = ''0X'' then drop 2 s else s) in
     if d = [] then Inl ValueError else hex_digits 0 d)"

record flag_bits =
  fb_fin :: bool
  fb_syn :: bool
  fb_rst :: bool
  fb_psh :: bool
  fb_ack :: bool
  fb_urg :: bool

definition bits_of :: "int \<Rightarrow> flag_bits" where
  "bits_of n = \<lparr>fb_fin = n AND FIN_BIT \<noteq> 0, fb_syn = n AND SYN_BIT \<noteq> 0, fb_rst = n AND RST_BIT \<noteq> 0,
     fb_psh = n AND PSH_BIT \<noteq> 0, fb_ack = n AND ACK_BIT \<noteq> 0, fb_urg = n AND URG_BIT \<noteq> 0\<rparr>"

definition decode_flag_bits :: "(string \<Rightarrow> int option) \<Rightarrow> string option list \<Rightarrow> flag_bits list res" where
  "decode_flag_bits N flags =
     (let as_int = map (\<lambda>f. case f of None \<Rightarrow> 0 | Some s \<Rightarrow> (case N s of None \<Rightarrow> 0 | Some n \<Rightarrow> n)) flags in
      bind_res
        (if list_all (\<lambda>n. n = 0) as_int \<and> list_ex (\<lambda>f. f \<noteq> None) flags then
           traverse_res (\<lambda>f. let v = strip (case f of None \<Rightarrow> [] | Some s \<Rightarrow> s) in
             if v \<in> {[], ''0''} then Inr 0 else hex_int v) flags
         else Inr as_int)
        (\<lambda>ns. Inr (map bits_of ns)))"

section \<open>Packets and their connection\<close>

record packet =
  pk_src :: string
  pk_dst :: string
  pk_sport :: int
  pk_dport :: int
  pk_proto :: int
  pk_time :: rat
  pk_len :: "rat option"
  pk_bits :: flag_bits

definition flow_key :: "packet \<Rightarrow> string" where
  "flow_key p = (let a = pk_src p @ '':'' @ int_str (pk_sport p); b = pk_dst p @ '':'' @ int_str (pk_dport p);
     lo = (if a \<le> b then a else b); hi = (if a \<le> b then b else a)
   in lo @ ''|'' @ hi @ ''|'' @ int_str (pk_proto p))"

section \<open>Segments\<close>

record seg_state =
  sg_seg :: nat
  sg_dir :: nat
  sg_start :: rat
  sg_fins :: nat
  sg_closed :: bool

text \<open>The two halves of the body: opening a flow, and what the packet's flags do.\<close>

definition seg_open :: "rat \<Rightarrow> packet \<Rightarrow> seg_state \<Rightarrow> seg_state" where
  "seg_open timeout p st =
     (if sg_closed st \<or> timeout < pk_time p - sg_start st
      then \<lparr>sg_seg = sg_seg st + 1, sg_dir = (if sg_closed st then sg_dir st + 1 else sg_dir st), sg_start = pk_time p,
        sg_fins = 0, sg_closed = False\<rparr>
      else st)"

definition seg_flags :: "packet \<Rightarrow> seg_state \<Rightarrow> seg_state" where
  "seg_flags p st =
     (if fb_rst (pk_bits p) then st\<lparr>sg_closed := True\<rparr>
      else if fb_fin (pk_bits p) then st\<lparr>sg_fins := sg_fins st + 1, sg_closed := FIN_CLOSES_FLOW_AT \<le> sg_fins st + 1\<rparr>
      else st)"

fun segment_loop :: "rat \<Rightarrow> seg_state \<Rightarrow> packet list \<Rightarrow> (nat \<times> nat) list" where
  "segment_loop timeout st [] = []"
| "segment_loop timeout st (p # ps) =
     (let st1 = seg_open timeout p st in (sg_seg st1, sg_dir st1) # segment_loop timeout (seg_flags p st1) ps)"

definition segment_ids :: "packet list \<Rightarrow> rat \<Rightarrow> (nat \<times> nat) list" where
  "segment_ids ps timeout =
     (if ps = [] then []
      else segment_loop timeout \<lparr>sg_seg = 0, sg_dir = 0, sg_start = pk_time (hd ps), sg_fins = 0, sg_closed = False\<rparr> ps)"

section \<open>Flows\<close>

record flow_row =
  fl_src :: string
  fl_dst :: string
  fl_sport :: int
  fl_dport :: int
  fl_proto :: int
  fl_time :: rat
  fl_duration :: rat
  fl_fwd :: nat
  fl_bwd :: nat
  fl_len_fwd :: rat
  fl_len_bwd :: rat
  fl_syn :: nat
  fl_ack :: nat
  fl_rst :: nat
  fl_fin :: nat
  fl_psh :: nat
  fl_urg :: nat
  fl_iat_mean :: rat
  fl_iat_max :: rat

definition presence :: "(flag_bits \<Rightarrow> bool) \<Rightarrow> packet list \<Rightarrow> nat" where
  "presence f ps = (if list_ex (\<lambda>p. f (pk_bits p)) ps then 1 else 0)"

definition payload :: "packet \<Rightarrow> rat" where
  "payload p = (case pk_len p of None \<Rightarrow> 0 | Some x \<Rightarrow> x)"

text \<open>One flow: its packets in time order, and the first packet of its direction epoch.\<close>

definition flow_of :: "packet \<Rightarrow> packet list \<Rightarrow> flow_row" where
  "flow_of f ps =
     (let is_fwd = (\<lambda>p. pk_src p = pk_src f \<and> pk_sport p = pk_sport f);
          times = sort (map pk_time ps); gaps = map (\<lambda>(a, b). b - a) (zip times (tl times));
          fwd = filter is_fwd ps; bwd = filter (\<lambda>p. \<not> is_fwd p) ps
      in \<lparr>fl_src = pk_src f, fl_dst = pk_dst f, fl_sport = pk_sport f, fl_dport = pk_dport f, fl_proto = pk_proto (hd ps),
        fl_time = hd times, fl_duration = (last times - hd times) * US,
        fl_fwd = length fwd, fl_bwd = length ps - length fwd,
        fl_len_fwd = sum_list (map payload fwd), fl_len_bwd = sum_list (map payload bwd),
        fl_syn = presence fb_syn ps, fl_ack = presence fb_ack ps, fl_rst = presence fb_rst ps,
        fl_fin = presence fb_fin ps, fl_psh = presence fb_psh ps, fl_urg = presence fb_urg ps,
        fl_iat_mean = (if length ps < 2 then 0 else sum_list gaps / of_nat (length gaps) * US),
        fl_iat_max = (if length ps < 2 then 0 else Max (set gaps) * US)\<rparr>)"

text \<open>The flows of one connection, whose packets are in time order.\<close>

definition connection_flows :: "rat \<Rightarrow> packet list \<Rightarrow> (packet \<times> packet list) list" where
  "connection_flows timeout ps =
     (let tagged = zip (segment_ids ps timeout) ps in
      map (\<lambda>s. let mine = filter (\<lambda>((g, d), p). g = s) tagged; epoch = snd (fst (hd mine))
               in (snd (hd (filter (\<lambda>((g, d), p). d = epoch) tagged)), map snd mine))
        (firsts (map fst (segment_ids ps timeout))))"

definition all_flows :: "packet list \<Rightarrow> rat \<Rightarrow> (packet \<times> packet list) list" where
  "all_flows packets timeout =
     (let p = sort_key (\<lambda>p. (flow_key p, pk_time p)) packets in
      concat (map (\<lambda>k. connection_flows timeout (rows_of flow_key k p)) (firsts (map flow_key p))))"

text \<open>A packet as extracted, before the defaults are filled in.\<close>

record raw_packet =
  rp_src :: string
  rp_dst :: string
  rp_sport :: "int option"
  rp_dport :: "int option"
  rp_proto :: "int option"
  rp_time :: rat
  rp_len :: "rat option"
  rp_flags :: "string option"

definition fill_packet :: "raw_packet \<Rightarrow> flag_bits \<Rightarrow> packet" where
  "fill_packet r bits = (let zero = (\<lambda>v. case v of None \<Rightarrow> 0 | Some n \<Rightarrow> n) in
     \<lparr>pk_src = rp_src r, pk_dst = rp_dst r, pk_sport = zero (rp_sport r), pk_dport = zero (rp_dport r), pk_proto = zero (rp_proto r),
      pk_time = rp_time r, pk_len = rp_len r, pk_bits = bits\<rparr>)"

definition assemble_flows :: "(string \<Rightarrow> int option) \<Rightarrow> raw_packet list \<Rightarrow> rat \<Rightarrow> flow_row list res" where
  "assemble_flows N packets timeout =
     (if packets = [] then Inr []
      else bind_res (decode_flag_bits N (map rp_flags packets)) (\<lambda>bits.
        Inr (map (\<lambda>(f, ps). flow_of f ps)
          (filter (\<lambda>(f, ps). MIN_PACKETS_PER_FLOW \<le> length ps) (all_flows (map2 fill_packet packets bits) timeout)))))"

section \<open>What a flow is\<close>

text \<open>
  The reference: a flow ends with a reset or its second FIN, or before a packet that lies beyond the timeout
  from its first packet. Its direction is that of the first packet after the last teardown.
\<close>

definition fin_only :: "packet \<Rightarrow> bool" where
  "fin_only p \<longleftrightarrow> fb_fin (pk_bits p) \<and> \<not> fb_rst (pk_bits p)"

definition torn_down :: "packet list \<Rightarrow> bool" where
  "torn_down g \<longleftrightarrow> list_ex (\<lambda>p. fb_rst (pk_bits p)) g \<or> 2 \<le> length (filter fin_only g)"

fun cut_flows :: "rat \<Rightarrow> packet list \<Rightarrow> packet list \<Rightarrow> packet list list" where
  "cut_flows timeout g [] = [g]"
| "cut_flows timeout g (p # ps) =
     (if torn_down g \<or> timeout < pk_time p - pk_time (hd g) then g # cut_flows timeout [p] ps
      else cut_flows timeout (g @ [p]) ps)"

fun openers :: "packet \<Rightarrow> packet list list \<Rightarrow> (packet \<times> packet list) list" where
  "openers f [] = []"
| "openers f [g] = [(f, g)]"
| "openers f (g # h # gs) = (f, g) # openers (if torn_down g then hd h else f) (h # gs)"

text \<open>The numbering the loop produces.\<close>

fun numbered :: "nat \<Rightarrow> nat \<Rightarrow> packet list list \<Rightarrow> (nat \<times> nat) list" where
  "numbered s d [] = []"
| "numbered s d (g # gs) = replicate (length g) (s, d) @ numbered (s + 1) (if torn_down g then d + 1 else d) gs"

fun tagged :: "nat \<Rightarrow> nat \<Rightarrow> packet list list \<Rightarrow> ((nat \<times> nat) \<times> packet) list" where
  "tagged s d [] = []"
| "tagged s d (g # gs) = map (Pair (s, d)) g @ tagged (s + 1) (if torn_down g then d + 1 else d) gs"

definition seg_at :: "nat \<Rightarrow> nat \<Rightarrow> packet list \<Rightarrow> seg_state" where
  "seg_at s d g = \<lparr>sg_seg = s, sg_dir = d, sg_start = pk_time (hd g), sg_fins = length (filter fin_only g), sg_closed = torn_down g\<rparr>"

lemma seg_step_new:
  assumes "torn_down g \<or> T < pk_time p - pk_time (hd g)"
  shows "seg_flags p (seg_open T p (seg_at s d g)) = seg_at (s + 1) (if torn_down g then d + 1 else d) [p]"
  using assms by (auto simp: seg_open_def seg_flags_def seg_at_def torn_down_def fin_only_def FIN_CLOSES_FLOW_AT_def)

lemma seg_step_same:
  assumes "\<not> (torn_down g \<or> T < pk_time p - pk_time (hd g))" "g \<noteq> []"
  shows "seg_open T p (seg_at s d g) = seg_at s d g" "seg_flags p (seg_at s d g) = seg_at s d (g @ [p])"
  using assms by (auto simp: seg_open_def seg_flags_def seg_at_def torn_down_def fin_only_def FIN_CLOSES_FLOW_AT_def)

lemma segment_loop_numbered:
  "g \<noteq> [] \<Longrightarrow> replicate (length g) (s, d) @ segment_loop T (seg_at s d g) ps = numbered s d (cut_flows T g ps)"
proof (induction ps arbitrary: g s d)
  case (Cons p ps)
  show ?case
  proof (cases "torn_down g \<or> T < pk_time p - pk_time (hd g)")
    case True
    let ?d = "if torn_down g then d + 1 else d"
    have ids: "sg_seg (seg_open T p (seg_at s d g)) = s + 1" "sg_dir (seg_open T p (seg_at s d g)) = ?d"
      using True by (auto simp: seg_open_def seg_at_def)
    show ?thesis using Cons.IH [of "[p]" "s + 1" ?d] True seg_step_new [OF True, of s d] ids by (simp add: Let_def)
  next
    case False
    have ids: "sg_seg (seg_at s d g) = s" "sg_dir (seg_at s d g) = d" by (simp_all add: seg_at_def)
    show ?thesis using Cons.IH [of "g @ [p]" s d] False seg_step_same [OF False Cons.prems, of s d] ids
      by (simp add: Let_def replicate_append_same [symmetric])
  qed
qed simp

lemma segment_ids_numbered:
  assumes "0 \<le> T"
  shows "segment_ids (p # ps) T = numbered 0 0 (cut_flows T [p] ps)"
proof -
  let ?st = "\<lparr>sg_seg = 0, sg_dir = 0, sg_start = pk_time p, sg_fins = 0, sg_closed = False\<rparr>"
  have "seg_open T p ?st = ?st" using assms by (simp add: seg_open_def)
  moreover have "seg_flags p ?st = seg_at 0 0 [p]"
    by (simp add: seg_flags_def seg_at_def torn_down_def fin_only_def FIN_CLOSES_FLOW_AT_def)
  ultimately show ?thesis using segment_loop_numbered [of "[p]" 0 0 T ps] by (simp add: segment_ids_def Let_def)
qed

lemma cut_flows_props:
  "g \<noteq> [] \<Longrightarrow> concat (cut_flows T g ps) = g @ ps \<and> list_all (\<lambda>h. h \<noteq> []) (cut_flows T g ps) \<and> cut_flows T g ps \<noteq> [] \<and>
     (\<exists>h. hd (cut_flows T g ps) = g @ h)"
  by (induction T g ps rule: cut_flows.induct) auto

lemma zip_numbered: "zip (numbered s d gs) (concat gs) = tagged s d gs"
  by (induction gs arbitrary: s d) (auto simp: zip_append zip_replicate1)

lemma tagged_range: "x \<in> set (tagged s d gs) \<Longrightarrow> s \<le> fst (fst x) \<and> d \<le> snd (fst x)"
proof (induction gs arbitrary: s d)
  case (Cons g gs)
  then show ?case by (fastforce split: if_splits)
qed simp

lemma numbered_range: "x \<in> set (numbered s d gs) \<Longrightarrow> s \<le> fst x"
proof (induction gs arbitrary: s d)
  case (Cons g gs)
  then show ?case by (fastforce split: if_splits)
qed simp

lemma firsts_replicate: "0 < n \<Longrightarrow> x \<notin> set ys \<Longrightarrow> firsts (replicate n x @ ys) = x # firsts ys"
proof (induction n)
  case (Suc n)
  then show ?case by (cases n) (auto intro: filter_True)
qed simp

lemma upt_step: "[s..<s + length (g # gs)] = s # [s + 1..<s + 1 + length gs]"
  by (subst upt_conv_Cons) auto

lemma firsts_numbered: "list_all (\<lambda>g. g \<noteq> []) gs \<Longrightarrow> firsts (map fst (numbered s d gs)) = [s..<s + length gs]"
proof (induction gs arbitrary: s d)
  case (Cons g gs)
  have "s \<notin> set (map fst (numbered (s + 1) d' gs))" for d' using numbered_range [of _ "s + 1" d' gs] by force
  then show ?case using Cons firsts_replicate [of "length g" s] by (simp add: upt_step del: upt_Suc list.size(4))
qed simp

text \<open>One flow as \<open>connection_flows\<close> reads it off the tagged packets \<open>W\<close>.\<close>

definition flow_at :: "((nat \<times> nat) \<times> packet) list \<Rightarrow> nat \<Rightarrow> packet \<times> packet list" where
  "flow_at W s = (let mine = filter (\<lambda>((g, d), p). g = s) W; epoch = snd (fst (hd mine))
     in (snd (hd (filter (\<lambda>((g, d), p). d = epoch) W)), map snd mine))"

lemma flows_of_tagged:
  assumes "list_all (\<lambda>g. g \<noteq> []) gs" "\<forall>x \<in> set pre. fst (fst x) < s \<and> snd (fst x) \<le> d"
    "gs \<noteq> [] \<longrightarrow> snd (hd (filter (\<lambda>x. snd (fst x) = d) (pre @ tagged s d gs))) = f"
  shows "map (flow_at (pre @ tagged s d gs)) [s..<s + length gs] = openers f gs"
  using assms
proof (induction gs arbitrary: pre s d f)
  case (Cons g gs)
  let ?d = "if torn_down g then d + 1 else d"
  let ?pre = "pre @ map (Pair (s, d)) g"
  let ?W = "pre @ tagged s d (g # gs)"
  have W: "?W = ?pre @ tagged (s + 1) ?d gs" by simp
  have g: "g \<noteq> []" using Cons.prems(1) by simp
  have "filter (\<lambda>((a, b), p). a = s) pre = []" using Cons.prems(2) by (auto simp: filter_empty_conv)
  moreover have "filter (\<lambda>((a, b), p). a = s) (tagged (s + 1) ?d gs) = []"
    using tagged_range [of _ "s + 1" ?d gs] by (fastforce simp: filter_empty_conv)
  moreover have "filter (\<lambda>((a, b), p). a = s) (map (Pair (s, d)) g) = map (Pair (s, d)) g" by (simp add: filter_map o_def)
  ultimately have mine: "filter (\<lambda>((a, b), p). a = s) ?W = map (Pair (s, d)) g" by simp
  have first: "flow_at ?W s = (f, g)"
    unfolding flow_at_def mine Let_def using g Cons.prems(3) by (simp add: hd_map split_def o_def)
  have "map (flow_at (?pre @ tagged (s + 1) ?d gs)) [s + 1..<s + 1 + length gs] =
      openers (if torn_down g \<and> gs \<noteq> [] then hd (hd gs) else f) gs"
  proof (rule Cons.IH)
    show "list_all (\<lambda>g. g \<noteq> []) gs" using Cons.prems(1) by simp
    show "\<forall>x \<in> set ?pre. fst (fst x) < s + 1 \<and> snd (fst x) \<le> ?d" using Cons.prems(2) by force
    show "gs \<noteq> [] \<longrightarrow> snd (hd (filter (\<lambda>x. snd (fst x) = ?d) (?pre @ tagged (s + 1) ?d gs))) =
        (if torn_down g \<and> gs \<noteq> [] then hd (hd gs) else f)"
    proof (cases "torn_down g")
      case True
      have empty: "filter (\<lambda>x. snd (fst x) = ?d) ?pre = []" using Cons.prems(2) True by (force simp: filter_empty_conv)
      have "gs \<noteq> [] \<Longrightarrow> snd (hd (filter (\<lambda>x. snd (fst x) = ?d) (tagged (s + 1) ?d gs))) = hd (hd gs)"
        using Cons.prems(1) by (cases gs; cases "hd gs") auto
      then show ?thesis using True empty by (auto simp: filter_append)
    next
      case False
      then show ?thesis using Cons.prems(3) by simp
    qed
  qed
  then have rest: "map (flow_at ?W) [s + 1..<s + 1 + length gs] = openers (if torn_down g \<and> gs \<noteq> [] then hd (hd gs) else f) gs"
    by (simp only: W)
  have "map (flow_at ?W) [s..<s + length (g # gs)] = flow_at ?W s # map (flow_at ?W) [s + 1..<s + 1 + length gs]"
    by (simp only: upt_step list.map)
  then show ?case unfolding first rest by (cases gs) auto
qed simp

lemma connection_flows_cut:
  assumes "0 \<le> T"
  shows "connection_flows T (p # ps) = openers p (cut_flows T [p] ps)"
proof -
  let ?gs = "cut_flows T [p] ps"
  have gs: "concat ?gs = p # ps" "list_all (\<lambda>h. h \<noteq> []) ?gs" using cut_flows_props [of "[p]" T ps] by auto
  have zips: "zip (segment_ids (p # ps) T) (p # ps) = tagged 0 0 ?gs"
    using zip_numbered [of 0 0 ?gs] gs(1) segment_ids_numbered [OF assms] by simp
  have "firsts (map fst (segment_ids (p # ps) T)) = [0..<length ?gs]"
    using firsts_numbered [OF gs(2), of 0 0] segment_ids_numbered [OF assms] by simp
  then have "connection_flows T (p # ps) = map (flow_at (tagged 0 0 ?gs)) [0..<length ?gs]"
    unfolding connection_flows_def zips by (simp add: flow_at_def Let_def)
  moreover have "snd (hd (filter (\<lambda>x. snd (fst x) = 0) (tagged 0 0 ?gs))) = p"
  proof -
    obtain h hs where h: "?gs = (p # h) # hs" using cut_flows_props [of "[p]" T ps] by (cases ?gs) auto
    show ?thesis unfolding h by simp
  qed
  ultimately show ?thesis using flows_of_tagged [OF gs(2), of "[]" 0 0 p] by simp
qed

text \<open>
  C23. The loop that numbers segments is the plain reading of the rules: a flow ends with its reset or its second
  FIN, or before the first packet beyond the timeout from its own first packet, and it keeps the direction of the
  packet that opened the connection until a teardown.
\<close>
theorem flows_are_cut_at_teardowns:
  assumes "0 \<le> timeout"
  shows "connection_flows timeout (p # ps) = openers p (cut_flows timeout [p] ps)"
  using connection_flows_cut [OF assms] .

definition demo_packet :: "bool \<Rightarrow> rat \<Rightarrow> bool \<Rightarrow> bool \<Rightarrow> packet" where
  "demo_packet there t fin rst =
     \<lparr>pk_src = (if there then ''a'' else ''b''), pk_dst = (if there then ''b'' else ''a''), pk_sport = (if there then 1 else 2),
      pk_dport = (if there then 2 else 1), pk_proto = 6, pk_time = t, pk_len = None,
      pk_bits = \<lparr>fb_fin = fin, fb_syn = False, fb_rst = rst, fb_psh = False, fb_ack = False, fb_urg = False\<rparr>\<rparr>"

text \<open>A timeout keeps the direction of the client; the flow after a reset is the server's.\<close>

lemma flows_are_cut_at_teardowns_witness:
  "connection_flows 120 [demo_packet True 0 False False, demo_packet False 130 False True, demo_packet False 131 False False] =
     [(demo_packet True 0 False False, [demo_packet True 0 False False]),
      (demo_packet True 0 False False, [demo_packet False 130 False True]),
      (demo_packet False 131 False False, [demo_packet False 131 False False])]"
  by (subst flows_are_cut_at_teardowns) (simp_all add: torn_down_def fin_only_def demo_packet_def)

section \<open>Bounds and conservation\<close>

lemma map_snd_openers: "map snd (openers f gs) = gs"
  by (induction f gs rule: openers.induct) auto

lemma connection_flows_concat: "0 \<le> T \<Longrightarrow> concat (map snd (connection_flows T ps)) = ps"
proof (cases ps)
  case (Cons p qs)
  assume "0 \<le> T"
  then show ?thesis using cut_flows_props [of "[p]" T qs] by (simp add: Cons connection_flows_cut map_snd_openers)
qed (simp add: connection_flows_def segment_ids_def)

lemma cut_flows_bounded:
  assumes "0 \<le> T" "g \<noteq> []" "sorted (map pk_time (g @ ps))" "pk_time (last g) - pk_time (hd g) \<le> T" "h \<in> set (cut_flows T g ps)"
  shows "h \<noteq> [] \<and> sorted (map pk_time h) \<and> pk_time (last h) - pk_time (hd h) \<le> T \<and> set h \<subseteq> set (g @ ps)"
  using assms by (induction T g ps rule: cut_flows.induct) (auto simp: sorted_append split: if_splits)

text \<open>What holds of every flow of a table.\<close>

definition good_flow :: "rat \<Rightarrow> packet list \<Rightarrow> bool" where
  "good_flow T qs \<longleftrightarrow> qs \<noteq> [] \<and> sorted (map pk_time qs) \<and> pk_time (last qs) - pk_time (hd qs) \<le> T \<and>
     list_all (\<lambda>q. flow_key q = flow_key (hd qs)) qs"

lemma good_connection:
  assumes "0 \<le> T" "sorted (map pk_time ps)" "list_all (\<lambda>q. flow_key q = k) ps" "(f, qs) \<in> set (connection_flows T ps)"
  shows "good_flow T qs \<and> set qs \<subseteq> set ps"
proof (cases ps)
  case Nil
  then show ?thesis using assms by (simp add: connection_flows_def segment_ids_def)
next
  case (Cons p rest)
  have "qs \<in> set (cut_flows T [p] rest)"
    using assms(1,4) Cons connection_flows_cut map_snd_openers by (metis image_eqI list.set_map snd_conv)
  then have qs: "qs \<noteq> []" "sorted (map pk_time qs)" "pk_time (last qs) - pk_time (hd qs) \<le> T" "set qs \<subseteq> set ps"
    using cut_flows_bounded [of T "[p]" rest qs] assms(1,2) Cons by auto
  have key: "q \<in> set qs \<Longrightarrow> flow_key q = k" for q using qs(4) assms(3) by (auto simp: list_all_iff)
  show ?thesis using qs key [of "hd qs"] key by (auto simp: good_flow_def list_all_iff)
qed

lemma rows_of_time_sorted:
  "sorted (map pk_time (rows_of flow_key k (sort_key (\<lambda>p. (flow_key p, pk_time p)) packets)))"
proof -
  let ?r = "rows_of flow_key k (sort_key (\<lambda>p. (flow_key p, pk_time p)) packets)"
  have "sorted (map (\<lambda>p. (flow_key p, pk_time p)) ?r)" by (simp add: rows_of_def sorted_filter)
  moreover have "map (\<lambda>p. (flow_key p, pk_time p)) ?r = map (Pair k) (map pk_time ?r)" by (auto simp: rows_of_def)
  ultimately have "sorted (map (Pair k) (map pk_time ?r))" by simp
  then show ?thesis by (auto simp: sorted_map sorted_wrt_map less_eq_prod_def elim: sorted_wrt_mono_rel [rotated])
qed

lemma all_flows_good: "0 \<le> T \<Longrightarrow> (f, qs) \<in> set (all_flows packets T) \<Longrightarrow> good_flow T qs"
proof -
  assume T: "0 \<le> T" and "(f, qs) \<in> set (all_flows packets T)"
  then obtain k where "(f, qs) \<in> set (connection_flows T (rows_of flow_key k (sort_key (\<lambda>p. (flow_key p, pk_time p)) packets)))"
    by (auto simp: all_flows_def Let_def)
  then show "good_flow T qs"
    using good_connection [OF T rows_of_time_sorted [of k packets], of k f qs] by (auto simp: list_all_iff)
qed

lemma concat_map_snd: "concat (concat (map f xs)) = concat (map (\<lambda>x. concat (f x)) xs)"
  by (induction xs) auto

lemma all_flows_conserve:
  assumes "0 \<le> T"
  shows "mset (concat (map snd (all_flows packets T))) = mset packets"
proof -
  let ?p = "sort_key (\<lambda>p. (flow_key p, pk_time p)) packets" and ?ks = "\<lambda>xs. firsts (map flow_key xs)"
  have "concat (map snd (all_flows packets T)) = concat (map (\<lambda>k. concat (map snd (connection_flows T (rows_of flow_key k ?p)))) (?ks ?p))"
    by (simp add: all_flows_def Let_def map_concat o_def concat_map_snd)
  also have "\<dots> = concat (map (\<lambda>k. rows_of flow_key k ?p) (?ks ?p))" by (simp add: connection_flows_concat [OF assms])
  finally have "mset (concat (map snd (all_flows packets T))) = mset (filter (\<lambda>x. flow_key x \<in> set (?ks ?p)) ?p)"
    by (simp add: mset_rows_of)
  also have "filter (\<lambda>x. flow_key x \<in> set (?ks ?p)) ?p = ?p" by (rule filter_True) simp
  finally show ?thesis by simp
qed

lemma flow_of_bounds:
  assumes "good_flow T qs"
  shows "fl_fwd (flow_of f qs) + fl_bwd (flow_of f qs) = length qs \<and> 0 \<le> fl_duration (flow_of f qs) \<and>
    fl_duration (flow_of f qs) \<le> T * US"
proof -
  have s: "sort (map pk_time qs) = map pk_time qs" "qs \<noteq> []" "pk_time (last qs) - pk_time (hd qs) \<le> T"
    using assms by (auto simp: good_flow_def sorted_sort_id)
  have "pk_time (hd qs) \<le> pk_time (last qs)" using assms by (cases qs) (auto simp: good_flow_def)
  then show ?thesis using s by (simp add: flow_of_def Let_def hd_map last_map US_def)
qed

definition within_timeout :: "rat \<Rightarrow> flow_row \<Rightarrow> bool" where
  "within_timeout T r \<longleftrightarrow> 2 \<le> fl_fwd r + fl_bwd r \<and> 0 \<le> fl_duration r \<and> fl_duration r \<le> T * 1000000"

text \<open>
  Assembling loses no packet and invents none: the flows before filtering are a partition of the packets, every
  flow is in time order, belongs to one connection and spans at most the timeout; every published row has at least
  two packets and a duration of at most the timeout, in microseconds.
\<close>
lemma assembled_flows_are_bounded:
  assumes "0 \<le> timeout"
  shows "mset (concat (map snd (all_flows packets timeout))) = mset packets \<and>
    list_all (\<lambda>(f, qs). good_flow timeout qs) (all_flows packets timeout) \<and>
    (case assemble_flows N raws timeout of Inl e \<Rightarrow> e = ValueError | Inr rows \<Rightarrow> list_all (within_timeout timeout) rows)"
proof -
  have err: "hex_digits acc s = Inl e \<Longrightarrow> e = ValueError" for acc s e
    by (induction acc s rule: hex_digits.induct) (auto split: option.splits)
  then have hex: "hex_int s = Inl e \<Longrightarrow> e = ValueError" for s e by (auto simp: hex_int_def Let_def split: if_splits)
  have tr: "traverse_res g xs = Inl e \<Longrightarrow> \<exists>x \<in> set xs. g x = Inl e" for g :: "string option \<Rightarrow> int res" and xs e
    by (induction xs) (auto simp: bind_res_def split: sum.splits)
  have dec: "decode_flag_bits N fs = Inl e \<Longrightarrow> e = ValueError" for fs e
    by (auto simp: decode_flag_bits_def Let_def bind_res_def split: sum.splits if_splits option.splits dest!: tr hex)
  have rows: "(f, qs) \<in> set (all_flows ps timeout) \<Longrightarrow> MIN_PACKETS_PER_FLOW \<le> length qs \<Longrightarrow> within_timeout timeout (flow_of f qs)" for f qs ps
    using flow_of_bounds [OF all_flows_good [OF assms]] by (auto simp: within_timeout_def MIN_PACKETS_PER_FLOW_def US_def)
  show ?thesis
    using all_flows_conserve [OF assms] all_flows_good [OF assms] dec rows
    by (auto simp: list_all_iff assemble_flows_def bind_res_def split: sum.splits)
qed

lemma assembled_flows_are_bounded_witness:
  "list_all (\<lambda>(f, qs). good_flow 120 qs) (all_flows [demo_packet True 0 False False, demo_packet False 7 True False] 120)"
  using assembled_flows_are_bounded [of 120 "[demo_packet True 0 False False, demo_packet False 7 True False]" "\<lambda>s. None" "[]"] by simp

section \<open>Both halves of an exchange meet\<close>

definition reply :: "packet \<Rightarrow> packet" where
  "reply p = p\<lparr>pk_src := pk_dst p, pk_dst := pk_src p, pk_sport := pk_dport p, pk_dport := pk_sport p\<rparr>"

lemma flow_key_reply: "flow_key (reply p) = flow_key p"
  by (auto simp: flow_key_def reply_def Let_def)

end
