(* ===== verification/Dataset.thy ===== *)
theory Dataset
  imports Onsets Labels
begin

text \<open>
  \<open>ml/nidra/data/dataset.py\<close>: the samples of a labelled state table. A candidate is an origin with a full history of
  \<open>L\<close> windows and a full future of \<open>K\<close>; a capped set keeps every positive and weighs the negatives it drew. The draws
  of numpy's generator are a parameter with the laws of a draw without replacement and of a permutation. The feature
  vector is a field of the row.
\<close>

section \<open>Candidates\<close>

record candidate =
  cd_host :: string
  cd_t :: nat
  cd_risk :: int
  cd_active :: bool
  cd_attack :: bool
  cd_ts :: int

type_synonym 'f host_rows = "(string, 'f lrow list) dict"

definition is_active :: "rat list \<Rightarrow> bool" where
  "is_active feats \<longleftrightarrow> 0 < feats ! first_index ''is_active'' FEATURE_ORDER"

text \<open>Every origin \<open>t\<close> of a host with \<open>n\<close> rows and \<open>L - 1 \<le> t < n - K\<close>.\<close>

definition host_candidates :: "('f \<Rightarrow> rat list) \<Rightarrow> nat \<Rightarrow> nat \<Rightarrow> string \<times> 'f lrow list \<Rightarrow> candidate list" where
  "host_candidates feat L K = (\<lambda>(host, g).
     if int (length g) - int K < int L - 1 + 1 then []
     else map (\<lambda>t. \<lparr>cd_host = host, cd_t = t, cd_risk = lr_risk (g ! t), cd_active = is_active (feat (lr_feat (g ! t))),
                    cd_attack = is_attack (g ! t), cd_ts = lr_ts (g ! t)\<rparr>) [L - 1..<length g - K])"

definition enumerate_candidates :: "('f \<Rightarrow> rat list) \<Rightarrow> 'f lrow list \<Rightarrow> nat \<Rightarrow> nat \<Rightarrow> 'f host_rows \<times> candidate list" where
  "enumerate_candidates feat table L K =
     (let df = by_host_ts table; per_host = map (\<lambda>h. (h, rows_of lr_host h df)) (firsts (map lr_host df))
      in (per_host, concat (map (host_candidates feat L K) per_host)))"

section \<open>Samples\<close>

record sample =
  sm_X :: "rat list list"
  sm_Y :: "rat list list"
  sm_host :: string
  sm_origin :: int
  sm_episode :: int
  sm_stage :: string
  sm_risk :: int
  sm_future_stage :: "nat list"
  sm_future_attack :: "nat list"
  sm_weight :: "rat option"
  sm_geometry :: "geometry option"

type_synonym lookup = "(string, (int \<times> int \<times> nat) list) dict"

definition episode_lookup :: "'f lrow list \<Rightarrow> lookup" where
  "episode_lookup df =
     (let episodes = map (\<lambda>(eid, h, s, e). (h, s, e, eid)) (enumerate 0 (find_episodes df))
      in map (\<lambda>h. (h, sort (map snd (rows_of fst h episodes)))) (firsts (map fst episodes)))"

fun episode_scan_at :: "(int \<times> int \<times> nat) list \<Rightarrow> int \<Rightarrow> int" where
  "episode_scan_at [] ts = - 1"
| "episode_scan_at ((start, stop, eid) # rest) ts =
     (if start \<le> ts \<and> ts \<le> stop then int eid else if ts < start then - 1 else episode_scan_at rest ts)"

definition episode_id_at :: "lookup \<Rightarrow> string \<Rightarrow> int \<Rightarrow> int" where
  "episode_id_at lookup host ts = episode_scan_at (dict_get lookup host []) ts"

text \<open>\<open>xs[lo:hi]\<close>.\<close>

definition slice :: "nat \<Rightarrow> nat \<Rightarrow> 'a list \<Rightarrow> 'a list" where
  "slice lo hi xs = take (hi - lo) (drop lo xs)"

definition sample_at :: "('f \<Rightarrow> rat list) \<Rightarrow> 'f host_rows \<Rightarrow> nat \<Rightarrow> nat \<Rightarrow> lookup \<Rightarrow> candidate \<Rightarrow> sample" where
  "sample_at feat per_host L K lookup c =
     (let g = dict_get per_host (cd_host c) []; t = cd_t c; ahead = slice (t + 1) (t + 1 + K) g; origin_ts = lr_ts (g ! t)
      in \<lparr>sm_X = map (feat \<circ> lr_feat) (slice (t + 1 - L) (t + 1) g), sm_Y = map (feat \<circ> lr_feat) ahead, sm_host = cd_host c,
          sm_origin = origin_ts, sm_episode = episode_id_at lookup (cd_host c) origin_ts, sm_stage = lr_stage (g ! t), sm_risk = lr_risk (g ! t),
          sm_future_stage = map (\<lambda>r. STAGE_INDEX (lr_stage r)) ahead, sm_future_attack = map (\<lambda>r. if is_attack r then 1 else 0) ahead,
          sm_weight = None, sm_geometry = None\<rparr>)"

definition materialize :: "('f \<Rightarrow> rat list) \<Rightarrow> 'f host_rows \<times> candidate list \<Rightarrow> nat list \<Rightarrow> nat \<Rightarrow> nat \<Rightarrow> lookup \<Rightarrow> sample list" where
  "materialize feat candidates select L K lookup =
     map (\<lambda>i. sample_at feat (fst candidates) L K lookup (snd candidates ! i)) select"

section \<open>Capping\<close>

record rng =
  rg_choice :: "nat list \<Rightarrow> nat \<Rightarrow> nat list"
  rg_shuffle :: "nat list \<Rightarrow> nat list"

text \<open>\<open>choice(replace=False)\<close> and \<open>shuffle\<close>.\<close>

locale rng_laws =
  fixes R :: rng
  assumes choice: "n \<le> length xs \<Longrightarrow> distinct xs \<Longrightarrow> distinct (rg_choice R xs n) \<and> set (rg_choice R xs n) \<subseteq> set xs \<and> length (rg_choice R xs n) = n"
    and shuffle: "mset (rg_shuffle R xs) = mset xs"
begin

lemma shuffled: "set (rg_shuffle R xs) = set xs" "length (rg_shuffle R xs) = length xs" "distinct (rg_shuffle R xs) \<longleftrightarrow> distinct xs"
  using shuffle [of xs] by (metis mset_eq_setD, metis mset_eq_length, metis mset_eq_imp_distinct_iff)

end

definition first_draw :: rng where
  "first_draw = \<lparr>rg_choice = (\<lambda>xs n. take n xs), rg_shuffle = id\<rparr>"

interpretation first_draw: rng_laws first_draw
  by unfold_locales (auto simp: first_draw_def set_take_subset)

definition class_indices :: "int list \<Rightarrow> int \<Rightarrow> nat list" where
  "class_indices risk y = filter (\<lambda>i. risk ! i = y) [0..<length risk]"

text \<open>The selected candidates and the weight of each candidate.\<close>

definition capped_selection :: "rng \<Rightarrow> int list \<Rightarrow> nat \<Rightarrow> (nat list \<times> (nat \<Rightarrow> rat)) res" where
  "capped_selection R risk max_samples =
     (let pos_idx = class_indices risk 1; neg_idx = class_indices risk 0 in
      if max_samples \<le> length pos_idx then
        let keep = rg_choice R pos_idx max_samples in
        if keep = [] then Inl ZeroDivisionError
        else Inr (rg_shuffle R keep, \<lambda>i. if i \<in> set keep then of_nat (length pos_idx) / of_nat (length keep) else 1)
      else
        let neg_sample = rg_choice R neg_idx (min (max_samples - length pos_idx) (length neg_idx))
        in Inr (rg_shuffle R (pos_idx @ neg_sample),
             \<lambda>i. if i \<in> set neg_sample then of_nat (length neg_idx) / of_nat (max (length neg_sample) 1) else 1))"

definition build_windowed_arrays :: "rng \<Rightarrow> ('f \<Rightarrow> rat list) \<Rightarrow> 'f lrow list \<Rightarrow> nat \<Rightarrow> nat \<Rightarrow> nat option \<Rightarrow> sample list res" where
  "build_windowed_arrays R feat labelled_state_table L K max_samples =
     (if labelled_state_table = [] then Inr []
      else
        let df = by_host_ts labelled_state_table; lookup = episode_lookup df; candidates = enumerate_candidates feat df L K; n = length (snd candidates) in
        if n = 0 then Inr []
        else bind_res (case max_samples of
              Some m \<Rightarrow> if m < n then capped_selection R (map cd_risk (snd candidates)) m else Inr ([0..<n], \<lambda>i. 1)
            | None \<Rightarrow> Inr ([0..<n], \<lambda>i. 1)) (\<lambda>(select, weight).
          let arrays = materialize feat candidates select L K lookup in
          bind_res (infer_window_seconds df) (\<lambda>window_seconds.
          let geo = episode_geometry df (map (\<lambda>i. (cd_host (snd candidates ! i), cd_ts (snd candidates ! i))) select) window_seconds DEFAULT_MERGE_GAP_WINDOWS
          in Inr (map (\<lambda>(s, i, g). s\<lparr>sm_weight := Some (weight i), sm_geometry := Some g\<rparr>) (zip arrays (zip select geo))))))"

definition subsample_stratified_by_risk :: "rng \<Rightarrow> sample list \<Rightarrow> nat option \<Rightarrow> sample list" where
  "subsample_stratified_by_risk R arrays max_n =
     (case max_n of None \<Rightarrow> arrays
      | Some m \<Rightarrow>
          if length arrays \<le> m then arrays
          else
            let pos_idx = class_indices (map sm_risk arrays) 1; neg_idx = class_indices (map sm_risk arrays) 0;
                idx = (if m \<le> length pos_idx then rg_choice R pos_idx m
                       else pos_idx @ rg_choice R neg_idx (min (m - length pos_idx) (length neg_idx)))
            in map (\<lambda>i. arrays ! i) (rg_shuffle R idx))"

section \<open>A sample is a slice of its host\<close>

lemma sorted_three_parts:
  assumes "sorted (map f xs)"
  shows "xs = filter (\<lambda>x. f x < (h :: 'k :: linorder)) xs @ filter (\<lambda>x. f x = h) xs @ filter (\<lambda>x. h < f x) xs"
  using assms
proof (induction xs)
  case (Cons x xs)
  have "filter (\<lambda>y. f y < h) xs = []" if "h \<le> f x" using Cons.prems that by (auto simp: filter_empty_conv)
  moreover have "filter (\<lambda>y. f y = h) xs = []" if "h < f x" using Cons.prems that by (auto simp: filter_empty_conv)
  ultimately show ?case using Cons by (cases "f x" h rule: linorder_cases) auto
qed simp

lemma by_host_sorted: "sorted (map lr_host (by_host_ts rows))"
proof -
  have "sorted (map fst (map (\<lambda>r. (lr_host r, lr_ts r)) (by_host_ts rows)))"
    using by_host_ts_sorted [of rows] by (auto simp: sorted_iff_nth_mono less_eq_prod_def intro: less_imp_le)
  then show ?thesis by (simp add: comp_def)
qed

text \<open>The rows of one host are a block of the sorted table.\<close>

lemma host_block:
  fixes rows :: "'f lrow list"
  defines "df \<equiv> by_host_ts rows"
  obtains b where "b + length (rows_of lr_host h df) \<le> length df"
    "\<And>t. t < length (rows_of lr_host h df) \<Longrightarrow> df ! (b + t) = rows_of lr_host h df ! t"
    "\<And>j. j < length df \<Longrightarrow> lr_host (df ! j) = h \<longleftrightarrow> b \<le> j \<and> j < b + length (rows_of lr_host h df)"
proof -
  define A where "A = filter (\<lambda>x. lr_host x < h) df"
  define B where "B = filter (\<lambda>x. h < lr_host x) df"
  define g where "g = rows_of lr_host h df"
  have df: "df = A @ g @ B"
    using sorted_three_parts [OF by_host_sorted [of rows], of h] by (simp add: A_def B_def g_def rows_of_def df_def)
  have parts: "x \<in> set A \<Longrightarrow> lr_host x \<noteq> h" "x \<in> set g \<Longrightarrow> lr_host x = h" "x \<in> set B \<Longrightarrow> lr_host x \<noteq> h" for x
    by (auto simp: A_def B_def g_def)
  have "lr_host (df ! j) = h \<longleftrightarrow> length A \<le> j \<and> j < length A + length g" if "j < length df" for j
  proof (cases "j < length A")
    case True
    then show ?thesis using parts(1) by (simp add: df nth_append)
  next
    case False
    then show ?thesis using parts(2,3) that by (cases "j < length A + length g") (simp_all add: df nth_append)
  qed
  moreover have "df ! (length A + t) = g ! t" if "t < length g" for t using that by (simp add: df nth_append)
  moreover have "length A + length g \<le> length df" by (simp add: df)
  ultimately show thesis using that by (simp add: g_def)
qed

lemma looks_ahead_in_host:
  fixes rows :: "'f lrow list"
  defines "df \<equiv> by_host_ts rows"
  assumes "lr_host (df ! (b + t)) = h" "t < length g"
    and b: "\<And>t. t < length g \<Longrightarrow> df ! (b + t) = g ! t" "b + length g \<le> length df"
    and h: "\<And>j. j < length df \<Longrightarrow> lr_host (df ! j) = h \<longleftrightarrow> b \<le> j \<and> j < b + length g"
  shows "looks_ahead K df (b + t) \<longleftrightarrow> (\<exists>j. t < j \<and> j \<le> t + K \<and> j < length g \<and> is_attack (g ! j))"
proof
  assume "looks_ahead K df (b + t)"
  then obtain j where j: "b + t < j" "j \<le> b + t + K" "j < length df" "lr_host (df ! j) = h" "is_attack (df ! j)"
    using assms(2) by (auto simp: looks_ahead_def)
  then have "j < b + length g" using h by blast
  then show "\<exists>j. t < j \<and> j \<le> t + K \<and> j < length g \<and> is_attack (g ! j)"
    using j b(1) [of "j - b"] by (intro exI [of _ "j - b"]) auto
next
  assume "\<exists>j. t < j \<and> j \<le> t + K \<and> j < length g \<and> is_attack (g ! j)"
  then obtain j where j: "t < j" "j \<le> t + K" "j < length g" "is_attack (g ! j)" by blast
  then show "looks_ahead K df (b + t)"
    unfolding looks_ahead_def using assms(2) b h [of "b + j"] by (intro exI [of _ "b + j"]) auto
qed

lemma reattach_sorted: "by_host_ts (reattach_risk_label rows K) = reattach_risk_label rows K"
proof -
  have "map (\<lambda>r. (lr_host r, lr_ts r)) (reattach_risk_label rows K) = map (\<lambda>r. (lr_host r, lr_ts r)) (by_host_ts rows)"
    by (rule nth_equalityI) (simp_all add: reattach_nth)
  then show ?thesis unfolding by_host_ts_def [of "reattach_risk_label rows K"] using by_host_ts_sorted [of rows]
    by (intro sort_key_id_if_sorted) simp
qed

text \<open>The rows of a host after labelling are those before, each labelled by its own future.\<close>

lemma labelled_host_rows:
  fixes rows :: "'f lrow list"
  assumes g_def: "g = rows_of lr_host h (by_host_ts rows)" and g'_def: "g' = rows_of lr_host h (reattach_risk_label rows K)"
  shows "length g' = length g"
    "t < length g \<Longrightarrow> g' ! t = (g ! t)\<lparr>lr_risk := (if \<exists>j. t < j \<and> j \<le> t + K \<and> j < length g \<and> is_attack (g ! j) then 1 else 0)\<rparr>"
proof -
  let ?df = "by_host_ts rows" and ?r = "reattach_risk_label rows K"
  obtain b where b: "b + length g \<le> length ?df" "\<And>t. t < length g \<Longrightarrow> ?df ! (b + t) = g ! t"
    "\<And>j. j < length ?df \<Longrightarrow> lr_host (?df ! j) = h \<longleftrightarrow> b \<le> j \<and> j < b + length g"
    using host_block [of h rows] unfolding g_def by blast
  obtain c where c: "c + length g' \<le> length ?r" "\<And>t. t < length g' \<Longrightarrow> ?r ! (c + t) = g' ! t"
    "\<And>j. j < length ?r \<Longrightarrow> lr_host (?r ! j) = h \<longleftrightarrow> c \<le> j \<and> j < c + length g'"
    using host_block [of h ?r] unfolding g'_def reattach_sorted by blast
  note nth = reattach_nth [where rows = rows and K = K]
  have same: "b \<le> j \<and> j < b + length g \<longleftrightarrow> c \<le> j \<and> j < c + length g'" if "j < length ?df" for j
    using b(3) [OF that] c(3) [of j] nth that by simp
  have len: "length g = length g'"
  proof -
    have "{j. j < length ?df \<and> b \<le> j \<and> j < b + length g} = {b..<b + length g}" "{j. j < length ?df \<and> c \<le> j \<and> j < c + length g'} = {c..<c + length g'}"
      using b(1) c(1) nth(1) by auto
    moreover have "{j. j < length ?df \<and> b \<le> j \<and> j < b + length g} = {j. j < length ?df \<and> c \<le> j \<and> j < c + length g'}" using same by blast
    ultimately have "{b..<b + length g} = {c..<c + length g'}" by simp
    then have "card {b..<b + length g} = card {c..<c + length g'}" by simp
    then show ?thesis by simp
  qed
  then show "length g' = length g" by simp
  assume t: "t < length g"
  have "b = c"
  proof (rule antisym)
    show "b \<le> c" using same [of c] t len c(1) nth(1) by auto
    show "c \<le> b" using same [of b] t b(1) by auto
  qed
  have "lr_host (?df ! (b + t)) = h" using b(1,3) t by simp
  then have "looks_ahead K ?df (b + t) \<longleftrightarrow> (\<exists>j. t < j \<and> j \<le> t + K \<and> j < length g \<and> is_attack (g ! j))"
    by (rule looks_ahead_in_host [OF _ t b(2,1,3)])
  then show "g' ! t = (g ! t)\<lparr>lr_risk := (if \<exists>j. t < j \<and> j \<le> t + K \<and> j < length g \<and> is_attack (g ! j) then 1 else 0)\<rparr>"
    using nth(2) [of "b + t"] c(2) [of t] b(1) b(2) [OF t] t len \<open>b = c\<close> by simp
qed

lemma set_slice_ahead: "x \<in> set (slice (t + 1) (t + 1 + K) g) \<longleftrightarrow> (\<exists>j. t < j \<and> j \<le> t + K \<and> j < length g \<and> x = g ! j)"
proof
  assume "x \<in> set (slice (t + 1) (t + 1 + K) g)"
  then obtain k where "k < K" "t + 1 + k < length g" "x = g ! (t + 1 + k)" by (auto simp: slice_def in_set_conv_nth)
  then show "\<exists>j. t < j \<and> j \<le> t + K \<and> j < length g \<and> x = g ! j" by (intro exI [of _ "t + 1 + k"]) auto
next
  assume "\<exists>j. t < j \<and> j \<le> t + K \<and> j < length g \<and> x = g ! j"
  then obtain j where "t < j" "j \<le> t + K" "j < length g" "x = g ! j" by blast
  then show "x \<in> set (slice (t + 1) (t + 1 + K) g)" by (auto simp: slice_def in_set_conv_nth intro!: exI [of _ "j - t - 1"])
qed

lemma slice_append: "a \<le> b \<Longrightarrow> b \<le> c \<Longrightarrow> slice a b xs @ slice b c xs = slice a c xs"
proof -
  assume "a \<le> b" "b \<le> c"
  then have "take (c - a) (drop a xs) = take (b - a) (drop a xs) @ take (c - b) (drop (b - a) (drop a xs))"
    using take_add [of "b - a" "c - b" "drop a xs"] by simp
  then show ?thesis using \<open>a \<le> b\<close> by (simp add: slice_def)
qed

text \<open>What a sample of a host says, over the rows of the host before labelling.\<close>

definition true_sample :: "('f \<Rightarrow> rat list) \<Rightarrow> 'f lrow list \<Rightarrow> nat \<Rightarrow> nat \<Rightarrow> sample \<Rightarrow> bool" where
  "true_sample feat rows L K s \<longleftrightarrow> length (sm_X s) = L \<and> length (sm_Y s) = K \<and> length (sm_future_attack s) = K \<and>
     sm_risk s = (if 1 \<in> set (sm_future_attack s) then 1 else 0) \<and>
     sm_future_attack s = map (\<lambda>i. if i = 0 then 0 else 1) (sm_future_stage s) \<and>
     (\<exists>i g. g = rows_of lr_host (sm_host s) (by_host_ts rows) \<and> i + L + K \<le> length g \<and>
        sm_X s @ sm_Y s = map (feat \<circ> lr_feat) (slice i (i + L + K) g) \<and> sm_origin s = lr_ts (g ! (i + L - 1)) \<and>
        sm_stage s = lr_stage (g ! (i + L - 1)) \<and> sm_future_stage s = map (\<lambda>r. STAGE_INDEX (lr_stage r)) (slice (i + L) (i + L + K) g))"

lemma stage_index_zero: "STAGE_INDEX s = 0 \<longleftrightarrow> s = ''benign''"
  by (simp add: STAGE_INDEX_def first_index_def STAGES_def)

lemma map_slice: "map f (slice a b xs) = slice a b (map f xs)"
  by (simp add: slice_def take_map drop_map)

lemma sample_at_true:
  fixes rows :: "'f lrow list" and feat :: "'f \<Rightarrow> rat list"
  assumes L: "1 \<le> L" and c: "c \<in> set (host_candidates feat L K (h, rows_of lr_host h (reattach_risk_label rows K)))"
    and ph: "dict_get per_host h [] = rows_of lr_host h (reattach_risk_label rows K)"
  shows "true_sample feat rows L K (sample_at feat per_host L K lookup c)"
proof -
  let ?g = "rows_of lr_host h (by_host_ts rows)" and ?g' = "rows_of lr_host h (reattach_risk_label rows K)"
  note lab = labelled_host_rows [OF refl refl, where h = h and rows = rows and K = K]
  have erase: "map (\<lambda>r. r\<lparr>lr_risk := 0\<rparr>) ?g' = map (\<lambda>r. r\<lparr>lr_risk := 0\<rparr>) ?g" using lab by (intro nth_equalityI) simp_all
  have f: "map f ?g' = map f ?g" if "\<And>r. f (r\<lparr>lr_risk := 0\<rparr>) = f r" for f :: "'f lrow \<Rightarrow> 'x"
  proof -
    have "map f xs = map f (map (\<lambda>r. r\<lparr>lr_risk := 0\<rparr>) xs)" for xs :: "'f lrow list" by (simp add: that)
    then show ?thesis using erase by metis
  qed
  obtain t where t: "L - 1 \<le> t" "t + K < length ?g" "cd_host c = h" "cd_t c = t"
    using c lab(1) by (auto simp: host_candidates_def less_diff_conv split: if_splits)
  let ?s = "sample_at feat per_host L K lookup c"
  have parts: "sm_X ?s = map (feat \<circ> lr_feat) (slice (t + 1 - L) (t + 1) ?g)" "sm_Y ?s = map (feat \<circ> lr_feat) (slice (t + 1) (t + 1 + K) ?g)"
    "sm_host ?s = h" "sm_origin ?s = lr_ts (?g ! t)" "sm_stage ?s = lr_stage (?g ! t)"
    "sm_future_stage ?s = map (\<lambda>r. STAGE_INDEX (lr_stage r)) (slice (t + 1) (t + 1 + K) ?g)"
    "sm_future_attack ?s = map (\<lambda>r. if is_attack r then 1 else 0) (slice (t + 1) (t + 1 + K) ?g)"
    "sm_risk ?s = (if \<exists>j. t < j \<and> j \<le> t + K \<and> j < length ?g \<and> is_attack (?g ! j) then 1 else 0)"
    using t lab(2) [of t] ph by (simp_all add: sample_at_def Let_def map_slice f is_attack_def)
  have i: "t + 1 - L + L = t + 1" using t L by simp
  have "1 \<in> set (sm_future_attack ?s) \<longleftrightarrow> (\<exists>j. t < j \<and> j \<le> t + K \<and> j < length ?g \<and> is_attack (?g ! j))"
    unfolding parts set_map using set_slice_ahead [of _ t K ?g] by (auto simp: image_iff)
  moreover have "sm_X ?s @ sm_Y ?s = map (feat \<circ> lr_feat) (slice (t + 1 - L) (t + 1 - L + L + K) ?g)"
    unfolding parts i map_append [symmetric] by (subst slice_append) auto
  moreover have "length (sm_X ?s) = L" "length (sm_Y ?s) = K" "length (sm_future_attack ?s) = K" using t L by (simp_all add: parts slice_def)
  moreover have "sm_future_attack ?s = map (\<lambda>i. if i = 0 then 0 else 1) (sm_future_stage ?s)" by (simp add: parts is_attack_def stage_index_zero)
  ultimately show ?thesis
    unfolding true_sample_def using parts t i
    by (intro conjI exI [of _ "t + 1 - L"] exI [of _ ?g]) simp_all
qed

lemma map_upt_nth: "map (\<lambda>i. f (xs ! i)) [0..<length xs] = map f xs"
  by (rule nth_equalityI) simp_all

lemma uncapped_samples:
  assumes "build_windowed_arrays R feat table L K None = Inr samples" "table \<noteq> []"
  obtains extend where "samples = map (\<lambda>(s, x). extend s x) (zip (map (sample_at feat (fst (enumerate_candidates feat table L K)) L K (episode_lookup (by_host_ts table)))
      (snd (enumerate_candidates feat table L K))) [0..<length samples])"
    "length samples = length (snd (enumerate_candidates feat table L K))"
    "\<And>s x. sm_host (extend s x) = sm_host s \<and> sm_origin (extend s x) = sm_origin s" "\<And>rows s x. true_sample feat rows L K (extend s x) = true_sample feat rows L K s"
proof -
  let ?c = "enumerate_candidates feat table L K" and ?lk = "episode_lookup (by_host_ts table)"
  have same: "enumerate_candidates feat (by_host_ts table) L K = ?c"
    by (simp add: enumerate_candidates_def by_host_ts_def Let_def sort_key_id_if_sorted)
  show thesis
  proof (cases "snd ?c = []")
    case True
    then have "samples = []" using assms by (simp add: build_windowed_arrays_def Let_def same)
    then show ?thesis using True that [of "\<lambda>s x. s"] by simp
  next
    case False
    then obtain W where W: "samples = map (\<lambda>(s, i, g). s\<lparr>sm_weight := Some 1, sm_geometry := Some g\<rparr>)
        (zip (materialize feat ?c [0..<length (snd ?c)] L K ?lk) (zip [0..<length (snd ?c)]
          (episode_geometry (by_host_ts table) (map (\<lambda>i. (cd_host (snd ?c ! i), cd_ts (snd ?c ! i))) [0..<length (snd ?c)]) W DEFAULT_MERGE_GAP_WINDOWS)))"
      using assms by (auto simp: build_windowed_arrays_def Let_def same bind_res_eq_Inr)
    define geo where "geo = episode_geometry (by_host_ts table) (map (\<lambda>i. (cd_host (snd ?c ! i), cd_ts (snd ?c ! i))) [0..<length (snd ?c)]) W DEFAULT_MERGE_GAP_WINDOWS"
    have len: "length geo = length (snd ?c)" by (simp add: geo_def episode_geometry_def Let_def)
    have mat: "materialize feat ?c [0..<length (snd ?c)] L K ?lk = map (sample_at feat (fst ?c) L K ?lk) (snd ?c)"
      unfolding materialize_def by (rule map_upt_nth)
    have n: "length samples = length (snd ?c)" unfolding W geo_def [symmetric] mat by (simp add: len)
    show ?thesis
    proof (rule that [of "\<lambda>s x. s\<lparr>sm_weight := Some 1, sm_geometry := Some (geo ! x)\<rparr>"])
      show "samples = map (\<lambda>(s, x). s\<lparr>sm_weight := Some 1, sm_geometry := Some (geo ! x)\<rparr>)
          (zip (map (sample_at feat (fst ?c) L K ?lk) (snd ?c)) [0..<length samples])"
        unfolding n unfolding W geo_def [symmetric] mat by (rule nth_equalityI) (simp_all add: len)
      show "true_sample feat rows L K (s\<lparr>sm_weight := Some 1, sm_geometry := Some (geo ! x)\<rparr>) = true_sample feat rows L K s" for rows s x
        by (simp add: true_sample_def)
    qed (simp_all add: n)
  qed
qed

lemma map_zip_fst: "length ys = length xs \<Longrightarrow> (\<And>s x. f (h s x) = g s) \<Longrightarrow> map f (map (\<lambda>(s, x). h s x) (zip xs ys)) = map g xs"
  by (rule nth_equalityI) simp_all

text \<open>
  C29. A training sample is what it claims to be. Whatever labelled rows go in, every sample built from them holds the \<open>L\<close>
  successive rows of its host that end at its origin and the \<open>K\<close> that follow, its risk label is 1 exactly when one
  of those \<open>K\<close> is an attack, and every origin with a full history and future is there exactly once, host by host.
\<close>
theorem samples_carry_their_future:
  assumes "1 \<le> L" "rows \<noteq> []" "build_windowed_arrays R feat (reattach_risk_label rows K) L K None = Inr samples"
  shows "list_all (true_sample feat rows L K) samples \<and>
    map (\<lambda>s. (sm_host s, sm_origin s)) samples =
      concat (map (\<lambda>h. let g = rows_of lr_host h (by_host_ts rows) in map (\<lambda>t. (h, lr_ts (g ! t))) [L - 1..<length g - K])
        (firsts (map lr_host (by_host_ts rows))))"
proof -
  let ?r = "reattach_risk_label rows K"
  let ?c = "enumerate_candidates feat ?r L K" and ?lk = "episode_lookup (by_host_ts ?r)"
  have "length (by_host_ts rows) = length rows" by (simp add: by_host_ts_def)
  then have "?r \<noteq> []" using assms(2) reattach_nth(1) [of rows K] by force
  then obtain extend where ex: "samples = map (\<lambda>(s, x). extend s x) (zip (map (sample_at feat (fst ?c) L K ?lk) (snd ?c)) [0..<length samples])"
    "length samples = length (snd ?c)"
    "\<And>s x. sm_host (extend s x) = sm_host s \<and> sm_origin (extend s x) = sm_origin s" "\<And>rows s x. true_sample feat rows L K (extend s x) = true_sample feat rows L K s"
    using uncapped_samples [OF assms(3)] by metis
  let ?hosts = "firsts (map lr_host ?r)" and ?ph = "fst ?c"
  have c: "?ph = map (\<lambda>h. (h, rows_of lr_host h ?r)) ?hosts" "snd ?c = concat (map (host_candidates feat L K) ?ph)"
    by (simp_all add: enumerate_candidates_def Let_def reattach_sorted)
  have hosts: "map lr_host ?r = map lr_host (by_host_ts rows)"
    by (rule nth_equalityI) (simp_all add: reattach_nth)
  have cand: "\<exists>h. c \<in> set (host_candidates feat L K (h, rows_of lr_host h ?r)) \<and> dict_get ?ph h [] = rows_of lr_host h ?r" if "c \<in> set (snd ?c)" for c
    using that unfolding c(2) by (auto simp: c(1))
  have "true_sample feat rows L K (sample_at feat ?ph L K ?lk c)" if "c \<in> set (snd ?c)" for c
    using cand [OF that] sample_at_true [OF assms(1)] by blast
  moreover have "map (true_sample feat rows L K) samples = map (true_sample feat rows L K) (map (sample_at feat ?ph L K ?lk) (snd ?c))"
    by (subst ex(1), rule map_zip_fst) (simp_all add: ex(2,4))
  then have "true_sample feat rows L K ` set samples = true_sample feat rows L K ` set (map (sample_at feat ?ph L K ?lk) (snd ?c))"
    unfolding set_map [symmetric] by (rule arg_cong)
  ultimately have "\<forall>s \<in> set samples. true_sample feat rows L K s" by auto
  then have all: "list_all (true_sample feat rows L K) samples" by (simp add: list_all_iff)
  have 1: "map (\<lambda>s. (sm_host s, sm_origin s)) samples = map (\<lambda>s. (sm_host s, sm_origin s)) (map (sample_at feat ?ph L K ?lk) (snd ?c))"
    by (subst ex(1), rule map_zip_fst) (simp_all add: ex(2,3))
  have 3: "map (\<lambda>c. (sm_host (sample_at feat ?ph L K ?lk c), sm_origin (sample_at feat ?ph L K ?lk c))) (host_candidates feat L K (h, rows_of lr_host h ?r)) =
      (let g = rows_of lr_host h (by_host_ts rows) in map (\<lambda>t. (h, lr_ts (g ! t))) [L - 1..<length g - K])" if "h \<in> set ?hosts" for h
  proof -
    have ph: "dict_get ?ph h [] = rows_of lr_host h ?r" using that by (simp add: c(1))
    note lab = labelled_host_rows [OF refl refl, where h = h and rows = rows and K = K]
    have "L - 1 \<ge> length (rows_of lr_host h (by_host_ts rows)) - K" if "int (length (rows_of lr_host h (by_host_ts rows))) - int K < int L"
      using that by linarith
    then show ?thesis using assms(1) by (auto simp: host_candidates_def sample_at_def Let_def ph lab)
  qed
  have 2: "map (\<lambda>s. (sm_host s, sm_origin s)) (map f (snd ?c)) =
      concat (map (\<lambda>h. map (\<lambda>c. (sm_host (f c), sm_origin (f c))) (host_candidates feat L K (h, rows_of lr_host h ?r))) ?hosts)" for f
    unfolding c(2) c(1) by (simp add: map_concat comp_def)
  note trans [OF 1 trans [OF 2 arg_cong [of _ _ concat, OF map_cong [OF refl 3]]]]
  then show ?thesis using all unfolding hosts by simp
qed

definition demo_feats :: "string \<Rightarrow> int \<Rightarrow> string \<Rightarrow> rat list lrow" where
  "demo_feats h t s = \<lparr>lr_host = h, lr_ts = t, lr_feat = [], lr_stage = s, lr_risk = 0\<rparr>"

definition demo_rows :: "rat list lrow list" where
  "demo_rows = [demo_feats ''a'' 0 ''benign'', demo_feats ''a'' 60 ''benign'', demo_feats ''a'' 120 ''c2'', demo_feats ''a'' 180 ''benign'']"

lemma samples_carry_their_future_witness:
  "\<exists>samples. build_windowed_arrays first_draw id (reattach_risk_label demo_rows 1) 2 1 None = Inr samples \<and>
     list_all (true_sample id demo_rows 2 1) samples \<and> map (\<lambda>s. (sm_host s, sm_origin s)) samples = [(''a'', 60), (''a'', 120)]"
proof -
  have ne: "demo_rows \<noteq> []" by (simp add: demo_rows_def)
  have "case build_windowed_arrays first_draw id (reattach_risk_label demo_rows 1) 2 1 None of Inl e \<Rightarrow> False | Inr s \<Rightarrow> True"
    unfolding demo_rows_def demo_feats_def by code_simp
  then obtain samples where run: "build_windowed_arrays first_draw id (reattach_risk_label demo_rows 1) 2 1 None = Inr samples"
    by (auto split: sum.splits)
  have "by_host_ts demo_rows = demo_rows" unfolding demo_rows_def demo_feats_def by code_simp
  then have "concat (map (\<lambda>h. let g = rows_of lr_host h (by_host_ts demo_rows) in map (\<lambda>t. (h, lr_ts (g ! t))) [2 - 1..<length g - 1])
        (firsts (map lr_host (by_host_ts demo_rows)))) = [(''a'', 60), (''a'', 120)]"
    by (simp add: demo_rows_def demo_feats_def rows_of_def upt_rec)
  then show ?thesis using samples_carry_their_future [OF _ ne run] run by auto
qed

section \<open>A capped set keeps the prevalence\<close>

lemma class_indices: "distinct (class_indices risk y)" "set (class_indices risk y) = {i. i < length risk \<and> risk ! i = y}"
  by (auto simp: class_indices_def)

lemma two_classes: "\<forall>y \<in> set risk. y = 0 \<or> y = 1 \<Longrightarrow> length (class_indices risk 1) + length (class_indices risk 0) = length risk"
proof -
  assume "\<forall>y \<in> set risk. y = 0 \<or> y = 1"
  then have "class_indices risk 0 = filter (\<lambda>i. \<not> (risk ! i = 1)) [0..<length risk]"
    unfolding class_indices_def by (intro filter_cong) (use nth_mem in force)+
  then show ?thesis
    using sum_length_filter_compl [of "\<lambda>i. risk ! i = 1" "[0..<length risk]"] by (simp add: class_indices_def)
qed

lemma sum_list_weights:
  assumes "distinct xs" "\<And>i. i \<in> set xs \<Longrightarrow> f i = (c :: rat)"
  shows "sum_list (map f xs) = of_nat (length xs) * c"
proof -
  have "map f xs = map (\<lambda>i. c) xs" using assms(2) by simp
  then show ?thesis by (simp only:) (simp add: sum_list_triv)
qed

text \<open>
  Capping keeps every positive and the prevalence. From any labels in two classes, for any draws, a capped selection
  takes distinct candidates and at most the cap; when the positives fit under the cap it has all of them, each with
  weight 1, and the weights of what it selected add up to the whole population; otherwise it has positives only, whose
  weights add up to all positives.
\<close>
lemma capped_set_keeps_prevalence:
  assumes "rng_laws R" "list_all (\<lambda>y. y \<in> {0, 1}) risk" "m < length risk" "capped_selection R risk m = Inr (select, weight)"
  shows "distinct select \<and> set select \<subseteq> {..<length risk} \<and> length select \<le> m \<and>
    (if length (class_indices risk 1) < m
     then set (class_indices risk 1) \<subseteq> set select \<and> list_all (\<lambda>i. weight i = 1) (class_indices risk 1) \<and>
       sum_list (map weight select) = of_nat (length risk)
     else list_all (\<lambda>i. risk ! i = 1) select \<and> sum_list (map weight select) = of_nat (length (class_indices risk 1)))"
proof -
  let ?pos = "class_indices risk 1" and ?neg = "class_indices risk 0"
  note draw = rng_laws.choice [OF assms(1)] and shuffled = rng_laws.shuffled [OF assms(1)] and mset = rng_laws.shuffle [OF assms(1)]
  have both: "length ?pos + length ?neg = length risk" using assms(2) by (intro two_classes) (auto simp: list_all_iff)
  have sum: "sum_list (map f (rg_shuffle R xs)) = sum_list (map f xs)" for f :: "nat \<Rightarrow> rat" and xs
    by (metis mset mset_map sum_mset_sum_list)
  show ?thesis
  proof (cases "length ?pos < m")
    case True
    let ?n = "min (m - length ?pos) (length ?neg)"
    define ns where "ns = rg_choice R ?neg ?n"
    have ns: "distinct ns" "set ns \<subseteq> set ?neg" "length ns = ?n" using draw [of ?n ?neg] class_indices(1) by (auto simp: ns_def)
    have run: "select = rg_shuffle R (?pos @ ns)" "weight = (\<lambda>i. if i \<in> set ns then of_nat (length ?neg) / of_nat (max (length ns) 1) else 1)"
      using assms(4) True by (auto simp: capped_selection_def Let_def ns_def)
    have apart: "set ?pos \<inter> set ns = {}" using ns(2) by (auto simp: class_indices(2))
    have "sum_list (map weight ?pos) = of_nat (length ?pos)"
      by (rule trans [OF sum_list_weights [OF class_indices(1), where c = 1]]) (use apart in \<open>auto simp: run(2)\<close>)
    moreover have "0 < length ns" using True both assms(3) ns(3) by auto
    then have "max (length ns) 1 = length ns" "ns \<noteq> []" by (cases ns; simp)+
    then have "sum_list (map weight ns) = of_nat (length ?neg)"
      by (intro trans [OF sum_list_weights [OF ns(1), where c = "of_nat (length ?neg) / of_nat (length ns)"]]) (simp_all add: run(2))
    ultimately have "sum_list (map weight select) = of_nat (length risk)" unfolding run(1) sum both [symmetric] by simp
    then show ?thesis
      using True ns apart class_indices [of risk] shuffled(1,2) [of "?pos @ ns"] shuffled(3) [of "?pos @ ns"]
      by (auto simp: run(1) list_all_iff) (auto simp: run(2))
  next
    case False
    define keep where "keep = rg_choice R ?pos m"
    have keep: "distinct keep" "set keep \<subseteq> set ?pos" "length keep = m" using draw [of m ?pos] class_indices(1) False by (auto simp: keep_def)
    have ne: "keep \<noteq> []" and run: "select = rg_shuffle R keep" "weight = (\<lambda>i. if i \<in> set keep then of_nat (length ?pos) / of_nat (length keep) else 1)"
      using assms(4) False by (auto simp: capped_selection_def Let_def keep_def split: if_splits)
    have "sum_list (map weight keep) = of_nat (length ?pos)"
      by (intro trans [OF sum_list_weights [OF keep(1), where c = "of_nat (length ?pos) / of_nat (length keep)"]]) (use ne in \<open>auto simp: run(2)\<close>)
    then show ?thesis
      using False keep class_indices [of risk] shuffled(1,2) [of keep] shuffled(3) [of keep]
      by (auto simp: run(1) sum list_all_iff)
  qed
qed

lemma capped_set_keeps_prevalence_witness:
  "\<exists>select weight. capped_selection first_draw [0, 1, 0, 0, 0] 3 = Inr (select, weight) \<and> set (class_indices [0, 1, 0, 0, 0 :: int] 1) \<subseteq> set select \<and>
     sum_list (map weight select) = 5"
proof -
  obtain select weight where run: "capped_selection first_draw [0, 1, 0, 0, 0] 3 = Inr (select, weight)"
    by (simp add: capped_selection_def Let_def class_indices_def upt_rec)
  have "class_indices [0, 1, 0, 0, 0 :: int] 1 = [1]" by (simp add: class_indices_def upt_rec)
  then show ?thesis using capped_set_keeps_prevalence [OF first_draw.rng_laws_axioms _ _ run] run by auto
qed

text \<open>A second cap does not weigh what it drops: the weights it keeps are those of the larger set.\<close>

lemma recapping_keeps_old_weights:
  assumes "rng_laws R" "list_all (\<lambda>s. sm_weight s = Some 1) arrays"
  shows "list_all (\<lambda>s. sm_weight s = Some 1) (subsample_stratified_by_risk R arrays max_n)"
proof -
  note draw = rng_laws.choice [OF assms(1)] and shuffled = rng_laws.shuffled [OF assms(1)]
  have known: "sm_weight (arrays ! i) = Some 1" if "i < length arrays" for i using assms(2) that by (simp add: list_all_length)
  have sub: "set (rg_choice R (class_indices (map sm_risk arrays) y) n) \<subseteq> {..<length arrays}" if "n \<le> length (class_indices (map sm_risk arrays) y)" for y n
    using draw [OF that class_indices(1)] class_indices(2) [of "map sm_risk arrays" y] by auto
  have "set (rg_choice R (class_indices (map sm_risk arrays) y) (min a (length (class_indices (map sm_risk arrays) y)))) \<subseteq> {..<length arrays}" for y a
    by (rule sub) simp
  moreover have "set (class_indices (map sm_risk arrays) y) \<subseteq> {..<length arrays}" for y by (auto simp: class_indices(2))
  ultimately show ?thesis using assms(2)
    by (auto simp: subsample_stratified_by_risk_def Let_def list_all_iff shuffled split: option.splits intro!: known) (use sub in blast)+
qed

end
