(* ===== verification/Pooling.thy ===== *)
theory Pooling
  imports Config Tables
begin

text \<open>
  \<open>ml/nidra/models/risk_pooling.py\<close>, \<open>ml/nidra/eval/calibrate.py\<close> and the parts of \<open>eval/operating_point.py\<close> and
  \<open>eval/systems.py\<close> that turn sampled risks into one score: how trajectories and heads are reduced, per-horizon Platt
  scaling, and when a fitted calibration may be used. Risks are exact rationals; one horizon of an array
  \<open>[heads, samples, K]\<close> is the list of its heads, each the list of its samples, with at least one sample. The logistic
  regression of a Platt fit is a parameter.
\<close>

section \<open>Pooling\<close>

definition avg :: "rat list \<Rightarrow> rat" where
  "avg xs = sum_list xs / of_nat (length xs)"

text \<open>\<open>np.quantile\<close> and \<open>torch.quantile\<close>: linear interpolation.\<close>

definition quantile :: "rat \<Rightarrow> rat list \<Rightarrow> rat" where
  "quantile q xs =
     (let s = sort xs; pos = q * of_nat (length s - 1); lo = nat \<lfloor>pos\<rfloor>; frac = pos - of_nat lo
      in if lo + 1 < length s then s ! lo + frac * (s ! (lo + 1) - s ! lo) else s ! (length s - 1))"

definition np_median :: "rat list \<Rightarrow> rat" where
  "np_median xs = (case median_rat xs of None \<Rightarrow> 0 | Some r \<Rightarrow> r)"

definition VALID_METHODS :: "string list" where
  "VALID_METHODS = [''mean'', ''quantile'']"

definition pool_trajectories_np :: "string \<Rightarrow> rat option \<Rightarrow> rat list \<Rightarrow> rat res" where
  "pool_trajectories_np method q r =
     (if method = ''mean'' then Inr (avg r)
      else if method = ''median'' then Inr (np_median r)
      else if method = ''quantile'' then (case q of None \<Rightarrow> Inl ValueError | Some x \<Rightarrow> Inr (quantile x r))
      else if method = ''max'' then Inr (Max (set r))
      else if method = ''p_above_half'' then Inr (avg (map (\<lambda>x. if 1 / 2 \<le> x then 1 else 0) r))
      else Inl ValueError)"

definition pool_risk_over_samples :: "string \<Rightarrow> rat \<Rightarrow> rat list \<Rightarrow> rat res" where
  "pool_risk_over_samples method q r =
     (if method = ''mean'' then Inr (avg r) else if method = ''quantile'' then Inr (quantile q r) else Inl ValueError)"

definition VALID_HEAD_REDUCTIONS :: "string list" where
  "VALID_HEAD_REDUCTIONS = [''before_pooling'', ''after_pooling'']"

text \<open>The mean over the heads of every trajectory.\<close>

definition head_mean :: "rat list list \<Rightarrow> rat list" where
  "head_mean heads = map (\<lambda>s. avg (map (\<lambda>h. h ! s) heads)) [0..<length (hd heads)]"

definition pool_ensemble_risk :: "string \<Rightarrow> rat \<Rightarrow> string \<Rightarrow> rat list list \<Rightarrow> rat res" where
  "pool_ensemble_risk method q head_reduction heads =
     (if head_reduction \<notin> set VALID_HEAD_REDUCTIONS then Inl ValueError
      else if head_reduction = ''before_pooling'' then pool_risk_over_samples method q (head_mean heads)
      else bind_res (traverse_res (pool_risk_over_samples method q) heads) (\<lambda>pooled. Inr (avg pooled)))"

section \<open>Calibration\<close>

record platt =
  pl_a :: rat
  pl_b :: rat
  pl_n :: nat
  pl_degenerate :: bool
  pl_extended :: "nat option"

definition EPS :: rat where "EPS = 1 / 1000000"

definition logit :: "pymath \<Rightarrow> rat \<Rightarrow> rat" where
  "logit M p = (let p_clipped = min (1 - EPS) (max EPS p) in m_log M (p_clipped / (1 - p_clipped)))"

definition sigmoid :: "pymath \<Rightarrow> rat \<Rightarrow> rat" where
  "sigmoid M x = 1 / (1 + m_exp M (- x))"

definition identity_platt :: "nat \<Rightarrow> platt" where
  "identity_platt n = \<lparr>pl_a = 1, pl_b = 0, pl_n = n, pl_degenerate = True, pl_extended = None\<rparr>"

text \<open>\<open>R\<close> is \<open>LogisticRegression.fit\<close>: slope and intercept of the samples, their labels and weights.\<close>

definition fit_platt :: "pymath \<Rightarrow> (rat list \<Rightarrow> int list \<Rightarrow> rat list option \<Rightarrow> rat \<times> rat) \<Rightarrow> rat list \<Rightarrow> int list \<Rightarrow> rat list option \<Rightarrow> platt" where
  "fit_platt M R probs labels sample_weight =
     (let n = length labels in
      if n = 0 \<or> length (remdups labels) < 2 then identity_platt n
      else let (a, b) = R (map (logit M) probs) labels sample_weight in
        if a \<le> 0 then identity_platt n else \<lparr>pl_a = a, pl_b = b, pl_n = n, pl_degenerate = False, pl_extended = None\<rparr>)"

definition apply_platt :: "pymath \<Rightarrow> platt \<Rightarrow> rat \<Rightarrow> rat" where
  "apply_platt M params p = sigmoid M (pl_a params * logit M p + pl_b params)"

definition fit_platt_by_horizon ::
    "pymath \<Rightarrow> (rat list \<Rightarrow> int list \<Rightarrow> rat list option \<Rightarrow> rat \<times> rat) \<Rightarrow> rat list list \<Rightarrow> int list list \<Rightarrow> nat \<Rightarrow> rat list option \<Rightarrow> platt list" where
  "fit_platt_by_horizon M R risk_mean_k future_is_attack K sample_weight =
     map (\<lambda>k. fit_platt M R (map (\<lambda>row. row ! k) risk_mean_k) (map (\<lambda>row. row ! k) future_is_attack) sample_weight) [0..<K]"

definition apply_platt_by_horizon :: "pymath \<Rightarrow> platt list \<Rightarrow> rat list \<Rightarrow> rat list res" where
  "apply_platt_by_horizon M params_by_k risk_mean_k =
     (if length params_by_k \<noteq> length risk_mean_k then Inl ValueError
      else Inr (map (\<lambda>(params, p). apply_platt M params p) (zip params_by_k risk_mean_k)))"

definition extend_calibration_to_horizon :: "platt list \<Rightarrow> nat \<Rightarrow> platt list res" where
  "extend_calibration_to_horizon params_by_k K =
     (let fitted = length params_by_k in
      if K \<le> fitted then Inr (take K params_by_k)
      else if params_by_k = [] then Inl IndexError
      else Inr (params_by_k @ replicate (K - fitted) ((last params_by_k)\<lparr>pl_extended := Some fitted\<rparr>)))"

definition over_horizon :: "string \<Rightarrow> nat option \<Rightarrow> rat list \<Rightarrow> rat res" where
  "over_horizon reduction k_eval risk_k =
     (let r = (case k_eval of Some k \<Rightarrow> if k = 0 then risk_k else take k risk_k | None \<Rightarrow> risk_k) in
      if reduction = ''max'' then Inr (Max (set r))
      else if reduction = ''integrated'' then Inr (1 - prod_list (map (\<lambda>p. 1 - min 1 (max 0 p)) r))
      else Inl ValueError)"

text \<open>\<open>_composite\<close> for one row: its trajectories at every horizon.\<close>

definition composite :: "pymath \<Rightarrow> string \<Rightarrow> rat option \<Rightarrow> string \<Rightarrow> platt list option \<Rightarrow> rat list list \<Rightarrow> rat res" where
  "composite M method q horizon_reduction calibration traj_by_k =
     bind_res (traverse_res (pool_trajectories_np method (Some (case q of None \<Rightarrow> 85 / 100 | Some x \<Rightarrow> if x = 0 then 85 / 100 else x))) traj_by_k) (\<lambda>risk_k.
     bind_res (case calibration of None \<Rightarrow> Inr risk_k
       | Some params \<Rightarrow> bind_res (extend_calibration_to_horizon params (length risk_k)) (\<lambda>ps. apply_platt_by_horizon M ps risk_k)) (\<lambda>risk_k.
       over_horizon horizon_reduction None risk_k))"

section \<open>Which statistic a fit belongs to\<close>

record pooling =
  po_method :: tree
  po_quantile :: flt
  po_heads :: tree

definition pooling_of :: "pyconv \<Rightarrow> tree \<Rightarrow> pooling res" where
  "pooling_of C node =
     bind_res (t_get node ''risk_pooling_method'' (TStr ''mean'')) (\<lambda>method.
     bind_res (bind_res (t_get node ''risk_pooling_quantile'' (TFloat (Fin (9 / 10)))) (t_float C)) (\<lambda>q.
     bind_res (t_get node ''risk_pooling_head_reduction'' (TStr ''before_pooling'')) (\<lambda>h.
       Inr \<lparr>po_method = method, po_quantile = q, po_heads = h\<rparr>)))"

text \<open>\<open>cfg["rollout"]\<close>, read as the pooling it asks for.\<close>

definition pooling_signature :: "pyconv \<Rightarrow> tree \<Rightarrow> pooling res" where
  "pooling_signature C cfg =
     (case cfg of TMap d \<Rightarrow> bind_res (dict_index d ''rollout'') (pooling_of C) | _ \<Rightarrow> Inl TypeError)"

text \<open>The key that differs, when one does.\<close>

definition calibration_pooling_mismatch :: "pyconv \<Rightarrow> tree \<Rightarrow> tree \<Rightarrow> string option res" where
  "calibration_pooling_mismatch C metadata cfg =
     bind_res (pooling_signature C cfg) (\<lambda>current. bind_res (pooling_of C metadata) (\<lambda>fitted. Inr
       (if po_method fitted \<noteq> po_method current then Some ''risk_pooling_method''
        else if po_method current = TStr ''mean'' then None
        else if Fin (1 / 1000000000) < po_quantile fitted - po_quantile current \<or> Fin (1 / 1000000000) < po_quantile current - po_quantile fitted then Some ''risk_pooling_quantile''
        else if po_heads fitted \<noteq> po_heads current then Some ''risk_pooling_head_reduction''
        else None)))"

section \<open>Quantiles\<close>

lemma quantile_at:
  "pos = q * of_nat (length xs - 1) \<Longrightarrow> quantile q xs = (if nat \<lfloor>pos\<rfloor> + 1 < length xs
      then sort xs ! nat \<lfloor>pos\<rfloor> + (pos - of_nat (nat \<lfloor>pos\<rfloor>)) * (sort xs ! (nat \<lfloor>pos\<rfloor> + 1) - sort xs ! nat \<lfloor>pos\<rfloor>) else sort xs ! (length xs - 1))"
  by (simp only: quantile_def Let_def length_sort)

lemma quantile_between:
  fixes xs :: "rat list"
  assumes "xs \<noteq> []" "0 \<le> q" "q \<le> 1" and pos_def: "pos = q * of_nat (length xs - 1)"
  shows "sort xs ! nat \<lfloor>pos\<rfloor> \<le> quantile q xs" "nat \<lfloor>pos\<rfloor> + 1 < length xs \<Longrightarrow> quantile q xs \<le> sort xs ! (nat \<lfloor>pos\<rfloor> + 1)"
    "nat \<lfloor>pos\<rfloor> < length xs"
proof -
  have pos: "0 \<le> pos" "pos \<le> of_nat (length xs - 1)" using assms(2,3) by (auto simp: pos_def mult_left_le_one_le)
  then have "\<lfloor>pos\<rfloor> \<le> int (length xs - 1)" by (simp add: floor_le_iff)
  then show lt: "nat \<lfloor>pos\<rfloor> < length xs" using assms(1) by (cases xs) auto
  have frac: "0 \<le> pos - of_nat (nat \<lfloor>pos\<rfloor>)" "pos - of_nat (nat \<lfloor>pos\<rfloor>) \<le> 1" using pos(1) by (simp_all add: of_nat_nat) linarith
  have next_row: "sort xs ! nat \<lfloor>pos\<rfloor> \<le> sort xs ! (nat \<lfloor>pos\<rfloor> + 1)" if "nat \<lfloor>pos\<rfloor> + 1 < length xs"
    using that by (intro sorted_nth_mono) auto
  note eq = quantile_at [OF pos_def]
  show "sort xs ! nat \<lfloor>pos\<rfloor> \<le> quantile q xs"
    using lt next_row frac(1) by (auto simp: eq intro!: sorted_nth_mono mult_nonneg_nonneg)
  show "quantile q xs \<le> sort xs ! (nat \<lfloor>pos\<rfloor> + 1)" if "nat \<lfloor>pos\<rfloor> + 1 < length xs"
    using mult_right_mono [OF frac(2), of "sort xs ! (nat \<lfloor>pos\<rfloor> + 1) - sort xs ! nat \<lfloor>pos\<rfloor>"] next_row [OF that] that by (simp add: eq)
qed

lemma quantile_mono:
  assumes "xs \<noteq> []" "0 \<le> q" "q \<le> q'" "q' \<le> 1"
  shows "quantile q xs \<le> quantile q' xs"
proof -
  define pos where "pos = (\<lambda>q :: rat. q * of_nat (length xs - 1))"
  have le: "pos q \<le> pos q'" using assms(3) by (simp add: pos_def mult_right_mono)
  note a = quantile_between [OF assms(1) _ _ pos_def [THEN fun_cong, of q]] and b = quantile_between [OF assms(1) _ _ pos_def [THEN fun_cong, of q']]
  have "nat \<lfloor>pos q\<rfloor> \<le> nat \<lfloor>pos q'\<rfloor>" using le by (simp add: floor_mono nat_mono)
  then consider (same) "nat \<lfloor>pos q\<rfloor> = nat \<lfloor>pos q'\<rfloor>" | (less) "nat \<lfloor>pos q\<rfloor> + 1 \<le> nat \<lfloor>pos q'\<rfloor>" by linarith
  then show ?thesis
  proof cases
    case same
    have "sort xs ! nat \<lfloor>pos q\<rfloor> \<le> sort xs ! (nat \<lfloor>pos q\<rfloor> + 1)" if "nat \<lfloor>pos q\<rfloor> + 1 < length xs" using that by (intro sorted_nth_mono) auto
    then show ?thesis
      using same le unfolding quantile_at [OF pos_def [THEN fun_cong, of q]] quantile_at [OF pos_def [THEN fun_cong, of q']]
      by (auto intro!: mult_right_mono)
  next
    case less
    have "nat \<lfloor>pos q'\<rfloor> < length xs" using b(3) assms by simp
    then have "quantile q xs \<le> sort xs ! (nat \<lfloor>pos q\<rfloor> + 1)" using a(2) less assms by simp
    also have "\<dots> \<le> sort xs ! nat \<lfloor>pos q'\<rfloor>" using less \<open>nat \<lfloor>pos q'\<rfloor> < length xs\<close> by (intro sorted_nth_mono) auto
    also have "\<dots> \<le> quantile q' xs" using b(1) assms by simp
    finally show ?thesis .
  qed
qed

lemma quantile_in_range:
  assumes "xs \<noteq> []" "0 \<le> q" "q \<le> 1" "\<And>x. x \<in> set xs \<Longrightarrow> a \<le> x \<and> x \<le> b"
  shows "a \<le> quantile q xs" "quantile q xs \<le> b"
proof -
  note between = quantile_between [OF assms(1-3) refl]
  have el: "a \<le> sort xs ! i \<and> sort xs ! i \<le> b" if "i < length xs" for i using assms(4) that by (metis length_sort nth_mem set_sort)
  show "a \<le> quantile q xs" using between(1,3) el order_trans by blast
  show "quantile q xs \<le> b"
  proof (cases "nat \<lfloor>q * of_nat (length xs - 1)\<rfloor> + 1 < length xs")
    case True
    then show ?thesis using between(2) el [OF True] by linarith
  next
    case False
    then show ?thesis using el [of "length xs - 1"] assms(1) by (simp add: quantile_def Let_def)
  qed
qed

lemma avg_in_range: "xs \<noteq> [] \<Longrightarrow> (\<And>x. x \<in> set xs \<Longrightarrow> a \<le> x \<and> x \<le> b) \<Longrightarrow> a \<le> avg xs \<and> avg xs \<le> b"
proof -
  assume ne: "xs \<noteq> []" and "\<And>x. x \<in> set xs \<Longrightarrow> a \<le> x \<and> x \<le> b"
  from this(2) have "of_nat (length xs) * a \<le> sum_list xs \<and> sum_list xs \<le> of_nat (length xs) * b"
    by (induction xs) (auto simp: algebra_simps intro!: add_mono)
  moreover have "(0 :: rat) < of_nat (length xs)" using ne by simp
  ultimately show ?thesis by (simp add: avg_def field_simps)
qed

section \<open>Platt scaling keeps the order within a horizon\<close>

lemma fit_platt_rises: "0 < pl_a (fit_platt M R probs labels w)"
  by (auto simp: fit_platt_def identity_platt_def Let_def split: prod.splits)

lemma logit_mono: assumes "pymath_laws M" "p \<le> p'" shows "logit M p \<le> logit M p'"
proof -
  define c where "c = (\<lambda>p :: rat. min (1 - EPS) (max EPS p))"
  have c: "0 < c p" "c p \<le> c p'" "c p' < 1" using assms(2) by (auto simp: c_def EPS_def min_def max_def)
  then have "c p / (1 - c p) \<le> c p' / (1 - c p')" "0 < c p / (1 - c p)" by (auto intro!: frac_le divide_pos_pos)
  moreover have "logit M p = m_log M (c p / (1 - c p))" for p by (simp add: logit_def Let_def c_def)
  ultimately show ?thesis using pymath_laws.log_mono [OF assms(1)] by simp
qed

lemma sigmoid_mono: assumes "pymath_laws M" "x \<le> y" shows "sigmoid M x \<le> sigmoid M y"
  using pymath_laws.exp_mono [OF assms(1), of "- y" "- x"] pymath_laws.exp_pos [OF assms(1)] assms(2)
  by (auto simp: sigmoid_def intro!: divide_left_mono mult_pos_pos add_pos_nonneg)

lemma sigmoid_range: "pymath_laws M \<Longrightarrow> 0 < sigmoid M x \<and> sigmoid M x \<le> 1"
  using pymath_laws.exp_pos [of M "- x"] by (simp add: sigmoid_def divide_le_eq add_pos_nonneg)

lemma apply_platt_mono: "pymath_laws M \<Longrightarrow> 0 < pl_a ps \<Longrightarrow> p \<le> p' \<Longrightarrow> apply_platt M ps p \<le> apply_platt M ps p'"
  unfolding apply_platt_def by (intro sigmoid_mono add_right_mono mult_left_mono logit_mono) auto

text \<open>
  Calibration keeps the order within a horizon. Whatever slope and intercept the regression returns, with one class
  or an inverting slope, applying what \<open>fit_platt\<close> makes of it never inverts two scores of the same horizon and gives
  scores between 0 and 1; a calibration of another length is refused.
\<close>
lemma calibration_keeps_order:
  assumes "pymath_laws M" "length risk = K" "length risk' = K" "list_all2 (\<le>) risk risk'"
    and fitted_def: "fitted = fit_platt_by_horizon M R scores labels K w"
  shows "\<exists>cal cal'. apply_platt_by_horizon M fitted risk = Inr cal \<and> apply_platt_by_horizon M fitted risk' = Inr cal' \<and>
    list_all2 (\<le>) cal cal' \<and> list_all (\<lambda>p. 0 < p \<and> p \<le> 1) (cal @ cal') \<and>
    apply_platt_by_horizon M fitted (risk @ [p]) = Inl ValueError"
proof -
  have len: "length fitted = K" by (simp add: fitted_def fit_platt_by_horizon_def)
  have rises: "0 < pl_a (fitted ! k)" if "k < K" for k using that by (simp add: fitted_def fit_platt_by_horizon_def fit_platt_rises)
  have "list_all2 (\<le>) (map (\<lambda>(params, p). apply_platt M params p) (zip fitted risk)) (map (\<lambda>(params, p). apply_platt M params p) (zip fitted risk'))"
    using assms(2-4) len by (auto simp: list_all2_conv_all_nth intro!: apply_platt_mono [OF assms(1)] rises)
  moreover have "list_all (\<lambda>p. 0 < p \<and> p \<le> 1) (map (\<lambda>(params, p). apply_platt M params p) (zip fitted xs))" for xs
    using sigmoid_range [OF assms(1)] by (auto simp: list_all_iff apply_platt_def)
  ultimately show ?thesis using assms(2,3) len by (simp add: apply_platt_by_horizon_def)
qed

lemma calibration_keeps_order_witness:
  "\<exists>cal cal'. apply_platt_by_horizon rat_math (fit_platt_by_horizon rat_math (\<lambda>xs ys w. (- 1, 3)) [[1 / 2], [1 / 4]] [[0], [1]] 1 None) [1 / 4] = Inr cal \<and>
     apply_platt_by_horizon rat_math (fit_platt_by_horizon rat_math (\<lambda>xs ys w. (- 1, 3)) [[1 / 2], [1 / 4]] [[0], [1]] 1 None) [3 / 4] = Inr cal' \<and>
     list_all2 (\<le>) cal cal'"
  using calibration_keeps_order [OF rat_math.pymath_laws_axioms, of "[1 / 4]" 1 "[3 / 4]", OF _ _ _ refl,
      where R = "\<lambda>xs ys w. (- 1, 3)" and scores = "[[1 / 2], [1 / 4]]" and labels = "[[0], [1]]" and w = None and p = 0]
  by auto

section \<open>The statistic a fit belongs to\<close>

lemma sum_list_swap: "(\<Sum>x\<leftarrow>xs. \<Sum>y\<leftarrow>ys. f x y) = (\<Sum>y\<leftarrow>ys. \<Sum>x\<leftarrow>xs. f x y :: rat)"
  by (induction xs) (simp_all add: sum_list_addf)

lemma mean_orders_agree:
  assumes "heads \<noteq> []" "\<And>h. h \<in> set heads \<Longrightarrow> length h = S" "0 < S"
  shows "avg (head_mean heads) = avg (map avg heads)"
proof -
  have S: "length (hd heads) = S" using assms(1,2) by simp
  have rows: "sum_list h = (\<Sum>s\<leftarrow>[0..<S]. h ! s)" if "h \<in> set heads" for h
    using assms(2) [OF that] by (metis map_nth)
  have "sum_list (head_mean heads) = (\<Sum>s\<leftarrow>[0..<S]. \<Sum>h\<leftarrow>heads. h ! s / of_nat (length heads))"
    by (simp add: head_mean_def avg_def S comp_def divide_inverse sum_list_mult_const)
  also have "\<dots> = (\<Sum>h\<leftarrow>heads. sum_list h / of_nat (length heads))"
    unfolding sum_list_swap [of _ heads] by (intro arg_cong [of _ _ sum_list] map_cong) (auto simp: rows divide_inverse sum_list_mult_const)
  also have "\<dots> = (\<Sum>h\<leftarrow>heads. sum_list h) / of_nat (length heads)" by (simp add: divide_inverse sum_list_mult_const)
  finally have "avg (head_mean heads) = (\<Sum>h\<leftarrow>heads. sum_list h) / of_nat (length heads) / of_nat S" by (simp add: avg_def head_mean_def S)
  moreover have "avg (map avg heads) = (\<Sum>h\<leftarrow>heads. sum_list h / of_nat S) / of_nat (length heads)"
    unfolding avg_def by (simp add: comp_def assms(2) cong: map_cong)
  ultimately show ?thesis by (simp add: divide_inverse sum_list_mult_const)
qed

text \<open>
  A calibration that is not refused fits the statistic. When an artifact and a configuration name a method and a head
  reduction the code knows and no mismatch is reported, the methods are the same and both pool every ensemble to the
  same score: under a mean whatever the order of the two reductions and the quantile, otherwise for the same
  quantile, and their quantiles differ by at most one in a thousand million.
\<close>
lemma accepted_calibration_fits:
  assumes "calibration_pooling_mismatch C metadata cfg = Inr None" "pooling_of C metadata = Inr fitted" "pooling_signature C cfg = Inr current"
    "po_method fitted = TStr m" "po_heads fitted = TStr h" "po_heads current = TStr h'" "h \<in> set VALID_HEAD_REDUCTIONS" "h' \<in> set VALID_HEAD_REDUCTIONS"
    "po_quantile fitted = Fin q" "po_quantile current = Fin q'" "heads \<noteq> []" "list_all (\<lambda>h. length h = S) heads" "0 < S"
  shows "po_method current = TStr m \<and> (m = ''mean'' \<or> \<bar>q - q'\<bar> \<le> 1 / 1000000000) \<and>
    (m = ''mean'' \<or> q = q' \<longrightarrow> pool_ensemble_risk m q h heads = pool_ensemble_risk m q' h' heads)"
proof -
  have same: "po_method current = TStr m" using assms(1-4) by (auto simp: calibration_pooling_mismatch_def split: if_splits)
  show ?thesis
  proof (cases "m = ''mean''")
    case True
    have "traverse_res (pool_risk_over_samples ''mean'' q) heads = Inr (map avg heads)" for q
      by (rule traverse_res_all) (simp add: pool_risk_over_samples_def)
    moreover have "avg (head_mean heads) = avg (map avg heads)" using assms(11-13) by (intro mean_orders_agree) (auto simp: list_all_iff)
    ultimately have "pool_ensemble_risk ''mean'' q h heads = Inr (avg (map avg heads))" if "h \<in> set VALID_HEAD_REDUCTIONS" for q h
      using that by (auto simp: pool_ensemble_risk_def pool_risk_over_samples_def)
    then show ?thesis using same True assms(7,8) by simp
  next
    case False
    then have "h = h'" "\<not> (1 / 1000000000 < q - q' \<or> 1 / 1000000000 < q' - q)"
      using assms(1-6,9,10) same by (auto simp: calibration_pooling_mismatch_def split: if_splits)
    moreover from this(2) have "\<bar>q - q'\<bar> \<le> 1 / 1000000000" by linarith
    ultimately show ?thesis using same False by simp
  qed
qed

lemma accepted_calibration_fits_witness:
  "pool_ensemble_risk ''mean'' (9 / 10) ''before_pooling'' [[0, 1], [1 / 2, 1 / 4]] = pool_ensemble_risk ''mean'' (1 / 2) ''after_pooling'' [[0, 1], [1 / 2, 1 / 4]]"
proof -
  let ?cfg = "TMap [(''rollout'', TMap [(''risk_pooling_quantile'', TFloat (Fin (1 / 2))), (''risk_pooling_head_reduction'', TStr ''after_pooling'')])]"
  have parts: "pooling_of std_conv (TMap []) = Inr \<lparr>po_method = TStr ''mean'', po_quantile = Fin (9 / 10), po_heads = TStr ''before_pooling''\<rparr>"
    "pooling_signature std_conv ?cfg = Inr \<lparr>po_method = TStr ''mean'', po_quantile = Fin (1 / 2), po_heads = TStr ''after_pooling''\<rparr>"
    by (simp_all add: pooling_of_def pooling_signature_def dict_get_def dict_index_def)
  have none: "calibration_pooling_mismatch std_conv (TMap []) ?cfg = Inr None" by (simp add: calibration_pooling_mismatch_def parts)
  show ?thesis
    using accepted_calibration_fits [OF none parts, of "''mean''" "''before_pooling''" "''after_pooling''" "9 / 10" "1 / 2" "[[0, 1], [1 / 2, 1 / 4]]" 2]
    by (simp add: VALID_HEAD_REDUCTIONS_def)
qed

end
