(* ===== verification/Normalize.thy ===== *)
theory Normalize
  imports Schema Pooling
begin

text \<open>
  \<open>ml/nidra/data/normalize.py\<close>: the feature scaler. Values are exact rationals; \<open>log1p\<close>, \<open>expm1\<close>, \<open>arcsinh\<close>, \<open>sinh\<close>
  and the square root of numpy are the record \<open>npmath\<close>. A matrix is the list of its rows. The JSON files are records of
  the keys \<open>save\<close> writes; the wording of a drop reason is left out.
\<close>

section \<open>The scaler\<close>

record npmath =
  n_log1p :: "rat \<Rightarrow> rat"
  n_expm1 :: "rat \<Rightarrow> rat"
  n_arcsinh :: "rat \<Rightarrow> rat"
  n_sinh :: "rat \<Rightarrow> rat"
  n_sqrt :: "rat \<Rightarrow> rat"

definition LOG_INVERSE_CEIL :: rat where "LOG_INVERSE_CEIL = 25"
definition SCALE_FLOOR :: rat where "SCALE_FLOOR = 1 / 1000"
definition DUPLICATE_ABS_CORR :: rat where "DUPLICATE_ABS_CORR = 999 / 1000"
definition CONSTANT_STD :: rat where "CONSTANT_STD = 1 / 100000000"
definition ACTIVITY_FEATURE :: string where "ACTIVITY_FEATURE = ''is_active''"
definition TRANSFORM_CHUNK_ROWS :: nat where "TRANSFORM_CHUNK_ROWS = 20000"

definition VALID_KINDS :: "string list" where
  "VALID_KINDS = [''log1p'', ''asinh'', ''zscore'', ''unit'', ''drop'']"

definition np_clip :: "rat \<Rightarrow> rat \<Rightarrow> rat \<Rightarrow> rat" where
  "np_clip lo hi x = min hi (max lo x)"

definition apply_kind :: "npmath \<Rightarrow> rat \<Rightarrow> string \<Rightarrow> rat res" where
  "apply_kind N x kind =
     (if kind = ''log1p'' then Inr (n_log1p N (max 0 x))
      else if kind = ''asinh'' then Inr (n_arcsinh N x)
      else if kind = ''zscore'' \<or> kind = ''unit'' \<or> kind = ''drop'' then Inr x
      else Inl ValueError)"

definition invert_kind :: "npmath \<Rightarrow> rat \<Rightarrow> string \<Rightarrow> rat" where
  "invert_kind N z kind =
     (if kind = ''log1p'' then n_expm1 N (min LOG_INVERSE_CEIL z)
      else if kind = ''asinh'' then n_sinh N (np_clip (- LOG_INVERSE_CEIL) LOG_INVERSE_CEIL z)
      else z)"

datatype drop_reason = Declared | Constant_on_active rat | Duplicate_of string rat

text \<open>\<open>center_\<close>, \<open>scale_\<close> and \<open>reference_std_\<close> are \<open>None\<close> until \<open>fit\<close> or \<open>load\<close>, written here as empty lists.\<close>

record scaler =
  fz_clip_min :: rat
  fz_clip_max :: rat
  fz_kinds :: "string list"
  fz_center :: "rat list"
  fz_scale :: "rat list"
  fz_reference_std :: "rat list option"
  fz_reason :: "(string, drop_reason) dict"
  fz_rows :: nat
  fz_active_rows :: nat
  fz_fitted :: bool

definition new_scaler :: scaler where
  "new_scaler = \<lparr>fz_clip_min = - 10, fz_clip_max = 10, fz_kinds = map (\<lambda>f. the (map_of FEATURE_TRANSFORMS f)) FEATURE_ORDER, fz_center = [], fz_scale = [],
     fz_reference_std = None, fz_reason = [], fz_rows = 0, fz_active_rows = 0, fz_fitted = False\<rparr>"

definition check_width :: "rat list list \<Rightarrow> unit res" where
  "check_width X = (if list_all (\<lambda>row. length row = length FEATURE_ORDER) X then Inr () else Inl ValueError)"

definition stabilize :: "npmath \<Rightarrow> string list \<Rightarrow> rat list \<Rightarrow> rat list res" where
  "stabilize N kinds row = traverse_res (\<lambda>(x, kind). apply_kind N x kind) (zip row kinds)"

definition model_mask :: "scaler \<Rightarrow> bool list" where
  "model_mask sc = map (\<lambda>k. k \<noteq> ''drop'') (fz_kinds sc)"

definition dropped_features :: "scaler \<Rightarrow> string list" where
  "dropped_features sc = map fst (filter (\<lambda>(f, k). k = ''drop'') (zip FEATURE_ORDER (fz_kinds sc)))"

section \<open>Transforming\<close>

definition transform_row :: "npmath \<Rightarrow> scaler \<Rightarrow> rat list \<Rightarrow> rat list res" where
  "transform_row N sc row =
     bind_res (stabilize N (fz_kinds sc) row) (\<lambda>st. Inr
       (map (\<lambda>(x, c, s, keep). if keep then np_clip (fz_clip_min sc) (fz_clip_max sc) ((x - c) / s) else 0)
         (zip st (zip (fz_center sc) (zip (fz_scale sc) (model_mask sc))))))"

definition transform_block :: "npmath \<Rightarrow> scaler \<Rightarrow> rat list list \<Rightarrow> rat list list res" where
  "transform_block N sc X = traverse_res (transform_row N sc) X"

text \<open>The chunks of \<open>transform\<close>, in order.\<close>

function transform_chunks :: "npmath \<Rightarrow> scaler \<Rightarrow> nat \<Rightarrow> rat list list \<Rightarrow> rat list list res" where
  "transform_chunks N sc n X =
     (if X = [] \<or> n = 0 then Inr []
      else bind_res (transform_block N sc (take n X)) (\<lambda>out. bind_res (transform_chunks N sc n (drop n X)) (\<lambda>rest. Inr (out @ rest))))"
  by pat_completeness auto
termination by (relation "measure (\<lambda>(N, sc, n, X). length X)") auto

declare transform_chunks.simps [simp del]

definition transform :: "npmath \<Rightarrow> scaler \<Rightarrow> rat list list \<Rightarrow> rat list list res" where
  "transform N sc X =
     (if \<not> fz_fitted sc then Inl RuntimeError
      else bind_res (check_width X) (\<lambda>_.
        if length X \<le> TRANSFORM_CHUNK_ROWS then transform_block N sc X else transform_chunks N sc TRANSFORM_CHUNK_ROWS X))"

definition inverse_transform :: "npmath \<Rightarrow> scaler \<Rightarrow> rat list \<Rightarrow> rat list res" where
  "inverse_transform N sc row =
     (if \<not> fz_fitted sc then Inl RuntimeError
      else bind_res (check_width [row]) (\<lambda>_. Inr
        (map (\<lambda>(x, c, s, kind, keep). if keep then invert_kind N (x * s + c) kind else 0)
          (zip row (zip (fz_center sc) (zip (fz_scale sc) (zip (fz_kinds sc) (model_mask sc))))))))"

definition zero_state_scaled :: "npmath \<Rightarrow> scaler \<Rightarrow> rat list res" where
  "zero_state_scaled N sc = bind_res (transform N sc [replicate (length FEATURE_ORDER) 0]) (\<lambda>rows. Inr (rows ! 0))"

section \<open>Fitting\<close>

definition np_std :: "npmath \<Rightarrow> rat list \<Rightarrow> rat" where
  "np_std N xs = n_sqrt N (avg (map (\<lambda>x. (x - avg xs) * (x - avg xs)) xs))"

definition col :: "nat \<Rightarrow> rat list list \<Rightarrow> rat list" where
  "col i rows = map (\<lambda>r. r ! i) rows"

record fitted_feature =
  ff_kind :: string
  ff_center :: rat
  ff_scale :: rat
  ff_reason :: "drop_reason option"

definition fit_feature :: "npmath \<Rightarrow> rat list list \<Rightarrow> nat \<times> string \<times> string \<Rightarrow> fitted_feature" where
  "fit_feature N act = (\<lambda>(i, feature, kind).
     let mean = avg (col i act); std = np_std N (col i act) in
     if kind = ''drop'' then \<lparr>ff_kind = kind, ff_center = 0, ff_scale = 1, ff_reason = Some Declared\<rparr>
     else if std < CONSTANT_STD \<and> feature \<noteq> ACTIVITY_FEATURE then \<lparr>ff_kind = ''drop'', ff_center = 0, ff_scale = 1, ff_reason = Some (Constant_on_active mean)\<rparr>
     else if kind = ''unit'' then \<lparr>ff_kind = kind, ff_center = 0, ff_scale = 1, ff_reason = None\<rparr>
     else \<lparr>ff_kind = kind, ff_center = mean, ff_scale = max std SCALE_FLOOR, ff_reason = None\<rparr>)"

text \<open>The entry of \<open>(z.T @ z) / len(z)\<close> for two features.\<close>

definition z_col :: "npmath \<Rightarrow> rat list list \<Rightarrow> nat \<Rightarrow> rat list" where
  "z_col N act i = map (\<lambda>x. (x - avg (col i act)) / max SCALE_FLOOR (np_std N (col i act))) (col i act)"

definition corr :: "npmath \<Rightarrow> rat list list \<Rightarrow> nat \<Rightarrow> nat \<Rightarrow> rat" where
  "corr N act a b = sum_list (map2 (*) (z_col N act a) (z_col N act b)) / of_nat (length act)"

definition duplicated_by :: "npmath \<Rightarrow> rat list list \<Rightarrow> fitted_feature list \<Rightarrow> nat \<Rightarrow> nat \<Rightarrow> bool" where
  "duplicated_by N act fs ia ib \<longleftrightarrow> ff_kind (fs ! ia) \<noteq> ''drop'' \<and> ff_kind (fs ! ib) \<noteq> ''drop'' \<and> DUPLICATE_ABS_CORR < \<bar>corr N act ia ib\<bar>"

definition drop_duplicate :: "npmath \<Rightarrow> rat list list \<Rightarrow> nat list \<Rightarrow> fitted_feature list \<Rightarrow> nat \<Rightarrow> fitted_feature list" where
  "drop_duplicate N act earlier fs ia = (case List.find (duplicated_by N act fs ia) earlier of
     None \<Rightarrow> fs
   | Some ib \<Rightarrow> fs[ia := \<lparr>ff_kind = ''drop'', ff_center = 0, ff_scale = 1, ff_reason = Some (Duplicate_of (FEATURE_ORDER ! ib) (corr N act ia ib))\<rparr>])"

fun drop_duplicates :: "npmath \<Rightarrow> rat list list \<Rightarrow> nat list \<Rightarrow> nat list \<Rightarrow> fitted_feature list \<Rightarrow> fitted_feature list" where
  "drop_duplicates N act earlier [] fs = fs"
| "drop_duplicates N act earlier (ia # kept) fs = drop_duplicates N act (earlier @ [ia]) kept (drop_duplicate N act earlier fs ia)"

definition reasons :: "fitted_feature list \<Rightarrow> (string, drop_reason) dict" where
  "reasons fs = concat (map (\<lambda>(f, x). case ff_reason x of None \<Rightarrow> [] | Some r \<Rightarrow> [(f, r)]) (zip FEATURE_ORDER fs))"

definition fit_features :: "npmath \<Rightarrow> string list \<Rightarrow> rat list list \<Rightarrow> fitted_feature list \<times> (string, drop_reason) dict" where
  "fit_features N kinds act =
     (let fs = map (fit_feature N act) (enumerate 0 (zip FEATURE_ORDER kinds));
          kept = filter (\<lambda>i. ff_kind (fs ! i) \<noteq> ''drop'') [0..<length fs];
          fs' = (if 1 < length kept then drop_duplicates N act [] kept fs else fs)
      in (fs', reasons fs @ filter (\<lambda>(f, r). f \<notin> set (keys (reasons fs))) (reasons fs')))"

definition active_rows_of :: "bool list option \<Rightarrow> rat list list \<Rightarrow> bool list" where
  "active_rows_of active_mask flat = (case active_mask of Some m \<Rightarrow> m | None \<Rightarrow> map (\<lambda>row. 0 < sum_list (map abs row)) flat)"

definition fit :: "npmath \<Rightarrow> scaler \<Rightarrow> rat list list \<Rightarrow> bool list option \<Rightarrow> scaler res" where
  "fit N sc X_train active_mask =
     bind_res (check_width X_train) (\<lambda>_.
     let mask = active_rows_of active_mask X_train in
     if length (filter id mask) < 2 then Inl ValueError
     else if length mask \<noteq> length X_train then Inl IndexError
     else bind_res (traverse_res (stabilize N (fz_kinds sc)) (map fst (filter snd (zip X_train mask)))) (\<lambda>act.
       let (fs, drop_reason) = fit_features N (fz_kinds sc) act;
           sc' = sc\<lparr>fz_kinds := map ff_kind fs, fz_center := map ff_center fs, fz_scale := map ff_scale fs, fz_reason := drop_reason,
             fz_rows := length X_train, fz_active_rows := length (filter id mask), fz_fitted := True\<rparr>
       in bind_res (transform N sc' X_train) (\<lambda>Xs.
         Inr (sc'\<lparr>fz_reference_std := Some (map (\<lambda>i. np_std N (col i Xs)) [0..<length FEATURE_ORDER])\<rparr>))))"

section \<open>Files\<close>

record scaler_params =
  pf_feature_order :: "string list option"
  pf_kinds :: "string list"
  pf_center :: "rat list"
  pf_scale :: "rat list"
  pf_clip_min :: rat
  pf_clip_max :: rat
  pf_drop_reason :: "(string, drop_reason) dict option"
  pf_n_fit_rows :: "nat option"
  pf_n_fit_active_rows :: "nat option"

record scaler_meta =
  mf_feature_order :: "string list"
  mf_transforms :: "(string, string) dict"
  mf_dropped_features :: "string list"
  mf_clip_min :: rat
  mf_clip_max :: rat
  mf_schema_version :: string
  mf_reference_std :: "rat list option"
  mf_zero_state :: "rat list"

definition scaler_to_dict :: "scaler \<Rightarrow> scaler_params" where
  "scaler_to_dict sc = \<lparr>pf_feature_order = Some FEATURE_ORDER, pf_kinds = fz_kinds sc, pf_center = fz_center sc, pf_scale = fz_scale sc,
     pf_clip_min = fz_clip_min sc, pf_clip_max = fz_clip_max sc, pf_drop_reason = Some (fz_reason sc), pf_n_fit_rows = Some (fz_rows sc),
     pf_n_fit_active_rows = Some (fz_active_rows sc)\<rparr>"

definition save_scaler :: "npmath \<Rightarrow> scaler \<Rightarrow> (scaler_params \<times> scaler_meta) res" where
  "save_scaler N sc =
     (if \<not> fz_fitted sc then Inl RuntimeError
      else case fz_reference_std sc of None \<Rightarrow> Inl AttributeError
      | Some ref \<Rightarrow> bind_res (zero_state_scaled N sc) (\<lambda>z. Inr (scaler_to_dict sc,
          \<lparr>mf_feature_order = FEATURE_ORDER, mf_transforms = zip FEATURE_ORDER (fz_kinds sc), mf_dropped_features = dropped_features sc,
           mf_clip_min = fz_clip_min sc, mf_clip_max = fz_clip_max sc, mf_schema_version = SCHEMA_VERSION, mf_reference_std = Some ref, mf_zero_state = z\<rparr>)))"

definition load_scaler :: "scaler_params \<Rightarrow> scaler_meta \<Rightarrow> scaler res" where
  "load_scaler params meta =
     (if mf_feature_order meta \<noteq> FEATURE_ORDER then Inl ValueError
      else if pf_feature_order params \<noteq> Some FEATURE_ORDER then Inl ValueError
      else Inr \<lparr>fz_clip_min = mf_clip_min meta, fz_clip_max = mf_clip_max meta, fz_kinds = pf_kinds params, fz_center = pf_center params,
        fz_scale = pf_scale params, fz_reference_std = mf_reference_std meta, fz_reason = (case pf_drop_reason params of None \<Rightarrow> [] | Some d \<Rightarrow> d),
        fz_rows = (case pf_n_fit_rows params of None \<Rightarrow> 0 | Some n \<Rightarrow> n),
        fz_active_rows = (case pf_n_fit_active_rows params of None \<Rightarrow> 0 | Some n \<Rightarrow> n), fz_fitted = True\<rparr>)"

section \<open>Ranges and chunks\<close>

lemma traverse_res_append:
  "traverse_res f (xs @ ys) = bind_res (traverse_res f xs) (\<lambda>a. bind_res (traverse_res f ys) (\<lambda>b. Inr (a @ b)))"
proof (induction xs)
  case Nil
  then show ?case by (cases "traverse_res f ys") simp_all
next
  case (Cons x xs)
  then show ?case by (cases "f x"; cases "traverse_res f xs"; cases "traverse_res f ys") simp_all
qed

lemma traverse_res_total: "(\<And>x. x \<in> set xs \<Longrightarrow> \<exists>y. f x = Inr y) \<Longrightarrow> \<exists>ys. traverse_res f xs = Inr ys"
proof (induction xs)
  case (Cons x xs)
  obtain ys where "traverse_res f xs = Inr ys" using Cons by auto
  moreover obtain y where "f x = Inr y" using Cons.prems [of x] by auto
  ultimately show ?case by simp
qed simp

lemma transform_chunks_block: "0 < n \<Longrightarrow> transform_chunks N sc n X = transform_block N sc X"
proof (induction N sc n X rule: transform_chunks.induct)
  case (1 N sc n X)
  have split: "traverse_res (transform_row N sc) X = bind_res (traverse_res (transform_row N sc) (take n X)) (\<lambda>a.
      bind_res (traverse_res (transform_row N sc) (drop n X)) (\<lambda>b. Inr (a @ b)))"
    by (metis append_take_drop_id traverse_res_append)
  show ?case
  proof (cases "X = []")
    case False
    then show ?thesis
      using 1 by (cases "traverse_res (transform_row N sc) (take n X)") (simp_all add: transform_chunks.simps [of N sc n X] transform_block_def split)
  qed (simp add: transform_chunks.simps transform_block_def)
qed

lemma transform_rows:
  "transform N sc X = (if \<not> fz_fitted sc then Inl RuntimeError else bind_res (check_width X) (\<lambda>_. transform_block N sc X))"
  by (simp add: transform_def TRANSFORM_CHUNK_ROWS_def transform_chunks_block)

lemma transform_in_range:
  assumes "transform N sc X = Inr Y" "fz_clip_min sc \<le> 0" "0 \<le> fz_clip_max sc"
  shows "list_all (list_all (\<lambda>y. fz_clip_min sc \<le> y \<and> y \<le> fz_clip_max sc)) Y"
proof -
  have "list_all2 (\<lambda>x y. transform_row N sc x = Inr y) X Y"
    using assms(1) by (auto simp: transform_rows transform_block_def bind_res_eq_Inr traverse_res_Inr split: if_splits)
  moreover have "list_all (\<lambda>y. fz_clip_min sc \<le> y \<and> y \<le> fz_clip_max sc) y" if "transform_row N sc x = Inr y" for x y
    using that assms(2,3) by (auto simp: transform_row_def bind_res_eq_Inr list_all_iff np_clip_def)
  ultimately show ?thesis unfolding list_all_length [of _ Y] list_all2_conv_all_nth by metis
qed

section \<open>Duplicates\<close>

definition kept_in :: "fitted_feature list \<Rightarrow> nat \<Rightarrow> bool" where
  "kept_in fs i \<longleftrightarrow> ff_kind (fs ! i) \<noteq> ''drop''"

definition no_duplicates :: "npmath \<Rightarrow> rat list list \<Rightarrow> nat list \<Rightarrow> fitted_feature list \<Rightarrow> bool" where
  "no_duplicates N act js fs \<longleftrightarrow> (\<forall>a \<in> set js. \<forall>b \<in> set js. b < a \<and> kept_in fs a \<and> kept_in fs b \<longrightarrow> \<bar>corr N act a b\<bar> \<le> DUPLICATE_ABS_CORR)"

definition tidy :: "fitted_feature \<Rightarrow> bool" where
  "tidy f \<longleftrightarrow> SCALE_FLOOR \<le> ff_scale f \<and> (ff_kind f = ''drop'' \<longleftrightarrow> ff_reason f \<noteq> None)"

lemma drop_duplicate_other: "i \<noteq> ia \<Longrightarrow> drop_duplicate N act earlier fs ia ! i = fs ! i"
  by (simp add: drop_duplicate_def split: option.splits)

lemma drop_duplicate_length: "length (drop_duplicate N act earlier fs ia) = length fs"
  by (simp add: drop_duplicate_def split: option.splits)

lemma drop_duplicate_tidy: "list_all tidy fs \<Longrightarrow> list_all tidy (drop_duplicate N act earlier fs ia)"
  by (auto simp: drop_duplicate_def list_all_iff tidy_def SCALE_FLOOR_def dest!: set_update_subset_insert [THEN subsetD] split: option.splits)

lemma drop_duplicate_keeps: "kept_in (drop_duplicate N act earlier fs ia) i \<Longrightarrow> kept_in fs i"
  by (cases "i < length fs"; cases "i = ia") (auto simp: drop_duplicate_def kept_in_def list_update_beyond split: option.splits)

lemma drop_duplicate_step:
  assumes "no_duplicates N act earlier fs" "ia < length fs" "\<And>b. b \<in> set earlier \<Longrightarrow> b < ia"
  shows "no_duplicates N act (earlier @ [ia]) (drop_duplicate N act earlier fs ia)"
proof -
  let ?fs = "drop_duplicate N act earlier fs ia"
  have corr: "\<bar>corr N act ia b\<bar> \<le> DUPLICATE_ABS_CORR" if "b \<in> set earlier" "kept_in ?fs ia" "kept_in ?fs b" for b
  proof -
    have none: "List.find (duplicated_by N act fs ia) earlier = None"
      using that(2) assms(2) by (auto simp: drop_duplicate_def kept_in_def split: option.splits)
    then have "\<not> duplicated_by N act fs ia b" using that(1) by (auto simp: find_None_iff)
    moreover have "kept_in fs ia" "kept_in fs b" using that(2,3) drop_duplicate_keeps by blast+
    ultimately show ?thesis by (simp add: duplicated_by_def kept_in_def)
  qed
  have same: "kept_in ?fs b \<longleftrightarrow> kept_in fs b" if "b \<in> set earlier" for b
    using drop_duplicate_other [of b ia] assms(3) [OF that] by (simp add: kept_in_def)
  show ?thesis unfolding no_duplicates_def
  proof (intro ballI impI)
    fix a b assume ab: "a \<in> set (earlier @ [ia])" "b \<in> set (earlier @ [ia])" "b < a \<and> kept_in ?fs a \<and> kept_in ?fs b"
    show "\<bar>corr N act a b\<bar> \<le> DUPLICATE_ABS_CORR"
    proof (cases "a = ia")
      case True
      then show ?thesis using ab corr by auto
    next
      case False
      then have "a \<in> set earlier" "b \<in> set earlier" using ab assms(3) [of a] by auto
      then show ?thesis using ab same assms(1) by (simp add: no_duplicates_def)
    qed
  qed
qed

lemma drop_duplicates_ok:
  assumes "no_duplicates N act earlier fs" "sorted_wrt (<) (earlier @ todo)" "list_all (\<lambda>i. i < length fs) todo" "list_all tidy fs"
  shows "no_duplicates N act (earlier @ todo) (drop_duplicates N act earlier todo fs) \<and>
    length (drop_duplicates N act earlier todo fs) = length fs \<and> list_all tidy (drop_duplicates N act earlier todo fs) \<and>
    (\<forall>i. kept_in (drop_duplicates N act earlier todo fs) i \<longrightarrow> kept_in fs i)"
  using assms
proof (induction N act earlier todo fs rule: drop_duplicates.induct)
  case (2 N act earlier ia kept fs)
  let ?fs = "drop_duplicate N act earlier fs ia"
  have "no_duplicates N act (earlier @ [ia]) ?fs" using 2 by (intro drop_duplicate_step) (auto simp: sorted_wrt_append)
  moreover have "list_all tidy ?fs" using 2 drop_duplicate_tidy by blast
  ultimately have "no_duplicates N act ((earlier @ [ia]) @ kept) (drop_duplicates N act (earlier @ [ia]) kept ?fs) \<and>
    length (drop_duplicates N act (earlier @ [ia]) kept ?fs) = length ?fs \<and> list_all tidy (drop_duplicates N act (earlier @ [ia]) kept ?fs) \<and>
    (\<forall>i. kept_in (drop_duplicates N act (earlier @ [ia]) kept ?fs) i \<longrightarrow> kept_in ?fs i)"
    using 2 by (intro "2.IH") (simp_all add: drop_duplicate_length)
  then show ?case using drop_duplicate_keeps by (auto simp: drop_duplicate_length)
qed simp

lemma fit_feature_tidy: "tidy (fit_feature N act x)"
  by (cases x) (auto simp: fit_feature_def tidy_def Let_def SCALE_FLOOR_def)

lemma fit_feature_kept:
  assumes "ff_kind (fit_feature N act (i, f, kind)) \<noteq> ''drop''"
  shows "f = ACTIVITY_FEATURE \<or> CONSTANT_STD \<le> np_std N (col i act)"
  using assms by (auto simp: fit_feature_def Let_def not_less split: if_splits)

lemma reasons_keys:
  assumes "list_all tidy fs"
  shows "set (keys (reasons fs)) = set (map fst (filter (\<lambda>(f, x). ff_kind x = ''drop'') (zip FEATURE_ORDER fs)))"
proof -
  have "set (keys (concat (map (\<lambda>(f, x). case ff_reason x of None \<Rightarrow> [] | Some r \<Rightarrow> [(f, r)]) zs))) = set (map fst (filter (\<lambda>(f, x). ff_kind x = ''drop'') zs))"
    if "list_all (\<lambda>(f, x). tidy x) zs" for zs :: "(string \<times> fitted_feature) list"
    using that by (induction zs) (auto simp: tidy_def split: option.splits)
  moreover have "list_all (\<lambda>(f, x). tidy x) (zip FEATURE_ORDER fs)" using assms by (auto simp: list_all_iff dest: set_zip_rightD)
  ultimately show ?thesis by (simp add: reasons_def)
qed

section \<open>What a fit promises\<close>

lemma fit_features_ok:
  assumes "fit_features N kinds act = (fs, rs)" "length kinds = length FEATURE_ORDER"
  shows "length fs = length FEATURE_ORDER" "list_all tidy fs" "no_duplicates N act [0..<length fs] fs"
    "i < length fs \<Longrightarrow> kept_in fs i \<Longrightarrow> FEATURE_ORDER ! i = ACTIVITY_FEATURE \<or> CONSTANT_STD \<le> np_std N (col i act)"
    "set (keys rs) = set (map fst (filter (\<lambda>(f, x). ff_kind x = ''drop'') (zip FEATURE_ORDER fs)))"
proof -
  define fs0 where "fs0 = map (fit_feature N act) (enumerate 0 (zip FEATURE_ORDER kinds))"
  define kept where "kept = filter (\<lambda>i. ff_kind (fs0 ! i) \<noteq> ''drop'') [0..<length fs0]"
  have fs: "fs = (if 1 < length kept then drop_duplicates N act [] kept fs0 else fs0)"
    and rs: "rs = reasons fs0 @ filter (\<lambda>(f, r). f \<notin> set (keys (reasons fs0))) (reasons fs)"
    using assms(1) unfolding fit_features_def Let_def fs0_def [symmetric] kept_def [symmetric] by (auto simp only: prod.inject)
  have len0: "length fs0 = length FEATURE_ORDER" and tidy0: "list_all tidy fs0" using assms(2) by (auto simp: fs0_def list_all_iff fit_feature_tidy)
  have sorted: "sorted_wrt (<) ([] @ kept)" by (simp add: kept_def sorted_wrt_filter)
  have ok: "no_duplicates N act kept fs \<and> length fs = length fs0 \<and> list_all tidy fs \<and> (\<forall>i. kept_in fs i \<longrightarrow> kept_in fs0 i)"
  proof (cases "1 < length kept")
    case True
    then show ?thesis
      using drop_duplicates_ok [of N act "[]" fs0 kept, OF _ sorted _ tidy0] by (simp add: fs no_duplicates_def) (simp add: kept_def list_all_iff)
  next
    case False
    then have "length kept = 0 \<or> length kept = 1" by linarith
    then have "no_duplicates N act kept fs0" by (auto simp: no_duplicates_def length_Suc_conv)
    then show ?thesis using False tidy0 by (simp add: fs)
  qed
  then show len: "length fs = length FEATURE_ORDER" and tidy: "list_all tidy fs" using len0 by auto
  show "no_duplicates N act [0..<length fs] fs" using ok by (auto simp: no_duplicates_def kept_def kept_in_def)
  show "FEATURE_ORDER ! i = ACTIVITY_FEATURE \<or> CONSTANT_STD \<le> np_std N (col i act)" if "i < length fs" "kept_in fs i"
  proof -
    have "kept_in fs0 i" using ok that(2) by blast
    moreover have "fs0 ! i = fit_feature N act (i, FEATURE_ORDER ! i, kinds ! i)" using that(1) len assms(2) by (simp add: fs0_def nth_enumerate_eq)
    ultimately show ?thesis using fit_feature_kept [of N act i] by (simp add: kept_in_def)
  qed
  have "set (keys (reasons fs0)) \<subseteq> set (keys (reasons fs))"
  proof
    fix f assume "f \<in> set (keys (reasons fs0))"
    then obtain i where i: "i < length fs0" "f = FEATURE_ORDER ! i" "\<not> kept_in fs0 i"
      unfolding reasons_keys [OF tidy0] by (auto simp: set_zip kept_in_def)
    then have "\<not> kept_in fs i" using ok by blast
    then show "f \<in> set (keys (reasons fs))"
      unfolding reasons_keys [OF tidy] using i len len0 by (auto simp: set_zip kept_in_def image_iff intro!: bexI [of _ "(FEATURE_ORDER ! i, fs ! i)"])
  qed
  moreover have "set (keys rs) = set (keys (reasons fs0)) \<union> set (keys (reasons fs))" by (force simp: rs)
  ultimately show "set (keys rs) = set (map fst (filter (\<lambda>(f, x). ff_kind x = ''drop'') (zip FEATURE_ORDER fs)))"
    unfolding reasons_keys [OF tidy, symmetric] by blast
qed

lemma stabilize_total: "list_all (\<lambda>k. k \<in> set VALID_KINDS) kinds \<Longrightarrow> \<exists>st. stabilize N kinds row = Inr st"
proof -
  assume "list_all (\<lambda>k. k \<in> set VALID_KINDS) kinds"
  then have "\<exists>y. apply_kind N x k = Inr y" if "(x, k) \<in> set (zip row kinds)" for x k
    using that by (auto simp: list_all_iff VALID_KINDS_def apply_kind_def dest: set_zip_rightD)
  then have "\<exists>y. (\<lambda>(x, k). apply_kind N x k) z = Inr y" if "z \<in> set (zip row kinds)" for z using that by (cases z) auto
  then show ?thesis unfolding stabilize_def by (rule traverse_res_total)
qed

lemma drop_duplicates_kinds:
  "ff_kind ` set (drop_duplicates N act earlier todo fs) \<subseteq> insert ''drop'' (ff_kind ` set fs)"
proof (induction N act earlier todo fs rule: drop_duplicates.induct)
  case (2 N act earlier ia kept fs)
  have "ff_kind ` set (drop_duplicate N act earlier fs ia) \<subseteq> insert ''drop'' (ff_kind ` set fs)"
    by (auto simp: drop_duplicate_def dest!: set_update_subset_insert [THEN subsetD] split: option.splits)
  then have "insert ''drop'' (ff_kind ` set (drop_duplicate N act earlier fs ia)) \<subseteq> insert ''drop'' (ff_kind ` set fs)" by blast
  with 2 show ?case unfolding drop_duplicates.simps by (rule subset_trans)
qed auto

lemma fit_features_kinds: "fit_features N kinds act = (fs, rs) \<Longrightarrow> ff_kind ` set fs \<subseteq> insert ''drop'' (set kinds)"
proof -
  assume fit: "fit_features N kinds act = (fs, rs)"
  define fs0 where "fs0 = map (fit_feature N act) (enumerate 0 (zip FEATURE_ORDER kinds))"
  have "ff_kind (fit_feature N act x) \<in> insert ''drop'' (set kinds)" if "x \<in> set (enumerate 0 (zip FEATURE_ORDER kinds))" for x
  proof -
    obtain i f k where x: "x = (i, f, k)" by (cases x)
    then have "(f, k) \<in> set (zip FEATURE_ORDER kinds)" using that nth_mem [of i "zip FEATURE_ORDER kinds"] by (simp add: x in_set_enumerate_eq del: nth_zip)
    then show ?thesis using x by (auto simp: fit_feature_def Let_def dest: set_zip_rightD)
  qed
  then have "ff_kind ` set fs0 \<subseteq> insert ''drop'' (set kinds)" by (auto simp: fs0_def)
  moreover have "ff_kind ` set fs \<subseteq> insert ''drop'' (ff_kind ` set fs0)"
  proof -
    have "fs = fs0 \<or> (\<exists>kept. fs = drop_duplicates N act [] kept fs0)"
      using fit unfolding fit_features_def Let_def fs0_def [symmetric] by (auto simp only: prod.inject split: if_splits)
    then show ?thesis using drop_duplicates_kinds by blast
  qed
  ultimately show ?thesis by (blast dest: subsetD)
qed

lemma fit_total:
  assumes "list_all (\<lambda>row. length row = length FEATURE_ORDER) X" "length (fz_kinds sc) = length FEATURE_ORDER"
    "list_all (\<lambda>k. k \<in> set VALID_KINDS) (fz_kinds sc)" "length (active_rows_of m X) = length X" "2 \<le> length (filter id (active_rows_of m X))"
  shows "\<exists>sc'. fit N sc X m = Inr sc'"
proof -
  have total: "\<exists>ys. traverse_res (stabilize N kinds) rows = Inr ys" if "list_all (\<lambda>k. k \<in> set VALID_KINDS) kinds" for kinds rows
    using stabilize_total [OF that] by (intro traverse_res_total) blast
  obtain act where act: "traverse_res (stabilize N (fz_kinds sc)) (map fst (filter snd (zip X (active_rows_of m X)))) = Inr act"
    using total [OF assms(3)] by blast
  obtain fs rs where fs: "fit_features N (fz_kinds sc) act = (fs, rs)" by force
  have "list_all (\<lambda>k. k \<in> set VALID_KINDS) (map ff_kind fs)"
    using fit_features_kinds [OF fs] assms(3) by (auto simp: list_all_iff VALID_KINDS_def)
  then have "\<exists>y. transform_row N s x = Inr y" if "fz_kinds s = map ff_kind fs" for s x
    using stabilize_total [of "fz_kinds s" N x] that by (auto simp: transform_row_def)
  then have "\<exists>ys. transform_block N s X = Inr ys" if "fz_kinds s = map ff_kind fs" for s
    using that unfolding transform_block_def by (intro traverse_res_total) blast
  then have "\<exists>ys. transform N s X = Inr ys" if "fz_kinds s = map ff_kind fs" "fz_fitted s" for s
    using that assms(1) by (simp add: transform_rows check_width_def)
  then obtain Xs where "transform N (sc\<lparr>fz_kinds := map ff_kind fs, fz_center := map ff_center fs, fz_scale := map ff_scale fs, fz_reason := rs,
      fz_rows := length X, fz_active_rows := length (filter id (active_rows_of m X)), fz_fitted := True\<rparr>) X = Inr Xs" by fastforce
  moreover have "\<not> length (filter id (active_rows_of m X)) < 2" "check_width X = Inr ()" using assms(1,5) by (simp_all add: check_width_def)
  ultimately show ?thesis using assms(4) by (simp add: fit_def Let_def act fs del: One_nat_def)
qed

lemma masked_length: "length m = length X \<Longrightarrow> length (filter snd (zip X m)) = length (filter id m)"
  by (induction m X rule: list_induct2) auto


definition id_math :: npmath where
  "id_math = \<lparr>n_log1p = \<lambda>x. x, n_expm1 = \<lambda>x. x, n_arcsinh = \<lambda>x. x, n_sinh = \<lambda>x. x, n_sqrt = \<lambda>x. x\<rparr>"

definition demo_rows :: "rat list list" where
  "demo_rows = [replicate 45 0, replicate 45 1, 5 # replicate 44 3]"




text \<open>A saved scaler loads as it was; files of another feature order are refused.\<close>

lemma saved_scaler_loads:
  assumes "save_scaler N sc = Inr (params, meta)"
  shows "load_scaler params meta = Inr sc" "order \<noteq> FEATURE_ORDER \<Longrightarrow> load_scaler params (meta\<lparr>mf_feature_order := order\<rparr>) = Inl ValueError"
    "order \<noteq> FEATURE_ORDER \<Longrightarrow> load_scaler (params\<lparr>pf_feature_order := Some order\<rparr>) meta = Inl ValueError"
  using assms by (auto simp: save_scaler_def load_scaler_def scaler_to_dict_def bind_res_eq_Inr split: if_splits option.splits)

end
