(* ===== verification/AttackMapping.thy ===== *)
theory AttackMapping
  imports Labels
begin

text \<open>
  \<open>ml/nidra/data/attack_mapping.py\<close>: the curated tables from stages and dataset labels to ATT&CK, and what a forecast
  makes of them. Notes, resolution texts and the generated document are display text and left out. A dash of the labels
  is its three bytes; probabilities are exact rationals.
\<close>

section \<open>Tables\<close>

record mitre_tactic =
  ta_id :: string
  ta_name :: string

record technique =
  tq_id :: string
  tq_name :: string
  tq_tactic :: mitre_tactic

record label_row =
  lm_label :: string
  lm_day :: string
  lm_stage :: string
  lm_techniques :: "technique list"
  lm_aliases :: "string list"

definition TA_RECON :: mitre_tactic where "TA_RECON = \<lparr>ta_id = ''TA0043'', ta_name = ''Reconnaissance''\<rparr>"
definition TA_DISCOVERY :: mitre_tactic where "TA_DISCOVERY = \<lparr>ta_id = ''TA0007'', ta_name = ''Discovery''\<rparr>"
definition TA_INITIAL_ACCESS :: mitre_tactic where "TA_INITIAL_ACCESS = \<lparr>ta_id = ''TA0001'', ta_name = ''Initial Access''\<rparr>"
definition TA_CREDENTIAL_ACCESS :: mitre_tactic where "TA_CREDENTIAL_ACCESS = \<lparr>ta_id = ''TA0006'', ta_name = ''Credential Access''\<rparr>"
definition TA_LATERAL :: mitre_tactic where "TA_LATERAL = \<lparr>ta_id = ''TA0008'', ta_name = ''Lateral Movement''\<rparr>"
definition TA_C2 :: mitre_tactic where "TA_C2 = \<lparr>ta_id = ''TA0011'', ta_name = ''Command and Control''\<rparr>"
definition TA_EXFIL :: mitre_tactic where "TA_EXFIL = \<lparr>ta_id = ''TA0010'', ta_name = ''Exfiltration''\<rparr>"
definition TA_IMPACT :: mitre_tactic where "TA_IMPACT = \<lparr>ta_id = ''TA0040'', ta_name = ''Impact''\<rparr>"

definition T_SCAN_IP :: technique where
  "T_SCAN_IP = \<lparr>tq_id = ''T1595.001'', tq_name = ''Active Scanning: Scanning IP Blocks'', tq_tactic = TA_RECON\<rparr>"
definition T_NET_SVC_DISCOVERY :: technique where
  "T_NET_SVC_DISCOVERY = \<lparr>tq_id = ''T1046'', tq_name = ''Network Service Discovery'', tq_tactic = TA_DISCOVERY\<rparr>"
definition T_PASSWORD_GUESS :: technique where
  "T_PASSWORD_GUESS = \<lparr>tq_id = ''T1110.001'', tq_name = ''Brute Force: Password Guessing'', tq_tactic = TA_CREDENTIAL_ACCESS\<rparr>"
definition T_EXTERNAL_REMOTE :: technique where
  "T_EXTERNAL_REMOTE = \<lparr>tq_id = ''T1133'', tq_name = ''External Remote Services'', tq_tactic = TA_INITIAL_ACCESS\<rparr>"
definition T_EXPLOIT_PUBLIC :: technique where
  "T_EXPLOIT_PUBLIC = \<lparr>tq_id = ''T1190'', tq_name = ''Exploit Public-Facing Application'', tq_tactic = TA_INITIAL_ACCESS\<rparr>"
definition T_REMOTE_SERVICES :: technique where
  "T_REMOTE_SERVICES = \<lparr>tq_id = ''T1021'', tq_name = ''Remote Services'', tq_tactic = TA_LATERAL\<rparr>"
definition T_WEB_C2 :: technique where
  "T_WEB_C2 = \<lparr>tq_id = ''T1071.001'', tq_name = ''Application Layer Protocol: Web Protocols'', tq_tactic = TA_C2\<rparr>"
definition T_NET_DOS_FLOOD :: technique where
  "T_NET_DOS_FLOOD = \<lparr>tq_id = ''T1498.001'', tq_name = ''Network Denial of Service: Direct Network Flood'', tq_tactic = TA_IMPACT\<rparr>"
definition T_SVC_EXHAUST :: technique where
  "T_SVC_EXHAUST = \<lparr>tq_id = ''T1499.002'', tq_name = ''Endpoint Denial of Service: Service Exhaustion Flood'', tq_tactic = TA_IMPACT\<rparr>"
definition T_APP_EXHAUST :: technique where
  "T_APP_EXHAUST = \<lparr>tq_id = ''T1499.003'', tq_name = ''Endpoint Denial of Service: Application Exhaustion Flood'', tq_tactic = TA_IMPACT\<rparr>"

definition T_EXFIL_C2 :: technique where
  "T_EXFIL_C2 = \<lparr>tq_id = ''T1041'', tq_name = ''Exfiltration Over C2 Channel'', tq_tactic = TA_EXFIL\<rparr>"

definition STAGE_MAPPINGS :: "(string, mitre_tactic list) dict" where
  "STAGE_MAPPINGS =
     [(''benign'', []),
      (''recon'', [TA_RECON, TA_DISCOVERY]),
      (''initial_access'', [TA_INITIAL_ACCESS, TA_CREDENTIAL_ACCESS]),
      (''lateral'', [TA_LATERAL, TA_DISCOVERY]),
      (''c2'', [TA_C2]),
      (''exfil'', [TA_IMPACT, TA_EXFIL])]"

definition EN_DASH :: string where "EN_DASH = [CHR 0xE2, CHR 0x80, CHR 0x93]"
definition EM_DASH :: string where "EM_DASH = [CHR 0xE2, CHR 0x80, CHR 0x94]"

definition mk_label :: "string \<Rightarrow> string \<Rightarrow> string \<Rightarrow> technique list \<Rightarrow> string list \<Rightarrow> label_row" where
  "mk_label l d s ts as = \<lparr>lm_label = l, lm_day = d, lm_stage = s, lm_techniques = ts, lm_aliases = as\<rparr>"

definition LABEL_MAPPINGS :: "label_row list" where
  "LABEL_MAPPINGS =
     [mk_label ''PortScan'' ''Friday'' ''recon'' [T_SCAN_IP, T_NET_SVC_DISCOVERY] [],
      mk_label ''FTP-Patator'' ''Tuesday'' ''initial_access'' [T_PASSWORD_GUESS, T_EXTERNAL_REMOTE] [],
      mk_label ''SSH-Patator'' ''Tuesday'' ''initial_access'' [T_PASSWORD_GUESS, T_EXTERNAL_REMOTE] [],
      mk_label (''Web Attack '' @ EN_DASH @ '' Brute Force'') ''Thursday'' ''initial_access'' [T_PASSWORD_GUESS, T_EXPLOIT_PUBLIC]
        [''Web Attack - Brute Force''],
      mk_label (''Web Attack '' @ EN_DASH @ '' XSS'') ''Thursday'' ''initial_access'' [T_EXPLOIT_PUBLIC] [''Web Attack - XSS''],
      mk_label (''Web Attack '' @ EN_DASH @ '' Sql Injection'') ''Thursday'' ''initial_access'' [T_EXPLOIT_PUBLIC] [''Web Attack - Sql Injection''],
      mk_label ''Heartbleed'' ''Wednesday'' ''initial_access'' [T_EXPLOIT_PUBLIC] [],
      mk_label ''Infiltration'' ''Thursday'' ''lateral'' [T_REMOTE_SERVICES, T_NET_SVC_DISCOVERY] [],
      mk_label ''Bot'' ''Friday'' ''c2'' [T_WEB_C2] [],
      mk_label ''DoS Hulk'' ''Wednesday'' ''exfil'' [T_APP_EXHAUST] [],
      mk_label ''DoS GoldenEye'' ''Wednesday'' ''exfil'' [T_APP_EXHAUST] [],
      mk_label ''DoS slowloris'' ''Wednesday'' ''exfil'' [T_SVC_EXHAUST] [],
      mk_label ''DoS Slowhttptest'' ''Wednesday'' ''exfil'' [T_SVC_EXHAUST] [],
      mk_label ''DDoS'' ''Friday'' ''exfil'' [T_NET_DOS_FLOOD] []]"

definition ATTACK_LABELS :: "string list" where
  "ATTACK_LABELS = map lm_label LABEL_MAPPINGS"

section \<open>Look-ups\<close>

text \<open>\<open>s.replace(old, new)\<close> for a non-empty \<open>old\<close>.\<close>

function str_replace :: "string \<Rightarrow> string \<Rightarrow> string \<Rightarrow> string" where
  "str_replace old new [] = []"
| "str_replace old new (c # cs) =
     (if old \<noteq> [] \<and> take (length old) (c # cs) = old then new @ str_replace old new (drop (length old) (c # cs))
      else c # str_replace old new cs)"
  by pat_completeness auto
termination by (relation "measure (\<lambda>(old, new, s). length s)") (auto simp: neq_Nil_conv)

text \<open>\<open>s.split()\<close> and \<open>" ".join\<close>.\<close>

fun words_from :: "string \<Rightarrow> string \<Rightarrow> string list" where
  "words_from w [] = (if w = [] then [] else [w])"
| "words_from w (c # cs) = (if is_space c then (if w = [] then words_from [] cs else w # words_from [] cs) else words_from (w @ [c]) cs)"

fun join_spaces :: "string list \<Rightarrow> string" where
  "join_spaces [] = []"
| "join_spaces [w] = w"
| "join_spaces (w # v # ws) = w @ '' '' @ join_spaces (v # ws)"

definition norm_label :: "string \<Rightarrow> string" where
  "norm_label s = join_spaces (words_from [] (lower (str_replace EM_DASH ''-'' (str_replace EN_DASH ''-'' s))))"

definition label_mapping :: "string \<Rightarrow> label_row option" where
  "label_mapping raw_label = (let key = norm_label raw_label in
     List.find (\<lambda>m. key = norm_label (lm_label m) \<or> list_ex (\<lambda>a. key = norm_label a) (lm_aliases m)) LABEL_MAPPINGS)"

definition stage_tactics :: "string \<Rightarrow> mitre_tactic list res" where
  "stage_tactics stage = (case map_of STAGE_MAPPINGS stage of None \<Rightarrow> Inl ValueError | Some ts \<Rightarrow> Inr ts)"

text \<open>\<open>seen.setdefault(t.id, t)\<close>.\<close>

definition set_default :: "'k \<Rightarrow> 'v \<Rightarrow> ('k, 'v) dict \<Rightarrow> ('k, 'v) dict" where
  "set_default k v d = (if map_of d k = None then d @ [(k, v)] else d)"

definition techniques_for_stage :: "string \<Rightarrow> technique list" where
  "techniques_for_stage stage =
     map snd (foldl (\<lambda>seen t. set_default (tq_id t) t seen) [] (concat (map lm_techniques (filter (\<lambda>m. lm_stage m = stage) LABEL_MAPPINGS))))"

section \<open>What a forecast says\<close>

record stage_candidate =
  sc_stage :: string
  sc_probability :: rat
  sc_tactics :: "mitre_tactic list"
  sc_techniques :: "technique list"

definition map_stage_distribution :: "(string, rat) dict \<Rightarrow> rat \<Rightarrow> stage_candidate list res" where
  "map_stage_distribution stage_probs min_prob =
     traverse_res (\<lambda>(stage, p). bind_res (stage_tactics stage) (\<lambda>ts.
         Inr \<lparr>sc_stage = stage, sc_probability = p, sc_tactics = ts, sc_techniques = techniques_for_stage stage\<rparr>))
       (filter (\<lambda>(stage, p). \<not> (stage = ''benign'' \<or> p < min_prob)) (sort_key (\<lambda>kv. - snd kv) stage_probs))"

record progression_step =
  ps_k :: nat
  ps_t :: int
  ps_stage :: string
  ps_probability :: rat
  ps_tactics :: "mitre_tactic list"

record first_seen =
  fs_tactic :: mitre_tactic
  fs_k :: nat
  fs_t :: int
  fs_stage :: string

text \<open>\<open>max(dist.items(), key=...)\<close>: the first of the largest.\<close>

fun argmax_from :: "string \<times> rat \<Rightarrow> (string, rat) dict \<Rightarrow> string \<times> rat" where
  "argmax_from best [] = best"
| "argmax_from best (x # xs) = argmax_from (if snd best < snd x then x else best) xs"

definition argmax_stage :: "(string, rat) dict \<Rightarrow> (string \<times> rat) res" where
  "argmax_stage probs = (case probs of [] \<Rightarrow> Inl ValueError | x # xs \<Rightarrow> Inr (argmax_from x xs))"

definition progression_step_of :: "int \<Rightarrow> nat \<times> (string, rat) dict \<Rightarrow> progression_step res" where
  "progression_step_of window_seconds = (\<lambda>(k, probs).
     bind_res (argmax_stage probs) (\<lambda>(stage, p). bind_res (stage_tactics stage) (\<lambda>tactics.
       Inr \<lparr>ps_k = k, ps_t = int k * window_seconds, ps_stage = stage, ps_probability = p, ps_tactics = tactics\<rparr>)))"

definition see_tactics :: "(string, first_seen) dict \<Rightarrow> progression_step \<Rightarrow> (string, first_seen) dict" where
  "see_tactics first_seen s = foldl (\<lambda>d t. set_default (ta_id t) \<lparr>fs_tactic = t, fs_k = ps_k s, fs_t = ps_t s, fs_stage = ps_stage s\<rparr> d) first_seen (ps_tactics s)"

definition progression_summary :: "(string, rat) dict list \<Rightarrow> int \<Rightarrow> (progression_step list \<times> first_seen list) res" where
  "progression_summary horizon_stage_dists window_seconds =
     bind_res (traverse_res (progression_step_of window_seconds) (enumerate 1 horizon_stage_dists)) (\<lambda>steps.
       Inr (steps, sort_key fs_k (map snd (foldl see_tactics [] steps))))"

definition validate_tables :: "unit res" where
  "validate_tables =
     bind_res (traverse_res (\<lambda>m. bind_res (map_label_to_stage (lm_label m) ''cic'') (\<lambda>via_rules.
       if via_rules \<noteq> lm_stage m then Inl AssertionError else if lm_stage m \<notin> set STAGES then Inl AssertionError else Inr ())) LABEL_MAPPINGS) (\<lambda>_.
     if set (keys STAGE_MAPPINGS) \<noteq> set STAGES then Inl AssertionError else Inr ())"

section \<open>Ranking\<close>

lemma traverse_known:
  "list_all (\<lambda>x. g (fst x) \<noteq> None) xs \<Longrightarrow> traverse_res (\<lambda>(s, p). bind_res (case g s of None \<Rightarrow> Inl ValueError | Some t \<Rightarrow> Inr t) (\<lambda>ts. Inr (f s p ts))) xs =
     Inr (map (\<lambda>(s, p). f s p (the (g s))) xs)"
  by (rule traverse_res_all) (auto simp: list_all_iff)

lemma stages_mapped: "map_of STAGE_MAPPINGS s \<noteq> None \<longleftrightarrow> s \<in> set STAGES"
  by (simp add: STAGE_MAPPINGS_def STAGES_def)

text \<open>
  A horizon's candidates are its attack stages, most likely first. For a distribution over the known stages every
  attack stage with at least the minimal probability is listed once, with its probability, the tactics of its bucket and
  techniques of labels of that stage only; no other stage is.
\<close>
lemma candidates_are_ranked:
  assumes "wf_dict probs" "set (keys probs) \<subseteq> set STAGES"
  shows "\<exists>out. map_stage_distribution probs min_prob = Inr out \<and> sorted_wrt (\<lambda>a b. sc_probability b \<le> sc_probability a) out \<and>
    distinct (map sc_stage out) \<and>
    (\<lambda>c. (sc_stage c, sc_probability c)) ` set out = {(s, p) \<in> set probs. s \<noteq> ''benign'' \<and> min_prob \<le> p} \<and>
    list_all (\<lambda>c. map_of STAGE_MAPPINGS (sc_stage c) = Some (sc_tactics c) \<and> sc_techniques c = techniques_for_stage (sc_stage c)) out"
proof -
  define xs where "xs = filter (\<lambda>(stage, p). \<not> (stage = ''benign'' \<or> p < min_prob)) (sort_key (\<lambda>kv. - snd kv) probs)"
  define f where "f = (\<lambda>s p ts. \<lparr>sc_stage = s, sc_probability = p, sc_tactics = ts, sc_techniques = techniques_for_stage s\<rparr>)"
  have xs: "set xs = {(s, p) \<in> set probs. s \<noteq> ''benign'' \<and> min_prob \<le> p}" by (auto simp: xs_def)
  have known: "list_all (\<lambda>x. map_of STAGE_MAPPINGS (fst x) \<noteq> None) xs" using assms(2) xs stages_mapped by (force simp: list_all_iff)
  have out: "map_stage_distribution probs min_prob = Inr (map (\<lambda>(s, p). f s p (the (map_of STAGE_MAPPINGS s))) xs)"
    unfolding map_stage_distribution_def stage_tactics_def xs_def [symmetric] f_def [symmetric] by (subst traverse_known [OF known, of f, symmetric]) (simp add: f_def)
  have "sorted_wrt (\<lambda>a b. - snd a \<le> - snd b) (sort_key (\<lambda>kv. - snd kv) probs)"
    using sorted_sort_key [of "\<lambda>kv. - snd kv" probs] by (simp add: sorted_map)
  then have "sorted_wrt (\<lambda>a b. snd b \<le> snd a) xs" by (simp add: xs_def sorted_wrt_filter)
  then have "sorted_wrt (\<lambda>a b. sc_probability b \<le> sc_probability a) (map (\<lambda>(s, p). f s p (the (map_of STAGE_MAPPINGS s))) xs)"
    by (auto simp: sorted_wrt_map f_def case_prod_beta elim!: sorted_wrt_mono_rel [rotated])
  moreover have "distinct (map fst (sort_key (\<lambda>kv. - snd kv) probs))"
    using assms(1) by (simp add: wf_dict_def distinct_map)
  then have "distinct (map fst xs)" by (simp add: xs_def distinct_map_filter)
  then have "distinct (map sc_stage (map (\<lambda>(s, p). f s p (the (map_of STAGE_MAPPINGS s))) xs))"
    by (simp add: f_def comp_def case_prod_beta)
  moreover have "(\<lambda>c. (sc_stage c, sc_probability c)) ` set (map (\<lambda>(s, p). f s p (the (map_of STAGE_MAPPINGS s))) xs) = set xs"
    by (simp add: f_def image_image case_prod_beta)
  moreover have "list_all (\<lambda>c. map_of STAGE_MAPPINGS (sc_stage c) = Some (sc_tactics c) \<and> sc_techniques c = techniques_for_stage (sc_stage c))
      (map (\<lambda>(s, p). f s p (the (map_of STAGE_MAPPINGS s))) xs)"
    using known by (auto simp: list_all_iff f_def)
  ultimately show ?thesis using out xs by auto
qed

lemma filter_pairs: "{(s, p) \<in> set xs. s \<noteq> a \<and> b \<le> p} = set (filter (\<lambda>(s, p). s \<noteq> a \<and> b \<le> p) xs)"
  by auto

lemma candidates_are_ranked_witness:
  "\<exists>out. map_stage_distribution [(''benign'', 1 / 2), (''c2'', 1 / 10), (''recon'', 4 / 10)] (1 / 20) = Inr out \<and> sorted_wrt (\<lambda>a b. sc_probability b \<le> sc_probability a) out \<and>
    (\<lambda>c. (sc_stage c, sc_probability c)) ` set out = {(''recon'', 4 / 10), (''c2'', 1 / 10)}"
proof -
  have "{(s, p) \<in> set [(''benign'', 1 / 2), (''c2'', 1 / 10), (''recon'', 4 / 10 :: rat)]. s \<noteq> ''benign'' \<and> 1 / 20 \<le> p} =
      set (filter (\<lambda>(s, p). s \<noteq> ''benign'' \<and> 1 / 20 \<le> p) [(''benign'', 1 / 2), (''c2'', 1 / 10), (''recon'', 4 / 10 :: rat)])"
    by (rule filter_pairs)
  also have "\<dots> = {(''recon'', 4 / 10), (''c2'', 1 / 10)}" by (simp add: insert_commute)
  finally have "{(s, p) \<in> set [(''benign'', 1 / 2), (''c2'', 1 / 10), (''recon'', 4 / 10 :: rat)]. s \<noteq> ''benign'' \<and> 1 / 20 \<le> p} =
      {(''recon'', 4 / 10), (''c2'', 1 / 10)}" .
  moreover have "wf_dict [(''benign'', 1 / 2), (''c2'', 1 / 10), (''recon'', 4 / 10 :: rat)]" by (simp add: wf_dict_def)
  moreover have "set (keys [(''benign'', 1 / 2), (''c2'', 1 / 10), (''recon'', 4 / 10 :: rat)]) \<subseteq> set STAGES" by (simp add: STAGES_def)
  ultimately show ?thesis using candidates_are_ranked [of "[(''benign'', 1 / 2), (''c2'', 1 / 10), (''recon'', 4 / 10)]" "1 / 20"] by metis
qed

section \<open>Progression\<close>

lemma argmax_from: "argmax_from best xs \<in> set (best # xs) \<and> (\<forall>x \<in> set (best # xs). snd x \<le> snd (argmax_from best xs))"
  by (induction best xs rule: argmax_from.induct) (auto split: if_splits)

lemma map_of_set_default: "map_of (set_default k v d) k' = (if map_of d k = None \<and> k' = k then Some v else map_of d k')"
  by (auto simp: set_default_def map_add_def split: option.splits)

lemma map_of_foldl_set_default:
  "map_of (foldl (\<lambda>d (k, v). set_default k v d) d xs) k = (case map_of d k of Some v \<Rightarrow> Some v | None \<Rightarrow> map_of xs k)"
proof (induction xs arbitrary: d)
  case (Cons x xs)
  then show ?case by (cases x) (simp only: foldl_Cons prod.case, auto simp: map_of_set_default split: option.splits)
qed (simp split: option.splits)

lemma distinct_foldl_set_default: "distinct (keys d) \<Longrightarrow> distinct (keys (foldl (\<lambda>d (k, v). set_default k v d) d xs))"
proof (induction xs arbitrary: d)
  case (Cons x xs)
  have "distinct (keys (set_default (fst x) (snd x) d))" using Cons.prems by (auto simp: set_default_def map_of_eq_None_iff)
  then show ?case using Cons.IH by (simp add: case_prod_beta)
qed simp

definition mentions :: "progression_step \<Rightarrow> (string, first_seen) dict" where
  "mentions s = map (\<lambda>t. (ta_id t, \<lparr>fs_tactic = t, fs_k = ps_k s, fs_t = ps_t s, fs_stage = ps_stage s\<rparr>)) (ps_tactics s)"

lemma see_tactics_flat: "foldl see_tactics d steps = foldl (\<lambda>d (k, v). set_default k v d) d (concat (map mentions steps))"
proof (induction steps arbitrary: d)
  case (Cons s steps)
  have "see_tactics d s = foldl (\<lambda>d (k, v). set_default k v d) d (mentions s)"
    by (simp add: see_tactics_def mentions_def foldl_map)
  then show ?case using Cons by simp
qed simp

lemma progression_step_Inr:
  assumes "progression_step_of W (k, probs) = Inr s"
  shows "ps_k s = k \<and> ps_t s = int k * W \<and> (ps_stage s, ps_probability s) \<in> set probs \<and>
    list_all (\<lambda>(stage, p). p \<le> ps_probability s) probs \<and> map_of STAGE_MAPPINGS (ps_stage s) = Some (ps_tactics s)"
proof -
  obtain x xs where probs: "probs = x # xs" using assms by (cases probs) (auto simp: progression_step_of_def argmax_stage_def)
  obtain ts where ts: "map_of STAGE_MAPPINGS (fst (argmax_from x xs)) = Some ts"
    "s = \<lparr>ps_k = k, ps_t = int k * W, ps_stage = fst (argmax_from x xs), ps_probability = snd (argmax_from x xs), ps_tactics = ts\<rparr>"
    using assms by (auto simp: probs progression_step_of_def argmax_stage_def bind_res_eq_Inr stage_tactics_def case_prod_beta split: option.splits)
  then show ?thesis using argmax_from [of x xs] by (simp add: probs list_all_iff case_prod_beta)
qed

text \<open>The tactics found, as pairs of an identifier and an entry.\<close>

lemma seen_mentions:
  assumes "d = foldl (\<lambda>d (k, v). set_default k v d) [] (concat (map mentions steps))"
  shows "map (\<lambda>f. (ta_id (fs_tactic f), f)) (map snd d) = d" "distinct (keys d)" "map_of d = map_of (concat (map mentions steps))"
proof -
  show mo: "map_of d = map_of (concat (map mentions steps))" by (rule ext) (simp add: assms map_of_foldl_set_default)
  show di: "distinct (keys d)" unfolding assms by (rule distinct_foldl_set_default) simp
  have "ta_id (fs_tactic f) = k" if "(k, f) \<in> set d" for k f
  proof -
    have "map_of (concat (map mentions steps)) k = Some f" using that di mo by (metis map_of_eq_Some_iff)
    then show ?thesis by (auto dest!: map_of_SomeD simp: mentions_def)
  qed
  then show "map (\<lambda>f. (ta_id (fs_tactic f), f)) (map snd d) = d" by (auto simp: comp_def intro!: map_idI)
qed

text \<open>
  A progression names every mitre_tactic once, where it is first the most likely. Step \<open>k\<close> of the summary is a most
  likely stage of horizon \<open>k\<close> with the tactics of its bucket, and the list of tactics has, for every mitre_tactic of a step
  and no other, the first step that has it, in the order of the steps.
\<close>
lemma progression_first_seen:
  assumes "progression_summary horizons W = Inr (steps, seen)"
  shows "length steps = length horizons \<and>
    list_all (\<lambda>(k, probs, s). ps_k s = k \<and> ps_t s = int k * W \<and> (ps_stage s, ps_probability s) \<in> set probs \<and>
      list_all (\<lambda>(stage, p). p \<le> ps_probability s) probs \<and> map_of STAGE_MAPPINGS (ps_stage s) = Some (ps_tactics s)) (zip [1..<length horizons + 1] (zip horizons steps)) \<and>
    sorted (map fs_k seen) \<and> distinct (map (\<lambda>f. ta_id (fs_tactic f)) seen) \<and>
    map_of (map (\<lambda>f. (ta_id (fs_tactic f), f)) seen) = map_of (concat (map mentions steps))"
proof -
  define d where "d = foldl (\<lambda>d (k, v). set_default k v d) [] (concat (map mentions steps))"
  have run: "list_all2 (\<lambda>x s. progression_step_of W x = Inr s) (enumerate 1 horizons) steps" and seen: "seen = sort_key fs_k (map snd d)"
    using assms by (auto simp: progression_summary_def bind_res_eq_Inr traverse_res_Inr see_tactics_flat d_def)
  have len: "length steps = length horizons" using list_all2_lengthD [OF run] by simp
  have step: "progression_step_of W (i + 1, horizons ! i) = Inr (steps ! i)" if "i < length horizons" for i
    using list_all2_nthD [OF run, of i] that by (simp add: nth_enumerate_eq)
  note found = seen_mentions [OF d_def]
  let ?e = "\<lambda>f. (ta_id (fs_tactic f), f)"
  have "mset seen = mset (map snd d)" unfolding seen by simp
  then have "mset (map ?e seen) = mset (map ?e (map snd d))" by (simp only: mset_map)
  then have same: "mset (map ?e seen) = mset d" unfolding found(1) .
  then have "distinct (keys (map ?e seen))" using found(2) mset_eq_imp_distinct_iff [of "keys (map ?e seen)" "keys d"] by (simp only: mset_map simp_thms)
  moreover from this found(2) have "map_of (map ?e seen) = map_of d" using mset_eq_setD [OF same] by (simp only: map_of_inject_set)
  moreover have "sorted (map fs_k seen)" by (simp add: seen)
  moreover have "list_all (\<lambda>(k, probs, s). ps_k s = k \<and> ps_t s = int k * W \<and> (ps_stage s, ps_probability s) \<in> set probs \<and>
      list_all (\<lambda>(stage, p). p \<le> ps_probability s) probs \<and> map_of STAGE_MAPPINGS (ps_stage s) = Some (ps_tactics s)) (zip [1..<length horizons + 1] (zip horizons steps))"
  proof (rule list_all_length [THEN iffD2], intro allI impI)
    fix i assume "i < length (zip [1..<length horizons + 1] (zip horizons steps))"
    then have i: "i < length horizons" and zip: "zip [1..<length horizons + 1] (zip horizons steps) ! i = (i + 1, horizons ! i, steps ! i)"
      using len by (simp_all add: nth_upt del: upt_Suc)
    show "case zip [1..<length horizons + 1] (zip horizons steps) ! i of (k, probs, s) \<Rightarrow> ps_k s = k \<and> ps_t s = int k * W \<and>
        (ps_stage s, ps_probability s) \<in> set probs \<and> list_all (\<lambda>(stage, p). p \<le> ps_probability s) probs \<and>
        map_of STAGE_MAPPINGS (ps_stage s) = Some (ps_tactics s)"
      unfolding zip prod.case by (rule progression_step_Inr [OF step [OF i]])
  qed
  ultimately show ?thesis using len found(3) by (simp add: comp_def)
qed

lemma progression_first_seen_witness:
  "\<exists>steps seen. progression_summary [[(''benign'', 6 / 10), (''recon'', 4 / 10)], [(''recon'', 7 / 10), (''c2'', 3 / 10)]] 60 = Inr (steps, seen) \<and>
     sorted (map fs_k seen) \<and> distinct (map (\<lambda>f. ta_id (fs_tactic f)) seen)"
proof -
  have "case progression_summary [[(''benign'', 6 / 10), (''recon'', 4 / 10)], [(''recon'', 7 / 10), (''c2'', 3 / 10)]] 60 of Inl e \<Rightarrow> False | Inr x \<Rightarrow> True"
    by code_simp
  then obtain steps seen where run: "progression_summary [[(''benign'', 6 / 10), (''recon'', 4 / 10)], [(''recon'', 7 / 10), (''c2'', 3 / 10)]] 60 = Inr (steps, seen)"
    by (auto split: sum.splits)
  show ?thesis using progression_first_seen [OF run] run by blast
qed

text \<open>The most likely stage of a step may be the benign one.\<close>

lemma step_may_be_benign:
  "progression_step_of W (k, [(''benign'', 6 / 10), (''recon'', 4 / 10)]) =
     Inr \<lparr>ps_k = k, ps_t = int k * W, ps_stage = ''benign'', ps_probability = 6 / 10, ps_tactics = []\<rparr>"
  by (simp add: progression_step_of_def argmax_stage_def stage_tactics_def STAGE_MAPPINGS_def)

end
