(* ===== verification/WindowGraph.thy ===== *)
theory WindowGraph
  imports Tables Compute
begin

text \<open>
  \<open>ml/nidra/data/graph_features.py\<close>: the graph scalars of one window as the training pipeline computes them, and
  the peer tracker. Sets of hosts are lists without repetition; a \<open>Counter\<close> is an association list. Which
  neighbours numpy draws from a neighbourhood above the cap is the parameter \<open>pick\<close>, the natural logarithm is
  that of \<open>M\<close>; the numbers are exact rationals.
\<close>

section \<open>Helpers\<close>

definition graph_entropy :: "pymath \<Rightarrow> nat list \<Rightarrow> rat" where
  "graph_entropy M counts =
     (let cs = filter (\<lambda>c. 0 < c) counts; tot = of_nat (sum_list cs) in
      if cs = [] then 0 else - sum_list (map (\<lambda>c. let p = of_nat c / tot in p * m_log M p) cs))"

definition graph_safe_div :: "rat \<Rightarrow> rat \<Rightarrow> rat" where
  "graph_safe_div numerator denominator = (if denominator = 0 then 0 else numerator / denominator)"

section \<open>The peer tracker\<close>

record peer_tracker =
  pt_seen :: "(string, string list) dict"
  pt_prev_out_degree :: "(string, nat) dict"
  pt_prev_median :: rat

definition fresh_tracker :: peer_tracker where
  "fresh_tracker = \<lparr>pt_seen = [], pt_prev_out_degree = [], pt_prev_median = 0\<rparr>"

definition new_peer_count :: "string \<Rightarrow> string list \<Rightarrow> peer_tracker \<Rightarrow> nat \<times> peer_tracker" where
  "new_peer_count host peers tr =
     (let seen = dict_get (pt_seen tr) host []; new = filter (\<lambda>p. p \<notin> set seen) peers
      in (length new, tr\<lparr>pt_seen := dict_set host (seen @ new) (pt_seen tr)\<rparr>))"

definition neighbour_risk_fraction :: "string list \<Rightarrow> peer_tracker \<Rightarrow> rat" where
  "neighbour_risk_fraction peers tr =
     (if peers = [] then 0
      else of_nat (length (filter (\<lambda>p. pt_prev_median tr < of_nat (dict_get (pt_prev_out_degree tr) p 0)) peers))
        / of_nat (length peers))"

definition commit_window :: "(string, nat) dict \<Rightarrow> peer_tracker \<Rightarrow> peer_tracker" where
  "commit_window degrees tr =
     tr\<lparr>pt_prev_out_degree := degrees,
        pt_prev_median := (case median_rat (map of_nat (map snd degrees)) of None \<Rightarrow> 0 | Some m \<Rightarrow> m)\<rparr>"

section \<open>One window\<close>

text \<open>Source, destination and destination port of a flow.\<close>

type_synonym flow_end = "string \<times> string \<times> int"

record graph_result =
  gr_out_degree :: "(string, nat) dict"
  gr_in_degree :: "(string, nat) dict"
  gr_out_peers :: "(string, string list) dict"
  gr_dst_ip_entropy :: "(string, rat) dict"
  gr_dst_port_entropy :: "(string, rat) dict"
  gr_clustering :: "(string, rat) dict"
  gr_reciprocity :: "(string, rat) dict"

text \<open>\<open>d[k][x] += 1\<close> and \<open>d[k].add(x)\<close> on defaultdicts.\<close>

definition count_up :: "'k \<Rightarrow> 'x \<Rightarrow> ('k, ('x, nat) dict) dict \<Rightarrow> ('k, ('x, nat) dict) dict" where
  "count_up k x d = (let c = dict_get d k [] in dict_set k (dict_set x (dict_get c x 0 + 1) c) d)"

definition put_in :: "string \<Rightarrow> string \<Rightarrow> (string, string list) dict \<Rightarrow> (string, string list) dict" where
  "put_in k x d = dict_set k (add_member x (dict_get d k [])) d"

text \<open>\<open>out_edges\<close>, \<open>in_edges\<close> and \<open>out_ports\<close>.\<close>

fun tally :: "flow_end list \<Rightarrow> (string, (string, nat) dict) dict \<times> (string, string list) dict \<times> (string, (int, nat) dict) dict \<Rightarrow>
    (string, (string, nat) dict) dict \<times> (string, string list) dict \<times> (string, (int, nat) dict) dict" where
  "tally [] acc = acc"
| "tally ((src, dst, port) # flows) (out_edges, in_edges, out_ports) =
     tally flows (count_up src dst out_edges, put_in dst src in_edges, count_up src port out_ports)"

text \<open>The double loop over the pairs of neighbours.\<close>

fun tri_links :: "(string \<Rightarrow> string list) \<Rightarrow> string list \<Rightarrow> nat" where
  "tri_links nb [] = 0"
| "tri_links nb (n # rest) = length (filter (\<lambda>m. m \<in> set (nb n)) rest) + tri_links nb rest"

definition local_clustering :: "(string \<Rightarrow> string list) \<Rightarrow> string list \<Rightarrow> rat" where
  "local_clustering nb ns =
     (let k = length ns; possible = of_nat (k * (k - 1)) / 2 in
      if k < 2 then 0 else if 0 < possible then of_nat (tri_links nb ns) / possible else 0)"

definition compute_window_graph ::
    "(string \<Rightarrow> string list \<Rightarrow> string list) \<Rightarrow> pymath \<Rightarrow> nat \<Rightarrow> flow_end list \<Rightarrow> graph_result" where
  "compute_window_graph pick M degree_cap flows =
     (let (out_edges, in_edges, out_ports) = tally flows ([], [], []);
          hosts = remdups (keys out_edges @ keys in_edges);
          out_of = (\<lambda>h. keys (dict_get out_edges h [])); in_of = (\<lambda>h. dict_get in_edges h []);
          nb = (\<lambda>h. remdups (out_of h @ in_of h));
          drawn = (\<lambda>h. if degree_cap < length (nb h) then pick h (nb h) else nb h)
      in \<lparr>gr_out_degree = map (\<lambda>h. (h, length (out_of h))) hosts,
          gr_in_degree = map (\<lambda>h. (h, length (in_of h))) hosts,
          gr_out_peers = map (\<lambda>h. (h, out_of h)) hosts,
          gr_dst_ip_entropy = map (\<lambda>h. (h, graph_entropy M (map snd (dict_get out_edges h [])))) hosts,
          gr_dst_port_entropy = map (\<lambda>h. (h, graph_entropy M (map snd (dict_get out_ports h [])))) hosts,
          gr_clustering = map (\<lambda>h. (h, local_clustering nb (drawn h))) hosts,
          gr_reciprocity = map (\<lambda>h. (h, if out_of h = [] then 0
            else of_nat (length (filter (\<lambda>p. h \<in> set (in_of p)) (out_of h))) / of_nat (length (out_of h)))) hosts\<rparr>)"

section \<open>What the tally holds\<close>

lemma dict_get_table: "dict_get (map (\<lambda>h. (h, f h)) hs) h z = (if h \<in> set hs then f h else z)"
  by (simp add: dict_get_def map_of_map_restrict restrict_map_def)

lemma count_up_keys:
  "set (keys (dict_get (count_up k x d) h [])) = set (keys (dict_get d h [])) \<union> (if h = k then {x} else {})"
  "distinct (keys (dict_get d h [])) \<Longrightarrow> distinct (keys (dict_get (count_up k x d) h []))"
  "set (keys (count_up k x d)) = insert k (set (keys d))"
  by (auto simp: count_up_def Let_def dict_simps wf_dict_set [unfolded wf_dict_def])

lemma put_in_members:
  "set (dict_get (put_in k x d) h []) = set (dict_get d h []) \<union> (if h = k then {x} else {})"
  "distinct (dict_get d h []) \<Longrightarrow> distinct (dict_get (put_in k x d) h [])"
  "set (keys (put_in k x d)) = insert k (set (keys d))"
  by (auto simp: put_in_def dict_simps)

text \<open>The edges of a window's flows.\<close>

definition edges_of :: "flow_end list \<Rightarrow> (string \<times> string) list" where
  "edges_of flows = map (\<lambda>(s, d, p). (s, d)) flows"

lemma tally_edges:
  assumes "tally flows (oe, ie, op) = (oe', ie', op')"
  shows "set (keys (dict_get oe' h [])) = set (keys (dict_get oe h [])) \<union> {d. (h, d) \<in> set (edges_of flows)} \<and>
    set (dict_get ie' h []) = set (dict_get ie h []) \<union> {s. (s, h) \<in> set (edges_of flows)} \<and>
    (distinct (keys (dict_get oe h [])) \<longrightarrow> distinct (keys (dict_get oe' h []))) \<and>
    (distinct (dict_get ie h []) \<longrightarrow> distinct (dict_get ie' h [])) \<and>
    set (keys oe') = set (keys oe) \<union> fst ` set (edges_of flows) \<and> set (keys ie') = set (keys ie) \<union> snd ` set (edges_of flows)"
  using assms
proof (induction flows "(oe, ie, op)" arbitrary: oe ie op rule: tally.induct)
  case (2 src dst port flows out_edges in_edges out_ports)
  have "tally flows (count_up src dst out_edges, put_in dst src in_edges, count_up src port out_ports) = (oe', ie', op')"
    using "2.prems" by simp
  note ih = "2.hyps" [OF this]
  have es: "set (edges_of ((src, dst, port) # flows)) = insert (src, dst) (set (edges_of flows))" by (simp add: edges_of_def)
  show ?case
  proof (intro conjI)
    show "set (keys (dict_get oe' h [])) = set (keys (dict_get out_edges h [])) \<union> {d. (h, d) \<in> set (edges_of ((src, dst, port) # flows))}"
      unfolding es using ih count_up_keys(1) [of src dst out_edges h] by (cases "h = src") auto
    show "set (dict_get ie' h []) = set (dict_get in_edges h []) \<union> {s. (s, h) \<in> set (edges_of ((src, dst, port) # flows))}"
      unfolding es using ih put_in_members(1) [of dst src in_edges h] by (cases "h = dst") auto
    show "distinct (keys (dict_get out_edges h [])) \<longrightarrow> distinct (keys (dict_get oe' h []))" using ih count_up_keys(2) [of out_edges h src dst] by simp
    show "distinct (dict_get in_edges h []) \<longrightarrow> distinct (dict_get ie' h [])" using ih put_in_members(2) [of in_edges h dst src] by simp
    show "set (keys oe') = set (keys out_edges) \<union> fst ` set (edges_of ((src, dst, port) # flows))"
      unfolding es using ih count_up_keys(3) [of src dst out_edges] by simp
    show "set (keys ie') = set (keys in_edges) \<union> snd ` set (edges_of ((src, dst, port) # flows))"
      unfolding es using ih put_in_members(3) [of dst src in_edges] by simp
  qed
qed (simp add: edges_of_def)

lemma dict_get_Nil [simp]: "dict_get [] k z = z"
  by (simp add: dict_get_def)

lemma tri_links_count:
  assumes "\<And>n. set (nb n) = set (successors g n) \<union> set (predecessors g n)" "set ns \<subseteq> set present"
  shows "tri_links nb ns = count_links g present ns"
  using assms(2)
proof (induction ns)
  case (Cons n ns)
  have "filter (\<lambda>m. m \<in> set (nb n)) ns =
      filter (\<lambda>m. (m \<in> set (successors g n) \<or> m \<in> set (predecessors g n)) \<and> m \<in> set present) ns"
    using Cons.prems by (intro filter_cong) (auto simp: assms(1))
  then show ?case using Cons by simp
qed simp

lemma length_filter_distinct:
  assumes "distinct xs" "distinct ys" "set xs = set ys"
  shows "length xs = length ys"
  using assms distinct_card [of xs] distinct_card [of ys] by simp

text \<open>The values of one host, whatever the tally is called.\<close>

lemma window_graph_values:
  fixes cap :: nat and M :: pymath and pick :: "string \<Rightarrow> string list \<Rightarrow> string list"
  assumes es: "es = edges_of flows"
  defines "g \<equiv> compute_window_graph pick M cap flows"
  shows "dict_get (gr_out_degree g) h 0 = card {d. (h, d) \<in> set es}" (is ?out)
    and "dict_get (gr_in_degree g) h 0 = card {s. (s, h) \<in> set es}" (is ?inn)
    and "set (dict_get (gr_out_peers g) h []) = {d. (h, d) \<in> set es}" (is ?peers)
    and "distinct (dict_get (gr_out_peers g) h [])" (is ?dist)
    and "dict_get (gr_reciprocity g) h 0 = (if {d. (h, d) \<in> set es} = {} then 0 else 1)" (is ?rec)
    and "card {d. linked es h d} \<le> cap \<Longrightarrow> dict_get (gr_clustering g) h 0 =
      (let V = {d. linked es h d}; n = card V in if n < 2 then 0 else of_nat (card (links_among es V)) / (of_nat (n * (n - 1)) / 2))"
      (is "_ \<Longrightarrow> ?clu")
proof -
  obtain oe ie op where tally: "tally flows ([], [], []) = (oe, ie, op)" by (cases "tally flows ([], [], [])") auto
  define out_of where "out_of = (\<lambda>h. keys (dict_get oe h []))"
  define in_of where "in_of = (\<lambda>h. dict_get ie h [])"
  define nb where "nb = (\<lambda>h. remdups (out_of h @ in_of h))"
  define hosts where "hosts = remdups (keys oe @ keys ie)"
  note facts = tally_edges [OF tally, folded es]
  have out: "set (out_of h) = {d. (h, d) \<in> set es}" "distinct (out_of h)" for h using facts [of h] by (auto simp: out_of_def)
  have inn: "set (in_of h) = {s. (s, h) \<in> set es}" "distinct (in_of h)" for h using facts [of h] by (auto simp: in_of_def)
  have nbs: "set (nb n) = {d. linked es n d}" "distinct (nb n)" for n by (auto simp: nb_def out inn linked_def)
  have hosts: "set hosts = fst ` set es \<union> snd ` set es" using facts [of h] by (auto simp: hosts_def)
  have none: "out_of h = [] \<and> in_of h = []" if "h \<notin> set hosts" for h
    using that out(1) [of h] inn(1) [of h] unfolding hosts by (force simp flip: set_empty)
  have g: "g = \<lparr>gr_out_degree = map (\<lambda>h. (h, length (out_of h))) hosts,
      gr_in_degree = map (\<lambda>h. (h, length (in_of h))) hosts, gr_out_peers = map (\<lambda>h. (h, out_of h)) hosts,
      gr_dst_ip_entropy = map (\<lambda>h. (h, graph_entropy M (map snd (dict_get oe h [])))) hosts,
      gr_dst_port_entropy = map (\<lambda>h. (h, graph_entropy M (map snd (dict_get op h [])))) hosts,
      gr_clustering = map (\<lambda>h. (h, local_clustering nb (if cap < length (nb h) then pick h (nb h) else nb h))) hosts,
      gr_reciprocity = map (\<lambda>h. (h, if out_of h = [] then 0
        else of_nat (length (filter (\<lambda>p. h \<in> set (in_of p)) (out_of h))) / of_nat (length (out_of h)))) hosts\<rparr>"
    unfolding g_def compute_window_graph_def tally by (simp add: Let_def out_of_def in_of_def nb_def hosts_def)
  show ?out using none [of h] distinct_card [OF out(2) [of h]] by (auto simp: g dict_get_table out)
  show ?inn using none [of h] distinct_card [OF inn(2) [of h]] by (auto simp: g dict_get_table inn)
  show ?peers unfolding out(1) [of h, symmetric] using none [of h] by (cases "h \<in> set hosts") (auto simp: g dict_get_table)
  show ?dist using out(2) [of h] by (simp add: g dict_get_table)
  have all: "filter (\<lambda>p. h \<in> set (in_of p)) (out_of h) = out_of h" by (rule filter_True) (simp add: out inn)
  have empt: "{d. (h, d) \<in> set es} = {} \<longleftrightarrow> out_of h = []" using out(1) [of h] by (metis set_empty)
  show ?rec unfolding empt using none [of h] all by (auto simp: g dict_get_table)
  assume small: "card {d. linked es h d} \<le> cap"
  have n: "length (nb h) = card {d. linked es h d}" using nbs [of h] distinct_card [of "nb h"] by simp
  have "tri_links nb (nb h) = count_links (from_edges es) (nb h) (nb h)"
    by (rule tri_links_count) (auto simp: nbs linked_def)
  also have "\<dots> = card (links_among es (set (nb h)))" by (rule count_links_card) (simp_all add: nbs)
  finally have links: "tri_links nb (nb h) = card (links_among es {d. linked es h d})" by (simp add: nbs)
  have zero: "card {d. linked es h d} = 0" if "h \<notin> set hosts" using none [OF that] n by (simp add: nb_def)
  have two: "0 < (of_nat (k * (k - 1)) / 2 :: rat)" if "\<not> k < 2" for k :: nat using that by simp
  have tab: "dict_get (gr_clustering g) h 0 = (if h \<in> set hosts then local_clustering nb (nb h) else 0)"
    using small n by (simp add: g dict_get_table)
  have "local_clustering nb (nb h) = (let V = {d. linked es h d}; n = card V in
      if n < 2 then 0 else of_nat (card (links_among es V)) / (of_nat (n * (n - 1)) / 2))"
    unfolding local_clustering_def links n Let_def using two [of "card {d. linked es h d}"] by simp
  then show ?clu unfolding tab using zero by (auto simp: Let_def)
qed

lemma clustering_cap:
  assumes "card {d. linked es h d} \<le> cap"
  shows "clustering (from_edges es) h (int cap) = clustering (from_edges es) h (int (card {d. linked es h d}))"
proof -
  have "set (neighbours (from_edges es) h) = {d. linked es h d}" "distinct (neighbours (from_edges es) h)"
    by (auto simp: neighbours_def linked_def)
  then have "length (neighbours (from_edges es) h) = card {d. linked es h d}" using distinct_card by metis
  then show ?thesis using assms by (simp add: clustering_def Let_def)
qed



text \<open>
  The trained reciprocity says nothing: it is one for every host that sends anything and zero for every other,
  whatever comes back, because the loop asks whether the host is among the sources of its own destination. The
  served feature of the same name is the fraction of destinations that sent back.
\<close>
lemma trained_reciprocity_is_constant:
  "dict_get (gr_reciprocity (compute_window_graph pick M cap flows)) h 0 = (if {d. (h, d) \<in> set (edges_of flows)} = {} then 0 else 1) \<and>
   reciprocity (from_edges [(''a'', ''b'')]) ''a'' = Fin 0 \<and>
   dict_get (gr_reciprocity (compute_window_graph pick M cap [(''a'', ''b'', 80)])) ''a'' 0 = 1"
proof -
  have "reciprocity (from_edges [(''a'', ''b'')]) ''a'' = Fin 0" by code_simp
  moreover have "{d. (''a'', d) \<in> set (edges_of [(''a'', ''b'', 80)])} \<noteq> {}" by (auto simp: edges_of_def)
  ultimately show ?thesis by (simp add: window_graph_values [OF refl])
qed

end
