(* ===== verification/Windowize.thy ===== *)
theory Windowize
  imports WindowGraph
begin

text \<open>
  \<open>ml/nidra/data/windowize.py\<close>: from the flows and packets of a day to the table of states, one row per host and
  window. A missing value of a column is \<open>None\<close>, numbers are exact rationals, a row of a frame is its host, its
  window and its cells by name; a cell a row does not have is the 0 of the final \<open>fillna\<close>. The order in which
  pandas yields the hosts of a window is that of their first rows. A day has at least one flow.
\<close>

section \<open>Constants\<close>

definition DYNAMICS_BASE :: "(string, string) dict" where
  "DYNAMICS_BASE = [(''d_syn_ratio'', ''syn_ratio''), (''d_dst_port_entropy'', ''dst_port_entropy''), (''d_out_degree'', ''out_degree''),
     (''d_new_peer_count'', ''new_peer_count''), (''d_iat_var'', ''iat_var''), (''d_retrans_rate'', ''retrans_rate'')]"

definition SLOPE_BASE :: "(string, string) dict" where
  "SLOPE_BASE = [(''slope3_syn_ratio'', ''syn_ratio''), (''slope3_dst_port_entropy'', ''dst_port_entropy''),
     (''slope3_out_degree'', ''out_degree''), (''slope3_iat_var'', ''iat_var'')]"

definition CIC2017_UTC_OFFSET_HOURS :: rat where "CIC2017_UTC_OFFSET_HOURS = 3"
definition CIC2017_PM_HOUR_MAX :: int where "CIC2017_PM_HOUR_MAX = 7"

definition FLOW_FEATURES :: "string list" where "FLOW_FEATURES = take 15 FEATURE_ORDER"
definition PACKET_FEATURES :: "string list" where "PACKET_FEATURES = take 11 (drop 15 FEATURE_ORDER)"
definition GRAPH_FEATURES :: "string list" where "GRAPH_FEATURES = take 8 (drop 26 FEATURE_ORDER)"

section \<open>Clock\<close>

definition align_window :: "rat \<Rightarrow> int \<Rightarrow> int" where
  "align_window epoch window_seconds = \<lfloor>epoch / of_int window_seconds\<rfloor> * window_seconds"

text \<open>The hour on the clock of a naive timestamp, and the parser; \<open>P\<close> is \<open>pd.to_datetime\<close>, in seconds.\<close>

definition clock_hour :: "rat \<Rightarrow> int" where
  "clock_hour t = (\<lfloor>t\<rfloor> div 3600) mod 24"

definition parse_cic_timestamp :: "('a \<Rightarrow> rat option) \<Rightarrow> bool \<Rightarrow> rat \<Rightarrow> 'a \<Rightarrow> int option" where
  "parse_cic_timestamp P twelve_hour utc_offset_hours ts =
     (case P ts of
        None \<Rightarrow> None
      | Some parsed \<Rightarrow>
          let parsed1 = (if twelve_hour \<and> clock_hour parsed \<le> CIC2017_PM_HOUR_MAX then parsed + 12 * 3600 else parsed);
              parsed2 = (if utc_offset_hours \<noteq> 0 then parsed1 + utc_offset_hours * 3600 else parsed1)
          in Some \<lfloor>parsed2\<rfloor>)"

section \<open>Statistics\<close>

text \<open>\<open>mean\<close>, \<open>var(ddof=0)\<close> and \<open>quantile\<close> skip missing values and have none on an empty column.\<close>

definition present :: "'a option list \<Rightarrow> 'a list" where
  "present xs = List.map_filter id xs"

definition mean_of :: "rat list \<Rightarrow> rat" where
  "mean_of xs = sum_list xs / of_nat (length xs)"

definition var_of :: "rat list \<Rightarrow> rat" where
  "var_of xs = mean_of (map (\<lambda>x. (x - mean_of xs) * (x - mean_of xs)) xs)"

definition col_mean :: "rat option list \<Rightarrow> rat option" where
  "col_mean xs = (if present xs = [] then None else Some (mean_of (present xs)))"

definition col_var :: "rat option list \<Rightarrow> rat option" where
  "col_var xs = (if length xs \<le> 1 then Some 0 else if present xs = [] then None else Some (var_of (present xs)))"

definition col_quantile :: "rat \<Rightarrow> rat option list \<Rightarrow> rat option" where
  "col_quantile q xs =
     (let s = sort (present xs); n = length s; pos = q * of_nat (n - 1); lo = nat \<lfloor>pos\<rfloor>; frac = pos - of_nat lo
      in if n = 0 then None
         else if lo + 1 < n then Some (s ! lo + frac * (s ! (lo + 1) - s ! lo)) else Some (s ! lo))"

definition zero_if_none :: "rat option \<Rightarrow> rat" where
  "zero_if_none x = (case x of None \<Rightarrow> 0 | Some r \<Rightarrow> r)"

text \<open>\<open>np.histogram\<close>: equal bins, the last one closed.\<close>

definition histogram :: "rat list \<Rightarrow> nat \<Rightarrow> nat list" where
  "histogram xs bins =
     (let lo = Min (set xs); hi = Max (set xs);
          bin = (\<lambda>x. min (bins - 1) (nat \<lfloor>(x - lo) * of_nat bins / (hi - lo)\<rfloor>))
      in map (\<lambda>b. length (filter (\<lambda>x. bin x = b) xs)) [0..<bins])"

definition bin_entropy :: "pymath \<Rightarrow> rat option list \<Rightarrow> rat" where
  "bin_entropy M values =
     (let xs = present values in
      if xs = [] then 0 else if length (remdups xs) = 1 then 0 else graph_entropy M (histogram xs 16))"

section \<open>Aggregates\<close>

record wflow =
  wf_src :: string
  wf_dst :: string
  wf_port :: int
  wf_ts :: int
  wf_fwd :: "rat option"
  wf_bwd :: "rat option"
  wf_len_fwd :: "rat option"
  wf_len_bwd :: "rat option"
  wf_syn :: rat
  wf_ack :: rat
  wf_rst :: rat
  wf_fin :: rat
  wf_psh :: rat
  wf_urg :: rat
  wf_duration :: "rat option"
  wf_iat_mean :: "rat option"
  wf_iat_max :: "rat option"

record wpacket =
  wp_src :: string
  wp_ts :: int
  wp_ttl :: "rat option"
  wp_window :: "rat option"
  wp_frag :: bool
  wp_payload :: "rat option"
  wp_retrans :: bool

type_synonym cells = "(string, rat) dict"
type_synonym frame_row = "string \<times> int \<times> cells"

definition row_key :: "string \<times> int \<times> 'c \<Rightarrow> string \<times> int" where
  "row_key = (\<lambda>(h, t, c). (h, t))"

definition bool_rat :: "bool \<Rightarrow> rat" where
  "bool_rat b = (if b then 1 else 0)"

definition flow_cells :: "wflow list \<Rightarrow> cells" where
  "flow_cells g =
     (let pkts = (\<lambda>f. zero_if_none (wf_fwd f) + zero_if_none (wf_bwd f));
          byts = (\<lambda>f. zero_if_none (wf_len_fwd f) + zero_if_none (wf_len_bwd f));
          total_pkts = sum_list (map pkts g);
          ratio = (\<lambda>sel. graph_safe_div (sum_list (map sel g)) total_pkts);
          iat = map (\<lambda>f. Some (zero_if_none (wf_iat_mean f))) g
      in [(''syn_ratio'', ratio wf_syn), (''ack_ratio'', ratio wf_ack), (''rst_ratio'', ratio wf_rst), (''fin_ratio'', ratio wf_fin),
          (''psh_ratio'', ratio wf_psh), (''urg_ratio'', ratio wf_urg),
          (''bytes_total'', sum_list (map byts g)),
          (''bytes_up_down_ratio'', graph_safe_div (sum_list (present (map wf_len_fwd g))) (sum_list (present (map wf_len_bwd g)))),
          (''pkts_per_flow_mean'', mean_of (map pkts g)),
          (''flow_duration_mean'', zero_if_none (col_mean (map wf_duration g))),
          (''flow_duration_var'', zero_if_none (col_var (map wf_duration g))),
          (''iat_mean'', zero_if_none (col_mean iat)), (''iat_var'', zero_if_none (col_var iat)),
          (''iat_max'', Max (set (map (\<lambda>f. zero_if_none (wf_iat_max f)) g))),
          (''active_flow_count'', of_nat (length g))])"

definition aggregate_flows :: "wflow list \<Rightarrow> frame_row list" where
  "aggregate_flows flows =
     map (\<lambda>(h, t). (h, t, flow_cells (rows_of (\<lambda>f. (wf_src f, wf_ts f)) (h, t) flows))) (firsts (map (\<lambda>f. (wf_src f, wf_ts f)) flows))"

definition packet_cells :: "pymath \<Rightarrow> wpacket list \<Rightarrow> cells" where
  "packet_cells M g =
     (let retrans = sum_list (map (\<lambda>p. bool_rat (wp_retrans p)) g)
      in [(''ttl_mean'', zero_if_none (col_mean (map wp_ttl g))), (''ttl_var'', zero_if_none (col_var (map wp_ttl g))),
          (''tcp_window_mean'', zero_if_none (col_mean (map wp_window g))),
          (''tcp_window_entropy'', bin_entropy M (map wp_window g)),
          (''frag_flag_rate'', mean_of (map (\<lambda>p. bool_rat (wp_frag p)) g)),
          (''payload_size_mean'', zero_if_none (col_mean (map wp_payload g))),
          (''payload_size_var'', zero_if_none (col_var (map wp_payload g))),
          (''payload_size_p95'', zero_if_none (col_quantile (95 / 100) (map wp_payload g))),
          (''payload_size_entropy'', bin_entropy M (map wp_payload g)),
          (''retrans_count'', retrans), (''retrans_rate'', graph_safe_div retrans (of_nat (length g)))])"

definition aggregate_packets :: "pymath \<Rightarrow> wpacket list \<Rightarrow> frame_row list" where
  "aggregate_packets M packets =
     map (\<lambda>(h, t). (h, t, packet_cells M (rows_of (\<lambda>p. (wp_src p, wp_ts p)) (h, t) packets))) (firsts (map (\<lambda>p. (wp_src p, wp_ts p)) packets))"

text \<open>The cells of a row of a frame, none when it has no such row.\<close>

definition cells_at :: "frame_row list \<Rightarrow> string \<times> int \<Rightarrow> cells" where
  "cells_at rows k = (case List.find (\<lambda>r. row_key r = k) rows of None \<Rightarrow> [] | Some (h, t, c) \<Rightarrow> c)"

definition fuse_windows :: "frame_row list \<Rightarrow> frame_row list \<Rightarrow> frame_row list" where
  "fuse_windows flow_agg packet_agg =
     (if packet_agg = [] \<or> flow_agg = [] then flow_agg
      else
        let flow_hosts = map fst flow_agg; ts = map (\<lambda>(h, t, c). t) flow_agg;
            kept = filter (\<lambda>(h, t, c). h \<in> set flow_hosts \<and> Min (set ts) \<le> t \<and> t \<le> Max (set ts)) packet_agg
        in map (\<lambda>(h, t). (h, t, cells_at flow_agg (h, t) @ cells_at kept (h, t)))
             (sort (remdups (map row_key flow_agg @ map row_key kept))))"

definition with_columns :: "string list \<Rightarrow> frame_row \<Rightarrow> frame_row" where
  "with_columns names = (\<lambda>(h, t, c). (h, t, map (\<lambda>n. (n, dict_get c n 0)) names))"

section \<open>The chronological pass\<close>

fun pass_hosts :: "graph_result \<Rightarrow> int \<Rightarrow> string list \<Rightarrow> peer_tracker \<Rightarrow> frame_row list \<times> peer_tracker" where
  "pass_hosts g w [] tr = ([], tr)"
| "pass_hosts g w (h # hs) tr =
     (let peers = dict_get (gr_out_peers g) h [];
          (new_peers, tr1) = new_peer_count h peers tr;
          row = (h, w, [(''out_degree'', of_nat (dict_get (gr_out_degree g) h 0)), (''in_degree'', of_nat (dict_get (gr_in_degree g) h 0)),
            (''dst_ip_entropy'', dict_get (gr_dst_ip_entropy g) h 0), (''dst_port_entropy'', dict_get (gr_dst_port_entropy g) h 0),
            (''new_peer_count'', of_nat new_peers), (''neighbour_risk_fraction'', neighbour_risk_fraction peers tr1),
            (''local_clustering_coeff'', dict_get (gr_clustering g) h 0), (''reciprocity'', dict_get (gr_reciprocity g) h 0)]);
          (rows, tr2) = pass_hosts g w hs tr1
      in (row # rows, tr2))"

fun pass_windows :: "(int \<Rightarrow> graph_result) \<Rightarrow> (string \<times> int) list \<Rightarrow> int list \<Rightarrow> peer_tracker \<Rightarrow> frame_row list" where
  "pass_windows graph_of present_keys [] tr = []"
| "pass_windows graph_of present_keys (w # ws) tr =
     (let g = graph_of w;
          (rows, tr1) = pass_hosts g w (firsts (map fst (rows_of snd w present_keys))) tr
      in rows @ pass_windows graph_of present_keys ws (commit_window (gr_out_degree g) tr1))"

section \<open>Empty windows and dynamics\<close>

text \<open>\<open>np.arange\<close> with a positive step.\<close>

definition arange :: "int \<Rightarrow> int \<Rightarrow> int \<Rightarrow> int list" where
  "arange lo stop step = map (\<lambda>k. lo + int k * step) [0..<nat (- ((lo - stop) div step))]"

definition fill_empty_windows :: "frame_row list \<Rightarrow> int \<Rightarrow> frame_row list" where
  "fill_empty_windows df window_seconds =
     concat (map (\<lambda>host.
       let ts = map (\<lambda>(h, t, c). t) (rows_of fst host df) in
       map (\<lambda>t. with_columns FEATURE_ORDER (host, t, cells_at df (host, t)))
         (arange (Min (set ts)) (Max (set ts) + window_seconds) window_seconds))
       (firsts (map fst df)))"

definition rolling_ols_slope3 :: "rat list \<Rightarrow> rat list" where
  "rolling_ols_slope3 x =
     (let t = [0, 1, 2]; t_mean = mean_of t; denom = sum_list (map (\<lambda>a. (a - t_mean) * (a - t_mean)) t)
      in map (\<lambda>i. if i < 2 then 0
            else let y = take 3 (drop (i - 2) x); y_mean = mean_of y
                 in if 0 < denom then sum_list (map (\<lambda>(a, b). (a - t_mean) * (b - y_mean)) (zip t y)) / denom else 0)
          [0..<length x])"

definition diff_fill :: "rat list \<Rightarrow> rat list" where
  "diff_fill x = map (\<lambda>i. if i = 0 then 0 else x ! i - x ! (i - 1)) [0..<length x]"

text \<open>One host's group of rows, in order: the columns the loop over both tables assigns.\<close>

definition host_dynamics :: "frame_row list \<Rightarrow> frame_row list" where
  "host_dynamics g =
     (let column = (\<lambda>base. map (\<lambda>(h, t, c). dict_get c base 0) g);
          columns = map (\<lambda>(name, base). (name, diff_fill (column base))) DYNAMICS_BASE @
                    map (\<lambda>(name, base). (name, rolling_ols_slope3 (column base))) SLOPE_BASE
      in map (\<lambda>(i, (h, t, c)). (h, t, dict_update c (map (\<lambda>(name, vs). (name, vs ! i)) columns))) (zip [0..<length g] g))"

definition add_dynamics :: "frame_row list \<Rightarrow> frame_row list" where
  "add_dynamics df =
     (let s = sort_key row_key df in concat (map (\<lambda>host. host_dynamics (rows_of fst host s)) (firsts (map fst s))))"

section \<open>The state table\<close>

definition flow_end_of :: "wflow \<Rightarrow> flow_end" where
  "flow_end_of f = (wf_src f, wf_dst f, wf_port f)"

text \<open>Host, window and the values in \<open>FEATURE_ORDER\<close>.\<close>

type_synonym state_row = "string \<times> int \<times> rat list"

text \<open>The rows in which a host was observed, and the same with their graph scalars.\<close>

definition observed :: "pymath \<Rightarrow> wflow list \<Rightarrow> wpacket list \<Rightarrow> frame_row list" where
  "observed M flows packets =
     map (with_columns (PACKET_FEATURES @ FLOW_FEATURES)) (fuse_windows (aggregate_flows flows) (aggregate_packets M packets))"

definition graph_at ::
    "(int \<Rightarrow> string \<Rightarrow> string list \<Rightarrow> string list) \<Rightarrow> pymath \<Rightarrow> wflow list \<Rightarrow> nat \<Rightarrow> int \<Rightarrow> graph_result" where
  "graph_at pick M flows graph_degree_cap w = compute_window_graph (pick w) M graph_degree_cap (map flow_end_of (rows_of wf_ts w flows))"

definition active_rows ::
    "(int \<Rightarrow> string \<Rightarrow> string list \<Rightarrow> string list) \<Rightarrow> pymath \<Rightarrow> wflow list \<Rightarrow> wpacket list \<Rightarrow> nat \<Rightarrow> frame_row list" where
  "active_rows pick M flows packets graph_degree_cap =
     (let merged = observed M flows packets;
          window_order = sort (firsts (map snd (map row_key merged)));
          graph_rows = pass_windows (graph_at pick M flows graph_degree_cap) (map row_key merged) window_order fresh_tracker
      in map (\<lambda>(h, t, c). (h, t, c @ cells_at graph_rows (h, t) @ [(''is_active'', 1)])) merged)"

definition build_state_rows ::
    "(int \<Rightarrow> string \<Rightarrow> string list \<Rightarrow> string list) \<Rightarrow> pymath \<Rightarrow> wflow list \<Rightarrow> wpacket list \<Rightarrow> int \<Rightarrow> nat \<Rightarrow> state_row list" where
  "build_state_rows pick M flows packets window_seconds graph_degree_cap =
     (let filled = add_dynamics (fill_empty_windows (active_rows pick M flows packets graph_degree_cap) window_seconds)
      in sort_key row_key (map (\<lambda>(h, t, c). (h, t, map (\<lambda>n. dict_get c n 0) FEATURE_ORDER)) filled))"

definition windowize_day ::
    "(int \<Rightarrow> string \<Rightarrow> string list \<Rightarrow> string list) \<Rightarrow> pymath \<Rightarrow> wflow list \<Rightarrow> wpacket list \<Rightarrow> int \<Rightarrow> nat \<Rightarrow> state_row list" where
  "windowize_day pick M flows packets window_seconds min_windows_per_host =
     (let states = build_state_rows pick M flows packets window_seconds 200 in
      if min_windows_per_host \<le> 1 then states
      else filter (\<lambda>(h, t, v). min_windows_per_host \<le> length (rows_of fst h states)) states)"

section \<open>The grid of windows\<close>

lemma map_sort_key: "map f (sort_key f xs) = sort (map f xs)"
  by (rule properties_for_sort [symmetric]) simp_all

lemma sort_eq_if_mset: "mset xs = mset ys \<Longrightarrow> sort xs = sort ys"
  by (rule properties_for_sort) simp_all

lemma successively_nth: "successively P xs \<Longrightarrow> i + 1 < length xs \<Longrightarrow> P (xs ! i) (xs ! (i + 1))"
proof (induction xs arbitrary: i)
  case (Cons x xs)
  then show ?case by (cases i) (auto simp: successively_Cons hd_conv_nth)
qed simp

lemma less_div_iff:
  assumes "0 < (c :: int)"
  shows "x div c < y \<longleftrightarrow> x < y * c"
proof -
  have "y \<le> x div c \<longleftrightarrow> y * c \<le> x"
  proof
    assume "y \<le> x div c"
    then have "y * c \<le> (x div c) * c" using assms by (simp add: mult_right_mono)
    moreover have "(x div c) * c + x mod c = x" by (rule div_mult_mod_eq)
    ultimately show "y * c \<le> x" using pos_mod_sign [OF assms, of x] by linarith
  next
    assume "y * c \<le> x"
    then show "y \<le> x div c" using zdiv_mono1 [of "y * c" x c] assms by simp
  qed
  then show ?thesis by linarith
qed

lemma set_arange:
  assumes "0 < step"
  shows "set (arange lo stop step) = {t. lo \<le> t \<and> t < stop \<and> step dvd (t - lo)}"
proof (rule set_eqI)
  fix t
  let ?n = "- ((lo - stop) div step)"
  have n: "k < ?n \<longleftrightarrow> lo + k * step < stop" for k
  proof -
    have "k < ?n \<longleftrightarrow> (lo - stop) div step < - k" by auto
    also have "\<dots> \<longleftrightarrow> lo - stop < - k * step" using less_div_iff [OF assms] by simp
    also have "\<dots> \<longleftrightarrow> lo + k * step < stop" by auto
    finally show ?thesis .
  qed
  have "t \<in> set (arange lo stop step) \<longleftrightarrow> (\<exists>k. 0 \<le> k \<and> k < ?n \<and> t = lo + k * step)"
  proof
    assume "t \<in> set (arange lo stop step)"
    then obtain k :: nat where "k < nat ?n" "t = lo + int k * step" by (auto simp: arange_def)
    then show "\<exists>k. 0 \<le> k \<and> k < ?n \<and> t = lo + k * step" by (intro exI [of _ "int k"]) auto
  next
    assume "\<exists>k. 0 \<le> k \<and> k < ?n \<and> t = lo + k * step"
    then obtain k where k: "0 \<le> k" "k < ?n" "t = lo + k * step" by blast
    then have "nat k \<in> {0..<nat ?n}" "t = lo + int (nat k) * step" by auto
    then show "t \<in> set (arange lo stop step)" unfolding arange_def set_map set_upt by blast
  qed
  also have "\<dots> \<longleftrightarrow> lo \<le> t \<and> t < stop \<and> step dvd (t - lo)"
  proof
    assume "\<exists>k. 0 \<le> k \<and> k < ?n \<and> t = lo + k * step"
    then obtain k where k: "0 \<le> k" "k < ?n" "t = lo + k * step" by blast
    have "t < stop" using n [of k] k(2) unfolding k(3) by blast
    moreover have "lo \<le> t" "step dvd (t - lo)" using k(1,3) assms by simp_all
    ultimately show "lo \<le> t \<and> t < stop \<and> step dvd (t - lo)" by blast
  next
    assume t: "lo \<le> t \<and> t < stop \<and> step dvd (t - lo)"
    then obtain k where k: "t - lo = step * k" by auto
    then have eq: "t = lo + k * step" by (simp add: algebra_simps)
    have "0 \<le> step * k" using t k by linarith
    then have "0 \<le> k" using assms by (simp add: zero_le_mult_iff)
    moreover have "k < ?n" using n [of k] t unfolding eq by blast
    ultimately show "\<exists>k. 0 \<le> k \<and> k < ?n \<and> t = lo + k * step" using eq by blast
  qed
  finally show "t \<in> set (arange lo stop step) \<longleftrightarrow> t \<in> {t. lo \<le> t \<and> t < stop \<and> step dvd (t - lo)}" by simp
qed

lemma arange_steps: "successively (\<lambda>a b. b = a + step) (arange lo stop step)"
proof -
  have "successively (\<lambda>a b. b = Suc a) [m..<n]" for m n :: nat
  proof (induction "n - m" arbitrary: m)
    case (Suc x)
    then show ?case by (cases "Suc m < n") (simp_all add: upt_conv_Cons [of m] successively_Cons)
  qed simp
  then show ?thesis unfolding arange_def successively_map by (rule successively_mono) (simp add: algebra_simps)
qed

lemma arange_ascending: "0 < step \<Longrightarrow> sorted_wrt (<) (arange lo stop step)"
  by (auto simp: arange_def sorted_wrt_map intro!: sorted_wrt_mono_rel [OF _ sorted_wrt_upt])

text \<open>The windows of a host in a frame, and the grid of all hosts.\<close>

definition host_span :: "int \<Rightarrow> (string \<times> int) list \<Rightarrow> string \<Rightarrow> int list" where
  "host_span W ks host = (let ts = map snd (rows_of fst host ks) in arange (Min (set ts)) (Max (set ts) + W) W)"

definition grid :: "int \<Rightarrow> (string \<times> int) list \<Rightarrow> (string \<times> int) list" where
  "grid W ks = concat (map (\<lambda>h. map (Pair h) (host_span W ks h)) (sort (firsts (map fst ks))))"

text \<open>A table whose rows are in order, without repetition, and one window apart within a host.\<close>

definition next_window :: "int \<Rightarrow> string \<times> int \<Rightarrow> string \<times> int \<Rightarrow> bool" where
  "next_window W a b \<longleftrightarrow> (fst a = fst b \<longrightarrow> snd b = snd a + W)"

definition contiguous :: "int \<Rightarrow> (string \<times> int) list \<Rightarrow> bool" where
  "contiguous W ks \<longleftrightarrow> sorted_wrt (<) ks \<and> successively (next_window W) ks"

lemma contiguous_blocks:
  assumes "sorted_wrt (<) hosts" "\<And>h. sorted_wrt (<) (f h)" "\<And>h. successively (\<lambda>a b. b = a + W) (f h)"
  shows "contiguous W (concat (map (\<lambda>h. map (Pair h) (f h)) hosts))"
  using assms(1)
proof (induction hosts)
  case (Cons h hs)
  define b where "b = map (Pair h) (f h)"
  define r where "r = concat (map (\<lambda>h. map (Pair h) (f h)) hs)"
  have sorted: "sorted_wrt (<) b" using assms(2) [of h] by (auto simp: b_def sorted_wrt_map less_prod_def elim: sorted_wrt_mono_rel [rotated])
  have steps: "successively (next_window W) b"
    unfolding b_def successively_map using assms(3) [of h] by (rule successively_mono) (simp add: next_window_def)
  have later: "x \<in> set b \<Longrightarrow> y \<in> set r \<Longrightarrow> fst x < fst y" for x y using Cons.prems by (auto simp: b_def r_def)
  then have across: "x \<in> set b \<Longrightarrow> y \<in> set r \<Longrightarrow> x < y" "x \<in> set b \<Longrightarrow> y \<in> set r \<Longrightarrow> next_window W x y" for x y
    by (fastforce simp: less_prod_def next_window_def)+
  have IH: "contiguous W r" using Cons by (simp add: r_def)
  have "successively (next_window W) (b @ r)"
    unfolding successively_append_iff
  proof (intro conjI)
    show "b = [] \<or> r = [] \<or> next_window W (last b) (hd r)"
      using across(2) [OF last_in_set hd_in_set] by blast
  qed (use steps IH in \<open>simp_all add: contiguous_def\<close>)
  moreover have "sorted_wrt (<) (b @ r)" unfolding sorted_wrt_append using sorted IH across by (auto simp: contiguous_def)
  ultimately show ?case by (simp add: contiguous_def b_def r_def)
qed (simp add: contiguous_def)

lemma contiguous_grid: "0 < W \<Longrightarrow> contiguous W (grid W ks)"
  unfolding grid_def host_span_def Let_def
  by (rule contiguous_blocks [OF _ arange_ascending arange_steps]) (auto simp: strict_sorted_iff)

lemma grid_covers:
  assumes "0 < W" "\<And>k. k \<in> set ks \<Longrightarrow> W dvd snd k"
  shows "set ks \<subseteq> set (grid W ks)"
proof
  fix k assume k: "k \<in> set ks"
  obtain h t where ht: "k = (h, t)" by (cases k)
  let ?ts = "map snd (rows_of fst h ks)"
  have mem: "t \<in> set ?ts" using k ht by (force simp: rows_of_def)
  then have "Min (set ?ts) \<in> set ?ts" "Min (set ?ts) \<le> t" "t \<le> Max (set ?ts)"
    using Min_in [OF finite_set, of ?ts] Min_le [OF finite_set mem] Max_ge [OF finite_set mem] by (metis empty_iff)+
  then have "W dvd Min (set ?ts)" using assms(2) by (fastforce simp: rows_of_def)
  then have "t \<in> set (host_span W ks h)"
    using assms k ht \<open>Min (set ?ts) \<le> t\<close> \<open>t \<le> Max (set ?ts)\<close>
    by (fastforce simp: host_span_def Let_def set_arange simp del: set_map)
  moreover have "h \<in> set (map fst ks)" using k ht by force
  ultimately show "k \<in> set (grid W ks)" by (auto simp: grid_def ht)
qed

section \<open>Which rows the table has\<close>

lemma row_key_simp [simp]: "row_key (h, t, c) = (h, t)"
  by (simp add: row_key_def)

lemma row_key_fst: "fst (row_key r) = fst r"
  by (cases r) simp

lemma row_key_columns [simp]: "row_key (with_columns names r) = row_key r"
  by (cases r) (simp add: with_columns_def)

lemma keys_of_pairs: "map row_key (map (\<lambda>(h, t). (h, t, f h t)) ks) = ks"
  by (induction ks) auto

lemma keys_aggregate_flows: "map row_key (aggregate_flows flows) = firsts (map (\<lambda>f. (wf_src f, wf_ts f)) flows)"
  unfolding aggregate_flows_def by (rule keys_of_pairs)

lemma keys_aggregate_packets: "map row_key (aggregate_packets M packets) = firsts (map (\<lambda>p. (wp_src p, wp_ts p)) packets)"
  unfolding aggregate_packets_def by (rule keys_of_pairs)

lemma keys_fuse:
  assumes "distinct (map row_key fl)"
  shows "distinct (map row_key (fuse_windows fl pk))" "row_key ` set fl \<subseteq> row_key ` set (fuse_windows fl pk)"
    "row_key ` set (fuse_windows fl pk) \<subseteq> row_key ` set fl \<union> row_key ` set pk"
proof -
  define kept where "kept = filter (\<lambda>(h, t, c). h \<in> set (map fst fl) \<and> Min (set (map (\<lambda>(h, t, c). t) fl)) \<le> t \<and> t \<le> Max (set (map (\<lambda>(h, t, c). t) fl))) pk"
  have keys: "map row_key (fuse_windows fl pk) = (if pk = [] \<or> fl = [] then map row_key fl
      else sort (remdups (map row_key fl @ map row_key kept)))"
  proof (cases "pk = [] \<or> fl = []")
    case False
    then show ?thesis by (simp only: fuse_windows_def Let_def if_False keys_of_pairs kept_def)
  qed (simp add: fuse_windows_def)
  have "set (map row_key (fuse_windows fl pk)) = (if pk = [] \<or> fl = [] then row_key ` set fl else row_key ` set fl \<union> row_key ` set kept)"
    unfolding keys by simp
  then have keyset: "row_key ` set (fuse_windows fl pk) = (if pk = [] \<or> fl = [] then row_key ` set fl else row_key ` set fl \<union> row_key ` set kept)"
    by simp
  show "distinct (map row_key (fuse_windows fl pk))" unfolding keys using assms by simp
  show "row_key ` set fl \<subseteq> row_key ` set (fuse_windows fl pk)" unfolding keyset by auto
  show "row_key ` set (fuse_windows fl pk) \<subseteq> row_key ` set fl \<union> row_key ` set pk" unfolding keyset by (auto simp: kept_def)
qed

lemma keys_fill:
  "map row_key (fill_empty_windows df W) =
     concat (map (\<lambda>h. map (Pair h) (host_span W (map row_key df) h)) (firsts (map fst (map row_key df))))"
proof -
  have "map (\<lambda>(h, t, c). t) (rows_of fst h df) = map snd (rows_of fst h (map row_key df))" for h
    by (induction df) (auto simp: rows_of_def)
  then have "map row_key (map (\<lambda>t. with_columns FEATURE_ORDER (h, t, cells_at df (h, t)))
      (arange (Min (set (map (\<lambda>(h, t, c). t) (rows_of fst h df)))) (Max (set (map (\<lambda>(h, t, c). t) (rows_of fst h df))) + W) W)) =
    map (Pair h) (host_span W (map row_key df) h)" for h
    by (simp only: host_span_def Let_def map_map) (simp add: o_def)
  moreover have "map fst (map row_key df) = map fst df" by (simp add: o_def row_key_fst)
  ultimately show ?thesis by (simp only: fill_empty_windows_def map_concat map_map Let_def o_def)
qed

lemma keys_host_dynamics [simp]: "map row_key (host_dynamics g) = map row_key g"
proof -
  have "length ks = length g \<Longrightarrow> map row_key (map (\<lambda>(i, (h, t, c)). (h, t, F i c)) (zip ks g)) = map row_key g"
    for F :: "nat \<Rightarrow> cells \<Rightarrow> cells" and ks
    by (induction ks g rule: list_induct2) auto
  from this [of "[0..<length g]"] show ?thesis by (simp add: host_dynamics_def Let_def del: map_map)
qed

lemma mset_concat_map: "mset (concat (map f xs)) = (\<Sum>x \<in># mset xs. mset (f x))"
  by (induction xs) auto

lemma keys_add_dynamics: "mset (map row_key (add_dynamics df)) = mset (map row_key df)"
proof -
  let ?s = "sort_key row_key df"
  have "map row_key (add_dynamics df) = concat (map (\<lambda>h. map row_key (rows_of fst h ?s)) (firsts (map fst ?s)))"
    by (simp add: add_dynamics_def Let_def map_concat o_def)
  also have "\<dots> = map row_key (concat (map (\<lambda>h. rows_of fst h ?s) (firsts (map fst ?s))))" by (simp add: map_concat o_def)
  also have "mset \<dots> = image_mset row_key (mset (concat (map (\<lambda>h. rows_of fst h ?s) (firsts (map fst ?s)))))" by (simp only: mset_map)
  also have "mset (concat (map (\<lambda>h. rows_of fst h ?s) (firsts (map fst ?s)))) = mset (filter (\<lambda>x. fst x \<in> set (firsts (map fst ?s))) ?s)"
    by (rule mset_rows_of) simp
  also have "filter (\<lambda>x. fst x \<in> set (firsts (map fst ?s))) ?s = ?s" by (rule filter_True) simp
  finally show ?thesis by simp
qed

lemma sort_blocks_grid:
  assumes "0 < W"
  shows "sort (concat (map (\<lambda>h. map (Pair h) (host_span W ks h)) (firsts (map fst ks)))) = grid W ks"
proof -
  have "mset (concat (map (\<lambda>h. map (Pair h) (host_span W ks h)) (firsts (map fst ks)))) = mset (grid W ks)"
    unfolding grid_def mset_concat_map by simp
  then have "sort (concat (map (\<lambda>h. map (Pair h) (host_span W ks h)) (firsts (map fst ks)))) = sort (grid W ks)" by (rule sort_eq_if_mset)
  also have "\<dots> = grid W ks" using contiguous_grid [OF assms, of ks] by (simp add: contiguous_def strict_sorted_iff sort_key_id_if_sorted)
  finally show ?thesis .
qed

lemma observed_keys:
  "distinct (map row_key (observed M flows packets))"
  "(\<lambda>f. (wf_src f, wf_ts f)) ` set flows \<subseteq> row_key ` set (observed M flows packets)"
  "row_key ` set (observed M flows packets) \<subseteq> (\<lambda>f. (wf_src f, wf_ts f)) ` set flows \<union> (\<lambda>p. (wp_src p, wp_ts p)) ` set packets"
proof -
  have d: "distinct (map row_key (aggregate_flows flows))" by (simp add: keys_aggregate_flows)
  have fl: "row_key ` set (aggregate_flows flows) = (\<lambda>f. (wf_src f, wf_ts f)) ` set flows"
    using arg_cong [OF keys_aggregate_flows [of flows], of set] by simp
  have pk: "row_key ` set (aggregate_packets M packets) = (\<lambda>p. (wp_src p, wp_ts p)) ` set packets"
    using arg_cong [OF keys_aggregate_packets [of M packets], of set] by simp
  have obs: "map row_key (observed M flows packets) = map row_key (fuse_windows (aggregate_flows flows) (aggregate_packets M packets))"
    by (simp add: observed_def o_def)
  show "distinct (map row_key (observed M flows packets))" unfolding obs by (rule keys_fuse(1) [OF d])
  have s: "row_key ` set (observed M flows packets) = row_key ` set (fuse_windows (aggregate_flows flows) (aggregate_packets M packets))"
    using arg_cong [OF obs, of set] by simp
  show "(\<lambda>f. (wf_src f, wf_ts f)) ` set flows \<subseteq> row_key ` set (observed M flows packets)" using keys_fuse(2) [OF d, of "aggregate_packets M packets"] unfolding s fl .
  show "row_key ` set (observed M flows packets) \<subseteq> (\<lambda>f. (wf_src f, wf_ts f)) ` set flows \<union> (\<lambda>p. (wp_src p, wp_ts p)) ` set packets"
    using keys_fuse(3) [OF d, of "aggregate_packets M packets"] unfolding s fl pk .
qed

lemma table_keys:
  assumes "0 < W"
  shows "map row_key (build_state_rows pick M flows packets W cap) = grid W (map row_key (observed M flows packets))"
proof -
  let ?active = "active_rows pick M flows packets cap"
  have keys: "map row_key ?active = map row_key (observed M flows packets)"
    by (auto simp: active_rows_def Let_def row_key_def)
  have vals: "map row_key (map (\<lambda>(h, t, c). (h, t, map (\<lambda>n. dict_get c n 0) FEATURE_ORDER)) df) = map row_key df" for df :: "frame_row list"
    by (induction df) auto
  have "map row_key (build_state_rows pick M flows packets W cap) = sort (map row_key (add_dynamics (fill_empty_windows ?active W)))"
    unfolding build_state_rows_def Let_def map_sort_key vals ..
  also have "\<dots> = sort (map row_key (fill_empty_windows ?active W))" using keys_add_dynamics by (rule sort_eq_if_mset)
  also have "\<dots> = grid W (map row_key (observed M flows packets))" unfolding keys_fill keys by (rule sort_blocks_grid [OF assms])
  finally show ?thesis .
qed

section \<open>What a row holds\<close>

lemma cells_at_mem: "distinct (map row_key df) \<Longrightarrow> (h, t, c) \<in> set df \<Longrightarrow> cells_at df (h, t) = c"
proof (induction df)
  case (Cons r df)
  show ?case
  proof (cases "row_key r = (h, t)")
    case True
    then have "(h, t, c) \<notin> set df" using Cons.prems(1) by (metis distinct.simps(2) image_eqI list.simps(9) row_key_simp set_map)
    then show ?thesis using Cons.prems(2) by (auto simp: cells_at_def)
  next
    case False
    then show ?thesis using Cons by (auto simp: cells_at_def)
  qed
qed simp

lemma cells_at_none: "k \<notin> row_key ` set df \<Longrightarrow> cells_at df k = []"
  by (auto simp: cells_at_def find_None_iff split: option.splits dest!: find_Some_iff [THEN iffD1])

lemma dict_get_append: "dict_get (xs @ ys) n z = (if n \<in> set (keys xs) then dict_get xs n z else dict_get ys n z)"
proof (cases "map_of xs n")
  case None
  then have "n \<notin> set (keys xs)" by (simp add: map_of_eq_None_iff)
  then show ?thesis by (simp add: dict_get_def map_add_def None)
next
  case (Some v)
  then show ?thesis by (force simp: dict_get_def dest: map_of_SomeD)
qed

lemma dict_get_update_other: "n \<notin> set (keys e) \<Longrightarrow> dict_get (dict_update c e) n z = dict_get c n z"
  by (simp add: dict_get_def dict_simps map_add_def) (metis fst_conv image_iff map_of_eq_None_iff option.simps(4) set_rev)

definition dynamic_names :: "string list" where
  "dynamic_names = keys DYNAMICS_BASE @ keys SLOPE_BASE"

lemma host_dynamics_row:
  assumes "(h, t, c') \<in> set (host_dynamics g)"
  shows "\<exists>c e. (h, t, c) \<in> set g \<and> keys e = dynamic_names \<and> c' = dict_update c e"
proof -
  let ?column = "\<lambda>base. map (\<lambda>(h, t, c). dict_get c base 0) g"
  let ?columns = "map (\<lambda>(name, base). (name, diff_fill (?column base))) DYNAMICS_BASE @
                  map (\<lambda>(name, base). (name, rolling_ols_slope3 (?column base))) SLOPE_BASE"
  obtain i c where ic: "(i, (h, t, c)) \<in> set (zip [0..<length g] g)" "c' = dict_update c (map (\<lambda>(name, vs). (name, vs ! i)) ?columns)"
    using assms unfolding host_dynamics_def Let_def by auto
  have "keys (map (\<lambda>(name, vs). (name, vs ! i)) ?columns) = dynamic_names" by (simp add: dynamic_names_def DYNAMICS_BASE_def SLOPE_BASE_def)
  moreover have "(h, t, c) \<in> set g" using ic(1) by (metis in_set_zipE)
  ultimately show ?thesis using ic(2) by blast
qed

lemma add_dynamics_row:
  assumes "(h, t, c') \<in> set (add_dynamics df)"
  shows "\<exists>c e. (h, t, c) \<in> set df \<and> keys e = dynamic_names \<and> c' = dict_update c e"
proof -
  obtain g where "(h, t, c') \<in> set (host_dynamics g)" "set g \<subseteq> set df" using assms by (auto simp: add_dynamics_def Let_def)
  then show ?thesis using host_dynamics_row by blast
qed

text \<open>The value of a column of a state row.\<close>

definition cell :: "rat list \<Rightarrow> string \<Rightarrow> rat" where
  "cell v n = dict_get (zip FEATURE_ORDER v) n 0"

lemma cell_map: "n \<in> set FEATURE_ORDER \<Longrightarrow> cell (map f FEATURE_ORDER) n = f n"
  by (simp add: cell_def zip_map2 dict_get_table flip: map_zip_map2) (simp add: zip_same_conv_map dict_get_table o_def split_def)

lemma state_row_value:
  assumes "(h, t, v) \<in> set (build_state_rows pick M flows packets W cap)" "n \<in> set FEATURE_ORDER" "n \<notin> set dynamic_names"
  shows "cell v n = dict_get (cells_at (active_rows pick M flows packets cap) (h, t)) n 0"
proof -
  let ?active = "active_rows pick M flows packets cap"
  obtain c' where c': "(h, t, c') \<in> set (add_dynamics (fill_empty_windows ?active W))" "v = map (\<lambda>n. dict_get c' n 0) FEATURE_ORDER"
    using assms(1) by (auto simp: build_state_rows_def Let_def)
  obtain c e where c: "(h, t, c) \<in> set (fill_empty_windows ?active W)" "keys e = dynamic_names" "c' = dict_update c e"
    using add_dynamics_row [OF c'(1)] by blast
  have "c = map (\<lambda>n. (n, dict_get (cells_at ?active (h, t)) n 0)) FEATURE_ORDER"
    using c(1) by (auto simp: fill_empty_windows_def with_columns_def Let_def)
  then have "dict_get c n 0 = dict_get (cells_at ?active (h, t)) n 0" using assms(2) by (simp add: dict_get_table)
  moreover have "dict_get c' n 0 = dict_get c n 0" using assms(3) c(2) unfolding c(3) by (intro dict_get_update_other) simp
  ultimately show ?thesis using assms(2) by (simp add: c'(2) cell_map)
qed

section \<open>The tracker counts what is new\<close>

abbreviation seen_by :: "peer_tracker \<Rightarrow> string \<Rightarrow> string set" where
  "seen_by tr h \<equiv> set (dict_get (pt_seen tr) h [])"

text \<open>What a row of the pass says, given what its host has seen.\<close>

definition counts_new :: "graph_result \<Rightarrow> string set \<Rightarrow> frame_row \<Rightarrow> bool" where
  "counts_new g seen = (\<lambda>(h, w, c).
     dict_get c ''new_peer_count'' 0 = of_nat (length (filter (\<lambda>p. p \<notin> seen) (dict_get (gr_out_peers g) h []))) \<and>
     dict_get c ''out_degree'' 0 = of_nat (dict_get (gr_out_degree g) h 0) \<and> keys c = GRAPH_FEATURES)"

lemma pass_hosts_rows:
  assumes "pass_hosts g w hs tr = (rows, tr')" "distinct hs"
  shows "map row_key rows = map (\<lambda>h. (h, w)) hs \<and> (\<forall>r \<in> set rows. counts_new g (seen_by tr (fst r)) r) \<and>
    (\<forall>h. seen_by tr' h = seen_by tr h \<union> (if h \<in> set hs then set (dict_get (gr_out_peers g) h []) else {}))"
  using assms
proof (induction g w hs tr arbitrary: rows tr' rule: pass_hosts.induct)
  case (2 g w h hs tr)
  let ?peers = "dict_get (gr_out_peers g) h []"
  obtain n tr1 where n: "new_peer_count h ?peers tr = (n, tr1)" by (cases "new_peer_count h ?peers tr")
  obtain rs tr2 where rs: "pass_hosts g w hs tr1 = (rs, tr2)" by (cases "pass_hosts g w hs tr1")
  have tr1: "seen_by tr1 h' = seen_by tr h' \<union> (if h' = h then set ?peers else {})" for h'
    using n by (auto simp: new_peer_count_def Let_def dict_simps)
  have count: "n = length (filter (\<lambda>p. p \<notin> seen_by tr h) ?peers)" using n by (auto simp: new_peer_count_def Let_def)
  obtain c where r: "rows = (h, w, c) # rs" "tr' = tr2" "counts_new g (seen_by tr h) (h, w, c)"
    using "2.prems"(1) n rs count by (auto simp: Let_def counts_new_def dict_get_def GRAPH_FEATURES_def FEATURE_ORDER_def)
  note IH = "2.IH" [OF refl refl n [symmetric] refl rs]
  have IH': "map row_key rs = map (\<lambda>h. (h, w)) hs" "\<forall>r \<in> set rs. counts_new g (seen_by tr1 (fst r)) r"
    "seen_by tr2 h' = seen_by tr1 h' \<union> (if h' \<in> set hs then set (dict_get (gr_out_peers g) h' []) else {})" for h'
    using IH "2.prems"(2) by auto
  have "fst r \<noteq> h" if "r \<in> set rs" for r
  proof -
    have "row_key r \<in> set (map (\<lambda>h. (h, w)) hs)" using that IH'(1) by (metis image_eqI set_map)
    then show ?thesis using "2.prems"(2) by (auto simp flip: row_key_fst)
  qed
  then have "\<forall>r \<in> set rs. counts_new g (seen_by tr (fst r)) r" using IH'(2) tr1 by simp
  then show ?case using IH'(1,3) r tr1 by auto
qed simp

lemma commit_seen [simp]: "pt_seen (commit_window d tr) = pt_seen tr"
  by (simp add: commit_window_def)

lemma pass_windows_rows:
  fixes G :: "int \<Rightarrow> graph_result"
  assumes "sorted_wrt (<) ws"
  defines "P \<equiv> \<lambda>w h. set (dict_get (gr_out_peers (G w)) h [])"
  shows "distinct (map row_key (pass_windows G ks ws tr)) \<and>
    row_key ` set (pass_windows G ks ws tr) = {k \<in> set ks. snd k \<in> set ws} \<and>
    (\<forall>(h, w, c) \<in> set (pass_windows G ks ws tr).
       counts_new (G w) (seen_by tr h \<union> (\<Union>w' \<in> {w' \<in> set ws. w' < w \<and> (h, w') \<in> set ks}. P w' h)) (h, w, c))"
  using assms(1)
proof (induction ws arbitrary: tr)
  case (Cons w ws)
  let ?hs = "firsts (map fst (rows_of snd w ks))"
  obtain rows tr1 where rows: "pass_hosts (G w) w ?hs tr = (rows, tr1)" by (cases "pass_hosts (G w) w ?hs tr")
  let ?rest = "pass_windows G ks ws (commit_window (gr_out_degree (G w)) tr1)"
  have eq: "pass_windows G ks (w # ws) tr = rows @ ?rest" by (simp add: Let_def rows)
  note H = pass_hosts_rows [OF rows distinct_firsts]
  have hs: "h \<in> set ?hs \<longleftrightarrow> (h, w) \<in> set ks" for h by force
  have keys: "row_key ` set rows = {k \<in> set ks. snd k = w}"
    using arg_cong [OF H [THEN conjunct1], of set] hs by (auto simp: image_iff)
  have drows: "distinct (map row_key rows)" using H [THEN conjunct1] by (simp add: distinct_map inj_on_def)
  note IH = Cons.IH [of "commit_window (gr_out_degree (G w)) tr1"]
  have IH': "distinct (map row_key ?rest)" "row_key ` set ?rest = {k \<in> set ks. snd k \<in> set ws}" using IH Cons.prems by auto
  have later: "w < w'" if "w' \<in> set ws" for w' using Cons.prems that by simp
  have "row_key ` set rows \<inter> row_key ` set ?rest = {}" unfolding keys IH'(2) using later by fastforce
  then have "distinct (map row_key (rows @ ?rest))" using drows IH'(1) by simp
  moreover have "row_key ` set (rows @ ?rest) = {k \<in> set ks. snd k \<in> set (w # ws)}" using keys IH'(2) by auto
  moreover have "counts_new (G w1) (seen_by tr h \<union> (\<Union>w' \<in> {w' \<in> set (w # ws). w' < w1 \<and> (h, w') \<in> set ks}. P w' h)) (h, w1, c)"
    if r: "(h, w1, c) \<in> set rows" for h w1 c
  proof -
    have "row_key (h, w1, c) \<in> row_key ` set rows" using r by blast
    then have w1: "w1 = w" using keys by auto
    have none: "{w' \<in> set (w # ws). w' < w \<and> (h, w') \<in> set ks} = {}" using later by fastforce
    have "counts_new (G w) (seen_by tr (fst (h, w1, c))) (h, w1, c)" using H r by blast
    then show ?thesis unfolding w1 none by simp
  qed
  moreover have "counts_new (G w1) (seen_by tr h \<union> (\<Union>w' \<in> {w' \<in> set (w # ws). w' < w1 \<and> (h, w') \<in> set ks}. P w' h)) (h, w1, c)"
    if r: "(h, w1, c) \<in> set ?rest" for h w1 c
  proof -
    have "row_key (h, w1, c) \<in> row_key ` set ?rest" using r by blast
    then have lt: "w < w1" using IH'(2) later by auto
    have c: "counts_new (G w1) (seen_by tr1 h \<union> (\<Union>w' \<in> {w' \<in> set ws. w' < w1 \<and> (h, w') \<in> set ks}. P w' h)) (h, w1, c)"
      using IH Cons.prems r by fastforce
    have "seen_by tr1 h = seen_by tr h \<union> (if (h, w) \<in> set ks then P w h else {})" using H hs by (auto simp: P_def)
    then have "seen_by tr1 h \<union> (\<Union>w' \<in> {w' \<in> set ws. w' < w1 \<and> (h, w') \<in> set ks}. P w' h) =
        seen_by tr h \<union> (\<Union>w' \<in> {w' \<in> set (w # ws). w' < w1 \<and> (h, w') \<in> set ks}. P w' h)" using lt by auto
    then show ?thesis using c by simp
  qed
  ultimately show ?case unfolding eq by auto
qed simp

section \<open>The state table\<close>

text \<open>The destinations a host sends flows to in a window.\<close>

definition contacts :: "wflow list \<Rightarrow> string \<Rightarrow> int \<Rightarrow> string set" where
  "contacts flows h t = {wf_dst f | f. f \<in> set flows \<and> wf_src f = h \<and> wf_ts f = t}"

lemma contacts_set: "contacts flows h t = set (map wf_dst (filter (\<lambda>f. wf_src f = h \<and> wf_ts f = t) flows))"
  by (auto simp: contacts_def)

lemma edges_contacts: "{d. (h, d) \<in> set (edges_of (map flow_end_of (rows_of wf_ts w flows)))} = contacts flows h w"
  by (force simp: edges_of_def flow_end_of_def contacts_def)

lemma graph_at_peers:
  "set (dict_get (gr_out_peers (graph_at pick M flows cap w)) h []) = contacts flows h w"
  "distinct (dict_get (gr_out_peers (graph_at pick M flows cap w)) h [])"
  "dict_get (gr_out_degree (graph_at pick M flows cap w)) h 0 = card (contacts flows h w)"
  unfolding graph_at_def by (simp_all only: window_graph_values [OF refl] edges_contacts)

lemma contacts_observed:
  assumes "contacts flows h t \<noteq> {}"
  shows "(h, t) \<in> row_key ` set (observed M flows packets)"
proof -
  obtain f where "f \<in> set flows" "wf_src f = h" "wf_ts f = t" using assms by (auto simp: contacts_def)
  then have "(h, t) \<in> (\<lambda>f. (wf_src f, wf_ts f)) ` set flows" by blast
  then show ?thesis by (rule subsetD [OF observed_keys(2)])
qed

lemma active_cells:
  assumes "(h, t) \<in> row_key ` set (observed M flows packets)"
  shows "\<exists>c g. cells_at (active_rows pick M flows packets cap) (h, t) = c @ g @ [(''is_active'', 1)] \<and>
    keys c = PACKET_FEATURES @ FLOW_FEATURES \<and> counts_new (graph_at pick M flows cap t) (\<Union>w' \<in> {w'. w' < t}. contacts flows h w') (h, t, g)"
proof -
  let ?obs = "observed M flows packets" and ?G = "graph_at pick M flows cap"
  let ?ks = "map row_key ?obs"
  let ?ws = "sort (firsts (map snd ?ks))"
  let ?rows = "pass_windows ?G ?ks ?ws fresh_tracker"
  have ws: "sorted_wrt (<) ?ws" by (simp add: strict_sorted_iff)
  note P = pass_windows_rows [OF ws, of ?G ?ks fresh_tracker]
  have "set ?ws = snd ` set ?ks" by (simp only: set_sort set_firsts set_map)
  then have all: "{k \<in> set ?ks. snd k \<in> set ?ws} = set ?ks" by blast
  obtain c where c: "(h, t, c) \<in> set ?obs" using assms by (force simp: row_key_def)
  have act: "cells_at (active_rows pick M flows packets cap) (h, t) = c @ cells_at ?rows (h, t) @ [(''is_active'', 1)]"
  proof (rule cells_at_mem)
    have "map row_key (active_rows pick M flows packets cap) = ?ks" by (auto simp: active_rows_def Let_def row_key_def)
    then show "distinct (map row_key (active_rows pick M flows packets cap))" using observed_keys(1) by metis
    show "(h, t, c @ cells_at ?rows (h, t) @ [(''is_active'', 1)]) \<in> set (active_rows pick M flows packets cap)"
      using c by (force simp: active_rows_def Let_def)
  qed
  have "(h, t) \<in> row_key ` set ?rows" using P all assms by auto
  then obtain g where g: "(h, t, g) \<in> set ?rows" by (force simp: row_key_def)
  have seen: "(\<Union>w' \<in> {w' \<in> set ?ws. w' < t \<and> (h, w') \<in> set ?ks}. set (dict_get (gr_out_peers (?G w')) h [])) =
      (\<Union>w' \<in> {w'. w' < t}. contacts flows h w')" (is "?l = ?r")
  proof
    show "?l \<subseteq> ?r" unfolding graph_at_peers by blast
    have "contacts flows h w' \<noteq> {} \<Longrightarrow> (h, w') \<in> set ?ks" for w'
      using contacts_observed by simp
    then have "x \<in> contacts flows h w' \<Longrightarrow> (h, w') \<in> set ?ks \<and> w' \<in> set ?ws" for x w'
      using \<open>set ?ws = snd ` set ?ks\<close> by (metis empty_iff image_eqI snd_conv)
    then show "?r \<subseteq> ?l" unfolding graph_at_peers by blast
  qed
  have "cells_at ?rows (h, t) = g" using P g by (intro cells_at_mem) auto
  moreover have "counts_new (?G t) (seen_by fresh_tracker h \<union> ?l) (h, t, g)" using P g by blast
  then have "counts_new (?G t) ?r (h, t, g)" unfolding seen by (simp add: fresh_tracker_def)
  moreover have "keys c = PACKET_FEATURES @ FLOW_FEATURES" using c by (auto simp: observed_def with_columns_def o_def)
  ultimately show ?thesis using act by blast
qed

lemma inactive_cells:
  assumes "k \<notin> row_key ` set (observed M flows packets)"
  shows "cells_at (active_rows pick M flows packets cap) k = []"
proof (rule cells_at_none)
  have "map row_key (active_rows pick M flows packets cap) = map row_key (observed M flows packets)"
    by (auto simp: active_rows_def Let_def row_key_def)
  then have "row_key ` set (active_rows pick M flows packets cap) = row_key ` set (observed M flows packets)" by (metis set_map)
  then show "k \<notin> row_key ` set (active_rows pick M flows packets cap)" using assms by simp
qed

lemma schema_names:
  "''is_active'' \<in> set FEATURE_ORDER" "''is_active'' \<notin> set dynamic_names" "''is_active'' \<notin> set (PACKET_FEATURES @ FLOW_FEATURES)"
  "''is_active'' \<notin> set GRAPH_FEATURES"
  "''new_peer_count'' \<in> set FEATURE_ORDER" "''new_peer_count'' \<notin> set dynamic_names" "''new_peer_count'' \<notin> set (PACKET_FEATURES @ FLOW_FEATURES)"
  "''new_peer_count'' \<in> set GRAPH_FEATURES"
  "''out_degree'' \<in> set FEATURE_ORDER" "''out_degree'' \<notin> set dynamic_names" "''out_degree'' \<notin> set (PACKET_FEATURES @ FLOW_FEATURES)"
  "''out_degree'' \<in> set GRAPH_FEATURES"
  by (simp_all add: FEATURE_ORDER_def dynamic_names_def DYNAMICS_BASE_def SLOPE_BASE_def PACKET_FEATURES_def FLOW_FEATURES_def GRAPH_FEATURES_def)

lemma state_row_columns:
  assumes "(h, t, v) \<in> set (build_state_rows pick M flows packets W cap)"
  shows "length v = 45" "cell v ''is_active'' = (if (h, t) \<in> row_key ` set (observed M flows packets) then 1 else 0)"
    "cell v ''out_degree'' = of_nat (card (contacts flows h t))"
    "cell v ''new_peer_count'' = of_nat (card (contacts flows h t - (\<Union>w' \<in> {w'. w' < t}. contacts flows h w')))"
proof -
  show "length v = 45" using assms by (auto simp: build_state_rows_def Let_def FEATURE_ORDER_def)
  let ?S = "\<Union>w' \<in> {w'. w' < t}. contacts flows h w'" and ?A = "active_rows pick M flows packets cap"
  note colval = state_row_value [OF assms]
  have "cell v ''is_active'' = (if (h, t) \<in> row_key ` set (observed M flows packets) then 1 else 0) \<and>
      cell v ''out_degree'' = of_nat (card (contacts flows h t)) \<and> cell v ''new_peer_count'' = of_nat (card (contacts flows h t - ?S))"
  proof (cases "(h, t) \<in> row_key ` set (observed M flows packets)")
    case True
    obtain c g where cg: "cells_at ?A (h, t) = c @ g @ [(''is_active'', 1)]" "keys c = PACKET_FEATURES @ FLOW_FEATURES"
      "counts_new (graph_at pick M flows cap t) ?S (h, t, g)" using active_cells [OF True] by blast
    have g: "keys g = GRAPH_FEATURES" "dict_get g ''out_degree'' 0 = of_nat (card (contacts flows h t))"
      "dict_get g ''new_peer_count'' 0 = of_nat (length (filter (\<lambda>p. p \<notin> ?S) (dict_get (gr_out_peers (graph_at pick M flows cap t)) h [])))"
      using cg(3) by (simp_all add: counts_new_def graph_at_peers)
    let ?f = "filter (\<lambda>p. p \<notin> ?S) (dict_get (gr_out_peers (graph_at pick M flows cap t)) h [])"
    have "length ?f = card (set ?f)" by (rule distinct_card [symmetric]) (simp add: graph_at_peers)
    also have "set ?f = contacts flows h t - ?S" by (auto simp: graph_at_peers)
    finally have new: "length ?f = card (contacts flows h t - ?S)" .
    have split: "cell v n = (if n \<in> set (PACKET_FEATURES @ FLOW_FEATURES) then dict_get c n 0
        else if n \<in> set GRAPH_FEATURES then dict_get g n 0 else dict_get [(''is_active'', 1)] n 0)"
      if "n \<in> set FEATURE_ORDER" "n \<notin> set dynamic_names" for n
      using colval [OF that] by (simp only: cg(1,2) g(1) dict_get_append)
    have one: "dict_get [(''is_active'', 1 :: rat)] ''is_active'' 0 = 1" by (simp add: dict_get_def)
    have "cell v ''is_active'' = 1" using split [OF schema_names(1,2)] schema_names(3,4) one by simp
    moreover have "cell v ''out_degree'' = dict_get g ''out_degree'' 0" using split [OF schema_names(9,10)] schema_names(11,12) by simp
    moreover have "cell v ''new_peer_count'' = dict_get g ''new_peer_count'' 0" using split [OF schema_names(5,6)] schema_names(7,8) by simp
    ultimately show ?thesis using True g(2,3) new by simp
  next
    case False
    then have none: "contacts flows h t = {}" using contacts_observed by blast
    show ?thesis using colval schema_names False unfolding inactive_cells [OF False] none by simp
  qed
  then show "cell v ''is_active'' = (if (h, t) \<in> row_key ` set (observed M flows packets) then 1 else 0)"
    "cell v ''out_degree'' = of_nat (card (contacts flows h t))" "cell v ''new_peer_count'' = of_nat (card (contacts flows h t - ?S))" by blast+
qed

lemma table_grid:
  assumes "0 < W" "list_all (\<lambda>f. W dvd wf_ts f) flows" "list_all (\<lambda>p. W dvd wp_ts p) packets"
  shows "contiguous W (map row_key (build_state_rows pick M flows packets W cap))"
    "(\<lambda>f. (wf_src f, wf_ts f)) ` set flows \<subseteq> set (map row_key (build_state_rows pick M flows packets W cap))"
proof -
  have aligned: "W dvd snd k" if "k \<in> set (map row_key (observed M flows packets))" for k
    using that observed_keys(3) [of M flows packets] assms(2,3) by (fastforce simp: list_all_iff)
  have "set (map row_key (observed M flows packets)) \<subseteq> set (grid W (map row_key (observed M flows packets)))"
    by (rule grid_covers [OF assms(1) aligned])
  then show "(\<lambda>f. (wf_src f, wf_ts f)) ` set flows \<subseteq> set (map row_key (build_state_rows pick M flows packets W cap))"
    unfolding table_keys [OF assms(1)] using observed_keys(2) [of flows M packets] by (simp only: set_map)
  show "contiguous W (map row_key (build_state_rows pick M flows packets W cap))"
    unfolding table_keys [OF assms(1)] by (rule contiguous_grid [OF assms(1)])
qed

text \<open>
  C24. The state table has no gaps. When windows are aligned, its rows are sorted by host and window without
  repetition, the windows of a host follow each other in steps of one window, every window in which a host starts a
  flow has its row, every row has the 45 columns, and \<open>is_active\<close> says which rows were observed.
\<close>
theorem state_table_has_no_gaps:
  assumes "0 < W" "list_all (\<lambda>f. W dvd wf_ts f) flows" "list_all (\<lambda>p. W dvd wp_ts p) packets"
  shows "let table = build_state_rows pick M flows packets W cap in
    contiguous W (map row_key table) \<and>
    (\<lambda>f. (wf_src f, wf_ts f)) ` set flows \<subseteq> set (map row_key table) \<and>
    list_all (\<lambda>(h, t, v). length v = 45 \<and>
      cell v ''is_active'' = (if (h, t) \<in> row_key ` set (observed M flows packets) then 1 else 0)) table"
proof -
  have "list_all (\<lambda>(h, t, v). length v = 45 \<and>
      cell v ''is_active'' = (if (h, t) \<in> row_key ` set (observed M flows packets) then 1 else 0)) (build_state_rows pick M flows packets W cap)"
    unfolding list_all_iff using state_row_columns(1,2) by blast
  then show ?thesis using table_grid [OF assms] unfolding Let_def by blast
qed

text \<open>
  C25. The peer count is what its name says, on every row of the table, filled windows included: the out-degree is
  the number of destinations the host contacts in the window, and the new peers are those it contacts in no earlier
  window of the day.
\<close>
theorem new_peers_are_new:
  assumes "(h, t, v) \<in> set (build_state_rows pick M flows packets W cap)"
  shows "cell v ''out_degree'' = of_nat (card (contacts flows h t)) \<and>
    cell v ''new_peer_count'' = of_nat (card (contacts flows h t - (\<Union>w' \<in> {w'. w' < t}. contacts flows h w')))"
  using state_row_columns(3,4) [OF assms] by blast

definition demo_wflow :: "string \<Rightarrow> string \<Rightarrow> int \<Rightarrow> wflow" where
  "demo_wflow a b t = \<lparr>wf_src = a, wf_dst = b, wf_port = 80, wf_ts = t, wf_fwd = Some 2, wf_bwd = Some 1, wf_len_fwd = None, wf_len_bwd = None,
     wf_syn = 1, wf_ack = 1, wf_rst = 0, wf_fin = 0, wf_psh = 0, wf_urg = 0, wf_duration = Some 5, wf_iat_mean = None, wf_iat_max = None\<rparr>"

definition demo_day :: "wflow list" where
  "demo_day = [demo_wflow ''a'' ''b'' 0, demo_wflow ''a'' ''b'' 120, demo_wflow ''a'' ''c'' 120]"

lemma state_table_has_no_gaps_witness:
  "contiguous 60 (map row_key (build_state_rows (\<lambda>w h ns. ns) rat_math demo_day [] 60 200)) \<and>
   (''a'', 120) \<in> set (map row_key (build_state_rows (\<lambda>w h ns. ns) rat_math demo_day [] 60 200))"
proof -
  have "list_all (\<lambda>f. 60 dvd wf_ts f) demo_day" by (simp add: demo_day_def demo_wflow_def)
  note state_table_has_no_gaps [OF _ this, of "[]" "\<lambda>w h ns. ns" rat_math 200]
  moreover have "(''a'', 120) \<in> (\<lambda>f. (wf_src f, wf_ts f)) ` set demo_day" by (simp add: demo_day_def demo_wflow_def)
  ultimately show ?thesis by (auto simp: Let_def)
qed

lemma new_peers_are_new_witness:
  "\<exists>v. (''a'', 120, v) \<in> set (build_state_rows (\<lambda>w h ns. ns) rat_math demo_day [] 60 200) \<and> cell v ''new_peer_count'' = 1"
proof -
  have al: "list_all (\<lambda>f. 60 dvd wf_ts f) demo_day" by (simp add: demo_day_def demo_wflow_def)
  have "(''a'', 120) \<in> (\<lambda>f. (wf_src f, wf_ts f)) ` set demo_day" by (simp add: demo_day_def demo_wflow_def)
  then have "(''a'', 120) \<in> row_key ` set (observed rat_math demo_day [])" by (rule subsetD [OF observed_keys(2)])
  moreover have "set (map row_key (observed rat_math demo_day [])) \<subseteq> set (grid 60 (map row_key (observed rat_math demo_day [])))"
  proof (rule grid_covers)
    fix k assume "k \<in> set (map row_key (observed rat_math demo_day []))"
    then show "60 dvd snd k" using observed_keys(3) [of rat_math demo_day "[]"] al by (fastforce simp: list_all_iff)
  qed simp
  ultimately have "(''a'', 120) \<in> set (map row_key (build_state_rows (\<lambda>w h ns. ns) rat_math demo_day [] 60 200))"
    by (subst table_keys) auto
  then obtain v where v: "(''a'', 120, v) \<in> set (build_state_rows (\<lambda>w h ns. ns) rat_math demo_day [] 60 200)"
    by (auto simp: row_key_def)
  have now: "contacts demo_day ''a'' 120 = {''b'', ''c''}" by (simp add: contacts_set demo_day_def demo_wflow_def)
  have before: "(\<Union>w' \<in> {w'. w' < 120}. contacts demo_day ''a'' w') = {''b''}"
    by (auto simp: contacts_set demo_day_def demo_wflow_def split: if_splits) (rule exI [of _ 0], simp)
  have "cell v ''new_peer_count'' = 1"
    using new_peers_are_new [OF v] unfolding now before by simp
  then show ?thesis using v by blast
qed

section \<open>The dynamics are those the features worker serves\<close>

text \<open>A row as the features worker holds it.\<close>

definition served :: "cells \<Rightarrow> (string, flt) dict" where
  "served c = map (\<lambda>n. (n, Fin (dict_get c n 0))) FEATURE_ORDER"

lemma served_get:
  assumes "n \<in> set FEATURE_ORDER"
  shows "dict_get (served c) n z = Fin (dict_get c n 0)" "dict_index (served c) n = Inr (Fin (dict_get c n 0))"
  using assms by (simp_all add: served_def dict_get_table dict_index_def map_of_map_restrict restrict_map_def)

lemma rolling_slope_nth:
  assumes "i < length x"
  shows "rolling_ols_slope3 x ! i = (if i < 2 then 0 else (x ! i - x ! (i - 2)) / 2)"
proof (cases "i < 2")
  case False
  then obtain k where k: "i = k + 2" by (metis add.commute le_Suc_ex not_less)
  then have "take 3 (drop (i - 2) x) = [x ! k, x ! (k + 1), x ! (k + 2)]"
    using assms by (simp add: Cons_nth_drop_Suc [symmetric] numeral_3_eq_3)
  then show ?thesis using assms k by (simp add: rolling_ols_slope3_def Let_def mean_of_def field_simps)
qed (use assms in \<open>simp add: rolling_ols_slope3_def Let_def\<close>)

lemma slope_history:
  assumes "i < length cs" "n \<in> set FEATURE_ORDER"
  shows "ols_slope (map (\<lambda>p. dict_get p n (Fin 0)) (last_n 2 (map served (take i cs))) @ [Fin (dict_get (cs ! i) n 0)]) =
    Fin (rolling_ols_slope3 (map (\<lambda>c. dict_get c n 0) cs) ! i)"
proof (cases "i < 2")
  case True
  then show ?thesis using assms by (subst ols_slope_short) (auto simp: rolling_slope_nth last_n_def)
next
  case False
  then obtain k where k: "i = k + 2" by (metis add.commute le_Suc_ex not_less)
  have "last_n 2 (map served (take i cs)) = [served (cs ! k), served (cs ! (k + 1))]"
    using assms(1) k by (intro nth_equalityI) (auto simp: last_n_def nth_Cons' numeral_2_eq_2 less_Suc_eq)
  then show ?thesis using assms k by (simp add: served_get ols_slope_3 rolling_slope_nth)
qed

text \<open>
  C26. The dynamics the model is trained on are the dynamics it is served. For every row of a host, the differences
  and slopes that the offline pass adds to it are those the features worker computes from that row and the rows
  before it, at the start of the sequence too.
\<close>
theorem trained_dynamics_are_served:
  assumes "i < length g"
  shows "\<exists>e. snd (snd (host_dynamics g ! i)) = dict_update (snd (snd (g ! i))) e \<and>
    dynamics (served (snd (snd (g ! i)))) (map served (map (snd \<circ> snd) (take i g))) = Inr (map (\<lambda>(n, x). (n, Fin x)) e)"
proof -
  define cs where "cs = map (snd \<circ> snd) g"
  have cs: "snd (snd (g ! i)) = cs ! i" "i < length cs" "map (snd \<circ> snd) (take i g) = take i cs" using assms by (auto simp: cs_def take_map)
  let ?col = "\<lambda>base. map (\<lambda>c. dict_get c base 0) cs"
  have col: "map (\<lambda>(h, t, c). dict_get c base 0) g = ?col base" for base by (simp add: cs_def split_def)
  let ?e = "map (\<lambda>(name, base). (name, diff_fill (?col base) ! i)) DYNAMICS_BASE @ map (\<lambda>(name, base). (name, rolling_ols_slope3 (?col base) ! i)) SLOPE_BASE"
  have "host_dynamics g ! i = (fst (g ! i), fst (snd (g ! i)), dict_update (cs ! i) ?e)"
    using assms cs unfolding host_dynamics_def Let_def col by (simp add: split_def o_def)
  then have row: "snd (snd (host_dynamics g ! i)) = dict_update (snd (snd (g ! i))) ?e" by (simp add: cs)
  have bases: "DELTA_FEATURES = DYNAMICS_BASE" "SLOPE_FEATURES = SLOPE_BASE"
    by (simp_all add: DELTA_FEATURES_def DYNAMIC_SOURCES_def DYNAMICS_BASE_def SLOPE_FEATURES_def SLOPE_BASE_def)
  have known: "base \<in> set FEATURE_ORDER" if "(name, base) \<in> set DYNAMICS_BASE \<union> set SLOPE_BASE" for name base
    using that by (auto simp: DYNAMICS_BASE_def SLOPE_BASE_def FEATURE_ORDER_def)
  let ?H = "map served (take i cs)"
  have empty: "?H = [] \<longleftrightarrow> i = 0" using cs(2) by auto
  have prev: "last ?H = served (cs ! (i - 1))" if "i \<noteq> 0"
  proof -
    have "take i cs \<noteq> []" using that cs(2) by auto
    then show ?thesis using that cs(2) by (simp add: last_map last_conv_nth)
  qed
  have delta: "traverse_res (\<lambda>(feature, source). if ?H = [] then Inr (feature, Fin 0)
      else bind_res (dict_index (served (cs ! i)) source) (\<lambda>c. Inr (feature, c - dict_get (last ?H) source (Fin 0)))) DYNAMICS_BASE =
    Inr (map (\<lambda>(name, base). (name, Fin (diff_fill (?col base) ! i))) DYNAMICS_BASE)"
  proof (subst traverse_res_all)
    fix x assume "x \<in> set DYNAMICS_BASE"
    then obtain name base where "x = (name, base)" "base \<in> set FEATURE_ORDER" using known [of "fst x" "snd x"] by (metis UnCI prod.collapse)
    then show "(case x of (feature, source) \<Rightarrow> if ?H = [] then Inr (feature, Fin 0)
      else bind_res (dict_index (served (cs ! i)) source) (\<lambda>c. Inr (feature, c - dict_get (last ?H) source (Fin 0)))) =
      Inr ((\<lambda>(name, base). (name, Fin (diff_fill (?col base) ! i))) x)"
      using prev cs(2) by (auto simp: empty diff_fill_def served_get)
  qed (rule refl)
  have slope: "traverse_res (\<lambda>(feature, source). bind_res (dict_index (served (cs ! i)) source) (\<lambda>c. Inr (feature,
      ols_slope (map (\<lambda>point. dict_get point source (Fin 0)) (last_n (SLOPE_WINDOW - 1) ?H) @ [c])))) SLOPE_BASE =
    Inr (map (\<lambda>(name, base). (name, Fin (rolling_ols_slope3 (?col base) ! i))) SLOPE_BASE)"
  proof (subst traverse_res_all)
    fix x assume "x \<in> set SLOPE_BASE"
    then obtain name base where "x = (name, base)" "base \<in> set FEATURE_ORDER" using known [of "fst x" "snd x"] by (metis UnCI prod.collapse)
    then show "(case x of (feature, source) \<Rightarrow> bind_res (dict_index (served (cs ! i)) source) (\<lambda>c. Inr (feature,
      ols_slope (map (\<lambda>point. dict_get point source (Fin 0)) (last_n (SLOPE_WINDOW - 1) ?H) @ [c])))) =
      Inr ((\<lambda>(name, base). (name, Fin (rolling_ols_slope3 (?col base) ! i))) x)"
      using slope_history [OF cs(2)] by (simp add: served_get SLOPE_WINDOW_def)
  qed (rule refl)
  have "dynamics (served (cs ! i)) ?H = Inr (map (\<lambda>(n, x). (n, Fin x)) ?e)"
    unfolding dynamics_def bases delta slope bind_res_simps
    by (simp add: DYNAMICS_BASE_def SLOPE_BASE_def dict_set_def)
  then show ?thesis using row cs by auto
qed

lemma trained_dynamics_are_served_witness:
  "\<exists>e. dynamics (served [(''syn_ratio'', 1 / 2)]) [served [(''syn_ratio'', 1 / 4)]] = Inr (map (\<lambda>(n, x). (n, Fin x)) e)"
  using trained_dynamics_are_served [of 1 "[(''h'', 0, [(''syn_ratio'', 1 / 4)]), (''h'', 60, [(''syn_ratio'', 1 / 2)])]"] by auto

section \<open>The clock of the published captures\<close>

text \<open>What the capture prints of a local time: the hours of the afternoon without their twelve.\<close>

definition printed_clock :: "int \<Rightarrow> rat" where
  "printed_clock t = of_int (let h = (t div 3600) mod 24 in if h = 0 then t + 12 * 3600 else if 12 < h then t - 12 * 3600 else t)"

text \<open>
  Reading a printed clock recovers the instant exactly for the local hours from 8 to 19, which is wider than the
  captures' working day, and for no other hour.
\<close>
lemma cic_clock_recovered:
  "parse_cic_timestamp (\<lambda>t. Some (printed_clock t)) True CIC2017_UTC_OFFSET_HOURS t = Some (t + 3 * 3600) \<longleftrightarrow>
   8 \<le> (t div 3600) mod 24 \<and> (t div 3600) mod 24 \<le> 19"
proof -
  define h where "h = (t div 3600) mod 24"
  have h: "0 \<le> h" "h < 24" by (simp_all add: h_def)
  have "(t + 12 * 3600) div 3600 = t div 3600 + 12" "(t - 12 * 3600) div 3600 = t div 3600 - 12" by simp_all
  then have up: "((t + 12 * 3600) div 3600) mod 24 = (h + 12) mod 24" and down: "((t - 12 * 3600) div 3600) mod 24 = (h - 12) mod 24"
    unfolding h_def by (simp_all only: mod_add_left_eq mod_diff_left_eq)
  have hour: "clock_hour (printed_clock t) = (if h = 0 then 12 else if 12 < h then h - 12 else h)"
  proof -
    have "clock_hour (printed_clock t) = ((let h = (t div 3600) mod 24 in if h = 0 then t + 12 * 3600 else if 12 < h then t - 12 * 3600 else t) div 3600) mod 24"
      by (simp add: clock_hour_def printed_clock_def)
    also have "\<dots> = (if h = 0 then (h + 12) mod 24 else if 12 < h then (h - 12) mod 24 else h)"
      unfolding Let_def h_def [symmetric] by (simp only: up down h_def [symmetric] split: if_split) blast
    also have "\<dots> = (if h = 0 then 12 else if 12 < h then h - 12 else h)" using h by simp
    finally show ?thesis .
  qed
  have "parse_cic_timestamp (\<lambda>t. Some (printed_clock t)) True CIC2017_UTC_OFFSET_HOURS t =
      Some \<lfloor>printed_clock t + (if clock_hour (printed_clock t) \<le> 7 then 12 * 3600 else 0) + 3 * 3600\<rfloor>"
    by (simp add: parse_cic_timestamp_def CIC2017_UTC_OFFSET_HOURS_def CIC2017_PM_HOUR_MAX_def Let_def)
  also have "\<lfloor>printed_clock t + (if clock_hour (printed_clock t) \<le> 7 then 12 * 3600 else 0) + 3 * 3600\<rfloor> =
      (if h = 0 then t + 12 * 3600 else if 12 < h then t - 12 * 3600 else t) + (if clock_hour (printed_clock t) \<le> 7 then 12 * 3600 else 0) + 3 * 3600"
    by (simp add: printed_clock_def Let_def h_def [symmetric] floor_add_int [symmetric] del: floor_add_int)
  finally show ?thesis unfolding hour h_def [symmetric] using h by (auto split: if_splits)
qed

end
