(* ===== verification/DayTables.thy ===== *)
theory DayTables
  imports Windowize Labels
begin

text \<open>
  \<open>ml/nidra/data/join.py\<close> and \<open>load_and_label_day\<close> of \<open>ml/nidra/train/pipeline.py\<close>: the raw flows and
  packets of a day get their windows, the state table is built from them and labelled with the stages of the same
  flows. This is where the gap-free table meets the look-ahead that relies on it. What the file loaders, the packet
  parquet and pandas' parsers return is the environment of a run; the processed tables on disk are a dictionary by
  path. A day has at least one usable flow.
\<close>

section \<open>Paths\<close>

text \<open>A path is the list of its components, the root first when it is absolute.\<close>

type_synonym path = "string list"

definition mk_path :: "string \<Rightarrow> path" where
  "mk_path s = (if take 1 s = ''/'' then [''/''] else []) @ filter (\<lambda>c. c \<noteq> [] \<and> c \<noteq> ''.'') (split_str CHR ''/'' s)"

definition path_div :: "path \<Rightarrow> path \<Rightarrow> path" where
  "path_div p q = (if take 1 q = [''/''] then q else p @ q)"

definition path_name :: "path \<Rightarrow> string" where
  "path_name p = (if p = [] \<or> last p = ''/'' then [] else last p)"

section \<open>Windows for flows and packets\<close>

text \<open>A raw flow: the columns the preparation reads, and the row it keeps.\<close>

record 'a raw_flow =
  rf_src :: "string option"
  rf_dst :: "string option"
  rf_timestamp :: 'a
  rf_row :: wflow
  rf_label :: string

record 'a day_env =
  de_pick :: "int \<Rightarrow> string \<Rightarrow> string list \<Rightarrow> string list"
  de_math :: pymath
  de_number :: "'a \<Rightarrow> rat option"
  de_date :: "'a \<Rightarrow> rat option"
  de_flows :: "path \<Rightarrow> string \<Rightarrow> nat option \<Rightarrow> string list option \<Rightarrow> (string list \<times> 'a raw_flow list) res"
  de_packets :: "path \<Rightarrow> (rat \<times> wpacket) list"

definition flow_epoch :: "'a day_env \<Rightarrow> bool \<Rightarrow> bool \<Rightarrow> 'a \<Rightarrow> rat option" where
  "flow_epoch E timestamp_is_epoch cic_clock_correction t =
     (if timestamp_is_epoch then de_number E t
      else if cic_clock_correction then map_option of_int (parse_cic_timestamp (de_date E) True CIC2017_UTC_OFFSET_HOURS t)
      else map_option of_int (parse_cic_timestamp (de_date E) False 0 t))"

definition prepare_row :: "'a day_env \<Rightarrow> int \<Rightarrow> bool \<Rightarrow> bool \<Rightarrow> 'a raw_flow \<Rightarrow> (wflow \<times> string) option" where
  "prepare_row E window_seconds timestamp_is_epoch cic_clock_correction f =
     (case (flow_epoch E timestamp_is_epoch cic_clock_correction (rf_timestamp f), rf_src f, rf_dst f) of
        (Some epoch, Some s, Some d) \<Rightarrow>
          Some ((rf_row f)\<lparr>wf_src := s, wf_dst := d, wf_ts := align_window epoch window_seconds\<rparr>, rf_label f)
      | _ \<Rightarrow> None)"

definition prepare_flows_for_windowing ::
    "'a day_env \<Rightarrow> string list \<Rightarrow> 'a raw_flow list \<Rightarrow> int \<Rightarrow> bool \<Rightarrow> bool \<Rightarrow> (wflow \<times> string) list res" where
  "prepare_flows_for_windowing E columns flows window_seconds timestamp_is_epoch cic_clock_correction =
     (if filter (\<lambda>c. c \<notin> set columns) [''src_ip'', ''dst_ip'', ''dst_port'', ''timestamp''] \<noteq> [] then Inl ValueError
      else Inr (List.map_filter (prepare_row E window_seconds timestamp_is_epoch cic_clock_correction) flows))"

definition prepare_packets_for_windowing :: "(rat \<times> wpacket) list \<Rightarrow> int \<Rightarrow> wpacket list" where
  "prepare_packets_for_windowing packets window_seconds =
     map (\<lambda>(frame_time_epoch, p). p\<lparr>wp_ts := align_window frame_time_epoch window_seconds\<rparr>) packets"

definition build_day_inputs ::
    "'a day_env \<Rightarrow> string list \<Rightarrow> 'a raw_flow list \<Rightarrow> (rat \<times> wpacket) list \<Rightarrow> int \<Rightarrow> bool \<Rightarrow> bool \<Rightarrow> ((wflow \<times> string) list \<times> wpacket list) res" where
  "build_day_inputs E columns flows_raw packets_raw window_seconds timestamp_is_epoch cic_clock_correction =
     bind_res (prepare_flows_for_windowing E columns flows_raw window_seconds timestamp_is_epoch cic_clock_correction) (\<lambda>flows_w.
       Inr (flows_w, prepare_packets_for_windowing packets_raw window_seconds))"

section \<open>The labelled day\<close>

type_synonym day_table = "rat list lrow list"

definition FLOW_FORMATS :: "string list" where
  "FLOW_FORMATS = [''cicflowmeter'', ''ctu_binetflow'']"

definition DEFAULT_DIALECT :: "(string, string) dict" where
  "DEFAULT_DIALECT = [(''cicflowmeter'', ''cic''), (''ctu_binetflow'', ''ctu'')]"

definition label_day ::
    "'a day_env \<Rightarrow> string list \<Rightarrow> 'a raw_flow list \<Rightarrow> (rat \<times> wpacket) list \<Rightarrow> int \<Rightarrow> nat \<Rightarrow> nat \<Rightarrow> string \<Rightarrow> string \<Rightarrow> day_table res" where
  "label_day E columns raw packets_raw window_seconds min_windows_per_host horizon_k flow_format dialect =
     bind_res (build_day_inputs E columns raw packets_raw window_seconds (flow_format = ''ctu_binetflow'') True) (\<lambda>(flows_w, packets_w).
     let states = windowize_day (de_pick E) (de_math E) (map fst flows_w) packets_w window_seconds min_windows_per_host in
     bind_res (label_stage_table (map (\<lambda>(f, l). (wf_src f, wf_ts f, l)) flows_w) dialect) (\<lambda>(stage_table, unmapped).
     Inr (attach_risk_label states stage_table horizon_k)))"

definition dialect_of :: "string \<Rightarrow> string option \<Rightarrow> string" where
  "dialect_of flow_format label_dialect =
     (case label_dialect of Some d \<Rightarrow> if d \<noteq> [] then d else dict_get DEFAULT_DIALECT flow_format []
      | None \<Rightarrow> dict_get DEFAULT_DIALECT flow_format [])"

text \<open>The part of \<open>load_and_label_day\<close> between the two cache blocks.\<close>

definition compute_day ::
    "'a day_env \<Rightarrow> path \<Rightarrow> int \<Rightarrow> nat \<Rightarrow> path option \<Rightarrow> nat option \<Rightarrow> nat \<Rightarrow> string \<Rightarrow> string option \<Rightarrow> string list option \<Rightarrow> day_table res" where
  "compute_day E flow_csv_path window_seconds min_windows_per_host packets_parquet_path row_cap horizon_k flow_format label_dialect internal_cidrs =
     (if flow_format \<notin> set FLOW_FORMATS then Inl ValueError
      else
        bind_res (de_flows E flow_csv_path flow_format row_cap (if flow_format = ''ctu_binetflow'' then internal_cidrs else None)) (\<lambda>(columns, raw).
             label_day E columns raw (case packets_parquet_path of Some p \<Rightarrow> de_packets E p | None \<Rightarrow> []) window_seconds min_windows_per_host
               horizon_k flow_format (dialect_of flow_format label_dialect)))"

text \<open>\<open>load_and_label_day\<close>, with the tables on disk before and after.\<close>

definition load_and_label_day ::
    "'a day_env \<Rightarrow> (path, day_table) dict \<Rightarrow> path \<Rightarrow> int \<Rightarrow> nat \<Rightarrow> path option \<Rightarrow> nat option \<Rightarrow> path option \<Rightarrow> nat \<Rightarrow> string \<Rightarrow>
     string option \<Rightarrow> string list option \<Rightarrow> (day_table \<times> (path, day_table) dict) res" where
  "load_and_label_day E disk flow_csv_path window_seconds min_windows_per_host packets_parquet_path row_cap cache_path horizon_k flow_format
       label_dialect internal_cidrs =
     (case cache_path of
        Some p \<Rightarrow> (case map_of disk p of Some table \<Rightarrow> Inr (table, disk)
          | None \<Rightarrow> bind_res (compute_day E flow_csv_path window_seconds min_windows_per_host packets_parquet_path row_cap horizon_k flow_format
              label_dialect internal_cidrs) (\<lambda>labelled. Inr (labelled, dict_set p labelled disk)))
      | None \<Rightarrow> bind_res (compute_day E flow_csv_path window_seconds min_windows_per_host packets_parquet_path row_cap horizon_k flow_format
              label_dialect internal_cidrs) (\<lambda>labelled. Inr (labelled, disk)))"

section \<open>What a training label says\<close>

lemma contiguous_gap_filled:
  assumes "contiguous W (map (\<lambda>r. (lr_host r, lr_ts r)) rows)"
  shows "gap_filled W rows"
proof -
  have "sorted (map (\<lambda>r. (lr_host r, lr_ts r)) rows)" using assms by (simp add: contiguous_def strict_sorted_iff)
  then have df: "by_host_ts rows = rows" by (simp add: by_host_ts_def sort_key_id_if_sorted)
  have "next_window W (map (\<lambda>r. (lr_host r, lr_ts r)) rows ! i) (map (\<lambda>r. (lr_host r, lr_ts r)) rows ! (i + 1))"
    if "i + 1 < length rows" for i
    using successively_nth [of "next_window W" "map (\<lambda>r. (lr_host r, lr_ts r)) rows" i] assms that by (simp add: contiguous_def)
  then show ?thesis unfolding gap_filled_def Let_def df by (auto simp: next_window_def)
qed

text \<open>A unique stage table joins at most one stage to every state.\<close>

definition joined :: "(string \<times> int \<times> 'f) list \<Rightarrow> stage_row list \<Rightarrow> 'f lrow list" where
  "joined table stages = concat (map (\<lambda>(h, t, x).
     let ss = map (\<lambda>(h', t', s). s) (filter (\<lambda>(h', t', s). h' = h \<and> t' = t) stages) in
     map (\<lambda>s. \<lparr>lr_host = h, lr_ts = t, lr_feat = x, lr_stage = s, lr_risk = 0\<rparr>) (if ss = [] then [''benign''] else ss)) table)"

lemma filter_unique:
  assumes "distinct (map f xs)"
  shows "filter (\<lambda>x. f x = k) xs = [] \<or> (\<exists>x. filter (\<lambda>x. f x = k) xs = [x])"
  using assms
proof (induction xs)
  case (Cons x xs)
  show ?case
  proof (cases "f x = k")
    case True
    then have "filter (\<lambda>y. f y = k) xs = []" unfolding filter_empty_conv using Cons.prems
      by (metis distinct.simps(2) image_eqI list.set_map list.simps(9))
    then show ?thesis using True by simp
  qed (use Cons in simp)
qed simp

definition stage_at :: "stage_row list \<Rightarrow> string \<Rightarrow> int \<Rightarrow> string" where
  "stage_at stages h t = (case filter (\<lambda>(h', t', s). h' = h \<and> t' = t) stages of [] \<Rightarrow> ''benign'' | (h', t', s) # _ \<Rightarrow> s)"

lemma joined_rows:
  assumes "distinct (map (\<lambda>(h, t, s). (h, t)) stages)"
  shows "joined table stages = map (\<lambda>(h, t, x). \<lparr>lr_host = h, lr_ts = t, lr_feat = x, lr_stage = stage_at stages h t, lr_risk = 0\<rparr>) table"
proof -
  have same: "filter (\<lambda>(h', t', s). h' = h \<and> t' = t) stages = filter (\<lambda>x. (\<lambda>(h, t, s). (h, t)) x = (h, t)) stages" for h t
    by (rule filter_cong) auto
  have one: "(let ss = map (\<lambda>(h', t', s). s) (filter (\<lambda>(h', t', s). h' = h \<and> t' = t) stages) in
     map (\<lambda>s. \<lparr>lr_host = h, lr_ts = t, lr_feat = x, lr_stage = s, lr_risk = 0\<rparr>) (if ss = [] then [''benign''] else ss)) =
     [\<lparr>lr_host = h, lr_ts = t, lr_feat = x, lr_stage = stage_at stages h t, lr_risk = 0\<rparr>]" for h t and x :: 'a
    using filter_unique [OF assms, of "(h, t)"] unfolding stage_at_def same by (elim disjE exE) (simp_all add: case_prod_beta)
  show ?thesis unfolding joined_def one by (induction table) auto
qed

lemma stage_at_attack:
  assumes "label_stage_table fl dialect = Inr (stages, unmapped)"
  shows "stage_at stages h t \<noteq> ''benign'' \<longleftrightarrow> (\<exists>l s. (h, t, l) \<in> set fl \<and> map_label_to_stage l dialect = Inr s \<and> s \<noteq> ''benign'')"
proof -
  note rows = label_stage_table_rows [OF assms]
  have index: "STAGE_INDEX s = 0 \<longleftrightarrow> s = ''benign''" for s by (simp add: STAGE_INDEX_def first_index_def STAGES_def)
  have keyset: "(\<lambda>(h, t, s). (h, t)) ` set stages = (\<lambda>(h, t, l). (h, t)) ` set fl" 
    unfolding list.set_map [symmetric] rows(1) by (simp only: set_sort set_firsts list.set_map)
  show ?thesis
  proof (cases "filter (\<lambda>(h', t', s). h' = h \<and> t' = t) stages")
    case Nil
    then have "(h, t) \<notin> (\<lambda>(h, t, s). (h, t)) ` set stages" by (auto simp: filter_empty_conv)
    then have "(h, t, l) \<notin> set fl" for l unfolding keyset by force
    then show ?thesis using Nil by (simp add: stage_at_def)
  next
    case (Cons x xs)
    then have "x \<in> set (filter (\<lambda>(h', t', s). h' = h \<and> t' = t) stages)" by simp
    then obtain s where s: "x = (h, t, s)" "(h, t, s) \<in> set stages" by auto
    then have "stage_at stages h t = s" using Cons by (simp add: stage_at_def)
    moreover have "s \<noteq> ''benign'' \<longleftrightarrow> (\<exists>l s. (h, t, l) \<in> set fl \<and> map_label_to_stage l dialect = Inr s \<and> s \<noteq> ''benign'')"
      using rows(2) [OF s(2)] index by (metis le_zero_eq)
    ultimately show ?thesis by simp
  qed
qed

lemma contiguous_hosts: "contiguous W ks \<Longrightarrow> contiguous W (filter (\<lambda>k. P (fst k)) ks)"
proof (induction ks)
  case (Cons k ks)
  have IH: "contiguous W (filter (\<lambda>k. P (fst k)) ks)" using Cons by (auto simp: contiguous_def successively_Cons)
  have less: "k < j" if "j \<in> set ks" for j using that Cons.prems by (simp add: contiguous_def)
  have "next_window W k (hd (filter (\<lambda>k. P (fst k)) ks))" if P: "P (fst k)" and ne: "filter (\<lambda>k. P (fst k)) ks \<noteq> []"
  proof (cases ks)
    case (Cons j js)
    have step: "next_window W k j" using Cons.prems Cons by (simp add: contiguous_def)
    show ?thesis
    proof (cases "fst j = fst k")
      case True
      then show ?thesis using P step Cons by simp
    next
      case False
      have "fst k < fst j" using less [of j] Cons False by (cases k, cases j) auto
      moreover have "hd (filter (\<lambda>k. P (fst k)) ks) \<in> set ks" using ne by (metis filter_is_subset hd_in_set in_mono)
      then have "j \<le> hd (filter (\<lambda>k. P (fst k)) ks)" using Cons.prems Cons by (auto simp: contiguous_def)
      then have "fst j \<le> fst (hd (filter (\<lambda>k. P (fst k)) ks))" by (auto simp: less_eq_prod_def)
      ultimately show ?thesis by (auto simp: next_window_def)
    qed
  qed (use ne in simp)
  then show ?case using IH less by (auto simp: contiguous_def successively_Cons)
qed simp

lemma windowize_day_grid:
  assumes "0 < W" "list_all (\<lambda>f. W dvd wf_ts f) flows" "list_all (\<lambda>p. W dvd wp_ts p) packets"
  shows "contiguous W (map row_key (windowize_day pick M flows packets W mw))"
    "f \<in> set flows \<Longrightarrow> wf_src f \<in> fst ` set (windowize_day pick M flows packets W mw) \<Longrightarrow>
       (wf_src f, wf_ts f) \<in> set (map row_key (windowize_day pick M flows packets W mw))"
proof -
  let ?states = "build_state_rows pick M flows packets W 200"
  define P where "P = (\<lambda>h. mw \<le> 1 \<or> mw \<le> length (rows_of fst h ?states))"
  have eq: "windowize_day pick M flows packets W mw = filter (\<lambda>r. P (fst r)) ?states"
    by (cases "mw \<le> 1") (auto simp: windowize_day_def Let_def P_def intro!: filter_cong)
  have key: "map row_key (filter (\<lambda>r. P (fst r)) xs) = filter (\<lambda>k. P (fst k)) (map row_key xs)" for xs :: "(string \<times> int \<times> 'x) list"
    by (induction xs) (auto simp: row_key_def)
  note table = table_grid [OF assms, of pick M 200]
  show "contiguous W (map row_key (windowize_day pick M flows packets W mw))"
    unfolding eq key by (rule contiguous_hosts [OF table(1)])
  assume f: "f \<in> set flows" "wf_src f \<in> fst ` set (windowize_day pick M flows packets W mw)"
  then have "P (wf_src f)" by (auto simp: eq)
  moreover have "(wf_src f, wf_ts f) \<in> set (map row_key ?states)" using table(2) f(1) by blast
  ultimately show "(wf_src f, wf_ts f) \<in> set (map row_key (windowize_day pick M flows packets W mw))"
    unfolding eq key by simp
qed

lemma attached_labels:
  assumes W: "0 < W" and st: "label_stage_table fl dialect = Inr (stages, unmapped)"
    and table: "contiguous W (map row_key table)"
    and covers: "\<And>h t l. (h, t, l) \<in> set fl \<Longrightarrow> h \<in> fst ` set table \<Longrightarrow> (h, t) \<in> set (map row_key table)"
  shows "contiguous W (map (\<lambda>r. (lr_host r, lr_ts r)) (attach_risk_label table stages K))"
    "r \<in> set (attach_risk_label table stages K) \<Longrightarrow> lr_risk r =
       (if \<exists>t. (\<exists>l s. (lr_host r, t, l) \<in> set fl \<and> map_label_to_stage l dialect = Inr s \<and> s \<noteq> ''benign'') \<and> lr_ts r < t \<and> t \<le> lr_ts r + int K * W
        then 1 else 0)"
proof -
  let ?j = "joined table stages"
  define rows where "rows = attach_risk_label table stages K"
  have "distinct (map (\<lambda>(h, t, s). (h, t)) stages)" using label_stage_table_rows(1) [OF st] by simp
  note joined = joined_rows [OF this, of table]
  have reattach: "rows = reattach_risk_label ?j K" by (simp add: rows_def attach_risk_label_def joined_def)
  have keys: "map (\<lambda>r. (lr_host r, lr_ts r)) ?j = map row_key table" unfolding joined by (auto simp: row_key_def)
  have cont: "contiguous W (map (\<lambda>r. (lr_host r, lr_ts r)) ?j)" unfolding keys by (rule table)
  note gap = contiguous_gap_filled [OF cont]
  have id: "by_host_ts ?j = ?j" using cont by (simp add: by_host_ts_def contiguous_def strict_sorted_iff sort_key_id_if_sorted)
  have same: "map (\<lambda>r. r\<lparr>lr_risk := 0\<rparr>) rows = map (\<lambda>r. r\<lparr>lr_risk := 0\<rparr>) ?j"
  proof (cases rows)
    case Nil
    then have "length (by_host_ts ?j) = 0" using reattach_nth(1) [of ?j K] reattach by simp
    then show ?thesis using Nil id by simp
  next
    case (Cons x xs)
    then have "x \<in> set (reattach_risk_label ?j K)" by (simp flip: reattach)
    then show ?thesis using reattached_risk(2) [OF W gap] unfolding id reattach by blast
  qed
  have "map (\<lambda>r. (lr_host r, lr_ts r)) rows = map (\<lambda>r. (lr_host r, lr_ts r)) (map (\<lambda>r. r\<lparr>lr_risk := 0\<rparr>) rows)" by simp
  then show grid: "contiguous W (map (\<lambda>r. (lr_host r, lr_ts r)) (attach_risk_label table stages K))" 
    using cont unfolding same by (simp add: rows_def comp_def)
  assume r: "r \<in> set (attach_risk_label table stages K)"
  define attack where "attack = (\<lambda>h t. \<exists>l s. (h, t, l) \<in> set fl \<and> map_label_to_stage l dialect = Inr s \<and> s \<noteq> ''benign'')"
  have attack_stage: "stage_at stages h t \<noteq> ''benign'' \<longleftrightarrow> attack h t" for h t
    unfolding attack_def by (rule stage_at_attack [OF st])
  have "(lr_host r, lr_ts r) \<in> set (map (\<lambda>r. (lr_host r, lr_ts r)) (map (\<lambda>r. r\<lparr>lr_risk := 0\<rparr>) rows))" using r by (auto simp: rows_def)
  then have host: "lr_host r \<in> fst ` set table" unfolding same by (force simp: joined)
  have "(\<exists>x \<in> set ?j. lr_host x = lr_host r \<and> is_attack x \<and> lr_ts r < lr_ts x \<and> lr_ts x \<le> lr_ts r + int K * W) \<longleftrightarrow>
      (\<exists>t. attack (lr_host r) t \<and> lr_ts r < t \<and> t \<le> lr_ts r + int K * W)" (is "?L \<longleftrightarrow> ?R")
  proof
    assume ?L
    then show ?R unfolding joined by (auto simp: is_attack_def attack_stage)
  next
    assume ?R
    then obtain t where t: "attack (lr_host r) t" "lr_ts r < t" "t \<le> lr_ts r + int K * W" by blast
    then have "(lr_host r, t) \<in> set (map row_key table)" using covers host unfolding attack_def by blast
    then obtain v where "(lr_host r, t, v) \<in> set table" by (auto simp: row_key_def)
    then have "\<lparr>lr_host = lr_host r, lr_ts = t, lr_feat = v, lr_stage = stage_at stages (lr_host r) t, lr_risk = 0\<rparr> \<in> set ?j" unfolding joined by force
    then show ?L using t attack_stage by (intro bexI) (auto simp: is_attack_def)
  qed
  then show "lr_risk r = (if \<exists>t. (\<exists>l s. (lr_host r, t, l) \<in> set fl \<and> map_label_to_stage l dialect = Inr s \<and> s \<noteq> ''benign'') \<and>
      lr_ts r < t \<and> t \<le> lr_ts r + int K * W then 1 else 0)"
    using reattached_risk(1) [OF W gap, of r K] r by (simp add: rows_def [symmetric] reattach [symmetric] attack_def)
qed

text \<open>A raw flow of a host starts in one of the windows of an interval and its label is an attack stage.\<close>

definition attacks_within :: "'a day_env \<Rightarrow> int \<Rightarrow> string \<Rightarrow> string \<Rightarrow> string \<Rightarrow> int \<Rightarrow> int \<Rightarrow> 'a raw_flow \<Rightarrow> bool" where
  "attacks_within E W flow_format dialect host since until f \<longleftrightarrow>
     rf_src f = Some host \<and> rf_dst f \<noteq> None \<and>
     (case flow_epoch E (flow_format = ''ctu_binetflow'') True (rf_timestamp f) of None \<Rightarrow> False
      | Some epoch \<Rightarrow> since < align_window epoch W \<and> align_window epoch W \<le> until) \<and>
     (case map_label_to_stage (rf_label f) dialect of Inl e \<Rightarrow> False | Inr s \<Rightarrow> s \<noteq> ''benign'')"

lemma prepare_row_Some:
  "prepare_row E W ep cc f = Some (w, l) \<longleftrightarrow> (\<exists>epoch s d. flow_epoch E ep cc (rf_timestamp f) = Some epoch \<and> rf_src f = Some s \<and> rf_dst f = Some d \<and>
     w = (rf_row f)\<lparr>wf_src := s, wf_dst := d, wf_ts := align_window epoch W\<rparr> \<and> l = rf_label f)"
  by (auto simp: prepare_row_def split: option.splits)

lemma set_prepared: "set (List.map_filter g xs) = {y. \<exists>x \<in> set xs. g x = Some y}"
  by (induction xs) (auto simp: List.map_filter_simps split: option.splits)

lemma attacks_within_prepared:
  "(\<exists>t. (\<exists>l s. (h, t, l) \<in> set (map (\<lambda>(f, l). (wf_src f, wf_ts f, l)) (List.map_filter (prepare_row E W (fmt = ''ctu_binetflow'') True) raw)) \<and>
       map_label_to_stage l dialect = Inr s \<and> s \<noteq> ''benign'') \<and> a < t \<and> t \<le> b) \<longleftrightarrow>
     list_ex (attacks_within E W fmt dialect h a b) raw"
proof -
  have mem: "(h, t, l) \<in> set (map (\<lambda>(f, l). (wf_src f, wf_ts f, l)) (List.map_filter (prepare_row E W ep True) raw)) \<longleftrightarrow>
      (\<exists>f \<in> set raw. \<exists>epoch. flow_epoch E ep True (rf_timestamp f) = Some epoch \<and> rf_src f = Some h \<and> rf_dst f \<noteq> None \<and>
         t = align_window epoch W \<and> l = rf_label f)" for t l ep
    unfolding set_map set_prepared prepare_row_def by (force split: option.splits simp: image_iff)
  have known: "(case r of Inl e \<Rightarrow> False | Inr s \<Rightarrow> P s) \<longleftrightarrow> (\<exists>s. r = Inr s \<and> P s)" for r :: "'e + 's" and P by (cases r) auto
  have time: "(case r of None \<Rightarrow> False | Some s \<Rightarrow> P s) \<longleftrightarrow> (\<exists>s. r = Some s \<and> P s)" for r :: "'s option" and P by (cases r) auto
  show ?thesis unfolding mem attacks_within_def known time list_ex_iff by blast
qed

text \<open>
  C28. A training label says what it claims, from the files to the table. When a day is computed from its flow file, every
  window between the first and the last one of a host has exactly one row, and the risk label of a row is 1 exactly when the
  file has a flow with that host as its source, a timestamp and both addresses, that starts in one of the \<open>K\<close> windows
  after the row's and whose label maps to an attack stage.
\<close>
theorem training_label_is_a_future_attack_flow:
  assumes "0 < W" "load_and_label_day E disk path W mw packets_path row_cap None K fmt label_dialect cidrs = Inr (rows, disk')"
  shows "disk' = disk \<and> contiguous W (map (\<lambda>r. (lr_host r, lr_ts r)) rows) \<and>
    (\<exists>columns raw. de_flows E path fmt row_cap (if fmt = ''ctu_binetflow'' then cidrs else None) = Inr (columns, raw) \<and>
       list_all (\<lambda>r. lr_risk r = (if list_ex (attacks_within E W fmt (dialect_of fmt label_dialect) (lr_host r) (lr_ts r) (lr_ts r + int K * W)) raw
         then 1 else 0)) rows)"
proof -
  let ?d = "dialect_of fmt label_dialect" and ?ps = "case packets_path of Some p \<Rightarrow> de_packets E p | None \<Rightarrow> []"
  obtain columns raw where raw: "de_flows E path fmt row_cap (if fmt = ''ctu_binetflow'' then cidrs else None) = Inr (columns, raw)"
    and label: "label_day E columns raw ?ps W mw K fmt ?d = Inr rows" and disk: "disk' = disk"
    using assms(2) by (auto simp: load_and_label_day_def compute_day_def bind_res_eq_Inr split: if_splits)
  define flows where "flows = List.map_filter (prepare_row E W (fmt = ''ctu_binetflow'') True) raw"
  define packets where "packets = prepare_packets_for_windowing ?ps W"
  define table where "table = windowize_day (de_pick E) (de_math E) (map fst flows) packets W mw"
  obtain stages unmapped where st: "label_stage_table (map (\<lambda>(f, l). (wf_src f, wf_ts f, l)) flows) ?d = Inr (stages, unmapped)"
    and rows: "rows = attach_risk_label table stages K"
    using label by (auto simp: label_day_def build_day_inputs_def prepare_flows_for_windowing_def bind_res_eq_Inr flows_def packets_def table_def split: if_splits)
  have aligned: "list_all (\<lambda>f. W dvd wf_ts f) (map fst flows)" "list_all (\<lambda>p. W dvd wp_ts p) packets"
    by (auto simp: flows_def packets_def list_all_iff set_prepared prepare_row_Some prepare_packets_for_windowing_def align_window_def)
  note grid = windowize_day_grid [OF assms(1) aligned, where pick = "de_pick E" and M = "de_math E" and mw = mw, folded table_def]
  have covers: "(h, t) \<in> set (map row_key table)"
    if "(h, t, l) \<in> set (map (\<lambda>(f, l). (wf_src f, wf_ts f, l)) flows)" "h \<in> fst ` set table" for h t l
    using that grid(2) by force
  have "contiguous W (map (\<lambda>r. (lr_host r, lr_ts r)) rows)"
    unfolding rows by (rule attached_labels(1) [OF assms(1) st grid(1) covers])
  moreover have "lr_risk r = (if list_ex (attacks_within E W fmt ?d (lr_host r) (lr_ts r) (lr_ts r + int K * W)) raw then 1 else 0)" if "r \<in> set rows" for r
    unfolding attacks_within_prepared [symmetric] flows_def [symmetric]
    by (rule attached_labels(2) [OF assms(1) st grid(1) covers]) (use that rows in simp_all)
  ultimately show ?thesis using raw disk by (simp add: list_all_iff)
qed

definition demo_raw_flow :: "rat \<Rightarrow> string \<Rightarrow> rat raw_flow" where
  "demo_raw_flow t l = \<lparr>rf_src = Some ''a'', rf_dst = Some ''b'', rf_timestamp = t, rf_row = demo_wflow [] [] 0, rf_label = l\<rparr>"

definition demo_raw_flows :: "rat raw_flow list" where
  "demo_raw_flows = [demo_raw_flow 36000 ''BENIGN'', demo_raw_flow 36120 ''PortScan'']"

definition demo_day_env :: "rat day_env" where
  "demo_day_env = \<lparr>de_pick = (\<lambda>w h ns. ns), de_math = rat_math, de_number = Some, de_date = Some,
     de_flows = (\<lambda>path fmt cap cidrs. Inr ([''src_ip'', ''dst_ip'', ''dst_port'', ''timestamp''],
       demo_raw_flows)), de_packets = (\<lambda>path. [])\<rparr>"

lemma demo_epochs:
  "flow_epoch demo_day_env False True 36000 = Some 46800" "flow_epoch demo_day_env False True 36120 = Some 46920"
  "align_window 46800 60 = 46800" "align_window 46920 60 = 46920"
  by (simp_all add: flow_epoch_def demo_day_env_def parse_cic_timestamp_def clock_hour_def CIC2017_PM_HOUR_MAX_def CIC2017_UTC_OFFSET_HOURS_def align_window_def)

lemma demo_day_computes: "\<exists>rows. compute_day demo_day_env q 60 1 None cap 1 ''cicflowmeter'' None cidrs = Inr rows"
proof -
  have prepared: "map (\<lambda>(f, l). (wf_src f, wf_ts f, l)) (List.map_filter (prepare_row demo_day_env 60 False True) demo_raw_flows) =
      [(''a'', 46800, ''BENIGN''), (''a'', 46920, ''PortScan'')]"
    by (simp add: demo_raw_flows_def prepare_row_def demo_raw_flow_def demo_epochs List.map_filter_simps demo_wflow_def)
  have "label_stage_table [(''a'', 46800, ''BENIGN''), (''a'', 46920, ''PortScan'')] ''cic'' = Inr ([(''a'', 46800, ''benign''), (''a'', 46920, ''recon'')], [])"
    by code_simp
  then show ?thesis
    by (simp add: compute_day_def FLOW_FORMATS_def demo_day_env_def [THEN arg_cong, of de_flows] dialect_of_def DEFAULT_DIALECT_def dict_get_def
        label_day_def build_day_inputs_def prepare_flows_for_windowing_def prepared)
qed

lemma training_label_is_a_future_attack_flow_witness:
  "\<exists>rows. load_and_label_day demo_day_env [] [''day''] 60 1 None None None 1 ''cicflowmeter'' None None = Inr (rows, []) \<and>
     contiguous 60 (map (\<lambda>r. (lr_host r, lr_ts r)) rows) \<and>
     list_all (\<lambda>r. lr_risk r = (if lr_host r = ''a'' \<and> lr_ts r < 46920 \<and> 46860 \<le> lr_ts r then 1 else 0)) rows"
proof -
  let ?run = "load_and_label_day demo_day_env [] [''day''] 60 1 None None None 1 ''cicflowmeter'' None None"
  obtain rows where rows: "?run = Inr (rows, [])"
    using demo_day_computes [of "[''day'']" None None] by (auto simp: load_and_label_day_def)
  have lab: "map_label_to_stage ''BENIGN'' ''cic'' = Inr ''benign''" "map_label_to_stage ''PortScan'' ''cic'' = Inr ''recon''" by code_simp+
  have dial: "dialect_of ''cicflowmeter'' None = ''cic''" by (simp add: dialect_of_def DEFAULT_DIALECT_def dict_get_def)
  have one: "list_ex (attacks_within demo_day_env 60 ''cicflowmeter'' ''cic'' h s (s + int 1 * 60)) demo_raw_flows \<longleftrightarrow> h = ''a'' \<and> s < 46920 \<and> 46860 \<le> s" for h s
    by (auto simp: attacks_within_def demo_raw_flows_def demo_raw_flow_def demo_epochs lab)
  have "contiguous 60 (map (\<lambda>r. (lr_host r, lr_ts r)) rows) \<and>
      list_all (\<lambda>r. lr_risk r = (if list_ex (attacks_within demo_day_env 60 ''cicflowmeter'' ''cic'' (lr_host r) (lr_ts r) (lr_ts r + int 1 * 60)) demo_raw_flows
        then 1 else 0)) rows"
    using training_label_is_a_future_attack_flow [OF _ rows] unfolding dial by (simp add: demo_day_env_def)
  then show ?thesis using rows unfolding one by blast
qed

end
