(* ===== verification/MlConfig.thy ===== *)
theory MlConfig
  imports DayTables Config
begin

text \<open>
  \<open>ml/nidra/utils/config.py\<close>: the training configurations and their \<open>extends\<close> chains. The files are the
  environment: what \<open>yaml.safe_load\<close> returns for a path, what \<open>resolve\<close> and \<open>expanduser\<close> make of one. The
  recursion through the chain takes fuel; as much as there are files is enough. The hash of the chain and the
  commit id, which only label a run, are not modelled.
\<close>

section \<open>Merging\<close>

definition REPLACE_MARKER :: string where
  "REPLACE_MARKER = ''_replace''"

definition dict_del :: "'k \<Rightarrow> ('k, 'v) dict \<Rightarrow> ('k, 'v) dict" where
  "dict_del k d = filter (\<lambda>p. fst p \<noteq> k) d"

fun deep_merge :: "(string, tree) dict \<Rightarrow> (string, tree) dict \<Rightarrow> (string, tree) dict" where
  "deep_merge out [] = out"
| "deep_merge out ((key, TMap d) # items) =
     deep_merge (dict_set key
       (if truthy (dict_get d REPLACE_MARKER TNull) then TMap (dict_del REPLACE_MARKER d)
        else case map_of out key of Some (TMap b) \<Rightarrow> TMap (deep_merge b d) | _ \<Rightarrow> TMap d) out) items"
| "deep_merge out ((key, v) # items) = deep_merge (dict_set key v out) items"

section \<open>The chain of parents\<close>

record ml_files =
  mf_read :: "path \<Rightarrow> tree option"
  mf_resolve :: "path \<Rightarrow> path"
  mf_expanduser :: "path \<Rightarrow> path"

text \<open>\<open>yaml.safe_load(f) or {}\<close>, of which the next line pops a key.\<close>

definition read_mapping :: "ml_files \<Rightarrow> path \<Rightarrow> (string, tree) dict res" where
  "read_mapping F p =
     (case mf_read F p of
        None \<Rightarrow> Inl FileNotFoundError
      | Some t \<Rightarrow> if \<not> truthy t then Inr [] else (case t of TMap d \<Rightarrow> Inr d | TList ts \<Rightarrow> Inl TypeError | _ \<Rightarrow> Inl AttributeError))"

definition parent_of :: "ml_files \<Rightarrow> path \<Rightarrow> tree \<Rightarrow> path res" where
  "parent_of F p parent_ref =
     (case parent_ref of
        TStr s \<Rightarrow> let q = mf_expanduser F (mk_path s) in Inr (if take 1 q = [''/''] then q else path_div (butlast p) q)
      | _ \<Rightarrow> Inl TypeError)"

fun read_with_parents :: "nat \<Rightarrow> ml_files \<Rightarrow> path \<Rightarrow> path list \<Rightarrow> ((string, tree) dict \<times> path list) res option" where
  "read_with_parents 0 F path0 seen = None"
| "read_with_parents (Suc n) F path0 seen =
     (let p = mf_resolve F path0 in
      if p \<in> set seen then Some (Inl ValueError)
      else case read_mapping F p of
          Inl e \<Rightarrow> Some (Inl e)
        | Inr content \<Rightarrow>
            let parent_ref = dict_get content ''extends'' TNull; cfg = dict_del ''extends'' content in
            if parent_ref = TNull then Some (Inr (cfg, [p]))
            else case parent_of F p parent_ref of
                Inl e \<Rightarrow> Some (Inl e)
              | Inr parent_path \<Rightarrow>
                  if mf_read F parent_path = None then Some (Inl FileNotFoundError)
                  else case read_with_parents n F parent_path (seen @ [p]) of
                      None \<Rightarrow> None
                    | Some (Inl e) \<Rightarrow> Some (Inl e)
                    | Some (Inr (parent_cfg, lineage)) \<Rightarrow> Some (Inr (deep_merge parent_cfg cfg, lineage @ [p])))"

section \<open>What a child inherits\<close>

fun wf_tree :: "tree \<Rightarrow> bool" where
  "wf_tree (TMap d) \<longleftrightarrow> wf_dict d \<and> list_all (\<lambda>p. wf_tree (snd p)) d"
| "wf_tree t \<longleftrightarrow> True"

text \<open>A path a mapping says nothing about: no step of it is a leaf or a replaced mapping.\<close>

fun untouched :: "(string, tree) dict \<Rightarrow> string list \<Rightarrow> bool" where
  "untouched d [] \<longleftrightarrow> False"
| "untouched d (k # ks) \<longleftrightarrow>
     (case map_of d k of None \<Rightarrow> True | Some (TMap c) \<Rightarrow> \<not> truthy (dict_get c REPLACE_MARKER TNull) \<and> untouched c ks | Some t \<Rightarrow> False)"

text \<open>The value a key gets in a merge.\<close>

definition merged_value :: "tree option \<Rightarrow> tree \<Rightarrow> tree" where
  "merged_value old v =
     (case v of TMap d \<Rightarrow> (if truthy (dict_get d REPLACE_MARKER TNull) then TMap (dict_del REPLACE_MARKER d)
        else case old of Some (TMap b) \<Rightarrow> TMap (deep_merge b d) | _ \<Rightarrow> TMap d) | _ \<Rightarrow> v)"

lemma deep_merge_Cons: "deep_merge out ((k, v) # items) = deep_merge (dict_set k (merged_value (map_of out k) v) out) items"
  by (cases v) (auto simp: merged_value_def)

lemma map_of_deep_merge:
  "wf_dict ov \<Longrightarrow> map_of (deep_merge out ov) k =
     (case map_of ov k of None \<Rightarrow> map_of out k | Some v \<Rightarrow> Some (merged_value (map_of out k) v))"
proof (induction ov arbitrary: out)
  case (Cons p ov)
  obtain a v where p: "p = (a, v)" by force
  have "map_of ov a = None" using Cons.prems by (simp add: wf_dict_def p map_of_eq_None_iff)
  then show ?case using Cons by (auto simp: p deep_merge_Cons map_of_dict_set wf_dict_def split: option.splits simp del: deep_merge.simps)
qed simp

lemma untouched_t_at: "untouched d ks \<Longrightarrow> t_at d ks = None"
  by (induction d ks rule: t_at.induct) (auto split: option.splits tree.splits)

lemma t_at_Cons: "ks \<noteq> [] \<Longrightarrow> t_at d (k # ks) = (case map_of d k of Some (TMap c) \<Rightarrow> t_at c ks | _ \<Rightarrow> None)"
  by (cases ks) auto

lemma map_of_dict_del: "map_of (dict_del m d) k = (if k = m then None else map_of d k)"
  by (induction d) (auto simp: dict_del_def)

lemma wf_tree_at: "wf_tree (TMap d) \<Longrightarrow> map_of d k = Some t \<Longrightarrow> wf_tree t"
  by (auto simp: list_all_iff dest!: map_of_SomeD)

lemma t_at_dict_del: "ks \<noteq> [] \<Longrightarrow> hd ks \<noteq> m \<Longrightarrow> t_at (dict_del m d) ks = t_at d ks"
  by (cases "(d, ks)" rule: t_at.cases) (auto simp: map_of_dict_del t_at_Cons split: option.splits tree.splits)

lemma inherited: "wf_tree (TMap ov) \<Longrightarrow> untouched ov ks \<Longrightarrow> t_at (deep_merge base ov) ks = t_at base ks"
proof (induction ks arbitrary: base ov)
  case (Cons k ks)
  have wf: "wf_dict ov" using Cons.prems by simp
  have merged: "map_of (deep_merge base ov) k = (case map_of ov k of None \<Rightarrow> map_of base k | Some v \<Rightarrow> Some (merged_value (map_of base k) v))"
    by (rule map_of_deep_merge [OF wf])
  show ?case
  proof (cases "map_of ov k")
    case None
    then show ?thesis using merged by (cases ks) auto
  next
    case (Some v)
    then obtain c where c: "v = TMap c" "\<not> truthy (dict_get c REPLACE_MARKER TNull)" "untouched c ks"
      using Cons.prems by (cases v) auto
    then have "ks \<noteq> []" by (cases ks) auto
    moreover have "wf_tree (TMap c)" using wf_tree_at [OF Cons.prems(1) Some] c by simp
    moreover note Cons.IH [OF this c(3)] untouched_t_at [OF c(3)]
    ultimately show ?thesis using merged Some c by (auto simp: t_at_Cons merged_value_def split: option.splits tree.splits)
  qed
qed simp

lemma overridden:
  "wf_tree (TMap ov) \<Longrightarrow> REPLACE_MARKER \<notin> set ks \<Longrightarrow> t_at ov ks = Some x \<Longrightarrow> (\<And>d. x \<noteq> TMap d) \<Longrightarrow> t_at (deep_merge base ov) ks = Some x"
proof (induction ks arbitrary: base ov)
  case (Cons k ks)
  have wf: "wf_dict ov" using Cons.prems by simp
  have merged: "map_of (deep_merge base ov) k = (case map_of ov k of None \<Rightarrow> map_of base k | Some v \<Rightarrow> Some (merged_value (map_of base k) v))"
    by (rule map_of_deep_merge [OF wf])
  show ?case
  proof (cases "ks = []")
    case True
    then show ?thesis using merged Cons.prems(3,4) by (cases x) (auto simp: merged_value_def)
  next
    case False
    then obtain c where c: "map_of ov k = Some (TMap c)" "t_at c ks = Some x"
      using Cons.prems(3) by (auto simp: t_at_Cons split: option.splits tree.splits)
    have "wf_tree (TMap c)" by (rule wf_tree_at [OF Cons.prems(1) c(1)])
    moreover have "hd ks \<noteq> REPLACE_MARKER" "REPLACE_MARKER \<notin> set ks" using Cons.prems(2) False by (cases ks; auto)+
    ultimately show ?thesis using merged c False Cons.IH [of c] Cons.prems(4)
      by (auto simp: t_at_Cons merged_value_def t_at_dict_del split: option.splits tree.splits)
  qed
qed simp

text \<open>
  A child configuration changes what it names and nothing else. Whatever the parent says, at every path the child does
  not mention the merged configuration is the parent's, at every leaf of the child it is the child's, and a mapping the
  child marks as a replacement is taken whole, without the parent's keys.
\<close>
lemma child_config_inherits:
  assumes "wf_tree (TMap child)"
  shows "(untouched child ks \<longrightarrow> t_at (deep_merge parent child) ks = t_at parent ks) \<and>
    (REPLACE_MARKER \<notin> set ks \<longrightarrow> t_at child ks = Some leaf \<longrightarrow> (\<forall>d. leaf \<noteq> TMap d) \<longrightarrow> t_at (deep_merge parent child) ks = Some leaf) \<and>
    (map_of child k = Some (TMap block) \<longrightarrow> truthy (dict_get block REPLACE_MARKER TNull) \<longrightarrow>
       map_of (deep_merge parent child) k = Some (TMap (dict_del REPLACE_MARKER block)))"
  using inherited [OF assms] overridden [OF assms] map_of_deep_merge [of child parent k] assms
  by (simp add: merged_value_def)

definition demo_parent :: "(string, tree) dict" where
  "demo_parent = [(''windowing'', TMap [(''K'', TInt 6), (''L'', TInt 30)]), (''days'', TMap [(''monday'', TInt 1)])]"

definition demo_child :: "(string, tree) dict" where
  "demo_child = [(''windowing'', TMap [(''K'', TInt 12)]), (''days'', TMap [(''_replace'', TBool True), (''s1'', TInt 2)])]"

lemma child_config_inherits_witness:
  "t_at (deep_merge demo_parent demo_child) [''windowing'', ''L''] = Some (TInt 30) \<and>
   t_at (deep_merge demo_parent demo_child) [''windowing'', ''K''] = Some (TInt 12) \<and>
   map_of (deep_merge demo_parent demo_child) ''days'' = Some (TMap [(''s1'', TInt 2)])"
  using child_config_inherits [of demo_child "[''windowing'', ''L'']" demo_parent "TInt 0" "''days''" "[(''_replace'', TBool True), (''s1'', TInt 2)]"]
    child_config_inherits [of demo_child "[''windowing'', ''K'']" demo_parent "TInt 12" "''days''" "[]"]
  by (simp add: demo_child_def demo_parent_def wf_dict_def dict_get_def REPLACE_MARKER_def dict_del_def)

section \<open>The chain ends\<close>

definition own_config :: "ml_files \<Rightarrow> path \<Rightarrow> (string, tree) dict" where
  "own_config F p = (case read_mapping F p of Inl e \<Rightarrow> [] | Inr d \<Rightarrow> dict_del ''extends'' d)"

text \<open>The first configuration of a chain, refined by each of the following.\<close>

definition chain_config :: "ml_files \<Rightarrow> path list \<Rightarrow> (string, tree) dict" where
  "chain_config F lineage = foldl (\<lambda>cfg p. deep_merge cfg (own_config F p)) (own_config F (hd lineage)) (tl lineage)"

lemma read_with_parents_ends:
  assumes "\<forall>p. mf_resolve F (mf_resolve F p) = mf_resolve F p" "\<forall>p. mf_read F p \<noteq> None \<longrightarrow> mf_resolve F p \<in> set files"
  shows "distinct seen \<Longrightarrow> set seen \<subseteq> set files \<Longrightarrow> length files < n + length seen \<Longrightarrow> read_with_parents n F path0 seen \<noteq> None"
proof (induction n arbitrary: path0 seen)
  case 0
  then show ?case by (metis add_0 card_length card_mono distinct_card le_trans linorder_not_less List.finite_set)
next
  case (Suc n)
  show ?case
  proof (cases "mf_resolve F path0 \<in> set seen \<or> mf_read F (mf_resolve F path0) = None")
    case True
    then show ?thesis by (auto simp: Let_def read_mapping_def)
  next
    case False
    then have "mf_resolve F path0 \<in> set files" using assms by metis
    then have "read_with_parents n F q (seen @ [mf_resolve F path0]) \<noteq> None" for q
      using Suc.prems False by (intro Suc.IH) auto
    then show ?thesis using False by (auto simp: Let_def split: sum.splits option.splits) (metis option.simps(3))
  qed
qed

lemma read_with_parents_chain:
  "read_with_parents n F path0 seen = Some (Inr (cfg, lineage)) \<Longrightarrow>
     distinct lineage \<and> set lineage \<inter> set seen = {} \<and> lineage \<noteq> [] \<and> last lineage = mf_resolve F path0 \<and> cfg = chain_config F lineage"
proof (induction n arbitrary: path0 seen cfg lineage)
  case (Suc n)
  let ?p = "mf_resolve F path0"
  obtain content where content: "?p \<notin> set seen" "read_mapping F ?p = Inr content"
    using Suc.prems by (auto simp: Let_def split: if_splits sum.splits)
  show ?case
  proof (cases "dict_get content ''extends'' TNull = TNull")
    case True
    then show ?thesis using Suc.prems content by (auto simp: Let_def chain_config_def own_config_def)
  next
    case False
    then obtain q pcfg l where q: "read_with_parents n F q (seen @ [?p]) = Some (Inr (pcfg, l))"
      and eq: "cfg = deep_merge pcfg (dict_del ''extends'' content)" "lineage = l @ [?p]"
      using Suc.prems content by (auto simp: Let_def split: sum.splits if_splits option.splits)
    then show ?thesis using Suc.IH [OF q] content by (cases l) (auto simp: chain_config_def own_config_def)
  qed
qed simp

text \<open>
  C32. Reading a configuration ends. However the files extend each other, also in a circle, the recursion stops within
  as many steps as there are files: with an error, or with the files of a chain without repetition that ends in the
  requested one, and the configuration is the first of them refined by each of the following.
\<close>
theorem config_chain_ends:
  assumes "\<forall>p. mf_resolve F (mf_resolve F p) = mf_resolve F p" "\<forall>p. mf_read F p \<noteq> None \<longrightarrow> mf_resolve F p \<in> set files" "length files < n"
  shows "\<exists>r. read_with_parents n F p [] = Some r \<and>
    (case r of Inl e \<Rightarrow> True
     | Inr (cfg, lineage) \<Rightarrow> distinct lineage \<and> lineage \<noteq> [] \<and> last lineage = mf_resolve F p \<and> cfg = chain_config F lineage)"
proof -
  have "read_with_parents n F p [] \<noteq> None" using assms(3) by (intro read_with_parents_ends [OF assms(1,2)]) auto
  then obtain r where "read_with_parents n F p [] = Some r" by blast
  then show ?thesis using read_with_parents_chain [of n F p "[]"] by (cases r) auto
qed

text \<open>Two files that extend each other.\<close>

definition demo_files :: ml_files where
  "demo_files = \<lparr>mf_read = (\<lambda>p. if p = [''/'', ''a''] then Some (TMap [(''extends'', TStr ''b'')])
       else if p = [''/'', ''b''] then Some (TMap [(''extends'', TStr ''a'')]) else None), mf_resolve = id, mf_expanduser = id\<rparr>"

lemma config_chain_ends_witness:
  "\<exists>r. read_with_parents 3 demo_files [''/'', ''a''] [] = Some r \<and> r = Inl ValueError"
proof -
  have "\<forall>p. mf_read demo_files p \<noteq> None \<longrightarrow> mf_resolve demo_files p \<in> set [[''/'', ''a''], [''/'', ''b'']]" by (simp add: demo_files_def)
  moreover have "read_with_parents 3 demo_files [''/'', ''a''] [] = Some (Inl ValueError)" by code_simp
  ultimately show ?thesis using config_chain_ends [of demo_files "[[''/'', ''a''], [''/'', ''b'']]" 3 "[''/'', ''a'']"] by (simp add: demo_files_def)
qed

text \<open>A replacement whose enclosing mapping the parent does not have keeps its marker.\<close>

lemma replace_marker_survives:
  "map_of parent ''dataset'' = None \<Longrightarrow>
   t_at (deep_merge parent [(''dataset'', TMap [(''days'', TMap [(REPLACE_MARKER, TBool True)])])]) [''dataset'', ''days'', REPLACE_MARKER] = Some (TBool True)"
  by (simp add: map_of_dict_set dict_get_def REPLACE_MARKER_def)

end
