(* ===== verification/Pipeline.thy ===== *)
theory Pipeline
  imports MlConfig Splits
begin

text \<open>
  \<open>ml/nidra/train/pipeline.py\<close>: from a configuration to the splits. The processed tables on disk are a dictionary by
  path, threaded through the loop over the days; which raw files exist and what \<open>expanduser\<close> makes of a path are the
  environment. A row cap is a number or null, the validation fraction is a finite number, a day key has no slash.
\<close>

section \<open>Reading the configuration\<close>

record 'a pipe_env =
  pe_conv :: pyconv
  pe_exists :: "path \<Rightarrow> bool"
  pe_expanduser :: "path \<Rightarrow> path"
  pe_root :: path
  pe_day :: "'a day_env"

text \<open>\<open>cfg[key]\<close>.\<close>

fun t_item :: "tree \<Rightarrow> string \<Rightarrow> tree res" where
  "t_item (TMap d) k = dict_index d k"
| "t_item t k = Inl TypeError"

text \<open>\<open>Path(value)\<close>.\<close>

fun t_path :: "tree \<Rightarrow> path res" where
  "t_path (TStr s) = Inr (mk_path s)"
| "t_path t = Inl TypeError"

text \<open>A list of day keys; an entry that is not a string names no day.\<close>

definition t_names :: "tree \<Rightarrow> string list res" where
  "t_names t = bind_res (t_iter t) (\<lambda>ts. Inr (List.map_filter (\<lambda>x. case x of TStr s \<Rightarrow> Some s | _ \<Rightarrow> None) ts))"

definition t_names_or_none :: "tree \<Rightarrow> string list res" where
  "t_names_or_none t = (if truthy t then t_names t else Inr [])"

fun t_rat :: "tree \<Rightarrow> rat res" where
  "t_rat (TInt i) = Inr (of_int i)"
| "t_rat (TFloat (Fin r)) = Inr r"
| "t_rat t = Inl TypeError"

fun t_items :: "tree \<Rightarrow> (string, tree) dict res" where
  "t_items (TMap d) = Inr d"
| "t_items t = Inl AttributeError"

definition day_format :: "pyconv \<Rightarrow> tree \<Rightarrow> string res" where
  "day_format C day_meta =
     bind_res (t_get day_meta ''format'' (TStr ''cicflowmeter'')) (\<lambda>f.
       let fmt = t_str C f in if fmt \<notin> set FLOW_FORMATS then Inl ValueError else Inr fmt)"

definition FLOW_ONLY_TAG :: string where "FLOW_ONLY_TAG = ''flowonly''"

definition declared_packets_tag :: "tree \<Rightarrow> string res" where
  "declared_packets_tag day_meta =
     bind_res (t_get day_meta ''packets'' TNull) (\<lambda>packets.
       if truthy packets then bind_res (t_path packets) (\<lambda>p. Inr (path_name p)) else Inr FLOW_ONLY_TAG)"

fun join_with :: "string \<Rightarrow> string list \<Rightarrow> string" where
  "join_with sep [] = []"
| "join_with sep [x] = x"
| "join_with sep (x # y # zs) = x @ sep @ join_with sep (y # zs)"

definition host_scope_tag :: "string list \<Rightarrow> string" where
  "host_scope_tag internal_cidrs =
     (if internal_cidrs = [] then ''allhosts''
      else join_with ''_'' (map (map (\<lambda>c. if c = CHR ''/'' then CHR ''-'' else c)) internal_cidrs))"

definition CIC2017_TIMEBASE_TAG :: string where "CIC2017_TIMEBASE_TAG = ''utc12h''"
definition FUSION_TAG :: string where "FUSION_TAG = ''fuse2''"

definition day_cache_path :: "pyconv \<Rightarrow> path \<Rightarrow> string \<Rightarrow> tree \<Rightarrow> tree \<Rightarrow> string \<Rightarrow> string \<Rightarrow> string \<Rightarrow> path res" where
  "day_cache_path C processed_dir day_key windowing_cfg row_cap packets_tag flow_format host_scope =
     bind_res (t_item windowing_cfg ''window_seconds'') (\<lambda>w.
       Inr (processed_dir @
         [if flow_format = ''cicflowmeter'' then
            day_key @ ''__w'' @ t_str C w @ ''__'' @ packets_tag @ ''__cap'' @ t_str C row_cap @ ''__'' @ CIC2017_TIMEBASE_TAG @ ''__'' @
              FUSION_TAG @ ''.parquet''
          else
            day_key @ ''__'' @ flow_format @ ''__w'' @ t_str C w @ ''__'' @ packets_tag @ ''__cap'' @ t_str C row_cap @ ''__'' @
              (if host_scope = [] then ''allhosts'' else host_scope) @ ''__'' @ FUSION_TAG @ ''.parquet'']))"

definition resolve_packets_path :: "'a pipe_env \<Rightarrow> tree \<Rightarrow> tree \<Rightarrow> path option res" where
  "resolve_packets_path E dataset_cfg day_meta =
     bind_res (t_get day_meta ''packets'' TNull) (\<lambda>packets.
       if \<not> truthy packets then Inr None
       else bind_res (t_get dataset_cfg ''packets_dir'' TNull) (\<lambda>d.
         bind_res (if truthy d then Inr d else t_item dataset_cfg ''cic2017_flow_dir'') (\<lambda>d.
         bind_res (t_path d) (\<lambda>packets_dir. bind_res (t_path packets) (\<lambda>candidate.
           let p = path_div (pe_expanduser E packets_dir) candidate in Inr (if pe_exists E p then Some p else None))))))"

definition DATASET_OF_FORMAT :: "(string, string) dict" where
  "DATASET_OF_FORMAT = [(''cicflowmeter'', ''cic2017''), (''ctu_binetflow'', ''ctu13'')]"

definition flow_dirs :: "'a pipe_env \<Rightarrow> tree \<Rightarrow> (string, path) dict res" where
  "flow_dirs E dataset_cfg =
     bind_res (t_get dataset_cfg ''cic2017_flow_dir'' TNull) (\<lambda>cic.
     bind_res (t_get dataset_cfg ''ctu13_dir'' TNull) (\<lambda>ctu.
     bind_res (if truthy cic then bind_res (t_path cic) (\<lambda>p. Inr [(''cicflowmeter'', pe_expanduser E p)]) else Inr []) (\<lambda>d1.
     bind_res (if truthy ctu then bind_res (t_path ctu) (\<lambda>p. Inr [(''ctu_binetflow'', pe_expanduser E p)]) else Inr []) (\<lambda>d2.
     bind_res (bind_res (t_get dataset_cfg ''days'' (TMap [])) t_items) (\<lambda>days.
     bind_res (traverse_res (\<lambda>(k, m). day_format (pe_conv E) m) days) (\<lambda>needed.
       if filter (\<lambda>f. f \<notin> set (keys (d1 @ d2))) needed \<noteq> [] then Inl KeyError else Inr (d1 @ d2)))))))"

definition geometry_from_config :: "pyconv \<Rightarrow> tree \<Rightarrow> (int \<times> int \<times> int) res" where
  "geometry_from_config C cfg =
     bind_res (t_get cfg ''windowing'' (TMap [])) (\<lambda>w.
     bind_res (bind_res (t_get w ''window_seconds'' (TInt 60)) (t_int C)) (\<lambda>window_seconds.
     bind_res (bind_res (t_get w ''context_length'' (TInt 30)) (t_int C)) (\<lambda>L.
     bind_res (bind_res (t_get w ''horizon_length'' (TInt 6)) (t_int C)) (\<lambda>K.
     bind_res (bind_res (t_get cfg ''labels'' (TMap [])) (\<lambda>l. t_get l ''risk_threshold_windows'' TNull)) (\<lambda>declared.
       if declared = TNull then Inr (window_seconds, L, K)
       else bind_res (t_int C declared) (\<lambda>d. if d \<noteq> K then Inl ValueError else Inr (window_seconds, L, K)))))))"

definition filter_min_windows :: "'f lrow list \<Rightarrow> int \<Rightarrow> 'f lrow list" where
  "filter_min_windows table min_windows_per_host =
     (if min_windows_per_host \<le> 1 then table
      else filter (\<lambda>r. min_windows_per_host \<le> int (length (rows_of lr_host (lr_host r) table))) table)"

section \<open>The splits of a configuration\<close>

text \<open>What the loop over the days reads and does not change.\<close>

record day_params =
  dp_dataset :: tree
  dp_windowing :: tree
  dp_window_seconds :: int
  dp_horizon :: nat
  dp_dirs :: "(string, path) dict"
  dp_cidrs :: "string list"
  dp_row_cap :: tree
  dp_processed :: "path option"

fun row_cap_of :: "tree \<Rightarrow> nat option" where
  "row_cap_of (TInt i) = Some (nat i)"
| "row_cap_of t = None"

definition cache_for :: "pyconv \<Rightarrow> day_params \<Rightarrow> string \<Rightarrow> string \<Rightarrow> string \<Rightarrow> path option res" where
  "cache_for C P day_key fmt packets_tag =
     (case dp_processed P of None \<Rightarrow> Inr None
      | Some d \<Rightarrow> bind_res (day_cache_path C d day_key (dp_windowing P) (dp_row_cap P) packets_tag fmt (host_scope_tag (dp_cidrs P))) (\<lambda>p. Inr (Some p)))"

type_synonym disk = "(path, day_table) dict"

definition recompute_day :: "'a pipe_env \<Rightarrow> day_params \<Rightarrow> disk \<Rightarrow> string \<Rightarrow> tree \<Rightarrow> string \<Rightarrow> path \<Rightarrow> (day_table option \<times> disk) res" where
  "recompute_day E P disk day_key day_meta fmt csv_path =
     bind_res (resolve_packets_path E (dp_dataset P) day_meta) (\<lambda>packets_parquet_path.
     let actual_tag = (case packets_parquet_path of Some p \<Rightarrow> path_name p | None \<Rightarrow> FLOW_ONLY_TAG) in
     bind_res (cache_for (pe_conv E) P day_key fmt actual_tag) (\<lambda>cache_path.
     bind_res (load_and_label_day (pe_day E) disk csv_path (dp_window_seconds P) 1 packets_parquet_path (row_cap_of (dp_row_cap P)) cache_path
         (dp_horizon P) fmt None (if dp_cidrs P = [] then None else Some (dp_cidrs P))) (\<lambda>(table, disk'). Inr (Some table, disk'))))"

definition process_day :: "'a pipe_env \<Rightarrow> day_params \<Rightarrow> disk \<Rightarrow> string \<Rightarrow> tree \<Rightarrow> (day_table option \<times> disk) res" where
  "process_day E P disk day_key day_meta =
     bind_res (day_format (pe_conv E) day_meta) (\<lambda>fmt.
     bind_res (dict_index (dp_dirs P) fmt) (\<lambda>d. bind_res (bind_res (t_item day_meta ''file'') t_path) (\<lambda>file.
     let csv_path = path_div d file in
     bind_res (bind_res (declared_packets_tag day_meta) (cache_for (pe_conv E) P day_key fmt)) (\<lambda>declared_cache.
     if (case declared_cache of None \<Rightarrow> False | Some p \<Rightarrow> map_of disk p \<noteq> None) then
       bind_res (load_and_label_day (pe_day E) disk csv_path (dp_window_seconds P) 1 None None declared_cache (dp_horizon P) fmt None
         (Some [''147.32.0.0/16''])) (\<lambda>(table, disk'). Inr (Some table, disk'))
     else if \<not> pe_exists E csv_path then Inr (None, disk)
     else recompute_day E P disk day_key day_meta fmt csv_path))))"

fun load_days :: "'a pipe_env \<Rightarrow> day_params \<Rightarrow> disk \<Rightarrow> (string, tree) dict \<Rightarrow> ((string, day_table) dict \<times> disk) res" where
  "load_days E P disk [] = Inr ([], disk)"
| "load_days E P disk ((day_key, day_meta) # days) =
     bind_res (process_day E P disk day_key day_meta) (\<lambda>(table, disk').
     bind_res (load_days E P disk' days) (\<lambda>(tables, disk'').
       Inr (case table of Some t \<Rightarrow> (day_key, t) # tables | None \<Rightarrow> tables, disk'')))"

type_synonym tagged_table = "(rat list \<times> string \<times> string) lrow list"

definition tag_row :: "string \<Rightarrow> string \<Rightarrow> 'f lrow \<Rightarrow> ('f \<times> string \<times> string) lrow" where
  "tag_row day_key dataset r =
     \<lparr>lr_host = lr_host r, lr_ts = lr_ts r, lr_feat = (lr_feat r, day_key, dataset), lr_stage = lr_stage r, lr_risk = lr_risk r\<rparr>"

definition dataset_of :: "pyconv \<Rightarrow> tree \<Rightarrow> string res" where
  "dataset_of C day_meta =
     bind_res (day_format C day_meta) (\<lambda>fmt.
     bind_res (t_get day_meta ''dataset'' (TStr (dict_get DATASET_OF_FORMAT fmt []))) (\<lambda>d. Inr (t_str C d)))"

definition apply_geometry :: "pyconv \<Rightarrow> (string, tree) dict \<Rightarrow> nat \<Rightarrow> int \<Rightarrow> string \<times> day_table \<Rightarrow> (string \<times> tagged_table) res" where
  "apply_geometry C days K min_windows = (\<lambda>(day_key, t).
     let table = filter_min_windows t min_windows in
     if table = [] then Inr (day_key, [])
     else bind_res (dataset_of C (dict_get days day_key TNull)) (\<lambda>dataset.
       Inr (day_key, map (tag_row day_key dataset) (reattach_risk_label table K))))"

definition split_days :: "'a pipe_env \<Rightarrow> tree \<Rightarrow> nat \<Rightarrow> (string, tagged_table) dict \<Rightarrow> (rat list \<times> string \<times> string) split_result res" where
  "split_days E splits_cfg K day_tables =
     bind_res (bind_res (t_item splits_cfg ''train_days'') t_names) (\<lambda>train_days.
     bind_res (bind_res (t_item splits_cfg ''test_days'') t_names) (\<lambda>test_days.
     bind_res (bind_res (t_item splits_cfg ''holdout_days'') t_names) (\<lambda>holdout_days.
     bind_res (bind_res (t_item splits_cfg ''val_fraction_of_train_time'') t_rat) (\<lambda>val_fraction.
     bind_res (t_get splits_cfg ''val_block_per_day'' (TBool True)) (\<lambda>per_day.
     bind_res (bind_res (t_get splits_cfg ''pre_onset_margin_minutes'' (TInt 30)) (t_int (pe_conv E))) (\<lambda>margin.
     bind_res (bind_res (t_get splits_cfg ''val_days'' TNull) t_names_or_none) (\<lambda>val_days.
     bind_res (bind_res (t_get splits_cfg ''val_carve_train_days'' TNull) t_names_or_none) (\<lambda>carve_days.
     bind_res (build_splits (Some (\<lambda>r. fst (snd (lr_feat r)))) day_tables train_days test_days holdout_days val_fraction (truthy per_day) (Some K)
       (margin * 60) val_days carve_days) (\<lambda>splits.
     bind_res (assert_no_temporal_overlap splits) (\<lambda>u. bind_res (assert_no_episode_leakage splits) (\<lambda>u. Inr splits)))))))))))"

definition build_all_splits :: "'a pipe_env \<Rightarrow> tree \<Rightarrow> disk \<Rightarrow> ((rat list \<times> string \<times> string) split_result \<times> disk) res" where
  "build_all_splits E cfg disk =
     bind_res (t_item cfg ''dataset'') (\<lambda>dataset_cfg. bind_res (t_item cfg ''windowing'') (\<lambda>windowing_cfg.
     bind_res (geometry_from_config (pe_conv E) cfg) (\<lambda>(window_seconds, L, K).
     bind_res (bind_res (t_get windowing_cfg ''min_windows_per_host'' (TInt (L + K))) (t_int (pe_conv E))) (\<lambda>min_windows.
     if min_windows < L + K then Inl ValueError
     else
     bind_res (flow_dirs E dataset_cfg) (\<lambda>dirs.
     bind_res (bind_res (t_get dataset_cfg ''ctu13_internal_cidrs'' (TList [TStr ''147.32.0.0/16''])) t_names_or_none) (\<lambda>cidrs.
     bind_res (t_get dataset_cfg ''mvp_row_cap_per_day'' TNull) (\<lambda>row_cap.
     bind_res (bind_res (t_get cfg ''artifacts'' (TMap [])) (\<lambda>a. t_get a ''processed_dir'' TNull)) (\<lambda>processed.
     bind_res (if truthy processed then bind_res (t_path processed) (\<lambda>p. Inr (Some (path_div (pe_root E) p))) else Inr None) (\<lambda>processed_dir.
     bind_res (bind_res (t_item dataset_cfg ''days'') t_items) (\<lambda>days.
     bind_res (load_days E \<lparr>dp_dataset = dataset_cfg, dp_windowing = windowing_cfg, dp_window_seconds = window_seconds, dp_horizon = nat K, dp_dirs = dirs,
         dp_cidrs = cidrs, dp_row_cap = row_cap, dp_processed = processed_dir\<rparr> disk days) (\<lambda>(tables, disk').
     bind_res (traverse_res (apply_geometry (pe_conv E) days (nat K) min_windows) tables) (\<lambda>day_tables.
     bind_res (t_item cfg ''splits'') (\<lambda>splits_cfg.
     bind_res (split_days E splits_cfg (nat K) day_tables) (\<lambda>splits. Inr (splits, disk')))))))))))))))"

definition training_dataset_tag :: "pyconv \<Rightarrow> tree \<Rightarrow> string res" where
  "training_dataset_tag C cfg =
     bind_res (bind_res (bind_res (t_get cfg ''dataset'' (TMap [])) (\<lambda>d. t_get d ''days'' (TMap []))) t_items) (\<lambda>days.
     bind_res (bind_res (bind_res (t_get cfg ''splits'' (TMap [])) (\<lambda>s. t_get s ''train_days'' (TList []))) t_names) (\<lambda>train_keys.
     bind_res (traverse_res (\<lambda>k. dataset_of C (dict_get days k TNull)) (filter (\<lambda>k. map_of days k \<noteq> None) train_keys)) (\<lambda>tags.
       Inr (if tags = [] then ''unknown'' else join_with ''+'' (sort (remdups tags))))))"

definition feature_regime :: "pyconv \<Rightarrow> tree \<Rightarrow> string res" where
  "feature_regime C cfg = bind_res (bind_res (t_get cfg ''features'' (TMap [])) (\<lambda>f. t_get f ''regime'' (TStr ''full''))) (\<lambda>r. Inr (t_str C r))"

section \<open>Labels are those of the configuration\<close>

abbreviation rel_res :: "('a \<Rightarrow> 'b \<Rightarrow> bool) \<Rightarrow> 'a res \<Rightarrow> 'b res \<Rightarrow> bool" where
  "rel_res R \<equiv> rel_sum (=) R"

lemma rel_bind: "rel_res R m n \<Longrightarrow> (\<And>x y. R x y \<Longrightarrow> rel_res S (f x) (g y)) \<Longrightarrow> rel_res S (bind_res m f) (bind_res n g)"
  by (cases m; cases n) auto

lemma rel_bind_same: "(\<And>x. m = Inr x \<Longrightarrow> rel_res S (f x) (g x)) \<Longrightarrow> rel_res S (bind_res m f) (bind_res m g)"
  by (cases m) auto

lemma traverse_res_same: "list_all2 (\<lambda>x y. f x = g y) xs ys \<Longrightarrow> traverse_res f xs = traverse_res g ys"
  by (induction rule: list_all2_induct) auto

definition same_table :: "'f lrow list \<Rightarrow> 'f lrow list \<Rightarrow> bool" where
  "same_table t u \<longleftrightarrow> map (\<lambda>r. r\<lparr>lr_risk := 0\<rparr>) t = map (\<lambda>r. r\<lparr>lr_risk := 0\<rparr>) u"

definition same_disk :: "('p, 'f lrow list) dict \<Rightarrow> ('p, 'f lrow list) dict \<Rightarrow> bool" where
  "same_disk = list_all2 (\<lambda>(p, t) (q, u). p = q \<and> same_table t u)"

lemma same_table_rows:
  "same_table t u \<longleftrightarrow> list_all2 (\<lambda>r s. lr_host r = lr_host s \<and> lr_ts r = lr_ts s \<and> lr_feat r = lr_feat s \<and> lr_stage r = lr_stage s) t u"
proof -
  have "(r\<lparr>lr_risk := 0\<rparr> = s\<lparr>lr_risk := 0\<rparr>) \<longleftrightarrow> lr_host r = lr_host s \<and> lr_ts r = lr_ts s \<and> lr_feat r = lr_feat s \<and> lr_stage r = lr_stage s" for r s :: "'a lrow"
    by (cases r; cases s) auto
  then show ?thesis by (simp add: same_table_def list_all2_map1 list_all2_map2 flip: list.rel_eq)
qed

lemma same_disk_lookup: "same_disk d e \<Longrightarrow> rel_option same_table (map_of d p) (map_of e p)"
  unfolding same_disk_def by (induction rule: list_all2_induct) auto

lemma same_disk_set: "same_disk d e \<Longrightarrow> same_table t u \<Longrightarrow> same_disk (dict_set p t d) (dict_set p u e)"
  unfolding same_disk_def dict_set_def by (induction rule: list_all2_induct) auto

lemma same_table_refl [simp]: "same_table t t"
  by (simp add: same_table_def)

lemma load_same:
  assumes "same_disk d e"
  shows "rel_res (rel_prod same_table same_disk) (load_and_label_day D d csv W mw pk cap cp K fmt dl cidrs) (load_and_label_day D e csv W mw pk cap cp K fmt dl cidrs)"
proof (cases cp)
  case None
  then show ?thesis using assms by (auto simp: load_and_label_day_def intro: rel_bind_same)
next
  case (Some p)
  show ?thesis using same_disk_lookup [OF assms, of p] same_disk_set [OF assms same_table_refl, of p] assms
    by (cases "map_of d p"; cases "map_of e p") (auto simp: load_and_label_day_def Some intro!: rel_bind_same)
qed

lemma process_day_same:
  assumes "same_disk d e"
  shows "rel_res (rel_prod (rel_option same_table) same_disk) (process_day E P d k m) (process_day E P e k m)"
proof -
  have hit: "(map_of d p \<noteq> None) = (map_of e p \<noteq> None)" for p using same_disk_lookup [OF assms, of p] by (cases "map_of d p"; cases "map_of e p") auto
  have "rel_res (rel_prod (rel_option same_table) same_disk) (recompute_day E P d k m fmt csv) (recompute_day E P e k m fmt csv)" for fmt csv
    unfolding recompute_day_def Let_def by (intro rel_bind_same rel_bind [OF load_same [OF assms]]) auto
  then show ?thesis
    unfolding process_day_def Let_def hit using assms
    by (auto intro!: rel_bind_same rel_bind [OF load_same [OF assms]])
qed

lemma load_days_same:
  "same_disk d e \<Longrightarrow> rel_res (rel_prod same_disk same_disk) (load_days E P d days) (load_days E P e days)"
proof (induction days arbitrary: d e)
  case Nil
  then show ?case by (simp add: same_disk_def)
next
  case (Cons x days)
  obtain k m where x: "x = (k, m)" by force
  have nil: "same_disk [] []" by (simp add: same_disk_def)
  have cons: "same_table t u \<Longrightarrow> same_disk ts us \<Longrightarrow> same_disk ((k, t) # ts) ((k, u) # us)" for t u ts us by (simp add: same_disk_def)
  show ?case unfolding x load_days.simps
    by (rule rel_bind [OF process_day_same [OF Cons.prems]]) (auto intro!: rel_bind [OF Cons.IH] cons split: option.splits elim: option.rel_cases)
qed

lemma length_rows_same: "list_all2 (\<lambda>r s. f r = f s) t u \<Longrightarrow> length (rows_of f h t) = length (rows_of f h u)"
  unfolding rows_of_def by (induction rule: list_all2_induct) auto

lemma list_all2_filter: "list_all2 R t u \<Longrightarrow> (\<And>r s. R r s \<Longrightarrow> P r = Q s) \<Longrightarrow> list_all2 R (filter P t) (filter Q u)"
  by (induction rule: list_all2_induct) auto

lemma filter_min_windows_same: assumes "same_table t u" shows "same_table (filter_min_windows t mw) (filter_min_windows u mw)"
proof -
  have "list_all2 (\<lambda>r s. lr_host r = lr_host s) t u" using assms unfolding same_table_rows by (rule list_all2_mono) simp
  note count = length_rows_same [OF this]
  show ?thesis using assms unfolding filter_min_windows_def same_table_rows count by (auto intro!: list_all2_filter)
qed

lemma map_insort_key: "(\<And>r. f (g r) = f r) \<Longrightarrow> map g (insort_key f x xs) = insort_key f (g x) (map g xs)"
  by (induction xs) auto

lemma by_host_ts_same: assumes "same_table t u" shows "same_table (by_host_ts t) (by_host_ts u)"
proof -
  have "map (\<lambda>r. r\<lparr>lr_risk := 0\<rparr>) (by_host_ts t) = by_host_ts (map (\<lambda>r. r\<lparr>lr_risk := 0\<rparr>) t)" for t :: "'a lrow list"
    unfolding by_host_ts_def by (induction t) (simp_all add: map_insort_key)
  then show ?thesis using assms by (simp add: same_table_def)
qed

lemma same_table_map:
  assumes "same_table t u" "\<And>r s. lr_host r = lr_host s \<Longrightarrow> lr_stage r = lr_stage s \<Longrightarrow> f r = f s"
  shows "map f t = map f u"
  using assms(1) unfolding same_table_rows by (induction rule: list_all2_induct) (auto intro: assms(2))

lemma same_table_labels: "same_table t u \<Longrightarrow> map (\<lambda>(r, y). r\<lparr>lr_risk := y\<rparr>) (zip t ys) = map (\<lambda>(r, y). r\<lparr>lr_risk := y\<rparr>) (zip u ys)"
  unfolding same_table_rows
proof (induction arbitrary: ys rule: list_all2_induct)
  case (Cons x xs y zs)
  then show ?case by (cases ys; cases x; cases y) auto
qed simp

lemma reattach_same: assumes "same_table t u" shows "reattach_risk_label t K = reattach_risk_label u K"
proof -
  note same = by_host_ts_same [OF assms]
  have "map lr_host (by_host_ts t) = map lr_host (by_host_ts u)"
    "map (\<lambda>r. if is_attack r then 1 else 0 :: int) (by_host_ts t) = map (\<lambda>r. if is_attack r then 1 else 0) (by_host_ts u)"
    by (auto intro!: same_table_map [OF same] simp: is_attack_def)
  moreover from this(1) have "length (by_host_ts t) = length (by_host_ts u)" using map_eq_imp_length_eq by blast
  ultimately show ?thesis unfolding reattach_risk_label_def Let_def by (simp add: same_table_labels [OF same])
qed

lemma apply_geometry_same: "same_table t u \<Longrightarrow> apply_geometry C days K mw (k, t) = apply_geometry C days K mw (k, u)"
  using filter_min_windows_same [of t u mw] reattach_same [of "filter_min_windows t mw" "filter_min_windows u mw" K]
  by (auto simp: apply_geometry_def Let_def same_table_rows)

text \<open>
  C30. No stale label reaches a split. Whatever risk labels the tables on disk carry, for whatever horizon they were
  written, the splits of a configuration are the same: every label in them is derived anew from the stages for the
  configured horizon.
\<close>
theorem stale_labels_never_reach_a_split:
  assumes "list_all2 (\<lambda>(p, t) (q, u). p = q \<and> map (\<lambda>r. r\<lparr>lr_risk := 0\<rparr>) t = map (\<lambda>r. r\<lparr>lr_risk := 0\<rparr>) u) disk disk'"
  shows "rel_sum (=) (\<lambda>(splits, d) (splits', d'). splits = splits') (build_all_splits E cfg disk) (build_all_splits E cfg disk')"
proof -
  have same: "same_disk disk disk'" using assms by (simp add: same_disk_def same_table_def)
  have traverse: "rel_res S (bind_res (traverse_res (apply_geometry C days K mw) ts) f) (bind_res (traverse_res (apply_geometry C days K mw) us) g)"
    if "same_disk ts us" "\<And>x. rel_res S (f x) (g x)" for C days K mw ts us S f g
  proof -
    have "traverse_res (apply_geometry C days K mw) ts = traverse_res (apply_geometry C days K mw) us"
      using that(1) unfolding same_disk_def by (intro traverse_res_same) (auto elim!: list_all2_mono intro: apply_geometry_same)
    then show ?thesis using that(2) by (auto intro: rel_bind_same)
  qed
  show ?thesis
    unfolding build_all_splits_def
    by (auto intro!: rel_bind_same rel_bind [OF load_days_same [OF same]] traverse split: prod.splits)
qed

definition demo_config :: tree where
  "demo_config = TMap
     [(''dataset'', TMap [(''cic2017_flow_dir'', TStr ''/raw''), (''days'', TMap [(''mon'', TMap [(''file'', TStr ''mon.csv'')])])]),
      (''windowing'', TMap [(''window_seconds'', TInt 60), (''context_length'', TInt 1), (''horizon_length'', TInt 1)]),
      (''artifacts'', TMap [(''processed_dir'', TStr ''/p'')]),
      (''splits'', TMap [(''train_days'', TList []), (''test_days'', TList [TStr ''mon'']), (''holdout_days'', TList []),
         (''val_fraction_of_train_time'', TFloat (Fin (1 / 4)))])]"

definition demo_pipe_env :: "rat pipe_env" where
  "demo_pipe_env = \<lparr>pe_conv = std_conv, pe_exists = (\<lambda>p. False), pe_expanduser = id, pe_root = [''/'', ''ml''], pe_day = demo_day_env\<rparr>"

definition demo_disk :: "int \<Rightarrow> disk" where
  "demo_disk label = [([''/'', ''p'', ''mon__w60__flowonly__capNone__utc12h__fuse2.parquet''],
     map (\<lambda>(t, s). \<lparr>lr_host = ''a'', lr_ts = t, lr_feat = [], lr_stage = s, lr_risk = label\<rparr>) [(0, ''benign''), (60, ''benign''), (120, ''c2'')])]"

lemma stale_labels_never_reach_a_split_witness:
  "case build_all_splits demo_pipe_env demo_config (demo_disk 7) of Inl e \<Rightarrow> False | Inr (splits, d) \<Rightarrow> map lr_risk (sp_test splits) = [0, 1, 0]"
proof -
  have fresh: "case build_all_splits demo_pipe_env demo_config (demo_disk 0) of Inl e \<Rightarrow> False | Inr (splits, d) \<Rightarrow> map lr_risk (sp_test splits) = [0, 1, 0]"
    by code_simp
  have "rel_sum (=) (\<lambda>(splits, d) (splits', d'). splits = splits') (build_all_splits demo_pipe_env demo_config (demo_disk 0))
      (build_all_splits demo_pipe_env demo_config (demo_disk 7))"
    by (rule stale_labels_never_reach_a_split) (simp add: demo_disk_def)
  then show ?thesis using fresh by (auto elim!: rel_sum.cases split: sum.splits)
qed

section \<open>A cache key tells the truth\<close>

text \<open>
  What a new table on disk is: computed for one of the days, with the packets its path names. The path of a table
  computed without packets is not the one the configuration declares for the day.
\<close>

definition written_for :: "'a pipe_env \<Rightarrow> day_params \<Rightarrow> string \<times> tree \<Rightarrow> path \<Rightarrow> day_table \<Rightarrow> bool" where
  "written_for E P day p t \<longleftrightarrow> (\<exists>fmt packets dir leaf. let (k, m) = day in
     day_format (pe_conv E) m = Inr fmt \<and> resolve_packets_path E (dp_dataset P) m = Inr packets \<and>
     cache_for (pe_conv E) P k fmt (case packets of Some q \<Rightarrow> path_name q | None \<Rightarrow> FLOW_ONLY_TAG) = Inr (Some p) \<and>
     dict_index (dp_dirs P) fmt = Inr dir \<and> bind_res (t_item m ''file'') t_path = Inr leaf \<and> pe_exists E (path_div dir leaf) \<and>
     compute_day (pe_day E) (path_div dir leaf) (dp_window_seconds P) 1 packets (row_cap_of (dp_row_cap P)) (dp_horizon P) fmt None
       (if dp_cidrs P = [] then None else Some (dp_cidrs P)) = Inr t \<and>
     (packets = None \<longrightarrow> (\<forall>tag. declared_packets_tag m = Inr tag \<longrightarrow> tag \<noteq> FLOW_ONLY_TAG \<longrightarrow> cache_for (pe_conv E) P k fmt tag \<noteq> Inr (Some p))))"

lemma cache_for_inj: "cache_for C P k fmt tag = Inr (Some p) \<Longrightarrow> cache_for C P k fmt tag' = Inr (Some p) \<Longrightarrow> tag = tag'"
  by (auto simp: cache_for_def day_cache_path_def bind_res_eq_Inr split: option.splits if_splits)

lemma load_disk:
  "load_and_label_day D disk csv W mw packets cap (Some q) K fmt dl cidrs = Inr (t, disk') \<Longrightarrow>
     (disk' = disk \<and> map_of disk q = Some t) \<or>
     (map_of disk q = None \<and> disk' = dict_set q t disk \<and> compute_day D csv W mw packets cap K fmt dl cidrs = Inr t)"
  by (auto simp: load_and_label_day_def bind_res_eq_Inr split: option.splits)

lemma process_day_disk:
  assumes "process_day E P disk k m = Inr (table, disk')"
  shows "map_of disk' p = map_of disk p \<or> (map_of disk p = None \<and> (\<exists>t. map_of disk' p = Some t \<and> written_for E P (k, m) p t))"
proof -
  obtain fmt dir leaf dc where head: "day_format (pe_conv E) m = Inr fmt" "dict_index (dp_dirs P) fmt = Inr dir" "bind_res (t_item m ''file'') t_path = Inr leaf"
    and rest: "(if (case dc of None \<Rightarrow> False | Some p \<Rightarrow> map_of disk p \<noteq> None) then
       bind_res (load_and_label_day (pe_day E) disk (path_div dir leaf) (dp_window_seconds P) 1 None None dc (dp_horizon P) fmt None
         (Some [''147.32.0.0/16''])) (\<lambda>(table, disk'). Inr (Some table, disk'))
     else if \<not> pe_exists E (path_div dir leaf) then Inr (None, disk)
     else recompute_day E P disk k m fmt (path_div dir leaf)) = Inr (table, disk')"
    using assms unfolding process_day_def Let_def bind_res_eq_Inr by blast
  consider (hit) q t where "dc = Some q" "map_of disk q = Some t" | (skip) "disk' = disk"
    | (redo) "pe_exists E (path_div dir leaf)" "recompute_day E P disk k m fmt (path_div dir leaf) = Inr (table, disk')"
    using rest by (cases dc) (auto split: if_splits)
  then show ?thesis
  proof cases
    case hit
    then show ?thesis using rest by (auto simp: load_and_label_day_def)
  next
    case redo
    then obtain packets cp t where r: "resolve_packets_path E (dp_dataset P) m = Inr packets"
      "cache_for (pe_conv E) P k fmt (case packets of Some q \<Rightarrow> path_name q | None \<Rightarrow> FLOW_ONLY_TAG) = Inr cp"
      "load_and_label_day (pe_day E) disk (path_div dir leaf) (dp_window_seconds P) 1 packets (row_cap_of (dp_row_cap P)) cp (dp_horizon P) fmt None
        (if dp_cidrs P = [] then None else Some (dp_cidrs P)) = Inr (t, disk')"
      by (auto simp: recompute_day_def bind_res_eq_Inr Let_def)
    show ?thesis
    proof (cases cp)
      case None
      then show ?thesis using r(3) by (auto simp: load_and_label_day_def bind_res_eq_Inr)
    next
      case (Some q)
      from load_disk [OF r(3) [unfolded Some]] show ?thesis
      proof
        assume new: "map_of disk q = None \<and> disk' = dict_set q t disk \<and> compute_day (pe_day E) (path_div dir leaf) (dp_window_seconds P) 1 packets
          (row_cap_of (dp_row_cap P)) (dp_horizon P) fmt None (if dp_cidrs P = [] then None else Some (dp_cidrs P)) = Inr t"
        then have "written_for E P (k, m) q t"
          unfolding written_for_def Let_def using head r redo(1) Some cache_for_inj [of "pe_conv E" P k fmt _ q]
          by (intro exI [of _ fmt] exI [of _ packets] exI [of _ dir] exI [of _ leaf]) (auto dest: cache_for_inj)
        then show ?thesis using new by (auto simp: map_of_dict_set)
      qed simp
    qed
  qed simp
qed

text \<open>
  C31. The processed directory tells the truth. Running the days over any processed tables never changes a table that
  is there, and every new one was computed from the flow file of one of the days with exactly the packets its path is
  tagged with: a table computed without the declared packets is not stored where the table with packets is looked up.
\<close>
theorem cache_keys_tell_the_truth:
  assumes "load_days E P disk days = Inr (tables, disk')"
  shows "(map_of disk p \<noteq> None \<longrightarrow> map_of disk' p = map_of disk p) \<and>
    (map_of disk p = None \<longrightarrow> map_of disk' p = Some t \<longrightarrow> list_ex (\<lambda>day. written_for E P day p t) days)"
  using assms
proof (induction days arbitrary: disk tables)
  case (Cons x days)
  obtain k m where x: "x = (k, m)" by force
  from Cons.prems obtain table d ts where step: "process_day E P disk k m = Inr (table, d)" "load_days E P d days = Inr (ts, disk')"
    by (auto simp: x bind_res_eq_Inr)
  show ?case using process_day_disk [OF step(1), of p] Cons.IH [OF step(2)] by (auto simp: x)
qed simp

definition demo_params :: day_params where
  "demo_params = \<lparr>dp_dataset = TMap [], dp_windowing = TMap [(''window_seconds'', TInt 60)], dp_window_seconds = 60, dp_horizon = 1,
     dp_dirs = [(''cicflowmeter'', [''/'', ''raw''])], dp_cidrs = [], dp_row_cap = TNull, dp_processed = Some [''/'', ''p'']\<rparr>"

lemma cache_keys_tell_the_truth_witness:
  "\<exists>tables disk' t. load_days (demo_pipe_env\<lparr>pe_exists := \<lambda>p. True\<rparr>) demo_params [] [(''mon'', TMap [(''file'', TStr ''mon.csv'')])] = Inr (tables, disk') \<and>
     map_of disk' [''/'', ''p'', ''mon__w60__flowonly__capNone__utc12h__fuse2.parquet''] = Some t \<and>
     written_for (demo_pipe_env\<lparr>pe_exists := \<lambda>p. True\<rparr>) demo_params (''mon'', TMap [(''file'', TStr ''mon.csv'')])
       [''/'', ''p'', ''mon__w60__flowonly__capNone__utc12h__fuse2.parquet''] t"
proof -
  let ?E = "demo_pipe_env\<lparr>pe_exists := \<lambda>p. True\<rparr>" and ?days = "[(''mon'', TMap [(''file'', TStr ''mon.csv'')])]"
  let ?p = "[''/'', ''p'', ''mon__w60__flowonly__capNone__utc12h__fuse2.parquet'']"
  obtain rows where rows: "compute_day demo_day_env [''/'', ''raw'', ''mon.csv''] 60 1 None None 1 ''cicflowmeter'' None None = Inr rows"
    using demo_day_computes by blast
  have meta: "day_format std_conv (TMap [(''file'', TStr ''mon.csv'')]) = Inr ''cicflowmeter''" "bind_res (t_item (TMap [(''file'', TStr ''mon.csv'')]) ''file'') t_path = Inr [''mon.csv'']"
    "declared_packets_tag (TMap [(''file'', TStr ''mon.csv'')]) = Inr FLOW_ONLY_TAG" by code_simp+
  have cache: "cache_for std_conv demo_params ''mon'' ''cicflowmeter'' FLOW_ONLY_TAG = Inr (Some ?p)" by code_simp
  have none: "resolve_packets_path ?E (dp_dataset demo_params) (TMap [(''file'', TStr ''mon.csv'')]) = Inr None"
    by (simp add: resolve_packets_path_def dict_get_def)
  have sel: "pe_conv ?E = std_conv" "pe_day ?E = demo_day_env" "pe_exists ?E q" "mk_path ''mon.csv'' = [''mon.csv'']" for q
    by (simp_all add: demo_pipe_env_def) code_simp
  have run: "load_days ?E demo_params [] ?days = Inr ([(''mon'', rows)], [(?p, rows)])"
    using rows by (simp add: process_day_def recompute_day_def none meta cache sel demo_params_def [THEN arg_cong, of dp_dirs]
        demo_params_def [THEN arg_cong, of dp_window_seconds] demo_params_def [THEN arg_cong, of dp_horizon] demo_params_def [THEN arg_cong, of dp_row_cap]
        demo_params_def [THEN arg_cong, of dp_cidrs] dict_index_def path_div_def load_and_label_day_def dict_set_def)
  then show ?thesis using cache_keys_tell_the_truth [OF run, of ?p rows] by simp
qed

end
