(* ===== verification/Serve.thy ===== *)
theory Serve
  imports Normalize AttackMapping Pipeline Leads
begin

text \<open>
  \<open>ml/nidra/serve/predictor.py\<close>, with the parts of \<open>explain/shap_runner.py\<close>, \<open>explain/saliency.py\<close> and
  \<open>explain/counterfactual.py\<close> that are not torch. What the networks and their explainers compute is the record
  \<open>networks\<close>: sampled risks, mean states and stages of a rollout, the members' view of the observed window, SHAP values
  and gradients, each a function of the scaled context. Numbers are exact rationals, single precision is not rounded; the
  numbers a predictor keeps from its configuration are checked when it is built, where Python fails at their first use.
  The printed pooling key and the dates of an operating point are left out; there is at least one horizon.
\<close>

section \<open>Networks\<close>

text \<open>
  One rollout. \<open>ro_heads\<close> holds for every horizon the heads' risks of the pooled trajectories; states and stages are
  means over the trajectories.
\<close>

record rollout =
  ro_heads :: "rat list list list"
  ro_states_mean :: "rat list list"
  ro_stage_mean :: "rat list list"
  ro_n_trajectories :: nat

record networks =
  nn_rollout :: "rat list list \<Rightarrow> rollout"
  nn_observed :: "rat list list \<Rightarrow> rat list \<times> rat list list"
  nn_risk_shap :: "rat list list \<Rightarrow> rat list"
  nn_predicted_state :: "rat list list \<Rightarrow> nat \<Rightarrow> rat list"
  nn_stage :: "rat list \<Rightarrow> rat list"
  nn_stage_shap :: "rat list \<Rightarrow> nat \<Rightarrow> rat list"
  nn_gradient :: "rat list list \<Rightarrow> string \<Rightarrow> nat \<Rightarrow> rat list list"
  nn_clamped :: "rat list list \<Rightarrow> (string \<times> rat) option \<Rightarrow> rat list list"

definition MODEL_VERSION :: string where "MODEL_VERSION = ''nidra-v0.1.0''"
definition COUNTERFACTUAL_LABEL :: string where "COUNTERFACTUAL_LABEL = ''model-internal what-if''"
definition EXPLAIN_METHOD :: string where "EXPLAIN_METHOD = ''kernel-shap + input-gradient temporal saliency''"

section \<open>Construction\<close>

record operating_point =
  op_selected_on :: "string option"
  op_method :: string
  op_quantile :: "rat option"
  op_horizon_reduction :: "string option"
  op_threshold :: rat
  op_mandated :: "rat option"
  op_params_by_k :: "platt list"

record predictor =
  pr_members :: nat
  pr_scaler :: scaler
  pr_K :: nat
  pr_L :: nat
  pr_window_seconds :: int
  pr_threshold :: rat
  pr_method :: string
  pr_quantile :: "rat option"
  pr_heads :: string
  pr_horizon_reduction :: string
  pr_ci_low :: rat
  pr_ci_high :: rat
  pr_calibration :: "platt list option"
  pr_operating_point :: "operating_point option"

definition t_nat :: "pyconv \<Rightarrow> tree \<Rightarrow> nat res" where
  "t_nat C t = bind_res (t_int C t) (\<lambda>i. Inr (nat i))"

text \<open>The predictor a configuration alone describes; \<open>rollout\<close> and \<open>windowing\<close> are sections of it.\<close>

definition configured :: "pyconv \<Rightarrow> tree \<Rightarrow> scaler \<Rightarrow> nat \<Rightarrow> predictor res" where
  "configured C cfg scaler members =
     bind_res (t_item cfg ''rollout'') (\<lambda>rollout. bind_res (t_item cfg ''windowing'') (\<lambda>windowing.
     bind_res (bind_res (t_item windowing ''horizon_length'') (t_nat C)) (\<lambda>K.
     bind_res (bind_res (t_item windowing ''context_length'') (t_nat C)) (\<lambda>L.
     bind_res (bind_res (t_item windowing ''window_seconds'') (t_int C)) (\<lambda>W.
     bind_res (bind_res (bind_res (t_item cfg ''eval'') (\<lambda>e. t_item e ''risk_threshold'')) t_rat) (\<lambda>threshold.
     bind_res (t_get rollout ''risk_pooling_method'' (TStr ''mean'')) (\<lambda>m.
     bind_res (bind_res (t_get rollout ''risk_pooling_quantile'' (TFloat (Fin (9 / 10)))) t_rat) (\<lambda>q.
     bind_res (t_get rollout ''risk_pooling_head_reduction'' (TStr ''before_pooling'')) (\<lambda>heads.
     bind_res (bind_res (t_item rollout ''ci_low_quantile'') t_rat) (\<lambda>lo. bind_res (bind_res (t_item rollout ''ci_high_quantile'') t_rat) (\<lambda>hi. Inr
       \<lparr>pr_members = members, pr_scaler = scaler, pr_K = K, pr_L = L, pr_window_seconds = W, pr_threshold = threshold, pr_method = t_str C m,
        pr_quantile = Some q, pr_heads = t_str C heads, pr_horizon_reduction = ''max'', pr_ci_low = lo, pr_ci_high = hi,
        pr_calibration = None, pr_operating_point = None\<rparr>)))))))))))"

definition adopt :: "operating_point \<Rightarrow> predictor \<Rightarrow> predictor res" where
  "adopt op P =
     (if op_selected_on op \<noteq> Some ''val'' then Inl RuntimeError
      else Inr (P\<lparr>pr_operating_point := Some op, pr_method := op_method op, pr_quantile := op_quantile op,
        pr_horizon_reduction := (case op_horizon_reduction op of None \<Rightarrow> ''max'' | Some r \<Rightarrow> r), pr_heads := ''before_pooling'',
        pr_threshold := op_threshold op, pr_calibration := Some (op_params_by_k op)\<rparr>))"

text \<open>A legacy calibration file: its parameters and metadata; \<open>None\<close> when there is none.\<close>

definition legacy_calibration :: "pyconv \<Rightarrow> tree \<Rightarrow> (platt list \<times> tree) option \<Rightarrow> platt list option res" where
  "legacy_calibration C cfg calibration_file = (case calibration_file of None \<Rightarrow> Inr None
     | Some (params, metadata) \<Rightarrow> bind_res (calibration_pooling_mismatch C (if Config.truthy metadata then metadata else TMap []) cfg) (\<lambda>mismatch.
         Inr (if mismatch = None then Some params else None)))"

definition seeds_of :: "pyconv \<Rightarrow> tree \<Rightarrow> int list option \<Rightarrow> int list res" where
  "seeds_of C cfg seeds = (case seeds of Some s \<Rightarrow> Inr s
     | None \<Rightarrow> bind_res (bind_res (t_item cfg ''ensemble'') (\<lambda>e. t_item e ''seeds'')) (\<lambda>s. bind_res (t_iter s) (traverse_res (t_int C))))"

definition new_predictor ::
    "pyconv \<Rightarrow> tree \<Rightarrow> scaler_params \<times> scaler_meta \<Rightarrow> (int \<Rightarrow> bool) \<Rightarrow> int list option \<Rightarrow> operating_point option \<Rightarrow> bool \<Rightarrow> (platt list \<times> tree) option \<Rightarrow> predictor res" where
  "new_predictor C cfg scaler_files has_weights seeds op apply_calibration calibration_file =
     bind_res (load_scaler (fst scaler_files) (snd scaler_files)) (\<lambda>scaler.
     bind_res (seeds_of C cfg seeds) (\<lambda>seeds.
       let members = length (filter has_weights seeds) in
       if members = 0 then Inl RuntimeError
       else bind_res (configured C cfg scaler members) (\<lambda>P. case op of Some op \<Rightarrow> adopt op P
         | None \<Rightarrow> if apply_calibration then bind_res (legacy_calibration C cfg calibration_file) (\<lambda>c. Inr (P\<lparr>pr_calibration := c\<rparr>)) else Inr P)))"

section \<open>A forecast\<close>

definition finite_value :: "flt \<Rightarrow> rat" where
  "finite_value x = (case x of Fin r \<Rightarrow> r | _ \<Rightarrow> 0)"

definition validate_and_scale :: "npmath \<Rightarrow> predictor \<Rightarrow> flt list list \<Rightarrow> rat list list res" where
  "validate_and_scale N P states =
     (if states = [] \<or> \<not> list_all (\<lambda>row. length row = length (hd states)) states then Inl ValueError
      else bind_res (validate_state_array_width (length (hd states))) (\<lambda>_.
        if length states \<noteq> pr_L P then Inl ValueError
        else if \<not> list_all (list_all isfinite) states then Inl ValueError
        else transform N (pr_scaler P) (map (map finite_value) states)))"

definition calibrated :: "pymath \<Rightarrow> predictor \<Rightarrow> rat list \<Rightarrow> rat list res" where
  "calibrated M P ps = (case pr_calibration P of None \<Rightarrow> Inr ps | Some params \<Rightarrow> apply_platt_by_horizon M params ps)"

record scores =
  ss_mean :: "rat list"
  ss_raw :: "rat list"
  ss_low :: "rat list"
  ss_high :: "rat list"

text \<open>The pooled risk of one horizon.\<close>

definition pooled_risk :: "predictor \<Rightarrow> rat list list \<Rightarrow> rat res" where
  "pooled_risk P heads = (case pr_operating_point P of
       Some op \<Rightarrow> pool_trajectories_np (pr_method P) (pr_quantile P) (head_mean heads)
     | None \<Rightarrow> pool_ensemble_risk (pr_method P) (case pr_quantile P of Some q \<Rightarrow> q | None \<Rightarrow> 9 / 10) (pr_heads P) heads)"

definition ensemble_rollout :: "pymath \<Rightarrow> predictor \<Rightarrow> rollout \<Rightarrow> scores res" where
  "ensemble_rollout M P R =
     bind_res (traverse_res (pooled_risk P) (ro_heads R)) (\<lambda>risk_mean_k.
     let low = map (\<lambda>h. quantile (pr_ci_low P) (head_mean h)) (ro_heads R); high = map (\<lambda>h. quantile (pr_ci_high P) (head_mean h)) (ro_heads R) in
     bind_res (calibrated M P risk_mean_k) (\<lambda>mean. bind_res (calibrated M P low) (\<lambda>lo. bind_res (calibrated M P high) (\<lambda>hi. Inr
       \<lparr>ss_mean = mean, ss_raw = risk_mean_k, ss_low = lo, ss_high = hi\<rparr>))))"

text \<open>\<open>argmax\<close>: the first of the largest.\<close>

fun argmax_scan :: "nat \<Rightarrow> rat \<Rightarrow> nat \<Rightarrow> rat list \<Rightarrow> nat" where
  "argmax_scan best v i [] = best"
| "argmax_scan best v i (x # xs) = (if v < x then argmax_scan i x (i + 1) xs else argmax_scan best v (i + 1) xs)"

definition np_argmax :: "rat list \<Rightarrow> nat" where
  "np_argmax xs = (case xs of [] \<Rightarrow> 0 | x # xs \<Rightarrow> argmax_scan 0 x 1 xs)"

fun shift_ts :: "datetime \<Rightarrow> int \<Rightarrow> datetime" where
  "shift_ts (Naive us) s = Naive (us + s * 1000000)"
| "shift_ts (Aware us) s = Aware (us + s * 1000000)"

definition stage_dist_of :: "rollout \<Rightarrow> nat \<Rightarrow> (string, rat) dict" where
  "stage_dist_of R k = zip STAGES (ro_stage_mean R ! k)"

definition horizon_of :: "npmath \<Rightarrow> predictor \<Rightarrow> rollout \<Rightarrow> scores \<Rightarrow> datetime \<Rightarrow> nat \<Rightarrow> (horizon_point \<times> stage_candidate list) res" where
  "horizon_of N P R S origin_ts k =
     bind_res (inverse_transform N (pr_scaler P) (ro_states_mean R ! k)) (\<lambda>raw.
     bind_res (map_stage_distribution (stage_dist_of R k) (1 / 20)) (\<lambda>mapping. Inr
       (\<lparr>hp_k = int k + 1, hp_ts = shift_ts origin_ts (pr_window_seconds P * (int k + 1)), hp_p = Fin (ss_mean S ! k),
         hp_lo = Fin (ss_low S ! k), hp_hi = Fin (ss_high S ! k), hp_stages = map (\<lambda>(s, p). (s, Fin p)) (stage_dist_of R k),
         hp_features = zip FEATURE_ORDER (map Fin raw)\<rparr>, mapping)))"

fun lead_from_curve :: "flt \<Rightarrow> nat \<Rightarrow> int \<Rightarrow> nat \<Rightarrow> nat \<Rightarrow> flt list \<Rightarrow> int option" where
  "lead_from_curve threshold m W i run [] = None"
| "lead_from_curve threshold m W i run (p # ps) =
     (let run = (if threshold \<le> p then run + 1 else 0)
      in if m \<le> run then Some (W * (int i - int m + 2)) else lead_from_curve threshold m W (i + 1) run ps)"

definition lead_time_from_curve :: "horizon_point list \<Rightarrow> int \<Rightarrow> rat \<Rightarrow> nat \<Rightarrow> int option" where
  "lead_time_from_curve horizons window_seconds threshold m = lead_from_curve (Fin threshold) m window_seconds 0 0 (map hp_p horizons)"

record risk_curve_out =
  rc_horizon_seconds :: "int list"
  rc_p :: "rat list"
  rc_raw :: "rat list"
  rc_low :: "rat list"
  rc_high :: "rat list"
  rc_within :: rat
  rc_threshold :: rat
  rc_above :: bool
  rc_calibrated :: bool

definition clip01 :: "rat \<Rightarrow> rat" where
  "clip01 x = min 1 (max 0 x)"

definition within_horizon :: "predictor \<Rightarrow> rat list \<Rightarrow> rat" where
  "within_horizon P p_k = (if pr_horizon_reduction P = ''max'' then Max (set p_k) else 1 - prod_list (map (\<lambda>p. 1 - p) p_k))"

definition risk_curve :: "predictor \<Rightarrow> scores \<Rightarrow> int \<Rightarrow> risk_curve_out" where
  "risk_curve P S window_seconds =
     (let p_k = map clip01 (ss_mean S); c = within_horizon P p_k in
      \<lparr>rc_horizon_seconds = map (\<lambda>k. window_seconds * (int k + 1)) [0..<pr_K P], rc_p = p_k, rc_raw = ss_raw S, rc_low = ss_low S, rc_high = ss_high S,
       rc_within = c, rc_threshold = pr_threshold P, rc_above = (pr_threshold P \<le> c), rc_calibrated = (pr_calibration P \<noteq> None)\<rparr>)"

record op_summary =
  os_source :: string
  os_threshold :: rat
  os_mandated :: "rat option"
  os_calibrated :: bool

definition operating_point_summary :: "predictor \<Rightarrow> op_summary" where
  "operating_point_summary P = (case pr_operating_point P of
       None \<Rightarrow> \<lparr>os_source = ''config'', os_threshold = pr_threshold P, os_mandated = None, os_calibrated = (pr_calibration P \<noteq> None)\<rparr>
     | Some op \<Rightarrow> \<lparr>os_source = ''operating_point.json (selected on val)'', os_threshold = pr_threshold P,
         os_mandated = Some (case op_mandated op of None \<Rightarrow> 75 / 100 | Some x \<Rightarrow> x), os_calibrated = True\<rparr>)"

section \<open>Many contexts at once\<close>

record batch_row =
  br_p :: "rat list"
  br_raw :: "rat list"
  br_low :: "rat list"
  br_high :: "rat list"
  br_within :: rat
  br_above :: bool

definition batch_row_of :: "predictor \<Rightarrow> scores \<Rightarrow> batch_row" where
  "batch_row_of P S = (let p_k = map clip01 (ss_mean S); c = within_horizon P p_k in
     \<lparr>br_p = p_k, br_raw = ss_raw S, br_low = ss_low S, br_high = ss_high S, br_within = c, br_above = (pr_threshold P \<le> c)\<rparr>)"

text \<open>\<open>reshape(-1, L, F)\<close> of the rows of some contexts.\<close>

function reshape :: "nat \<Rightarrow> 'a list \<Rightarrow> 'a list list" where
  "reshape n xs = (if xs = [] \<or> n = 0 then [] else take n xs # reshape n (drop n xs))"
  by pat_completeness auto
termination by (relation "measure (\<lambda>(n, xs). length xs)") auto

declare reshape.simps [simp del]

definition batch_chunk :: "pymath \<Rightarrow> npmath \<Rightarrow> networks \<Rightarrow> predictor \<Rightarrow> rat list list list \<Rightarrow> batch_row list res" where
  "batch_chunk M N NN P xs =
     bind_res (transform N (pr_scaler P) (concat xs)) (\<lambda>rows.
     bind_res (traverse_res (\<lambda>scaled. ensemble_rollout M P (nn_rollout NN scaled)) (reshape (pr_L P) rows)) (\<lambda>Ss. Inr (map (batch_row_of P) Ss)))"

function batch_loop :: "pymath \<Rightarrow> npmath \<Rightarrow> networks \<Rightarrow> predictor \<Rightarrow> nat \<Rightarrow> rat list list list \<Rightarrow> batch_row list res" where
  "batch_loop M N NN P chunk xs =
     (if xs = [] \<or> chunk = 0 then Inr []
      else bind_res (batch_chunk M N NN P (take chunk xs)) (\<lambda>out. bind_res (batch_loop M N NN P chunk (drop chunk xs)) (\<lambda>rest. Inr (out @ rest))))"
  by pat_completeness auto
termination by (relation "measure (\<lambda>(M, N, NN, P, chunk, xs). length xs)") auto

declare batch_loop.simps [simp del]

definition forecast_batch :: "pymath \<Rightarrow> npmath \<Rightarrow> networks \<Rightarrow> predictor \<Rightarrow> flt list list list \<Rightarrow> nat \<Rightarrow> batch_row list res" where
  "forecast_batch M N NN P states_batch chunk =
     (if states_batch = [] \<or> \<not> list_all (\<lambda>s. length s = pr_L P) states_batch \<or> pr_L P = 0 \<or>
         \<not> list_all (list_all (\<lambda>row. length row = length (hd (hd states_batch)))) states_batch then Inl ValueError
      else bind_res (validate_state_array_width (length (hd (hd states_batch)))) (\<lambda>_.
        if \<not> list_all (list_all (list_all isfinite)) states_batch then Inl ValueError
        else if chunk = 0 then Inl ValueError
        else batch_loop M N NN P chunk (map (map (map finite_value)) states_batch)))"

section \<open>Attributions\<close>

record attribution =
  at_feature :: string
  at_shap :: rat
  at_direction :: string
  at_value :: rat

definition format_attributions :: "rat list \<Rightarrow> rat list \<Rightarrow> string list \<Rightarrow> attribution list" where
  "format_attributions shap_values state feature_names =
     sort_key (\<lambda>a. - \<bar>at_shap a\<bar>) (map (\<lambda>(name, val, feat_val).
       \<lparr>at_feature = name, at_shap = val, at_direction = (if 0 < val then ''up'' else ''down''), at_value = feat_val\<rparr>) (zip feature_names (zip shap_values state)))"

definition top_signals :: "attribution list \<Rightarrow> nat \<Rightarrow> attribution list" where
  "top_signals attributions n = take n attributions"

definition human_readable_signal :: "attribution \<Rightarrow> string" where
  "human_readable_signal a = at_feature a @ '' '' @ (if at_direction a = ''up'' then ''rising'' else ''falling'')"

definition signals :: "attribution list \<Rightarrow> nat \<Rightarrow> signal_attribution list" where
  "signals attributions n = map (\<lambda>a. \<lparr>sg_name = at_feature a, sg_shap = Fin (at_shap a), sg_direction = at_direction a,
     sg_display = human_readable_signal a\<rparr>) (top_signals attributions n)"

definition explain_current_risk :: "networks \<Rightarrow> rat list list \<Rightarrow> attribution list" where
  "explain_current_risk NN scaled = format_attributions (nn_risk_shap NN scaled) (last scaled) FEATURE_ORDER"

record saliency =
  sa_window_importance :: "rat list"
  sa_driving_window :: nat
  sa_offset :: int

definition temporal_saliency :: "networks \<Rightarrow> rat list list \<Rightarrow> string \<Rightarrow> nat \<Rightarrow> saliency" where
  "temporal_saliency NN x target_feature horizon_k =
     (let window_importance = map (\<lambda>row. sum_list (map abs row)) (nn_gradient NN x target_feature horizon_k); driving = np_argmax window_importance
      in \<lparr>sa_window_importance = window_importance, sa_driving_window = driving, sa_offset = int driving - (int (length window_importance) - 1)\<rparr>)"

definition as_distribution :: "rat list \<Rightarrow> rat list" where
  "as_distribution weights = (let total = sum_list weights in if weights = [] \<or> total \<le> 0 then weights else map (\<lambda>v. v / total) weights)"

record forecast_out =
  fo_host :: string
  fo_origin :: datetime
  fo_horizons :: "(horizon_point \<times> stage_candidate list) list"
  fo_lead :: "int option"
  fo_observed_stage :: string
  fo_observed_risk :: rat
  fo_risk_curve :: risk_curve_out
  fo_progression :: "progression_step list \<times> first_seen list"
  fo_operating_point :: op_summary
  fo_top_signals :: "signal_attribution list"
  fo_driving_window :: nat
  fo_n_trajectories :: nat

text \<open>The soft vote of the members on the observed window.\<close>

definition observed_view :: "rat list \<times> rat list list \<Rightarrow> rat \<times> string" where
  "observed_view = (\<lambda>(member_risk, member_stage).
     (avg member_risk, STAGES ! np_argmax (map (\<lambda>i. avg (map (\<lambda>st. st ! i) member_stage)) [0..<length STAGES])))"

definition predictor_forecast :: "pymath \<Rightarrow> npmath \<Rightarrow> networks \<Rightarrow> predictor \<Rightarrow> flt list list \<Rightarrow> string \<Rightarrow> datetime \<Rightarrow> forecast_out res" where
  "predictor_forecast M N NN P states host_id origin_ts =
     bind_res (validate_and_scale N P states) (\<lambda>scaled.
     let R = nn_rollout NN scaled in
     bind_res (ensemble_rollout M P R) (\<lambda>S.
     let (observed_risk, observed_stage) = observed_view (nn_observed NN scaled) in
     bind_res (traverse_res (horizon_of N P R S origin_ts) [0..<pr_K P]) (\<lambda>horizons.
     bind_res (progression_summary (map (stage_dist_of R) [0..<pr_K P]) (pr_window_seconds P)) (\<lambda>progression. Inr
       \<lparr>fo_host = host_id, fo_origin = origin_ts, fo_horizons = horizons,
        fo_lead = lead_time_from_curve (map fst horizons) (pr_window_seconds P) (pr_threshold P) 2,
        fo_observed_stage = observed_stage, fo_observed_risk = observed_risk, fo_risk_curve = risk_curve P S (pr_window_seconds P),
        fo_progression = progression, fo_operating_point = operating_point_summary P,
        fo_top_signals = signals (explain_current_risk NN scaled) 5,
        fo_driving_window = sa_driving_window (temporal_saliency NN scaled (hd FEATURE_ORDER) 0), fo_n_trajectories = ro_n_trajectories R\<rparr>))))"

section \<open>What-if and explanation\<close>

record curve_pt =
  cp_k :: nat
  cp_p :: rat
  cp_low :: rat
  cp_high :: rat

text \<open>\<open>_curve_points\<close> for the sampled risks of every horizon, with the reductions of \<open>counterfactual_rollout\<close>.\<close>

definition curve_points :: "rat list \<Rightarrow> rat list \<Rightarrow> rat list \<Rightarrow> curve_pt list" where
  "curve_points mean low high = map (\<lambda>k. let p = clip01 (mean ! k) in
     \<lparr>cp_k = k + 1, cp_p = p, cp_low = clip01 (min (low ! k) p), cp_high = clip01 (max (high ! k) p)\<rparr>) [0..<length mean]"

definition what_if_curve :: "rat list list \<Rightarrow> curve_pt list" where
  "what_if_curve samples = curve_points (map avg samples) (map (quantile (5 / 100)) samples) (map (quantile (95 / 100)) samples)"

definition scale_single_feature_value :: "npmath \<Rightarrow> predictor \<Rightarrow> string \<Rightarrow> rat \<Rightarrow> rat res" where
  "scale_single_feature_value N P feature_name raw_value =
     (let idx = first_index feature_name FEATURE_ORDER in
      bind_res (transform N (pr_scaler P) [(replicate (length FEATURE_ORDER) 0)[idx := raw_value]]) (\<lambda>rows. Inr (rows ! 0 ! idx)))"

record what_if =
  wi_label :: string
  wi_feature :: string
  wi_clamp :: rat
  wi_model :: string
  wi_original :: "curve_pt list"
  wi_counterfactual :: "curve_pt list"

definition predictor_counterfactual :: "npmath \<Rightarrow> networks \<Rightarrow> predictor \<Rightarrow> flt list list \<Rightarrow> string \<Rightarrow> rat \<Rightarrow> what_if res" where
  "predictor_counterfactual N NN P states feature_name clamp_value =
     bind_res (validate_and_scale N P states) (\<lambda>scaled.
       if feature_name \<notin> set FEATURE_ORDER then Inl ValueError
       else bind_res (scale_single_feature_value N P feature_name clamp_value) (\<lambda>v. Inr
         \<lparr>wi_label = COUNTERFACTUAL_LABEL, wi_feature = feature_name, wi_clamp = clamp_value, wi_model = MODEL_VERSION,
          wi_original = what_if_curve (nn_clamped NN scaled None), wi_counterfactual = what_if_curve (nn_clamped NN scaled (Some (feature_name, v)))\<rparr>))"

record explain_out =
  eo_signals :: "signal_attribution list"
  eo_window_importance :: "rat list"
  eo_driving_window :: nat
  eo_predicted_stage :: string
  eo_stage_attributions :: "attribution list"
  eo_saliency :: "(string, saliency) dict"
  eo_horizon_k :: int

definition predictor_explain :: "npmath \<Rightarrow> networks \<Rightarrow> predictor \<Rightarrow> flt list list \<Rightarrow> int \<Rightarrow> explain_out res" where
  "predictor_explain N NN P states horizon_k =
     (if \<not> (1 \<le> horizon_k \<and> horizon_k \<le> int (pr_K P)) then Inl ValueError
      else let step_index = nat (horizon_k - 1) in
        bind_res (validate_and_scale N P states) (\<lambda>scaled.
        let attributions = explain_current_risk NN scaled;
            predicted_state = nn_predicted_state NN scaled step_index;
            stage_idx = np_argmax (nn_stage NN predicted_state);
            saliency_results = map (\<lambda>a. (at_feature a, temporal_saliency NN scaled (at_feature a) step_index)) (take 3 attributions);
            leading = signals attributions 10;
            leading_saliency = (case leading of [] \<Rightarrow> None | a # _ \<Rightarrow> map_of saliency_results (sg_name a))
        in Inr \<lparr>eo_signals = leading,
             eo_window_importance = as_distribution (case leading_saliency of None \<Rightarrow> [] | Some sl \<Rightarrow> sa_window_importance sl),
             eo_driving_window = (case leading_saliency of None \<Rightarrow> 0 | Some sl \<Rightarrow> sa_driving_window sl),
             eo_predicted_stage = STAGES ! stage_idx,
             eo_stage_attributions = take 10 (format_attributions (nn_stage_shap NN predicted_state stage_idx) predicted_state FEATURE_ORDER),
             eo_saliency = saliency_results, eo_horizon_k = horizon_k\<rparr>))"

section \<open>Bands\<close>

definition rollout_ok :: "nat \<Rightarrow> rollout \<Rightarrow> bool" where
  "rollout_ok K R \<longleftrightarrow> length (ro_heads R) = K \<and>
     list_all (\<lambda>heads. heads \<noteq> [] \<and> hd heads \<noteq> [] \<and> list_all (\<lambda>h. length h = length (hd heads) \<and> list_all (\<lambda>p. 0 \<le> p \<and> p \<le> 1) h) heads) (ro_heads R)"

definition quantile_pooling :: "predictor \<Rightarrow> rat \<Rightarrow> bool" where
  "quantile_pooling P q \<longleftrightarrow> pr_method P = ''quantile'' \<and> pr_quantile P = Some q \<and> (pr_operating_point P = None \<longrightarrow> pr_heads P = ''before_pooling'') \<and>
     0 \<le> pr_ci_low P \<and> pr_ci_low P \<le> q \<and> q \<le> pr_ci_high P \<and> pr_ci_high P \<le> 1 \<and>
     (case pr_calibration P of None \<Rightarrow> True | Some params \<Rightarrow> list_all (\<lambda>ps. 0 < pl_a ps) params)"

lemma head_mean_in_range:
  assumes "heads \<noteq> []" "list_all (\<lambda>h. length h = length (hd heads) \<and> list_all (\<lambda>p. 0 \<le> p \<and> p \<le> 1) h) heads" "x \<in> set (head_mean heads)"
  shows "0 \<le> x \<and> x \<le> 1"
proof -
  obtain s where s: "s < length (hd heads)" "x = avg (map (\<lambda>h. h ! s) heads)" using assms(3) by (auto simp: head_mean_def)
  have "0 \<le> y \<and> y \<le> 1" if "y \<in> set (map (\<lambda>h. h ! s) heads)" for y
    using that assms(2) s(1) by (auto simp: list_all_iff)
  then show ?thesis unfolding s(2) using assms(1) by (intro avg_in_range) auto
qed

lemma pooled_quantile: "quantile_pooling P q \<Longrightarrow> pooled_risk P heads = Inr (quantile q (head_mean heads))"
  by (auto simp: quantile_pooling_def pooled_risk_def pool_trajectories_np_def pool_ensemble_risk_def pool_risk_over_samples_def VALID_HEAD_REDUCTIONS_def
      split: option.splits)

lemma calibrated_nth:
  assumes "calibrated M P ps = Inr cs"
  shows "length cs = length ps" "k < length ps \<Longrightarrow> cs ! k = (case pr_calibration P of None \<Rightarrow> ps ! k | Some params \<Rightarrow> apply_platt M (params ! k) (ps ! k))"
    "pr_calibration P = Some params \<Longrightarrow> length params = length ps"
  using assms by (auto simp: calibrated_def apply_platt_by_horizon_def split: option.splits if_splits)

lemma calibrated_keeps_order:
  assumes "pymath_laws M" "quantile_pooling P q" "calibrated M P ps = Inr cs" "calibrated M P ps' = Inr cs'" "length ps = length ps'" "k < length ps"
    "ps ! k \<le> ps' ! k"
  shows "cs ! k \<le> cs' ! k"
proof (cases "pr_calibration P")
  case None
  then show ?thesis using assms calibrated_nth(2) [OF assms(3), of k] calibrated_nth(2) [OF assms(4), of k] by simp
next
  case (Some params)
  then have "0 < pl_a (params ! k)" using assms(2,6) calibrated_nth(3) [OF assms(3) Some] by (simp add: quantile_pooling_def list_all_length)
  then show ?thesis
    using assms calibrated_nth(2) [OF assms(3), of k] calibrated_nth(2) [OF assms(4), of k] Some by (simp add: apply_platt_mono)
qed

lemma calibrated_in_range:
  assumes "pymath_laws M" "calibrated M P ps = Inr cs" "k < length ps" "0 \<le> ps ! k" "ps ! k \<le> 1"
  shows "0 \<le> cs ! k \<and> cs ! k \<le> 1"
  using calibrated_nth(2) [OF assms(2,3)] assms(4,5) sigmoid_range [OF assms(1)]
  by (auto simp: apply_platt_def less_imp_le split: option.splits)

lemma band_brackets:
  assumes "pymath_laws M" "quantile_pooling P q" "rollout_ok K R" "ensemble_rollout M P R = Inr S" "k < K"
  shows "0 \<le> ss_low S ! k \<and> ss_low S ! k \<le> ss_mean S ! k \<and> ss_mean S ! k \<le> ss_high S ! k \<and> ss_high S ! k \<le> 1"
proof -
  let ?q = "\<lambda>q. map (\<lambda>h. quantile q (head_mean h)) (ro_heads R)"
  have "traverse_res (pooled_risk P) (ro_heads R) = Inr (?q q)" by (rule traverse_res_all) (rule pooled_quantile [OF assms(2)])
  then obtain mean low high where cal: "calibrated M P (?q q) = Inr mean" "calibrated M P (?q (pr_ci_low P)) = Inr low"
      "calibrated M P (?q (pr_ci_high P)) = Inr high" and S: "ss_mean S = mean" "ss_low S = low" "ss_high S = high"
    using assms(4) by (auto simp: ensemble_rollout_def bind_res_eq_Inr Let_def)
  have K: "length (ro_heads R) = K" using assms(3) by (simp add: rollout_ok_def)
  have heads: "ro_heads R ! k \<noteq> []" "hd (ro_heads R ! k) \<noteq> []"
    "list_all (\<lambda>h. length h = length (hd (ro_heads R ! k)) \<and> list_all (\<lambda>p. 0 \<le> p \<and> p \<le> 1) h) (ro_heads R ! k)"
    using assms(3,5) by (auto simp: rollout_ok_def list_all_length)
  have ne: "head_mean (ro_heads R ! k) \<noteq> []" using heads(2) by (simp add: head_mean_def)
  have q: "0 \<le> pr_ci_low P" "pr_ci_low P \<le> q" "q \<le> pr_ci_high P" "pr_ci_high P \<le> 1" using assms(2) by (auto simp: quantile_pooling_def)
  have range: "0 \<le> quantile p (head_mean (ro_heads R ! k)) \<and> quantile p (head_mean (ro_heads R ! k)) \<le> 1" if "0 \<le> p" "p \<le> 1" for p
    using quantile_in_range [OF ne that, of 0 1] head_mean_in_range [OF heads(1,3)] by blast
  have "low ! k \<le> mean ! k"
    using calibrated_keeps_order [OF assms(1,2) cal(2,1), of k] quantile_mono [OF ne, of "pr_ci_low P" q] q K assms(5) by simp
  moreover have "mean ! k \<le> high ! k"
    using calibrated_keeps_order [OF assms(1,2) cal(1,3), of k] quantile_mono [OF ne, of q "pr_ci_high P"] q K assms(5) by simp
  moreover have "0 \<le> low ! k" using calibrated_in_range [OF assms(1) cal(2), of k] range [of "pr_ci_low P"] q K assms(5) by simp
  moreover have "high ! k \<le> 1" using calibrated_in_range [OF assms(1) cal(3), of k] range [of "pr_ci_high P"] q K assms(5) by simp
  ultimately show ?thesis by (simp add: S)
qed

lemma as_utc_shift: "as_utc (shift_ts d s) = as_utc d + s * 1000000"
  by (cases d) simp_all

lemma horizons_nth:
  assumes "traverse_res (horizon_of N P R S origin_ts) [0..<K] = Inr hs"
  shows "length hs = K" "k < K \<Longrightarrow> hp_k (fst (hs ! k)) = int k + 1 \<and> hp_ts (fst (hs ! k)) = shift_ts origin_ts (pr_window_seconds P * (int k + 1)) \<and>
    hp_p (fst (hs ! k)) = Fin (ss_mean S ! k) \<and> hp_lo (fst (hs ! k)) = Fin (ss_low S ! k) \<and> hp_hi (fst (hs ! k)) = Fin (ss_high S ! k) \<and>
    set (keys (hp_stages (fst (hs ! k)))) \<subseteq> set STAGES"
proof -
  have run: "list_all2 (\<lambda>k h. horizon_of N P R S origin_ts k = Inr h) [0..<K] hs" using assms by (simp add: traverse_res_Inr)
  then show "length hs = K" using list_all2_lengthD by fastforce
  assume "k < K"
  then have at_k: "horizon_of N P R S origin_ts k = Inr (hs ! k)" using list_all2_nthD [OF run, of k] by simp
  obtain point mapping where "hs ! k = (point, mapping)" by force
  with at_k show "hp_k (fst (hs ! k)) = int k + 1 \<and> hp_ts (fst (hs ! k)) = shift_ts origin_ts (pr_window_seconds P * (int k + 1)) \<and>
    hp_p (fst (hs ! k)) = Fin (ss_mean S ! k) \<and> hp_lo (fst (hs ! k)) = Fin (ss_low S ! k) \<and> hp_hi (fst (hs ! k)) = Fin (ss_high S ! k) \<and>
    set (keys (hp_stages (fst (hs ! k)))) \<subseteq> set STAGES"
    by (auto simp: horizon_of_def bind_res_eq_Inr stage_dist_of_def dest: set_zip_leftD)
qed

lemma sorted_horizons:
  assumes "0 < W" "length hs = K" "\<And>k. k < K \<Longrightarrow> as_utc (hp_ts (hs ! k)) = origin + W * (int k + 1) * 1000000"
  shows "sorted_wrt (<) (origin # map (as_utc \<circ> hp_ts) hs)"
proof -
  have "map (as_utc \<circ> hp_ts) hs = map (\<lambda>k. origin + W * (int k + 1) * 1000000) [0..<K]" using assms(2,3) by (auto intro: nth_equalityI)
  moreover have "sorted_wrt (<) (map (\<lambda>k. origin + W * (int k + 1) * 1000000) [0..<K])"
    using assms(1) by (simp add: sorted_wrt_iff_nth_less)
  ultimately show ?thesis using assms(1) by auto
qed


text \<open>Concrete networks: one head, one horizon, the given samples.\<close>

definition demo_networks :: "rat list \<Rightarrow> networks" where
  "demo_networks samples = \<lparr>nn_rollout = \<lambda>x. \<lparr>ro_heads = [[samples]], ro_states_mean = [replicate 45 0], ro_stage_mean = [[1, 0, 0, 0, 0, 0]],
       ro_n_trajectories = length samples\<rparr>,
     nn_observed = \<lambda>x. ([1 / 2], [[1, 0, 0, 0, 0, 0]]), nn_risk_shap = \<lambda>x. [], nn_predicted_state = \<lambda>x k. [], nn_stage = \<lambda>s. [], nn_stage_shap = \<lambda>s k. [],
     nn_gradient = \<lambda>x f k. [[1]], nn_clamped = \<lambda>x c. [samples]\<rparr>"

definition demo_scaler :: scaler where
  "demo_scaler = new_scaler\<lparr>fz_kinds := replicate 45 ''unit'', fz_center := replicate 45 0, fz_scale := replicate 45 1, fz_fitted := True\<rparr>"

definition demo_predictor :: "string \<Rightarrow> predictor" where
  "demo_predictor pool_name = \<lparr>pr_members = 1, pr_scaler = demo_scaler, pr_K = 1, pr_L = 1, pr_window_seconds = 60, pr_threshold = 3 / 4, pr_method = pool_name,
     pr_quantile = Some (9 / 10), pr_heads = ''before_pooling'', pr_horizon_reduction = ''max'', pr_ci_low = 5 / 100, pr_ci_high = 95 / 100,
     pr_calibration = None, pr_operating_point = None\<rparr>"

lemma demo_uncalibrated: "pr_calibration (demo_predictor m) = None"
  by (simp add: demo_predictor_def)

lemma demo_transform: "transform id_math demo_scaler [replicate 45 0] = Inr [replicate 45 0]"
proof -
  have "length FEATURE_ORDER = 45" by (simp add: FEATURE_ORDER_def)
  moreover have "stabilize id_math (replicate 45 ''unit'') (replicate 45 0) = Inr (replicate 45 0)"
    by (simp add: stabilize_def zip_replicate apply_kind_def) (simp add: numeral_eq_Suc)
  moreover have "model_mask demo_scaler = replicate 45 True" by (simp add: model_mask_def demo_scaler_def)
  ultimately show ?thesis
    by (simp add: transform_rows check_width_def transform_block_def transform_row_def demo_scaler_def new_scaler_def zip_replicate np_clip_def map_replicate)
qed

lemma demo_scaler_of: "pr_scaler (demo_predictor m) = demo_scaler"
  by (simp add: demo_predictor_def)

lemma demo_finite: "list_all isfinite (replicate 45 (Fin 0))" "finite_value (Fin 0) = 0" "length FEATURE_ORDER = 45" "pr_L (demo_predictor m) = 1"
  by (simp_all add: list_all_iff isfinite_def finite_value_def FEATURE_ORDER_def demo_predictor_def)

lemma demo_scaled: "validate_and_scale id_math (demo_predictor m) [replicate 45 (Fin 0)] = Inr [replicate 45 0]"
  by (simp add: validate_and_scale_def demo_finite demo_scaler_of demo_transform validate_state_array_width_def map_replicate)

lemma demo_forecast:
  assumes "ensemble_rollout M (demo_predictor m) (nn_rollout (demo_networks samples) [replicate 45 0]) = Inr S"
  shows "\<exists>f. predictor_forecast M id_math (demo_networks samples) (demo_predictor m) [replicate 45 (Fin 0)] ''h'' (Aware 0) = Inr f"
proof -
  have order: "length FEATURE_ORDER = 45" by (simp add: FEATURE_ORDER_def)
  let ?R = "nn_rollout (demo_networks samples) [replicate 45 0]"
  have dist: "stage_dist_of ?R 0 = [(''benign'', 1), (''recon'', 0), (''initial_access'', 0), (''lateral'', 0), (''c2'', 0), (''exfil'', 0)]"
    by (simp add: stage_dist_of_def demo_networks_def STAGES_def)
  have mapping: "map_stage_distribution (stage_dist_of ?R 0) (1 / 20) = Inr []"
    unfolding dist by (simp add: map_stage_distribution_def insort_key_def)
  have prog: "\<exists>x. progression_summary [stage_dist_of ?R 0] 60 = Inr x"
    unfolding dist by (simp add: progression_summary_def progression_step_of_def argmax_stage_def stage_tactics_def STAGE_MAPPINGS_def)
  have "\<exists>y. inverse_transform id_math demo_scaler (replicate 45 0) = Inr y"
    by (simp add: inverse_transform_def demo_scaler_def check_width_def order)
  then have "\<exists>h. horizon_of id_math (demo_predictor m) ?R S (Aware 0) 0 = Inr h"
    by (auto simp: horizon_of_def mapping) (auto simp: demo_predictor_def demo_networks_def)
  moreover have "pr_K (demo_predictor m) = 1" "pr_window_seconds (demo_predictor m) = 60" by (simp_all add: demo_predictor_def)
  ultimately show ?thesis using prog assms by (auto simp: predictor_forecast_def demo_scaled Let_def case_prod_beta)
qed


section \<open>The mean against the band\<close>

lemma sort_one_hot: "mset xs = add_mset r (replicate_mset n 0) \<Longrightarrow> 0 < (r :: rat) \<Longrightarrow> sort xs = replicate n 0 @ [r]"
  by (rule properties_for_sort) (auto simp: sorted_append)

lemma quantile_one_hot:
  assumes "mset xs = add_mset r (replicate_mset n 0)" "0 < (r :: rat)" "20 < n" "0 \<le> q" "q \<le> 95 / 100"
  shows "quantile q xs = 0"
proof -
  have len: "length xs = n + 1" using arg_cong [OF assms(1), of size] by simp
  define pos where "pos = q * of_nat (length xs - 1)"
  have n: "pos = q * of_nat n" using len by (simp add: pos_def)
  have "q * of_nat n \<le> 95 / 100 * of_nat n" using assms(5) by (intro mult_right_mono) auto
  also have "\<dots> < of_nat n - 1" using assms(3) by simp
  finally have "\<lfloor>pos\<rfloor> < int n - 1" unfolding n by (simp add: floor_less_iff)
  then have lo: "nat \<lfloor>pos\<rfloor> + 1 < n" using assms(3) by linarith
  show ?thesis
    unfolding quantile_at [OF pos_def] sort_one_hot [OF assms(1,2)] using lo len by (simp add: nth_append)
qed

lemma avg_one_hot: "mset xs = add_mset r (replicate_mset n 0) \<Longrightarrow> avg xs = r / of_nat (n + 1)"
proof -
  assume xs: "mset xs = add_mset r (replicate_mset n 0)"
  have "sum_list xs = sum_mset (mset xs)" by (simp add: sum_mset_sum_list)
  moreover have "length xs = n + 1" using arg_cong [OF xs, of size] by simp
  ultimately show ?thesis by (simp add: avg_def xs)
qed

text \<open>
  C40. Under mean pooling the contract can break. If one of more than twenty-one trajectories is hot at a horizon and the
  others are at 0, the mean is above the upper quantile of the band, so whatever the networks are, the point the
  uncalibrated predictor returns for that horizon is refused by \<open>HorizonPoint\<close>, and with it the whole forecast.
\<close>
theorem mean_pooling_breaks_band:
  assumes "pr_method P = ''mean''" "pr_calibration P = None" "pr_operating_point P = None \<longrightarrow> pr_heads P = ''before_pooling''"
    "0 \<le> pr_ci_high P" "pr_ci_high P \<le> 95 / 100"
    "predictor_forecast M N NN P states host_id origin_ts = Inr f"
    "\<And>x. k < length (ro_heads (nn_rollout NN x)) \<and> mset (head_mean (ro_heads (nn_rollout NN x) ! k)) = add_mset r (replicate_mset n 0)"
    "k < pr_K P" "0 < r" "20 < n" "fc_horizons g = map fst (fo_horizons f)"
  shows "validate_horizon_point (fst (fo_horizons f ! k)) = Inl ValueError \<and> validate_forecast (pr_K P) g = Inl ValueError"
proof -
  obtain x S where S: "ensemble_rollout M P (nn_rollout NN x) = Inr S"
    and hs: "traverse_res (horizon_of N P (nn_rollout NN x) S origin_ts) [0..<pr_K P] = Inr (fo_horizons f)"
    using assms(6) by (auto simp: predictor_forecast_def bind_res_eq_Inr Let_def case_prod_beta)
  let ?R = "nn_rollout NN x"
  have pooled: "pooled_risk P heads = Inr (avg (head_mean heads))" for heads
    using assms(1,3) by (auto simp: pooled_risk_def pool_trajectories_np_def pool_ensemble_risk_def pool_risk_over_samples_def VALID_HEAD_REDUCTIONS_def split: option.splits)
  have "traverse_res (pooled_risk P) (ro_heads ?R) = Inr (map (\<lambda>heads. avg (head_mean heads)) (ro_heads ?R))"
    by (rule traverse_res_all) (rule pooled)
  then have "ss_mean S = map (\<lambda>heads. avg (head_mean heads)) (ro_heads ?R)" "ss_high S = map (\<lambda>h. quantile (pr_ci_high P) (head_mean h)) (ro_heads ?R)"
    using S assms(2) by (auto simp: ensemble_rollout_def calibrated_def Let_def)
  then have "ss_mean S ! k = r / of_nat (n + 1)" "ss_high S ! k = 0"
    using assms(7) [of x] quantile_one_hot [OF _ assms(9,10,4,5)] avg_one_hot by auto
  then have bad: "\<not> point_ok (fst (fo_horizons f ! k))" using horizons_nth [OF hs] assms(8,9) by (auto simp: point_ok_def divide_le_0_iff)
  then have "validate_horizon_point (fst (fo_horizons f ! k)) = Inl ValueError"
  proof -
    have "validate_horizon_point h = Inl ValueError \<or> validate_horizon_point h = Inr h" for h by (simp add: validate_horizon_point_def)
    then show ?thesis using bad validate_horizon_point_Inr by blast
  qed
  moreover have "\<not> forecast_ok (pr_K P) g" using bad horizons_nth(1) [OF hs] assms(8) by (auto simp: forecast_ok_def assms(11) list_all_length)
  ultimately show ?thesis by (simp add: validate_forecast_exact)
qed

lemma mean_pooling_breaks_band_witness:
  "\<exists>f. predictor_forecast rat_math id_math (demo_networks (1 # replicate 39 0)) (demo_predictor ''mean'') [replicate 45 (Fin 0)] ''h'' (Aware 0) = Inr f \<and>
     validate_horizon_point (fst (fo_horizons f ! 0)) = Inl ValueError"
proof -
  let ?P = "demo_predictor ''mean''" and ?NN = "demo_networks (1 # replicate 39 0)"
  have "pooled_risk ?P [1 # replicate 39 0] = Inr (avg (head_mean [1 # replicate 39 0]))"
    by (simp add: pooled_risk_def pool_ensemble_risk_def pool_risk_over_samples_def VALID_HEAD_REDUCTIONS_def demo_predictor_def)
  then have "\<exists>S. ensemble_rollout rat_math ?P (nn_rollout ?NN [replicate 45 0]) = Inr S"
    by (simp add: ensemble_rollout_def demo_networks_def calibrated_def demo_uncalibrated)
  then obtain f where run: "predictor_forecast rat_math id_math ?NN ?P [replicate 45 (Fin 0)] ''h'' (Aware 0) = Inr f"
    using demo_forecast by blast
  have one: "head_mean [xs] = xs" for xs :: "rat list" by (simp add: head_mean_def avg_def map_nth)
  have hot: "0 < length (ro_heads (nn_rollout ?NN x)) \<and> mset (head_mean (ro_heads (nn_rollout ?NN x) ! 0)) = add_mset 1 (replicate_mset 39 0)" for x
    by (simp add: demo_networks_def one)
  obtain g :: forecast where g: "fc_horizons g = map fst (fo_horizons f)" by (meson forecast.select_convs(4))
  show ?thesis
    using mean_pooling_breaks_band [OF _ demo_uncalibrated _ _ _ run hot _ _ _ g] run by (simp add: demo_predictor_def)
qed

section \<open>Batches and leads\<close>

lemma reshape_concat: "0 < L \<Longrightarrow> list_all (\<lambda>x. length x = L) xs \<Longrightarrow> reshape L (concat xs) = xs"
proof (induction xs)
  case (Cons x xs)
  then have "x @ concat xs \<noteq> []" by auto
  then show ?case using Cons by (subst reshape.simps) simp
qed (simp add: reshape.simps)

lemma traverse_res_concat: "traverse_res f (concat xs) = bind_res (traverse_res (\<lambda>x. traverse_res f x) xs) (\<lambda>ys. Inr (concat ys))"
proof (induction xs)
  case (Cons x xs)
  then show ?case by (cases "traverse_res f x"; cases "traverse_res (\<lambda>x. traverse_res f x) xs") (simp_all add: traverse_res_append)
qed simp

lemma transform_concat:
  assumes "fz_fitted sc" "list_all (\<lambda>x. check_width x = Inr ()) xs"
  shows "transform N sc (concat xs) = bind_res (traverse_res (transform N sc) xs) (\<lambda>ys. Inr (concat ys))"
proof -
  have "list_all (\<lambda>row. length row = length FEATURE_ORDER) (concat xs)"
    using assms(2) by (auto simp: list_all_iff check_width_def split: if_splits)
  then have "transform N sc (concat xs) = transform_block N sc (concat xs)" using assms(1) by (simp add: transform_rows check_width_def)
  also have "\<dots> = bind_res (traverse_res (transform_block N sc) xs) (\<lambda>ys. Inr (concat ys))"
    unfolding transform_block_def by (rule traverse_res_concat)
  also have "traverse_res (transform_block N sc) xs = traverse_res (transform N sc) xs"
    using assms by (induction xs) (simp_all add: transform_rows)
  finally show ?thesis .
qed

text \<open>One context of a batch, as \<open>forecast\<close> computes it.\<close>

definition score_context :: "pymath \<Rightarrow> npmath \<Rightarrow> networks \<Rightarrow> predictor \<Rightarrow> rat list list \<Rightarrow> batch_row res" where
  "score_context M N NN P x = bind_res (transform N (pr_scaler P) x) (\<lambda>scaled.
     bind_res (ensemble_rollout M P (nn_rollout NN scaled)) (\<lambda>S. Inr (batch_row_of P S)))"

lemma transform_lengths: "transform N sc x = Inr y \<Longrightarrow> length y = length x"
  by (auto simp: transform_rows transform_block_def bind_res_eq_Inr traverse_res_Inr dest: list_all2_lengthD split: if_splits)

lemma batch_chunk_rows:
  assumes "fz_fitted (pr_scaler P)" "0 < pr_L P" "list_all (\<lambda>x. check_width x = Inr () \<and> length x = pr_L P) xs"
    "batch_chunk M N NN P xs = Inr rows"
  shows "list_all2 (\<lambda>x r. score_context M N NN P x = Inr r) xs rows"
proof -
  obtain ys where ys: "traverse_res (transform N (pr_scaler P)) xs = Inr ys" and tr: "transform N (pr_scaler P) (concat xs) = Inr (concat ys)"
    using assms(3,4) by (subst (asm) batch_chunk_def, subst (asm) transform_concat [OF assms(1)]) (auto simp: list_all_iff bind_res_eq_Inr transform_concat [OF assms(1)])
  have run: "list_all2 (\<lambda>x y. transform N (pr_scaler P) x = Inr y) xs ys" using ys by (simp add: traverse_res_Inr)
  have "list_all (\<lambda>y. length y = pr_L P) ys"
    using run assms(3) transform_lengths by (auto simp: list_all2_conv_all_nth list_all_length)
  then have "reshape (pr_L P) (concat ys) = ys" by (rule reshape_concat [OF assms(2)])
  then obtain Ss where Ss: "list_all2 (\<lambda>y S. ensemble_rollout M P (nn_rollout NN y) = Inr S) ys Ss" and rows: "rows = map (batch_row_of P) Ss"
    using assms(4) by (auto simp: batch_chunk_def tr bind_res_eq_Inr traverse_res_Inr)
  show ?thesis using run Ss by (auto simp: rows list_all2_conv_all_nth score_context_def)
qed

lemma batch_loop_rows:
  assumes "fz_fitted (pr_scaler P)" "0 < pr_L P" "0 < chunk"
  shows "list_all (\<lambda>x. check_width x = Inr () \<and> length x = pr_L P) xs \<Longrightarrow> batch_loop M N NN P chunk xs = Inr rows \<Longrightarrow>
    list_all2 (\<lambda>x r. score_context M N NN P x = Inr r) xs rows"
  using assms
proof (induction M N NN P chunk xs arbitrary: rows rule: batch_loop.induct)
  case (1 M N NN P chunk xs)
  show ?case
  proof (cases "xs = []")
    case True
    then show ?thesis using 1 by (simp add: batch_loop.simps)
  next
    case False
    then obtain out rest where parts: "batch_chunk M N NN P (take chunk xs) = Inr out" "batch_loop M N NN P chunk (drop chunk xs) = Inr rest" "rows = out @ rest"
      using "1.prems"(2,5) batch_loop.simps [of M N NN P chunk xs] by (auto simp: bind_res_eq_Inr)
    have halves: "list_all (\<lambda>x. check_width x = Inr () \<and> length x = pr_L P) (take chunk xs)" "list_all (\<lambda>x. check_width x = Inr () \<and> length x = pr_L P) (drop chunk xs)"
      using "1.prems"(1) by (auto simp: list_all_iff dest: in_set_takeD in_set_dropD)
    have "list_all2 (\<lambda>x r. score_context M N NN P x = Inr r) (take chunk xs @ drop chunk xs) (out @ rest)"
      using batch_chunk_rows [OF "1.prems"(3,4) halves(1) parts(1)] "1.IH" [OF _ parts(1) halves(2) parts(2) "1.prems"(3-5)] False "1.prems"(5)
      by (intro list_all2_appendI) auto
    then show ?thesis by (simp add: parts(3))
  qed
qed



text \<open>The lead of a curve is the time to the first of \<open>m\<close> consecutive horizons at or above the threshold.\<close>

lemma lead_from_curve_run:
  "lead_from_curve threshold m W i run ps = map_option (\<lambda>k. W * (int k + 1)) (first_run_from m i run (map (\<lambda>p. threshold \<le> p) ps))"
  if "run \<le> i" "0 < m"
  using that by (induction ps arbitrary: i run) (auto simp: Let_def of_nat_diff algebra_simps)

lemma lead_is_first_sustained_horizon:
  "0 < m \<Longrightarrow> lead_time_from_curve horizons W threshold m =
     map_option (\<lambda>k. W * (int k + 1)) (the_first (sustained (map (\<lambda>h. Fin threshold \<le> hp_p h) horizons) m))"
  using first_run_spec [of m "map (\<lambda>h. Fin threshold \<le> hp_p h) horizons"]
  by (simp add: lead_time_from_curve_def lead_from_curve_run first_run_def comp_def)

text \<open>A what-if curve always brackets its points.\<close>

lemma what_if_brackets: "list_all (\<lambda>c. 0 \<le> cp_low c \<and> cp_low c \<le> cp_p c \<and> cp_p c \<le> cp_high c \<and> cp_high c \<le> 1) (curve_points mean low high)"
  by (auto simp: curve_points_def list_all_iff clip01_def Let_def min_def max_def)

text \<open>An operating point that was not selected on validation is refused whatever the rest.\<close>

lemma unvalidated_operating_point: "op_selected_on op \<noteq> Some ''val'' \<Longrightarrow> adopt op P = Inl RuntimeError"
  by (simp add: adopt_def)

end
