(* ===== verification/ApiExplain.thy ===== *)
theory ApiExplain
  imports InferWorker FeatStore Serve
begin

text \<open>
  \<open>api/explain.py\<close>: why a forecast says what it says, the model-internal what-if, the evaluation's metrics and the model
  card. The predictor of the process is a pair of functions that return the dictionary the code reads with \<open>get\<close>, here a
  record of optional entries; \<open>stub_predictor\<close> and \<open>nidra_predictor\<close> are the two the repository has. An exception the
  route does not turn into an \<open>HTTPException\<close> is answered by a 500. Directories are listed and files parsed by a
  parameter, whose \<open>None\<close> stands for an unreadable or malformed file.
\<close>

section \<open>The predictor's answers\<close>

record explain_payload =
  ey_horizon_k :: "int option"
  ey_method :: "string option"
  ey_model :: "string option"
  ey_signals :: "signal_attribution list option"
  ey_driving :: "int option"
  ey_importance :: "flt list option"
  ey_note :: "string option"

record payload_point =
  py_k :: int
  py_p :: flt
  py_low :: flt
  py_high :: flt

record what_if_payload =
  wp_label :: "string option"
  wp_model :: "string option"
  wp_original :: "payload_point list option"
  wp_counterfactual :: "payload_point list option"

record predictor_api =
  pa_explain :: "flt list list \<Rightarrow> int \<Rightarrow> explain_payload res"
  pa_counterfactual :: "flt list list \<Rightarrow> string \<Rightarrow> flt \<Rightarrow> what_if_payload res"
  pa_model_version :: string

definition stub_point :: "curve_point \<Rightarrow> payload_point" where
  "stub_point c = \<lparr>py_k = cv_k c, py_p = cv_p c, py_low = cv_lo c, py_high = cv_hi c\<rparr>"

definition stub_predictor :: "pymath \<Rightarrow> numpy \<Rightarrow> predictor_cfg \<Rightarrow> predictor_api" where
  "stub_predictor M NP cfg =
     \<lparr>pa_explain = \<lambda>states k. bind_res (StubPredictor.explain M NP cfg states k) (\<lambda>e. Inr
        \<lparr>ey_horizon_k = Some (xp_horizon e), ey_method = Some (xp_how e), ey_model = Some (xp_model e), ey_signals = Some (xp_signals e),
         ey_driving = Some (int (xp_driving e)), ey_importance = Some (xp_importance e), ey_note = Some (xp_note e)\<rparr>),
      pa_counterfactual = \<lambda>states f v. bind_res (StubPredictor.counterfactual M NP cfg states f v) (\<lambda>c. Inr
        \<lparr>wp_label = Some (cr_label c), wp_model = Some (cr_model c), wp_original = Some (map stub_point (cr_original c)),
         wp_counterfactual = Some (map stub_point (cr_counterfactual c))\<rparr>),
      pa_model_version = StubPredictor.MODEL_VERSION\<rparr>"

definition nidra_point :: "curve_pt \<Rightarrow> payload_point" where
  "nidra_point c = \<lparr>py_k = int (cp_k c), py_p = Fin (cp_p c), py_low = Fin (cp_low c), py_high = Fin (cp_high c)\<rparr>"

text \<open>A clamp value is finite here.\<close>

definition nidra_predictor :: "npmath \<Rightarrow> networks \<Rightarrow> predictor \<Rightarrow> predictor_api" where
  "nidra_predictor N NN P =
     \<lparr>pa_explain = \<lambda>states k. bind_res (predictor_explain N NN P states k) (\<lambda>e. Inr
        \<lparr>ey_horizon_k = Some (eo_horizon_k e), ey_method = Some EXPLAIN_METHOD, ey_model = Some Serve.MODEL_VERSION, ey_signals = Some (eo_signals e),
         ey_driving = Some (int (eo_driving_window e)), ey_importance = Some (map Fin (eo_window_importance e)), ey_note = None\<rparr>),
      pa_counterfactual = \<lambda>states f v. bind_res (predictor_counterfactual N NN P states f (finite_value v)) (\<lambda>c. Inr
        \<lparr>wp_label = Some (wi_label c), wp_model = Some (wi_model c), wp_original = Some (map nidra_point (wi_original c)),
         wp_counterfactual = Some (map nidra_point (wi_counterfactual c))\<rparr>),
      pa_model_version = Serve.MODEL_VERSION\<rparr>"

section \<open>Configuration and context\<close>

definition cfg_int :: "pyconv \<Rightarrow> tree \<Rightarrow> string \<Rightarrow> int res" where
  "cfg_int C cfg key = bind_res (t_item cfg key) (t_int C)"

definition api_config :: "tree \<Rightarrow> tree res" where
  "api_config cfg = bind_res (t_get cfg ''api'' (TMap [])) t_dict"

definition metrics_dir :: "pyconv \<Rightarrow> path \<Rightarrow> tree \<Rightarrow> path res" where
  "metrics_dir C repo_root cfg = bind_res (api_config cfg) (\<lambda>api. bind_res (t_get api ''metrics_dir'' (TStr ''artifacts/metrics'')) (\<lambda>d.
     let configured = mk_path (t_str C d) in Inr (if take 1 configured = [''/''] then configured else path_div repo_root configured)))"

definition observed_context :: "pyconv \<Rightarrow> tree \<Rightarrow> FeatStore.state_row list \<Rightarrow> uuid \<Rightarrow> string \<Rightarrow> datetime \<Rightarrow> state_vector list res" where
  "observed_context C cfg rows tenant_id host_id origin_ts =
     bind_res (cfg_int C cfg ''context_L'') (\<lambda>L. bind_res (load_context C rows tenant_id host_id origin_ts (nat L)) (\<lambda>vectors.
       if vectors = [] \<or> as_utc (sv_ts (last vectors)) \<noteq> as_utc origin_ts then Inl (HttpError 404) else Inr vectors))"

section \<open>The two model calls\<close>

record explain_response =
  er_host :: string
  er_origin :: int
  er_horizon_k :: int
  er_method :: string
  er_model :: string
  er_signals :: "signal_attribution list"
  er_driving :: int
  er_importance :: "flt list"
  er_context_windows :: nat
  er_context_l :: int
  er_note :: "string option"

definition or_else :: "'a option \<Rightarrow> 'a \<Rightarrow> 'a" where
  "or_else x d = (case x of None \<Rightarrow> d | Some v \<Rightarrow> v)"

text \<open>\<open>except ValueError\<close> around the predictor.\<close>

definition unprocessable :: "'a res \<Rightarrow> 'a res" where
  "unprocessable r = (case r of Inl ValueError \<Rightarrow> Inl (HttpError 422) | other \<Rightarrow> other)"

definition explain_route ::
    "pyconv \<Rightarrow> tree \<Rightarrow> predictor_api \<Rightarrow> FeatStore.state_row list \<Rightarrow> uuid \<Rightarrow> string \<Rightarrow> datetime \<Rightarrow> int option \<Rightarrow> explain_response res" where
  "explain_route C cfg A rows tenant_id host ts k =
     (if (case k of None \<Rightarrow> False | Some k \<Rightarrow> k < 1) then Inl (HttpError 422)
      else bind_res (case k of Some k \<Rightarrow> Inr k | None \<Rightarrow> cfg_int C cfg ''horizon_K'') (\<lambda>horizon_k.
      bind_res (observed_context C cfg rows tenant_id host ts) (\<lambda>vectors.
      bind_res (states_array vectors) (\<lambda>states.
      bind_res (unprocessable (pa_explain A states horizon_k)) (\<lambda>payload.
      bind_res (cfg_int C cfg ''context_L'') (\<lambda>L. Inr
        \<lparr>er_host = host, er_origin = as_utc ts, er_horizon_k = or_else (ey_horizon_k payload) horizon_k, er_method = or_else (ey_method payload) ''unknown'',
         er_model = or_else (ey_model payload) ''unknown'', er_signals = or_else (ey_signals payload) [], er_driving = or_else (ey_driving payload) 0,
         er_importance = or_else (ey_importance payload) [], er_context_windows = length vectors, er_context_l = L, er_note = ey_note payload\<rparr>))))))"

record curve_point_out =
  ct_k :: int
  ct_ts :: int
  ct_p :: flt
  ct_low :: flt
  ct_high :: flt

definition curve :: "int \<Rightarrow> payload_point list \<Rightarrow> int \<Rightarrow> curve_point_out list" where
  "curve delta points origin = map (\<lambda>p. \<lparr>ct_k = py_k p, ct_ts = origin + py_k p * delta * 1000000, ct_p = py_p p, ct_low = py_low p, ct_high = py_high p\<rparr>) points"

record counterfactual_request =
  cq_host :: string
  cq_ts :: datetime
  cq_feature :: string
  cq_clamp :: flt

record counterfactual_response =
  cs_label :: string
  cs_host :: string
  cs_origin :: int
  cs_feature :: string
  cs_clamp :: flt
  cs_model :: string
  cs_original :: "curve_point_out list"
  cs_counterfactual :: "curve_point_out list"
  cs_context_windows :: nat

definition counterfactual_route ::
    "pyconv \<Rightarrow> tree \<Rightarrow> predictor_api \<Rightarrow> FeatStore.state_row list \<Rightarrow> uuid \<Rightarrow> counterfactual_request \<Rightarrow> counterfactual_response res" where
  "counterfactual_route C cfg A rows tenant_id body =
     (if cq_feature body \<notin> set FEATURE_ORDER then Inl (HttpError 422)
      else let origin = as_utc (cq_ts body) in
      bind_res (observed_context C cfg rows tenant_id (cq_host body) (Aware origin)) (\<lambda>vectors.
      bind_res (states_array vectors) (\<lambda>states.
      bind_res (pa_counterfactual A states (cq_feature body) (cq_clamp body)) (\<lambda>payload.
        let label = or_else (wp_label payload) [] in
        if label \<noteq> StubPredictor.COUNTERFACTUAL_LABEL then Inl (HttpError 500)
        else bind_res (cfg_int C cfg ''window_delta'') (\<lambda>delta. Inr
          \<lparr>cs_label = label, cs_host = cq_host body, cs_origin = origin, cs_feature = cq_feature body, cs_clamp = cq_clamp body,
           cs_model = or_else (wp_model payload) ''unknown'', cs_original = curve delta (or_else (wp_original payload) []) origin,
           cs_counterfactual = curve delta (or_else (wp_counterfactual payload) []) origin, cs_context_windows = length vectors\<rparr>)))))"

section \<open>Benchmarks and model card\<close>

definition relative_to_repo :: "path \<Rightarrow> path \<Rightarrow> path" where
  "relative_to_repo repo_root p = (if take (length repo_root) p = repo_root then drop (length repo_root) p else p)"

record benchmarks_response =
  bm_status :: string
  bm_source :: path
  bm_metrics :: "(string, tree) dict"

text \<open>\<open>listing\<close> has the stems of the directory's JSON files in sorted order, \<open>None\<close> for no directory.\<close>

definition benchmarks :: "pyconv \<Rightarrow> path \<Rightarrow> tree \<Rightarrow> (path \<Rightarrow> string list option) \<Rightarrow> (path \<Rightarrow> string \<Rightarrow> tree option) \<Rightarrow> benchmarks_response res" where
  "benchmarks C repo_root cfg listing parse =
     bind_res (metrics_dir C repo_root cfg) (\<lambda>directory.
     let source = relative_to_repo repo_root directory; files = or_else (listing directory) [] in
     if files = [] then Inr \<lparr>bm_status = ''pending'', bm_source = source, bm_metrics = []\<rparr>
     else bind_res (traverse_res (\<lambda>stem. case parse directory stem of None \<Rightarrow> Inl (HttpError 500) | Some t \<Rightarrow> Inr (stem, t)) files) (\<lambda>metrics.
       Inr \<lparr>bm_status = ''ok'', bm_source = source, bm_metrics = metrics\<rparr>))"

record model_card =
  mc_impl :: string
  mc_version :: string
  mc_schema :: string
  mc_window_delta :: int
  mc_context_L :: int
  mc_horizon_K :: int
  mc_n_features :: int
  mc_risk_threshold :: flt
  mc_lead_time_m :: int

definition model_info :: "pyconv \<Rightarrow> tree \<Rightarrow> predictor_api \<Rightarrow> model_card res" where
  "model_info C cfg A =
     bind_res (bind_res (t_get cfg ''predictor'' (TMap [])) (\<lambda>p. t_get p ''impl'' (TStr ''unknown''))) (\<lambda>impl.
     bind_res (cfg_int C cfg ''window_delta'') (\<lambda>delta. bind_res (cfg_int C cfg ''context_L'') (\<lambda>L. bind_res (cfg_int C cfg ''horizon_K'') (\<lambda>K.
     bind_res (cfg_int C cfg ''n_features'') (\<lambda>n. bind_res (bind_res (t_item cfg ''risk_threshold'') (t_float C)) (\<lambda>threshold.
     bind_res (cfg_int C cfg ''lead_time_m'') (\<lambda>m. Inr
       \<lparr>mc_impl = t_str C impl, mc_version = pa_model_version A, mc_schema = SCHEMA_VERSION, mc_window_delta = delta, mc_context_L = L, mc_horizon_K = K,
        mc_n_features = n, mc_risk_threshold = threshold, mc_lead_time_m = m\<rparr>)))))))"

section \<open>Which windows an answer reads\<close>

definition stored :: "FeatStore.state_row list \<Rightarrow> uuid \<Rightarrow> string \<Rightarrow> int \<Rightarrow> bool" where
  "stored rows tenant host t \<longleftrightarrow> list_ex (\<lambda>r. FeatStore.row_key r = (tenant, host, t)) rows"

lemma last_last_n: "0 < n \<Longrightarrow> xs \<noteq> [] \<Longrightarrow> last (last_n n xs) = last xs"
  by (cases "length xs \<le> n") (simp_all add: last_n_def last_drop)

lemma last_host_rows:
  assumes "rows_ok rows" "stored rows tenant host u"
  shows "host_rows rows tenant host u \<noteq> []" "vr_ts (last (host_rows rows tenant host u)) = u"
proof -
  let ?h = "host_rows rows tenant host u"
  obtain r where r: "r \<in> set ?h" "vr_ts r = u" using assms(2) by (auto simp: stored_def list_ex_iff FeatStore.row_key_def host_rows_def)
  then show ne: "?h \<noteq> []" by auto
  then have "last ?h \<in> set ?h" by simp
  then have "vr_ts (last ?h) \<le> u" by (auto simp: host_rows_def)
  moreover obtain i where i: "i < length ?h" "?h ! i = r" using r(1) by (auto simp: in_set_conv_nth)
  have "map vr_ts ?h ! i \<le> map vr_ts ?h ! (length ?h - 1)" using i by (intro sorted_nth_mono) (auto simp: host_rows_def)
  then have "u \<le> vr_ts (last ?h)" using i r(2) ne by (simp add: last_conv_nth)
  ultimately show "vr_ts (last ?h) = u" by simp
qed

lemma states_array_of_rows:
  assumes "list_all (\<lambda>v. set (keys (sv_features v)) = set FEATURE_ORDER) vs"
  shows "states_array vs = Inr (matrix vs)"
  unfolding states_array_def matrix_def
proof (rule traverse_res_all, rule traverse_res_all)
  fix v name assume v: "v \<in> set vs" "name \<in> set FEATURE_ORDER"
  have "set (keys (sv_features v)) = set FEATURE_ORDER" using assms v(1) unfolding list_all_iff by (rule bspec)
  with v(2) have "name \<in> set (keys (sv_features v))" by (simp only:)
  then have "map_of (sv_features v) name \<noteq> None" unfolding map_of_eq_None_iff by simp
  then obtain x where "map_of (sv_features v) name = Some x" by blast
  then show "dict_index (sv_features v) name = Inr (the (map_of (sv_features v) name))" by (simp add: dict_index_def)
qed

lemma observed_context_cases:
  assumes "rows_ok rows" "cfg_int C cfg ''context_L'' = Inr L" "0 < L"
  shows "if stored rows tenant host (as_utc ts)
    then \<exists>vs. observed_context C cfg rows tenant host ts = Inr vs \<and>
      map (as_utc \<circ> sv_ts) vs = last_n (nat L) (map vr_ts (host_rows rows tenant host (as_utc ts))) \<and>
      list_all (\<lambda>v. \<exists>r \<in> set rows. vr_tenant r = tenant \<and> vr_host r = host \<and> vr_ts r = as_utc (sv_ts v) \<and> vr_features r = sv_features v) vs
    else observed_context C cfg rows tenant host ts = Inl (HttpError 404)"
proof -
  obtain vs where vs: "load_context C rows tenant host ts (nat L) = Inr vs"
    "map (as_utc \<circ> sv_ts) vs = last_n (nat L) (map vr_ts (host_rows rows tenant host (as_utc ts)))"
    "list_all (\<lambda>v. as_utc (sv_ts v) \<le> as_utc ts \<and> (\<exists>r \<in> set rows. vr_tenant r = tenant \<and> vr_host r = host \<and> vr_ts r = as_utc (sv_ts v) \<and> vr_features r = sv_features v)) vs"
    using load_context_exact [OF assms(1)] by blast
  have run: "observed_context C cfg rows tenant host ts = (if vs = [] \<or> as_utc (sv_ts (last vs)) \<noteq> as_utc ts then Inl (HttpError 404) else Inr vs)"
    by (simp add: observed_context_def assms(2) vs(1))
  show ?thesis
  proof (cases "stored rows tenant host (as_utc ts)")
    case True
    note newest = last_host_rows [OF assms(1) True]
    have ne: "map (as_utc \<circ> sv_ts) vs \<noteq> []" unfolding vs(2) using newest(1) assms(3) by (cases "host_rows rows tenant host (as_utc ts)") (auto simp: last_n_def)
    then have "as_utc (sv_ts (last vs)) = last (map (as_utc \<circ> sv_ts) vs)" by (simp add: last_map)
    also have "\<dots> = as_utc ts" unfolding vs(2) using newest assms(3) by (simp add: last_last_n last_map)
    finally show ?thesis using True run ne vs(2,3) by (auto simp: list_all_iff)
  next
    case False
    have "vs = [] \<or> as_utc (sv_ts (last vs)) \<noteq> as_utc ts"
    proof (rule ccontr)
      assume "\<not> ?thesis"
      then have "last vs \<in> set vs" "as_utc (sv_ts (last vs)) = as_utc ts" by auto
      then show False using vs(3) False by (auto simp: list_all_iff stored_def list_ex_iff FeatStore.row_key_def)
    qed
    then show ?thesis using False run by simp
  qed
qed

text \<open>
  C39. An explanation reads exactly the stored windows its forecast could have seen. For a table with one row per key, a
  request for a window the tenant's host has no row for is a 404; otherwise the predictor is given the newest \<open>L\<close> rows
  of that tenant and host up to the instant asked for, oldest first and ending at it, in feature order, and what it
  raises as \<open>ValueError\<close> is a 422.
\<close>
theorem explanation_reads_its_forecast:
  assumes "rows_ok rows" "cfg_int C cfg ''context_L'' = Inr L" "0 < L" "cfg_int C cfg ''horizon_K'' = Inr K"
  shows "if stored rows tenant host (as_utc ts)
    then \<exists>vs. map (as_utc \<circ> sv_ts) vs = last_n (nat L) (map vr_ts (host_rows rows tenant host (as_utc ts))) \<and>
      list_all (\<lambda>v. \<exists>r \<in> set rows. vr_tenant r = tenant \<and> vr_host r = host \<and> vr_ts r = as_utc (sv_ts v) \<and> vr_features r = sv_features v) vs \<and>
      (case pa_explain A (matrix vs) K of
         Inl e \<Rightarrow> explain_route C cfg A rows tenant host ts None = Inl (if e = ValueError then HttpError 422 else e)
       | Inr payload \<Rightarrow> \<exists>r. explain_route C cfg A rows tenant host ts None = Inr r \<and> er_context_windows r = length vs \<and> er_origin r = as_utc ts \<and>
           er_signals r = or_else (ey_signals payload) [])
    else explain_route C cfg A rows tenant host ts None = Inl (HttpError 404)"
proof -
  note cases = observed_context_cases [OF assms(1-3), of tenant host ts]
  show ?thesis
  proof (cases "stored rows tenant host (as_utc ts)")
    case True
    then obtain vs where vs: "observed_context C cfg rows tenant host ts = Inr vs"
      "map (as_utc \<circ> sv_ts) vs = last_n (nat L) (map vr_ts (host_rows rows tenant host (as_utc ts)))"
      "list_all (\<lambda>v. \<exists>r \<in> set rows. vr_tenant r = tenant \<and> vr_host r = host \<and> vr_ts r = as_utc (sv_ts v) \<and> vr_features r = sv_features v) vs"
      using cases by auto
    have "list_all (\<lambda>v. set (keys (sv_features v)) = set FEATURE_ORDER) vs"
      using vs(3) assms(1) unfolding list_all_iff rows_ok_def by metis
    then have "states_array vs = Inr (matrix vs)" by (rule states_array_of_rows)
    then have route: "explain_route C cfg A rows tenant host ts None = bind_res (unprocessable (pa_explain A (matrix vs) K)) (\<lambda>payload. Inr
        \<lparr>er_host = host, er_origin = as_utc ts, er_horizon_k = or_else (ey_horizon_k payload) K, er_method = or_else (ey_method payload) ''unknown'',
         er_model = or_else (ey_model payload) ''unknown'', er_signals = or_else (ey_signals payload) [], er_driving = or_else (ey_driving payload) 0,
         er_importance = or_else (ey_importance payload) [], er_context_windows = length vs, er_context_l = L, er_note = ey_note payload\<rparr>)"
      by (simp add: explain_route_def assms(2,4) vs(1))
    have "case pa_explain A (matrix vs) K of
         Inl e \<Rightarrow> explain_route C cfg A rows tenant host ts None = Inl (if e = ValueError then HttpError 422 else e)
       | Inr payload \<Rightarrow> \<exists>r. explain_route C cfg A rows tenant host ts None = Inr r \<and> er_context_windows r = length vs \<and> er_origin r = as_utc ts \<and>
           er_signals r = or_else (ey_signals payload) []"
    proof (cases "pa_explain A (matrix vs) K")
      case (Inl e)
      then show ?thesis unfolding route by (cases e) (simp_all add: unprocessable_def)
    next
      case (Inr payload)
      then show ?thesis unfolding route by (simp add: unprocessable_def)
    qed
    with vs(2,3) show ?thesis unfolding if_P [OF True] by (intro exI [of _ vs] conjI)
  next
    case False
    then show ?thesis using cases by (simp add: explain_route_def assms(4))
  qed
qed

text \<open>Concrete data: two rows of a host, and a row of the same host of another tenant.\<close>

definition demo_state_row :: "uuid \<Rightarrow> int \<Rightarrow> FeatStore.state_row" where
  "demo_state_row tenant t = \<lparr>FeatStore.state_row.vr_tenant = tenant, vr_host = ''h'', vr_ts = t, vr_features = map (\<lambda>f. (f, Fin 0)) FEATURE_ORDER, vr_schema = SCHEMA_VERSION\<rparr>"

definition demo_cfg :: tree where
  "demo_cfg = TMap [(''context_L'', TInt 2), (''horizon_K'', TInt 1), (''window_delta'', TInt 60)]"

definition demo_states :: "FeatStore.state_row list" where
  "demo_states = [demo_state_row 1 60000000, demo_state_row 2 120000000, demo_state_row 1 120000000]"

lemma demo_states_ok: "rows_ok demo_states"
proof -
  have "map fst (map (\<lambda>f. (f, Fin 0)) FEATURE_ORDER) = FEATURE_ORDER" by (simp add: comp_def)
  then show ?thesis by (auto simp: rows_ok_def demo_states_def demo_state_row_def FeatStore.row_key_def image_image)
qed

lemma explanation_reads_its_forecast_witness:
  "explain_route std_conv demo_cfg (nidra_predictor id_math (demo_networks []) (demo_predictor ''mean'')) demo_states 1 ''h'' (Naive 60) None = Inl (HttpError 404) \<and>
   (\<exists>vs :: state_vector list. map (as_utc \<circ> sv_ts) vs = last_n 2 (map vr_ts (host_rows demo_states 1 ''h'' 120000000)))"
proof -
  have cfg: "cfg_int std_conv demo_cfg ''context_L'' = Inr 2" "cfg_int std_conv demo_cfg ''horizon_K'' = Inr 1"
    by (simp_all add: cfg_int_def demo_cfg_def dict_index_def)
  have "\<not> stored demo_states 1 ''h'' (as_utc (Naive 60))" "stored demo_states 1 ''h'' (as_utc (Aware 120000000))"
    by (simp_all add: stored_def demo_states_def demo_state_row_def FeatStore.row_key_def)
  note here = this
  let ?A = "nidra_predictor id_math (demo_networks []) (demo_predictor ''mean'')"
  show ?thesis
    using explanation_reads_its_forecast [OF demo_states_ok cfg(1) _ cfg(2), of 1 "''h''" "Naive 60" ?A]
      explanation_reads_its_forecast [OF demo_states_ok cfg(1) _ cfg(2), of 1 "''h''" "Aware 120000000" ?A] here by (simp del: One_nat_def) blast
qed

text \<open>
  A short history is a client error to one route and a server error to the other. With the trained predictor, a
  host that has a row at the instant asked for but fewer windows than the model's context gets a 422 from
  \<open>explain\<close>, while the same \<open>ValueError\<close> leaves \<open>counterfactual\<close> as an unhandled exception.
\<close>
lemma short_history_is_a_server_error:
  assumes "rows_ok rows" "cfg_int C cfg ''context_L'' = Inr L" "0 < L" "cfg_int C cfg ''horizon_K'' = Inr (int (pr_K P))" "1 \<le> pr_K P"
    "stored rows tenant (cq_host body) (as_utc (cq_ts body))" "cq_feature body \<in> set FEATURE_ORDER"
    "length (host_rows rows tenant (cq_host body) (as_utc (cq_ts body))) < pr_L P"
  shows "explain_route C cfg (nidra_predictor N NN P) rows tenant (cq_host body) (cq_ts body) None = Inl (HttpError 422) \<and>
    counterfactual_route C cfg (nidra_predictor N NN P) rows tenant body = Inl ValueError"
proof -
  let ?A = "nidra_predictor N NN P" and ?ts = "Aware (as_utc (cq_ts body))"
  obtain vs where vs: "observed_context C cfg rows tenant (cq_host body) ?ts = Inr vs"
    "map (as_utc \<circ> sv_ts) vs = last_n (nat L) (map vr_ts (host_rows rows tenant (cq_host body) (as_utc (cq_ts body))))"
    "list_all (\<lambda>v. \<exists>r \<in> set rows. vr_tenant r = tenant \<and> vr_host r = cq_host body \<and> vr_ts r = as_utc (sv_ts v) \<and> vr_features r = sv_features v) vs"
    using observed_context_cases [OF assms(1-3), of tenant "cq_host body" ?ts] assms(6) by auto
  have same: "observed_context C cfg rows tenant (cq_host body) (cq_ts body) = Inr vs"
    using vs(1) by (simp add: observed_context_def load_context_def)
  have "length vs = length (last_n (nat L) (map vr_ts (host_rows rows tenant (cq_host body) (as_utc (cq_ts body)))))"
    using arg_cong [OF vs(2), of length] by simp
  then have short: "length vs < pr_L P" using assms(8) by (simp add: last_n_def)
  have "list_all (\<lambda>v. set (keys (sv_features v)) = set FEATURE_ORDER) vs"
    using vs(3) assms(1) unfolding list_all_iff rows_ok_def by metis
  then have states: "states_array vs = Inr (matrix vs)" by (rule states_array_of_rows)
  have "validate_and_scale N P (matrix vs) = Inl ValueError"
    using short by (auto simp: validate_and_scale_def matrix_def list_all_iff validate_state_array_width_def)
  then have "pa_explain ?A (matrix vs) (int (pr_K P)) = Inl ValueError" "pa_counterfactual ?A (matrix vs) f v = Inl ValueError" for f v
    using assms(5) by (simp_all add: nidra_predictor_def predictor_explain_def predictor_counterfactual_def Let_def)
  then show ?thesis
    using assms(4,7) by (simp add: explain_route_def counterfactual_route_def same vs(1) states unprocessable_def Let_def)
qed

lemma short_history_is_a_server_error_witness:
  "explain_route std_conv demo_cfg (nidra_predictor id_math (demo_networks []) ((demo_predictor ''mean'')\<lparr>pr_L := 3\<rparr>)) demo_states 1 ''h'' (Aware 120000000) None = Inl (HttpError 422) \<and>
   counterfactual_route std_conv demo_cfg (nidra_predictor id_math (demo_networks []) ((demo_predictor ''mean'')\<lparr>pr_L := 3\<rparr>)) demo_states 1
     \<lparr>cq_host = ''h'', cq_ts = Aware 120000000, cq_feature = hd FEATURE_ORDER, cq_clamp = Fin 0\<rparr> = Inl ValueError"
proof -
  let ?P = "(demo_predictor ''mean'')\<lparr>pr_L := 3\<rparr>" and ?b = "\<lparr>cq_host = ''h'', cq_ts = Aware 120000000, cq_feature = hd FEATURE_ORDER, cq_clamp = Fin 0\<rparr>"
  have cfg: "cfg_int std_conv demo_cfg ''context_L'' = Inr 2" "cfg_int std_conv demo_cfg ''horizon_K'' = Inr (int (pr_K ?P))" "1 \<le> pr_K ?P"
    by (simp_all add: cfg_int_def demo_cfg_def dict_index_def demo_predictor_def)
  have here: "stored demo_states 1 (cq_host ?b) (as_utc (cq_ts ?b))"
    by (simp add: stored_def demo_states_def demo_state_row_def FeatStore.row_key_def)
  have "hd FEATURE_ORDER \<in> set FEATURE_ORDER" by (rule hd_in_set) (simp add: FEATURE_ORDER_def)
  then have feature: "cq_feature ?b \<in> set FEATURE_ORDER" by simp
  have few: "length (host_rows demo_states 1 (cq_host ?b) (as_utc (cq_ts ?b))) < pr_L ?P"
    by (simp add: host_rows_def demo_states_def demo_state_row_def)
  show ?thesis using short_history_is_a_server_error [OF demo_states_ok cfg(1) _ cfg(2,3) here feature few] by simp
qed

text \<open>
  A what-if that is answered at all carries the label, and its points are \<open>k\<close> windows after the instant asked for.
\<close>

lemma what_if_is_labelled:
  assumes "counterfactual_route C cfg A rows tenant body = Inr r" "cfg_int C cfg ''window_delta'' = Inr delta"
  shows "cs_label r = StubPredictor.COUNTERFACTUAL_LABEL \<and>
    list_all (\<lambda>p. ct_ts p = as_utc (cq_ts body) + ct_k p * delta * 1000000) (cs_original r @ cs_counterfactual r)"
  using assms by (auto simp: counterfactual_route_def Let_def bind_res_eq_Inr curve_def list_all_iff split: if_splits)

text \<open>Metrics are served all or not at all.\<close>

lemma partial_metrics_are_refused:
  assumes "metrics_dir C repo_root cfg = Inr d" "listing d = Some files" "stem \<in> set files" "parse d stem = None"
  shows "benchmarks C repo_root cfg listing parse = Inl (HttpError 500)"
proof -
  have "traverse_res (\<lambda>stem. case parse d stem of None \<Rightarrow> Inl (HttpError 500) | Some t \<Rightarrow> Inr (stem, t)) files = Inl (HttpError 500)"
    using assms(3) by (induction files) (auto simp: assms(4) split: option.splits)
  moreover have "files \<noteq> []" using assms(3) by auto
  ultimately show ?thesis by (simp add: benchmarks_def assms(1,2) or_else_def Let_def)
qed

end
