(* ===== verification/WorldModel.thy ===== *)
theory WorldModel
  imports Serve
begin

text \<open>
  \<open>ml/nidra/models/world_model.py\<close> with \<open>encoder.py\<close>, \<open>transition.py\<close>, the component layout of \<open>heads.py\<close>, the what-if
  loop of \<open>explain/counterfactual.py\<close> and \<open>train/head_context.py\<close>. Recurrent and dense layers are the record
  \<open>dynamics\<close>; how they are wired is the model. A batch is computed row by row and a tiled batch sample by sample, the
  standard normal draws are an argument, and numbers are exact rationals.
\<close>

section \<open>Layers\<close>

type_synonym vec = "rat list"

text \<open>
  \<open>dy_gru\<close> returns the output of every step and the next recurrent state; \<open>dy_skip\<close> is present with \<open>linear_skip\<close>;
  \<open>dy_std\<close> is \<open>exp (0.5 * logvar)\<close>; the heads' nets end in their probabilities.
\<close>

record 'h dynamics =
  dy_gru :: "vec list \<Rightarrow> 'h option \<Rightarrow> vec list \<times> 'h"
  dy_mu :: "vec \<Rightarrow> vec"
  dy_logvar :: "vec \<Rightarrow> vec"
  dy_skip :: "(vec \<Rightarrow> vec) option"
  dy_std :: "rat \<Rightarrow> rat"
  dy_logvar_min :: rat
  dy_logvar_max :: rat
  dy_state_clamp :: rat
  dy_n_features :: nat
  dy_feature_mask :: "bool list option"
  dy_trajectory_head :: "string list option"
  dy_risk :: "vec \<Rightarrow> rat"
  dy_stage :: "vec \<Rightarrow> vec"

definition clamp_vec :: "rat \<Rightarrow> rat \<Rightarrow> vec \<Rightarrow> vec" where
  "clamp_vec lo hi v = map (np_clip lo hi) v"

definition vadd :: "vec \<Rightarrow> vec \<Rightarrow> vec" where "vadd a b = map2 (+) a b"
definition vsub :: "vec \<Rightarrow> vec \<Rightarrow> vec" where "vsub a b = map2 (-) a b"
definition vmul :: "vec \<Rightarrow> vec \<Rightarrow> vec" where "vmul a b = map2 (*) a b"

definition encoder :: "'h dynamics \<Rightarrow> vec list \<Rightarrow> 'h option \<Rightarrow> vec \<times> 'h" where
  "encoder D x h = (let (out, h_next) = dy_gru D x h in (last out, h_next))"

definition transition :: "'h dynamics \<Rightarrow> vec \<Rightarrow> vec \<Rightarrow> vec \<Rightarrow> vec \<times> vec" where
  "transition D h_t s_t s_prev =
     (let mu = dy_mu D h_t; mu = (case dy_skip D of None \<Rightarrow> mu | Some skip \<Rightarrow> vadd mu (skip (s_t @ s_prev)))
      in (mu, clamp_vec (dy_logvar_min D) (dy_logvar_max D) (dy_logvar D h_t)))"

definition set_feature_mask :: "'h dynamics \<Rightarrow> bool list option \<Rightarrow> 'h dynamics res" where
  "set_feature_mask D kept = (case kept of None \<Rightarrow> Inr (D\<lparr>dy_feature_mask := None\<rparr>)
     | Some m \<Rightarrow> if length m \<noteq> dy_n_features D then Inl ValueError else Inr (D\<lparr>dy_feature_mask := Some m\<rparr>))"

definition mask_vec :: "'h dynamics \<Rightarrow> vec \<Rightarrow> vec" where
  "mask_vec D v = (case dy_feature_mask D of None \<Rightarrow> v | Some m \<Rightarrow> map2 (\<lambda>x keep. if keep then x else 0) v m)"

definition mask_logvar :: "'h dynamics \<Rightarrow> vec \<Rightarrow> vec" where
  "mask_logvar D v = (case dy_feature_mask D of None \<Rightarrow> v | Some m \<Rightarrow> map2 (\<lambda>x keep. if keep then x else dy_logvar_min D) v m)"

section \<open>The rollout\<close>

definition STATE_SOURCES :: "string list" where
  "STATE_SOURCES = [''model'', ''persist'', ''truth'']"

record roll_step =
  rs_state :: vec
  rs_mu :: vec
  rs_logvar :: vec
  rs_hidden :: vec

record trajectory =
  tj_anchor :: vec
  tj_steps :: "roll_step list"

text \<open>The draw of step \<open>k\<close> in units of its deviation; \<open>None\<close> for a deterministic rollout.\<close>

definition with_noise :: "'h dynamics \<Rightarrow> (nat \<Rightarrow> vec) option \<Rightarrow> nat \<Rightarrow> vec \<Rightarrow> vec \<Rightarrow> vec" where
  "with_noise D noise k nxt logvar = (case noise of None \<Rightarrow> nxt | Some z \<Rightarrow> vadd nxt (vmul (z k) (map (dy_std D) logvar)))"

fun rollout_loop :: "'h dynamics \<Rightarrow> string \<Rightarrow> vec \<Rightarrow> (nat \<Rightarrow> vec) \<Rightarrow> (nat \<Rightarrow> vec) option \<Rightarrow> nat \<Rightarrow> nat \<Rightarrow> vec \<Rightarrow> 'h \<Rightarrow> vec \<Rightarrow> vec \<Rightarrow> roll_step list" where
  "rollout_loop D src anchor truth noise k 0 h_t h cur prev = []"
| "rollout_loop D src anchor truth noise k (Suc n) h_t h cur prev =
     (let (mu, logvar) = transition D h_t cur prev;
          (nxt, mu) = (if src = ''model'' then (with_noise D noise k (vadd cur mu) logvar, mu)
                       else if src = ''persist'' then (anchor, map (\<lambda>x. 0) mu) else (truth k, mu));
          nxt = mask_vec D (clamp_vec (- dy_state_clamp D) (dy_state_clamp D) nxt);
          (h_t', h') = encoder D [nxt] (Some h)
      in \<lparr>rs_state = nxt, rs_mu = mask_vec D mu, rs_logvar = mask_logvar D logvar, rs_hidden = h_t'\<rparr> #
         rollout_loop D src anchor truth noise (k + 1) n h_t' h' nxt cur)"

definition rollout_one :: "'h dynamics \<Rightarrow> vec list \<Rightarrow> nat \<Rightarrow> string \<Rightarrow> (nat \<Rightarrow> vec) \<Rightarrow> (nat \<Rightarrow> vec) option \<Rightarrow> trajectory" where
  "rollout_one D x K src truth noise =
     (let (h_t, h) = encoder D x None; cur = last x; prev = (if 1 < length x then x ! (length x - 2) else cur)
      in \<lparr>tj_anchor = last x, tj_steps = rollout_loop D src (last x) truth noise 0 K h_t h cur prev\<rparr>)"

text \<open>
  The rollout of a batch: for every row its trajectories. The draws are indexed by the row of the tiled batch, then the
  step; \<open>truth\<close> has the future states of every row. Stacking no steps at all raises; a batch has at least one row.
\<close>

definition rollout ::
    "'h dynamics \<Rightarrow> vec list list \<Rightarrow> nat \<Rightarrow> nat \<Rightarrow> bool \<Rightarrow> string \<Rightarrow> vec list list option \<Rightarrow> (nat \<Rightarrow> nat \<Rightarrow> vec) \<Rightarrow> trajectory list list res" where
  "rollout D xs K n_samples stochastic src truth randn =
     (if src \<notin> set STATE_SOURCES then Inl ValueError
      else if src = ''truth'' \<and> truth = None then Inl ValueError
      else if src = ''truth'' \<and> \<not> list_all (\<lambda>t. K \<le> length t) (the truth) then Inl ValueError
      else if src \<noteq> ''truth'' \<and> truth \<noteq> None then Inl ValueError
      else if K = 0 then Inl RuntimeError
      else let S = max n_samples 1 in
        Inr (map (\<lambda>b. map (\<lambda>s. rollout_one D (xs ! b) K src (case truth of None \<Rightarrow> \<lambda>k. [] | Some t \<Rightarrow> \<lambda>k. t ! b ! k)
               (if stochastic then Some (randn (b * S + s)) else None)) [0..<S]) [0..<length xs]))"

definition pool_rollouts :: "trajectory list list list \<Rightarrow> trajectory list list res" where
  "pool_rollouts outs = (if outs = [] then Inl ValueError else Inr (map (\<lambda>b. concat (map (\<lambda>out. out ! b) outs)) [0..<length (hd outs)]))"

definition realized_deltas :: "trajectory \<Rightarrow> vec list" where
  "realized_deltas T = (let states = map rs_state (tj_steps T) in map2 vsub states (butlast (tj_anchor T # states)))"

section \<open>Heads\<close>

definition TRAJECTORY_COMPONENTS :: "string list" where
  "TRAJECTORY_COMPONENTS = [''state'', ''hidden'', ''delta'', ''logvar'']"

definition ordered_components :: "string list \<Rightarrow> string list res" where
  "ordered_components components =
     (if \<not> set components \<subseteq> set TRAJECTORY_COMPONENTS then Inl ValueError
      else let ordered = filter (\<lambda>c. c \<in> set components) TRAJECTORY_COMPONENTS in if ordered = [] then Inl ValueError else Inr ordered)"

definition component_widths :: "string list \<Rightarrow> nat \<Rightarrow> nat \<Rightarrow> nat list res" where
  "component_widths components n_features hidden_size =
     bind_res (ordered_components components) (\<lambda>ordered. Inr (map (\<lambda>c. if c = ''hidden'' then hidden_size else n_features) ordered))"

definition concat_components :: "string list \<Rightarrow> (string, vec) dict \<Rightarrow> vec res" where
  "concat_components components parts =
     bind_res (ordered_components components) (\<lambda>ordered.
     bind_res (traverse_res (\<lambda>name. case map_of parts name of None \<Rightarrow> Inl ValueError | Some v \<Rightarrow> Inr v) ordered) (\<lambda>pieces. Inr (concat pieces)))"

text \<open>\<open>score_trajectory\<close> for one trajectory: risk and stage of every step.\<close>

definition score_trajectory :: "'h dynamics \<Rightarrow> trajectory \<Rightarrow> (rat list \<times> vec list) res" where
  "score_trajectory D T =
     bind_res (traverse_res (\<lambda>(st, delta). case dy_trajectory_head D of
           Some components \<Rightarrow> bind_res (concat_components components
             [(''state'', rs_state st), (''hidden'', rs_hidden st), (''delta'', delta), (''logvar'', rs_logvar st)]) (\<lambda>v. Inr (dy_risk D v))
         | None \<Rightarrow> Inr (dy_risk D (rs_state st))) (zip (tj_steps T) (realized_deltas T))) (\<lambda>risk.
       Inr (risk, map (dy_stage D \<circ> rs_state) (tj_steps T)))"

definition observed_context :: "'h dynamics \<Rightarrow> vec list \<Rightarrow> (string, vec) dict" where
  "observed_context D x =
     (let out = fst (dy_gru D x None); n = length x;
          h_prev = (if 2 \<le> n then out ! (n - 2) else map (\<lambda>y. 0) (last out));
          prev1 = (if 2 \<le> n then x ! (n - 2) else map (\<lambda>y. 0) (last x));
          prev2 = (if 3 \<le> n then x ! (n - 3) else map (\<lambda>y. 0) (last x))
      in [(''state'', last x), (''hidden'', last out), (''delta'', vsub (last x) prev1), (''logvar'', mask_logvar D (snd (transition D h_prev prev1 prev2)))])"

definition score_observed :: "'h dynamics \<Rightarrow> vec list \<Rightarrow> (rat \<times> vec) res" where
  "score_observed D x =
     bind_res (case dy_trajectory_head D of Some components \<Rightarrow> bind_res (concat_components components (observed_context D x)) (\<lambda>v. Inr (dy_risk D v))
       | None \<Rightarrow> Inr (dy_risk D (last x))) (\<lambda>risk. Inr (risk, dy_stage D (last x)))"

definition score_stage :: "'h dynamics \<Rightarrow> vec \<Rightarrow> vec" where
  "score_stage D st = dy_stage D st"

definition score_states :: "'h dynamics \<Rightarrow> vec \<Rightarrow> (rat \<times> vec) res" where
  "score_states D st = (if dy_trajectory_head D \<noteq> None then Inl TypeError else Inr (dy_risk D st, score_stage D st))"

section \<open>What if a feature were held\<close>

definition hold :: "nat option \<Rightarrow> rat \<Rightarrow> vec \<Rightarrow> vec" where
  "hold feature_idx clamp_value v = (case feature_idx of None \<Rightarrow> v | Some i \<Rightarrow> v[i := clamp_value])"

fun counterfactual_loop :: "'h dynamics \<Rightarrow> nat option \<Rightarrow> rat \<Rightarrow> (nat \<Rightarrow> vec) option \<Rightarrow> nat \<Rightarrow> nat \<Rightarrow> vec \<Rightarrow> 'h \<Rightarrow> vec \<Rightarrow> vec \<Rightarrow> roll_step list" where
  "counterfactual_loop D idx v noise k 0 h_t h cur prev = []"
| "counterfactual_loop D idx v noise k (Suc n) h_t h cur prev =
     (let (mu, logvar) = transition D h_t cur prev;
          nxt = with_noise D noise k (vadd cur mu) logvar;
          nxt = hold idx v (clamp_vec (- dy_state_clamp D) (dy_state_clamp D) nxt);
          nxt = mask_vec D nxt;
          (h_t', h') = encoder D [nxt] (Some h)
      in \<lparr>rs_state = nxt, rs_mu = mask_vec D mu, rs_logvar = mask_logvar D logvar, rs_hidden = h_t'\<rparr> #
         counterfactual_loop D idx v noise (k + 1) n h_t' h' nxt cur)"

definition counterfactual_one :: "'h dynamics \<Rightarrow> vec list \<Rightarrow> nat option \<Rightarrow> rat \<Rightarrow> nat \<Rightarrow> (nat \<Rightarrow> vec) option \<Rightarrow> trajectory" where
  "counterfactual_one D x idx v K noise =
     (let (h_t, h) = encoder D x None; cur = hold idx v (last x); prev = (if 1 < length x then hold idx v (x ! (length x - 2)) else cur)
      in \<lparr>tj_anchor = last x, tj_steps = counterfactual_loop D idx v noise 0 K h_t h cur prev\<rparr>)"

text \<open>The sampled risks of every horizon for one history; the draws are those of the seed.\<close>

definition counterfactual_rollout :: "'h dynamics \<Rightarrow> vec list \<Rightarrow> string option \<Rightarrow> rat \<Rightarrow> nat \<Rightarrow> nat \<Rightarrow> (nat \<Rightarrow> nat \<Rightarrow> vec) \<Rightarrow> rat list list res" where
  "counterfactual_rollout D x feature_name v K n_samples randn =
     (if (case feature_name of None \<Rightarrow> False | Some f \<Rightarrow> f \<notin> set FEATURE_ORDER) then Inl ValueError
      else if K = 0 then Inl RuntimeError
      else let idx = map_option (\<lambda>f. first_index f FEATURE_ORDER) feature_name in
        bind_res (traverse_res (\<lambda>s. score_trajectory D (counterfactual_one D x idx v K (Some (randn s)))) [0..<max n_samples 1]) (\<lambda>scored.
          Inr (map (\<lambda>k. map (\<lambda>(risk, stage). risk ! k) scored) [0..<K])))"

definition compare_to_baseline :: "'h dynamics \<Rightarrow> vec list \<Rightarrow> string \<Rightarrow> rat \<Rightarrow> nat \<Rightarrow> nat \<Rightarrow> (nat \<Rightarrow> nat \<Rightarrow> vec) \<Rightarrow> (curve_pt list \<times> curve_pt list) res" where
  "compare_to_baseline D x feature_name v K n_samples randn =
     bind_res (counterfactual_rollout D x None 0 K n_samples randn) (\<lambda>baseline.
     bind_res (counterfactual_rollout D x (Some feature_name) v K n_samples randn) (\<lambda>counterfactual.
       Inr (what_if_curve baseline, what_if_curve counterfactual)))"

section \<open>The context a head is trained on\<close>

text \<open>One host's scaled rows, oldest first.\<close>

definition host_windows :: "vec list \<Rightarrow> nat \<Rightarrow> vec \<Rightarrow> vec list list" where
  "host_windows scaled L zero_state =
     (let padded = replicate (L - 1) zero_state @ scaled in map (\<lambda>i. take L (drop i padded)) [0..<length scaled])"

record context_row =
  hc_hidden :: vec
  hc_delta :: vec
  hc_logvar :: vec

definition head_context_row :: "'h dynamics \<Rightarrow> nat \<Rightarrow> vec \<Rightarrow> vec \<times> vec list \<Rightarrow> context_row" where
  "head_context_row D L zero_state = (\<lambda>(row, w).
     let prev1 = (if 2 \<le> L then w ! (L - 2) else zero_state); prev2 = (if 3 \<le> L then w ! (L - 3) else zero_state);
         out = fst (dy_gru D w None); h_prev = (if 2 \<le> L then out ! (L - 2) else map (\<lambda>y. 0) (last out))
     in \<lparr>hc_hidden = last out, hc_delta = vsub row prev1, hc_logvar = mask_logvar D (snd (transition D h_prev prev1 prev2))\<rparr>)"

definition host_context :: "'h dynamics \<Rightarrow> nat \<Rightarrow> vec \<Rightarrow> vec list \<Rightarrow> context_row list" where
  "host_context D L zero_state scaled = map (head_context_row D L zero_state) (zip scaled (host_windows scaled L zero_state))"

text \<open>Every row of a labelled table with its host and window, sorted by host and time; the rows of a host are one stretch.\<close>

definition build_head_context :: "npmath \<Rightarrow> scaler \<Rightarrow> 'h dynamics \<Rightarrow> nat \<Rightarrow> vec lrow list \<Rightarrow> (string \<times> int \<times> context_row) list res" where
  "build_head_context N sc D L table =
     (if table = [] then Inr []
      else let df = by_host_ts table in
        bind_res (transform N sc (map lr_feat df)) (\<lambda>scaled_all. bind_res (zero_state_scaled N sc) (\<lambda>zero_state. Inr
          (concat (map (\<lambda>host. let rows = rows_of (lr_host \<circ> fst) host (zip df scaled_all) in
             map (\<lambda>((r, s), c). (lr_host r, lr_ts r, c)) (zip rows (host_context D L zero_state (map snd rows)))) (firsts (map lr_host df)))))))"

section \<open>The what-if baseline\<close>

lemma counterfactual_loop_model:
  "counterfactual_loop D None v noise k n h_t h cur prev = rollout_loop D ''model'' anchor truth noise k n h_t h cur prev"
  by (induction n arbitrary: k h_t h cur prev) (simp_all add: hold_def Let_def case_prod_beta)

lemma counterfactual_one_model: "counterfactual_one D x None v K noise = rollout_one D x K ''model'' truth noise"
  by (simp add: counterfactual_one_def rollout_one_def hold_def counterfactual_loop_model case_prod_beta Let_def)

text \<open>
  C38. The baseline of a what-if is the forecast's own rollout. With nothing clamped and the same draws, the sampled risks
  of the counterfactual loop are those of the trajectories of \<open>WorldModel.rollout\<close>, horizon by horizon, for any layers,
  head, mask, sample count and number of horizons (\<open>K + 1\<close>).
\<close>
theorem what_if_baseline_is_the_rollout:
  "\<exists>trajectories. rollout D [x] (Suc K) n_samples True ''model'' None randn = Inr [trajectories] \<and>
    counterfactual_rollout D x None v (Suc K) n_samples randn =
      bind_res (traverse_res (score_trajectory D) trajectories) (\<lambda>scored. Inr (map (\<lambda>k. map (\<lambda>(risk, stage). risk ! k) scored) [0..<Suc K]))"
proof -
  let ?ts = "map (\<lambda>s. rollout_one D x (Suc K) ''model'' (\<lambda>k. []) (Some (randn s))) [0..<max n_samples 1]"
  have "traverse_res f (map g ss) = traverse_res (\<lambda>s. f (g s)) ss" for f :: "trajectory \<Rightarrow> (rat list \<times> vec list) res" and g and ss :: "nat list"
    by (induction ss) simp_all
  then have "traverse_res (\<lambda>s. score_trajectory D (counterfactual_one D x None v (Suc K) (Some (randn s)))) [0..<max n_samples 1] = traverse_res (score_trajectory D) ?ts"
    by (simp add: counterfactual_one_model [of D x v "Suc K" _ "\<lambda>k. []"])
  moreover have "rollout D [x] (Suc K) n_samples True ''model'' None randn = Inr [?ts]"
    by (simp add: rollout_def STATE_SOURCES_def)
  ultimately show ?thesis by (simp add: counterfactual_rollout_def del: upt_Suc)
qed

section \<open>Dropped slots\<close>

definition widths_ok :: "'h dynamics \<Rightarrow> bool" where
  "widths_ok D \<longleftrightarrow> (\<forall>h. length (dy_mu D h) = dy_n_features D \<and> length (dy_logvar D h) = dy_n_features D) \<and>
     (case dy_skip D of None \<Rightarrow> True | Some skip \<Rightarrow> \<forall>v. length (skip v) = dy_n_features D)"

definition silent :: "'h dynamics \<Rightarrow> bool list \<Rightarrow> roll_step \<Rightarrow> bool" where
  "silent D m st \<longleftrightarrow> length (rs_state st) = dy_n_features D \<and> list_all (\<lambda>x. - dy_state_clamp D \<le> x \<and> x \<le> dy_state_clamp D) (rs_state st) \<and>
     list_all (\<lambda>(keep, x, mu, lv). keep \<or> x = 0 \<and> mu = 0 \<and> lv = dy_logvar_min D) (zip m (zip (rs_state st) (zip (rs_mu st) (rs_logvar st))))"

lemma transition_lengths:
  assumes "widths_ok D" "transition D h_t cur prev = (mu, logvar)"
  shows "length mu = dy_n_features D" "length logvar = dy_n_features D"
  using assms by (auto simp: widths_ok_def transition_def vadd_def clamp_vec_def Let_def split: option.splits)

lemma silent_step:
  assumes "dy_feature_mask D = Some m" "length m = dy_n_features D" "0 \<le> dy_state_clamp D" "length nxt = dy_n_features D"
    "length mu = dy_n_features D" "length logvar = dy_n_features D"
  shows "silent D m \<lparr>rs_state = mask_vec D (clamp_vec (- dy_state_clamp D) (dy_state_clamp D) nxt), rs_mu = mask_vec D mu, rs_logvar = mask_logvar D logvar, rs_hidden = h\<rparr>"
  using assms by (auto simp: silent_def mask_vec_def mask_logvar_def clamp_vec_def np_clip_def list_all_length min_def max_def)

lemma rollout_loop_silent:
  assumes "dy_feature_mask D = Some m" "length m = dy_n_features D" "0 \<le> dy_state_clamp D" "widths_ok D" "src \<in> set STATE_SOURCES"
    "length anchor = dy_n_features D" "\<And>j. j < k + n \<Longrightarrow> src = ''truth'' \<Longrightarrow> length (truth j) = dy_n_features D"
    "\<And>z j. noise = Some z \<Longrightarrow> length (z j) = dy_n_features D" "length cur = dy_n_features D"
  shows "list_all (silent D m) (rollout_loop D src anchor truth noise k n h_t h cur prev)"
  using assms(5,7,9)
proof (induction n arbitrary: k h_t h cur prev)
  case (Suc n)
  obtain mu logvar where tr: "transition D h_t cur prev = (mu, logvar)" by force
  note len = transition_lengths [OF assms(4) tr]
  define nxt where "nxt = (if src = ''model'' then with_noise D noise k (vadd cur mu) logvar else if src = ''persist'' then anchor else truth k)"
  define mu' where "mu' = (if src = ''persist'' then map (\<lambda>x. 0) mu else mu)"
  have nxt: "length nxt = dy_n_features D"
    using Suc.prems assms(6,8) len by (auto simp: nxt_def with_noise_def vadd_def vmul_def STATE_SOURCES_def split: option.splits)
  have mu': "length mu' = dy_n_features D" using len by (simp add: mu'_def)
  let ?s = "mask_vec D (clamp_vec (- dy_state_clamp D) (dy_state_clamp D) nxt)"
  have "length ?s = dy_n_features D" using nxt assms(1,2) by (simp add: mask_vec_def clamp_vec_def)
  then have "list_all (silent D m) (rollout_loop D src anchor truth noise (k + 1) n h_t' h' ?s cur)" for h_t' h'
    using Suc by (intro Suc.IH) auto
  moreover have "rollout_loop D src anchor truth noise k (Suc n) h_t h cur prev =
      (case encoder D [?s] (Some h) of (h_t', h') \<Rightarrow> \<lparr>rs_state = ?s, rs_mu = mask_vec D mu', rs_logvar = mask_logvar D logvar, rs_hidden = h_t'\<rparr> #
         rollout_loop D src anchor truth noise (k + 1) n h_t' h' ?s cur)"
    by (simp add: tr nxt_def mu'_def Let_def)
  ultimately show ?case using silent_step [OF assms(1-3) nxt mu' len(2)] by (auto simp: case_prod_beta)
qed simp

text \<open>
  C37. A rollout keeps dropped features silent and stays in range. With a feature mask set, every predicted state of every
  trajectory, from the model, from persistence or from the truth, stochastic or not, lies within the clamp; in each
  dropped slot state and change are 0 and the log-variance is at its floor, whatever the layers and the draws are.
\<close>
theorem rollout_keeps_dropped_slots_silent:
  assumes "dy_feature_mask D = Some m" "length m = dy_n_features D" "0 \<le> dy_state_clamp D" "widths_ok D"
    "list_all (\<lambda>x. length (last x) = dy_n_features D) xs" "\<And>i k. length (randn i k) = dy_n_features D"
    "case truth of None \<Rightarrow> True | Some t \<Rightarrow> length t = length xs \<and> list_all (list_all (\<lambda>v. length v = dy_n_features D)) t"
    "rollout D xs K n_samples stochastic src truth randn = Inr out"
  shows "length out = length xs \<and> list_all (\<lambda>ts. length ts = max n_samples 1 \<and> list_all (\<lambda>T. list_all (silent D m) (tj_steps T)) ts) out"
proof -
  let ?truth = "\<lambda>b. case truth of None \<Rightarrow> \<lambda>k. [] | Some t \<Rightarrow> \<lambda>k. t ! b ! k"
  let ?noise = "\<lambda>i. if stochastic then Some (randn i) else None"
  have src: "src \<in> set STATE_SOURCES" and given: "src = ''truth'' \<Longrightarrow> truth \<noteq> None \<and> list_all (\<lambda>t. K \<le> length t) (the truth)"
    and out: "out = map (\<lambda>b. map (\<lambda>s. rollout_one D (xs ! b) K src (?truth b) (?noise (b * max n_samples 1 + s))) [0..<max n_samples 1]) [0..<length xs]"
    using assms(8) by (auto simp: rollout_def Let_def split: if_splits)
  have one: "list_all (silent D m) (tj_steps (rollout_one D (xs ! b) K src (?truth b) (?noise i)))" if b: "b < length xs" for b i
  proof -
    have width: "length (last (xs ! b)) = dy_n_features D" using assms(5) b by (simp add: list_all_length)
    have future: "length (?truth b j) = dy_n_features D" if "j < 0 + K" "src = ''truth''" for j
      using given [OF that(2)] assms(7) b that(1) by (auto simp: list_all_length split: option.splits)
    have draws: "length (z j) = dy_n_features D" if "?noise i = Some z" for z j using that assms(6) by (auto split: if_splits)
    show ?thesis
      unfolding rollout_one_def Let_def case_prod_beta trajectory.simps
      using assms(1-4) src width by (intro rollout_loop_silent) (auto intro: future draws)
  qed
  have "list_all (\<lambda>ts. length ts = max n_samples 1 \<and> list_all (\<lambda>T. list_all (silent D m) (tj_steps T)) ts) (map f [0..<length xs])"
    if "\<And>b. b < length xs \<Longrightarrow> length (f b) = max n_samples 1 \<and> list_all (\<lambda>T. list_all (silent D m) (tj_steps T)) (f b)" for f
    using that by (auto simp: list_all_iff)
  from this [of "\<lambda>b. map (\<lambda>s. rollout_one D (xs ! b) K src (?truth b) (?noise (b * max n_samples 1 + s))) [0..<max n_samples 1]"]
  show ?thesis using one unfolding out by (simp add: list.pred_map o_def list.pred_True)
qed

text \<open>One step of two features, the second dropped; the layers are trivial.\<close>

definition demo_dynamics :: "unit dynamics" where
  "demo_dynamics = \<lparr>dy_gru = \<lambda>x h. (x, ()), dy_mu = \<lambda>h. [1, 1], dy_logvar = \<lambda>h. [0, 0], dy_skip = Some (\<lambda>v. [v ! 1, v ! 0]), dy_std = \<lambda>x. x,
     dy_logvar_min = - 6, dy_logvar_max = 3, dy_state_clamp = 10, dy_n_features = 2, dy_feature_mask = Some [True, False],
     dy_trajectory_head = None, dy_risk = \<lambda>v. v ! 0 / 10, dy_stage = \<lambda>v. [1]\<rparr>"

lemma rollout_keeps_dropped_slots_silent_witness:
  "\<exists>out. rollout demo_dynamics [[[1, 0], [2, 0]]] 3 2 True ''model'' None (\<lambda>i k. [1, 1]) = Inr out \<and>
     list_all (\<lambda>ts. length ts = 2 \<and> list_all (\<lambda>T. list_all (silent demo_dynamics [True, False]) (tj_steps T)) ts) out"
proof -
  obtain out where run: "rollout demo_dynamics [[[1, 0], [2, 0]]] 3 2 True ''model'' None (\<lambda>i k. [1, 1]) = Inr out"
    by (simp add: rollout_def STATE_SOURCES_def)
  have "widths_ok demo_dynamics" by (simp add: widths_ok_def demo_dynamics_def)
  moreover have "dy_feature_mask demo_dynamics = Some [True, False]" "dy_n_features demo_dynamics = 2" "0 \<le> dy_state_clamp demo_dynamics"
    by (simp_all add: demo_dynamics_def)
  ultimately show ?thesis using rollout_keeps_dropped_slots_silent [OF _ _ _ _ _ _ _ run, of "[True, False]"] run by (auto simp: numeral_2_eq_2)
qed

section \<open>What is held\<close>

lemma counterfactual_loop_holds:
  assumes "dy_feature_mask D = None" "widths_ok D" "idx < dy_n_features D" "length cur = dy_n_features D"
    "\<And>z j. noise = Some z \<Longrightarrow> length (z j) = dy_n_features D"
  shows "list_all (\<lambda>st. rs_state st ! idx = v) (counterfactual_loop D (Some idx) v noise k n h_t h cur prev)"
  using assms(4)
proof (induction n arbitrary: k h_t h cur prev)
  case (Suc n)
  obtain mu logvar where tr: "transition D h_t cur prev = (mu, logvar)" by force
  let ?s = "(clamp_vec (- dy_state_clamp D) (dy_state_clamp D) (with_noise D noise k (vadd cur mu) logvar))[idx := v]"
  have len: "length ?s = dy_n_features D"
    using Suc.prems assms(5) transition_lengths [OF assms(2) tr] by (auto simp: clamp_vec_def with_noise_def vadd_def vmul_def split: option.splits)
  then have "list_all (\<lambda>st. rs_state st ! idx = v) (counterfactual_loop D (Some idx) v noise (k + 1) n h_t' h' ?s cur)" for h_t' h'
    by (rule Suc.IH)
  moreover have "?s ! idx = v" using len assms(3) by simp
  ultimately show ?case using assms(1) by (simp add: tr hold_def mask_vec_def case_prod_beta Let_def)
qed simp

text \<open>
  On a dropped feature a what-if at 0, the value its scaled clamp has, changes nothing; at another value it does, since
  the first step reads the clamped observation before the mask applies.
\<close>

lemma mask_zero: "dy_feature_mask D = Some m \<Longrightarrow> idx < length m \<Longrightarrow> \<not> m ! idx \<Longrightarrow> mask_vec D (v[idx := 0]) = mask_vec D v"
  by (cases "idx < length v") (auto simp: mask_vec_def nth_list_update intro!: nth_equalityI)

lemma dropped_what_if_at_zero:
  assumes "dy_feature_mask D = Some m" "idx < length m" "\<not> m ! idx"
  shows "counterfactual_loop D (Some idx) 0 noise k n h_t h cur prev = counterfactual_loop D None 0 noise k n h_t h cur prev"
  by (induction n arbitrary: k h_t h cur prev) (simp_all add: hold_def mask_zero [OF assms] case_prod_beta Let_def)

lemma dropped_what_if_moves_the_state:
  "map rs_state (tj_steps (counterfactual_one demo_dynamics [[1, 0], [2, 0]] (Some 1) 5 1 None)) = [[8, 0]]"
  "map rs_state (tj_steps (counterfactual_one demo_dynamics [[1, 0], [2, 0]] None 0 1 None)) = [[3, 0]]"
  by (simp_all add: counterfactual_one_def demo_dynamics_def encoder_def transition_def hold_def vadd_def with_noise_def clamp_vec_def np_clip_def mask_vec_def mask_logvar_def Let_def)

section \<open>Training and serving read the same context\<close>

lemma host_windows_nth:
  assumes "i < length scaled" "0 < L"
  shows "length (host_windows scaled L z ! i) = L" "last (host_windows scaled L z ! i) = scaled ! i"
    "L \<le> i + 1 \<Longrightarrow> host_windows scaled L z ! i = take L (drop (i + 1 - L) scaled)"
proof -
  define p where "p = replicate (L - 1) z @ scaled"
  have w: "host_windows scaled L z ! i = take L (drop i p)" using assms(1) by (simp add: host_windows_def p_def)
  have p: "length p = L - 1 + length scaled" by (simp add: p_def)
  show len: "length (host_windows scaled L z ! i) = L" using assms p unfolding w by simp
  then have "take L (drop i p) \<noteq> []" using assms(2) unfolding w by auto
  then have "last (take L (drop i p)) = take L (drop i p) ! (L - 1)" using len unfolding w by (simp add: last_conv_nth)
  also have "\<dots> = p ! (i + (L - 1))" using assms p by simp
  also have "\<dots> = scaled ! i" by (simp add: p_def nth_append)
  finally show "last (host_windows scaled L z ! i) = scaled ! i" by (simp add: w)
  show "host_windows scaled L z ! i = take L (drop (i + 1 - L) scaled)" if "L \<le> i + 1"
  proof -
    have "drop i p = drop (i + 1 - L) scaled" using that assms(2) by (simp add: p_def)
    then show ?thesis by (simp add: w)
  qed
qed

text \<open>
  A head reads in training what it reads in serving. For a context of at least three windows, hidden state, change
  and log-variance of every training row are those \<open>observed_context\<close> gives for the row's trailing window, which is the
  host's last \<open>L\<close> observed states once it has that many.
\<close>
lemma trained_context_is_served:
  assumes "3 \<le> L" "i < length scaled"
  shows "observed_context D (host_windows scaled L zero_state ! i) =
      (let c = host_context D L zero_state scaled ! i in
       [(''state'', scaled ! i), (''hidden'', hc_hidden c), (''delta'', hc_delta c), (''logvar'', hc_logvar c)]) \<and>
    (if L \<le> i + 1 then host_windows scaled L zero_state ! i = take L (drop (i + 1 - L) scaled) else True)"
proof -
  note w = host_windows_nth [OF assms(2), of L zero_state]
  have "host_context D L zero_state scaled ! i = head_context_row D L zero_state (scaled ! i, host_windows scaled L zero_state ! i)"
    using assms(2) by (simp add: host_context_def host_windows_def)
  then show ?thesis using w assms(1) by (simp add: observed_context_def head_context_row_def Let_def)
qed

lemma trained_context_is_served_witness:
  "observed_context demo_dynamics [[1, 0], [2, 0], [4, 0]] = [(''state'', [4, 0]), (''hidden'', [4, 0]), (''delta'', [2, 0]), (''logvar'', [0, - 6])]"
  using trained_context_is_served [of 3 2 "[[1, 0], [2, 0], [4, 0]]" demo_dynamics "[0, 0]"]
  by (simp add: host_context_def host_windows_def head_context_row_def demo_dynamics_def vsub_def transition_def clamp_vec_def np_clip_def mask_logvar_def
      numeral_eq_Suc vadd_def)

text \<open>With a context of two windows they differ: training pads with the silent state, serving with zeros.\<close>

lemma short_contexts_differ:
  "hc_logvar (host_context (demo_dynamics\<lparr>dy_gru := \<lambda>x h. (x, ()), dy_logvar := \<lambda>h. [h ! 0, 0]\<rparr>) 1 [7, 0] [[1, 0]] ! 0) = [0, - 6]"
  "hc_delta (host_context demo_dynamics 1 [7, 0] [[1, 0]] ! 0) = [- 6, 0]"
  "map_of (observed_context demo_dynamics [[1, 0]]) ''delta'' = Some [1, 0]"
  by (simp_all add: host_context_def host_windows_def head_context_row_def demo_dynamics_def vsub_def transition_def clamp_vec_def np_clip_def mask_logvar_def
      vadd_def observed_context_def)

text \<open>The changes a trajectory head reads add up to the whole move from the anchor.\<close>

lemma realized_deltas_length: "length (realized_deltas T) = length (tj_steps T)"
  by (simp add: realized_deltas_def Let_def)

end
