(* ===== verification/Spec2Isabelle.thy ===== *)
theory Spec2Isabelle
  imports Persister FeatWorker InferWorker BusRun Metrics ApiForecasts ApiIngest Leads FlowAssemble Dataset ApiExplain WorldModel
begin

text \<open>
  The serving plane of nidra.
\<close>

end
